(* ===== verification/Kernel_Prelude.thy ===== *)
theory Kernel_Prelude
  imports Main "HOL-Library.Word" "HOL-Library.Code_Target_Nat"
begin

unbundle bit_operations_syntax

text \<open>
  Shared vocabulary of the development: 64-bit arithmetic written out on natural
  numbers, the rounding macros of \<^verbatim>\<open>include/linux/kernel.h\<close>, faults as values, and
  the list lemmas that the components use.
\<close>

section \<open>Faults\<close>

text \<open>
  A call either returns a value (\<^term>\<open>Inr\<close>) or stops: \<open>Bug\<close> is a \<^verbatim>\<open>BUG_ON\<close> that
  fires or a \<^verbatim>\<open>panic\<close>, \<open>Oob\<close> an access outside the memory of the model, \<open>Undef\<close> a use
  of a value that nothing has written, \<open>Spin\<close> a loop whose body can never make its condition
  false, \<open>Fuel\<close> says that the bound on the recursion depth chosen for the evaluation was too
  small.
\<close>

datatype fault = Bug | Fuel | Oob | Undef | Spin

type_synonym 'a res = "fault + 'a"

definition rbind :: "'a res \<Rightarrow> ('a \<Rightarrow> 'b res) \<Rightarrow> 'b res" where
  "rbind m f = (case m of Inl e \<Rightarrow> Inl e | Inr x \<Rightarrow> f x)"

lemma rbind_simps [simp]:
  "rbind (Inl e) f = Inl e"
  "rbind (Inr x) f = f x"
  by (simp_all add: rbind_def)

lemma rbind_Inr_iff: "rbind m f = Inr y \<longleftrightarrow> (\<exists>x. m = Inr x \<and> f x = Inr y)"
  by (cases m) simp_all

lemma rbind_InrE:
  assumes "rbind m f = Inr y"
  obtains x where "m = Inr x" and "f x = Inr y"
  using assms by (cases m) simp_all

text \<open>The error numbers that functions return negated (\<^verbatim>\<open>include/uapi/asm-generic/errno*.h\<close>).\<close>

definition E2BIG :: int where "E2BIG = 7"
definition ENOMEM :: int where "ENOMEM = 12"
definition EBUSY :: int where "EBUSY = 16"
definition EINVAL :: int where "EINVAL = 22"
definition ERANGE :: int where "ERANGE = 34"
definition EOVERFLOW :: int where "EOVERFLOW = 75"

lemma rbind_cong [fundef_cong]:
  "m = m' \<Longrightarrow> (\<And>x. m' = Inr x \<Longrightarrow> f x = g x) \<Longrightarrow> rbind m f = rbind m' g"
  by (cases m') simp_all

definition PAGE_SHIFT :: nat where "PAGE_SHIFT = 12"
definition PAGE_SIZE :: nat where "PAGE_SIZE = 2 ^ PAGE_SHIFT"

section \<open>64-bit arithmetic on natural numbers\<close>

type_synonym phys_addr = nat

definition U64_MAX :: nat where
  "U64_MAX = 2 ^ 64 - 1"

definition add64 :: "nat \<Rightarrow> nat \<Rightarrow> nat" where
  "add64 a b = (a + b) mod 2 ^ 64"

definition sub64 :: "nat \<Rightarrow> nat \<Rightarrow> nat" where
  "sub64 a b = (a + (2 ^ 64 - b)) mod 2 ^ 64"

definition not64 :: "nat \<Rightarrow> nat" where
  "not64 a = 2 ^ 64 - 1 - a"

named_theorems u64_simps

lemma add64_exact [u64_simps]: "a + b \<le> U64_MAX \<Longrightarrow> add64 a b = a + b"
  by (simp add: add64_def U64_MAX_def)

lemma sub64_exact [u64_simps]: "b \<le> a \<Longrightarrow> a \<le> U64_MAX \<Longrightarrow> sub64 a b = a - b"
proof -
  assume "b \<le> a" and "a \<le> U64_MAX"
  then have "a + (2 ^ 64 - b) = (a - b) + 2 ^ 64" and "a - b < 2 ^ 64"
    by (simp_all add: U64_MAX_def)
  then show "sub64 a b = a - b" by (simp only: sub64_def mod_add_self2 mod_less)
qed

lemma add64_bound: "add64 a b \<le> U64_MAX"
  by (simp add: add64_def U64_MAX_def)

lemma sub64_bound: "sub64 a b \<le> U64_MAX"
  by (simp add: sub64_def U64_MAX_def)

section \<open>Arrays\<close>

text \<open>
  An array is a list of its allocated length. \<^verbatim>\<open>memmove\<close> of \<open>n\<close> elements from index
  \<open>src\<close> to index \<open>dst\<close> of the same array reads the old contents.
\<close>

definition arr_move :: "'a list \<Rightarrow> nat \<Rightarrow> nat \<Rightarrow> nat \<Rightarrow> 'a list" where
  "arr_move xs dst src n = take dst xs @ take n (drop src xs) @ drop (dst + n) xs"

lemma length_arr_move [simp]:
  "dst + n \<le> length xs \<Longrightarrow> src + n \<le> length xs \<Longrightarrow> length (arr_move xs dst src n) = length xs"
  by (simp add: arr_move_def)

lemma take_arr_move:
  "dst + n \<le> length xs \<Longrightarrow> src + n \<le> length xs \<Longrightarrow>
   take (dst + n) (arr_move xs dst src n) = take dst xs @ take n (drop src xs)"
  by (simp add: arr_move_def)

lemma length_remove1_Suc: "p \<in> set xs \<Longrightarrow> Suc (length (remove1 p xs)) = length xs"
  by (induction xs) auto

section \<open>Rounding macros\<close>

text \<open>
  \<^verbatim>\<open>round_up(x, y)\<close> is \<open>((x - 1) | (y - 1)) + 1\<close> and \<^verbatim>\<open>round_down(x, y)\<close> is
  \<open>x & ~(y - 1)\<close>, both on 64 bits; \<^verbatim>\<open>y\<close> is meant to be a power of two.
\<close>

definition round_up64 :: "nat \<Rightarrow> nat \<Rightarrow> nat" where
  "round_up64 x y = add64 ((sub64 x 1) OR (sub64 y 1)) 1"

definition round_down64 :: "nat \<Rightarrow> nat \<Rightarrow> nat" where
  "round_down64 x y = x AND not64 (sub64 y 1)"

definition clamp64 :: "nat \<Rightarrow> nat \<Rightarrow> nat \<Rightarrow> nat" where
  "clamp64 v lo hi = min (max v lo) hi"

lemma bit_not64: "a < 2 ^ 64 \<Longrightarrow> bit (not64 a) n \<longleftrightarrow> n < 64 \<and> \<not> bit a n" for a :: nat
proof -
  assume a: "a < 2 ^ 64"
  have "int (not64 a) = take_bit 64 (NOT (int a))"
  proof -
    have "take_bit 64 (NOT (int a)) = mask 64 - take_bit 64 (int a)"
      by (simp add: take_bit_not_eq_mask_diff)
    moreover have "take_bit 64 (int a) = int a"
      using a by (simp add: take_bit_int_eq_self_iff)
    ultimately show ?thesis
      using a by (simp add: not64_def mask_eq_exp_minus_1 of_nat_diff)
  qed
  then have "bit (not64 a) n \<longleftrightarrow> bit (take_bit 64 (NOT (int a))) n"
    by (metis bit_of_nat_iff_bit)
  then show ?thesis by (simp add: bit_take_bit_iff bit_not_iff bit_of_nat_iff_bit)
qed

lemma bit_nat_less: "bit x n \<Longrightarrow> x < 2 ^ m \<Longrightarrow> n < m" for x :: nat
proof (rule ccontr)
  assume b: "bit x n" and x: "x < 2 ^ m" and "\<not> n < m"
  then have "(2::nat) ^ m \<le> 2 ^ n" by (simp add: power_increasing)
  with x have "x < 2 ^ n" by (rule order_less_le_trans)
  then have "x div 2 ^ n = 0" by simp
  with b show False by (simp add: bit_iff_odd)
qed

lemma sub64_pow2_1: "k < 64 \<Longrightarrow> sub64 (2 ^ k) 1 = mask k"
proof -
  assume "k < 64"
  then have "(2::nat) ^ k < 2 ^ 64" by (intro power_strict_increasing) simp_all
  then show ?thesis by (simp add: sub64_exact U64_MAX_def mask_eq_exp_minus_1)
qed

lemma mask_less_64: "k < 64 \<Longrightarrow> mask k < (2::nat) ^ 64"
  by (metis less_exp less_imp_le_nat mask_nat_less_exp one_le_numeral order_less_le_trans
      power_increasing)

lemma round_down64_pow2:
  assumes "x \<le> U64_MAX" and "k < 64"
  shows "round_down64 x (2 ^ k) = x div 2 ^ k * 2 ^ k"
proof -
  have x: "x < 2 ^ 64" using assms(1) by (simp add: U64_MAX_def)
  have "x AND not64 (mask k) = push_bit k (drop_bit k x)"
    using mask_less_64 [OF assms(2)]
    by (intro bit_eqI)
      (auto simp: bit_and_iff bit_not64 bit_push_bit_iff bit_drop_bit_eq bit_mask_iff
        dest: bit_nat_less [OF _ x])
  then show ?thesis
    by (simp add: round_down64_def sub64_pow2_1 assms(2) push_bit_eq_mult drop_bit_eq_div
        del: One_nat_def)
qed

lemma or_mask_nat: "(x::nat) OR mask k = x div 2 ^ k * 2 ^ k + (2 ^ k - 1)"
proof -
  have "x OR mask k = push_bit k (drop_bit k x) OR mask k"
    by (intro bit_eqI) (auto simp: bit_or_iff bit_push_bit_iff bit_drop_bit_eq bit_mask_iff)
  also have "\<dots> = push_bit k (drop_bit k x) + mask k"
    by (rule disjunctive_add [symmetric]) (auto simp: bit_push_bit_iff bit_mask_iff)
  finally show ?thesis by (simp add: push_bit_eq_mult drop_bit_eq_div mask_eq_exp_minus_1)
qed

text \<open>
  \<^verbatim>\<open>round_up\<close> gives the next multiple, or 0 where the next multiple does not fit.
\<close>

lemma round_up64_pow2:
  assumes "x \<le> U64_MAX" and "k < 64"
  shows "round_up64 x (2 ^ k) = 0 \<or>
    (x \<le> round_up64 x (2 ^ k) \<and> 2 ^ k dvd round_up64 x (2 ^ k) \<and>
     round_up64 x (2 ^ k) < x + 2 ^ k \<and> round_up64 x (2 ^ k) \<le> U64_MAX)"
proof (cases "x = 0")
  case True
  have "U64_MAX = mask 64" by (simp add: U64_MAX_def mask_eq_exp_minus_1)
  moreover have "mask 64 OR mask k = (mask 64 :: nat)"
    using assms(2) by (intro bit_eqI) (auto simp: bit_or_iff bit_mask_iff)
  moreover have "sub64 x 1 = U64_MAX" using True by (simp add: sub64_def U64_MAX_def)
  moreover have "add64 U64_MAX 1 = 0" by (simp add: add64_def U64_MAX_def)
  ultimately have "round_up64 x (2 ^ k) = 0"
    by (simp add: round_up64_def sub64_pow2_1 assms(2) del: One_nat_def)
  then show ?thesis by simp
next
  case False
  define q where "q = (x - 1) div 2 ^ k"
  have "(x - 1) div 2 ^ k * 2 ^ k \<le> x - 1" by simp
  then have lo: "q * 2 ^ k \<le> x - 1" by (simp add: q_def)
  have hi: "x - 1 < (q + 1) * 2 ^ k"
    unfolding q_def by (metis Suc_eq_plus1 dividend_less_div_times mult.commute mult_Suc zero_less_numeral zero_less_power)
  have eq: "round_up64 x (2 ^ k) = ((q + 1) * 2 ^ k) mod 2 ^ 64"
  proof -
    have "sub64 x 1 = x - 1" using False assms(1) by (simp add: sub64_exact)
    moreover have "q * 2 ^ k + (2 ^ k - 1) + 1 = (q + 1) * (2::nat) ^ k" by simp
    ultimately show ?thesis
      by (simp add: round_up64_def sub64_pow2_1 assms(2) or_mask_nat add64_def q_def del: One_nat_def)
  qed
  have le: "(q + 1) * 2 ^ k \<le> 2 ^ 64"
  proof -
    have "q * 2 ^ k < 2 ^ (64 - k) * 2 ^ k"
      using lo assms False by (simp add: U64_MAX_def flip: power_add)
    then have "q < 2 ^ (64 - k)" by simp
    then have "(q + 1) * 2 ^ k \<le> 2 ^ (64 - k) * 2 ^ k" by (intro mult_le_mono1) simp
    then show ?thesis using assms(2) by (simp flip: power_add)
  qed
  show ?thesis
  proof (cases "(q + 1) * 2 ^ k = 2 ^ 64")
    case True
    then have "round_up64 x (2 ^ k) = 0" using eq by (simp only: mod_self)
    then show ?thesis by simp
  next
    case ne: False
    with le have r: "round_up64 x (2 ^ k) = (q + 1) * 2 ^ k" by (simp only: eq mod_less)
    moreover have "x \<le> (q + 1) * 2 ^ k" and "(q + 1) * 2 ^ k < x + 2 ^ k"
      using hi lo False by (simp_all add: algebra_simps)
    moreover have "(q + 1) * 2 ^ k \<le> U64_MAX" using le ne by (simp add: U64_MAX_def)
    ultimately show ?thesis by (simp del: mult_Suc mult_Suc_right add: dvd_def) 
  qed
qed

end
