(* ===== verification/Memblock_Regions.thy ===== *)
theory Memblock_Regions
  imports Kernel_Prelude
begin

text \<open>
  The region arrays of \<^verbatim>\<open>mm/memblock.c\<close>: \<^verbatim>\<open>struct memblock_type\<close> with the operations
  that touch one array only (insert, remove, merge, the two passes of
  \<^verbatim>\<open>memblock_add_range\<close>, the splitting loop of \<^verbatim>\<open>memblock_isolate_range\<close>, the binary
  search and the iterators).  An array is a list of its allocated length \<open>max_cnt\<close>;
  its first \<open>cnt\<close> elements are live.  Physical addresses are natural numbers below
  \<open>2 ^ 64\<close>, and every addition or subtraction of the code wraps.
\<close>

section \<open>Data\<close>

record memblock_region =
  rg_base :: phys_addr
  rg_size :: phys_addr
  rg_flags :: nat

record memblock_type =
  cnt :: nat
  max_cnt :: nat
  total_size :: phys_addr
  regions :: "memblock_region list"
  regions_at :: "phys_addr option"

definition MEMBLOCK_NONE :: nat where "MEMBLOCK_NONE = 0"
definition MEMBLOCK_NOMAP :: nat where "MEMBLOCK_NOMAP = 1"
definition MEMBLOCK_DMA :: nat where "MEMBLOCK_DMA = 2"
definition MEMBLOCK_MOVABLE :: nat where "MEMBLOCK_MOVABLE = 3"

definition memblock_is_nomap :: "memblock_region \<Rightarrow> bool" where
  "memblock_is_nomap m = (rg_flags m AND MEMBLOCK_NOMAP \<noteq> 0)"

definition memblock_is_dma :: "memblock_region \<Rightarrow> bool" where
  "memblock_is_dma m = (rg_flags m AND MEMBLOCK_DMA \<noteq> 0)"

definition memblock_is_movable :: "memblock_region \<Rightarrow> bool" where
  "memblock_is_movable m = (rg_flags m AND MEMBLOCK_MOVABLE \<noteq> 0)"

definition memblock_set_region_flags :: "memblock_region \<Rightarrow> nat \<Rightarrow> memblock_region" where
  "memblock_set_region_flags r f = r\<lparr>rg_flags := rg_flags r OR f\<rparr>"

definition memblock_clear_region_flags :: "memblock_region \<Rightarrow> nat \<Rightarrow> memblock_region" where
  "memblock_clear_region_flags r f = r\<lparr>rg_flags := rg_flags r AND (2 ^ 32 - 1 - f)\<rparr>"

definition rg_end :: "memblock_region \<Rightarrow> phys_addr" where
  "rg_end r = add64 (rg_base r) (rg_size r)"

section \<open>Operations on one array\<close>

definition memblock_cap_size :: "phys_addr \<Rightarrow> phys_addr \<Rightarrow> phys_addr" where
  "memblock_cap_size base sz = min sz (sub64 U64_MAX base)"

definition memblock_addrs_overlap ::
  "phys_addr \<Rightarrow> phys_addr \<Rightarrow> phys_addr \<Rightarrow> phys_addr \<Rightarrow> bool" where
  "memblock_addrs_overlap base1 size1 base2 size2 =
     (base1 < add64 base2 size2 \<and> base2 < add64 base1 size1)"

function memblock_overlaps_from :: "memblock_type \<Rightarrow> phys_addr \<Rightarrow> phys_addr \<Rightarrow> nat \<Rightarrow> nat" where
  "memblock_overlaps_from t base sz i =
     (if i < cnt t then
        (if memblock_addrs_overlap base sz (rg_base (regions t ! i)) (rg_size (regions t ! i))
         then i else memblock_overlaps_from t base sz (Suc i))
      else i)"
  by pat_completeness auto
termination
  by (relation "measure (\<lambda>(t, b, s, i). cnt t - i)") auto

definition memblock_overlaps_region :: "memblock_type \<Rightarrow> phys_addr \<Rightarrow> phys_addr \<Rightarrow> bool" where
  "memblock_overlaps_region t base sz = (memblock_overlaps_from t base sz 0 < cnt t)"

definition empty_region :: memblock_region where
  "empty_region = \<lparr>rg_base = 0, rg_size = 0, rg_flags = 0\<rparr>"

definition memblock_remove_region :: "memblock_type \<Rightarrow> nat \<Rightarrow> memblock_type" where
  "memblock_remove_region t r =
     (let t1 = t\<lparr>total_size := sub64 (total_size t) (rg_size (regions t ! r)),
                regions := arr_move (regions t) r (r + 1) (cnt t - (r + 1)),
                cnt := cnt t - 1\<rparr>
      in if cnt t1 = 0 then t1\<lparr>cnt := 1, regions := (regions t1)[0 := empty_region]\<rparr> else t1)"

function memblock_merge_from :: "nat \<Rightarrow> memblock_type \<Rightarrow> memblock_type res" where
  "memblock_merge_from i t =
     (if i + 1 < cnt t then
        let this = regions t ! i; next = regions t ! (i + 1) in
        if rg_end this \<noteq> rg_base next \<or> rg_flags this \<noteq> rg_flags next then
          (if rg_end this > rg_base next then Inl Bug
           else memblock_merge_from (i + 1) t)
        else
          memblock_merge_from i
            (t\<lparr>regions := arr_move
                 ((regions t)[i := this\<lparr>rg_size := add64 (rg_size this) (rg_size next)\<rparr>])
                 (i + 1) (i + 2) (cnt t - (i + 2)),
               cnt := cnt t - 1\<rparr>)
      else Inr t)"
  by pat_completeness auto
termination
  by (relation "measure (\<lambda>(i, t). cnt t - i)") auto

definition memblock_merge_regions :: "memblock_type \<Rightarrow> memblock_type res" where
  "memblock_merge_regions t = memblock_merge_from 0 t"

definition memblock_insert_region ::
  "memblock_type \<Rightarrow> nat \<Rightarrow> phys_addr \<Rightarrow> phys_addr \<Rightarrow> nat \<Rightarrow> memblock_type res" where
  "memblock_insert_region t idx base sz flags =
     (if cnt t \<ge> max_cnt t then Inl Bug
      else Inr (t\<lparr>regions := (arr_move (regions t) (idx + 1) idx (cnt t - idx))
                    [idx := \<lparr>rg_base = base, rg_size = sz, rg_flags = flags\<rparr>],
                  cnt := cnt t + 1,
                  total_size := add64 (total_size t) sz\<rparr>))"

lemma memblock_insert_region_cnt:
  "memblock_insert_region t idx b s f = Inr t' \<Longrightarrow> cnt t' = Suc (cnt t)"
  by (auto simp: memblock_insert_region_def split: if_splits)

text \<open>
  One pass of the loop under the label \<^verbatim>\<open>repeat\<close> of \<^verbatim>\<open>memblock_add_range\<close>: with
  \<open>ins\<close> false it counts the regions that are missing, with \<open>ins\<close> true it inserts
  them.
\<close>

function memblock_add_loop ::
  "bool \<Rightarrow> phys_addr \<Rightarrow> nat \<Rightarrow> nat \<Rightarrow> phys_addr \<Rightarrow> nat \<Rightarrow> memblock_type \<Rightarrow>
   (nat \<times> phys_addr \<times> nat \<times> memblock_type) res" where
  "memblock_add_loop ins end flags idx base nr_new t =
     (if idx < cnt t then
        let rgn = regions t ! idx; rbase = rg_base rgn; rend = rg_end rgn in
        if rbase \<ge> end then Inr (idx, base, nr_new, t)
        else if rend \<le> base then memblock_add_loop ins end flags (idx + 1) base nr_new t
        else if rbase > base then
          (if ins then
             (case memblock_insert_region t idx base (sub64 rbase base) flags of
                Inl e \<Rightarrow> Inl e
              | Inr t' \<Rightarrow>
                  memblock_add_loop ins end flags (idx + 2) (min rend end) (nr_new + 1) t')
           else memblock_add_loop ins end flags (idx + 1) (min rend end) (nr_new + 1) t)
        else memblock_add_loop ins end flags (idx + 1) (min rend end) nr_new t
      else Inr (idx, base, nr_new, t))"
  by pat_completeness auto
termination
  by (relation "measure (\<lambda>(ins, e, f, idx, b, n, t). cnt t - idx)")
    (auto dest: memblock_insert_region_cnt)

definition memblock_add_pass ::
  "bool \<Rightarrow> memblock_type \<Rightarrow> phys_addr \<Rightarrow> phys_addr \<Rightarrow> nat \<Rightarrow> (nat \<times> memblock_type) res" where
  "memblock_add_pass ins t base end flags =
     rbind (memblock_add_loop ins end flags 0 base 0 t)
       (\<lambda>(idx, base', nr_new, t').
          if base' < end then
            (if ins then
               rbind (memblock_insert_region t' idx base' (sub64 end base') flags)
                 (\<lambda>t''. Inr (nr_new + 1, t''))
             else Inr (nr_new + 1, t'))
          else Inr (nr_new, t'))"

text \<open>
  The loop of \<^verbatim>\<open>memblock_isolate_range\<close>.  A region is split at most twice, so
  \<open>4 * cnt t + 1\<close> rounds are enough; the bound is the first argument.
\<close>

fun memblock_isolate_loop ::
  "nat \<Rightarrow> phys_addr \<Rightarrow> phys_addr \<Rightarrow> nat \<Rightarrow> nat \<Rightarrow> nat \<Rightarrow> memblock_type \<Rightarrow>
   (nat \<times> nat \<times> memblock_type) res" where
  "memblock_isolate_loop 0 base end idx start_rgn end_rgn t = Inl Fuel"
| "memblock_isolate_loop (Suc n) base end idx start_rgn end_rgn t =
     (if idx < cnt t then
        let rgn = regions t ! idx; rbase = rg_base rgn; rend = rg_end rgn in
        if rbase \<ge> end then Inr (start_rgn, end_rgn, t)
        else if rend \<le> base then
          memblock_isolate_loop n base end (idx + 1) start_rgn end_rgn t
        else if rbase < base then
          rbind
            (memblock_insert_region
               (t\<lparr>regions := (regions t)
                    [idx := rgn\<lparr>rg_base := base,
                                rg_size := sub64 (rg_size rgn) (sub64 base rbase)\<rparr>],
                  total_size := sub64 (total_size t) (sub64 base rbase)\<rparr>)
               idx rbase (sub64 base rbase) (rg_flags rgn))
            (memblock_isolate_loop n base end (idx + 1) start_rgn end_rgn)
        else if rend > end then
          rbind
            (memblock_insert_region
               (t\<lparr>regions := (regions t)
                    [idx := rgn\<lparr>rg_base := end,
                                rg_size := sub64 (rg_size rgn) (sub64 end rbase)\<rparr>],
                  total_size := sub64 (total_size t) (sub64 end rbase)\<rparr>)
               idx rbase (sub64 end rbase) (rg_flags rgn))
            (memblock_isolate_loop n base end idx start_rgn end_rgn)
        else
          memblock_isolate_loop n base end (idx + 1)
            (if end_rgn = 0 then idx else start_rgn) (idx + 1) t
      else Inr (start_rgn, end_rgn, t))"

text \<open>The loop of \<^verbatim>\<open>memblock_remove_range\<close>: indices \<open>end_rgn - 1\<close> down to \<open>start_rgn\<close>.\<close>

fun memblock_remove_regions :: "memblock_type \<Rightarrow> nat \<Rightarrow> nat \<Rightarrow> memblock_type" where
  "memblock_remove_regions t start_rgn 0 = t"
| "memblock_remove_regions t start_rgn (Suc i) =
     (if start_rgn \<le> i then memblock_remove_regions (memblock_remove_region t i) start_rgn i else t)"

text \<open>The loop of \<^verbatim>\<open>memblock_setclr_flag\<close> over the isolated regions.\<close>

fun memblock_setclr_regions :: "bool \<Rightarrow> nat \<Rightarrow> memblock_type \<Rightarrow> nat \<Rightarrow> nat \<Rightarrow> memblock_type" where
  "memblock_setclr_regions set_it flag t i 0 = t"
| "memblock_setclr_regions set_it flag t i (Suc n) =
     memblock_setclr_regions set_it flag
       (t\<lparr>regions := (regions t)
            [i := (if set_it then memblock_set_region_flags (regions t ! i) flag
                   else memblock_clear_region_flags (regions t ! i) flag)]\<rparr>)
       (i + 1) n"

function memblock_search_loop :: "memblock_type \<Rightarrow> phys_addr \<Rightarrow> nat \<Rightarrow> nat \<Rightarrow> int" where
  "memblock_search_loop t addr left right =
     (let mid = (right + left) div 2 in
      if addr < rg_base (regions t ! mid) then
        (if left < mid then memblock_search_loop t addr left mid else -1)
      else if addr \<ge> rg_end (regions t ! mid) then
        (if mid + 1 < right then memblock_search_loop t addr (mid + 1) right else -1)
      else int mid)"
  by pat_completeness auto
termination
  by (relation "measure (\<lambda>(t, a, l, r). r - l)") auto

definition memblock_search :: "memblock_type \<Rightarrow> phys_addr \<Rightarrow> int" where
  "memblock_search t addr = memblock_search_loop t addr 0 (cnt t)"

declare memblock_overlaps_from.simps [simp del] memblock_merge_from.simps [simp del]
  memblock_add_loop.simps [simp del] memblock_search_loop.simps [simp del]

end
