(* ===== verification/Memblock_Lists.thy ===== *)
theory Memblock_Lists
  imports Memblock_Regions
begin

text \<open>
  The meaning of a region array and the list functions that specify what the loops of
  \<^verbatim>\<open>mm/memblock.c\<close> compute: the map from physical addresses to region flags
  (\<open>amap\<close>), sortedness (\<open>rgs_ok\<close>), and, on plain lists, merging, adding a range and
  cutting at a boundary, with the lemmas about each.
\<close>

section \<open>Meaning of a list of regions\<close>

fun amap :: "memblock_region list \<Rightarrow> phys_addr \<Rightarrow> nat option" where
  "amap [] a = None"
| "amap (r # rs) a =
     (if rg_base r \<le> a \<and> a < rg_base r + rg_size r then Some (rg_flags r) else amap rs a)"

definition rg_valid :: "memblock_region \<Rightarrow> bool" where
  "rg_valid r \<longleftrightarrow> 0 < rg_size r \<and> rg_base r + rg_size r \<le> U64_MAX"

definition rg_before :: "memblock_region \<Rightarrow> memblock_region \<Rightarrow> bool" where
  "rg_before r r' \<longleftrightarrow> rg_base r + rg_size r \<le> rg_base r'"

definition rgs_ok :: "memblock_region list \<Rightarrow> bool" where
  "rgs_ok rs \<longleftrightarrow> (\<forall>r \<in> set rs. rg_valid r) \<and> sorted_wrt rg_before rs"

lemma rgs_ok_simps [simp]:
  "rgs_ok []"
  "rgs_ok (r # rs) \<longleftrightarrow> rg_valid r \<and> (\<forall>x \<in> set rs. rg_before r x) \<and> rgs_ok rs"
  "rgs_ok (rs @ rs') \<longleftrightarrow>
     rgs_ok rs \<and> rgs_ok rs' \<and> (\<forall>x \<in> set rs. \<forall>y \<in> set rs'. rg_before x y)"
  by (auto simp: rgs_ok_def sorted_wrt_append)

lemma rg_end_valid [u64_simps]: "rg_valid r \<Longrightarrow> rg_end r = rg_base r + rg_size r"
  by (simp add: rg_valid_def rg_end_def add64_exact)

lemma amap_append:
  "amap (rs @ rs') a = (case amap rs a of None \<Rightarrow> amap rs' a | Some f \<Rightarrow> Some f)"
  by (induction rs) auto

lemma amap_None_iff:
  "amap rs a = None \<longleftrightarrow> (\<forall>r \<in> set rs. \<not> (rg_base r \<le> a \<and> a < rg_base r + rg_size r))"
  by (induction rs) auto

lemma amap_below: "\<forall>r \<in> set rs. a < rg_base r \<Longrightarrow> amap rs a = None"
  by (auto simp: amap_None_iff)

lemma amap_above: "\<forall>r \<in> set rs. rg_base r + rg_size r \<le> a \<Longrightarrow> amap rs a = None"
  by (auto simp: amap_None_iff)

lemma amap_Some_flags: "amap rs a = Some f \<Longrightarrow> \<exists>r \<in> set rs. f = rg_flags r \<and> rg_base r \<le> a \<and> a < rg_base r + rg_size r"
  by (induction rs) (auto split: if_splits)

lemma rgs_ok_amap:
  "rgs_ok rs \<Longrightarrow> r \<in> set rs \<Longrightarrow> rg_base r \<le> a \<Longrightarrow> a < rg_base r + rg_size r \<Longrightarrow>
   amap rs a = Some (rg_flags r)"
  by (induction rs) (auto simp: rg_before_def)

text \<open>The sizes of disjoint regions add up without wrapping.\<close>

lemma rgs_ok_sum: "rgs_ok (r # rs) \<Longrightarrow> rg_base r + sum_list (map rg_size (r # rs)) \<le> U64_MAX"
proof (induction rs arbitrary: r)
  case Nil
  then show ?case by (simp add: rg_valid_def)
next
  case (Cons x rs)
  then have "rg_base x + sum_list (map rg_size (x # rs)) \<le> U64_MAX" by simp
  moreover have "rg_base r + rg_size r \<le> rg_base x" using Cons.prems by (simp add: rg_before_def)
  ultimately show ?case by simp
qed

lemma rgs_ok_sum_bound: "rgs_ok rs \<Longrightarrow> sum_list (map rg_size rs) \<le> U64_MAX"
proof (cases rs)
  case Nil
  then show ?thesis by simp
next
  case (Cons r rs')
  assume "rgs_ok rs"
  then have "rg_base r + sum_list (map rg_size rs) \<le> U64_MAX" using Cons rgs_ok_sum by blast
  then show ?thesis by (rule add_leD2)
qed

lemma rgs_ok_sum_card: "rgs_ok rs \<Longrightarrow> sum_list (map rg_size rs) = card {a. amap rs a \<noteq> None}"
proof (induction rs)
  case Nil
  then show ?case by simp
next
  case (Cons r rs)
  have fin: "finite {a. amap rs a \<noteq> None}" for rs
  proof (induction rs)
    case Nil
    then show ?case by simp
  next
    case (Cons x xs)
    have "{a. amap (x # xs) a \<noteq> None} \<subseteq> {rg_base x..<rg_base x + rg_size x} \<union> {a. amap xs a \<noteq> None}"
      by (auto split: if_splits)
    with Cons show ?case by (meson finite_Un finite_atLeastLessThan finite_subset)
  qed
  have "{a. amap (r # rs) a \<noteq> None} = {rg_base r..<rg_base r + rg_size r} \<union> {a. amap rs a \<noteq> None}"
    by (auto split: if_splits)
  moreover have "{rg_base r..<rg_base r + rg_size r} \<inter> {a. amap rs a \<noteq> None} = {}"
    using Cons.prems by (fastforce simp: rg_before_def dest: amap_Some_flags)
  ultimately show ?case
    using Cons fin by (simp add: card_Un_disjoint)
qed

section \<open>Merging neighbours\<close>

definition rg_mergeable :: "memblock_region \<Rightarrow> memblock_region \<Rightarrow> bool" where
  "rg_mergeable r r' \<longleftrightarrow> rg_base r + rg_size r = rg_base r' \<and> rg_flags r = rg_flags r'"

fun merge_rs :: "memblock_region list \<Rightarrow> memblock_region list" where
  "merge_rs (r # r' # rs) =
     (if rg_mergeable r r' then merge_rs (r\<lparr>rg_size := rg_size r + rg_size r'\<rparr> # rs)
      else r # merge_rs (r' # rs))"
| "merge_rs rs = rs"

fun rgs_minimal :: "memblock_region list \<Rightarrow> bool" where
  "rgs_minimal (r # r' # rs) = (\<not> rg_mergeable r r' \<and> rgs_minimal (r' # rs))"
| "rgs_minimal rs = True"

lemma merge_step:
  assumes ok: "rgs_ok (r # r' # rs)" and m: "rg_mergeable r r'"
  shows "rgs_ok (r\<lparr>rg_size := rg_size r + rg_size r'\<rparr> # rs)"
    and "amap (r\<lparr>rg_size := rg_size r + rg_size r'\<rparr> # rs) = amap (r # r' # rs)"
proof -
  have e: "rg_base r + (rg_size r + rg_size r') = rg_base r' + rg_size r'"
    using m by (simp add: rg_mergeable_def)
  show "rgs_ok (r\<lparr>rg_size := rg_size r + rg_size r'\<rparr> # rs)"
    using ok by (auto simp: rg_valid_def rg_before_def e)
  show "amap (r\<lparr>rg_size := rg_size r + rg_size r'\<rparr> # rs) = amap (r # r' # rs)"
    using m by (auto simp: fun_eq_iff rg_mergeable_def)
qed

lemma merge_rs_amap: "rgs_ok rs \<Longrightarrow> amap (merge_rs rs) = amap rs"
proof (induction rs rule: merge_rs.induct)
  case (1 r r' rs)
  show ?case
  proof (cases "rg_mergeable r r'")
    case True
    with 1(1) [OF True merge_step(1)] 1(3) show ?thesis by (simp add: merge_step(2))
  next
    case False
    with 1 show ?thesis by (simp add: fun_eq_iff)
  qed
qed simp_all

lemma merge_rs_hd: "merge_rs (r # rs) \<noteq> [] \<and> rg_base (hd (merge_rs (r # rs))) = rg_base r \<and>
   rg_flags (hd (merge_rs (r # rs))) = rg_flags r"
  by (induction "r # rs" arbitrary: r rs rule: merge_rs.induct) auto

lemma merge_rs_lower: "\<forall>r \<in> set rs. k \<le> rg_base r \<Longrightarrow> \<forall>r \<in> set (merge_rs rs). k \<le> rg_base r"
  by (induction rs rule: merge_rs.induct) auto

lemma merge_rs_ok: "rgs_ok rs \<Longrightarrow> rgs_ok (merge_rs rs)"
proof (induction rs rule: merge_rs.induct)
  case (1 r r' rs)
  show ?case
  proof (cases "rg_mergeable r r'")
    case True
    with 1(1) [OF True merge_step(1)] 1(3) show ?thesis by simp
  next
    case False
    have "\<forall>x \<in> set (merge_rs (r' # rs)). rg_base r + rg_size r \<le> rg_base x"
      using 1 by (intro merge_rs_lower) (auto simp: rg_before_def)
    with False 1 show ?thesis by (auto simp: rg_before_def)
  qed
qed simp_all

lemma merge_rs_minimal: "rgs_minimal (merge_rs rs)"
proof (induction rs rule: merge_rs.induct)
  case (1 r r' rs)
  show ?case
  proof (cases "rg_mergeable r r'")
    case True
    with 1 show ?thesis by simp
  next
    case False
    obtain x xs where m: "merge_rs (r' # rs) = x # xs"
      using merge_rs_hd by (metis list.exhaust)
    then have "rg_base x = rg_base r'" "rg_flags x = rg_flags r'"
      using merge_rs_hd [of r' rs] by simp_all
    with False 1 m show ?thesis by (simp add: rg_mergeable_def)
  qed
qed simp_all

lemma merge_rs_sum: "sum_list (map rg_size (merge_rs rs)) = sum_list (map rg_size rs)"
  by (induction rs rule: merge_rs.induct) auto

lemma merge_rs_length: "length (merge_rs rs) \<le> length rs \<and> (rs \<noteq> [] \<longrightarrow> merge_rs rs \<noteq> [])"
  by (induction rs rule: merge_rs.induct) auto

section \<open>Adding a range\<close>

definition mk_rg :: "phys_addr \<Rightarrow> phys_addr \<Rightarrow> nat \<Rightarrow> memblock_region" where
  "mk_rg lo hi f = \<lparr>rg_base = lo, rg_size = hi - lo, rg_flags = f\<rparr>"

lemma mk_rg_sel [simp]:
  "rg_base (mk_rg lo hi f) = lo" "rg_size (mk_rg lo hi f) = hi - lo"
  "rg_flags (mk_rg lo hi f) = f"
  by (simp_all add: mk_rg_def)

text \<open>
  \<open>add_rs e f b rs\<close> fills the holes of \<open>rs\<close> between \<open>b\<close> and \<open>e\<close> with regions of
  flags \<open>f\<close>.
\<close>

fun add_rs :: "phys_addr \<Rightarrow> nat \<Rightarrow> phys_addr \<Rightarrow> memblock_region list \<Rightarrow> memblock_region list" where
  "add_rs e f b [] = (if b < e then [mk_rg b e f] else [])"
| "add_rs e f b (r # rs) =
     (if rg_base r \<ge> e then (if b < e then [mk_rg b e f] else []) @ r # rs
      else if rg_base r + rg_size r \<le> b then r # add_rs e f b rs
      else if rg_base r > b then
        mk_rg b (rg_base r) f # r # add_rs e f (min (rg_base r + rg_size r) e) rs
      else r # add_rs e f (min (rg_base r + rg_size r) e) rs)"

lemma add_rs_length: "length rs \<le> length (add_rs e f b rs)"
  by (induction rs arbitrary: b) (auto simp: le_SucI)

lemma add_rs_elem:
  "x \<in> set (add_rs e f b rs) \<Longrightarrow>
   x \<in> set rs \<or> (b \<le> rg_base x \<and> 0 < rg_size x \<and> rg_base x + rg_size x \<le> e)"
proof (induction rs arbitrary: b)
  case Nil
  then show ?case by (auto split: if_splits)
next
  case (Cons r rs)
  then show ?case by (fastforce split: if_splits)
qed

lemma add_rs_ok:
  "rgs_ok rs \<Longrightarrow> e \<le> U64_MAX \<Longrightarrow> rgs_ok (add_rs e f b rs)"
proof (induction rs arbitrary: b)
  case Nil
  then show ?case by (auto simp: rg_valid_def)
next
  case (Cons r rs)
  have before: "rg_before r x" if "x \<in> set (add_rs e f b' rs)" "rg_base r + rg_size r \<le> b'" for x b'
    using add_rs_elem [OF that(1)] that(2) Cons.prems by (auto simp: rg_before_def)
  have at_end: "rg_before r x" if "x \<in> set (add_rs e f e rs)" for x
    using add_rs_elem [OF that] Cons.prems by (auto simp: rg_before_def)
  have m: "rg_before r x" if "x \<in> set (add_rs e f (min (rg_base r + rg_size r) e) rs)" for x
    using that before at_end by (auto simp: min_def split: if_splits)
  have m': "rg_base r \<le> rg_base x" if "x \<in> set (add_rs e f (min (rg_base r + rg_size r) e) rs)" for x
    using m [OF that] by (simp add: rg_before_def)
  show ?case
    using Cons before m m'
    by (fastforce simp: rg_valid_def rg_before_def)
qed

lemma add_rs_amap:
  "rgs_ok rs \<Longrightarrow>
   amap (add_rs e f b rs) a =
     (case amap rs a of Some g \<Rightarrow> Some g | None \<Rightarrow> if b \<le> a \<and> a < e then Some f else None)"
proof (induction rs arbitrary: b)
  case Nil
  then show ?case by simp
next
  case (Cons r rs)
  have lower: "amap rs a = None" if "a < rg_base r + rg_size r"
    using Cons.prems that by (intro amap_below) (auto simp: rg_before_def)
  show ?case
    using Cons lower by (auto simp: min_def rg_valid_def split: option.splits)
qed

lemma add_rs_disjoint:
  "rgs_ok rs \<Longrightarrow> b < e \<Longrightarrow> \<forall>a. b \<le> a \<and> a < e \<longrightarrow> amap rs a = None \<Longrightarrow>
   length (add_rs e f b rs) \<le> Suc (length rs)"
proof (induction rs)
  case Nil
  then show ?case by simp
next
  case (Cons r rs)
  have "\<not> (rg_base r < e \<and> b < rg_base r + rg_size r)"
  proof
    assume o: "rg_base r < e \<and> b < rg_base r + rg_size r"
    have "0 < rg_size r" using Cons.prems(1) by (simp add: rg_valid_def)
    with o Cons.prems(2) have "amap (r # rs) (max b (rg_base r)) \<noteq> None" by auto
    moreover have "b \<le> max b (rg_base r) \<and> max b (rg_base r) < e" using o Cons.prems(2) by simp
    ultimately show False using Cons.prems(3) [rule_format, of "max b (rg_base r)"] by simp
  qed
  moreover have "amap rs a = None" if "b \<le> a \<and> a < e" for a
    using Cons.prems(3) [rule_format, OF that] by (simp split: if_splits)
  then have "length (add_rs e f b rs) \<le> Suc (length rs)" using Cons.prems(1,2) Cons.IH by simp
  ultimately show ?case by auto
qed

lemma add_rs_none:
  "length (add_rs e f b rs) = length rs \<Longrightarrow> add_rs e f b rs = rs"
proof (induction rs arbitrary: b)
  case Nil
  then show ?case by (simp split: if_splits)
next
  case (Cons r rs)
  then show ?case
    using add_rs_length [of rs e f "min (rg_base r + rg_size r) e"]
    by (auto split: if_splits)
qed

section \<open>The live part of an array\<close>

definition live :: "memblock_type \<Rightarrow> memblock_region list" where
  "live t = take (cnt t) (regions t)"

definition arr_ok :: "memblock_type \<Rightarrow> bool" where
  "arr_ok t \<longleftrightarrow> length (regions t) = max_cnt t \<and> cnt t \<le> max_cnt t"

lemma length_live [simp]: "arr_ok t \<Longrightarrow> length (live t) = cnt t"
  by (simp add: live_def arr_ok_def)

lemma live_nth: "i < cnt t \<Longrightarrow> regions t ! i = live t ! i"
  by (simp add: live_def)

lemma live_update:
  "live (t\<lparr>regions := (regions t)[i := r]\<rparr>) = (live t)[i := r]"
  by (simp add: live_def take_update_swap)

lemma live_total [simp]: "live (t\<lparr>total_size := n\<rparr>) = live t"
  by (simp add: live_def)

lemma insert_region_live:
  assumes "memblock_insert_region t idx b s f = Inr t'" and "arr_ok t" and "idx \<le> cnt t"
  shows "arr_ok t'" and "max_cnt t' = max_cnt t" and "cnt t' = Suc (cnt t)"
    and "total_size t' = add64 (total_size t) s"
    and "live t' = take idx (live t) @ \<lparr>rg_base = b, rg_size = s, rg_flags = f\<rparr> # drop idx (live t)"
    and "regions_at t' = regions_at t"
proof -
  from assms(1) have room: "cnt t < max_cnt t"
    and t': "t' = t\<lparr>regions := (arr_move (regions t) (idx + 1) idx (cnt t - idx))
                    [idx := \<lparr>rg_base = b, rg_size = s, rg_flags = f\<rparr>],
                  cnt := cnt t + 1, total_size := add64 (total_size t) s\<rparr>"
    by (auto simp: memblock_insert_region_def split: if_splits)
  then show "max_cnt t' = max_cnt t" and "cnt t' = Suc (cnt t)"
    and "total_size t' = add64 (total_size t) s" and "regions_at t' = regions_at t" by simp_all
  from room assms(2,3) t' show "arr_ok t'" by (simp add: arr_ok_def)
  let ?n = "\<lparr>rg_base = b, rg_size = s, rg_flags = f\<rparr>"
  let ?Z = "take (cnt t - idx) (drop idx (regions t))"
  have lt: "idx < length (regions t)" using room assms(2,3) by (auto simp: arr_ok_def)
  have "live t' = (take (Suc (cnt t)) (arr_move (regions t) (idx + 1) idx (cnt t - idx)))[idx := ?n]"
    by (simp add: t' live_def take_update_swap)
  also have "take (Suc (cnt t)) (arr_move (regions t) (idx + 1) idx (cnt t - idx)) =
      take (idx + 1) (regions t) @ ?Z"
    using room assms(2,3) take_arr_move [of "idx + 1" "cnt t - idx" "regions t" idx]
    by (auto simp: arr_ok_def)
  also have "take (idx + 1) (regions t) = take idx (regions t) @ [regions t ! idx]"
    using lt by (simp add: take_Suc_conv_app_nth)
  also have "((take idx (regions t) @ [regions t ! idx]) @ ?Z)[idx := ?n] =
      take idx (regions t) @ ?n # ?Z"
    using lt by (simp add: list_update_append)
  finally show "live t' = take idx (live t) @ ?n # drop idx (live t)"
    using assms(3) by (simp add: live_def drop_take min_absorb1)
qed

lemma insert_region_room: "cnt t < max_cnt t \<Longrightarrow> \<exists>t'. memblock_insert_region t idx b s f = Inr t'"
  by (simp add: memblock_insert_region_def)

lemma remove_region_live:
  assumes "arr_ok t" and "r < cnt t"
  shows "arr_ok (memblock_remove_region t r)"
    and "max_cnt (memblock_remove_region t r) = max_cnt t"
    and "total_size (memblock_remove_region t r) = sub64 (total_size t) (rg_size (live t ! r))"
    and "live (memblock_remove_region t r) =
      (if cnt t = 1 then [empty_region] else take r (live t) @ drop (Suc r) (live t))"
    and "regions_at (memblock_remove_region t r) = regions_at t"
proof -
  let ?R = "arr_move (regions t) r (r + 1) (cnt t - (r + 1))"
  have len: "length ?R = max_cnt t" using assms by (subst length_arr_move) (auto simp: arr_ok_def)
  have tk: "take (cnt t - 1) ?R = take r (live t) @ drop (Suc r) (live t)"
    using assms take_arr_move [of r "cnt t - (r + 1)" "regions t" "r + 1"]
    by (auto simp: arr_ok_def live_def drop_take min_def)
  show "arr_ok (memblock_remove_region t r)" and "max_cnt (memblock_remove_region t r) = max_cnt t"
    and "total_size (memblock_remove_region t r) = sub64 (total_size t) (rg_size (live t ! r))"
    and "regions_at (memblock_remove_region t r) = regions_at t"
    using assms len by (auto simp: memblock_remove_region_def arr_ok_def Let_def live_nth)
  show "live (memblock_remove_region t r) =
      (if cnt t = 1 then [empty_region] else take r (live t) @ drop (Suc r) (live t))"
  proof (cases "cnt t = 1")
    case True
    then have "length ?R \<noteq> 0" using len assms by (auto simp: arr_ok_def)
    then have "?R \<noteq> []" by (simp only: length_0_conv not_False_eq_True)
    then have "take (Suc 0) (?R[0 := empty_region]) = [empty_region]"
      by (cases ?R) simp_all
    with True show ?thesis by (simp add: memblock_remove_region_def live_def Let_def)
  next
    case False
    with tk assms show ?thesis by (simp add: memblock_remove_region_def live_def Let_def)
  qed
qed

section \<open>The merging loop computes the merged list\<close>

lemma merge_from_stop: "\<not> i + 1 < cnt t \<Longrightarrow> memblock_merge_from i t = Inr t"
  by (subst memblock_merge_from.simps) simp

lemma merge_from_skip:
  assumes "i + 1 < cnt t" and "rg_valid (live t ! i)" and "rg_before (live t ! i) (live t ! (i + 1))"
    and "\<not> rg_mergeable (live t ! i) (live t ! (i + 1))"
  shows "memblock_merge_from i t = memblock_merge_from (i + 1) t"
  using assms
  by (subst memblock_merge_from.simps)
    (auto simp: Let_def live_nth rg_mergeable_def rg_end_valid rg_before_def)

definition merged :: "nat \<Rightarrow> memblock_type \<Rightarrow> memblock_type" where
  "merged i t =
     t\<lparr>regions := arr_move
          ((regions t)[i := (live t ! i)\<lparr>rg_size := add64 (rg_size (live t ! i)) (rg_size (live t ! (i + 1)))\<rparr>])
          (i + 1) (i + 2) (cnt t - (i + 2)),
        cnt := cnt t - 1\<rparr>"

lemma merge_from_join:
  assumes "i + 1 < cnt t" and "rg_valid (live t ! i)" and "rg_mergeable (live t ! i) (live t ! (i + 1))"
  shows "memblock_merge_from i t = memblock_merge_from i (merged i t)"
  using assms
  by (subst memblock_merge_from.simps)
    (auto simp: Let_def live_nth rg_mergeable_def rg_end_valid merged_def)

lemma merged_live:
  assumes "arr_ok t" and "i + 1 < cnt t" and "rg_valid (live t ! (i + 1))"
    and "rg_mergeable (live t ! i) (live t ! (i + 1))"
  shows "arr_ok (merged i t)" and "max_cnt (merged i t) = max_cnt t"
    and "total_size (merged i t) = total_size t" and "regions_at (merged i t) = regions_at t"
    and "cnt (merged i t) = cnt t - 1"
    and "live (merged i t) = take i (live t) @
      (live t ! i)\<lparr>rg_size := rg_size (live t ! i) + rg_size (live t ! (i + 1))\<rparr> # drop (i + 2) (live t)"
proof -
  let ?r = "live t ! i" and ?r' = "live t ! (i + 1)"
  let ?n = "?r\<lparr>rg_size := add64 (rg_size ?r) (rg_size ?r')\<rparr>"
  let ?R = "arr_move ((regions t)[i := ?n]) (i + 1) (i + 2) (cnt t - (i + 2))"
  have sz: "add64 (rg_size ?r) (rg_size ?r') = rg_size ?r + rg_size ?r'"
    using assms(3,4) by (intro add64_exact) (simp add: rg_valid_def rg_mergeable_def)
  have lenR: "length (regions t) = max_cnt t" "cnt t \<le> max_cnt t" using assms(1) by (simp_all add: arr_ok_def)
  then have "length ?R = max_cnt t" using assms(2) by (subst length_arr_move) auto
  with lenR show "arr_ok (merged i t)" by (simp add: arr_ok_def merged_def)
  show "max_cnt (merged i t) = max_cnt t" "total_size (merged i t) = total_size t"
    "regions_at (merged i t) = regions_at t" "cnt (merged i t) = cnt t - 1"
    by (simp_all add: merged_def)
  have n: "cnt t - 1 = i + 1 + (cnt t - (i + 2))" using assms(2) by arith
  have "live (merged i t) = take (cnt t - 1) ?R"
    by (simp add: live_def merged_def)
  also have "\<dots> = take (i + 1 + (cnt t - (i + 2))) ?R" by (simp only: n)
  also have "\<dots> = take (i + 1) ((regions t)[i := ?n]) @ take (cnt t - (i + 2)) (drop (i + 2) ((regions t)[i := ?n]))"
    using lenR assms(2) by (intro take_arr_move) auto
  also have "take (i + 1) ((regions t)[i := ?n]) = take i (regions t) @ [?n]"
    using lenR assms(2) by (simp add: take_Suc_conv_app_nth)
  finally have eq: "live (merged i t) =
      (take i (regions t) @ [?n]) @ take (cnt t - (i + 2)) (drop (i + 2) ((regions t)[i := ?n]))" .
  have tk: "take i (regions t) = take i (live t)" using assms(2) by (simp add: live_def min_absorb1)
  have dr: "take (cnt t - (i + 2)) (drop (i + 2) ((regions t)[i := ?n])) = drop (i + 2) (live t)"
    unfolding live_def by (simp add: drop_take)
  have "live (merged i t) = (take i (live t) @ [?n]) @ drop (i + 2) (live t)"
    unfolding eq tk dr ..
  then show "live (merged i t) = take i (live t) @
      ?r\<lparr>rg_size := rg_size ?r + rg_size ?r'\<rparr> # drop (i + 2) (live t)"
    unfolding sz by simp
qed

definition same_frame :: "memblock_type \<Rightarrow> memblock_type \<Rightarrow> bool" where
  "same_frame t t' \<longleftrightarrow> max_cnt t' = max_cnt t \<and> regions_at t' = regions_at t"

lemma same_frame_refl [simp]: "same_frame t t"
  by (simp add: same_frame_def)

lemma same_frame_trans: "same_frame t t' \<Longrightarrow> same_frame t' t'' \<Longrightarrow> same_frame t t''"
  by (simp add: same_frame_def)

lemma merge_from_live:
  assumes "arr_ok t" and "rgs_ok (live t)" and "i < cnt t"
  shows "\<exists>t'. memblock_merge_from i t = Inr t' \<and> arr_ok t' \<and> same_frame t t' \<and>
    total_size t' = total_size t \<and> live t' = take i (live t) @ merge_rs (drop i (live t))"
  using assms
proof (induction "cnt t - i" arbitrary: i t rule: less_induct)
  case less
  show ?case
  proof (cases "i + 1 < cnt t")
    case False
    with less.prems have "drop i (live t) = [live t ! i]"
      by (simp add: Cons_nth_drop_Suc [symmetric])
    then have "take i (live t) @ merge_rs (drop i (live t)) = live t"
      by (metis append_take_drop_id merge_rs.simps(3))
    with False less.prems merge_from_stop show ?thesis by auto
  next
    case True
    let ?r = "live t ! i" and ?r' = "live t ! (i + 1)" and ?rest = "drop (i + 2) (live t)"
    have dr: "drop i (live t) = ?r # ?r' # ?rest"
      using True less.prems by (simp add: Cons_nth_drop_Suc)
    have ok: "rgs_ok (take i (live t) @ ?r # ?r' # ?rest)"
      using less.prems(2) dr by (metis append_take_drop_id)
    then have v: "rg_valid ?r" "rg_valid ?r'" "rg_before ?r ?r'" by simp_all
    show ?thesis
    proof (cases "rg_mergeable ?r ?r'")
      case False
      have "\<exists>t'. memblock_merge_from (i + 1) t = Inr t' \<and> arr_ok t' \<and> same_frame t t' \<and>
          total_size t' = total_size t \<and> live t' = take (i + 1) (live t) @ merge_rs (drop (i + 1) (live t))"
        using True less.prems by (intro less.hyps) auto
      moreover have "take (i + 1) (live t) @ merge_rs (drop (i + 1) (live t)) =
          take i (live t) @ merge_rs (drop i (live t))"
      proof -
        have "drop (i + 1) (live t) = ?r' # ?rest" using dr by (metis Suc_eq_plus1 drop_Suc list.sel(3) tl_drop)
        moreover have "take (i + 1) (live t) = take i (live t) @ [?r]"
          using True less.prems by (simp add: take_Suc_conv_app_nth)
        ultimately show ?thesis using False dr by simp
      qed
      ultimately show ?thesis using merge_from_skip [OF True v(1,3) False] by simp
    next
      case m: True
      note ml = merged_live [OF less.prems(1) True v(2) m]
      have "rgs_ok (?r\<lparr>rg_size := rg_size ?r + rg_size ?r'\<rparr> # ?rest)"
        using merge_step(1) [of ?r ?r' ?rest] ok m by simp
      then have "rgs_ok (live (merged i t))"
        using ok m by (auto simp: ml rg_before_def)
      then have "\<exists>t'. memblock_merge_from i (merged i t) = Inr t' \<and> arr_ok t' \<and> same_frame (merged i t) t' \<and>
          total_size t' = total_size (merged i t) \<and>
          live t' = take i (live (merged i t)) @ merge_rs (drop i (live (merged i t)))"
        using True less.prems ml by (intro less.hyps) auto
      moreover have "take i (live (merged i t)) @ merge_rs (drop i (live (merged i t))) =
          take i (live t) @ merge_rs (drop i (live t))"
        using dr m True less.prems by (simp add: ml)
      ultimately show ?thesis
        using merge_from_join [OF True v(1) m] ml by (simp add: same_frame_def)
    qed
  qed
qed

lemma merge_regions_live:
  assumes "arr_ok t" and "rgs_ok (live t)" and "0 < cnt t"
  shows "\<exists>t'. memblock_merge_regions t = Inr t' \<and> arr_ok t' \<and> same_frame t t' \<and>
    total_size t' = total_size t \<and> live t' = merge_rs (live t)"
  using merge_from_live [OF assms] by (simp add: memblock_merge_regions_def)

section \<open>The adding passes\<close>

definition tot_ok :: "memblock_type \<Rightarrow> bool" where
  "tot_ok t \<longleftrightarrow> total_size t = sum_list (map rg_size (live t)) mod 2 ^ 64"

text \<open>
  What follows the loop in one pass: the remaining portion is counted or inserted.
\<close>

definition add_finish ::
  "bool \<Rightarrow> phys_addr \<Rightarrow> nat \<Rightarrow> nat \<times> phys_addr \<times> nat \<times> memblock_type \<Rightarrow> (nat \<times> memblock_type) res" where
  "add_finish ins e f = (\<lambda>(idx, base', nr_new, t').
     if base' < e then
       (if ins then
          rbind (memblock_insert_region t' idx base' (sub64 e base') f)
            (\<lambda>t''. Inr (nr_new + 1, t''))
        else Inr (nr_new + 1, t'))
     else Inr (nr_new, t'))"

lemma add_pass_eq:
  "memblock_add_pass ins t base e f =
     rbind (memblock_add_loop ins e f 0 base 0 t) (add_finish ins e f)"
  by (simp add: memblock_add_pass_def add_finish_def)

lemma add_loop_stop:
  assumes "cnt t \<le> idx \<or> e \<le> rg_base (regions t ! idx)"
  shows "memblock_add_loop ins e f idx b n t = Inr (idx, b, n, t)"
  using assms by (subst memblock_add_loop.simps) (auto simp: Let_def)

lemma add_loop_count:
  assumes "arr_ok t" and "live t = P @ Q" and "length P = idx" and "rgs_ok Q"
  shows "rbind (memblock_add_loop False e f idx b n t) (add_finish False e f) =
    Inr (n + (length (add_rs e f b Q) - length Q), t)"
  using assms(2-)
proof (induction Q arbitrary: P idx b n)
  case Nil
  then have "cnt t \<le> idx" using assms(1) by (metis append_Nil2 length_live order_refl)
  then show ?case by (simp add: add_loop_stop add_finish_def)
next
  case (Cons r Q)
  have idx: "idx < cnt t" using Cons.prems assms(1)
    by (metis add_less_cancel_left add_0_right length_append length_live length_greater_0_conv list.distinct(1))
  then have nth: "regions t ! idx = r" using Cons.prems by (simp add: live_nth nth_append)
  have v: "rg_end r = rg_base r + rg_size r" using Cons.prems by (simp add: rg_end_valid)
  have IH: "rbind (memblock_add_loop False e f (idx + 1) b' n' t) (add_finish False e f) =
      Inr (n' + (length (add_rs e f b' Q) - length Q), t)" for b' n'
    using Cons.prems by (intro Cons.IH [where P = "P @ [r]"]) simp_all
  have len: "length Q \<le> length (add_rs e f b' Q)" for b' by (rule add_rs_length)
  show ?case
  proof (cases "e \<le> rg_base r")
    case True
    then show ?thesis by (simp add: add_loop_stop nth add_finish_def)
  next
    case False
    then show ?thesis
      using idx nth v IH len [of "min (rg_base r + rg_size r) e"]
      by (subst memblock_add_loop.simps) (simp add: Let_def Suc_diff_le)
  qed
qed

text \<open>The inserting pass turns the live list into \<^term>\<open>add_rs\<close> of it.\<close>

lemma insert_region_tot: 
  assumes "memblock_insert_region t idx b s f = Inr t'" and "arr_ok t" and "idx \<le> cnt t" and "tot_ok t"
  shows "tot_ok t'"
proof -
  note il = insert_region_live [OF assms(1-3)]
  have "sum_list (map rg_size (live t')) = sum_list (map rg_size (live t)) + s"
    unfolding il(5) by (subst (3) append_take_drop_id [of idx "live t", symmetric]) (simp del: append_take_drop_id)
  then show ?thesis using assms(4) by (simp add: tot_ok_def il(4) add64_def mod_add_left_eq)
qed

lemma add_loop_insert:
  assumes "arr_ok t" and "tot_ok t" and "live t = P @ Q" and "length P = idx" and "rgs_ok Q"
    and "e \<le> U64_MAX" and "length P + length (add_rs e f b Q) \<le> max_cnt t"
  shows "\<exists>t'. rbind (memblock_add_loop True e f idx b n t) (add_finish True e f) =
      Inr (n + (length (add_rs e f b Q) - length Q), t') \<and>
    arr_ok t' \<and> tot_ok t' \<and> same_frame t t' \<and> live t' = P @ add_rs e f b Q"
  using assms
proof (induction Q arbitrary: P idx b n t)
  case Nil
  then have c: "cnt t = idx" by (metis append_Nil2 length_live)
  show ?case
  proof (cases "b < e")
    case True
    then have "cnt t < max_cnt t" using Nil c by simp
    then obtain t' where t': "memblock_insert_region t idx b (sub64 e b) f = Inr t'"
      using insert_region_room by blast
    note il = insert_region_live [OF t' Nil.prems(1)] insert_region_tot [OF t' Nil.prems(1) _ Nil.prems(2)]
    have "sub64 e b = e - b" using True Nil.prems by (simp add: sub64_exact)
    with True t' il c Nil show ?thesis
      by (simp add: add_loop_stop add_finish_def same_frame_def mk_rg_def)
  next
    case False
    with Nil c show ?thesis by (simp add: add_loop_stop add_finish_def)
  qed
next
  case (Cons r Q)
  have idx: "idx < cnt t" using Cons.prems
    by (metis add_less_cancel_left add_0_right length_append length_live length_greater_0_conv list.distinct(1))
  have cnt: "cnt t = length P + Suc (length Q)"
    using Cons.prems by (metis length_append length_Cons length_live)
  have nth: "regions t ! idx = r" using idx Cons.prems by (simp add: live_nth nth_append)
  have v: "rg_end r = rg_base r + rg_size r" using Cons.prems by (simp add: rg_end_valid)
  have len: "length Q \<le> length (add_rs e f b' Q)" for b' by (rule add_rs_length)
  have skip: "\<exists>t'. rbind (memblock_add_loop True e f (idx + 1) b' n t) (add_finish True e f) =
      Inr (n + (length (add_rs e f b' Q) - length Q), t') \<and>
    arr_ok t' \<and> tot_ok t' \<and> same_frame t t' \<and> live t' = (P @ [r]) @ add_rs e f b' Q"
    if "length P + Suc (length (add_rs e f b' Q)) \<le> max_cnt t" for b'
    using Cons.prems that by (intro Cons.IH) simp_all
  show ?case
  proof (cases "e \<le> rg_base r")
    case True
    show ?thesis
    proof (cases "b < e")
      case be: True
      then have "cnt t < max_cnt t" using Cons.prems cnt True by simp
      then obtain t' where t': "memblock_insert_region t idx b (sub64 e b) f = Inr t'"
        using insert_region_room by blast
      note il = insert_region_live [OF t' Cons.prems(1)] insert_region_tot [OF t' Cons.prems(1) _ Cons.prems(2)]
      have "sub64 e b = e - b" using be Cons.prems by (simp add: sub64_exact)
      with True be t' il Cons.prems idx nth show ?thesis
        by (simp add: add_loop_stop add_finish_def same_frame_def mk_rg_def)
    next
      case False
      with True Cons.prems nth show ?thesis by (simp add: add_loop_stop add_finish_def)
    qed
  next
    case lt: False
    consider (below) "rg_base r + rg_size r \<le> b"
      | (gap) "\<not> rg_base r + rg_size r \<le> b" "b < rg_base r"
      | (inside) "\<not> rg_base r + rg_size r \<le> b" "\<not> b < rg_base r" by blast
    then show ?thesis
    proof cases
      case below
      then have "memblock_add_loop True e f idx b n t = memblock_add_loop True e f (idx + 1) b n t"
        using idx nth v lt by (subst memblock_add_loop.simps) (simp add: Let_def)
      with skip [of b] below lt Cons.prems show ?thesis by simp
    next
      case inside
      then have "memblock_add_loop True e f idx b n t =
          memblock_add_loop True e f (idx + 1) (min (rg_base r + rg_size r) e) n t"
        using idx nth v lt by (subst memblock_add_loop.simps) (simp add: Let_def)
      with skip [of "min (rg_base r + rg_size r) e"] inside lt Cons.prems show ?thesis by simp
    next
      case gap
      let ?b = "min (rg_base r + rg_size r) e"
      have room: "length P + Suc (Suc (length (add_rs e f ?b Q))) \<le> max_cnt t"
        using Cons.prems(7) gap lt by simp
      then have "cnt t < max_cnt t" using cnt len [of ?b] by simp
      then obtain t1 where t1: "memblock_insert_region t idx b (sub64 (rg_base r) b) f = Inr t1"
        using insert_region_room by blast
      note il = insert_region_live [OF t1 Cons.prems(1)] insert_region_tot [OF t1 Cons.prems(1) _ Cons.prems(2)]
      have "sub64 (rg_base r) b = rg_base r - b"
        using gap Cons.prems by (intro sub64_exact) (simp_all add: rg_valid_def)
      then have lv: "live t1 = (P @ [mk_rg b (rg_base r) f, r]) @ Q"
        using il(5) idx Cons.prems by (simp add: mk_rg_def)
      have "\<exists>t'. rbind (memblock_add_loop True e f (idx + 2) ?b (n + 1) t1) (add_finish True e f) =
          Inr (n + 1 + (length (add_rs e f ?b Q) - length Q), t') \<and>
        arr_ok t' \<and> tot_ok t' \<and> same_frame t1 t' \<and>
        live t' = (P @ [mk_rg b (rg_base r) f, r]) @ add_rs e f ?b Q"
        using Cons.prems il idx lv room by (intro Cons.IH) simp_all
      moreover have "memblock_add_loop True e f idx b n t =
          memblock_add_loop True e f (idx + 2) ?b (n + 1) t1"
        using idx nth v lt gap t1 by (subst memblock_add_loop.simps) (simp add: Let_def)
      moreover have "same_frame t t1" using il idx by (simp add: same_frame_def)
      ultimately show ?thesis
        using gap lt len [of ?b] same_frame_trans [of t t1] by (auto simp: Suc_diff_le)
    qed
  qed
qed

text \<open>Without room for all the new regions the pass stops at the \<^verbatim>\<open>BUG_ON\<close>.\<close>

lemma insert_region_full: "max_cnt t \<le> cnt t \<Longrightarrow> memblock_insert_region t idx b s f = Inl Bug"
  by (simp add: memblock_insert_region_def)

lemma add_loop_no_room:
  assumes "arr_ok t" and "live t = P @ Q" and "length P = idx" and "rgs_ok Q"
    and "max_cnt t < length P + length (add_rs e f b Q)"
  shows "rbind (memblock_add_loop True e f idx b n t) (add_finish True e f) = Inl Bug"
  using assms
proof (induction Q arbitrary: P idx b n t)
  case Nil
  then have c: "cnt t = idx" by (metis append_Nil2 length_live)
  with Nil have "b < e" "max_cnt t \<le> cnt t" by (auto simp: arr_ok_def split: if_splits)
  with c show ?case by (simp add: add_loop_stop add_finish_def insert_region_full)
next
  case (Cons r Q)
  have cnt: "cnt t = length P + Suc (length Q)"
    using Cons.prems by (metis length_append length_Cons length_live)
  then have idx: "idx < cnt t" using Cons.prems(3) by simp
  have cm: "cnt t \<le> max_cnt t" using Cons.prems(1) by (simp add: arr_ok_def)
  have nth: "regions t ! idx = r" using idx Cons.prems by (simp add: live_nth nth_append)
  have v: "rg_end r = rg_base r + rg_size r" using Cons.prems by (simp add: rg_end_valid)
  have skip: "rbind (memblock_add_loop True e f (idx + 1) b' n t) (add_finish True e f) = Inl Bug"
    if "max_cnt t < length P + Suc (length (add_rs e f b' Q))" for b'
    using Cons.prems that by (intro Cons.IH [where P = "P @ [r]"]) simp_all
  show ?case
  proof (cases "e \<le> rg_base r")
    case True
    then have "b < e" "max_cnt t \<le> cnt t" using Cons.prems(5) cnt cm by (simp_all split: if_splits)
    with True nth show ?thesis by (simp add: add_loop_stop add_finish_def insert_region_full)
  next
    case lt: False
    let ?b = "min (rg_base r + rg_size r) e"
    consider (below) "rg_base r + rg_size r \<le> b"
      | (full) "\<not> rg_base r + rg_size r \<le> b" "b < rg_base r" "max_cnt t \<le> cnt t"
      | (gap) "\<not> rg_base r + rg_size r \<le> b" "b < rg_base r" "cnt t < max_cnt t"
      | (inside) "\<not> rg_base r + rg_size r \<le> b" "\<not> b < rg_base r" by linarith
    then show ?thesis
    proof cases
      case below
      then have "memblock_add_loop True e f idx b n t = memblock_add_loop True e f (idx + 1) b n t"
        using idx nth v lt by (subst memblock_add_loop.simps) (simp add: Let_def)
      with skip [of b] below lt Cons.prems show ?thesis by simp
    next
      case inside
      then have "memblock_add_loop True e f idx b n t = memblock_add_loop True e f (idx + 1) ?b n t"
        using idx nth v lt by (subst memblock_add_loop.simps) (simp add: Let_def)
      with skip [of ?b] inside lt Cons.prems show ?thesis by simp
    next
      case full
      then have "memblock_add_loop True e f idx b n t = Inl Bug"
        using idx nth v lt by (subst memblock_add_loop.simps) (simp add: Let_def insert_region_full)
      then show ?thesis by simp
    next
      case gap
      obtain t1 where t1: "memblock_insert_region t idx b (sub64 (rg_base r) b) f = Inr t1"
        using insert_region_room [OF gap(3)] by blast
      note il = insert_region_live [OF t1 Cons.prems(1)]
      let ?x = "\<lparr>rg_base = b, rg_size = sub64 (rg_base r) b, rg_flags = f\<rparr>"
      have "rbind (memblock_add_loop True e f (idx + 2) ?b (n + 1) t1) (add_finish True e f) = Inl Bug"
        using Cons.prems il idx gap lt by (intro Cons.IH [where P = "P @ [?x, r]"]) simp_all
      moreover have "memblock_add_loop True e f idx b n t = memblock_add_loop True e f (idx + 2) ?b (n + 1) t1"
        using idx nth v lt gap t1 by (subst memblock_add_loop.simps) (simp add: Let_def)
      ultimately show ?thesis by simp
    qed
  qed
qed

end
