(* ===== verification/Memblock_Cuts.thy ===== *)
theory Memblock_Cuts
  imports Memblock_Lists
begin

text \<open>
  Cutting a region array at the two ends of a range (\<^verbatim>\<open>memblock_isolate_range\<close>),
  removing and reflagging the isolated regions, and looking addresses up: the loops of
  \<^verbatim>\<open>mm/memblock.c\<close> on a sorted array.
\<close>

section \<open>Replacing one region by the two halves\<close>

definition cut :: "memblock_type \<Rightarrow> nat \<Rightarrow> phys_addr \<Rightarrow> memblock_type res" where
  "cut t idx c =
     (let rgn = regions t ! idx; rbase = rg_base rgn in
      memblock_insert_region
        (t\<lparr>regions := (regions t)
             [idx := rgn\<lparr>rg_base := c, rg_size := sub64 (rg_size rgn) (sub64 c rbase)\<rparr>],
           total_size := sub64 (total_size t) (sub64 c rbase)\<rparr>)
        idx rbase (sub64 c rbase) (rg_flags rgn))"

definition lower_half :: "memblock_region \<Rightarrow> phys_addr \<Rightarrow> memblock_region" where
  "lower_half r c = \<lparr>rg_base = rg_base r, rg_size = c - rg_base r, rg_flags = rg_flags r\<rparr>"

definition upper_half :: "memblock_region \<Rightarrow> phys_addr \<Rightarrow> memblock_region" where
  "upper_half r c = \<lparr>rg_base = c, rg_size = rg_base r + rg_size r - c, rg_flags = rg_flags r\<rparr>"

lemma half_sel [simp]:
  "rg_base (lower_half r c) = rg_base r" "rg_size (lower_half r c) = c - rg_base r"
  "rg_flags (lower_half r c) = rg_flags r" "rg_base (upper_half r c) = c"
  "rg_size (upper_half r c) = rg_base r + rg_size r - c" "rg_flags (upper_half r c) = rg_flags r"
  by (simp_all add: lower_half_def upper_half_def)

lemma upper_half_eq: "upper_half r c = r\<lparr>rg_base := c, rg_size := rg_base r + rg_size r - c\<rparr>"
  by (cases r) (simp add: upper_half_def)

lemma halves_ok:
  assumes "rgs_ok (P @ r # Q)" and "rg_base r < c" and "c < rg_base r + rg_size r"
  shows "rgs_ok (P @ lower_half r c # upper_half r c # Q)"
    and "amap (P @ lower_half r c # upper_half r c # Q) = amap (P @ r # Q)"
    and "sum_list (map rg_size (P @ lower_half r c # upper_half r c # Q)) =
      sum_list (map rg_size (P @ r # Q))"
  using assms
  by (auto simp: rg_valid_def rg_before_def fun_eq_iff amap_append split: option.splits)

lemma cut_live:
  assumes "arr_ok t" and "tot_ok t" and "live t = P @ r # Q" and "length P = idx"
    and "rg_valid r" and "rg_base r < c" and "c < rg_base r + rg_size r" and "cnt t < max_cnt t"
  shows "\<exists>t'. cut t idx c = Inr t' \<and> arr_ok t' \<and> tot_ok t' \<and> same_frame t t' \<and>
    cnt t' = Suc (cnt t) \<and> live t' = P @ lower_half r c # upper_half r c # Q"
proof -
  have c: "cnt t = length P + Suc (length Q)"
    using assms(1,3) by (metis length_append length_Cons length_live)
  have nth: "regions t ! idx = r" using assms c by (simp add: live_nth nth_append)
  have U: "rg_base r + rg_size r \<le> U64_MAX" using assms(5) by (simp add: rg_valid_def)
  have s1: "sub64 c (rg_base r) = c - rg_base r" using assms U by (intro sub64_exact) auto
  have s2: "sub64 (rg_size r) (c - rg_base r) = rg_base r + rg_size r - c"
    using assms U by (subst sub64_exact) auto
  let ?t = "t\<lparr>regions := (regions t)[idx := upper_half r c],
      total_size := sub64 (total_size t) (c - rg_base r)\<rparr>"
  have eq: "cut t idx c = memblock_insert_region ?t idx (rg_base r) (c - rg_base r) (rg_flags r)"
    by (simp add: cut_def Let_def nth s1 s2 upper_half_eq)
  have arr: "arr_ok ?t" using assms(1) by (simp add: arr_ok_def)
  have lv: "live ?t = P @ upper_half r c # Q"
    using live_update [of t idx "upper_half r c"] assms(3,4) by (simp add: live_def list_update_append)
  obtain t' where t': "memblock_insert_region ?t idx (rg_base r) (c - rg_base r) (rg_flags r) = Inr t'"
    using insert_region_room [of ?t idx "rg_base r" "c - rg_base r" "rg_flags r"] assms(8) by auto
  note il = insert_region_live [OF t' arr]
  have lv': "live t' = P @ lower_half r c # upper_half r c # Q"
    using il(5) c assms(4) unfolding lv by (simp add: lower_half_def)
  have "total_size t' = total_size t mod 2 ^ 64"
  proof -
    have "c - rg_base r \<le> 2 ^ 64" using U assms by (simp add: U64_MAX_def)
    then have "total_size t + (2 ^ 64 - (c - rg_base r)) + (c - rg_base r) = total_size t + 2 ^ 64" by simp
    then show ?thesis using il(4) c assms(4)
      by (simp add: add64_def sub64_def mod_add_left_eq)
  qed
  then have "tot_ok t'"
    using assms(2,3,6,7) by (simp add: tot_ok_def lv')
  then show ?thesis
    using eq t' il lv' c assms(4) by (simp add: same_frame_def)
qed

section \<open>The splitting loop\<close>

text \<open>Upper bound on the rounds that the regions of a list still need.\<close>

definition iso_weight :: "phys_addr \<Rightarrow> phys_addr \<Rightarrow> memblock_region \<Rightarrow> nat" where
  "iso_weight b e r =
     1 + (if rg_base r < b \<and> b < rg_base r + rg_size r then 1 else 0)
       + (if rg_base r < e \<and> e < rg_base r + rg_size r then 2 else 0)"

lemma iso_weight_bound: "iso_weight b e r \<le> 4"
  by (simp add: iso_weight_def)

text \<open>
  Where the loop stands after \<open>P\<close>: the regions inside the range (from \<open>b\<close> to \<open>e\<close>) form a
  suffix of \<open>P\<close>, and the two indices name it.
\<close>

definition iso_at :: "phys_addr \<Rightarrow> phys_addr \<Rightarrow> memblock_region list \<Rightarrow> nat \<Rightarrow> nat \<Rightarrow> bool" where
  "iso_at b e P s n \<longleftrightarrow>
     (\<exists>L M. P = L @ M \<and> (\<forall>r \<in> set L. rg_base r + rg_size r \<le> b) \<and>
        (\<forall>r \<in> set M. b \<le> rg_base r \<and> rg_base r + rg_size r \<le> e) \<and>
        (if M = [] then s = 0 \<and> n = 0 else s = length L \<and> n = length P))"

definition isolated ::
  "phys_addr \<Rightarrow> phys_addr \<Rightarrow> memblock_region list \<Rightarrow> nat \<Rightarrow> nat \<Rightarrow>
   memblock_region list \<Rightarrow> memblock_region list \<Rightarrow> memblock_region list \<Rightarrow> bool" where
  "isolated b e rs s n L M H \<longleftrightarrow>
     rs = L @ M @ H \<and> (\<forall>r \<in> set L. rg_base r + rg_size r \<le> b) \<and>
     (\<forall>r \<in> set M. b \<le> rg_base r \<and> rg_base r + rg_size r \<le> e) \<and>
     (\<forall>r \<in> set H. e \<le> rg_base r) \<and>
     (if M = [] then s = 0 \<and> n = 0 else s = length L \<and> n = length L + length M)"

lemma iso_at_finish:
  assumes "iso_at b e P s n" and "\<forall>r \<in> set Q. e \<le> rg_base r"
  shows "\<exists>L M H. isolated b e (P @ Q) s n L M H"
proof -
  obtain L M where "P = L @ M" "\<forall>r \<in> set L. rg_base r + rg_size r \<le> b"
    "\<forall>r \<in> set M. b \<le> rg_base r \<and> rg_base r + rg_size r \<le> e"
    "if M = [] then s = 0 \<and> n = 0 else s = length L \<and> n = length P"
    using assms(1) by (auto simp: iso_at_def)
  then have "isolated b e (P @ Q) s n L M Q" using assms(2) by (auto simp: isolated_def)
  then show ?thesis by blast
qed

lemma iso_at_below:
  assumes "iso_at b e P s n" and "rgs_ok (P @ r # Q)" and "rg_base r + rg_size r \<le> b"
  shows "iso_at b e (P @ [r]) s n"
proof -
  obtain L M where LM: "P = L @ M" "\<forall>r \<in> set L. rg_base r + rg_size r \<le> b"
    "\<forall>r \<in> set M. b \<le> rg_base r \<and> rg_base r + rg_size r \<le> e"
    "if M = [] then s = 0 \<and> n = 0 else s = length L \<and> n = length P"
    using assms(1) by (auto simp: iso_at_def)
  have "M = []"
  proof (rule ccontr)
    assume "M \<noteq> []"
    then obtain m where "m \<in> set M" by (cases M) auto
    then have "b \<le> rg_base m" and "rg_base m + rg_size m \<le> rg_base r" and "0 < rg_size r"
      using LM assms(2) by (auto simp: rg_before_def rg_valid_def)
    with assms(3) show False by simp
  qed
  with LM assms(3) show ?thesis
    unfolding iso_at_def by (intro exI [of _ "L @ [r]"] exI [of _ "[]"]) auto
qed

lemma iso_at_inside:
  assumes "iso_at b e P s n" and "b \<le> rg_base r" and "rg_base r + rg_size r \<le> e"
  shows "iso_at b e (P @ [r]) (if n = 0 then length P else s) (length P + 1)"
proof -
  obtain L M where LM: "P = L @ M" "\<forall>r \<in> set L. rg_base r + rg_size r \<le> b"
    "\<forall>r \<in> set M. b \<le> rg_base r \<and> rg_base r + rg_size r \<le> e"
    "if M = [] then s = 0 \<and> n = 0 else s = length L \<and> n = length P"
    using assms(1) by (auto simp: iso_at_def)
  then show ?thesis
    using assms(2,3) unfolding iso_at_def
    by (intro exI [of _ L] exI [of _ "M @ [r]"]) (auto split: if_splits)
qed

definition iso_cuts :: "phys_addr \<Rightarrow> phys_addr \<Rightarrow> memblock_region \<Rightarrow> nat" where
  "iso_cuts b e r =
     (if rg_base r < b \<and> b < rg_base r + rg_size r then 1 else 0) +
     (if rg_base r < e \<and> e < rg_base r + rg_size r then 1 else 0)"

lemma isolate_loop_step:
  assumes "idx < cnt t" and "regions t ! idx = r" and "rg_valid r"
  shows "memblock_isolate_loop (Suc k) b e idx s n t =
    (if e \<le> rg_base r then Inr (s, n, t)
     else if rg_base r + rg_size r \<le> b then memblock_isolate_loop k b e (idx + 1) s n t
     else if rg_base r < b then rbind (cut t idx b) (memblock_isolate_loop k b e (idx + 1) s n)
     else if e < rg_base r + rg_size r then rbind (cut t idx e) (memblock_isolate_loop k b e idx s n)
     else memblock_isolate_loop k b e (idx + 1) (if n = 0 then idx else s) (idx + 1) t)"
  using assms by (simp add: Let_def cut_def rg_end_valid)

lemma isolate_loop_live:
  assumes "arr_ok t" and "tot_ok t" and "live t = P @ Q" and "length P = idx" and "rgs_ok (P @ Q)"
    and "iso_at b e P s n" and "b < e"
    and "sum_list (map (iso_weight b e) Q) < k"
    and "cnt t + sum_list (map (iso_cuts b e) Q) \<le> max_cnt t"
  shows "\<exists>s' n' t' L M H. memblock_isolate_loop k b e idx s n t = Inr (s', n', t') \<and>
    arr_ok t' \<and> tot_ok t' \<and> same_frame t t' \<and> rgs_ok (live t') \<and>
    amap (live t') = amap (live t) \<and> isolated b e (live t') s' n' L M H \<and>
    cnt t' \<le> cnt t + sum_list (map (iso_cuts b e) Q)"
  using assms
proof (induction k arbitrary: P Q idx s n t)
  case 0
  then show ?case by simp
next
  case (Suc k)
  show ?case
  proof (cases Q)
    case Nil
    then have "cnt t = idx" using Suc.prems by (metis append_Nil2 length_live)
    moreover obtain L M H where "isolated b e (P @ []) s n L M H"
      using iso_at_finish [OF Suc.prems(6), of "[]"] by auto
    ultimately show ?thesis using Suc.prems Nil by auto
  next
    case (Cons r Q')
    have cnt: "cnt t = length P + Suc (length Q')"
      using Suc.prems(1,3) Cons by (metis length_append length_Cons length_live)
    then have idx: "idx < cnt t" using Suc.prems(4) by simp
    have nth: "regions t ! idx = r" using idx Suc.prems(3,4) Cons by (simp add: live_nth nth_append)
    have okr: "rgs_ok (P @ r # Q')" using Suc.prems(5) Cons by simp
    then have v: "rg_valid r" by simp
    note step = isolate_loop_step [OF idx nth v, of k b e s n]
    consider (stop) "e \<le> rg_base r"
      | (below) "rg_base r < e" "rg_base r + rg_size r \<le> b"
      | (low) "rg_base r < e" "b < rg_base r + rg_size r" "rg_base r < b"
      | (high) "rg_base r < e" "b < rg_base r + rg_size r" "b \<le> rg_base r" "e < rg_base r + rg_size r"
      | (inside) "rg_base r < e" "b < rg_base r + rg_size r" "b \<le> rg_base r" "rg_base r + rg_size r \<le> e"
      by linarith
    then show ?thesis
    proof cases
      case stop
      then have "\<forall>x \<in> set Q. e \<le> rg_base x" using okr Cons by (fastforce simp: rg_before_def)
      then obtain L M H where "isolated b e (P @ Q) s n L M H"
        using iso_at_finish [OF Suc.prems(6)] by blast
      with stop step Suc.prems show ?thesis by auto
    next
      case below
      have "\<exists>s' n' t' L M H. memblock_isolate_loop k b e (idx + 1) s n t = Inr (s', n', t') \<and>
          arr_ok t' \<and> tot_ok t' \<and> same_frame t t' \<and> rgs_ok (live t') \<and>
          amap (live t') = amap (live t) \<and> isolated b e (live t') s' n' L M H \<and>
          cnt t' \<le> cnt t + sum_list (map (iso_cuts b e) Q')"
        using Suc.prems Cons iso_at_below [OF Suc.prems(6) okr below(2)]
        by (intro Suc.IH [where P = "P @ [r]" and Q = Q']) (simp_all add: iso_weight_def)
      moreover have "iso_cuts b e r = 0" using below Suc.prems(7) by (simp add: iso_cuts_def)
      ultimately show ?thesis using step below Cons by simp
    next
      case inside
      have at: "iso_at b e (P @ [r]) (if n = 0 then idx else s) (idx + 1)"
        using iso_at_inside [OF Suc.prems(6) inside(3,4)] unfolding Suc.prems(4) .
      have "\<exists>s' n' t' L M H. memblock_isolate_loop k b e (idx + 1) (if n = 0 then idx else s) (idx + 1) t =
          Inr (s', n', t') \<and> arr_ok t' \<and> tot_ok t' \<and> same_frame t t' \<and> rgs_ok (live t') \<and>
          amap (live t') = amap (live t) \<and> isolated b e (live t') s' n' L M H \<and>
          cnt t' \<le> cnt t + sum_list (map (iso_cuts b e) Q')"
        using Suc.prems Cons at
        by (intro Suc.IH [where P = "P @ [r]" and Q = Q']) (simp_all add: iso_weight_def split del: if_split)
      moreover have "iso_cuts b e r = 0" using inside Suc.prems(7) by (simp add: iso_cuts_def)
      ultimately show ?thesis using step inside Cons by simp
    next
      case low
      have room: "cnt t < max_cnt t" using Suc.prems(9) Cons low by (simp add: iso_cuts_def)
      obtain t1 where t1: "cut t idx b = Inr t1" "arr_ok t1" "tot_ok t1" "same_frame t t1"
        "cnt t1 = Suc (cnt t)" "live t1 = P @ lower_half r b # upper_half r b # Q'"
        using cut_live [OF Suc.prems(1,2) _ Suc.prems(4) v low(3,2) room] Suc.prems(3) Cons by auto
      note h = halves_ok [OF okr low(3,2)]
      have at: "iso_at b e (P @ [lower_half r b]) s n"
        using iso_at_below [OF Suc.prems(6) h(1)] low by simp
      have w: "iso_weight b e (upper_half r b) + 1 = iso_weight b e r"
        "iso_cuts b e (upper_half r b) + 1 = iso_cuts b e r"
        using low Suc.prems(7) by (auto simp: iso_weight_def iso_cuts_def)
      have "\<exists>s' n' t' L M H. memblock_isolate_loop k b e (idx + 1) s n t1 = Inr (s', n', t') \<and>
          arr_ok t' \<and> tot_ok t' \<and> same_frame t1 t' \<and> rgs_ok (live t') \<and>
          amap (live t') = amap (live t1) \<and> isolated b e (live t') s' n' L M H \<and>
          cnt t' \<le> cnt t1 + sum_list (map (iso_cuts b e) (upper_half r b # Q'))"
        using Suc.prems Cons t1 at h(1) w
        by (intro Suc.IH [where P = "P @ [lower_half r b]" and Q = "upper_half r b # Q'"])
          (simp_all add: same_frame_def)
      moreover have sum: "cnt t1 + sum_list (map (iso_cuts b e) (upper_half r b # Q')) = cnt t + sum_list (map (iso_cuts b e) Q)"
        using t1(5) w(2) Cons by simp
      ultimately show ?thesis using step low t1(1,4) h(2) t1(6) Suc.prems(3) unfolding sum Cons
        by (auto simp: same_frame_def)
    next
      case high
      have room: "cnt t < max_cnt t" using Suc.prems(9) Cons high by (simp add: iso_cuts_def)
      obtain t1 where t1: "cut t idx e = Inr t1" "arr_ok t1" "tot_ok t1" "same_frame t t1"
        "cnt t1 = Suc (cnt t)" "live t1 = P @ lower_half r e # upper_half r e # Q'"
        using cut_live [OF Suc.prems(1,2) _ Suc.prems(4) v high(1,4) room] Suc.prems(3) Cons by auto
      note h = halves_ok [OF okr high(1,4)]
      have w: "iso_weight b e (lower_half r e) + iso_weight b e (upper_half r e) < iso_weight b e r"
        "iso_cuts b e (lower_half r e) + iso_cuts b e (upper_half r e) + 1 = iso_cuts b e r"
        using high Suc.prems(7) by (auto simp: iso_weight_def iso_cuts_def)
      have "\<exists>s' n' t' L M H. memblock_isolate_loop k b e idx s n t1 = Inr (s', n', t') \<and>
          arr_ok t' \<and> tot_ok t' \<and> same_frame t1 t' \<and> rgs_ok (live t') \<and>
          amap (live t') = amap (live t1) \<and> isolated b e (live t') s' n' L M H \<and>
          cnt t' \<le> cnt t1 + sum_list (map (iso_cuts b e) (lower_half r e # upper_half r e # Q'))"
        using Suc.prems Cons t1 h(1) w
        by (intro Suc.IH [where P = P and Q = "lower_half r e # upper_half r e # Q'"])
          (simp_all add: same_frame_def)
      moreover have sum: "cnt t1 + sum_list (map (iso_cuts b e) (lower_half r e # upper_half r e # Q')) = cnt t + sum_list (map (iso_cuts b e) Q)"
        using t1(5) w(2) Cons by simp
      ultimately show ?thesis using step high t1(1,4) h(2) t1(6) Suc.prems(3) unfolding sum Cons
        by (auto simp: same_frame_def)
    qed
  qed
qed

text \<open>On a sorted array at most one region crosses each boundary, so two free slots suffice.\<close>

lemma crossing_once:
  "rgs_ok rs \<Longrightarrow>
   sum_list (map (\<lambda>r. if rg_base r < c \<and> c < rg_base r + rg_size r then 1 else (0::nat)) rs) \<le> 1"
proof (induction rs)
  case Nil
  then show ?case by simp
next
  case (Cons r rs)
  show ?case
  proof (cases "rg_base r < c \<and> c < rg_base r + rg_size r")
    case True
    then have "\<forall>x \<in> set rs. \<not> (rg_base x < c \<and> c < rg_base x + rg_size x)"
      using Cons.prems by (auto simp: rg_before_def)
    then have "map (\<lambda>r. if rg_base r < c \<and> c < rg_base r + rg_size r then 1 else (0::nat)) rs =
        map (\<lambda>r. 0) rs"
      by (intro map_cong) auto
    with True show ?thesis by (simp add: sum_list_triv)
  next
    case False
    have "sum_list (map (\<lambda>r. if rg_base r < c \<and> c < rg_base r + rg_size r then 1 else (0::nat)) rs) \<le> 1"
      using Cons by simp
    with False show ?thesis by (simp only: list.map sum_list.Cons if_False add_0)
  qed
qed

lemma iso_cuts_two: "rgs_ok rs \<Longrightarrow> sum_list (map (iso_cuts b e) rs) \<le> 2"
proof -
  assume ok: "rgs_ok rs"
  have "sum_list (map (iso_cuts b e) rs) =
      sum_list (map (\<lambda>r. if rg_base r < b \<and> b < rg_base r + rg_size r then 1 else (0::nat)) rs) +
      sum_list (map (\<lambda>r. if rg_base r < e \<and> e < rg_base r + rg_size r then 1 else (0::nat)) rs)"
    unfolding iso_cuts_def by (rule sum_list_addf)
  with crossing_once [OF ok, of b] crossing_once [OF ok, of e] show ?thesis by linarith
qed

lemma iso_weight_sum: "sum_list (map (iso_weight b e) rs) \<le> 4 * length rs"
proof (induction rs)
  case (Cons r rs)
  then show ?case using iso_weight_bound [of b e r] by simp
qed simp

lemma isolate_live:
  assumes "arr_ok t" and "tot_ok t" and "rgs_ok (live t)" and "b < e" and "cnt t + 2 \<le> max_cnt t"
    and "4 * cnt t < k"
  shows "\<exists>s n t' L M H. memblock_isolate_loop k b e 0 0 0 t = Inr (s, n, t') \<and>
    arr_ok t' \<and> tot_ok t' \<and> same_frame t t' \<and> rgs_ok (live t') \<and>
    amap (live t') = amap (live t) \<and> isolated b e (live t') s n L M H \<and> cnt t' \<le> cnt t + 2"
proof -
  have two: "sum_list (map (iso_cuts b e) (live t)) \<le> 2" by (rule iso_cuts_two [OF assms(3)])
  have weight: "sum_list (map (iso_weight b e) (live t)) < k"
    using iso_weight_sum [of b e "live t"] assms(1,6) by simp
  have at: "iso_at b e [] 0 0" by (auto simp: iso_at_def)
  have "cnt t + sum_list (map (iso_cuts b e) (live t)) \<le> max_cnt t" using two assms(5) by simp
  from isolate_loop_live [of t "[]" "live t" 0 b e 0 0 k, OF assms(1,2) _ _ _ at assms(4) weight this]
  obtain s n t' L M H where "memblock_isolate_loop k b e 0 0 0 t = Inr (s, n, t')" "arr_ok t'" "tot_ok t'"
    "same_frame t t'" "rgs_ok (live t')" "amap (live t') = amap (live t)" "isolated b e (live t') s n L M H"
    "cnt t' \<le> cnt t + sum_list (map (iso_cuts b e) (live t))"
    using assms(3) by auto
  moreover from this two have "cnt t' \<le> cnt t + 2" by linarith
  ultimately show ?thesis by blast
qed

section \<open>Removing and reflagging the isolated regions\<close>

definition or_empty :: "memblock_region list \<Rightarrow> memblock_region list" where
  "or_empty rs = (if rs = [] then [empty_region] else rs)"

lemma amap_or_empty [simp]: "amap (or_empty rs) = amap rs"
  by (simp add: or_empty_def empty_region_def fun_eq_iff)

lemma or_empty_sum [simp]: "sum_list (map rg_size (or_empty rs)) = sum_list (map rg_size rs)"
  by (simp add: or_empty_def empty_region_def)

lemma remove_regions_live:
  assumes "arr_ok t" and "tot_ok t" and "live t = L @ M @ H" and "M \<noteq> []" and "rgs_ok M"
  shows "let t' = memblock_remove_regions t (length L) (length L + length M) in
    arr_ok t' \<and> tot_ok t' \<and> same_frame t t' \<and> live t' = or_empty (L @ H)"
  using assms
proof (induction M arbitrary: t H rule: rev_induct)
  case Nil
  then show ?case by simp
next
  case (snoc m M)
  let ?i = "length L + length M"
  have cnt: "cnt t = ?i + 1 + length H"
    using snoc.prems(1,3) by (metis add.assoc length_append length_append_singleton Suc_eq_plus1 length_live)
  then have i: "?i < cnt t" by simp
  let ?t = "memblock_remove_region t ?i"
  note rl = remove_region_live [OF snoc.prems(1) i]
  have nth: "live t ! ?i = m" using snoc.prems(3) by (simp add: nth_append)
  have tk: "take ?i (live t) @ drop (Suc ?i) (live t) = L @ M @ H" using snoc.prems(3) by simp
  have lv: "live ?t = or_empty (L @ M @ H)"
    using rl(4) tk cnt by (auto simp: or_empty_def)
  have "total_size ?t = (sum_list (map rg_size (L @ M @ H)) + 2 ^ 64) mod 2 ^ 64"
  proof -
    let ?S = "sum_list (map rg_size (L @ M @ H))"
    have m: "rg_size m \<le> 2 ^ 64" using snoc.prems(5) by (simp add: rg_valid_def U64_MAX_def)
    have "total_size t = (?S + rg_size m) mod 2 ^ 64"
      using snoc.prems(2,3) by (simp add: tot_ok_def algebra_simps)
    then have "total_size ?t = (?S + rg_size m + (2 ^ 64 - rg_size m)) mod 2 ^ 64"
      by (simp add: rl(3) nth sub64_def mod_add_left_eq)
    also have "?S + rg_size m + (2 ^ 64 - rg_size m) = ?S + 2 ^ 64" using m by simp
    finally show ?thesis .
  qed
  then have tot: "tot_ok ?t" unfolding tot_ok_def lv or_empty_sum by (simp only: mod_add_self2)
  have eq: "memblock_remove_regions t (length L) (length L + length (M @ [m])) =
      memblock_remove_regions ?t (length L) ?i" by simp
  show ?case
  proof (cases "M = []")
    case True
    have "memblock_remove_regions ?t (length L) ?i = ?t"
      using True by (cases "length L") simp_all
    with True eq lv rl tot show ?thesis by (simp add: Let_def same_frame_def)
  next
    case False
    then have "live ?t = L @ M @ H" using lv by (simp add: or_empty_def)
    then have "let t' = memblock_remove_regions ?t (length L) ?i in
        arr_ok t' \<and> tot_ok t' \<and> same_frame ?t t' \<and> live t' = or_empty (L @ H)"
      using snoc.prems False rl tot by (intro snoc.IH) simp_all
    with eq rl show ?thesis by (simp add: Let_def same_frame_def)
  qed
qed

definition setclr :: "bool \<Rightarrow> nat \<Rightarrow> memblock_region \<Rightarrow> memblock_region" where
  "setclr set_it flag r =
     (if set_it then memblock_set_region_flags r flag else memblock_clear_region_flags r flag)"

lemma setclr_sel [simp]:
  "rg_base (setclr b f r) = rg_base r" "rg_size (setclr b f r) = rg_size r"
  by (simp_all add: setclr_def memblock_set_region_flags_def memblock_clear_region_flags_def)

lemma setclr_regions_live:
  assumes "arr_ok t" and "live t = L @ M @ H"
  shows "let t' = memblock_setclr_regions b f t (length L) (length M) in
    arr_ok t' \<and> total_size t' = total_size t \<and> same_frame t t' \<and> cnt t' = cnt t \<and>
    live t' = L @ map (setclr b f) M @ H"
  using assms
proof (induction M arbitrary: t L)
  case Nil
  then show ?case by simp
next
  case (Cons m M)
  let ?i = "length L"
  have i: "?i < cnt t" using Cons.prems by (metis length_live length_append length_Cons less_add_Suc1 add_Suc_right append_Cons)
  then have nth: "regions t ! ?i = m" using Cons.prems by (simp add: live_nth nth_append)
  let ?t = "t\<lparr>regions := (regions t)[?i := setclr b f m]\<rparr>"
  have lv: "live ?t = (L @ [setclr b f m]) @ M @ H"
    unfolding live_update using Cons.prems(2) by (simp add: list_update_append)
  have "arr_ok ?t" using Cons.prems(1) by (simp add: arr_ok_def)
  then have "let t' = memblock_setclr_regions b f ?t (length (L @ [setclr b f m])) (length M) in
      arr_ok t' \<and> total_size t' = total_size ?t \<and> same_frame ?t t' \<and> cnt t' = cnt ?t \<and>
      live t' = (L @ [setclr b f m]) @ map (setclr b f) M @ H"
    using lv by (rule Cons.IH)
  moreover have "memblock_setclr_regions b f t ?i (length (m # M)) =
      memblock_setclr_regions b f ?t (length (L @ [setclr b f m])) (length M)"
    by (cases b) (simp_all add: setclr_def nth)
  ultimately show ?case unfolding Let_def by (simp only:) (simp add: same_frame_def)
qed

lemma setclr_rgs_ok: "rgs_ok (L @ map (setclr b f) M @ H) \<longleftrightarrow> rgs_ok (L @ M @ H)"
proof -
  have "rgs_ok (map (setclr b f) M) \<longleftrightarrow> rgs_ok M"
    by (induction M) (simp_all add: rg_before_def rg_valid_def)
  then show ?thesis by (simp add: rg_before_def ball_Un)
qed

section \<open>Lookup\<close>

lemma rgs_ok_nth_before:
  "rgs_ok rs \<Longrightarrow> i < j \<Longrightarrow> j < length rs \<Longrightarrow> rg_base (rs ! i) + rg_size (rs ! i) \<le> rg_base (rs ! j)"
  using sorted_wrt_nth_less [of rg_before rs i j] by (simp add: rgs_ok_def rg_before_def)

definition search_range :: "memblock_type \<Rightarrow> phys_addr \<Rightarrow> nat \<Rightarrow> nat \<Rightarrow> bool" where
  "search_range t a left right \<longleftrightarrow>
     (\<forall>i < left. rg_base (live t ! i) + rg_size (live t ! i) \<le> a) \<and>
     (\<forall>i. right \<le> i \<and> i < cnt t \<longrightarrow> a < rg_base (live t ! i))"

lemma search_range_empty:
  assumes "arr_ok t" and "search_range t a n n"
  shows "amap (live t) a = None"
  unfolding amap_None_iff
proof
  fix r assume "r \<in> set (live t)"
  then obtain i where "i < cnt t" "r = live t ! i"
    using assms(1) by (metis in_set_conv_nth length_live)
  then show "\<not> (rg_base r \<le> a \<and> a < rg_base r + rg_size r)"
    using assms(2) by (cases "i < n") (auto simp: search_range_def not_less)
qed

lemma search_range_left:
  assumes "arr_ok t" and "rgs_ok (live t)" and "search_range t a left right" and "mid < cnt t"
    and "rg_base (live t ! mid) + rg_size (live t ! mid) \<le> a"
  shows "search_range t a (mid + 1) right"
proof -
  have "rg_base (live t ! i) + rg_size (live t ! i) \<le> a" if "i < mid + 1" for i
    using that assms(5) rgs_ok_nth_before [OF assms(2), of i mid] assms(1,4)
    by (cases "i = mid") auto
  then show ?thesis using assms(3) by (simp add: search_range_def)
qed

lemma search_range_right:
  assumes "arr_ok t" and "rgs_ok (live t)" and "search_range t a left right"
    and "a < rg_base (live t ! mid)"
  shows "search_range t a left mid"
proof -
  have "a < rg_base (live t ! i)" if "mid \<le> i" "i < cnt t" for i
    using that assms(4) rgs_ok_nth_before [OF assms(2), of mid i] assms(1)
    by (cases "i = mid") auto
  then show ?thesis using assms(3) by (simp add: search_range_def)
qed

lemma search_loop_correct:
  assumes "arr_ok t" and "rgs_ok (live t)" and "left < right" and "right \<le> cnt t"
    and "search_range t a left right"
  shows "(memblock_search_loop t a left right = -1 \<and> amap (live t) a = None) \<or>
    (\<exists>i < cnt t. memblock_search_loop t a left right = int i \<and>
       rg_base (live t ! i) \<le> a \<and> a < rg_base (live t ! i) + rg_size (live t ! i))"
  using assms(3-)
proof (induction "right - left" arbitrary: left right rule: less_induct)
  case less
  let ?m = "(right + left) div 2"
  have mid: "left \<le> ?m" "?m < right" using less.prems(1) by auto
  then have mc: "?m < cnt t" using less.prems(2) by simp
  have nth: "regions t ! ?m = live t ! ?m" using mc by (rule live_nth)
  have "rg_valid (live t ! ?m)" using mc assms(1,2) by (simp add: rgs_ok_def)
  then have e: "rg_end (regions t ! ?m) = rg_base (live t ! ?m) + rg_size (live t ! ?m)"
    by (simp add: nth rg_end_valid)
  note unfold = memblock_search_loop.simps [of t a left right, unfolded Let_def e, unfolded nth]
  consider (lo) "a < rg_base (live t ! ?m)"
    | (hi) "rg_base (live t ! ?m) + rg_size (live t ! ?m) \<le> a"
    | (hit) "rg_base (live t ! ?m) \<le> a" "a < rg_base (live t ! ?m) + rg_size (live t ! ?m)"
    by linarith
  then show ?case
  proof cases
    case lo
    note sr = search_range_right [OF assms(1,2) less.prems(3) lo]
    show ?thesis
    proof (cases "left < ?m")
      case True
      then show ?thesis using less.hyps [of ?m left] mid mc sr lo unfold by simp
    next
      case False
      then have "left = ?m" using mid by simp
      then have "search_range t a ?m ?m" using sr by metis
      then have "amap (live t) a = None" using assms(1) search_range_empty by blast
      with lo False unfold show ?thesis by simp
    qed
  next
    case hi
    note sr = search_range_left [OF assms(1,2) less.prems(3) mc hi]
    show ?thesis
    proof (cases "?m + 1 < right")
      case True
      then show ?thesis using less.hyps [of right "?m + 1"] mid less.prems(2) sr hi unfold by simp
    next
      case False
      then have "right = ?m + 1" using mid by simp
      then have "search_range t a (?m + 1) (?m + 1)" using sr by metis
      then have "amap (live t) a = None" using assms(1) search_range_empty by blast
      with hi False unfold show ?thesis by simp
    qed
  next
    case hit
    with mc unfold show ?thesis by auto
  qed
qed

lemma overlaps_from_live:
  assumes "i \<le> cnt t"
  shows "memblock_overlaps_from t b s i < cnt t \<longleftrightarrow>
    (\<exists>j. i \<le> j \<and> j < cnt t \<and>
       memblock_addrs_overlap b s (rg_base (live t ! j)) (rg_size (live t ! j)))"
  using assms
proof (induction "cnt t - i" arbitrary: i)
  case 0
  then show ?case by (subst memblock_overlaps_from.simps) auto
next
  case (Suc n)
  then have i: "i < cnt t" by simp
  have IH: "memblock_overlaps_from t b s (Suc i) < cnt t \<longleftrightarrow>
    (\<exists>j. Suc i \<le> j \<and> j < cnt t \<and>
       memblock_addrs_overlap b s (rg_base (live t ! j)) (rg_size (live t ! j)))"
    using Suc by simp
  show ?case
    using i IH by (subst memblock_overlaps_from.simps) (auto simp: live_nth Suc_le_eq nat_less_le)
qed

lemma overlaps_region_iff:
  assumes "arr_ok t" and "rgs_ok (live t)" and "0 < s" and "b + s \<le> U64_MAX"
  shows "memblock_overlaps_region t b s \<longleftrightarrow> (\<exists>a. b \<le> a \<and> a < b + s \<and> amap (live t) a \<noteq> None)"
proof -
  have "memblock_overlaps_region t b s \<longleftrightarrow> (\<exists>r \<in> set (live t). b < rg_base r + rg_size r \<and> rg_base r < b + s)"
    using overlaps_from_live [of 0 t b s] assms
    by (auto simp: memblock_overlaps_region_def memblock_addrs_overlap_def add64_exact
        in_set_conv_nth rgs_ok_def rg_valid_def) (metis nth_mem length_live add64_exact)+
  also have "\<dots> \<longleftrightarrow> (\<exists>a. b \<le> a \<and> a < b + s \<and> amap (live t) a \<noteq> None)"
  proof
    assume "\<exists>r \<in> set (live t). b < rg_base r + rg_size r \<and> rg_base r < b + s"
    then obtain r where r: "r \<in> set (live t)" "b < rg_base r + rg_size r" "rg_base r < b + s" by blast
    then have "0 < rg_size r" using assms(2) by (simp add: rgs_ok_def rg_valid_def)
    then have "amap (live t) (max b (rg_base r)) \<noteq> None"
      using r rgs_ok_amap [OF assms(2) r(1), of "max b (rg_base r)"] by (simp add: max_def)
    then show "\<exists>a. b \<le> a \<and> a < b + s \<and> amap (live t) a \<noteq> None"
      using r assms(3) by (intro exI [of _ "max b (rg_base r)"]) auto
  next
    assume "\<exists>a. b \<le> a \<and> a < b + s \<and> amap (live t) a \<noteq> None"
    then obtain a f where "b \<le> a" "a < b + s" "amap (live t) a = Some f" by auto
    then show "\<exists>r \<in> set (live t). b < rg_base r + rg_size r \<and> rg_base r < b + s"
      using amap_Some_flags [of "live t" a f] by (meson le_less_trans)
  qed
  finally show ?thesis .
qed

end
