(* ===== verification/Memblock.thy ===== *)
theory Memblock
  imports Memblock_Cuts
begin

text \<open>
  The allocator of \<^verbatim>\<open>mm/memblock.c\<close> on its global state: the iterators over free
  ranges, the search for a free area, growing a full array, adding, removing and
  reflagging ranges, allocation and the query functions.
\<close>

section \<open>State and environment\<close>

record memblock =
  bottom_up :: bool
  current_limit :: phys_addr
  memory :: memblock_type
  reserved :: memblock_type
  can_resize :: bool
  memory_in_slab :: bool
  reserved_in_slab :: bool

text \<open>
  What the file reads of the rest of the kernel: whether the slab allocator is up, the
  physical address that \<^verbatim>\<open>kmalloc\<close> would return for a size (0 for a failure), and the
  physical end of the kernel image (\<^verbatim>\<open>__pa_symbol(_end)\<close>).
\<close>

record memblock_env =
  slab_is_available :: bool
  kmalloc_pa :: "nat \<Rightarrow> phys_addr"
  kernel_end :: phys_addr

datatype which = MEMORY | RESERVED

fun get_type :: "which \<Rightarrow> memblock \<Rightarrow> memblock_type" where
  "get_type MEMORY m = memory m"
| "get_type RESERVED m = reserved m"

fun put_type :: "which \<Rightarrow> memblock_type \<Rightarrow> memblock \<Rightarrow> memblock" where
  "put_type MEMORY t m = m\<lparr>memory := t\<rparr>"
| "put_type RESERVED t m = m\<lparr>reserved := t\<rparr>"

definition SMP_CACHE_BYTES :: nat where "SMP_CACHE_BYTES = 64"
definition MEMBLOCK_ALLOC_ACCESSIBLE :: nat where "MEMBLOCK_ALLOC_ACCESSIBLE = 0"
definition SIZEOF_MEMBLOCK_REGION :: nat where "SIZEOF_MEMBLOCK_REGION = 24"

definition PAGE_ALIGN :: "nat \<Rightarrow> nat" where
  "PAGE_ALIGN x = add64 x (PAGE_SIZE - 1) AND not64 (PAGE_SIZE - 1)"

definition PFN_UP :: "nat \<Rightarrow> nat" where
  "PFN_UP x = sub64 (add64 x PAGE_SIZE) 1 div 2 ^ PAGE_SHIFT"

definition PFN_DOWN :: "nat \<Rightarrow> nat" where
  "PFN_DOWN x = x div 2 ^ PAGE_SHIFT"

definition choose_memblock_flags :: nat where
  "choose_memblock_flags = MEMBLOCK_NONE"

definition init_array :: memblock_type where
  "init_array = \<lparr>cnt = 1, max_cnt = 128, total_size = 0,
     regions = replicate 128 empty_region, regions_at = None\<rparr>"

definition memblock_init :: memblock where
  "memblock_init = \<lparr>bottom_up = False, current_limit = U64_MAX, memory = init_array,
     reserved = init_array, can_resize = False, memory_in_slab = False, reserved_in_slab = False\<rparr>"

section \<open>Iterators\<close>

text \<open>
  The 64-bit loop variable packs the two indices, each a C \<^verbatim>\<open>int\<close>, in its halves.
\<close>

definition pack_idx :: "int \<Rightarrow> int \<Rightarrow> nat" where
  "pack_idx a b = nat (a mod 2 ^ 32) + nat (b mod 2 ^ 32) * 2 ^ 32"

definition s32 :: "nat \<Rightarrow> int" where
  "s32 n = (if n mod 2 ^ 32 < 2 ^ 31 then int (n mod 2 ^ 32) else int (n mod 2 ^ 32) - 2 ^ 32)"

definition unpack_a :: "nat \<Rightarrow> int" where "unpack_a idx = s32 idx"
definition unpack_b :: "nat \<Rightarrow> int" where "unpack_b idx = s32 (idx div 2 ^ 32)"

text \<open>An \<^verbatim>\<open>int\<close> compared with the 64-bit \<^verbatim>\<open>cnt\<close> is sign extended.\<close>

definition u64_of_s32 :: "int \<Rightarrow> nat" where "u64_of_s32 a = nat (a mod 2 ^ 64)"

text \<open>The gap in front of entry \<open>i\<close> of the exclusion array: where it starts and ends.\<close>

definition gap_start :: "memblock_type \<Rightarrow> nat \<Rightarrow> phys_addr" where
  "gap_start tb i = (if i = 0 then 0 else rg_end (regions tb ! (i - 1)))"

definition gap_end :: "memblock_type \<Rightarrow> nat \<Rightarrow> phys_addr" where
  "gap_end tb i = (if i < cnt tb then rg_base (regions tb ! i) else U64_MAX)"

datatype scan = Found phys_addr phys_addr nat nat | Broke nat

function next_scan ::
  "memblock_type \<Rightarrow> nat \<Rightarrow> phys_addr \<Rightarrow> phys_addr \<Rightarrow> nat \<Rightarrow> scan" where
  "next_scan tb idx_a m_start m_end idx_b =
     (if idx_b < cnt tb + 1 then
        let r_start = gap_start tb idx_b; r_end = gap_end tb idx_b in
        if r_start \<ge> m_end then Broke idx_b
        else if m_start < r_end then
          (if m_end \<le> r_end
           then Found (max m_start r_start) (min m_end r_end) (idx_a + 1) idx_b
           else Found (max m_start r_start) (min m_end r_end) idx_a (idx_b + 1))
        else next_scan tb idx_a m_start m_end (idx_b + 1)
      else Broke idx_b)"
  by pat_completeness auto
termination
  by (relation "measure (\<lambda>(tb, a, ms, me, b). cnt tb + 1 - b)") auto

function next_mem_range_from ::
  "nat \<Rightarrow> memblock_type \<Rightarrow> memblock_type option \<Rightarrow> nat \<Rightarrow> nat \<Rightarrow>
   nat \<times> (phys_addr \<times> phys_addr) option" where
  "next_mem_range_from flags ta tb idx_a idx_b =
     (if idx_a < cnt ta then
        let m = regions ta ! idx_a; m_start = rg_base m; m_end = rg_end m in
        if flags AND MEMBLOCK_NOMAP = 0 \<and> memblock_is_nomap m then
          next_mem_range_from flags ta tb (idx_a + 1) idx_b
        else case tb of
          None \<Rightarrow> (pack_idx (int idx_a + 1) (int idx_b), Some (m_start, m_end))
        | Some t \<Rightarrow>
            (case next_scan t idx_a m_start m_end idx_b of
               Found s e a b \<Rightarrow> (pack_idx (int a) (int b), Some (s, e))
             | Broke b \<Rightarrow> next_mem_range_from flags ta tb (idx_a + 1) b)
      else (U64_MAX, None))"
  by pat_completeness auto
termination
  by (relation "measure (\<lambda>(f, ta, tb, a, b). cnt ta - a)") auto

definition next_mem_range ::
  "nat \<Rightarrow> nat \<Rightarrow> memblock_type \<Rightarrow> memblock_type option \<Rightarrow>
   nat \<times> (phys_addr \<times> phys_addr) option" where
  "next_mem_range idx flags ta tb =
     next_mem_range_from flags ta tb (u64_of_s32 (unpack_a idx)) (u64_of_s32 (unpack_b idx))"

datatype scan_rev = FoundR phys_addr phys_addr int int | BrokeR int

function next_scan_rev ::
  "memblock_type \<Rightarrow> int \<Rightarrow> phys_addr \<Rightarrow> phys_addr \<Rightarrow> int \<Rightarrow> scan_rev" where
  "next_scan_rev tb idx_a m_start m_end idx_b =
     (if idx_b \<ge> 0 then
        let r_start = gap_start tb (nat idx_b); r_end = gap_end tb (nat idx_b) in
        if r_end \<le> m_start then BrokeR idx_b
        else if m_end > r_start then
          (if m_start \<ge> r_start
           then FoundR (max m_start r_start) (min m_end r_end) (idx_a - 1) idx_b
           else FoundR (max m_start r_start) (min m_end r_end) idx_a (idx_b - 1))
        else next_scan_rev tb idx_a m_start m_end (idx_b - 1)
      else BrokeR idx_b)"
  by pat_completeness auto
termination
  by (relation "measure (\<lambda>(tb, a, ms, me, b). nat (b + 1))") auto

function next_mem_range_rev_from ::
  "nat \<Rightarrow> memblock_type \<Rightarrow> memblock_type option \<Rightarrow> int \<Rightarrow> int \<Rightarrow>
   nat \<times> (phys_addr \<times> phys_addr) option" where
  "next_mem_range_rev_from flags ta tb idx_a idx_b =
     (if idx_a \<ge> 0 then
        let m = regions ta ! nat idx_a; m_start = rg_base m; m_end = rg_end m in
        if flags AND MEMBLOCK_NOMAP = 0 \<and> memblock_is_nomap m then
          next_mem_range_rev_from flags ta tb (idx_a - 1) idx_b
        else case tb of
          None \<Rightarrow> (pack_idx (idx_a - 1) idx_b, Some (m_start, m_end))
        | Some t \<Rightarrow>
            (case next_scan_rev t idx_a m_start m_end idx_b of
               FoundR s e a b \<Rightarrow> (pack_idx a b, Some (s, e))
             | BrokeR b \<Rightarrow> next_mem_range_rev_from flags ta tb (idx_a - 1) b)
      else (U64_MAX, None))"
  by pat_completeness auto
termination
  by (relation "measure (\<lambda>(f, ta, tb, a, b). nat (a + 1))") auto

definition next_mem_range_rev ::
  "nat \<Rightarrow> nat \<Rightarrow> memblock_type \<Rightarrow> memblock_type option \<Rightarrow>
   nat \<times> (phys_addr \<times> phys_addr) option" where
  "next_mem_range_rev idx flags ta tb =
     (if idx = U64_MAX
      then next_mem_range_rev_from flags ta tb (s32 (sub64 (cnt ta) 1))
             (case tb of Some t \<Rightarrow> s32 (cnt t) | None \<Rightarrow> 0)
      else next_mem_range_rev_from flags ta tb (unpack_a idx) (unpack_b idx))"

definition next_reserved_mem_region ::
  "memblock \<Rightarrow> nat \<Rightarrow> nat \<times> (phys_addr \<times> phys_addr) option" where
  "next_reserved_mem_region st idx =
     (if idx < cnt (reserved st) then
        let r = regions (reserved st) ! idx in
        (add64 idx 1, Some (rg_base r, sub64 (add64 (rg_base r) (rg_size r)) 1))
      else (U64_MAX, None))"

definition next_mem_pfn_range ::
  "memblock \<Rightarrow> nat \<Rightarrow> nat \<times> (phys_addr \<times> phys_addr) option" where
  "next_mem_pfn_range st idx =
     (if idx < cnt (memory st) then
        let r = regions (memory st) ! idx in
        (add64 idx 1, Some (PFN_UP (rg_base r), PFN_DOWN (rg_end r)))
      else (U64_MAX, None))"

declare next_scan.simps [simp del] next_mem_range_from.simps [simp del]
  next_scan_rev.simps [simp del] next_mem_range_rev_from.simps [simp del]

section \<open>Finding a free area\<close>

text \<open>
  The loops over the free ranges take a bound on the number of ranges;
  \<open>cnt (memory st) + cnt (reserved st) + 2\<close> is enough.
\<close>

fun find_range_bottom_up_loop ::
  "nat \<Rightarrow> memblock \<Rightarrow> phys_addr \<Rightarrow> phys_addr \<Rightarrow> phys_addr \<Rightarrow> phys_addr \<Rightarrow> nat \<Rightarrow> nat \<Rightarrow>
   phys_addr res" where
  "find_range_bottom_up_loop 0 st start end sz align flags i = Inl Fuel"
| "find_range_bottom_up_loop (Suc n) st start end sz align flags i =
     (case next_mem_range i flags (memory st) (Some (reserved st)) of
        (i', None) \<Rightarrow> Inr 0
      | (i', Some (s, e)) \<Rightarrow>
          if i' = U64_MAX then Inr 0
          else
            let this_start = clamp64 s start end;
                this_end = clamp64 e start end;
                cand = round_up64 this_start align
            in if cand < this_end \<and> sub64 this_end cand \<ge> sz then Inr cand
               else find_range_bottom_up_loop n st start end sz align flags i')"

definition memblock_find_range_bottom_up ::
  "memblock \<Rightarrow> phys_addr \<Rightarrow> phys_addr \<Rightarrow> phys_addr \<Rightarrow> phys_addr \<Rightarrow> nat \<Rightarrow> phys_addr res" where
  "memblock_find_range_bottom_up st start end sz align flags =
     find_range_bottom_up_loop (cnt (memory st) + cnt (reserved st) + 2) st start end sz align flags 0"

fun find_range_top_down_loop ::
  "nat \<Rightarrow> memblock \<Rightarrow> phys_addr \<Rightarrow> phys_addr \<Rightarrow> phys_addr \<Rightarrow> phys_addr \<Rightarrow> nat \<Rightarrow> nat \<Rightarrow>
   phys_addr res" where
  "find_range_top_down_loop 0 st start end sz align flags i = Inl Fuel"
| "find_range_top_down_loop (Suc n) st start end sz align flags i =
     (case next_mem_range_rev i flags (memory st) (Some (reserved st)) of
        (i', None) \<Rightarrow> Inr 0
      | (i', Some (s, e)) \<Rightarrow>
          if i' = U64_MAX then Inr 0
          else
            let this_start = clamp64 s start end; this_end = clamp64 e start end in
            if this_end < sz then find_range_top_down_loop n st start end sz align flags i'
            else
              let cand = round_down64 (sub64 this_end sz) align in
              if cand \<ge> this_start then Inr cand
              else find_range_top_down_loop n st start end sz align flags i')"

definition memblock_find_range_top_down ::
  "memblock \<Rightarrow> phys_addr \<Rightarrow> phys_addr \<Rightarrow> phys_addr \<Rightarrow> phys_addr \<Rightarrow> nat \<Rightarrow> phys_addr res" where
  "memblock_find_range_top_down st start end sz align flags =
     find_range_top_down_loop (cnt (memory st) + cnt (reserved st) + 2) st start end sz align flags U64_MAX"

definition memblock_find_in_range_flags ::
  "memblock_env \<Rightarrow> memblock \<Rightarrow> phys_addr \<Rightarrow> phys_addr \<Rightarrow> phys_addr \<Rightarrow> phys_addr \<Rightarrow> nat \<Rightarrow>
   phys_addr res" where
  "memblock_find_in_range_flags env st sz align start end flags =
     (let end1 = (if end = MEMBLOCK_ALLOC_ACCESSIBLE then current_limit st else end);
          start1 = max start PAGE_SIZE;
          end2 = max start1 end1;
          top_down = memblock_find_range_top_down st start1 end2 sz align flags
      in if bottom_up st \<and> end2 > kernel_end env then
           rbind (memblock_find_range_bottom_up st (max start1 (kernel_end env)) end2 sz align flags)
             (\<lambda>ret. if ret \<noteq> 0 then Inr ret else top_down)
         else top_down)"

definition memblock_find_in_range ::
  "memblock_env \<Rightarrow> memblock \<Rightarrow> phys_addr \<Rightarrow> phys_addr \<Rightarrow> phys_addr \<Rightarrow> phys_addr \<Rightarrow> phys_addr res" where
  "memblock_find_in_range env st start end sz align =
     memblock_find_in_range_flags env st sz align start end choose_memblock_flags"

section \<open>Growing, adding, isolating, removing\<close>

text \<open>
  \<^verbatim>\<open>memblock_double_array\<close> frees and reserves array memory through
  \<^verbatim>\<open>memblock_remove_range\<close> and \<^verbatim>\<open>memblock_add_range\<close>, which may double again: the
  functions of this section are mutually recursive in the source.  Here the ones that call
  \<^verbatim>\<open>memblock_double_array\<close> take it as an argument (\<open>dbl\<close>), and the recursion is tied in
  \<open>memblock_double_array\<close>, whose first argument bounds the depth.
\<close>

fun get_in_slab :: "which \<Rightarrow> memblock \<Rightarrow> bool" where
  "get_in_slab MEMORY m = memory_in_slab m"
| "get_in_slab RESERVED m = reserved_in_slab m"

fun put_in_slab :: "which \<Rightarrow> bool \<Rightarrow> memblock \<Rightarrow> memblock" where
  "put_in_slab MEMORY b m = m\<lparr>memory_in_slab := b\<rparr>"
| "put_in_slab RESERVED b m = m\<lparr>reserved_in_slab := b\<rparr>"

text \<open>The address of the new array: from the slab allocator or from memblock itself.\<close>

definition double_array_addr ::
  "memblock_env \<Rightarrow> memblock \<Rightarrow> which \<Rightarrow> phys_addr \<Rightarrow> phys_addr \<Rightarrow> nat \<Rightarrow> nat \<Rightarrow> phys_addr res" where
  "double_array_addr env st w new_area_start new_area_size new_size new_alloc_size =
     (if slab_is_available env then Inr (kmalloc_pa env new_size)
      else
        let (ns, nz) = (if w \<noteq> RESERVED then (0, 0) else (new_area_start, new_area_size)) in
        rbind (memblock_find_in_range env st (add64 ns nz) (current_limit st) new_alloc_size PAGE_SIZE)
          (\<lambda>addr. if addr = 0 \<and> nz \<noteq> 0
                  then memblock_find_in_range env st 0 (min ns (current_limit st)) new_alloc_size PAGE_SIZE
                  else Inr addr))"

definition doubled :: "memblock_type \<Rightarrow> phys_addr \<Rightarrow> memblock_type" where
  "doubled t addr =
     t\<lparr>regions := regions t @ replicate (max_cnt t) empty_region,
       max_cnt := max_cnt t * 2, regions_at := Some addr\<rparr>"

type_synonym double_fun =
  "memblock \<Rightarrow> which \<Rightarrow> phys_addr \<Rightarrow> phys_addr \<Rightarrow> (int \<times> memblock) res"

text \<open>The loop \<^verbatim>\<open>while (type->cnt + nr > type->max)\<close>, at most \<open>k - 1\<close> doublings.\<close>

primrec grow_with ::
  "nat \<Rightarrow> double_fun \<Rightarrow> memblock \<Rightarrow> which \<Rightarrow> nat \<Rightarrow> phys_addr \<Rightarrow> phys_addr \<Rightarrow>
   (int \<times> memblock) res" where
  "grow_with 0 dbl st w nr nas nasz = Inl Fuel"
| "grow_with (Suc k) dbl st w nr nas nasz =
     (if cnt (get_type w st) + nr > max_cnt (get_type w st) then
        rbind (dbl st w nas nasz)
          (\<lambda>(ret, st'). if ret < 0 then Inr (- ENOMEM, st')
                        else grow_with k dbl st' w nr nas nasz)
      else Inr (0, st))"

definition add_range_with ::
  "nat \<Rightarrow> double_fun \<Rightarrow> memblock \<Rightarrow> which \<Rightarrow> phys_addr \<Rightarrow> phys_addr \<Rightarrow> nat \<Rightarrow>
   (int \<times> memblock) res" where
  "add_range_with n dbl st w base sz flags =
     (let sz' = memblock_cap_size base sz; end = add64 base sz'; t = get_type w st in
      if sz' = 0 then Inr (0, st)
      else if rg_size (regions t ! 0) = 0 then
        Inr (0, put_type w
               (t\<lparr>regions := (regions t)[0 := \<lparr>rg_base = base, rg_size = sz', rg_flags = flags\<rparr>],
                  total_size := sz'\<rparr>) st)
      else
        rbind (memblock_add_pass False t base end flags)
          (\<lambda>(nr_new, _).
             if nr_new = 0 then Inr (0, st)
             else
               rbind (grow_with n dbl st w nr_new base sz')
                 (\<lambda>(ret, st1).
                    if ret < 0 then Inr (- ENOMEM, st1)
                    else
                      rbind (memblock_add_pass True (get_type w st1) base end flags)
                        (\<lambda>(nr_new', t1).
                           if nr_new' = 0 then Inr (0, put_type w t1 st1)
                           else
                             rbind (memblock_merge_regions t1)
                               (\<lambda>t2. Inr (0, put_type w t2 st1))))))"

definition isolate_range_with ::
  "nat \<Rightarrow> double_fun \<Rightarrow> memblock \<Rightarrow> which \<Rightarrow> phys_addr \<Rightarrow> phys_addr \<Rightarrow>
   (int \<times> nat \<times> nat \<times> memblock) res" where
  "isolate_range_with n dbl st w base sz =
     (let sz' = memblock_cap_size base sz; end = add64 base sz' in
      if sz' = 0 then Inr (0, 0, 0, st)
      else
        rbind (grow_with n dbl st w 2 base sz')
          (\<lambda>(ret, st1).
             if ret < 0 then Inr (- ENOMEM, 0, 0, st1)
             else
               let t = get_type w st1 in
               rbind (memblock_isolate_loop (4 * cnt t + 1) base end 0 0 0 t)
                 (\<lambda>(s, e, t'). Inr (0, s, e, put_type w t' st1))))"

definition remove_range_with ::
  "nat \<Rightarrow> double_fun \<Rightarrow> memblock \<Rightarrow> which \<Rightarrow> phys_addr \<Rightarrow> phys_addr \<Rightarrow>
   (int \<times> memblock) res" where
  "remove_range_with n dbl st w base sz =
     rbind (isolate_range_with n dbl st w base sz)
       (\<lambda>(ret, s, e, st1).
          if ret \<noteq> 0 then Inr (ret, st1)
          else Inr (0, put_type w (memblock_remove_regions (get_type w st1) s e) st1))"

text \<open>What \<^verbatim>\<open>memblock_double_array\<close> does once it has the address of the new array.\<close>

definition double_array_move ::
  "nat \<Rightarrow> double_fun \<Rightarrow> memblock_env \<Rightarrow> memblock \<Rightarrow> which \<Rightarrow> phys_addr \<Rightarrow> nat \<Rightarrow> nat \<Rightarrow>
   (int \<times> memblock) res" where
  "double_array_move n dbl env st w addr old_alloc_size new_alloc_size =
     (let t = get_type w st; st1 = put_type w (doubled t addr) st in
      rbind
        (if get_in_slab w st then Inr st1
         else case regions_at t of
           None \<Rightarrow> Inr st1
         | Some old \<Rightarrow>
             rbind (remove_range_with n dbl st1 RESERVED old old_alloc_size) (\<lambda>(_, st'). Inr st'))
        (\<lambda>st2.
           rbind
             (if slab_is_available env then Inr st2
              else rbind (add_range_with n dbl st2 RESERVED addr new_alloc_size 0)
                     (\<lambda>(ret, st'). if ret \<noteq> 0 then Inl Bug else Inr st'))
             (\<lambda>st3. Inr (0, put_in_slab w (slab_is_available env) st3))))"

primrec memblock_double_array :: "nat \<Rightarrow> memblock_env \<Rightarrow> double_fun" where
  "memblock_double_array 0 env = (\<lambda>st w nas nasz. Inl Fuel)"
| "memblock_double_array (Suc n) env = (\<lambda>st w nas nasz.
     if \<not> can_resize st then Inr (-1, st)
     else
       let old_size = (max_cnt (get_type w st) * SIZEOF_MEMBLOCK_REGION) mod 2 ^ 64;
           new_size = (old_size * 2) mod 2 ^ 64;
           old_alloc_size = PAGE_ALIGN old_size;
           new_alloc_size = PAGE_ALIGN new_size
       in rbind (double_array_addr env st w nas nasz new_size new_alloc_size)
            (\<lambda>addr.
               if addr = 0 then Inr (-1, st)
               else double_array_move n (memblock_double_array n env) env st w addr
                      old_alloc_size new_alloc_size))"

definition memblock_add_range ::
  "nat \<Rightarrow> memblock_env \<Rightarrow> memblock \<Rightarrow> which \<Rightarrow> phys_addr \<Rightarrow> phys_addr \<Rightarrow> nat \<Rightarrow>
   (int \<times> memblock) res" where
  "memblock_add_range n env = add_range_with n (memblock_double_array n env)"

definition memblock_isolate_range ::
  "nat \<Rightarrow> memblock_env \<Rightarrow> memblock \<Rightarrow> which \<Rightarrow> phys_addr \<Rightarrow> phys_addr \<Rightarrow>
   (int \<times> nat \<times> nat \<times> memblock) res" where
  "memblock_isolate_range n env = isolate_range_with n (memblock_double_array n env)"

definition memblock_remove_range ::
  "nat \<Rightarrow> memblock_env \<Rightarrow> memblock \<Rightarrow> which \<Rightarrow> phys_addr \<Rightarrow> phys_addr \<Rightarrow>
   (int \<times> memblock) res" where
  "memblock_remove_range n env = remove_range_with n (memblock_double_array n env)"

definition memblock_add ::
  "nat \<Rightarrow> memblock_env \<Rightarrow> memblock \<Rightarrow> phys_addr \<Rightarrow> phys_addr \<Rightarrow> (int \<times> memblock) res" where
  "memblock_add n env st base sz = memblock_add_range n env st MEMORY base sz 0"

definition memblock_remove ::
  "nat \<Rightarrow> memblock_env \<Rightarrow> memblock \<Rightarrow> phys_addr \<Rightarrow> phys_addr \<Rightarrow> (int \<times> memblock) res" where
  "memblock_remove n env st base sz = memblock_remove_range n env st MEMORY base sz"

definition memblock_free ::
  "nat \<Rightarrow> memblock_env \<Rightarrow> memblock \<Rightarrow> phys_addr \<Rightarrow> phys_addr \<Rightarrow> (int \<times> memblock) res" where
  "memblock_free n env st base sz = memblock_remove_range n env st RESERVED base sz"

definition memblock_reserve ::
  "nat \<Rightarrow> memblock_env \<Rightarrow> memblock \<Rightarrow> phys_addr \<Rightarrow> phys_addr \<Rightarrow> (int \<times> memblock) res" where
  "memblock_reserve n env st base sz = memblock_add_range n env st RESERVED base sz 0"

definition memblock_setclr_flag ::
  "nat \<Rightarrow> memblock_env \<Rightarrow> memblock \<Rightarrow> phys_addr \<Rightarrow> phys_addr \<Rightarrow> bool \<Rightarrow> nat \<Rightarrow>
   (int \<times> memblock) res" where
  "memblock_setclr_flag n env st base sz set_it flag =
     rbind (memblock_isolate_range n env st MEMORY base sz)
       (\<lambda>(ret, s, e, st1).
          if ret \<noteq> 0 then Inr (ret, st1)
          else
            rbind (memblock_merge_regions (memblock_setclr_regions set_it flag (memory st1) s (e - s)))
              (\<lambda>t. Inr (0, st1\<lparr>memory := t\<rparr>)))"

definition memblock_mark_nomap ::
  "nat \<Rightarrow> memblock_env \<Rightarrow> memblock \<Rightarrow> phys_addr \<Rightarrow> phys_addr \<Rightarrow> (int \<times> memblock) res" where
  "memblock_mark_nomap n env st base sz = memblock_setclr_flag n env st base sz True MEMBLOCK_NOMAP"

definition memblock_clear_nomap ::
  "nat \<Rightarrow> memblock_env \<Rightarrow> memblock \<Rightarrow> phys_addr \<Rightarrow> phys_addr \<Rightarrow> (int \<times> memblock) res" where
  "memblock_clear_nomap n env st base sz = memblock_setclr_flag n env st base sz False MEMBLOCK_NOMAP"

definition memblock_mark_dma ::
  "nat \<Rightarrow> memblock_env \<Rightarrow> memblock \<Rightarrow> phys_addr \<Rightarrow> phys_addr \<Rightarrow> (int \<times> memblock) res" where
  "memblock_mark_dma n env st base sz = memblock_setclr_flag n env st base sz True MEMBLOCK_DMA"

definition memblock_clear_dma ::
  "nat \<Rightarrow> memblock_env \<Rightarrow> memblock \<Rightarrow> phys_addr \<Rightarrow> phys_addr \<Rightarrow> (int \<times> memblock) res" where
  "memblock_clear_dma n env st base sz = memblock_setclr_flag n env st base sz False MEMBLOCK_DMA"

definition memblock_mark_movable ::
  "nat \<Rightarrow> memblock_env \<Rightarrow> memblock \<Rightarrow> phys_addr \<Rightarrow> phys_addr \<Rightarrow> (int \<times> memblock) res" where
  "memblock_mark_movable n env st base sz = memblock_setclr_flag n env st base sz True MEMBLOCK_MOVABLE"

definition memblock_clear_movable ::
  "nat \<Rightarrow> memblock_env \<Rightarrow> memblock \<Rightarrow> phys_addr \<Rightarrow> phys_addr \<Rightarrow> (int \<times> memblock) res" where
  "memblock_clear_movable n env st base sz = memblock_setclr_flag n env st base sz False MEMBLOCK_MOVABLE"

section \<open>Allocation\<close>

definition memblock_alloc_range ::
  "nat \<Rightarrow> memblock_env \<Rightarrow> memblock \<Rightarrow> phys_addr \<Rightarrow> phys_addr \<Rightarrow> phys_addr \<Rightarrow> phys_addr \<Rightarrow> nat \<Rightarrow>
   (phys_addr \<times> memblock) res" where
  "memblock_alloc_range n env st sz align start end flags =
     (let align' = (if align = 0 then SMP_CACHE_BYTES else align) in
      rbind (memblock_find_in_range_flags env st sz align' start end flags)
        (\<lambda>found.
           if found = 0 then Inr (0, st)
           else rbind (memblock_reserve n env st found sz)
                  (\<lambda>(ret, st'). if ret = 0 then Inr (found, st') else Inr (0, st'))))"

definition memblock_alloc_base ::
  "nat \<Rightarrow> memblock_env \<Rightarrow> memblock \<Rightarrow> phys_addr \<Rightarrow> phys_addr \<Rightarrow> phys_addr \<Rightarrow> nat \<Rightarrow>
   (phys_addr \<times> memblock) res" where
  "memblock_alloc_base n env st sz align max_addr flags =
     memblock_alloc_range n env st sz align 0 max_addr flags"

definition memblock_phys_alloc ::
  "nat \<Rightarrow> memblock_env \<Rightarrow> memblock \<Rightarrow> phys_addr \<Rightarrow> phys_addr \<Rightarrow> (phys_addr \<times> memblock) res" where
  "memblock_phys_alloc n env st sz align =
     memblock_alloc_base n env st sz align MEMBLOCK_ALLOC_ACCESSIBLE choose_memblock_flags"

text \<open>
  \<^verbatim>\<open>memblock_alloc_internal\<close>: the physical address that \<^verbatim>\<open>phys_to_virt\<close> is applied to, 0
  for a null pointer.  The second round happens at most once, since it starts with
  \<open>min_addr = 0\<close>.
\<close>

definition memblock_alloc_attempt ::
  "nat \<Rightarrow> memblock_env \<Rightarrow> memblock \<Rightarrow> phys_addr \<Rightarrow> phys_addr \<Rightarrow> phys_addr \<Rightarrow> phys_addr \<Rightarrow>
   (phys_addr \<times> memblock) res" where
  "memblock_alloc_attempt n env st sz align min_addr max_addr =
     rbind (memblock_find_in_range_flags env st sz align min_addr max_addr choose_memblock_flags)
       (\<lambda>alloc.
          if alloc = 0 then Inr (0, st)
          else rbind (memblock_reserve n env st alloc sz)
                 (\<lambda>(ret, st'). if ret = 0 then Inr (alloc, st') else Inr (0, st')))"

definition memblock_alloc_internal ::
  "nat \<Rightarrow> memblock_env \<Rightarrow> memblock \<Rightarrow> phys_addr \<Rightarrow> phys_addr \<Rightarrow> phys_addr \<Rightarrow> phys_addr \<Rightarrow>
   (phys_addr \<times> memblock) res" where
  "memblock_alloc_internal n env st sz align min_addr max_addr =
     (if slab_is_available env then Inr (kmalloc_pa env sz, st)
      else
        let align' = (if align = 0 then SMP_CACHE_BYTES else align);
            max_addr' = (if max_addr > current_limit st then current_limit st else max_addr)
        in rbind (memblock_alloc_attempt n env st sz align' min_addr max_addr')
             (\<lambda>(alloc, st').
                if alloc \<noteq> 0 then Inr (alloc, st')
                else if min_addr \<noteq> 0 then memblock_alloc_attempt n env st' sz align' 0 max_addr'
                else Inr (0, st')))"

definition memblock_alloc_try_raw ::
  "nat \<Rightarrow> memblock_env \<Rightarrow> memblock \<Rightarrow> phys_addr \<Rightarrow> phys_addr \<Rightarrow> phys_addr \<Rightarrow> phys_addr \<Rightarrow>
   (phys_addr \<times> memblock) res" where
  "memblock_alloc_try_raw n env st sz align min_addr max_addr =
     memblock_alloc_internal n env st sz align min_addr max_addr"

text \<open>
  The zeroing variants also take the contents of physical memory, by byte address.  In the
  panicking one no memory is a \<^verbatim>\<open>panic\<close>.
\<close>

definition memset_phys :: "(phys_addr \<Rightarrow> 8 word) \<Rightarrow> phys_addr \<Rightarrow> 8 word \<Rightarrow> nat \<Rightarrow> phys_addr \<Rightarrow> 8 word" where
  "memset_phys mem p c n = (\<lambda>a. if p \<le> a \<and> a < p + n then c else mem a)"

definition memblock_alloc_try_nopanic ::
  "nat \<Rightarrow> memblock_env \<Rightarrow> (phys_addr \<Rightarrow> 8 word) \<Rightarrow> memblock \<Rightarrow>
   phys_addr \<Rightarrow> phys_addr \<Rightarrow> phys_addr \<Rightarrow> phys_addr \<Rightarrow>
   (phys_addr \<times> (phys_addr \<Rightarrow> 8 word) \<times> memblock) res" where
  "memblock_alloc_try_nopanic n env mem st sz align min_addr max_addr =
     rbind (memblock_alloc_internal n env st sz align min_addr max_addr)
       (\<lambda>(ptr, st'). if ptr \<noteq> 0 then Inr (ptr, memset_phys mem ptr 0 sz, st') else Inr (ptr, mem, st'))"

definition memblock_alloc_try ::
  "nat \<Rightarrow> memblock_env \<Rightarrow> (phys_addr \<Rightarrow> 8 word) \<Rightarrow> memblock \<Rightarrow>
   phys_addr \<Rightarrow> phys_addr \<Rightarrow> phys_addr \<Rightarrow> phys_addr \<Rightarrow>
   (phys_addr \<times> (phys_addr \<Rightarrow> 8 word) \<times> memblock) res" where
  "memblock_alloc_try n env mem st sz align min_addr max_addr =
     rbind (memblock_alloc_internal n env st sz align min_addr max_addr)
       (\<lambda>(ptr, st'). if ptr \<noteq> 0 then Inr (ptr, memset_phys mem ptr 0 sz, st') else Inl Bug)"

section \<open>Queries and limits\<close>

definition memblock_phys_mem_size :: "memblock \<Rightarrow> phys_addr" where
  "memblock_phys_mem_size st = total_size (memory st)"

definition memblock_reserved_size :: "memblock \<Rightarrow> phys_addr" where
  "memblock_reserved_size st = total_size (reserved st)"

definition memblock_mem_size :: "memblock \<Rightarrow> nat \<Rightarrow> phys_addr" where
  "memblock_mem_size st limit_pfn =
     (let pages = foldl (\<lambda>pages r.
            let start_pfn = min (PFN_UP (rg_base r)) limit_pfn;
                end_pfn = min (PFN_DOWN (rg_end r)) limit_pfn
            in add64 pages (sub64 end_pfn start_pfn)) 0 (take (cnt (memory st)) (regions (memory st)))
      in (pages * 2 ^ PAGE_SHIFT) mod 2 ^ 64)"

definition memblock_start_of_DRAM :: "memblock \<Rightarrow> phys_addr" where
  "memblock_start_of_DRAM st = rg_base (regions (memory st) ! 0)"

definition memblock_end_of_DRAM :: "memblock \<Rightarrow> phys_addr" where
  "memblock_end_of_DRAM st = rg_end (regions (memory st) ! (cnt (memory st) - 1))"

fun find_max_addr :: "memblock_region list \<Rightarrow> phys_addr \<Rightarrow> phys_addr" where
  "find_max_addr [] limit = U64_MAX"
| "find_max_addr (r # rs) limit =
     (if limit \<le> rg_size r then add64 (rg_base r) limit
      else find_max_addr rs (sub64 limit (rg_size r)))"

definition memblock_enforce_memory_limit ::
  "nat \<Rightarrow> memblock_env \<Rightarrow> memblock \<Rightarrow> phys_addr \<Rightarrow> memblock res" where
  "memblock_enforce_memory_limit n env st limit =
     (if limit = 0 then Inr st
      else
        let max_addr = find_max_addr (take (cnt (memory st)) (regions (memory st))) limit in
        if max_addr = U64_MAX then Inr st
        else
          rbind (memblock_remove_range n env st MEMORY max_addr U64_MAX)
            (\<lambda>(_, st1).
               rbind (memblock_remove_range n env st1 RESERVED max_addr U64_MAX)
                 (\<lambda>(_, st2). Inr st2)))"

text \<open>The two loops of \<^verbatim>\<open>memblock_cap_memory_range\<close>, from index \<open>i - 1\<close> down to \<open>lo\<close>.\<close>

fun remove_map_regions :: "memblock_type \<Rightarrow> nat \<Rightarrow> nat \<Rightarrow> memblock_type" where
  "remove_map_regions t lo 0 = t"
| "remove_map_regions t lo (Suc i) =
     (if lo \<le> i then
        remove_map_regions
          (if memblock_is_nomap (regions t ! i) then t else memblock_remove_region t i) lo i
      else t)"

definition memblock_cap_memory_range ::
  "nat \<Rightarrow> memblock_env \<Rightarrow> memblock \<Rightarrow> phys_addr \<Rightarrow> phys_addr \<Rightarrow> memblock res" where
  "memblock_cap_memory_range n env st base sz =
     (if sz = 0 then Inr st
      else
        rbind (memblock_isolate_range n env st MEMORY base sz)
          (\<lambda>(ret, s, e, st1).
             if ret \<noteq> 0 then Inr st1
             else
               let t1 = remove_map_regions (memory st1) e (cnt (memory st1));
                   t2 = remove_map_regions t1 0 s;
                   st2 = st1\<lparr>memory := t2\<rparr>
               in rbind (memblock_remove_range n env st2 RESERVED 0 base)
                    (\<lambda>(_, st3).
                       rbind (memblock_remove_range n env st3 RESERVED (add64 base sz) U64_MAX)
                         (\<lambda>(_, st4). Inr st4))))"

definition memblock_mem_limit_remove_map ::
  "nat \<Rightarrow> memblock_env \<Rightarrow> memblock \<Rightarrow> phys_addr \<Rightarrow> memblock res" where
  "memblock_mem_limit_remove_map n env st limit =
     (if limit = 0 then Inr st
      else
        let max_addr = find_max_addr (take (cnt (memory st)) (regions (memory st))) limit in
        if max_addr = U64_MAX then Inr st
        else memblock_cap_memory_range n env st 0 max_addr)"

definition memblock_is_reserved :: "memblock \<Rightarrow> phys_addr \<Rightarrow> bool" where
  "memblock_is_reserved st addr = (memblock_search (reserved st) addr \<noteq> -1)"

definition memblock_is_memory :: "memblock \<Rightarrow> phys_addr \<Rightarrow> bool" where
  "memblock_is_memory st addr = (memblock_search (memory st) addr \<noteq> -1)"

definition memblock_is_map_memory :: "memblock \<Rightarrow> phys_addr \<Rightarrow> bool" where
  "memblock_is_map_memory st addr =
     (let i = memblock_search (memory st) addr in
      if i = -1 then False else \<not> memblock_is_nomap (regions (memory st) ! nat i))"

definition memblock_is_region_memory :: "memblock \<Rightarrow> phys_addr \<Rightarrow> phys_addr \<Rightarrow> bool" where
  "memblock_is_region_memory st base sz =
     (let idx = memblock_search (memory st) base;
          end = add64 base (memblock_cap_size base sz)
      in if idx = -1 then False else rg_end (regions (memory st) ! nat idx) \<ge> end)"

definition memblock_is_region_reserved :: "memblock \<Rightarrow> phys_addr \<Rightarrow> phys_addr \<Rightarrow> bool" where
  "memblock_is_region_reserved st base sz =
     memblock_overlaps_region (reserved st) base (memblock_cap_size base sz)"

text \<open>
  \<^verbatim>\<open>memblock_trim_memory\<close> walks a region pointer; the index is the distance to the first
  region, and removing a region steps back, so the next round sees the same index.  The
  bound counts the rounds; after the array is emptied the walk sees the dummy entry.
\<close>

primrec trim_memory_loop :: "nat \<Rightarrow> memblock_type \<Rightarrow> nat \<Rightarrow> phys_addr \<Rightarrow> memblock_type res" where
  "trim_memory_loop 0 t i align = Inl Fuel"
| "trim_memory_loop (Suc n) t i align =
     (if i < cnt t then
        let r = regions t ! i;
            orig_start = rg_base r; orig_end = rg_end r;
            start = round_up64 orig_start align; end = round_down64 orig_end align
        in if start = orig_start \<and> end = orig_end then trim_memory_loop n t (i + 1) align
           else if start < end then
             trim_memory_loop n
               (t\<lparr>regions := (regions t)[i := r\<lparr>rg_base := start, rg_size := sub64 end start\<rparr>]\<rparr>)
               (i + 1) align
           else trim_memory_loop n (memblock_remove_region t i) i align
      else Inr t)"

definition memblock_trim_memory :: "memblock \<Rightarrow> phys_addr \<Rightarrow> memblock res" where
  "memblock_trim_memory st align =
     rbind (trim_memory_loop (2 * cnt (memory st) + 1) (memory st) 0 align)
       (\<lambda>t. Inr (st\<lparr>memory := t\<rparr>))"

definition memblock_set_current_limit :: "memblock \<Rightarrow> phys_addr \<Rightarrow> memblock" where
  "memblock_set_current_limit st limit = st\<lparr>current_limit := limit\<rparr>"

definition memblock_get_current_limit :: "memblock \<Rightarrow> phys_addr" where
  "memblock_get_current_limit st = current_limit st"

definition memblock_allow_resize :: "memblock \<Rightarrow> memblock" where
  "memblock_allow_resize st = st\<lparr>can_resize := True\<rparr>"

definition memblock_set_bottom_up :: "memblock \<Rightarrow> bool \<Rightarrow> memblock" where
  "memblock_set_bottom_up st enable = st\<lparr>bottom_up := enable\<rparr>"

definition memblock_bottom_up :: "memblock \<Rightarrow> bool" where
  "memblock_bottom_up st = bottom_up st"

definition memblock_region_memory_base_pfn :: "memblock_region \<Rightarrow> nat" where
  "memblock_region_memory_base_pfn r = PFN_UP (rg_base r)"

definition memblock_region_memory_end_pfn :: "memblock_region \<Rightarrow> nat" where
  "memblock_region_memory_end_pfn r = PFN_DOWN (rg_end r)"

definition memblock_region_reserved_base_pfn :: "memblock_region \<Rightarrow> nat" where
  "memblock_region_reserved_base_pfn r = PFN_DOWN (rg_base r)"

definition memblock_region_reserved_end_pfn :: "memblock_region \<Rightarrow> nat" where
  "memblock_region_reserved_end_pfn r = PFN_UP (rg_end r)"

section \<open>The allocation wrappers of the header\<close>

definition MEMBLOCK_LOW_LIMIT :: nat where "MEMBLOCK_LOW_LIMIT = 0"
definition ARCH_LOW_ADDRESS_LIMIT :: nat where "ARCH_LOW_ADDRESS_LIMIT = 0xffffffff"

definition memblock_alloc where
  "memblock_alloc n env mem st sz align =
     memblock_alloc_try n env mem st sz align MEMBLOCK_LOW_LIMIT MEMBLOCK_ALLOC_ACCESSIBLE"

definition memblock_alloc_raw where
  "memblock_alloc_raw n env st sz align =
     memblock_alloc_try_raw n env st sz align MEMBLOCK_LOW_LIMIT MEMBLOCK_ALLOC_ACCESSIBLE"

definition memblock_alloc_from where
  "memblock_alloc_from n env mem st sz align min_addr =
     memblock_alloc_try n env mem st sz align min_addr MEMBLOCK_ALLOC_ACCESSIBLE"

definition memblock_alloc_nopanic where
  "memblock_alloc_nopanic n env mem st sz align =
     memblock_alloc_try_nopanic n env mem st sz align MEMBLOCK_LOW_LIMIT MEMBLOCK_ALLOC_ACCESSIBLE"

definition memblock_alloc_low where
  "memblock_alloc_low n env mem st sz align =
     memblock_alloc_try n env mem st sz align MEMBLOCK_LOW_LIMIT ARCH_LOW_ADDRESS_LIMIT"

definition memblock_alloc_low_nopanic where
  "memblock_alloc_low_nopanic n env mem st sz align =
     memblock_alloc_try_nopanic n env mem st sz align MEMBLOCK_LOW_LIMIT ARCH_LOW_ADDRESS_LIMIT"

definition memblock_alloc_from_nopanic where
  "memblock_alloc_from_nopanic n env mem st sz align min_addr =
     memblock_alloc_try_nopanic n env mem st sz align min_addr MEMBLOCK_ALLOC_ACCESSIBLE"

end
