(* ===== verification/Memblock_Find.thy ===== *)
theory Memblock_Find
  imports Memblock
begin

text \<open>
  The invariant of the allocator state, and the correctness of the iterators over free
  memory and of the search for a free area.
\<close>

section \<open>Invariant and abstraction\<close>

text \<open>
  A well-formed array is either the dummy entry alone or a sorted list of disjoint,
  non-empty regions that end below \<open>2 ^ 64\<close>; \<open>total_size\<close> is the sum of the sizes.
\<close>

definition type_ok :: "memblock_type \<Rightarrow> bool" where
  "type_ok t \<longleftrightarrow> arr_ok t \<and> 0 < cnt t \<and> tot_ok t \<and> (live t = [empty_region] \<or> rgs_ok (live t))"

definition mb_ok :: "memblock \<Rightarrow> bool" where
  "mb_ok st \<longleftrightarrow> type_ok (memory st) \<and> type_ok (reserved st)"

abbreviation tmap :: "memblock_type \<Rightarrow> phys_addr \<Rightarrow> nat option" where
  "tmap t \<equiv> amap (live t)"

abbreviation mem_map :: "memblock \<Rightarrow> phys_addr \<Rightarrow> nat option" where
  "mem_map st \<equiv> tmap (memory st)"

abbreviation res_map :: "memblock \<Rightarrow> phys_addr \<Rightarrow> nat option" where
  "res_map st \<equiv> tmap (reserved st)"

definition free_range :: "memblock \<Rightarrow> nat \<Rightarrow> phys_addr \<Rightarrow> phys_addr \<Rightarrow> bool" where
  "free_range st flags s e \<longleftrightarrow>
     (\<forall>a. s \<le> a \<and> a < e \<longrightarrow>
        (\<exists>f. mem_map st a = Some f \<and> (flags AND MEMBLOCK_NOMAP = 0 \<longrightarrow> f AND MEMBLOCK_NOMAP = 0)) \<and>
        res_map st a = None)"

lemma amap_dummy [simp]: "amap [empty_region] = (\<lambda>a. None)"
  by (simp add: empty_region_def fun_eq_iff)

lemma type_ok_cases:
  assumes "type_ok t"
  obtains (dummy) "live t = [empty_region]" "cnt t = 1" | (regions) "rgs_ok (live t)"
proof -
  have "length (live t) = cnt t" using assms by (simp add: type_ok_def)
  with assms dummy regions show thesis
    unfolding type_ok_def by (metis One_nat_def length_Cons list.size(3))
qed

lemma type_ok_arr: "type_ok t \<Longrightarrow> arr_ok t"
  by (simp add: type_ok_def)

lemma type_ok_total:
  assumes "type_ok t"
  shows "total_size t = card {a. tmap t a \<noteq> None}"
  using assms
proof (cases rule: type_ok_cases)
  case dummy
  then show ?thesis using assms by (simp add: type_ok_def tot_ok_def empty_region_def)
next
  case regions
  then show ?thesis
    using assms rgs_ok_sum_bound [of "live t"] rgs_ok_sum_card [of "live t"]
    by (simp add: type_ok_def tot_ok_def U64_MAX_def)
qed

lemma init_ok: "mb_ok memblock_init"
  by (simp add: mb_ok_def memblock_init_def init_array_def type_ok_def arr_ok_def tot_ok_def live_def
      empty_region_def)

section \<open>Gaps of the exclusion array\<close>

lemma gap_free:
  assumes "type_ok t" and "i \<le> cnt t" and "gap_start t i \<le> a" and "a < gap_end t i"
  shows "tmap t a = None"
  using assms(1)
proof (cases rule: type_ok_cases)
  case dummy
  then show ?thesis by simp
next
  case regions
  have len: "length (live t) = cnt t" using assms(1) by (simp add: type_ok_arr)
  show ?thesis unfolding amap_None_iff
  proof
    fix r assume "r \<in> set (live t)"
    then obtain j where j: "j < cnt t" "r = live t ! j" using len by (metis in_set_conv_nth)
    have v: "rg_valid (live t ! k)" if "k < cnt t" for k
      using regions that len by (simp add: rgs_ok_def)
    show "\<not> (rg_base r \<le> a \<and> a < rg_base r + rg_size r)"
    proof (cases "j < i")
      case True
      then have "rg_base (live t ! (i - 1)) + rg_size (live t ! (i - 1)) \<le> a"
        using assms v [of "i - 1"] by (simp add: gap_start_def rg_end_valid live_nth)
      moreover have "rg_base r + rg_size r \<le> rg_base (live t ! (i - 1)) + rg_size (live t ! (i - 1))"
      proof (cases "j = i - 1")
        case False
        then have "j < i - 1" "i - 1 < length (live t)" using True assms(2) len by linarith+
        from rgs_ok_nth_before [OF regions this] show ?thesis by (simp add: j)
      qed (simp add: j)
      ultimately show ?thesis by simp
    next
      case False
      then have "a < rg_base (live t ! i)"
        using assms j by (simp add: gap_end_def live_nth)
      moreover have "rg_base (live t ! i) \<le> rg_base r"
      proof (cases "i = j")
        case ne: False
        then have "i < j" "j < length (live t)" using False len j by linarith+
        from rgs_ok_nth_before [OF regions this] show ?thesis by (simp add: j)
      qed (simp add: j)
      ultimately show ?thesis by simp
    qed
  qed
qed

text \<open>What one hit of an iterator is: a part of region \<open>k\<close> that lies in gap \<open>i\<close>.\<close>

definition hit :: "nat \<Rightarrow> memblock_type \<Rightarrow> memblock_type \<Rightarrow> nat \<Rightarrow> nat \<Rightarrow> phys_addr \<Rightarrow> phys_addr \<Rightarrow> bool" where
  "hit flags ta tb k i s e \<longleftrightarrow>
     k < cnt ta \<and> i \<le> cnt tb \<and>
     \<not> (flags AND MEMBLOCK_NOMAP = 0 \<and> memblock_is_nomap (regions ta ! k)) \<and>
     s = max (rg_base (regions ta ! k)) (gap_start tb i) \<and>
     e = min (rg_end (regions ta ! k)) (gap_end tb i)"

lemma hit_free:
  assumes "mb_ok st" and "hit flags (memory st) (reserved st) k i s e"
  shows "free_range st flags s e" and "e \<le> U64_MAX"
proof -
  have ok: "type_ok (memory st)" "type_ok (reserved st)" using assms(1) by (simp_all add: mb_ok_def)
  let ?m = "live (memory st) ! k"
  have h: "k < cnt (memory st)" "i \<le> cnt (reserved st)" "s = max (rg_base ?m) (gap_start (reserved st) i)"
    "e = min (rg_end ?m) (gap_end (reserved st) i)"
    "flags AND MEMBLOCK_NOMAP = 0 \<longrightarrow> rg_flags ?m AND MEMBLOCK_NOMAP = 0"
    using assms(2) by (auto simp: hit_def live_nth memblock_is_nomap_def)
  show "e \<le> U64_MAX" using h(4) add64_bound [of "rg_base ?m"] by (simp add: rg_end_def min.coboundedI1)
  show "free_range st flags s e"
    unfolding free_range_def
  proof (intro allI impI conjI)
    fix a assume a: "s \<le> a \<and> a < e"
    show "res_map st a = None"
      using gap_free [OF ok(2) h(2), of a] a h(3,4) by simp
    show "\<exists>f. mem_map st a = Some f \<and> (flags AND MEMBLOCK_NOMAP = 0 \<longrightarrow> f AND MEMBLOCK_NOMAP = 0)"
      using ok(1)
    proof (cases rule: type_ok_cases)
      case dummy
      with a h(1,3,4) show ?thesis by (simp add: empty_region_def rg_end_def add64_def)
    next
      case regions
      have "?m \<in> set (live (memory st))" using h(1) ok(1) by (simp add: type_ok_arr)
      moreover from this have "rg_valid ?m" using regions by (simp add: rgs_ok_def)
      ultimately have "mem_map st a = Some (rg_flags ?m)"
        using a h(3,4) by (intro rgs_ok_amap [OF regions]) (simp_all add: rg_end_valid)
      with h(5) show ?thesis by simp
    qed
  qed
qed

section \<open>Forward iteration\<close>

lemma next_scan_found:
  "next_scan tb a ms me b = Found s e a' b' \<Longrightarrow>
   \<exists>i. b \<le> i \<and> i \<le> cnt tb \<and> s = max ms (gap_start tb i) \<and> e = min me (gap_end tb i) \<and>
     (a' = a + 1 \<and> b' = i \<or> a' = a \<and> b' = i + 1)"
proof (induction tb a ms me b rule: next_scan.induct)
  case (1 tb a ms me b)
  show ?case
  proof (cases "b < cnt tb + 1 \<and> gap_start tb b < me \<and> \<not> ms < gap_end tb b")
    case True
    then have "next_scan tb a ms me b = next_scan tb a ms me (b + 1)"
      by (subst next_scan.simps) (simp add: Let_def)
    with True 1 show ?thesis by (metis (no_types, lifting) Suc_eq_plus1 Suc_leD linorder_not_less)
  next
    case False
    with 1(2) show ?thesis by (subst (asm) next_scan.simps) (auto simp: Let_def split: if_splits)
  qed
qed

lemma next_scan_broke: "next_scan tb a ms me b = Broke b' \<Longrightarrow> b \<le> b'"
proof (induction tb a ms me b rule: next_scan.induct)
  case (1 tb a ms me b)
  show ?case
  proof (cases "b < cnt tb + 1 \<and> gap_start tb b < me \<and> \<not> ms < gap_end tb b")
    case True
    then have "next_scan tb a ms me b = next_scan tb a ms me (b + 1)"
      by (subst next_scan.simps) (simp add: Let_def)
    with True 1 show ?thesis by (metis (no_types, lifting) Suc_eq_plus1 Suc_leD linorder_not_less)
  next
    case False
    with 1(2) show ?thesis by (subst (asm) next_scan.simps) (auto simp: Let_def split: if_splits)
  qed
qed

lemma next_mem_range_from_hit:
  "next_mem_range_from flags ta (Some tb) a b = (i', Some (s, e)) \<Longrightarrow>
   \<exists>k i. a \<le> k \<and> b \<le> i \<and> hit flags ta tb k i s e \<and>
     (i' = pack_idx (int k + 1) (int i) \<or> i' = pack_idx (int k) (int i + 1))"
proof (induction flags ta "Some tb" a b arbitrary: rule: next_mem_range_from.induct)
  case (1 flags ta a b)
  let ?m = "regions ta ! a"
  consider (stop) "\<not> a < cnt ta"
    | (skip) "a < cnt ta" "flags AND MEMBLOCK_NOMAP = 0 \<and> memblock_is_nomap ?m"
    | (found) s' e' a' b' where "a < cnt ta" "\<not> (flags AND MEMBLOCK_NOMAP = 0 \<and> memblock_is_nomap ?m)"
        "next_scan tb a (rg_base ?m) (rg_end ?m) b = Found s' e' a' b'"
    | (broke) b' where "a < cnt ta" "\<not> (flags AND MEMBLOCK_NOMAP = 0 \<and> memblock_is_nomap ?m)"
        "next_scan tb a (rg_base ?m) (rg_end ?m) b = Broke b'"
    by (metis scan.exhaust)
  then show ?case
  proof cases
    case stop
    with 1(3) show ?thesis by (subst (asm) next_mem_range_from.simps) simp
  next
    case skip
    then have "next_mem_range_from flags ta (Some tb) a b = next_mem_range_from flags ta (Some tb) (a + 1) b"
      by (subst next_mem_range_from.simps) (simp add: Let_def)
    with 1 skip show ?thesis by (metis (no_types, lifting) Suc_eq_plus1 Suc_leD)
  next
    case found
    then have "next_mem_range_from flags ta (Some tb) a b = (pack_idx (int a') (int b'), Some (s', e'))"
      by (subst next_mem_range_from.simps) (auto simp: Let_def)
    with 1(3) have "i' = pack_idx (int a') (int b')" "s = s'" "e = e'" by simp_all
    moreover obtain i where "b \<le> i" "i \<le> cnt tb" "s' = max (rg_base ?m) (gap_start tb i)"
      "e' = min (rg_end ?m) (gap_end tb i)" "a' = a + 1 \<and> b' = i \<or> a' = a \<and> b' = i + 1"
      using next_scan_found [OF found(3)] by blast
    ultimately show ?thesis
      using found(1,2) by (intro exI [of _ a] exI [of _ i]) (auto simp: hit_def add.commute)
  next
    case broke
    then have "next_mem_range_from flags ta (Some tb) a b = next_mem_range_from flags ta (Some tb) (a + 1) b'"
      by (subst next_mem_range_from.simps) (auto simp: Let_def)
    moreover have "b \<le> b'" using next_scan_broke [OF broke(3)] .
    ultimately show ?thesis
      using 1(2) [OF broke(1) refl refl refl broke(2) refl broke(3)] 1(3)
      by (metis (no_types, lifting) add_leD1 order_trans)
  qed
qed

section \<open>Reverse iteration\<close>

lemma next_scan_rev_found:
  "next_scan_rev tb a ms me b = FoundR s e a' b' \<Longrightarrow>
   \<exists>i. 0 \<le> i \<and> i \<le> b \<and> s = max ms (gap_start tb (nat i)) \<and> e = min me (gap_end tb (nat i)) \<and>
     (a' = a - 1 \<and> b' = i \<or> a' = a \<and> b' = i - 1)"
proof (induction tb a ms me b rule: next_scan_rev.induct)
  case (1 tb a ms me b)
  show ?case
  proof (cases "b \<ge> 0 \<and> ms < gap_end tb (nat b) \<and> \<not> gap_start tb (nat b) < me")
    case True
    then have "next_scan_rev tb a ms me b = next_scan_rev tb a ms me (b - 1)"
      by (subst next_scan_rev.simps) (simp add: Let_def)
    with True 1 obtain i where "0 \<le> i" "i \<le> b - 1" "s = max ms (gap_start tb (nat i))"
      "e = min me (gap_end tb (nat i))" "a' = a - 1 \<and> b' = i \<or> a' = a \<and> b' = i - 1"
      by (metis (no_types, lifting) linorder_not_less)
    then show ?thesis by (intro exI [of _ i]) simp
  next
    case False
    with 1(2) show ?thesis by (subst (asm) next_scan_rev.simps) (auto simp: Let_def split: if_splits)
  qed
qed

lemma next_scan_rev_broke: "next_scan_rev tb a ms me b = BrokeR b' \<Longrightarrow> b' \<le> b"
proof (induction tb a ms me b rule: next_scan_rev.induct)
  case (1 tb a ms me b)
  show ?case
  proof (cases "b \<ge> 0 \<and> ms < gap_end tb (nat b) \<and> \<not> gap_start tb (nat b) < me")
    case True
    then have "next_scan_rev tb a ms me b = next_scan_rev tb a ms me (b - 1)"
      by (subst next_scan_rev.simps) (simp add: Let_def)
    with True 1 have "b' \<le> b - 1" by (metis (no_types, lifting) linorder_not_less)
    then show ?thesis by simp
  next
    case False
    with 1(2) show ?thesis by (subst (asm) next_scan_rev.simps) (auto simp: Let_def split: if_splits)
  qed
qed

lemma next_mem_range_rev_from_hit:
  "next_mem_range_rev_from flags ta (Some tb) a b = (i', Some (s, e)) \<Longrightarrow>
   a < int (cnt ta) \<Longrightarrow> b \<le> int (cnt tb) \<Longrightarrow>
   \<exists>k i. int k \<le> a \<and> int i \<le> b \<and> hit flags ta tb k i s e \<and>
     (i' = pack_idx (int k - 1) (int i) \<or> i' = pack_idx (int k) (int i - 1))"
proof (induction flags ta "Some tb" a b arbitrary: rule: next_mem_range_rev_from.induct)
  case (1 flags ta a b)
  let ?m = "regions ta ! nat a"
  consider (stop) "\<not> 0 \<le> a"
    | (skip) "0 \<le> a" "flags AND MEMBLOCK_NOMAP = 0 \<and> memblock_is_nomap ?m"
    | (found) s' e' a' b' where "0 \<le> a" "\<not> (flags AND MEMBLOCK_NOMAP = 0 \<and> memblock_is_nomap ?m)"
        "next_scan_rev tb a (rg_base ?m) (rg_end ?m) b = FoundR s' e' a' b'"
    | (broke) b' where "0 \<le> a" "\<not> (flags AND MEMBLOCK_NOMAP = 0 \<and> memblock_is_nomap ?m)"
        "next_scan_rev tb a (rg_base ?m) (rg_end ?m) b = BrokeR b'"
    by (metis scan_rev.exhaust)
  then show ?case
  proof cases
    case stop
    with 1(3) show ?thesis by (subst (asm) next_mem_range_rev_from.simps) simp
  next
    case skip
    then have eq: "next_mem_range_rev_from flags ta (Some tb) a b =
        next_mem_range_rev_from flags ta (Some tb) (a - 1) b"
      by (subst next_mem_range_rev_from.simps) (simp add: Let_def)
    have "\<exists>k i. int k \<le> a - 1 \<and> int i \<le> b \<and> hit flags ta tb k i s e \<and>
        (i' = pack_idx (int k - 1) (int i) \<or> i' = pack_idx (int k) (int i - 1))"
      using 1(3-5) eq by (intro 1(1) [OF skip(1) refl refl refl skip(2)]) simp_all
    then obtain k i where "int k \<le> a - 1" "int i \<le> b" "hit flags ta tb k i s e"
      "i' = pack_idx (int k - 1) (int i) \<or> i' = pack_idx (int k) (int i - 1)" by blast
    then show ?thesis by (intro exI [of _ k] exI [of _ i]) simp
  next
    case found
    then have "next_mem_range_rev_from flags ta (Some tb) a b = (pack_idx a' b', Some (s', e'))"
      by (subst next_mem_range_rev_from.simps) (auto simp: Let_def)
    with 1(3) have "i' = pack_idx a' b'" "s = s'" "e = e'" by simp_all
    moreover obtain i where i: "0 \<le> i" "i \<le> b" "s' = max (rg_base ?m) (gap_start tb (nat i))"
      "e' = min (rg_end ?m) (gap_end tb (nat i))" "a' = a - 1 \<and> b' = i \<or> a' = a \<and> b' = i - 1"
      using next_scan_rev_found [OF found(3)] by blast
    moreover have "nat a < cnt ta" "nat i \<le> cnt tb" using found(1) i(1,2) 1(4,5) by linarith+
    then have "hit flags ta tb (nat a) (nat i) s' e'" using found(2) i(3,4) by (simp add: hit_def)
    moreover have "int (nat a) = a" "int (nat i) = i" using found(1) i(1) by simp_all
    ultimately show ?thesis by (metis order_refl)
  next
    case broke
    then have eq: "next_mem_range_rev_from flags ta (Some tb) a b =
        next_mem_range_rev_from flags ta (Some tb) (a - 1) b'"
      by (subst next_mem_range_rev_from.simps) (auto simp: Let_def)
    have b': "b' \<le> b" using next_scan_rev_broke [OF broke(3)] .
    have "\<exists>k i. int k \<le> a - 1 \<and> int i \<le> b' \<and> hit flags ta tb k i s e \<and>
        (i' = pack_idx (int k - 1) (int i) \<or> i' = pack_idx (int k) (int i - 1))"
      using 1(3-5) eq b' by (intro 1(2) [OF broke(1) refl refl refl broke(2) refl broke(3)]) simp_all
    then obtain k i where "int k \<le> a - 1" "int i \<le> b'" "hit flags ta tb k i s e"
      "i' = pack_idx (int k - 1) (int i) \<or> i' = pack_idx (int k) (int i - 1)" by blast
    then show ?thesis using b' by (intro exI [of _ k] exI [of _ i]) simp
  qed
qed

section \<open>The packed loop variable\<close>

lemma s32_id: "- (2 ^ 31) \<le> a \<Longrightarrow> a < 2 ^ 31 \<Longrightarrow> s32 (nat (a mod 2 ^ 32)) = a"
proof -
  assume a: "- (2 ^ 31) \<le> a" "a < 2 ^ 31"
  show ?thesis
  proof (cases "0 \<le> a")
    case True
    then have "a mod 2 ^ 32 = a" using a by (intro mod_pos_pos_trivial) simp_all
    with True a show ?thesis by (simp add: s32_def nat_less_iff)
  next
    case False
    have "a mod 2 ^ 32 = (a + 2 ^ 32) mod 2 ^ 32" by simp
    also have "\<dots> = a + 2 ^ 32" using False a by (intro mod_pos_pos_trivial) simp_all
    finally show ?thesis using False a by (simp add: s32_def nat_less_iff)
  qed
qed

lemma unpack_pack:
  assumes "- (2 ^ 31) \<le> a" "a < 2 ^ 31" "- (2 ^ 31) \<le> b" "b < 2 ^ 31"
  shows "unpack_a (pack_idx a b) = a" and "unpack_b (pack_idx a b) = b"
proof -
  have lt: "nat (x mod 2 ^ 32) < 2 ^ 32" for x :: int by (simp add: nat_less_iff)
  have "pack_idx a b mod 2 ^ 32 = nat (a mod 2 ^ 32)"
    using lt [of a] by (simp add: pack_idx_def)
  moreover have "pack_idx a b div 2 ^ 32 = nat (b mod 2 ^ 32)"
    using lt [of a] by (simp add: pack_idx_def)
  moreover have "s32 n = s32 (n mod 2 ^ 32)" for n by (simp add: s32_def)
  ultimately show "unpack_a (pack_idx a b) = a" "unpack_b (pack_idx a b) = b"
    using s32_id assms by (metis unpack_a_def, metis unpack_b_def)
qed

lemma s32_le: "s32 n \<le> int n"
  by (auto simp: s32_def)

lemma s32_range: "- (2 ^ 31) \<le> s32 n" "s32 n < 2 ^ 31"
proof -
  have "int (n mod 2 ^ 32) < 2 ^ 32" by (simp add: zmod_int)
  then show "- (2 ^ 31) \<le> s32 n" "s32 n < 2 ^ 31"
    by (auto simp: s32_def)
qed

section \<open>Searching\<close>

text \<open>What a caller may rely on when an address \<open>c\<close> is returned.\<close>

definition area_ok ::
  "memblock \<Rightarrow> nat \<Rightarrow> phys_addr \<Rightarrow> phys_addr \<Rightarrow> phys_addr \<Rightarrow> phys_addr \<Rightarrow> phys_addr \<Rightarrow> bool" where
  "area_ok st flags start end sz align c \<longleftrightarrow>
     start \<le> c \<and> c + sz \<le> end \<and> align dvd c \<and> free_range st flags c (c + sz)"

lemma free_range_sub: "free_range st flags s e \<Longrightarrow> s \<le> s' \<Longrightarrow> e' \<le> e \<Longrightarrow> free_range st flags s' e'"
  by (simp add: free_range_def)

lemma free_range_empty: "e \<le> s \<Longrightarrow> free_range st flags s e"
  by (auto simp: free_range_def)

lemma clamp_inside:
  assumes "start \<le> end" and "clamp64 s start end \<le> c" and "c < x" and "x \<le> clamp64 e start end"
  shows "s \<le> c" and "start \<le> c" and "x \<le> e" and "x \<le> end"
  using assms by (auto simp: clamp64_def)

lemma area_in_clamp:
  assumes "start \<le> end" and "free_range st flags s e" and "align dvd c"
    and "clamp64 s start end \<le> c" and "c + sz \<le> clamp64 e start end"
  shows "area_ok st flags start end sz align c"
proof (cases "sz = 0")
  case True
  then show ?thesis
    using assms by (auto simp: area_ok_def clamp64_def free_range_empty)
next
  case False
  then have "c < c + sz" by simp
  from clamp_inside [OF assms(1,4) this assms(5)] show ?thesis
    using assms(2,3) by (auto simp: area_ok_def intro: free_range_sub)
qed

lemma clamp64_le: "end \<le> U64_MAX \<Longrightarrow> clamp64 v start end \<le> U64_MAX"
  by (simp add: clamp64_def)

lemma bottom_up_sound:
  assumes "mb_ok st" and "start \<le> end" and "end \<le> U64_MAX" and "k < 64"
  shows "find_range_bottom_up_loop n st start end sz (2 ^ k) flags i = Inr c \<Longrightarrow> c \<noteq> 0 \<Longrightarrow>
    area_ok st flags start end sz (2 ^ k) c"
proof (induction n arbitrary: i)
  case 0
  then show ?case by simp
next
  case (Suc n)
  obtain i' o' where nx: "next_mem_range i flags (memory st) (Some (reserved st)) = (i', o')"
    by (cases "next_mem_range i flags (memory st) (Some (reserved st))") 
  show ?case
  proof (cases o')
    case None
    then show ?thesis using Suc.prems nx by simp
  next
    case (Some se)
    then obtain s e where o': "o' = Some (s, e)" by (cases se) simp
    obtain k' i'' where "hit flags (memory st) (reserved st) k' i'' s e"
      using next_mem_range_from_hit nx o' by (metis next_mem_range_def)
    from hit_free(1) [OF assms(1) this] have f: "free_range st flags s e" .
    let ?s = "clamp64 s start end" and ?e = "clamp64 e start end"
    let ?c = "round_up64 ?s (2 ^ k)"
    show ?thesis
    proof (cases "i' \<noteq> U64_MAX \<and> \<not> (?c < ?e \<and> sub64 ?e ?c \<ge> sz)")
      case True
      then have "find_range_bottom_up_loop n st start end sz (2 ^ k) flags i' = Inr c"
        using Suc.prems nx o' by (simp add: Let_def split: if_splits)
      then show ?thesis using Suc by blast
    next
      case False
      then have c: "c = ?c" "?c < ?e" "sz \<le> sub64 ?e ?c"
        using Suc.prems nx o' by (auto simp: Let_def split: if_splits)
      have "?s \<le> ?c" "2 ^ k dvd ?c"
        using round_up64_pow2 [OF clamp64_le [OF assms(3)] assms(4), of s start] Suc.prems(2) c(1) by auto
      moreover have "?c + sz \<le> ?e"
        using c(2,3) clamp64_le [OF assms(3), of e start] by (simp add: sub64_exact)
      ultimately show ?thesis
        unfolding c(1) by (intro area_in_clamp [OF assms(2) f])
    qed
  qed
qed

lemma sub64_wrap: "0 < n \<Longrightarrow> sub64 n 1 = (n - 1) mod 2 ^ 64"
proof -
  assume "0 < n"
  then have "n + (2 ^ 64 - 1) = (n - 1) + 2 ^ 64" by simp
  then show ?thesis unfolding sub64_def by (simp only: mod_add_self2)
qed

definition rev_at :: "memblock \<Rightarrow> nat \<Rightarrow> bool" where
  "rev_at st i \<longleftrightarrow> i = U64_MAX \<or>
     (unpack_a i < int (cnt (memory st)) \<and> unpack_b i \<le> int (cnt (reserved st)))"

lemma next_mem_range_rev_hit:
  assumes "mb_ok st" and "rev_at st i"
    and "next_mem_range_rev i flags (memory st) (Some (reserved st)) = (i', Some (s, e))"
  shows "\<exists>k j. hit flags (memory st) (reserved st) k j s e \<and> rev_at st i' \<and>
    (unpack_a i' = int k - 1 \<and> unpack_b i' = int j \<or> unpack_a i' = int k \<and> unpack_b i' = int j - 1) \<and>
    (if i = U64_MAX then k < cnt (memory st) \<and> j \<le> cnt (reserved st)
     else int k \<le> unpack_a i \<and> int j \<le> unpack_b i)"
proof -
  define a where "a = (if i = U64_MAX then s32 (sub64 (cnt (memory st)) 1) else unpack_a i)"
  define b where "b = (if i = U64_MAX then s32 (cnt (reserved st)) else unpack_b i)"
  have "0 < cnt (memory st)" using assms(1) by (simp add: mb_ok_def type_ok_def)
  then have "sub64 (cnt (memory st)) 1 = (cnt (memory st) - 1) mod 2 ^ 64"
    by (rule sub64_wrap)
  then have "sub64 (cnt (memory st)) 1 \<le> cnt (memory st) - 1" by simp
  then have a: "a < int (cnt (memory st))"
    using assms(2) s32_le [of "sub64 (cnt (memory st)) 1"] \<open>0 < cnt (memory st)\<close>
    by (auto simp: a_def rev_at_def)
  have b: "b \<le> int (cnt (reserved st))"
    using assms(2) s32_le by (auto simp: b_def rev_at_def)
  have ab: "a < 2 ^ 31" "b < 2 ^ 31"
    using s32_range by (auto simp: a_def b_def unpack_a_def unpack_b_def)
  have "next_mem_range_rev_from flags (memory st) (Some (reserved st)) a b = (i', Some (s, e))"
    using assms(3) by (auto simp: next_mem_range_rev_def a_def b_def split: if_splits)
  from next_mem_range_rev_from_hit [OF this a b] obtain k j where
    kj: "int k \<le> a" "int j \<le> b" "hit flags (memory st) (reserved st) k j s e"
    "i' = pack_idx (int k - 1) (int j) \<or> i' = pack_idx (int k) (int j - 1)" by blast
  then have u: "unpack_a i' = int k - 1 \<and> unpack_b i' = int j \<or> unpack_a i' = int k \<and> unpack_b i' = int j - 1"
    using ab unpack_pack [of "int k - 1" "int j"] unpack_pack [of "int k" "int j - 1"] by auto
  have "k < cnt (memory st)" "j \<le> cnt (reserved st)" using kj(3) by (simp_all add: hit_def)
  with u have "rev_at st i'" by (auto simp: rev_at_def)
  with kj u \<open>k < cnt (memory st)\<close> \<open>j \<le> cnt (reserved st)\<close> show ?thesis
    by (intro exI [of _ k] exI [of _ j]) (auto simp: a_def b_def)
qed

lemma top_down_sound:
  assumes "mb_ok st" and "start \<le> end" and "end \<le> U64_MAX" and "k < 64"
  shows "find_range_top_down_loop n st start end sz (2 ^ k) flags i = Inr c \<Longrightarrow> c \<noteq> 0 \<Longrightarrow>
    rev_at st i \<Longrightarrow> area_ok st flags start end sz (2 ^ k) c"
proof (induction n arbitrary: i)
  case 0
  then show ?case by simp
next
  case (Suc n)
  obtain i' o' where nx: "next_mem_range_rev i flags (memory st) (Some (reserved st)) = (i', o')"
    by (cases "next_mem_range_rev i flags (memory st) (Some (reserved st))") 
  show ?case
  proof (cases o')
    case None
    then show ?thesis using Suc.prems nx by simp
  next
    case (Some se)
    then obtain s e where o': "o' = Some (s, e)" by (cases se) simp
    obtain k' j where h: "hit flags (memory st) (reserved st) k' j s e" and ra: "rev_at st i'"
      using next_mem_range_rev_hit [OF assms(1) Suc.prems(3)] nx o' by blast
    from hit_free(1) [OF assms(1) h] have f: "free_range st flags s e" .
    let ?s = "clamp64 s start end" and ?e = "clamp64 e start end"
    let ?c = "round_down64 (sub64 ?e sz) (2 ^ k)"
    show ?thesis
    proof (cases "i' \<noteq> U64_MAX \<and> (?e < sz \<or> ?c < ?s)")
      case True
      then have "find_range_top_down_loop n st start end sz (2 ^ k) flags i' = Inr c"
        using Suc.prems nx o' by (auto simp: Let_def split: if_splits)
      then show ?thesis using Suc ra by blast
    next
      case False
      then have c: "c = ?c" "?s \<le> ?c" "sz \<le> ?e"
        using Suc.prems nx o' by (auto simp: Let_def split: if_splits)
      have "sub64 ?e sz = ?e - sz" using c(3) clamp64_le [OF assms(3), of e start] by (simp add: sub64_exact)
      moreover have "?e - sz \<le> U64_MAX" using clamp64_le [OF assms(3), of e start] by simp
      ultimately have "?c = (?e - sz) div 2 ^ k * 2 ^ k"
        using round_down64_pow2 [OF _ assms(4)] by simp
      moreover have "(?e - sz) div 2 ^ k * 2 ^ k \<le> ?e - sz" by simp
      ultimately have "2 ^ k dvd ?c" "?c \<le> ?e - sz" by simp_all
      then have "2 ^ k dvd ?c" "?c + sz \<le> ?e" using c(3) by simp_all
      with c show ?thesis by (simp only: c(1)) (intro area_in_clamp [OF assms(2) f])
    qed
  qed
qed

text \<open>The two searches end within the bound: every hit advances one of the indices.\<close>

definition mb_small :: "memblock \<Rightarrow> bool" where
  "mb_small st \<longleftrightarrow> cnt (memory st) < 2 ^ 31 - 1 \<and> cnt (reserved st) < 2 ^ 31 - 1"

definition fwd_left :: "memblock \<Rightarrow> nat \<Rightarrow> nat" where
  "fwd_left st i = (cnt (memory st) - u64_of_s32 (unpack_a i)) + (cnt (reserved st) + 1 - u64_of_s32 (unpack_b i))"

lemma u64_of_s32_nat: "a < 2 ^ 31 \<Longrightarrow> u64_of_s32 (int a) = a"
proof -
  assume "a < 2 ^ 31"
  then have "int a mod 2 ^ 64 = int a" by (intro mod_pos_pos_trivial) simp_all
  then show ?thesis by (simp add: u64_of_s32_def)
qed

lemma bottom_up_ends:
  assumes "mb_small st"
  shows "fwd_left st i < n \<Longrightarrow> \<exists>c. find_range_bottom_up_loop n st start end sz align flags i = Inr c"
proof (induction n arbitrary: i)
  case 0
  then show ?case by simp
next
  case (Suc n)
  obtain i' o' where nx: "next_mem_range i flags (memory st) (Some (reserved st)) = (i', o')"
    by (cases "next_mem_range i flags (memory st) (Some (reserved st))")
  show ?case
  proof (cases o')
    case None
    then show ?thesis using nx by simp
  next
    case (Some se)
    then obtain s e where o': "o' = Some (s, e)" by (cases se) simp
    obtain k j where kj: "u64_of_s32 (unpack_a i) \<le> k" "u64_of_s32 (unpack_b i) \<le> j"
      "hit flags (memory st) (reserved st) k j s e"
      "i' = pack_idx (int k + 1) (int j) \<or> i' = pack_idx (int k) (int j + 1)"
      using next_mem_range_from_hit nx o' by (metis next_mem_range_def)
    then have b: "k < cnt (memory st)" "j \<le> cnt (reserved st)" by (simp_all add: hit_def)
    have "fwd_left st i' < fwd_left st i"
      using kj(4)
    proof
      assume "i' = pack_idx (int k + 1) (int j)"
      then have "unpack_a i' = int (k + 1)" "unpack_b i' = int j"
        using b assms unpack_pack [of "int k + 1" "int j"] by (simp_all add: mb_small_def)
      then have "u64_of_s32 (unpack_a i') = k + 1" "u64_of_s32 (unpack_b i') = j"
        using b assms u64_of_s32_nat [of "k + 1"] u64_of_s32_nat [of j] by (simp_all add: mb_small_def)
      then show ?thesis using kj(1,2) b by (simp add: fwd_left_def)
    next
      assume "i' = pack_idx (int k) (int j + 1)"
      then have "unpack_a i' = int k" "unpack_b i' = int (j + 1)"
        using b assms unpack_pack [of "int k" "int j + 1"] by (simp_all add: mb_small_def)
      then have "u64_of_s32 (unpack_a i') = k" "u64_of_s32 (unpack_b i') = j + 1"
        using b assms u64_of_s32_nat [of k] u64_of_s32_nat [of "j + 1"] by (simp_all add: mb_small_def)
      then show ?thesis using kj(1,2) b by (simp add: fwd_left_def)
    qed
    then have "fwd_left st i' < n" using Suc.prems by simp
    then show ?thesis using Suc.IH [of i'] nx o' by (simp add: Let_def)
  qed
qed

definition rev_left :: "memblock \<Rightarrow> nat \<Rightarrow> nat" where
  "rev_left st i =
     (if i = U64_MAX then cnt (memory st) + cnt (reserved st) + 1
      else nat (unpack_a i + 1) + nat (unpack_b i + 1))"

lemma top_down_ends:
  assumes "mb_ok st"
  shows "rev_left st i < n \<Longrightarrow> rev_at st i \<Longrightarrow>
    \<exists>c. find_range_top_down_loop n st start end sz align flags i = Inr c"
proof (induction n arbitrary: i)
  case 0
  then show ?case by simp
next
  case (Suc n)
  obtain i' o' where nx: "next_mem_range_rev i flags (memory st) (Some (reserved st)) = (i', o')"
    by (cases "next_mem_range_rev i flags (memory st) (Some (reserved st))")
  show ?case
  proof (cases "i' = U64_MAX")
    case True
    then show ?thesis using nx by (cases o') auto
  next
    case ne: False
    show ?thesis
    proof (cases o')
      case None
      then show ?thesis using nx by simp
    next
      case (Some se)
      then obtain s e where o': "o' = Some (s, e)" by (cases se) simp
      obtain k j where kj: "rev_at st i'"
        "unpack_a i' = int k - 1 \<and> unpack_b i' = int j \<or> unpack_a i' = int k \<and> unpack_b i' = int j - 1"
        "if i = U64_MAX then k < cnt (memory st) \<and> j \<le> cnt (reserved st)
         else int k \<le> unpack_a i \<and> int j \<le> unpack_b i"
        using next_mem_range_rev_hit [OF assms Suc.prems(2)] nx o' by blast
      have "rev_left st i' < rev_left st i"
        using kj(2,3) ne by (cases "i = U64_MAX") (auto simp: rev_left_def nat_add_distrib)
      then have "rev_left st i' < n" using Suc.prems by simp
      then show ?thesis using Suc.IH [of i'] kj(1) nx o' by (simp add: Let_def)
    qed
  qed
qed

lemma area_ok_start: "area_ok st flags start' end sz align c \<Longrightarrow> start \<le> start' \<Longrightarrow> area_ok st flags start end sz align c"
  by (simp add: area_ok_def)

lemma find_in_range_flags_ends:
  assumes "mb_ok st" and "mb_small st"
  shows "\<exists>c. memblock_find_in_range_flags env st sz align start end flags = Inr c"
proof -
  have td: "\<exists>c. memblock_find_range_top_down st s e sz align flags = Inr c" for s e
    unfolding memblock_find_range_top_down_def
    by (rule top_down_ends [OF assms(1)]) (simp_all add: rev_left_def rev_at_def)
  have "fwd_left st 0 = cnt (memory st) + cnt (reserved st) + 1"
    by (simp add: fwd_left_def unpack_a_def unpack_b_def s32_def u64_of_s32_def)
  then have bu: "\<exists>c. memblock_find_range_bottom_up st s e sz align flags = Inr c" for s e
    unfolding memblock_find_range_bottom_up_def by (intro bottom_up_ends [OF assms(2)]) simp
  show ?thesis
    using td bu [of "max (max start PAGE_SIZE) (kernel_end env)"
      "max (max start PAGE_SIZE) (if end = MEMBLOCK_ALLOC_ACCESSIBLE then current_limit st else end)"]
    by (auto simp: memblock_find_in_range_flags_def Let_def)
qed

lemma find_in_range_flags_sound:
  assumes "mb_ok st" and "current_limit st \<le> U64_MAX" and "start \<le> U64_MAX" and "end \<le> U64_MAX"
    and "k < 64" and "memblock_find_in_range_flags env st sz (2 ^ k) start end flags = Inr c" and "c \<noteq> 0"
  shows "area_ok st flags (max start PAGE_SIZE)
    (max (max start PAGE_SIZE) (if end = MEMBLOCK_ALLOC_ACCESSIBLE then current_limit st else end))
    sz (2 ^ k) c"
proof -
  let ?s = "max start PAGE_SIZE"
  let ?e = "max ?s (if end = MEMBLOCK_ALLOC_ACCESSIBLE then current_limit st else end)"
  have U: "?e \<le> U64_MAX" using assms(2-4) by (simp add: PAGE_SIZE_def PAGE_SHIFT_def U64_MAX_def)
  have td: "area_ok st flags ?s ?e sz (2 ^ k) c"
    if "memblock_find_range_top_down st ?s ?e sz (2 ^ k) flags = Inr c"
    by (rule top_down_sound [OF assms(1) _ U assms(5) that [unfolded memblock_find_range_top_down_def] assms(7)])
      (simp_all add: rev_at_def)
  have bu: "area_ok st flags ?s ?e sz (2 ^ k) c"
    if "memblock_find_range_bottom_up st (max ?s (kernel_end env)) ?e sz (2 ^ k) flags = Inr c"
      "kernel_end env < ?e"
  proof -
    have "area_ok st flags (max ?s (kernel_end env)) ?e sz (2 ^ k) c"
      by (rule bottom_up_sound [OF assms(1) _ U assms(5)
            that(1) [unfolded memblock_find_range_bottom_up_def] assms(7)]) (use that(2) in simp)
    then show ?thesis by (rule area_ok_start) simp
  qed
  show ?thesis
  proof (cases "bottom_up st \<and> kernel_end env < ?e")
    case True
    then have "rbind (memblock_find_range_bottom_up st (max ?s (kernel_end env)) ?e sz (2 ^ k) flags)
        (\<lambda>ret. if ret \<noteq> 0 then Inr ret else memblock_find_range_top_down st ?s ?e sz (2 ^ k) flags) = Inr c"
      using assms(6) by (simp add: memblock_find_in_range_flags_def Let_def)
    then show ?thesis using td bu True by (auto simp: rbind_Inr_iff split: if_splits)
  next
    case False
    then have "memblock_find_range_top_down st ?s ?e sz (2 ^ k) flags = Inr c"
      using assms(6) by (auto simp: memblock_find_in_range_flags_def Let_def)
    then show ?thesis by (rule td)
  qed
qed

end
