(* ===== verification/Memblock_Growth.thy ===== *)
theory Memblock_Growth
  imports Memblock_Find
begin

text \<open>
  Adding, isolating and removing ranges on the global state.  The operations grow a full
  array through \<^verbatim>\<open>memblock_double_array\<close>, which itself reserves and frees memory; the
  locale \<open>doubler\<close> states what they rely on, and \<open>memblock_double_array\<close> is an instance
  of it at every recursion depth.
\<close>

section \<open>Map operations\<close>

definition fill :: "(phys_addr \<Rightarrow> nat option) \<Rightarrow> phys_addr \<Rightarrow> phys_addr \<Rightarrow> nat \<Rightarrow> phys_addr \<Rightarrow> nat option" where
  "fill m b e f = (\<lambda>a. case m a of Some g \<Rightarrow> Some g | None \<Rightarrow> if b \<le> a \<and> a < e then Some f else None)"

definition carve :: "(phys_addr \<Rightarrow> nat option) \<Rightarrow> phys_addr \<Rightarrow> phys_addr \<Rightarrow> phys_addr \<Rightarrow> nat option" where
  "carve m b e = (\<lambda>a. if b \<le> a \<and> a < e then None else m a)"

text \<open>The end of a range after \<^verbatim>\<open>memblock_cap_size\<close>.\<close>

definition cap_end :: "phys_addr \<Rightarrow> phys_addr \<Rightarrow> phys_addr" where
  "cap_end base sz = min (base + sz) U64_MAX"

lemma cap_size_eq:
  assumes "base \<le> U64_MAX"
  shows "memblock_cap_size base sz = cap_end base sz - base"
    and "add64 base (memblock_cap_size base sz) = cap_end base sz"
    and "base \<le> cap_end base sz" and "cap_end base sz \<le> U64_MAX"
    and "add64 base (cap_end base sz - base) = cap_end base sz"
proof -
  have "sub64 U64_MAX base = U64_MAX - base" using assms by (simp add: sub64_exact)
  then show c: "memblock_cap_size base sz = cap_end base sz - base"
    using assms by (simp add: memblock_cap_size_def cap_end_def)
  show b: "base \<le> cap_end base sz" "cap_end base sz \<le> U64_MAX" using assms by (simp_all add: cap_end_def)
  show "add64 base (memblock_cap_size base sz) = cap_end base sz"
    and "add64 base (cap_end base sz - base) = cap_end base sz"
    using b by (simp_all add: c add64_exact)
qed

lemma fill_empty: "e \<le> b \<Longrightarrow> fill m b e f = m"
  by (auto simp: fill_def fun_eq_iff split: option.split)

lemma carve_empty: "e \<le> b \<Longrightarrow> carve m b e = m"
  by (auto simp: carve_def fun_eq_iff)

section \<open>One array\<close>

lemma not_dummy:
  assumes "type_ok t"
  shows "rg_size (regions t ! 0) = 0 \<longleftrightarrow> live t = [empty_region]"
    and "live t = [empty_region] \<longleftrightarrow> tmap t = (\<lambda>a. None)"
proof -
  have c: "0 < cnt t" "length (live t) = cnt t" using assms by (simp_all add: type_ok_def)
  then have n: "regions t ! 0 = hd (live t)" by (simp add: live_nth hd_conv_nth flip: length_greater_0_conv)
  show "rg_size (regions t ! 0) = 0 \<longleftrightarrow> live t = [empty_region]"
    using assms
  proof (cases rule: type_ok_cases)
    case dummy
    then show ?thesis unfolding n by (simp add: empty_region_def)
  next
    case regions
    have "live t \<noteq> []" using c by auto
    then obtain r rs where l: "live t = r # rs" by (cases "live t") auto
    with regions have "0 < rg_size r" by (simp add: rg_valid_def)
    then show ?thesis unfolding n l by (auto simp: empty_region_def)
  qed
  show "live t = [empty_region] \<longleftrightarrow> tmap t = (\<lambda>a. None)"
    using assms
  proof (cases rule: type_ok_cases)
    case dummy
    then show ?thesis by simp
  next
    case regions
    have "live t \<noteq> []" using c by auto
    then obtain r rs where l: "live t = r # rs" by (cases "live t") auto
    with regions have v: "0 < rg_size r" by (simp add: rg_valid_def)
    then have "tmap t (rg_base r) \<noteq> None" using l by simp
    then have "tmap t \<noteq> (\<lambda>a. None)" by metis
    moreover have "live t \<noteq> [empty_region]" using v l by (auto simp: empty_region_def)
    ultimately show ?thesis by simp
  qed
qed

lemma live_rgs_ok:
  assumes "type_ok t" and "live t \<noteq> [empty_region]"
  shows "rgs_ok (live t)"
  using assms by (simp add: type_ok_def)

text \<open>The number of regions that a range adds, and when the array has room for them.\<close>

definition room_for :: "memblock_type \<Rightarrow> phys_addr \<Rightarrow> phys_addr \<Rightarrow> bool" where
  "room_for t b e \<longleftrightarrow> length (add_rs e 0 b (live t)) \<le> max_cnt t"

lemma length_add_rs_flags: "length (add_rs e f b rs) = length (add_rs e 0 b rs)"
  by (induction rs arbitrary: b) auto

lemma add_pass_count:
  assumes "type_ok t" and "live t \<noteq> [empty_region]"
  shows "memblock_add_pass False t b e f = Inr (length (add_rs e f b (live t)) - cnt t, t)"
  using add_loop_count [of t "[]" "live t" 0 e f b 0] live_rgs_ok [OF assms] assms(1)
  by (simp add: add_pass_eq type_ok_arr)

lemma add_pass_insert:
  assumes "type_ok t" and "live t \<noteq> [empty_region]" and "e \<le> U64_MAX"
    and "memblock_add_pass True t b e f = Inr (n, t')"
  shows "n = length (add_rs e f b (live t)) - cnt t \<and> arr_ok t' \<and> tot_ok t' \<and> same_frame t t' \<and>
    live t' = add_rs e f b (live t) \<and> room_for t b e"
proof -
  have ok: "arr_ok t" "tot_ok t" "rgs_ok (live t)"
    using assms(1) live_rgs_ok [OF assms(1,2)] by (simp_all add: type_ok_def)
  have room: "length (add_rs e f b (live t)) \<le> max_cnt t"
  proof (rule ccontr)
    assume "\<not> length (add_rs e f b (live t)) \<le> max_cnt t"
    then have "memblock_add_pass True t b e f = Inl Bug"
      using add_loop_no_room [of t "[]" "live t" 0 e f b 0] ok by (simp add: add_pass_eq)
    with assms(4) show False by simp
  qed
  then show ?thesis
    using add_loop_insert [of t "[]" "live t" 0 e f b 0] ok assms(3,4)
    by (auto simp: add_pass_eq room_for_def length_add_rs_flags [of e f])
qed

lemma add_pass_room:
  assumes "type_ok t" and "live t \<noteq> [empty_region]" and "e \<le> U64_MAX" and "room_for t b e"
  shows "\<exists>n t'. memblock_add_pass True t b e f = Inr (n, t')"
  using add_loop_insert [of t "[]" "live t" 0 e f b 0] live_rgs_ok [OF assms(1,2)] assms
  by (auto simp: add_pass_eq type_ok_def room_for_def length_add_rs_flags [of e f])

text \<open>Inserting the missing regions and merging: the second half of \<^verbatim>\<open>memblock_add_range\<close>.\<close>

definition add_tail :: "memblock_type \<Rightarrow> phys_addr \<Rightarrow> phys_addr \<Rightarrow> nat \<Rightarrow> memblock_type res" where
  "add_tail t b e f =
     rbind (memblock_add_pass True t b e f)
       (\<lambda>(n, t1). if n = 0 then Inr t1 else memblock_merge_regions t1)"

lemma add_tail_eq:
  "rbind (memblock_add_pass True t b e f)
     (\<lambda>(n, t1). if n = 0 then Inr (0, g t1) else rbind (memblock_merge_regions t1) (\<lambda>t2. Inr (0, g t2))) =
   rbind (add_tail t b e f) (\<lambda>t2. Inr (0, g t2))"
  by (cases "memblock_add_pass True t b e f") (auto simp: add_tail_def split: prod.split)

lemma add_tail_ok:
  assumes "type_ok t" and "live t \<noteq> [empty_region]" and "e \<le> U64_MAX" and "add_tail t b e f = Inr t'"
  shows "type_ok t' \<and> same_frame t t' \<and> tmap t' = fill (tmap t) b e f \<and>
    (rgs_minimal (live t) \<longrightarrow> rgs_minimal (live t')) \<and> cnt t' \<le> length (add_rs e f b (live t))"
proof -
  obtain n t1 where p: "memblock_add_pass True t b e f = Inr (n, t1)"
    and r: "(if n = 0 then Inr t1 else memblock_merge_regions t1) = Inr t'"
    using assms(4) by (auto simp: add_tail_def rbind_Inr_iff)
  note a = add_pass_insert [OF assms(1-3) p]
  have ok: "rgs_ok (live t)" by (rule live_rgs_ok [OF assms(1,2)])
  have ok1: "rgs_ok (live t1)" using a add_rs_ok [OF ok assms(3)] by simp
  have m1: "tmap t1 = fill (tmap t) b e f"
    using a add_rs_amap [OF ok] by (simp add: fill_def fun_eq_iff)
  have len: "cnt t \<le> cnt t1" "0 < cnt t"
    using a add_rs_length [of "live t" e f b] assms(1) length_live [of t1] by (simp_all add: type_ok_def)
  show ?thesis
  proof (cases "n = 0")
    case True
    then have "length (add_rs e f b (live t)) = length (live t)"
      using a add_rs_length [of "live t" e f b] length_live [of t] assms(1) by (simp only: type_ok_arr)
    from add_rs_none [OF this] a have "live t1 = live t" by metis
    moreover have "t' = t1" using True r by simp
    moreover have "cnt t1 = length (add_rs e f b (live t))" using a length_live [of t1] by simp
    ultimately show ?thesis using a ok1 m1 len by (simp only: type_ok_def) auto
  next
    case False
    with r have "memblock_merge_regions t1 = Inr t'" by simp
    then have t': "arr_ok t'" "same_frame t1 t'" "total_size t' = total_size t1" "live t' = merge_rs (live t1)"
      using merge_regions_live [of t1] a ok1 len by auto
    have "live t' \<noteq> []" using t'(4) merge_rs_length [of "live t1"] len a length_live [of t1] by auto
    then have "0 < cnt t'" using length_live [OF t'(1)] by (metis length_greater_0_conv)
    moreover have "tot_ok t'" using a t' by (simp add: tot_ok_def merge_rs_sum)
    moreover have "cnt t' \<le> length (add_rs e f b (live t))"
      using length_live [OF t'(1)] t'(4) merge_rs_length [of "live t1"] a by simp
    ultimately show ?thesis
      using t' a m1 merge_rs_ok [OF ok1] merge_rs_amap [OF ok1] merge_rs_minimal [of "live t1"]
        same_frame_trans [of t t1 t']
      by (simp add: type_ok_def)
  qed
qed

lemma add_tail_room:
  assumes "type_ok t" and "live t \<noteq> [empty_region]" and "e \<le> U64_MAX" and "room_for t b e"
  shows "\<exists>t'. add_tail t b e f = Inr t'"
proof -
  obtain n t1 where p: "memblock_add_pass True t b e f = Inr (n, t1)"
    using add_pass_room [OF assms] by blast
  note a = add_pass_insert [OF assms(1-3) p]
  have "rgs_ok (live t1)" using a add_rs_ok [OF live_rgs_ok [OF assms(1,2)] assms(3)] by simp
  moreover have "0 < cnt t1"
    using a add_rs_length [of "live t" e f b] assms(1) length_live [of t1] by (simp add: type_ok_def)
  ultimately show ?thesis
    using merge_regions_live [of t1] a p by (auto simp: add_tail_def)
qed

lemma set_first_ok:
  assumes "type_ok t" and "live t = [empty_region]" and "base < e" and "e \<le> U64_MAX"
    and "t' = t\<lparr>regions := (regions t)[0 := \<lparr>rg_base = base, rg_size = e - base, rg_flags = f\<rparr>],
               total_size := e - base\<rparr>"
  shows "type_ok t' \<and> same_frame t t' \<and> tmap t' = fill (tmap t) base e f \<and> rgs_minimal (live t')"
proof -
  have c: "cnt t = 1" using assms(1,2) length_live [of t] by (simp add: type_ok_def)
  have "live t' = (live t)[0 := \<lparr>rg_base = base, rg_size = e - base, rg_flags = f\<rparr>]"
    using assms(5) live_update [of t 0] by (simp add: live_def)
  then have l: "live t' = [\<lparr>rg_base = base, rg_size = e - base, rg_flags = f\<rparr>]"
    using assms(2) by simp
  have "rgs_ok (live t')" using assms(3,4) l by (simp add: rg_valid_def)
  moreover have "tot_ok t'" using assms(3-5) l by (simp add: tot_ok_def U64_MAX_def)
  moreover have "arr_ok t'" using assms(1,5) by (simp add: type_ok_def arr_ok_def)
  moreover have "same_frame t t'" using assms(5) by (simp add: same_frame_def)
  moreover have "tmap t' = fill (tmap t) base e f"
    using assms(3) l by (simp add: assms(2) fill_def fun_eq_iff)
  moreover have "0 < cnt t'" using assms(5) c by simp
  ultimately show ?thesis using l by (simp add: type_ok_def)
qed

text \<open>The splitting loop with two free slots, on the dummy array too.\<close>

lemma isolate_loop_ok:
  assumes "type_ok t" and "b < e" and "cnt t + 2 \<le> max_cnt t"
  shows "\<exists>s n t' L M H. memblock_isolate_loop (4 * cnt t + 1) b e 0 0 0 t = Inr (s, n, t') \<and>
    type_ok t' \<and> same_frame t t' \<and> tmap t' = tmap t \<and> isolated b e (live t') s n L M H \<and>
    (live t' = [empty_region] \<longrightarrow> M = []) \<and> cnt t' \<le> cnt t + 2"
  using assms(1)
proof (cases rule: type_ok_cases)
  case dummy
  have "regions t ! 0 = live t ! 0" using dummy(2) by (intro live_nth) simp
  then have r0: "regions t ! 0 = empty_region" using dummy(1) by simp
  have "memblock_isolate_loop (Suc (Suc k)) b e 0 0 0 t = Inr (0, 0, t)" for k
    using r0 dummy(2) assms(2) by (simp add: Let_def empty_region_def rg_end_def add64_def)
  then have "memblock_isolate_loop (Suc (Suc 3)) b e 0 0 0 t = Inr (0, 0, t)" .
  moreover have "4 * cnt t + 1 = Suc (Suc 3)" using dummy(2) by simp
  ultimately have l: "memblock_isolate_loop (4 * cnt t + 1) b e 0 0 0 t = Inr (0, 0, t)" by metis
  moreover have "isolated b e (live t) 0 0 [empty_region] [] []"
    using dummy by (simp add: isolated_def empty_region_def)
  ultimately show ?thesis using assms(1) same_frame_refl [of t] le_add1 [of "cnt t" 2] by blast
next
  case regions
  have ok: "arr_ok t" "tot_ok t" using assms(1) by (simp_all add: type_ok_def)
  obtain s n t' L M H where x: "memblock_isolate_loop (4 * cnt t + 1) b e 0 0 0 t = Inr (s, n, t')"
    "arr_ok t'" "tot_ok t'" "same_frame t t'" "rgs_ok (live t')" "amap (live t') = amap (live t)"
    "isolated b e (live t') s n L M H" "cnt t' \<le> cnt t + 2"
    using isolate_live [OF ok regions assms(2,3), of "4 * cnt t + 1"] by auto
  have "live t' \<noteq> []"
  proof
    assume "live t' = []"
    with x(6) have "tmap t = (\<lambda>a. None)" by (simp add: fun_eq_iff)
    then have "live t = [empty_region]" using not_dummy(2) [OF assms(1)] by simp
    with regions show False by (simp add: empty_region_def rg_valid_def)
  qed
  then have "0 < cnt t'" using length_live [OF x(2)] by (metis length_greater_0_conv)
  then have "type_ok t'" using x by (simp add: type_ok_def)
  moreover have "live t' \<noteq> [empty_region]" using x(5) by (auto simp: empty_region_def rg_valid_def)
  ultimately show ?thesis using x by blast
qed

lemma isolated_amap:
  assumes "isolated b e rs s n L M H" and "rgs_ok rs"
  shows "amap (L @ H) = carve (amap rs) b e"
    and "b \<le> a \<Longrightarrow> a < e \<Longrightarrow> amap rs a = amap M a"
    and "\<not> (b \<le> a \<and> a < e) \<Longrightarrow> amap M a = None"
proof -
  have i: "rs = L @ M @ H" "\<forall>r \<in> set L. rg_base r + rg_size r \<le> b"
    "\<forall>r \<in> set M. b \<le> rg_base r \<and> rg_base r + rg_size r \<le> e" "\<forall>r \<in> set H. e \<le> rg_base r"
    using assms(1) by (simp_all add: isolated_def)
  have L: "amap L a = None" if "b \<le> a" for a using that i(2) by (fastforce simp: amap_None_iff)
  have H: "amap H a = None" if "a < e" for a using that i(4) by (fastforce simp: amap_None_iff)
  have M: "amap M a = None" if "\<not> (b \<le> a \<and> a < e)" for a
    unfolding amap_None_iff using that i(3) by (meson order_less_le_trans order_trans)
  then show "\<not> (b \<le> a \<and> a < e) \<Longrightarrow> amap M a = None" by blast
  show "b \<le> a \<Longrightarrow> a < e \<Longrightarrow> amap rs a = amap M a"
    by (simp add: i(1) amap_append L H split: option.split)
  show "amap (L @ H) = carve (amap rs) b e"
    unfolding fun_eq_iff carve_def
    by (auto simp: i(1) amap_append L H M split: option.split)
qed

text \<open>Removing what was isolated.\<close>

lemma remove_isolated_ok:
  assumes "type_ok t" and "isolated b e (live t) s n L M H" and "live t = [empty_region] \<longrightarrow> M = []"
  shows "type_ok (memblock_remove_regions t s n) \<and> same_frame t (memblock_remove_regions t s n) \<and>
    tmap (memblock_remove_regions t s n) = carve (tmap t) b e \<and> cnt (memblock_remove_regions t s n) \<le> cnt t"
proof (cases "M = []")
  case True
  then have "s = 0" "n = 0" using assms(2) by (simp_all add: isolated_def)
  moreover have "carve (tmap t) b e = tmap t"
    using assms(1)
  proof (cases rule: type_ok_cases)
    case dummy
    then show ?thesis by (auto simp: carve_def fun_eq_iff)
  next
    case regions
    have "L @ H = live t" using assms(2) True by (simp add: isolated_def)
    then show ?thesis using isolated_amap(1) [OF assms(2) regions] by simp
  qed
  ultimately show ?thesis using assms(1) by simp
next
  case False
  then have i: "live t = L @ M @ H" "s = length L" "n = length L + length M"
    using assms(2) by (simp_all add: isolated_def)
  have regions: "rgs_ok (live t)" using live_rgs_ok [OF assms(1)] assms(3) False by blast
  let ?t = "memblock_remove_regions t s n"
  have ok: "rgs_ok L" "rgs_ok H" "rgs_ok M" "rgs_ok (L @ H)" using regions i(1) by auto
  have t: "arr_ok ?t" "tot_ok ?t" "same_frame t ?t" "live ?t = or_empty (L @ H)"
    using remove_regions_live [of t L M H] assms(1) i False ok(3) by (simp_all add: type_ok_def Let_def)
  have "0 < cnt ?t"
    using length_live [OF t(1)] t(4) by (metis or_empty_def length_greater_0_conv list.distinct(1))
  moreover have "live ?t = [empty_region] \<or> rgs_ok (live ?t)" using t(4) ok(4) by (simp add: or_empty_def)
  moreover have "cnt ?t \<le> cnt t"
    using length_live [OF t(1)] length_live [of t] t(4) i(1) assms(1) by (simp add: type_ok_def or_empty_def split: if_splits)
  ultimately show ?thesis
    using t isolated_amap(1) [OF assms(2) regions] by (simp add: type_ok_def)
qed

section \<open>What the operations rely on when an array is full\<close>

text \<open>
  Bounds that keep the size of an array from wrapping: memory ends below \<open>2 ^ 56\<close> (an
  arm64 physical address has at most 52 bits) and the arrays have at most \<open>2 ^ 52\<close> entries.
\<close>

definition type_fits :: "memblock_type \<Rightarrow> bool" where
  "type_fits t \<longleftrightarrow> max_cnt t \<le> 2 ^ 52 \<and> (\<forall>a. regions_at t = Some a \<longrightarrow> a \<le> U64_MAX)"

definition mb_fits :: "memblock \<Rightarrow> bool" where
  "mb_fits st \<longleftrightarrow> type_fits (memory st) \<and> type_fits (reserved st) \<and>
     (\<forall>a. mem_map st a \<noteq> None \<longrightarrow> a < 2 ^ 56) \<and> current_limit st \<le> U64_MAX"

definition same_settings :: "memblock \<Rightarrow> memblock \<Rightarrow> bool" where
  "same_settings st st' \<longleftrightarrow>
     bottom_up st' = bottom_up st \<and> current_limit st' = current_limit st \<and> can_resize st' = can_resize st"

lemma same_settings_refl [simp]: "same_settings st st"
  by (simp add: same_settings_def)

lemma same_settings_trans: "same_settings st st' \<Longrightarrow> same_settings st' st'' \<Longrightarrow> same_settings st st''"
  by (simp add: same_settings_def)

lemma type_fits_frame: "same_frame t t' \<Longrightarrow> type_fits t \<Longrightarrow> type_fits t'"
  by (simp add: type_fits_def same_frame_def)

lemma get_put [simp]: "get_type w (put_type w t st) = t"
  by (cases w) simp_all

lemma put_other [simp]:
  "memory (put_type RESERVED t st) = memory st" "reserved (put_type MEMORY t st) = reserved st"
  "memory (put_type MEMORY t st) = t" "reserved (put_type RESERVED t st) = t"
  by simp_all

lemma put_settings [simp]:
  "same_settings st (put_type w t st)" "current_limit (put_type w t st) = current_limit st"
  "get_in_slab w' (put_type w t st) = get_in_slab w' st"
  by (cases w; cases w'; simp add: same_settings_def)+

lemma mb_ok_get: "mb_ok st \<Longrightarrow> type_ok (get_type w st)"
  by (cases w) (simp_all add: mb_ok_def)

lemma mb_ok_put: "mb_ok st \<Longrightarrow> type_ok t \<Longrightarrow> mb_ok (put_type w t st)"
  by (cases w) (simp_all add: mb_ok_def)

lemma mb_fits_put:
  assumes "mb_fits st" and "type_fits t" and "w = MEMORY \<longrightarrow> (\<forall>a. tmap t a \<noteq> None \<longrightarrow> a < 2 ^ 56)"
  shows "mb_fits (put_type w t st)"
  using assms by (cases w) (simp_all add: mb_fits_def)

lemma mb_fits_get: "mb_fits st \<Longrightarrow> type_fits (get_type w st)"
  by (cases w) (simp_all add: mb_fits_def)

text \<open>
  The contract: doubling keeps the invariant, the bounds and the memory map, and an array
  that had a region still has one.
\<close>

locale doubler =
  fixes dbl :: double_fun
  assumes dbl_ok: "mb_ok st \<Longrightarrow> mb_fits st \<Longrightarrow> dbl st w b s = Inr (r, st') \<Longrightarrow>
      mb_ok st' \<and> mb_fits st' \<and> mem_map st' = mem_map st \<and> same_settings st st' \<and>
      (tmap (get_type w st) \<noteq> (\<lambda>a. None) \<longrightarrow> tmap (get_type w st') \<noteq> (\<lambda>a. None))"
begin

lemma grow_ok:
  "mb_ok st \<Longrightarrow> mb_fits st \<Longrightarrow> grow_with k dbl st w nr b s = Inr (r, st') \<Longrightarrow>
   mb_ok st' \<and> mb_fits st' \<and> mem_map st' = mem_map st \<and> same_settings st st' \<and>
   (tmap (get_type w st) \<noteq> (\<lambda>a. None) \<longrightarrow> tmap (get_type w st') \<noteq> (\<lambda>a. None)) \<and>
   (r = 0 \<and> cnt (get_type w st') + nr \<le> max_cnt (get_type w st') \<or> r = - ENOMEM)"
proof (induction k arbitrary: st)
  case 0
  then show ?case by simp
next
  case (Suc k)
  show ?case
  proof (cases "cnt (get_type w st) + nr > max_cnt (get_type w st)")
    case True
    then obtain r1 st1 where d: "dbl st w b s = Inr (r1, st1)"
      and k: "(if r1 < 0 then Inr (- ENOMEM, st1) else grow_with k dbl st1 w nr b s) = Inr (r, st')"
      using Suc.prems(3) by (auto simp: rbind_Inr_iff)
    note ok = dbl_ok [OF Suc.prems(1,2) d]
    show ?thesis
    proof (cases "r1 < 0")
      case True
      then show ?thesis using k ok by auto
    next
      case False
      then have "grow_with k dbl st1 w nr b s = Inr (r, st')" using k by simp
      from Suc.IH [OF _ _ this] ok show ?thesis using same_settings_trans [of st st1] by auto
    qed
  next
    case False
    then show ?thesis using Suc.prems by auto
  qed
qed

lemma add_range_ok:
  assumes "mb_ok st" and "mb_fits st" and "base \<le> U64_MAX" and "w = MEMORY \<longrightarrow> cap_end base sz \<le> 2 ^ 56"
    and "add_range_with n dbl st w base sz f = Inr (r, st')"
  shows "mb_ok st' \<and> mb_fits st' \<and> same_settings st st' \<and> (r = 0 \<or> r = - ENOMEM) \<and>
    (r = 0 \<longrightarrow> (\<forall>a. base \<le> a \<and> a < cap_end base sz \<longrightarrow> tmap (get_type w st') a \<noteq> None)) \<and>
    mem_map st' = (if w = MEMORY \<and> r = 0 then fill (mem_map st) base (cap_end base sz) f else mem_map st)"
proof -
  let ?e = "cap_end base sz" and ?t = "get_type w st"
  note c = cap_size_eq [OF assms(3), of sz]
  have t: "type_ok ?t" "type_fits ?t" using assms(1,2) by (simp_all add: mb_ok_get mb_fits_get)
  have fin: ?thesis
    if "mb_ok st1" "mb_fits st1" "same_settings st st1" "mem_map st1 = mem_map st" "r = 0"
      and t': "type_ok t'" "same_frame (get_type w st1) t'" "tmap t' = fill (tmap (get_type w st1)) base ?e f"
      and "st' = put_type w t' st1" for st1 t'
  proof -
    have b: "w = MEMORY \<longrightarrow> (\<forall>a. tmap t' a \<noteq> None \<longrightarrow> a < 2 ^ 56)"
      using that(2) t'(3) assms(4) by (auto simp: mb_fits_def fill_def split: option.splits if_splits)
    have "mb_fits st'"
      using that(2) t'(2) b unfolding that(9)
      by (intro mb_fits_put) (auto intro: type_fits_frame mb_fits_get)
    moreover have "tmap t' a \<noteq> None" if "base \<le> a" "a < ?e" for a
      using that t'(3) by (simp add: fill_def split: option.split)
    moreover have "mem_map st' = (if w = MEMORY then fill (mem_map st) base ?e f else mem_map st)"
      using that t'(3) by (cases w) simp_all
    ultimately show ?thesis
      using that same_settings_trans [of st st1] by (simp add: mb_ok_put)
  qed
  consider (zero) "?e \<le> base" | (first) "base < ?e" "live ?t = [empty_region]"
    | (some) "base < ?e" "live ?t \<noteq> [empty_region]" by linarith
  then show ?thesis
  proof cases
    case zero
    then have "r = 0" "st' = st" using assms(5) c by (simp_all add: add_range_with_def Let_def)
    then show ?thesis using assms(1,2) zero by (auto simp: fill_empty)
  next
    case first
    let ?t' = "?t\<lparr>regions := (regions ?t)[0 := \<lparr>rg_base = base, rg_size = ?e - base, rg_flags = f\<rparr>],
                  total_size := ?e - base\<rparr>"
    have r: "r = 0" "st' = put_type w ?t' st"
      using assms(5) first c not_dummy(1) [OF t(1)] by (simp_all add: add_range_with_def Let_def)
    show ?thesis
      using set_first_ok [OF t(1) first(2,1) c(4) refl, of f] assms(1,2) r
      by (intro fin [of st ?t']) simp_all
  next
    case some
    have ne: "rg_size (regions ?t ! 0) \<noteq> 0" using not_dummy(1) [OF t(1)] some(2) by simp
    define nr where "nr = length (add_rs ?e f base (live ?t)) - cnt ?t"
    have p: "memblock_add_pass False ?t base ?e f = Inr (nr, ?t)"
      using add_pass_count [OF t(1) some(2)] by (simp add: nr_def)
    show ?thesis
    proof (cases "nr = 0")
      case True
      then have "r = 0" "st' = st"
        using assms(5) some(1) c ne p by (simp_all add: add_range_with_def Let_def)
      moreover have "fill (tmap ?t) base ?e f = tmap ?t"
      proof -
        have ok: "rgs_ok (live ?t)" by (rule live_rgs_ok [OF t(1) some(2)])
        have "length (add_rs ?e f base (live ?t)) = length (live ?t)"
          using True add_rs_length [of "live ?t" ?e f base] length_live [of ?t] t(1)
          by (simp add: nr_def type_ok_arr)
        from add_rs_none [OF this] show ?thesis
          using add_rs_amap [OF ok, of ?e f base] by (simp add: fill_def fun_eq_iff)
      qed
      ultimately show ?thesis using assms(1,2) t by (intro fin [of st ?t]) (cases w; simp)+
    next
      case False
      then obtain r1 st1 where g: "grow_with n dbl st w nr base (?e - base) = Inr (r1, st1)"
        and rest: "(if r1 < 0 then Inr (- ENOMEM, st1)
            else rbind (memblock_add_pass True (get_type w st1) base ?e f)
              (\<lambda>(nr_new', t1). if nr_new' = 0 then Inr (0, put_type w t1 st1)
                 else rbind (memblock_merge_regions t1) (\<lambda>t2. Inr (0, put_type w t2 st1)))) = Inr (r, st')"
        using assms(5) some(1) c ne p
        by (auto simp: add_range_with_def Let_def rbind_Inr_iff cong: if_cong)
      note ok = grow_ok [OF assms(1,2) g]
      show ?thesis
      proof (cases "r1 < 0")
        case True
        then show ?thesis using ok rest by (simp add: ENOMEM_def)
      next
        case False
        then obtain t2 where t2: "add_tail (get_type w st1) base ?e f = Inr t2" "r = 0" "st' = put_type w t2 st1"
          using rest by (auto simp: add_tail_eq rbind_Inr_iff)
        have "type_ok (get_type w st1)" using ok by (simp add: mb_ok_get)
        moreover from this have "live (get_type w st1) \<noteq> [empty_region]"
          using ok some(2) not_dummy(2) [OF t(1)] not_dummy(2) by metis
        ultimately show ?thesis
          using add_tail_ok [OF _ _ c(4) t2(1)] ok t2 by (intro fin [of st1 t2]) auto
      qed
    qed
  qed
qed

lemma isolate_range_ok:
  assumes "mb_ok st" and "mb_fits st" and "base \<le> U64_MAX"
    and "isolate_range_with n dbl st w base sz = Inr (r, i, j, st')"
  shows "mb_ok st' \<and> mb_fits st' \<and> same_settings st st' \<and> (r = 0 \<or> r = - ENOMEM) \<and>
    mem_map st' = mem_map st \<and>
    (r = 0 \<longrightarrow>
       cap_end base sz \<le> base \<and> i = 0 \<and> j = 0 \<and> st' = st \<or>
       base < cap_end base sz \<and>
       (\<exists>L M H. isolated base (cap_end base sz) (live (get_type w st')) i j L M H \<and>
          (live (get_type w st') = [empty_region] \<longrightarrow> M = [])))"
proof -
  let ?e = "cap_end base sz"
  note c = cap_size_eq [OF assms(3), of sz]
  show ?thesis
  proof (cases "?e \<le> base")
    case True
    then show ?thesis using assms by (simp add: isolate_range_with_def Let_def c)
  next
    case False
    then obtain r1 st1 where g: "grow_with n dbl st w 2 base (?e - base) = Inr (r1, st1)"
      and rest: "(if r1 < 0 then Inr (- ENOMEM, 0, 0, st1)
          else rbind (memblock_isolate_loop (4 * cnt (get_type w st1) + 1) base ?e 0 0 0 (get_type w st1))
            (\<lambda>(s, e, t'). Inr (0, s, e, put_type w t' st1))) = Inr (r, i, j, st')"
      using assms(4) c by (auto simp: isolate_range_with_def Let_def rbind_Inr_iff cong: if_cong)
    note ok = grow_ok [OF assms(1,2) g]
    show ?thesis
    proof (cases "r1 < 0")
      case True
      then show ?thesis using ok rest by (simp add: ENOMEM_def)
    next
      case r1: False
      let ?t = "get_type w st1"
      have "type_ok ?t" "base < ?e" "cnt ?t + 2 \<le> max_cnt ?t"
        using ok r1 False by (auto simp: mb_ok_get ENOMEM_def)
      from isolate_loop_ok [OF this] obtain s n' t' L M H where
        l: "memblock_isolate_loop (4 * cnt ?t + 1) base ?e 0 0 0 ?t = Inr (s, n', t')"
        "type_ok t'" "same_frame ?t t'" "tmap t' = tmap ?t" "isolated base ?e (live t') s n' L M H"
        "live t' = [empty_region] \<longrightarrow> M = []" by blast
      then have st': "r = 0" "i = s" "j = n'" "st' = put_type w t' st1" using rest r1 by simp_all
      have b: "w = MEMORY \<longrightarrow> (\<forall>a. tmap t' a \<noteq> None \<longrightarrow> a < 2 ^ 56)"
        using ok l(4) by (auto simp: mb_fits_def)
      have "mb_fits st'"
        using ok l(3) b unfolding st'(4) by (intro mb_fits_put) (auto intro: type_fits_frame mb_fits_get)
      moreover have "mem_map st' = mem_map st" using ok l(4) st'(4) by (cases w) simp_all
      ultimately show ?thesis
        using ok l False st' same_settings_trans [of st st1] by (auto simp: mb_ok_put)
    qed
  qed
qed

lemma remove_range_ok:
  assumes "mb_ok st" and "mb_fits st" and "base \<le> U64_MAX"
    and "remove_range_with n dbl st w base sz = Inr (r, st')"
  shows "mb_ok st' \<and> mb_fits st' \<and> same_settings st st' \<and> (r = 0 \<or> r = - ENOMEM) \<and>
    (r = 0 \<longrightarrow> (\<forall>a. base \<le> a \<and> a < cap_end base sz \<longrightarrow> tmap (get_type w st') a = None)) \<and>
    mem_map st' = (if w = MEMORY \<and> r = 0 then carve (mem_map st) base (cap_end base sz) else mem_map st)"
proof -
  let ?e = "cap_end base sz"
  obtain r1 i j st1 where iso: "isolate_range_with n dbl st w base sz = Inr (r1, i, j, st1)"
    and rest: "(if r1 \<noteq> 0 then Inr (r1, st1)
        else Inr (0, put_type w (memblock_remove_regions (get_type w st1) i j) st1)) =
          (Inr (r, st') :: (int \<times> memblock) res)"
  proof (rule rbind_InrE [OF assms(4) [unfolded remove_range_with_def]])
    fix x assume x: "isolate_range_with n dbl st w base sz = Inr x"
      "(case x of (ret, s, e, st1) \<Rightarrow> if ret \<noteq> 0 then Inr (ret, st1)
          else Inr (0, put_type w (memblock_remove_regions (get_type w st1) s e) st1)) =
          (Inr (r, st') :: (int \<times> memblock) res)"
    obtain r1 i j st1 where p: "x = (r1, i, j, st1)" by (cases x)
    show thesis by (rule that [OF x [unfolded p prod.case]])
  qed
  note ok = isolate_range_ok [OF assms(1-3) iso]
  show ?thesis
  proof (cases "r1 = 0")
    case False
    then show ?thesis using ok rest by auto
  next
    case True
    let ?t = "memblock_remove_regions (get_type w st1) i j"
    have st': "r = 0" "st' = put_type w ?t st1" using rest True by simp_all
    consider (zero) "?e \<le> base" "i = 0" "j = 0" "st1 = st"
      | (cut) L M H where "base < ?e" "isolated base ?e (live (get_type w st1)) i j L M H"
          "live (get_type w st1) = [empty_region] \<longrightarrow> M = []"
      using ok True by blast
    then have t: "type_ok ?t \<and> same_frame (get_type w st1) ?t \<and> tmap ?t = carve (tmap (get_type w st1)) base ?e"
    proof cases
      case zero
      then show ?thesis using assms(1) by (simp add: mb_ok_get carve_empty)
    next
      case cut
      then show ?thesis using remove_isolated_ok [OF _ cut(2,3)] ok by (simp add: mb_ok_get)
    qed
    have b: "w = MEMORY \<longrightarrow> (\<forall>a. tmap ?t a \<noteq> None \<longrightarrow> a < 2 ^ 56)"
      using ok t by (auto simp: mb_fits_def carve_def split: if_splits)
    have "mb_fits st'"
      using ok t b unfolding st'(2) by (intro mb_fits_put) (auto intro: type_fits_frame mb_fits_get)
    moreover have "mem_map st' = (if w = MEMORY then carve (mem_map st) base ?e else mem_map st)"
      using ok t st'(2) by (cases w) simp_all
    ultimately show ?thesis
      using ok t st' same_settings_trans [of st st1] by (auto simp: mb_ok_put carve_def)
  qed
qed

end

section \<open>\<^verbatim>\<open>memblock_double_array\<close> keeps the contract\<close>

lemma PAGE_ALIGN_ge: "x \<le> 2 ^ 60 \<Longrightarrow> x \<le> PAGE_ALIGN x"
proof -
  assume x: "x \<le> 2 ^ 60"
  have p: "PAGE_SIZE - 1 = sub64 (2 ^ 12) 1" by (simp add: PAGE_SIZE_def PAGE_SHIFT_def sub64_def)
  have a: "add64 x (PAGE_SIZE - 1) = x + 4095"
    using x by (simp add: add64_def PAGE_SIZE_def PAGE_SHIFT_def)
  have "PAGE_ALIGN x = round_down64 (x + 4095) (2 ^ 12)"
    unfolding PAGE_ALIGN_def round_down64_def a unfolding p ..
  also have "\<dots> = (x + 4095) div 2 ^ 12 * 2 ^ 12"
    using x by (intro round_down64_pow2) (simp_all add: U64_MAX_def)
  finally show ?thesis by simp
qed

lemma doubled_ok:
  assumes "type_ok t"
  shows "type_ok (doubled t addr)" and "tmap (doubled t addr) = tmap t"
proof -
  have l: "live (doubled t addr) = live t"
    using assms by (simp add: live_def doubled_def type_ok_def arr_ok_def)
  then show "tmap (doubled t addr) = tmap t" by simp
  show "type_ok (doubled t addr)"
    using assms l by (simp add: type_ok_def doubled_def arr_ok_def tot_ok_def)
qed

lemma put_in_slab_keeps [simp]:
  "mb_ok (put_in_slab w b st) = mb_ok st" "mb_fits (put_in_slab w b st) = mb_fits st"
  "memory (put_in_slab w b st) = memory st" "get_type w' (put_in_slab w b st) = get_type w' st"
  "same_settings st0 (put_in_slab w b st) = same_settings st0 st"
  by (cases w; cases w'; simp add: mb_ok_def mb_fits_def same_settings_def)+

lemma mem_range_bound:
  assumes "mb_fits st" and "free_range st flags c (c + sz)" and "0 < sz"
  shows "c + sz \<le> 2 ^ 56"
proof -
  have "c \<le> c + sz - 1 \<and> c + sz - 1 < c + sz" using assms(3) by linarith
  then have "mem_map st (c + sz - 1) \<noteq> None" using assms(2) unfolding free_range_def by blast
  then have "c + sz - 1 < 2 ^ 56" using assms(1) unfolding mb_fits_def by blast
  then show ?thesis using assms(3) by linarith
qed

lemma double_array_addr_ok:
  assumes "mb_ok st" and "mb_fits st" and "\<not> slab_is_available env"
    and "double_array_addr env st w nas nasz size1 sz = Inr addr" and "addr \<noteq> 0"
  shows "free_range st MEMBLOCK_NONE addr (addr + sz)"
proof -
  have lim: "current_limit st \<le> U64_MAX" using assms(2) by (simp add: mb_fits_def)
  have page: "PAGE_SIZE = 2 ^ 12" by (simp add: PAGE_SIZE_def PAGE_SHIFT_def)
  have found: "free_range st MEMBLOCK_NONE addr (addr + sz)"
    if "memblock_find_in_range env st s e sz PAGE_SIZE = Inr addr" "s \<le> U64_MAX" "e \<le> U64_MAX" for s e
  proof -
    have "memblock_find_in_range_flags env st sz (2 ^ 12) s e MEMBLOCK_NONE = Inr addr"
      using that(1) by (simp add: memblock_find_in_range_def choose_memblock_flags_def page)
    from find_in_range_flags_sound [OF assms(1) lim that(2,3) _ this assms(5)] show ?thesis
      by (simp add: area_ok_def)
  qed
  let ?ns = "if w \<noteq> RESERVED then 0 else nas" and ?nz = "if w \<noteq> RESERVED then 0 else nasz"
  have "rbind (memblock_find_in_range env st (add64 ?ns ?nz) (current_limit st) sz PAGE_SIZE)
      (\<lambda>addr. if addr = 0 \<and> ?nz \<noteq> 0
        then memblock_find_in_range env st 0 (min ?ns (current_limit st)) sz PAGE_SIZE else Inr addr) = Inr addr"
    using assms(3,4) by (cases w) (simp_all add: double_array_addr_def)
  then obtain x where x: "memblock_find_in_range env st (add64 ?ns ?nz) (current_limit st) sz PAGE_SIZE = Inr x"
    "(if x = 0 \<and> ?nz \<noteq> 0 then memblock_find_in_range env st 0 (min ?ns (current_limit st)) sz PAGE_SIZE
      else Inr x) = Inr addr"
    by (rule rbind_InrE) blast
  show ?thesis
  proof (cases "x = 0 \<and> ?nz \<noteq> 0")
    case True
    then have "memblock_find_in_range env st 0 (min ?ns (current_limit st)) sz PAGE_SIZE = Inr addr"
      using x(2) by (metis (no_types, lifting))
    then show ?thesis by (rule found) (use lim in \<open>simp_all add: U64_MAX_def\<close>)
  next
    case False
    then have "x = addr" using x(2) by (simp only: if_False sum.inject)
    then have "memblock_find_in_range env st (add64 ?ns ?nz) (current_limit st) sz PAGE_SIZE = Inr addr"
      using x(1) by simp
    then show ?thesis by (rule found [OF _ add64_bound lim])
  qed
qed

text \<open>Moving to the new array: release the old one, reserve the new one.\<close>

lemma double_array_move_ok:
  assumes D: "doubler dbl" and slab: "\<not> slab_is_available env" and ok: "mb_ok st" "mb_fits st"
    and free: "free_range st MEMBLOCK_NONE addr (addr + nsz)" and "addr \<noteq> 0"
    and nsz: "max_cnt (get_type w st) * 48 \<le> nsz"
    and run: "double_array_move n dbl env st w addr osz nsz = Inr (r, st')"
  shows "mb_ok st' \<and> mb_fits st' \<and> mem_map st' = mem_map st \<and> same_settings st st' \<and>
    (tmap (get_type w st) \<noteq> (\<lambda>a. None) \<longrightarrow> tmap (get_type w st') \<noteq> (\<lambda>a. None))"
proof -
  let ?t = "get_type w st" and ?st1 = "put_type w (doubled (get_type w st) addr) st"
  have t: "type_ok ?t" "type_fits ?t" using ok by (simp_all add: mb_ok_get mb_fits_get)
  then have "0 < max_cnt ?t" by (auto simp: type_ok_def arr_ok_def)
  then have pos: "0 < nsz" using nsz by simp
  have b: "addr + nsz \<le> 2 ^ 56" by (rule mem_range_bound [OF ok(2) free pos])
  have fits: "type_fits (doubled ?t addr)"
    using b nsz by (simp add: type_fits_def doubled_def U64_MAX_def)
  have m1: "mem_map ?st1 = mem_map st" using doubled_ok(2) [OF t(1)] by (cases w) simp_all
  have "w = MEMORY \<longrightarrow> (\<forall>a. tmap (doubled ?t addr) a \<noteq> None \<longrightarrow> a < 2 ^ 56)"
    using ok(2) doubled_ok(2) [OF t(1)] by (auto simp: mb_fits_def)
  then have st1: "mb_ok ?st1" "mb_fits ?st1"
    using ok t fits doubled_ok(1) by (simp_all add: mb_ok_put mb_fits_put)
  obtain st2 where st2: "(if get_in_slab w st then Inr ?st1 else case regions_at ?t of None \<Rightarrow> Inr ?st1
        | Some old \<Rightarrow> rbind (remove_range_with n dbl ?st1 RESERVED old osz) (\<lambda>(_, st'). Inr st')) = Inr st2"
    and rest: "rbind (rbind (add_range_with n dbl st2 RESERVED addr nsz 0)
        (\<lambda>(ret, st'). if ret \<noteq> 0 then Inl Bug else Inr st'))
        (\<lambda>st3. Inr (0, put_in_slab w (slab_is_available env) st3)) = Inr (r, st')"
    using run slab unfolding double_array_move_def Let_def
    by (elim rbind_InrE) (simp only: if_False rbind_simps(2))
  have s2: "mb_ok st2 \<and> mb_fits st2 \<and> mem_map st2 = mem_map st \<and> same_settings st st2"
  proof (cases "get_in_slab w st \<or> regions_at ?t = None")
    case True
    then have "st2 = ?st1" using st2 by (cases "get_in_slab w st") simp_all
    then show ?thesis using st1 m1 by simp
  next
    case False
    then obtain old r2 where old: "regions_at ?t = Some old"
      and rm: "remove_range_with n dbl ?st1 RESERVED old osz = Inr (r2, st2)"
      using st2 by (cases "regions_at ?t") (auto simp: rbind_Inr_iff)
    have "old \<le> U64_MAX" using t(2) old by (simp add: type_fits_def)
    from doubler.remove_range_ok [OF D st1 this rm] show ?thesis
      using m1 same_settings_trans [OF put_settings(1)] by auto
  qed
  obtain st3 where ar: "add_range_with n dbl st2 RESERVED addr nsz 0 = Inr (0, st3)"
    and st': "st' = put_in_slab w False st3"
    using rest slab by (auto simp: rbind_Inr_iff split: if_splits)
  have U: "addr \<le> U64_MAX" using b by (simp add: U64_MAX_def)
  have "s2'": "mb_ok st2" "mb_fits st2" using s2 by simp_all
  note a = doubler.add_range_ok [OF D this U _ ar]
  have "addr < cap_end addr nsz" using pos b by (simp add: cap_end_def U64_MAX_def)
  then have "tmap (reserved st3) addr \<noteq> None" using a by simp
  then have "tmap (reserved st3) \<noteq> (\<lambda>a. None)" by metis
  then have "tmap ?t \<noteq> (\<lambda>a. None) \<longrightarrow> tmap (get_type w st3) \<noteq> (\<lambda>a. None)"
    using a s2 by (cases w) simp_all
  then show ?thesis using a s2 same_settings_trans [of st st2 st3] by (simp add: st')
qed

lemma double_array_doubler:
  assumes "\<not> slab_is_available env"
  shows "doubler (memblock_double_array n env)"
proof (induction n)
  case 0
  show ?case by unfold_locales simp
next
  case (Suc n)
  show ?case
  proof (unfold_locales, goal_cases)
    case (1 st w b s r st')
    show ?case
    proof (cases "can_resize st")
      case False
      then show ?thesis using 1 by simp
    next
      case True
      let ?old = "(max_cnt (get_type w st) * SIZEOF_MEMBLOCK_REGION) mod 2 ^ 64"
      let ?new = "(?old * 2) mod 2 ^ 64"
      obtain addr where a: "double_array_addr env st w b s ?new (PAGE_ALIGN ?new) = Inr addr"
        and rest: "(if addr = 0 then Inr (-1, st)
            else double_array_move n (memblock_double_array n env) env st w addr
              (PAGE_ALIGN ?old) (PAGE_ALIGN ?new)) = Inr (r, st')"
        using 1(3) True by (auto simp: Let_def rbind_Inr_iff cong: if_cong)
      show ?thesis
      proof (cases "addr = 0")
        case True
        then show ?thesis using 1 rest by simp
      next
        case False
        have "max_cnt (get_type w st) \<le> 2 ^ 52"
          using mb_fits_get [OF 1(2), of w] by (simp add: type_fits_def)
        then have "?new = max_cnt (get_type w st) * 48" "?new \<le> 2 ^ 60"
          by (simp_all add: SIZEOF_MEMBLOCK_REGION_def)
        then have "max_cnt (get_type w st) * 48 \<le> PAGE_ALIGN ?new" using PAGE_ALIGN_ge [of ?new] by simp
        from double_array_move_ok [OF Suc assms 1(1,2) double_array_addr_ok [OF 1(1,2) assms a False] False this]
        show ?thesis using rest False by simp
      qed
    qed
  qed
qed

text \<open>The contract for every depth, on an environment before the slab allocator is up.\<close>

interpretation boot: doubler "memblock_double_array n (env\<lparr>slab_is_available := False\<rparr>)" for n env
  by (rule double_array_doubler) simp

lemma no_slab_env: "\<not> slab_is_available env \<Longrightarrow> env\<lparr>slab_is_available := False\<rparr> = env"
  by simp

end
