(* ===== verification/Memblock_Spec.thy ===== *)
theory Memblock_Spec
  imports Memblock_Growth
begin

text \<open>
  What \<^verbatim>\<open>mm/memblock.c\<close> promises, stated on the maps from physical addresses to region
  flags: every operation refines an operation on maps, allocation hands out memory that was
  free, and the queries answer from the maps.
\<close>

section \<open>Operations with room in the array\<close>

lemma grow_room:
  "cnt (get_type w st) + nr \<le> max_cnt (get_type w st) \<Longrightarrow> grow_with (Suc n) dbl st w nr b s = Inr (0, st)"
  by simp

lemma add_range_exact:
  assumes "mb_ok st" and "base \<le> U64_MAX" and "room_for (get_type w st) base (cap_end base sz)"
  shows "\<exists>t'. memblock_add_range (Suc n) env st w base sz f = Inr (0, put_type w t' st) \<and> type_ok t' \<and>
    tmap t' = fill (tmap (get_type w st)) base (cap_end base sz) f \<and>
    (rgs_minimal (live (get_type w st)) \<longrightarrow> rgs_minimal (live t')) \<and> same_frame (get_type w st) t' \<and>
    cnt t' \<le> length (add_rs (cap_end base sz) f base (live (get_type w st)))"
proof -
  let ?t = "get_type w st" and ?e = "cap_end base sz"
  note c = cap_size_eq [OF assms(2), of sz]
  have t: "type_ok ?t" using assms(1) by (rule mb_ok_get)
  have put: "put_type w ?t st = st" by (cases w) simp_all
  have len: "cnt ?t \<le> length (add_rs ?e f base (live ?t))"
    using add_rs_length [of "live ?t" ?e f base] t by (simp add: type_ok_arr)
  consider (zero) "?e \<le> base" | (first) "base < ?e" "live ?t = [empty_region]"
    | (some) "base < ?e" "live ?t \<noteq> [empty_region]" by linarith
  then show ?thesis
  proof cases
    case zero
    then show ?thesis
      using t put c len by (intro exI [of _ ?t]) (simp add: memblock_add_range_def add_range_with_def fill_empty)
  next
    case first
    define t' where "t' = ?t\<lparr>regions := (regions ?t)[0 := \<lparr>rg_base = base, rg_size = ?e - base, rg_flags = f\<rparr>],
      total_size := ?e - base\<rparr>"
    have "memblock_add_range (Suc n) env st w base sz f = Inr (0, put_type w t' st)"
      using first not_dummy(1) [OF t] c by (simp add: memblock_add_range_def add_range_with_def Let_def t'_def)
    moreover have "cnt t' \<le> length (add_rs ?e f base (live ?t))" using len by (simp add: t'_def)
    ultimately show ?thesis using set_first_ok [OF t first(2,1) c(4) t'_def] by blast
  next
    case some
    define nr where "nr = length (add_rs ?e f base (live ?t)) - cnt ?t"
    have p: "memblock_add_pass False ?t base ?e f = Inr (nr, ?t)"
      using add_pass_count [OF t some(2)] by (simp add: nr_def)
    have room: "cnt ?t + nr \<le> max_cnt ?t"
      using assms(3) len length_add_rs_flags [of ?e f base "live ?t"] by (simp add: nr_def room_for_def)
    obtain t' where t': "add_tail ?t base ?e f = Inr t'" using add_tail_room [OF t some(2) c(4) assms(3)] by blast
    note ok = add_tail_ok [OF t some(2) c(4) t']
    have ne: "rg_size (regions ?t ! 0) \<noteq> 0" using not_dummy(1) [OF t] some(2) by simp
    have run: "memblock_add_range (Suc n) env st w base sz f =
        (if nr = 0 then Inr (0, st) else Inr (0, put_type w t' st))"
      using some(1) ne p c grow_room [OF room] t'
      by (simp add: memblock_add_range_def add_range_with_def Let_def add_tail_eq del: grow_with.simps)
    show ?thesis
    proof (cases "nr = 0")
      case True
      then have "length (add_rs ?e f base (live ?t)) = length (live ?t)"
        using len t by (simp add: nr_def type_ok_arr)
      from add_rs_none [OF this] have "fill (tmap ?t) base ?e f = tmap ?t"
        using add_rs_amap [OF live_rgs_ok [OF t some(2)], of ?e f base] by (simp add: fill_def fun_eq_iff)
      then show ?thesis using run True t put len by (intro exI [of _ ?t]) simp
    next
      case False
      then show ?thesis using run ok by auto
    qed
  qed
qed

lemma isolate_range_exact:
  assumes "mb_ok st" and "base \<le> U64_MAX" and "cnt (get_type w st) + 2 \<le> max_cnt (get_type w st)"
    and "base < cap_end base sz"
  shows "\<exists>s k t1 L M H. memblock_isolate_range (Suc n) env st w base sz = Inr (0, s, k, put_type w t1 st) \<and>
    type_ok t1 \<and> same_frame (get_type w st) t1 \<and> tmap t1 = tmap (get_type w st) \<and>
    isolated base (cap_end base sz) (live t1) s k L M H \<and> (live t1 = [empty_region] \<longrightarrow> M = []) \<and>
    cnt t1 \<le> cnt (get_type w st) + 2"
proof -
  let ?t = "get_type w st" and ?e = "cap_end base sz"
  note c = cap_size_eq [OF assms(2), of sz]
  have t: "type_ok ?t" using assms(1) by (rule mb_ok_get)
  obtain s k t1 L M H where l: "memblock_isolate_loop (4 * cnt ?t + 1) base ?e 0 0 0 ?t = Inr (s, k, t1)"
    "type_ok t1" "same_frame ?t t1" "tmap t1 = tmap ?t" "isolated base ?e (live t1) s k L M H"
    "live t1 = [empty_region] \<longrightarrow> M = []" "cnt t1 \<le> cnt ?t + 2"
    using isolate_loop_ok [OF t assms(4,3)] by blast
  then have "memblock_isolate_range (Suc n) env st w base sz = Inr (0, s, k, put_type w t1 st)"
    using assms(4) grow_room [OF assms(3)] c
    by (simp add: memblock_isolate_range_def isolate_range_with_def Let_def
        del: grow_with.simps memblock_isolate_loop.simps)
  with l show ?thesis by blast
qed

lemma remove_range_exact:
  assumes "mb_ok st" and "base \<le> U64_MAX" and "cnt (get_type w st) + 2 \<le> max_cnt (get_type w st)"
  shows "\<exists>t'. memblock_remove_range (Suc n) env st w base sz = Inr (0, put_type w t' st) \<and> type_ok t' \<and>
    tmap t' = carve (tmap (get_type w st)) base (cap_end base sz) \<and>
    same_frame (get_type w st) t' \<and> cnt t' \<le> cnt (get_type w st) + 2"
proof -
  let ?t = "get_type w st" and ?e = "cap_end base sz"
  note c = cap_size_eq [OF assms(2), of sz]
  have t: "type_ok ?t" using assms(1) by (rule mb_ok_get)
  have put: "put_type w ?t st = st" "put_type w x (put_type w y st) = put_type w x st" for x y
    by (cases w; simp)+
  show ?thesis
  proof (cases "?e \<le> base")
    case True
    then show ?thesis
      using t put c by (intro exI [of _ ?t])
        (simp add: memblock_remove_range_def remove_range_with_def isolate_range_with_def carve_empty)
  next
    case False
    then obtain s k t1 L M H where l: "memblock_isolate_range (Suc n) env st w base sz = Inr (0, s, k, put_type w t1 st)"
      "type_ok t1" "tmap t1 = tmap ?t" "isolated base ?e (live t1) s k L M H" "live t1 = [empty_region] \<longrightarrow> M = []"
      "same_frame ?t t1" "cnt t1 \<le> cnt ?t + 2"
      using isolate_range_exact [OF assms, of sz n env] by (metis linorder_not_less)
    then have "memblock_remove_range (Suc n) env st w base sz =
        Inr (0, put_type w (memblock_remove_regions t1 s k) st)"
      using put by (simp add: memblock_remove_range_def memblock_isolate_range_def remove_range_with_def)
    then show ?thesis
      using remove_isolated_ok [OF l(2,4,5)] l(3,7) same_frame_trans [OF l(6)] by (auto intro: order_trans)
  qed
qed

section \<open>Flags\<close>

definition flag_op :: "bool \<Rightarrow> nat \<Rightarrow> nat \<Rightarrow> nat" where
  "flag_op set_it flag g = (if set_it then g OR flag else g AND (2 ^ 32 - 1 - flag))"

definition reflag ::
  "(phys_addr \<Rightarrow> nat option) \<Rightarrow> phys_addr \<Rightarrow> phys_addr \<Rightarrow> bool \<Rightarrow> nat \<Rightarrow> phys_addr \<Rightarrow> nat option" where
  "reflag m b e set_it flag = (\<lambda>a. if b \<le> a \<and> a < e then map_option (flag_op set_it flag) (m a) else m a)"

lemma setclr_flags: "rg_flags (setclr b f r) = flag_op b f (rg_flags r)"
  by (simp add: setclr_def memblock_set_region_flags_def memblock_clear_region_flags_def flag_op_def)

lemma amap_setclr: "amap (map (setclr b f) M) a = map_option (flag_op b f) (amap M a)"
  by (induction M) (simp_all add: setclr_flags)

lemma reflag_isolated:
  assumes "isolated b e rs s n L M H" and "rgs_ok rs"
  shows "amap (L @ map (setclr c f) M @ H) = reflag (amap rs) b e c f"
proof
  fix a
  have i: "rs = L @ M @ H" "\<forall>r \<in> set L. rg_base r + rg_size r \<le> b"
    "\<forall>r \<in> set H. e \<le> rg_base r"
    using assms(1) by (simp_all add: isolated_def)
  have L: "amap L a = None" if "b \<le> a" using that i(2) by (fastforce simp: amap_None_iff)
  have H: "amap H a = None" if "a < e" using that i(3) by (fastforce simp: amap_None_iff)
  show "amap (L @ map (setclr c f) M @ H) a = reflag (amap rs) b e c f a"
    using isolated_amap(3) [OF assms, of a] L H
    by (auto simp: i(1) amap_append amap_setclr reflag_def split: option.split)
qed

lemma merge_type_ok:
  assumes "type_ok t1"
  shows "\<exists>t'. memblock_merge_regions t1 = Inr t' \<and> type_ok t' \<and> same_frame t1 t' \<and> tmap t' = tmap t1 \<and> rgs_minimal (live t')"
  using assms
proof (cases rule: type_ok_cases)
  case dummy
  then have "memblock_merge_regions t1 = Inr t1"
    by (simp add: memblock_merge_regions_def merge_from_stop)
  then show ?thesis using assms dummy(1) by simp
next
  case regions
  then obtain t' where t': "memblock_merge_regions t1 = Inr t'" "arr_ok t'" "same_frame t1 t'"
    "total_size t' = total_size t1" "live t' = merge_rs (live t1)"
    using merge_regions_live [of t1] assms by (auto simp: type_ok_def)
  have "length (live t1) \<noteq> 0" using assms by (simp add: type_ok_def)
  then have "live t1 \<noteq> []" by simp
  then have "live t' \<noteq> []" using t'(5) merge_rs_length [of "live t1"] by simp
  then have "0 < cnt t'" using length_live [OF t'(2)] by (metis length_greater_0_conv)
  moreover have "tot_ok t'" using t' assms by (simp add: type_ok_def tot_ok_def merge_rs_sum)
  ultimately show ?thesis
    using t' merge_rs_ok [OF regions] merge_rs_amap [OF regions] merge_rs_minimal [of "live t1"] by (auto simp: type_ok_def)
qed

lemma setclr_tail:
  assumes "type_ok t" and "isolated b e (live t) s n L M H" and "live t = [empty_region] \<longrightarrow> M = []"
  shows "\<exists>t'. memblock_merge_regions (memblock_setclr_regions c f t s (n - s)) = Inr t' \<and> type_ok t' \<and>
    same_frame t t' \<and> tmap t' = reflag (tmap t) b e c f \<and> rgs_minimal (live t')"
proof -
  show ?thesis
  proof (cases "M = []")
    case True
    then have "s = 0" "n = 0" using assms(2) by (simp_all add: isolated_def)
    moreover have "reflag (tmap t) b e c f = tmap t"
      using assms(1)
    proof (cases rule: type_ok_cases)
      case dummy
      then show ?thesis by (auto simp: reflag_def fun_eq_iff)
    next
      case regions
      have "live t = L @ map (setclr c f) M @ H" using assms(2) True by (simp add: isolated_def)
      then show ?thesis using reflag_isolated [OF assms(2) regions, of c f] by simp
    qed
    ultimately show ?thesis using merge_type_ok [OF assms(1)] by simp
  next
    case False
    let ?t = "memblock_setclr_regions c f t s (n - s)"
    have i: "live t = L @ M @ H" "s = length L" "n - s = length M"
      using assms(2) False by (simp_all add: isolated_def)
    have regions: "rgs_ok (live t)" using live_rgs_ok [OF assms(1)] assms(3) False by blast
    have x: "arr_ok ?t" "total_size ?t = total_size t" "same_frame t ?t" "cnt ?t = cnt t"
      "live ?t = L @ map (setclr c f) M @ H"
      using setclr_regions_live [of t L M H c f] assms(1) i by (simp_all add: type_ok_def Let_def)
    have "rgs_ok (live ?t)" using regions i(1) x(5) by (simp only: setclr_rgs_ok)
    moreover have "tot_ok ?t"
      using assms(1) x(2,5) i(1) by (simp add: type_ok_def tot_ok_def comp_def)
    ultimately have "type_ok ?t" using x assms(1) by (simp add: type_ok_def)
    from merge_type_ok [OF this] obtain t' where "memblock_merge_regions ?t = Inr t'" "type_ok t'" "same_frame ?t t'"
      "tmap t' = tmap ?t" "rgs_minimal (live t')" by blast
    then show ?thesis
      using x(5) same_frame_trans [OF x(3)] reflag_isolated [OF assms(2) regions, of c f] by auto
  qed
qed

lemma setclr_flag_ok:
  assumes "mb_ok st" and "mb_fits st" and "base \<le> U64_MAX" and "\<not> slab_is_available env"
    and "memblock_setclr_flag n env st base sz c f = Inr (r, st')"
  shows "mb_ok st' \<and> mb_fits st' \<and> same_settings st st' \<and> (r = 0 \<or> r = - ENOMEM) \<and>
    mem_map st' = (if r = 0 then reflag (mem_map st) base (cap_end base sz) c f else mem_map st)"
proof (rule rbind_InrE [OF assms(5) [unfolded memblock_setclr_flag_def]])
  fix x assume x: "memblock_isolate_range n env st MEMORY base sz = Inr x"
    "(case x of (ret, s, e, st1) \<Rightarrow> if ret \<noteq> 0 then Inr (ret, st1)
        else rbind (memblock_merge_regions (memblock_setclr_regions c f (memory st1) s (e - s)))
          (\<lambda>t. Inr (0, st1\<lparr>memory := t\<rparr>))) = (Inr (r, st') :: (int \<times> memblock) res)"
  obtain r1 i j st1 where p: "x = (r1, i, j, st1)" by (cases x)
  note iso = x(1) [unfolded p memblock_isolate_range_def]
  note ok = boot.isolate_range_ok [where env = env and n = n, unfolded no_slab_env [OF assms(4)],
      OF assms(1-3) iso, unfolded get_type.simps]
  show ?thesis
  proof (cases "r1 = 0")
    case False
    then show ?thesis using ok x(2) p by auto
  next
    case True
    have "\<exists>t'. memblock_merge_regions (memblock_setclr_regions c f (memory st1) i (j - i)) = Inr t' \<and>
      type_ok t' \<and> same_frame (memory st1) t' \<and> tmap t' = reflag (mem_map st1) base (cap_end base sz) c f"
    proof (cases "cap_end base sz \<le> base")
      case zero: True
      then have "i = 0" "j = 0" "type_ok (memory st1)" using ok True by (auto simp: mb_ok_def)
      moreover have "reflag (mem_map st1) base (cap_end base sz) c f = mem_map st1"
        using zero by (auto simp: reflag_def fun_eq_iff)
      ultimately show ?thesis using merge_type_ok [of "memory st1"] by auto
    next
      case False
      then obtain L M H where "isolated base (cap_end base sz) (live (memory st1)) i j L M H"
        "live (memory st1) = [empty_region] \<longrightarrow> M = []"
        using ok True by auto
      moreover have "type_ok (memory st1)" using ok by (simp add: mb_ok_def)
      ultimately show ?thesis using setclr_tail by blast
    qed
    then obtain t' where t': "st' = put_type MEMORY t' st1" "r = 0" "type_ok t'" "same_frame (memory st1) t'"
      "tmap t' = reflag (mem_map st) base (cap_end base sz) c f"
      using x(2) p True ok by (auto simp: rbind_Inr_iff)
    have "mb_ok st'" unfolding t'(1) using ok t'(3) by (intro mb_ok_put) auto
    moreover have "mb_fits st'"
    proof -
      have "\<forall>a. tmap t' a \<noteq> None \<longrightarrow> a < 2 ^ 56"
        using assms(2) t'(5) by (auto simp: mb_fits_def reflag_def split: if_splits)
      then show ?thesis
        using ok t'(4) type_fits_frame [of "memory st1" t'] unfolding t'(1)
        by (intro mb_fits_put) (simp_all add: mb_fits_def)
    qed
    moreover have "same_settings st1 st'" unfolding t'(1) by (rule put_settings(1))
    then have "same_settings st st'" using ok same_settings_trans [of st st1 st'] by blast
    moreover have "mem_map st' = tmap t'" unfolding t'(1) by simp
    ultimately show ?thesis using t'(2,5) by simp
  qed
qed

lemma setclr_flag_exact:
  assumes "mb_ok st" and "base \<le> U64_MAX" and "cnt (memory st) + 2 \<le> max_cnt (memory st)"
  shows "\<exists>st'. memblock_setclr_flag (Suc n) env st base sz c f = Inr (0, st') \<and> mb_ok st' \<and>
    mem_map st' = reflag (mem_map st) base (cap_end base sz) c f \<and> reserved st' = reserved st \<and>
    rgs_minimal (live (memory st'))"
proof (cases "cap_end base sz \<le> base")
  case True
  have t: "type_ok (memory st)" using assms(1) by (simp add: mb_ok_def)
  obtain t' where t': "memblock_merge_regions (memory st) = Inr t'" "type_ok t'" "tmap t' = mem_map st" "rgs_minimal (live t')"
    using merge_type_ok [OF t] by blast
  have "memblock_setclr_flag (Suc n) env st base sz c f = Inr (0, st\<lparr>memory := t'\<rparr>)"
    using True t'(1) cap_size_eq [OF assms(2), of sz]
    by (simp add: memblock_setclr_flag_def memblock_isolate_range_def isolate_range_with_def)
  moreover have "reflag (mem_map st) base (cap_end base sz) c f = mem_map st"
    using True by (auto simp: reflag_def fun_eq_iff)
  ultimately show ?thesis using assms(1) t' by (simp add: mb_ok_def)
next
  case False
  then obtain s k t1 L M H where l: "memblock_isolate_range (Suc n) env st MEMORY base sz = Inr (0, s, k, put_type MEMORY t1 st)"
    "type_ok t1" "tmap t1 = mem_map st" "isolated base (cap_end base sz) (live t1) s k L M H"
    "live t1 = [empty_region] \<longrightarrow> M = []"
    using isolate_range_exact [OF assms(1,2), of MEMORY sz n env] assms(3) by auto
  obtain t' where t': "memblock_merge_regions (memblock_setclr_regions c f t1 s (k - s)) = Inr t'" "type_ok t'"
    "tmap t' = reflag (tmap t1) base (cap_end base sz) c f" "rgs_minimal (live t')"
    using setclr_tail [OF l(2,4,5)] by blast
  then have "memblock_setclr_flag (Suc n) env st base sz c f = Inr (0, st\<lparr>memory := t'\<rparr>)"
    using l(1) by (simp add: memblock_setclr_flag_def)
  then show ?thesis using assms(1) t' l(3) by (simp add: mb_ok_def)
qed

text \<open>An array without room that may not grow.\<close>

lemma add_range_full:
  assumes "mb_ok st" and "\<not> can_resize st" and "base < cap_end base sz"
    and "live (get_type w st) \<noteq> [empty_region]" and "\<not> room_for (get_type w st) base (cap_end base sz)"
  shows "memblock_add_range (Suc n) env st w base sz f = Inr (- ENOMEM, st)"
proof -
  let ?t = "get_type w st" and ?e = "cap_end base sz"
  have U: "base \<le> U64_MAX" using assms(3) by (auto simp: cap_end_def)
  note c = cap_size_eq [OF U, of sz]
  have t: "type_ok ?t" using assms(1) by (rule mb_ok_get)
  define nr where "nr = length (add_rs ?e f base (live ?t)) - cnt ?t"
  have p: "memblock_add_pass False ?t base ?e f = Inr (nr, ?t)"
    using add_pass_count [OF t assms(4)] by (simp add: nr_def)
  have "max_cnt ?t < length (add_rs ?e f base (live ?t))" "cnt ?t \<le> max_cnt ?t"
    using assms(5) length_add_rs_flags [of ?e f base "live ?t"] t by (simp_all add: room_for_def type_ok_def arr_ok_def)
  then have full: "max_cnt ?t < cnt ?t + nr" "nr \<noteq> 0" by (simp_all add: nr_def)
  have ne: "rg_size (regions ?t ! 0) \<noteq> 0" using not_dummy(1) [OF t] assms(4) by simp
  have "grow_with (Suc n) (memblock_double_array (Suc n) env) st w nr base (?e - base) = Inr (- ENOMEM, st)"
    using full(1) assms(2) by simp
  then show ?thesis
    using assms(3) ne p c full(2)
    by (simp add: memblock_add_range_def add_range_with_def Let_def ENOMEM_def
        del: grow_with.simps memblock_double_array.simps)
qed

section \<open>Operations that may grow the arrays\<close>

text \<open>Before the slab allocator is up, for any bound on the recursion that gives a result.\<close>

lemma add_range_grow:
  assumes "mb_ok st" and "mb_fits st" and "base \<le> U64_MAX" and "w = MEMORY \<longrightarrow> cap_end base sz \<le> 2 ^ 56"
    and "\<not> slab_is_available env" and "memblock_add_range n env st w base sz f = Inr (r, st')"
  shows "mb_ok st' \<and> mb_fits st' \<and> same_settings st st' \<and> (r = 0 \<or> r = - ENOMEM) \<and>
    (r = 0 \<longrightarrow> (\<forall>a. base \<le> a \<and> a < cap_end base sz \<longrightarrow> tmap (get_type w st') a \<noteq> None)) \<and>
    mem_map st' = (if w = MEMORY \<and> r = 0 then fill (mem_map st) base (cap_end base sz) f else mem_map st)"
  by (rule boot.add_range_ok [where env = env and n = n, unfolded no_slab_env [OF assms(5)],
      OF assms(1-4) assms(6) [unfolded memblock_add_range_def]])

lemma remove_range_grow:
  assumes "mb_ok st" and "mb_fits st" and "base \<le> U64_MAX"
    and "\<not> slab_is_available env" and "memblock_remove_range n env st w base sz = Inr (r, st')"
  shows "mb_ok st' \<and> mb_fits st' \<and> same_settings st st' \<and> (r = 0 \<or> r = - ENOMEM) \<and>
    (r = 0 \<longrightarrow> (\<forall>a. base \<le> a \<and> a < cap_end base sz \<longrightarrow> tmap (get_type w st') a = None)) \<and>
    mem_map st' = (if w = MEMORY \<and> r = 0 then carve (mem_map st) base (cap_end base sz) else mem_map st)"
  by (rule boot.remove_range_ok [where env = env and n = n, unfolded no_slab_env [OF assms(4)],
      OF assms(1-3) assms(5) [unfolded memblock_remove_range_def]])

section \<open>Allocation\<close>

lemma area_ok_free: "area_ok st flags start end sz align c \<Longrightarrow> free_range st flags c (c + sz)"
  by (simp add: area_ok_def)

lemma alloc_range_ok:
  assumes "mb_ok st" and "mb_fits st" and "\<not> slab_is_available env" and "start \<le> U64_MAX" and "end \<le> U64_MAX"
    and "k < 64" and "memblock_alloc_range n env st sz (2 ^ k) start end flags = Inr (p, st')"
  shows "mb_ok st' \<and> mb_fits st' \<and> same_settings st st' \<and> mem_map st' = mem_map st \<and>
    (p \<noteq> 0 \<longrightarrow>
       area_ok st flags (max start PAGE_SIZE)
         (max (max start PAGE_SIZE) (if end = MEMBLOCK_ALLOC_ACCESSIBLE then current_limit st else end))
         sz (2 ^ k) p \<and>
       (\<forall>a. p \<le> a \<and> a < p + sz \<longrightarrow> res_map st' a \<noteq> None))"
proof -
  let ?hi = "max (max start PAGE_SIZE) (if end = MEMBLOCK_ALLOC_ACCESSIBLE then current_limit st else end)"
  have lim: "current_limit st \<le> U64_MAX" using assms(2) by (simp add: mb_fits_def)
  have U: "?hi \<le> U64_MAX" using assms(4,5) lim by (simp add: PAGE_SIZE_def PAGE_SHIFT_def U64_MAX_def)
  obtain found where f: "memblock_find_in_range_flags env st sz (2 ^ k) start end flags = Inr found"
    and rest: "(if found = 0 then Inr (0, st)
        else rbind (memblock_reserve n env st found sz)
               (\<lambda>(ret, st'). if ret = 0 then Inr (found, st') else Inr (0, st'))) =
        (Inr (p, st') :: (phys_addr \<times> memblock) res)"
    using assms(7) by (auto simp: memblock_alloc_range_def rbind_Inr_iff)
  show ?thesis
  proof (cases "found = 0")
    case True
    then show ?thesis using rest assms(1,2) by simp
  next
    case False
    have a: "area_ok st flags (max start PAGE_SIZE) ?hi sz (2 ^ k) found"
      by (rule find_in_range_flags_sound [OF assms(1) lim assms(4-6) f False])
    obtain r where r: "memblock_reserve n env st found sz = Inr (r, st')" and p: "p = (if r = 0 then found else 0)"
      using rest False by (auto simp: rbind_Inr_iff split: if_splits)
    have le: "found + sz \<le> U64_MAX" using a U unfolding area_ok_def by (meson order_trans)
    then have c: "cap_end found sz = found + sz" "found \<le> U64_MAX" by (simp_all add: cap_end_def)
    note g = add_range_grow [OF assms(1,2) c(2) _ assms(3) r [unfolded memblock_reserve_def]]
    show ?thesis using g a p c(1) by auto
  qed
qed

section \<open>Queries\<close>

lemma search_ok:
  assumes "type_ok t"
  shows "memblock_search t a = -1 \<and> tmap t a = None \<or>
    (\<exists>i < cnt t. memblock_search t a = int i \<and> rg_base (live t ! i) \<le> a \<and>
       a < rg_base (live t ! i) + rg_size (live t ! i) \<and> tmap t a = Some (rg_flags (live t ! i)))"
  using assms
proof (cases rule: type_ok_cases)
  case dummy
  have "regions t ! 0 = live t ! 0" using dummy(2) by (intro live_nth) simp
  then have "memblock_search t a = -1"
    using dummy by (simp add: memblock_search_def memblock_search_loop.simps [of t a 0 "Suc 0"]
        empty_region_def rg_end_def add64_def)
  then show ?thesis using dummy by simp
next
  case regions
  have ok: "arr_ok t" "0 < cnt t" using assms by (simp_all add: type_ok_def)
  have "search_range t a 0 (cnt t)" by (simp add: search_range_def)
  from search_loop_correct [OF ok(1) regions ok(2) _ this] show ?thesis
    using rgs_ok_amap [OF regions] ok(1) unfolding memblock_search_def
    by (metis length_live nth_mem order_refl)
qed

lemma is_map_memory_iff:
  assumes "mb_ok st"
  shows "memblock_is_map_memory st a \<longleftrightarrow> (\<exists>f. mem_map st a = Some f \<and> f AND MEMBLOCK_NOMAP = 0)"
proof -
  have "type_ok (memory st)" using assms by (simp add: mb_ok_def)
  from search_ok [OF this, of a] show ?thesis
    by (auto simp: memblock_is_map_memory_def memblock_is_nomap_def Let_def live_nth)
qed

lemma overlaps_dummy:
  assumes "type_ok t" and "live t = [empty_region]" and "b + s \<le> U64_MAX"
  shows "\<not> memblock_overlaps_region t b s"
proof -
  have c: "cnt t = 1" using assms(1,2) length_live [of t] by (simp add: type_ok_def)
  then have "regions t ! 0 = empty_region" using assms(2) live_nth [of 0 t] by simp
  then show ?thesis
    using c assms(3) by (simp add: memblock_overlaps_region_def memblock_overlaps_from.simps [of t b s 0]
        memblock_overlaps_from.simps [of t b s "Suc 0"] memblock_addrs_overlap_def empty_region_def add64_def)
qed

section \<open>The page-frame iterator\<close>

text \<open>
  The loop that \<^verbatim>\<open>for_each_mem_pfn_range\<close> expands to, on a \<^verbatim>\<open>u64\<close> loop variable as
  \<^verbatim>\<open>__next_mem_pfn_range\<close> requires: it starts at \<open>-1\<close>, and goes on while \<open>i >= 0\<close>.  The
  model runs a number of rounds and tells whether the loop has ended or where it stands,
  with what each round has written to the out parameters.
\<close>

datatype pfn_loop =
    Ended "(phys_addr \<times> phys_addr) option list"
  | Running nat "(phys_addr \<times> phys_addr) option list"

primrec pfn_walk :: "nat \<Rightarrow> memblock \<Rightarrow> nat \<Rightarrow> (phys_addr \<times> phys_addr) option list \<Rightarrow> pfn_loop" where
  "pfn_walk 0 st i seen = Running i seen"
| "pfn_walk (Suc n) st i seen =
     (let (i', out) = next_mem_pfn_range st i in
      if i' \<ge> 0 then pfn_walk n st i' (seen @ [out]) else Ended seen)"

definition for_each_mem_pfn_range :: "nat \<Rightarrow> memblock \<Rightarrow> pfn_loop" where
  "for_each_mem_pfn_range n st = pfn_walk n st U64_MAX []"

lemma pfn_walk_stuck:
  assumes "cnt (memory st) \<le> U64_MAX"
  shows "pfn_walk n st U64_MAX seen = Running U64_MAX (seen @ replicate n None)"
  using assms by (induction n arbitrary: seen) (simp_all add: next_mem_pfn_range_def)

text \<open>The same loop started at 0 would report every region once.\<close>

lemma pfn_walk_from:
  assumes "i + n \<le> cnt (memory st)" and "cnt (memory st) \<le> U64_MAX"
  shows "pfn_walk n st i seen = Running (i + n) (seen @ map (\<lambda>j. snd (next_mem_pfn_range st j)) [i..<i + n])"
  using assms
proof (induction n arbitrary: i seen)
  case (Suc n)
  have "fst (next_mem_pfn_range st i) = Suc i" using Suc.prems by (simp add: next_mem_pfn_range_def Let_def add64_def U64_MAX_def)
  moreover have "[i..<i + Suc n] = i # [Suc i..<Suc i + n]" by (simp add: upt_conv_Cons del: upt_Suc)
  ultimately show ?case
    using Suc.IH [of "Suc i"] Suc.prems by (cases "next_mem_pfn_range st i") (simp del: upt_Suc add_Suc_right)
qed simp

lemma reserve_disjoint_cnt:
  assumes "type_ok t" and "b < e" and "\<forall>a. b \<le> a \<and> a < e \<longrightarrow> tmap t a = None"
  shows "length (add_rs e f b (live t)) \<le> Suc (cnt t)"
  using assms(1)
proof (cases rule: type_ok_cases)
  case dummy
  then show ?thesis by (auto simp: empty_region_def)
next
  case regions
  then show ?thesis
    using add_rs_disjoint [OF regions assms(2,3), of f] assms(1) by (simp add: type_ok_arr)
qed

section \<open>Properties\<close>

text \<open>A small state for the examples: 64 KiB of memory at \<open>0x10000\<close>, one page of it reserved.\<close>

definition demo_env :: memblock_env where
  "demo_env = \<lparr>slab_is_available = False, kmalloc_pa = (\<lambda>_. 0), kernel_end = 0\<rparr>"

definition demo_mb :: memblock where
  "demo_mb = \<lparr>bottom_up = False, current_limit = 0x100000,
     memory = \<lparr>cnt = 1, max_cnt = 4, total_size = 0x10000,
       regions = \<lparr>rg_base = 0x10000, rg_size = 0x10000, rg_flags = 0\<rparr> # replicate 3 empty_region,
       regions_at = None\<rparr>,
     reserved = \<lparr>cnt = 1, max_cnt = 4, total_size = 0x1000,
       regions = \<lparr>rg_base = 0x14000, rg_size = 0x1000, rg_flags = 0\<rparr> # replicate 3 empty_region,
       regions_at = None\<rparr>,
     can_resize = False, memory_in_slab = False, reserved_in_slab = False\<rparr>"

lemma demo_live:
  "live (memory demo_mb) = [\<lparr>rg_base = 0x10000, rg_size = 0x10000, rg_flags = 0\<rparr>]"
  "live (reserved demo_mb) = [\<lparr>rg_base = 0x14000, rg_size = 0x1000, rg_flags = 0\<rparr>]"
  by (simp_all add: demo_mb_def live_def)

lemma demo_ok: "mb_ok demo_mb"
  unfolding mb_ok_def type_ok_def tot_ok_def demo_live
  by (simp add: demo_mb_def arr_ok_def rg_valid_def U64_MAX_def)

lemma demo_fits: "mb_fits demo_mb"
  unfolding mb_fits_def demo_live
  by (simp add: demo_mb_def type_fits_def U64_MAX_def)

text \<open>
  C1: adding a range to an array with room always succeeds and refines the map: addresses
  of the range that no region covered get the given flags, every other address keeps its
  flags, the invariant holds again, \<open>total_size\<close> counts the covered addresses, no two
  adjacent regions with equal flags are left if there were none, and the other array is
  untouched.
\<close>

theorem add_range_refines:
  assumes "mb_ok st" and "base \<le> U64_MAX" and "room_for (get_type w st) base (cap_end base sz)"
  shows "\<exists>st'. memblock_add_range (Suc n) env st w base sz f = Inr (0, st') \<and> mb_ok st' \<and>
    tmap (get_type w st') = fill (tmap (get_type w st)) base (cap_end base sz) f \<and>
    total_size (get_type w st') = card {a. tmap (get_type w st') a \<noteq> None} \<and>
    (rgs_minimal (live (get_type w st)) \<longrightarrow> rgs_minimal (live (get_type w st'))) \<and>
    (\<forall>w'. w' \<noteq> w \<longrightarrow> get_type w' st' = get_type w' st)"
proof -
  obtain t' where t': "memblock_add_range (Suc n) env st w base sz f = Inr (0, put_type w t' st)" "type_ok t'"
    "tmap t' = fill (tmap (get_type w st)) base (cap_end base sz) f"
    "rgs_minimal (live (get_type w st)) \<longrightarrow> rgs_minimal (live t')"
    using add_range_exact [OF assms] by blast
  have "get_type w' (put_type w t' st) = get_type w' st" if "w' \<noteq> w" for w'
    using that by (cases w; cases w') simp_all
  then show ?thesis
    using t' assms(1) type_ok_total [OF t'(2)] by (intro exI [of _ "put_type w t' st"]) (simp add: mb_ok_put)
qed

theorem add_range_refines_witness:
  "\<exists>st'. memblock_add_range (Suc 0) demo_env demo_mb RESERVED 0x15000 0x2000 0 = Inr (0, st') \<and> mb_ok st' \<and>
    tmap (get_type RESERVED st') =
      fill (tmap (get_type RESERVED demo_mb)) 0x15000 (cap_end 0x15000 0x2000) 0 \<and>
    total_size (get_type RESERVED st') = card {a. tmap (get_type RESERVED st') a \<noteq> None} \<and>
    rgs_minimal (live (get_type RESERVED st')) \<and> get_type MEMORY st' = get_type MEMORY demo_mb"
proof -
  have "room_for (get_type RESERVED demo_mb) 0x15000 (cap_end 0x15000 0x2000)"
    by (simp add: room_for_def demo_live cap_end_def U64_MAX_def) (simp add: demo_mb_def)
  from add_range_refines [OF demo_ok _ this, of 0 demo_env 0] show ?thesis
    by (auto simp: U64_MAX_def demo_live)
qed

text \<open>
  C2: removing a range from an array with two free slots always succeeds and refines the
  map: exactly the addresses of the range lose their entry, the others keep their flags.
\<close>

theorem remove_range_refines:
  assumes "mb_ok st" and "base \<le> U64_MAX" and "cnt (get_type w st) + 2 \<le> max_cnt (get_type w st)"
  shows "\<exists>st'. memblock_remove_range (Suc n) env st w base sz = Inr (0, st') \<and> mb_ok st' \<and>
    tmap (get_type w st') = carve (tmap (get_type w st)) base (cap_end base sz) \<and>
    total_size (get_type w st') = card {a. tmap (get_type w st') a \<noteq> None} \<and>
    (\<forall>w'. w' \<noteq> w \<longrightarrow> get_type w' st' = get_type w' st)"
proof -
  obtain t' where t': "memblock_remove_range (Suc n) env st w base sz = Inr (0, put_type w t' st)" "type_ok t'"
    "tmap t' = carve (tmap (get_type w st)) base (cap_end base sz)"
    using remove_range_exact [OF assms] by blast
  have "get_type w' (put_type w t' st) = get_type w' st" if "w' \<noteq> w" for w'
    using that by (cases w; cases w') simp_all
  then show ?thesis
    using t' assms(1) type_ok_total [OF t'(2)] by (intro exI [of _ "put_type w t' st"]) (simp add: mb_ok_put)
qed

theorem remove_range_refines_witness:
  "\<exists>st'. memblock_remove_range (Suc 0) demo_env demo_mb MEMORY 0x12000 0x1000 = Inr (0, st') \<and> mb_ok st' \<and>
    tmap (get_type MEMORY st') = carve (tmap (get_type MEMORY demo_mb)) 0x12000 (cap_end 0x12000 0x1000) \<and>
    total_size (get_type MEMORY st') = card {a. tmap (get_type MEMORY st') a \<noteq> None} \<and>
    get_type RESERVED st' = get_type RESERVED demo_mb"
proof -
  have "cnt (get_type MEMORY demo_mb) + 2 \<le> max_cnt (get_type MEMORY demo_mb)" by (simp add: demo_mb_def)
  from remove_range_refines [OF demo_ok _ this, of "0x12000" 0 demo_env "0x1000"] show ?thesis
    by (auto simp: U64_MAX_def)
qed

text \<open>
  C4: the search for a free area always ends, and an address it returns lies between the
  requested bounds (never in the first page), is aligned, and starts an area of the
  requested size that is mapped memory and that nothing has reserved.
\<close>

theorem find_in_range_correct:
  assumes "mb_ok st" and "mb_small st" and "current_limit st \<le> U64_MAX" and "start \<le> U64_MAX"
    and "end \<le> U64_MAX" and "k < 64"
  shows "\<exists>c. memblock_find_in_range_flags env st sz (2 ^ k) start end flags = Inr c \<and>
    (c \<noteq> 0 \<longrightarrow>
       max start PAGE_SIZE \<le> c \<and>
       c + sz \<le> max (max start PAGE_SIZE) (if end = MEMBLOCK_ALLOC_ACCESSIBLE then current_limit st else end) \<and>
       2 ^ k dvd c \<and> free_range st flags c (c + sz))"
proof -
  obtain c where c: "memblock_find_in_range_flags env st sz (2 ^ k) start end flags = Inr c"
    using find_in_range_flags_ends [OF assms(1,2)] by blast
  then show ?thesis
    using find_in_range_flags_sound [OF assms(1,3-6) c] by (auto simp: area_ok_def)
qed

theorem find_in_range_correct_witness:
  "\<exists>c. memblock_find_in_range_flags demo_env demo_mb 0x2000 (2 ^ 12) 0 0x20000 0 = Inr c \<and> c = 0x1e000 \<and>
    free_range demo_mb 0 c (c + 0x2000)"
proof -
  have small: "mb_small demo_mb" and lim: "current_limit demo_mb \<le> U64_MAX"
    by (simp_all add: mb_small_def demo_mb_def U64_MAX_def)
  have run: "memblock_find_in_range_flags demo_env demo_mb 0x2000 (2 ^ 12) 0 0x20000 0 = Inr 0x1e000"
    by code_simp
  show ?thesis
    using find_in_range_correct [OF demo_ok small lim, of 0 "0x20000" 12 demo_env "0x2000" 0] run
    by (simp add: U64_MAX_def)
qed

text \<open>
  C6: setting or clearing a flag on a range of memory, with two free slots, always succeeds
  and changes the flags of exactly the memory in the range; it adds or removes no memory.
\<close>

theorem setclr_flag_refines:
  assumes "mb_ok st" and "base \<le> U64_MAX" and "cnt (memory st) + 2 \<le> max_cnt (memory st)"
  shows "\<exists>st'. memblock_setclr_flag (Suc n) env st base sz c f = Inr (0, st') \<and> mb_ok st' \<and>
    mem_map st' = reflag (mem_map st) base (cap_end base sz) c f \<and> reserved st' = reserved st"
  using setclr_flag_exact [OF assms, of n env sz c f] by blast

theorem setclr_flag_refines_witness:
  "\<exists>st'. memblock_mark_nomap (Suc 0) demo_env demo_mb 0x11000 0x1000 = Inr (0, st') \<and> mb_ok st' \<and>
    mem_map st' 0x11000 = Some MEMBLOCK_NOMAP \<and> mem_map st' 0x12000 = Some 0 \<and>
    reserved st' = reserved demo_mb"
proof -
  have "cnt (memory demo_mb) + 2 \<le> max_cnt (memory demo_mb)" by (simp add: demo_mb_def)
  from setclr_flag_refines [OF demo_ok _ this, of "0x11000" 0 demo_env "0x1000" True MEMBLOCK_NOMAP]
  show ?thesis
    by (auto simp: memblock_mark_nomap_def U64_MAX_def reflag_def cap_end_def demo_live flag_op_def MEMBLOCK_NOMAP_def)
qed

text \<open>
  C7: reserving a range of which no address was reserved and freeing it again restores the
  set of reserved addresses.
\<close>

theorem reserve_free_roundtrip:
  assumes "mb_ok st" and "base < cap_end base sz" and "cnt (reserved st) + 3 \<le> max_cnt (reserved st)"
    and "\<forall>a. base \<le> a \<and> a < cap_end base sz \<longrightarrow> res_map st a = None"
  shows "\<exists>st1 st2. memblock_reserve (Suc n) env st base sz = Inr (0, st1) \<and>
    memblock_free (Suc n) env st1 base sz = Inr (0, st2) \<and> res_map st2 = res_map st \<and> memory st2 = memory st"
proof -
  let ?e = "cap_end base sz" and ?t = "get_type RESERVED st"
  have U: "base \<le> U64_MAX" using assms(2) by (auto simp: cap_end_def)
  have len: "length (add_rs ?e f base (live (reserved st))) \<le> Suc (cnt (reserved st))" for f
    using reserve_disjoint_cnt [OF _ assms(2,4)] assms(1,3) by (simp add: mb_ok_def)
  have "room_for ?t base ?e" using len [of 0] assms(3) by (simp add: room_for_def)
  from add_range_exact [OF assms(1) U this, of n env 0] obtain t1 where
    t1: "memblock_add_range (Suc n) env st RESERVED base sz 0 = Inr (0, put_type RESERVED t1 st)" "type_ok t1"
    "tmap t1 = fill (res_map st) base ?e 0" "max_cnt t1 = max_cnt (reserved st)"
    "cnt t1 \<le> Suc (cnt (reserved st))"
    using len [of 0] by (auto simp: same_frame_def)
  let ?st1 = "put_type RESERVED t1 st"
  have "cnt (get_type RESERVED ?st1) + 2 \<le> max_cnt (get_type RESERVED ?st1)" using t1(4,5) assms(3) by simp
  from remove_range_exact [OF mb_ok_put [OF assms(1) t1(2)] U this, of n env sz] obtain t2 where
    t2: "memblock_remove_range (Suc n) env ?st1 RESERVED base sz = Inr (0, put_type RESERVED t2 ?st1)"
    "tmap t2 = carve (tmap t1) base ?e" by auto
  have "tmap t2 = res_map st"
    using assms(4) by (auto simp: t2(2) t1(3) carve_def fill_def fun_eq_iff split: option.split)
  with t1(1) t2(1) show ?thesis by (auto simp: memblock_reserve_def memblock_free_def)
qed

theorem reserve_free_roundtrip_witness:
  "\<exists>st1 st2. memblock_reserve (Suc 0) demo_env demo_mb 0x15000 0x800 = Inr (0, st1) \<and>
    memblock_free (Suc 0) demo_env st1 0x15000 0x800 = Inr (0, st2) \<and> res_map st2 = res_map demo_mb"
proof -
  have "\<forall>a. 0x15000 \<le> a \<and> a < cap_end 0x15000 0x800 \<longrightarrow> res_map demo_mb a = None" by (simp add: demo_live)
  moreover have "cnt (reserved demo_mb) + 3 \<le> max_cnt (reserved demo_mb)" by (simp add: demo_mb_def)
  moreover have "0x15000 < cap_end 0x15000 0x800" by (simp add: cap_end_def U64_MAX_def)
  ultimately show ?thesis
    using reserve_free_roundtrip [OF demo_ok, of "0x15000" "0x800" 0 demo_env] by blast
qed

text \<open>
  C8: the point queries answer from the maps: \<open>memblock_is_memory\<close>, \<open>memblock_is_reserved\<close>
  and, for memory that is not marked nomap, \<open>memblock_is_map_memory\<close>.
\<close>

theorem point_queries:
  assumes "mb_ok st"
  shows "(memblock_is_memory st a \<longleftrightarrow> mem_map st a \<noteq> None) \<and>
    (memblock_is_reserved st a \<longleftrightarrow> res_map st a \<noteq> None) \<and>
    (memblock_is_map_memory st a \<longleftrightarrow> (\<exists>f. mem_map st a = Some f \<and> f AND MEMBLOCK_NOMAP = 0))"
proof -
  have "type_ok (memory st)" "type_ok (reserved st)" using assms by (simp_all add: mb_ok_def)
  note m = search_ok [OF this(1), of a] and r = search_ok [OF this(2), of a]
  show ?thesis
    using m r is_map_memory_iff [OF assms, of a] by (auto simp: memblock_is_memory_def memblock_is_reserved_def)
qed

theorem point_queries_witness:
  "memblock_is_memory demo_mb 0x1ffff \<and> \<not> memblock_is_memory demo_mb 0x20000 \<and>
   memblock_is_reserved demo_mb 0x14000 \<and> memblock_is_map_memory demo_mb 0x10000"
  using point_queries [OF demo_ok, of "0x1ffff"] point_queries [OF demo_ok, of "0x20000"]
    point_queries [OF demo_ok, of "0x14000"] point_queries [OF demo_ok, of "0x10000"]
  by (simp add: demo_live)

text \<open>
  \<open>memblock_is_region_reserved\<close> says whether some address of the range is reserved, and
  \<open>memblock_is_region_memory\<close> is only true of a range all of which is memory.
\<close>

lemma region_queries:
  assumes "mb_ok st" and "base < cap_end base sz"
  shows "(memblock_is_region_reserved st base sz \<longleftrightarrow>
      (\<exists>a. base \<le> a \<and> a < cap_end base sz \<and> res_map st a \<noteq> None)) \<and>
    (memblock_is_region_memory st base sz \<longrightarrow>
      (\<forall>a. base \<le> a \<and> a < cap_end base sz \<longrightarrow> mem_map st a \<noteq> None))"
proof -
  let ?e = "cap_end base sz"
  have U: "base \<le> U64_MAX" using assms(2) by (auto simp: cap_end_def)
  note c = cap_size_eq [OF U, of sz]
  have ok: "type_ok (memory st)" "type_ok (reserved st)" using assms(1) by (simp_all add: mb_ok_def)
  have be: "base + (?e - base) = ?e" using assms(2) by simp
  have "memblock_overlaps_region (reserved st) base (?e - base) \<longleftrightarrow>
      (\<exists>a. base \<le> a \<and> a < ?e \<and> res_map st a \<noteq> None)"
    using ok(2)
  proof (cases rule: type_ok_cases)
    case dummy
    then show ?thesis using overlaps_dummy [OF ok(2) dummy(1), of base "?e - base"] c(4) be by simp
  next
    case regions
    then show ?thesis
      using overlaps_region_iff [OF type_ok_arr [OF ok(2)] regions, of "?e - base" base] c(4) be assms(2) by simp
  qed
  moreover have "mem_map st a \<noteq> None" if m: "memblock_is_region_memory st base sz" and a: "base \<le> a" "a < ?e" for a
  proof -
    obtain i where i: "i < cnt (memory st)" "memblock_search (memory st) base = int i"
      "rg_base (live (memory st) ! i) \<le> base"
      using m search_ok [OF ok(1), of base] by (auto simp: memblock_is_region_memory_def Let_def split: if_splits)
    have regions: "rgs_ok (live (memory st))"
      using ok(1)
    proof (cases rule: type_ok_cases)
      case dummy
      then show ?thesis using search_ok [OF ok(1), of base] i(2) by simp
    qed
    have mem: "live (memory st) ! i \<in> set (live (memory st))" using i(1) ok(1) by (simp add: type_ok_arr)
    then have "rg_valid (live (memory st) ! i)" using regions by (simp add: rgs_ok_def)
    then have "?e \<le> rg_base (live (memory st) ! i) + rg_size (live (memory st) ! i)"
      using m i c by (simp add: memblock_is_region_memory_def Let_def live_nth rg_end_valid)
    then show ?thesis using rgs_ok_amap [OF regions mem, of a] i(3) a by simp
  qed
  ultimately show ?thesis by (simp add: memblock_is_region_reserved_def c(1))
qed

text \<open>
  C9: when the array has no room for the new regions and may not be resized, adding a
  range fails with \<open>-ENOMEM\<close> and changes nothing.
\<close>

theorem add_range_enomem:
  assumes "mb_ok st" and "\<not> can_resize st" and "base < cap_end base sz"
    and "live (get_type w st) \<noteq> [empty_region]" and "\<not> room_for (get_type w st) base (cap_end base sz)"
  shows "memblock_add_range (Suc n) env st w base sz f = Inr (- ENOMEM, st)"
  by (rule add_range_full [OF assms])

definition demo_full :: memblock where
  "demo_full = demo_mb\<lparr>reserved := (reserved demo_mb)\<lparr>max_cnt := 1, regions := live (reserved demo_mb)\<rparr>\<rparr>"

theorem add_range_enomem_witness:
  "memblock_add_range (Suc 0) demo_env demo_full RESERVED 0x18000 0x1000 0 = Inr (- 12, demo_full)"
proof -
  have l: "live (reserved demo_full) = [\<lparr>rg_base = 0x14000, rg_size = 0x1000, rg_flags = 0\<rparr>]"
    "live (memory demo_full) = live (memory demo_mb)"
    by (simp_all add: demo_full_def demo_mb_def live_def)
  have "mb_ok demo_full"
    unfolding mb_ok_def type_ok_def tot_ok_def l demo_live
    by (simp add: demo_full_def demo_mb_def live_def arr_ok_def rg_valid_def U64_MAX_def)
  moreover have "\<not> can_resize demo_full" "max_cnt (reserved demo_full) = 1"
    by (simp_all add: demo_full_def demo_mb_def)
  ultimately show ?thesis
    using add_range_enomem [of demo_full "0x18000" "0x1000" RESERVED 0 demo_env 0]
    by (simp add: l cap_end_def U64_MAX_def room_for_def empty_region_def ENOMEM_def)
qed

text \<open>
  C10: \<^verbatim>\<open>for_each_mem_pfn_range\<close> as written visits no region and never ends: after any number of
  rounds it is still running, at the index \<open>2 ^ 64 - 1\<close> where it started, and no round has
  reported a region.  It starts \<^verbatim>\<open>__next_mem_pfn_range\<close> at \<open>-1\<close>, which the function takes for the
  end of the iteration and leaves unchanged, and an unsigned \<open>i >= 0\<close> holds.
\<close>

theorem pfn_range_never_ends:
  assumes "cnt (memory st) \<le> U64_MAX"
  shows "for_each_mem_pfn_range n st = Running U64_MAX (replicate n None)"
  using pfn_walk_stuck [OF assms, of n "[]"] by (simp add: for_each_mem_pfn_range_def)

theorem pfn_range_never_ends_witness:
  "for_each_mem_pfn_range 3 demo_mb = Running U64_MAX [None, None, None]"
proof -
  have "cnt (memory demo_mb) \<le> U64_MAX" by (simp add: demo_mb_def U64_MAX_def)
  from pfn_range_never_ends [OF this, of 3] show ?thesis by (simp add: numeral_3_eq_3)
qed

text \<open>
  C11: \<^verbatim>\<open>MEMBLOCK_MOVABLE\<close> is not a flag of its own: marking memory movable marks it
  nomap, so it leaves the linear map and the allocator skips it, and clearing the movable
  mark also clears a nomap mark.
\<close>

theorem movable_is_nomap:
  assumes "mb_ok st" and "base \<le> a" and "a < cap_end base sz" and "cnt (memory st) + 2 \<le> max_cnt (memory st)"
    and "mem_map st a = Some g"
  shows "\<exists>st1 st2. memblock_mark_movable (Suc n) env st base sz = Inr (0, st1) \<and>
    \<not> memblock_is_map_memory st1 a \<and>
    memblock_clear_movable (Suc n) env st base sz = Inr (0, st2) \<and> memblock_is_map_memory st2 a"
proof -
  have U: "base \<le> U64_MAX" using assms(2,3) by (auto simp: cap_end_def)
  obtain st1 where s1: "memblock_mark_movable (Suc n) env st base sz = Inr (0, st1)" "mb_ok st1"
    "mem_map st1 = reflag (mem_map st) base (cap_end base sz) True MEMBLOCK_MOVABLE"
    using setclr_flag_exact [OF assms(1) U assms(4), of n env sz True MEMBLOCK_MOVABLE]
    by (auto simp: memblock_mark_movable_def)
  obtain st2 where s2: "memblock_clear_movable (Suc n) env st base sz = Inr (0, st2)" "mb_ok st2"
    "mem_map st2 = reflag (mem_map st) base (cap_end base sz) False MEMBLOCK_MOVABLE"
    using setclr_flag_exact [OF assms(1) U assms(4), of n env sz False MEMBLOCK_MOVABLE]
    by (auto simp: memblock_clear_movable_def)
  have "odd (g OR 3)" "even (g AND (2 ^ 32 - 1 - 3))" by (simp_all add: even_or_iff even_and_iff)
  then have "(g OR 3) AND 1 \<noteq> (0::nat)" "(g AND (2 ^ 32 - 1 - 3)) AND 1 = (0::nat)"
    by (simp_all only: and_one_eq odd_iff_mod_2_eq_one even_iff_mod_2_eq_zero not_False_eq_True)
  then show ?thesis
    using s1 s2 assms(2,3,5) is_map_memory_iff
    by (auto simp: reflag_def flag_op_def MEMBLOCK_MOVABLE_def MEMBLOCK_NOMAP_def)
qed

theorem movable_is_nomap_witness:
  "\<exists>st1 st2. memblock_mark_movable (Suc 0) demo_env demo_mb 0x11000 0x1000 = Inr (0, st1) \<and>
    \<not> memblock_is_map_memory st1 0x11800 \<and>
    memblock_clear_movable (Suc 0) demo_env demo_mb 0x11000 0x1000 = Inr (0, st2) \<and>
    memblock_is_map_memory st2 0x11800"
proof -
  have "cnt (memory demo_mb) + 2 \<le> max_cnt (memory demo_mb)" by (simp add: demo_mb_def)
  then show ?thesis
    using movable_is_nomap [OF demo_ok, of "0x11000" "0x11800" "0x1000" 0 0 demo_env]
    by (simp add: cap_end_def U64_MAX_def demo_live)
qed

end
