(* ===== verification/Memblock_Total.thy ===== *)
theory Memblock_Total
  imports Memblock_Spec
begin

text \<open>
  Allocation returns: when \<^verbatim>\<open>memblock_alloc_range\<close> finds a free area and the array of reserved
  regions is full, \<^verbatim>\<open>memblock_double_array\<close> moves it to a larger one and the reservation goes
  through.  The recursion of the source is two deep there, because the doubled array has room
  for releasing the old array and reserving the new one.
\<close>

section \<open>Where the new array is placed\<close>

lemma find_in_range_total:
  assumes "mb_ok st" and "mb_small st" and "current_limit st \<le> U64_MAX" and "s \<le> U64_MAX" and "e \<le> U64_MAX"
  shows "\<exists>c. memblock_find_in_range env st s e sz PAGE_SIZE = Inr c \<and>
    (c \<noteq> 0 \<longrightarrow> max s PAGE_SIZE \<le> c \<and>
       c + sz \<le> max (max s PAGE_SIZE) (if e = MEMBLOCK_ALLOC_ACCESSIBLE then current_limit st else e))"
proof -
  have page: "PAGE_SIZE = 2 ^ 12" by (simp add: PAGE_SIZE_def PAGE_SHIFT_def)
  obtain c where c: "memblock_find_in_range_flags env st sz (2 ^ 12) s e choose_memblock_flags = Inr c"
    using find_in_range_flags_ends [OF assms(1,2)] by blast
  have "area_ok st choose_memblock_flags (max s PAGE_SIZE)
      (max (max s PAGE_SIZE) (if e = MEMBLOCK_ALLOC_ACCESSIBLE then current_limit st else e)) sz (2 ^ 12) c"
    if "c \<noteq> 0"
    by (rule find_in_range_flags_sound [OF assms(1,3-5) _ c that]) simp
  then show ?thesis using c by (auto simp: memblock_find_in_range_def page area_ok_def)
qed

lemma double_array_addr_total:
  assumes ok: "mb_ok st" "mb_fits st" "mb_small st" "\<not> slab_is_available env"
    and area: "PAGE_SIZE \<le> b" "b + s \<le> U64_MAX" "0 < s"
  shows "\<exists>addr. double_array_addr env st RESERVED b s size1 nsz = Inr addr \<and>
    (addr \<noteq> 0 \<longrightarrow> free_range st MEMBLOCK_NONE addr (addr + nsz) \<and> (addr + nsz \<le> b \<or> b + s \<le> addr))"
proof -
  let ?lim = "current_limit st"
  have lim: "?lim \<le> U64_MAX" using ok(2) by (simp add: mb_fits_def)
  have add: "add64 b s = b + s" using area(2) by (rule add64_exact)
  obtain x where x: "memblock_find_in_range env st (b + s) ?lim nsz PAGE_SIZE = Inr x"
    "x \<noteq> 0 \<longrightarrow> b + s \<le> x"
    using find_in_range_total [OF ok(1,3) lim area(2) lim, of env nsz] by auto
  have low: "min b ?lim \<le> U64_MAX" using lim by simp
  obtain y where y: "memblock_find_in_range env st 0 (min b ?lim) nsz PAGE_SIZE = Inr y"
    "y \<noteq> 0 \<longrightarrow> y + nsz \<le> max PAGE_SIZE (if min b ?lim = 0 then ?lim else min b ?lim)"
    using find_in_range_total [OF ok(1,3) lim zero_le low, of env nsz] by (auto simp: MEMBLOCK_ALLOC_ACCESSIBLE_def)
  have y': "y + nsz \<le> b" if "y \<noteq> 0" 
    using y(2) that area(1) by (auto simp: PAGE_SIZE_def PAGE_SHIFT_def min_def split: if_splits)
  let ?addr = "if x = 0 then y else x"
  have run: "double_array_addr env st RESERVED b s size1 nsz = Inr ?addr"
    using x(1) y(1) ok(4) area(3) by (simp add: double_array_addr_def add)
  moreover have "free_range st MEMBLOCK_NONE ?addr (?addr + nsz)" if "?addr \<noteq> 0"
    by (rule double_array_addr_ok [OF ok(1,2,4) run that])
  ultimately show ?thesis using x(2) y' by (intro exI [of _ ?addr]) simp
qed

section \<open>Moving the array of reserved regions\<close>

text \<open>Releasing the old array, if memblock had allocated it, fits in the doubled one.\<close>

lemma release_old_array:
  assumes ok: "mb_ok st" and room: "cnt (reserved st) + 2 \<le> max_cnt (reserved st)"
    and old: "\<forall>a. old = Some a \<longrightarrow> a \<le> U64_MAX"
  shows "\<exists>t. (if c then Inr st else case old of None \<Rightarrow> Inr st
      | Some a \<Rightarrow> rbind (memblock_remove_range (Suc n) env st RESERVED a osz) (\<lambda>(_, st'). Inr st')) =
      (Inr (put_type RESERVED t st) :: memblock res) \<and>
    type_ok t \<and> max_cnt t = max_cnt (reserved st) \<and> cnt t \<le> cnt (reserved st) + 2 \<and>
    (\<forall>a. res_map st a = None \<longrightarrow> tmap t a = None)"
proof (cases "c \<or> old = None")
  case True
  then show ?thesis using ok by (intro exI [of _ "reserved st"]) (auto simp: mb_ok_def)
next
  case False
  then obtain a where a: "old = Some a" "\<not> c" by auto
  have "a \<le> U64_MAX" using old a(1) by simp
  then obtain t where "memblock_remove_range (Suc n) env st RESERVED a osz = Inr (0, put_type RESERVED t st)" "type_ok t"
    "tmap t = carve (res_map st) a (cap_end a osz)" "same_frame (reserved st) t" "cnt t \<le> cnt (reserved st) + 2"
    using remove_range_exact [OF ok, of a RESERVED n env osz] room by auto
  with a show ?thesis by (intro exI [of _ t]) (auto simp: same_frame_def carve_def)
qed

text \<open>Reserving an area that is free takes one more entry.\<close>

lemma reserve_free_area:
  assumes "mb_ok st" and "b + s \<le> U64_MAX" and "\<forall>a. b \<le> a \<and> a < b + s \<longrightarrow> res_map st a = None"
    and "cnt (reserved st) < max_cnt (reserved st)"
  shows "\<exists>t. memblock_add_range (Suc n) env st RESERVED b s f = Inr (0, put_type RESERVED t st) \<and> type_ok t \<and>
    tmap t = fill (res_map st) b (b + s) f \<and> max_cnt t = max_cnt (reserved st) \<and> cnt t \<le> Suc (cnt (reserved st))"
proof (cases "s = 0")
  case True
  have "put_type RESERVED (reserved st) st = st" by simp
  then have "memblock_add_range (Suc n) env st RESERVED b s f = Inr (0, put_type RESERVED (reserved st) st)"
    using True by (simp add: memblock_add_range_def add_range_with_def memblock_cap_size_def)
  then show ?thesis using True assms(1) by (intro exI [of _ "reserved st"]) (simp add: mb_ok_def fill_empty)
next
  case False
  have c: "cap_end b s = b + s" "b \<le> U64_MAX" using assms(2) by (simp_all add: cap_end_def)
  have len: "length (add_rs (b + s) g b (live (reserved st))) \<le> Suc (cnt (reserved st))" for g
    using reserve_disjoint_cnt [OF _ _ assms(3)] assms(1) False by (simp add: mb_ok_def)
  have "room_for (get_type RESERVED st) b (cap_end b s)"
    using len [of 0] assms(4) by (simp add: room_for_def c(1))
  from add_range_exact [OF assms(1) c(2) this, of n env f] show ?thesis
    using len [of f] by (auto simp: c(1) same_frame_def intro: order_trans)
qed

lemma double_array_move_total:
  assumes ok: "mb_ok st" "mb_fits st" "\<not> slab_is_available env" and big: "4 \<le> max_cnt (reserved st)"
    and area: "free_range st MEMBLOCK_NONE addr (addr + nsz)" "addr + nsz \<le> 2 ^ 56" "0 < nsz"
  shows "\<exists>t. double_array_move (Suc n) (memblock_double_array (Suc n) env) env st RESERVED addr osz nsz =
      Inr (0, put_in_slab RESERVED False (put_type RESERVED t st)) \<and>
    type_ok t \<and> max_cnt t = 2 * max_cnt (reserved st) \<and> cnt t \<le> max_cnt (reserved st) + 3 \<and>
    (\<forall>a. res_map st a = None \<and> \<not> (addr \<le> a \<and> a < addr + nsz) \<longrightarrow> tmap t a = None) \<and> tmap t addr \<noteq> None"
proof -
  let ?t = "reserved st" and ?st1 = "put_type RESERVED (doubled (reserved st) addr) st"
  have t: "type_ok ?t" "type_fits ?t" using ok by (simp_all add: mb_ok_def mb_fits_def)
  have d: "cnt (doubled ?t addr) = cnt ?t" "max_cnt (doubled ?t addr) = 2 * max_cnt ?t" by (simp_all add: doubled_def)
  have le: "cnt ?t \<le> max_cnt ?t" using t(1) by (simp add: type_ok_def arr_ok_def)
  have st1: "mb_ok ?st1" using ok(1) doubled_ok(1) [OF t(1)] by (rule mb_ok_put)
  have old: "\<forall>a. regions_at ?t = Some a \<longrightarrow> a \<le> U64_MAX" using t(2) by (simp add: type_fits_def)
  have room: "cnt (reserved ?st1) + 2 \<le> max_cnt (reserved ?st1)" using le big by (simp add: d)
  obtain t2 where t2: "(if get_in_slab RESERVED st then Inr ?st1 else case regions_at ?t of None \<Rightarrow> Inr ?st1
        | Some a \<Rightarrow> rbind (memblock_remove_range (Suc n) env ?st1 RESERVED a osz) (\<lambda>(_, st'). Inr st')) =
        (Inr (put_type RESERVED t2 ?st1) :: memblock res)" "type_ok t2" "max_cnt t2 = 2 * max_cnt ?t"
      "cnt t2 \<le> cnt ?t + 2" "\<forall>a. res_map st a = None \<longrightarrow> tmap t2 a = None"
    using release_old_array [OF st1 room old, of "get_in_slab RESERVED st" n env osz] doubled_ok(2) [OF t(1)]
    by (auto simp: d)
  let ?st2 = "put_type RESERVED t2 ?st1"
  have st2: "mb_ok ?st2" by (rule mb_ok_put [OF st1 t2(2)])
  have free2: "\<forall>a. addr \<le> a \<and> a < addr + nsz \<longrightarrow> res_map ?st2 a = None"
    using area(1) t2(5) by (simp add: free_range_def)
  have U: "addr + nsz \<le> U64_MAX" using area(2) by (simp add: U64_MAX_def)
  obtain t3 where t3: "memblock_add_range (Suc n) env ?st2 RESERVED addr nsz 0 = Inr (0, put_type RESERVED t3 ?st2)"
      "type_ok t3" "tmap t3 = fill (tmap t2) addr (addr + nsz) 0" "max_cnt t3 = 2 * max_cnt ?t"
      "cnt t3 \<le> Suc (cnt t2)"
    using reserve_free_area [OF st2 U free2, of n env 0] t2(3,4) le big by auto
  have "double_array_move (Suc n) (memblock_double_array (Suc n) env) env st RESERVED addr osz nsz =
      Inr (0, put_in_slab RESERVED False (put_type RESERVED t3 st))"
    using t3(1) ok(3)
    unfolding double_array_move_def Let_def get_type.simps t2(1) [unfolded memblock_remove_range_def] rbind_simps
    by (simp add: memblock_add_range_def del: memblock_double_array.simps)
  moreover have "cnt t3 \<le> max_cnt ?t + 3" using t3(5) t2(4) le by linarith
  moreover have "tmap t3 addr \<noteq> None" using area(3) by (simp add: t3(3) fill_def split: option.split)
  moreover have "tmap t3 a = None" if "res_map st a = None \<and> \<not> (addr \<le> a \<and> a < addr + nsz)" for a
    using that t2(5) by (auto simp: t3(3) fill_def)
  ultimately show ?thesis using t3(2,4) by blast
qed

section \<open>Doubling the array for an allocation\<close>

lemma double_reserved_total:
  assumes ok: "mb_ok st" "mb_fits st" "mb_small st" "\<not> slab_is_available env" and big: "4 \<le> max_cnt (reserved st)"
    and area: "PAGE_SIZE \<le> b" "b + s \<le> U64_MAX" "0 < s" "\<forall>a. b \<le> a \<and> a < b + s \<longrightarrow> res_map st a = None"
  shows "memblock_double_array (Suc (Suc n)) env st RESERVED b s = Inr (-1, st) \<or>
    (\<exists>t. memblock_double_array (Suc (Suc n)) env st RESERVED b s =
        Inr (0, put_in_slab RESERVED False (put_type RESERVED t st)) \<and>
      type_ok t \<and> max_cnt t = 2 * max_cnt (reserved st) \<and> cnt t < max_cnt t \<and> live t \<noteq> [empty_region] \<and>
      (\<forall>a. b \<le> a \<and> a < b + s \<longrightarrow> tmap t a = None))"
proof -
  let ?old = "(max_cnt (get_type RESERVED st) * SIZEOF_MEMBLOCK_REGION) mod 2 ^ 64"
  let ?new = "(?old * 2) mod 2 ^ 64"
  obtain addr where a: "double_array_addr env st RESERVED b s ?new (PAGE_ALIGN ?new) = Inr addr"
    "addr \<noteq> 0 \<longrightarrow> free_range st MEMBLOCK_NONE addr (addr + PAGE_ALIGN ?new) \<and>
       (addr + PAGE_ALIGN ?new \<le> b \<or> b + s \<le> addr)"
    using double_array_addr_total [OF ok area(1-3), of ?new "PAGE_ALIGN ?new"] by blast
  have run: "memblock_double_array (Suc (Suc n)) env st RESERVED b s =
      (if \<not> can_resize st \<or> addr = 0 then Inr (-1, st)
       else double_array_move (Suc n) (memblock_double_array (Suc n) env) env st RESERVED addr
              (PAGE_ALIGN ?old) (PAGE_ALIGN ?new))"
    unfolding memblock_double_array.simps(2) [of "Suc n"] Let_def a(1) rbind_simps 
    by (cases "can_resize st"; cases "addr = 0"; simp only: simp_thms if_True if_False)
  show ?thesis
  proof (cases "\<not> can_resize st \<or> addr = 0")
    case True
    then show ?thesis using run by simp
  next
    case False
    have "max_cnt (get_type RESERVED st) \<le> 2 ^ 52"
      using mb_fits_get [OF ok(2), of RESERVED] by (simp add: type_fits_def)
    then have "?new = max_cnt (reserved st) * 48" "?new \<le> 2 ^ 60" by (simp_all add: SIZEOF_MEMBLOCK_REGION_def)
    then have pos: "0 < PAGE_ALIGN ?new" using PAGE_ALIGN_ge [of ?new] big by simp
    have f: "free_range st MEMBLOCK_NONE addr (addr + PAGE_ALIGN ?new)"
      "addr + PAGE_ALIGN ?new \<le> b \<or> b + s \<le> addr" using a(2) False by simp_all
    obtain t where t: "memblock_double_array (Suc (Suc n)) env st RESERVED b s =
        Inr (0, put_in_slab RESERVED False (put_type RESERVED t st))"
      "type_ok t" "max_cnt t = 2 * max_cnt (reserved st)" "cnt t \<le> max_cnt (reserved st) + 3" "tmap t addr \<noteq> None"
      "\<forall>a. res_map st a = None \<and> \<not> (addr \<le> a \<and> a < addr + PAGE_ALIGN ?new) \<longrightarrow> tmap t a = None"
      using double_array_move_total [OF ok(1,2,4) big f(1) mem_range_bound [OF ok(2) f(1) pos] pos, of n "PAGE_ALIGN ?old"]
        run False by auto
    have "live t \<noteq> [empty_region]" using t(5) by (metis amap_dummy)
    moreover have "tmap t a = None" if "b \<le> a \<and> a < b + s" for a
    proof -
      have "\<not> (addr \<le> a \<and> a < addr + PAGE_ALIGN ?new)" using f(2) that by linarith
      then show ?thesis using t(6) area(4) that by blast
    qed
    moreover have "cnt t < max_cnt t" using t(3,4) big by linarith
    ultimately show ?thesis using t(1-3) by blast
  qed
qed

text \<open>The reservation of a free area: room, or one doubling, or no change and \<open>-ENOMEM\<close>.\<close>

lemma reserve_total:
  assumes ok: "mb_ok st" "mb_fits st" "mb_small st" "\<not> slab_is_available env" and big: "4 \<le> max_cnt (reserved st)"
    and area: "PAGE_SIZE \<le> b" "b + s \<le> U64_MAX" "\<forall>a. b \<le> a \<and> a < b + s \<longrightarrow> res_map st a = None"
  shows "(\<exists>st'. memblock_reserve (Suc (Suc n)) env st b s = Inr (0, st')) \<or>
    memblock_reserve (Suc (Suc n)) env st b s = Inr (- ENOMEM, st) \<and> cnt (reserved st) = max_cnt (reserved st)"
proof (cases "s = 0 \<or> cnt (reserved st) < max_cnt (reserved st)")
  case True
  then show ?thesis
  proof
    assume "s = 0"
    then show ?thesis
      by (simp add: memblock_reserve_def memblock_add_range_def add_range_with_def memblock_cap_size_def)
  next
    assume "cnt (reserved st) < max_cnt (reserved st)"
    from reserve_free_area [OF ok(1) area(2,3) this, of "Suc n" env 0] show ?thesis
      by (auto simp: memblock_reserve_def)
  qed
next
  case False
  let ?t = "reserved st" and ?dbl = "memblock_double_array (Suc (Suc n)) env"
  have t: "type_ok ?t" using ok(1) by (simp add: mb_ok_def)
  have s: "0 < s" and full: "cnt ?t = max_cnt ?t" using False t by (simp_all add: type_ok_def arr_ok_def)
  have c: "cap_end b s = b + s" "b \<le> U64_MAX" using area(2) by (simp_all add: cap_end_def)
  note cap = cap_size_eq [OF c(2), of s, unfolded c(1)]
  have ne: "live ?t \<noteq> [empty_region]" using length_live [OF type_ok_arr [OF t]] full big by auto
  define nr where "nr = length (add_rs (b + s) 0 b (live ?t)) - cnt ?t"
  have p: "memblock_add_pass False ?t b (b + s) 0 = Inr (nr, ?t)"
    using add_pass_count [OF t ne] by (simp add: nr_def)
  have nr: "nr \<le> 1" using reserve_disjoint_cnt [OF t _ area(3), of 0] s by (simp add: nr_def)
  define g where "g = grow_with (Suc (Suc n)) ?dbl st RESERVED nr b s"
  have run: "memblock_reserve (Suc (Suc n)) env st b s =
      (if nr = 0 then Inr (0, st)
       else rbind g (\<lambda>(ret, st1). if ret < 0 then Inr (- ENOMEM, st1)
         else rbind (add_tail (reserved st1) b (b + s) 0) (\<lambda>t2. Inr (0, put_type RESERVED t2 st1))))"
    using s not_dummy(1) [OF t] ne p cap
    by (simp add: memblock_reserve_def memblock_add_range_def add_range_with_def Let_def add_tail_eq g_def
        cong: if_cong del: grow_with.simps memblock_double_array.simps)
  show ?thesis
  proof (cases "nr = 0")
    case True
    then show ?thesis using run by simp
  next
    case nz: False
    from double_reserved_total [OF ok big area(1,2) s area(3), of n] show ?thesis
    proof
      assume "?dbl st RESERVED b s = Inr (-1, st)"
      then have "g = Inr (- ENOMEM, st)" using full nz by (simp add: g_def del: memblock_double_array.simps)
      then show ?thesis using run nz full by (simp add: ENOMEM_def)
    next
      assume "\<exists>t. ?dbl st RESERVED b s = Inr (0, put_in_slab RESERVED False (put_type RESERVED t st)) \<and>
        type_ok t \<and> max_cnt t = 2 * max_cnt (reserved st) \<and> cnt t < max_cnt t \<and> live t \<noteq> [empty_region] \<and>
        (\<forall>a. b \<le> a \<and> a < b + s \<longrightarrow> tmap t a = None)"
      then obtain t1 where d: "?dbl st RESERVED b s = Inr (0, put_in_slab RESERVED False (put_type RESERVED t1 st))"
        and t1: "type_ok t1" "cnt t1 < max_cnt t1" "live t1 \<noteq> [empty_region]"
          "\<forall>a. b \<le> a \<and> a < b + s \<longrightarrow> tmap t1 a = None" by blast
      have g: "g = Inr (0, put_in_slab RESERVED False (put_type RESERVED t1 st))"
        using d full nz nr t1(2) by (simp add: g_def del: memblock_double_array.simps)
      have "room_for t1 b (b + s)"
        using reserve_disjoint_cnt [OF t1(1) _ t1(4), of 0] s t1(2) by (simp add: room_for_def)
      from add_tail_room [OF t1(1,3) area(2) this] obtain t2 where "add_tail t1 b (b + s) 0 = Inr t2" by blast
      then show ?thesis using run nz g by simp
    qed
  qed
qed

lemma alloc_range_total:
  assumes ok: "mb_ok st" "mb_fits st" "mb_small st" "\<not> slab_is_available env" and big: "4 \<le> max_cnt (reserved st)"
    and args: "start \<le> U64_MAX" "end \<le> U64_MAX" "k < 64" and fuel: "2 \<le> n"
  shows "\<exists>p st'. memblock_alloc_range n env st sz (2 ^ k) start end flags = Inr (p, st') \<and>
    (p = 0 \<longrightarrow> st' = st \<and> (cnt (reserved st) < max_cnt (reserved st) \<longrightarrow>
       memblock_find_in_range_flags env st sz (2 ^ k) start end flags = Inr 0))"
proof -
  obtain m where n: "n = Suc (Suc m)" using fuel by (metis add_2_eq_Suc le_Suc_ex)
  have lim: "current_limit st \<le> U64_MAX" using ok(2) by (simp add: mb_fits_def)
  obtain c where c: "memblock_find_in_range_flags env st sz (2 ^ k) start end flags = Inr c"
    using find_in_range_flags_ends [OF ok(1,3)] by blast
  show ?thesis
  proof (cases "c = 0")
    case True
    then show ?thesis using c by (simp add: memblock_alloc_range_def)
  next
    case False
    note a = find_in_range_flags_sound [OF ok(1) lim args c False, unfolded area_ok_def]
    have area: "PAGE_SIZE \<le> c" "c + sz \<le> U64_MAX" "\<forall>a. c \<le> a \<and> a < c + sz \<longrightarrow> res_map st a = None"
      using a args lim by (auto simp: free_range_def PAGE_SIZE_def PAGE_SHIFT_def U64_MAX_def split: if_splits)
    from reserve_total [OF ok big area, of m] show ?thesis
      unfolding n [symmetric] using c False by (auto simp: memblock_alloc_range_def ENOMEM_def)
  qed
qed

section \<open>Properties\<close>

text \<open>A state whose array of reserved regions is full and may grow.\<close>

definition demo_grow :: memblock where
  "demo_grow = demo_mb\<lparr>can_resize := True,
     reserved := \<lparr>cnt = 4, max_cnt = 4, total_size = 0x400,
       regions = [\<lparr>rg_base = 0x14000, rg_size = 0x100, rg_flags = 0\<rparr>, \<lparr>rg_base = 0x15000, rg_size = 0x100, rg_flags = 0\<rparr>,
         \<lparr>rg_base = 0x16000, rg_size = 0x100, rg_flags = 0\<rparr>, \<lparr>rg_base = 0x17000, rg_size = 0x100, rg_flags = 0\<rparr>],
       regions_at = None\<rparr>\<rparr>"

lemma demo_grow_live:
  "live (memory demo_grow) = live (memory demo_mb)" "live (reserved demo_grow) = regions (reserved demo_grow)"
  by (simp_all add: demo_grow_def live_def)

lemma demo_grow_ok: "mb_ok demo_grow" "mb_fits demo_grow" "mb_small demo_grow" "\<not> slab_is_available demo_env"
  "4 \<le> max_cnt (reserved demo_grow)"
  using demo_ok demo_fits
  by (simp_all add: mb_ok_def mb_fits_def mb_small_def type_ok_def tot_ok_def demo_grow_live)
    (simp_all add: demo_grow_def demo_mb_def demo_env_def arr_ok_def type_fits_def rg_valid_def rg_before_def
      U64_MAX_def live_def empty_region_def)

text \<open>
  C5: before the slab allocator is up, an allocation always returns, with a bound of two on
  the depth of the recursion, also when the array of reserved regions is full and has to
  grow.  It keeps the invariant and the memory map.  A block it hands out is aligned, within
  the bounds, was free memory before and is reserved afterwards.  A failure changes nothing,
  and while the array has a free entry it fails only when the search finds no free area.
\<close>

theorem alloc_range_correct:
  assumes "mb_ok st" and "mb_fits st" and "mb_small st" and "\<not> slab_is_available env"
    and "4 \<le> max_cnt (reserved st)" and "start \<le> U64_MAX" and "end \<le> U64_MAX" and "k < 64" and "2 \<le> n"
  shows "\<exists>p st'. memblock_alloc_range n env st sz (2 ^ k) start end flags = Inr (p, st') \<and>
    mb_ok st' \<and> mb_fits st' \<and> mem_map st' = mem_map st \<and>
    (p \<noteq> 0 \<longrightarrow>
       2 ^ k dvd p \<and> max start PAGE_SIZE \<le> p \<and>
       p + sz \<le> max (max start PAGE_SIZE) (if end = MEMBLOCK_ALLOC_ACCESSIBLE then current_limit st else end) \<and>
       free_range st flags p (p + sz) \<and>
       (\<forall>a. p \<le> a \<and> a < p + sz \<longrightarrow> res_map st' a \<noteq> None)) \<and>
    (p = 0 \<longrightarrow> st' = st \<and> (cnt (reserved st) < max_cnt (reserved st) \<longrightarrow>
       memblock_find_in_range_flags env st sz (2 ^ k) start end flags = Inr 0))"
proof -
  obtain p st' where r: "memblock_alloc_range n env st sz (2 ^ k) start end flags = Inr (p, st')"
    and z: "p = 0 \<longrightarrow> st' = st \<and> (cnt (reserved st) < max_cnt (reserved st) \<longrightarrow>
       memblock_find_in_range_flags env st sz (2 ^ k) start end flags = Inr 0)"
    using alloc_range_total [OF assms] by blast
  show ?thesis
    using alloc_range_ok [OF assms(1,2,4,6-8) r] r z by (intro exI [of _ p] exI [of _ st']) (simp add: area_ok_def)
qed

theorem alloc_range_correct_witness:
  "\<exists>st'. memblock_alloc_range 2 demo_env demo_grow 0x2000 (2 ^ 12) 0 0x20000 0 = Inr (0x1e000, st') \<and>
    mb_ok st' \<and> max_cnt (reserved st') = 8 \<and> regions_at (reserved st') = Some 0x1d000 \<and>
    free_range demo_grow 0 0x1e000 0x20000 \<and> res_map st' 0x1ffff \<noteq> None \<and> res_map st' 0x1d000 \<noteq> None"
proof -
  have run: "map_sum id (\<lambda>(p, st). (p, max_cnt (reserved st), regions_at (reserved st), res_map st 0x1d000))
      (memblock_alloc_range 2 demo_env demo_grow 0x2000 (2 ^ 12) 0 0x20000 0) = Inr (0x1e000, 8, Some 0x1d000, Some 0)"
    by code_simp
  obtain p st' where r: "memblock_alloc_range 2 demo_env demo_grow 0x2000 (2 ^ 12) 0 0x20000 0 = Inr (p, st')"
    "mb_ok st'" "p \<noteq> 0 \<longrightarrow> free_range demo_grow 0 p (p + 0x2000) \<and> (\<forall>a. p \<le> a \<and> a < p + 0x2000 \<longrightarrow> res_map st' a \<noteq> None)"
    using alloc_range_correct [OF demo_grow_ok, of 0 "0x20000" 12 2 "0x2000" 0] by (auto simp: U64_MAX_def)
  have "p = 0x1e000" "max_cnt (reserved st') = 8" "regions_at (reserved st') = Some 0x1d000" "res_map st' 0x1d000 = Some 0"
    using run r(1) by simp_all
  with r show ?thesis by auto
qed

end
