(* ===== verification/Memblock_Fuel.thy ===== *)
theory Memblock_Fuel
  imports Memblock_Total
begin

text \<open>
  The bound on the recursion of \<^verbatim>\<open>memblock_double_array\<close> does not matter to a call that
  returns: a larger bound gives the same result.  And as long as the arrays may not be
  resized, which is so until \<^verbatim>\<open>memblock_allow_resize\<close> is called, every operation returns.
\<close>

section \<open>Running out of fuel, or the same result\<close>

definition fle :: "'a res \<Rightarrow> 'a res \<Rightarrow> bool" where
  "fle x y \<longleftrightarrow> x = Inl Fuel \<or> x = y"

named_theorems fuel_mono \<open>results that only depend on the fuel by running out of it\<close>

lemma fle_refl [simp, fuel_mono]: "fle x x"
  by (simp add: fle_def)

lemma fle_fuel [simp]: "fle (Inl Fuel) x"
  by (simp add: fle_def)

lemma fle_Inr: "fle (Inr x) y \<longleftrightarrow> y = Inr x"
  by (auto simp: fle_def)

lemma fle_rbind [fuel_mono]:
  assumes "fle x y" and "\<And>a. fle (f a) (g a)"
  shows "fle (rbind x f) (rbind y g)"
proof (cases "x = Inl Fuel")
  case False
  then have "y = x" using assms(1) by (auto simp: fle_def)
  then show ?thesis using assms(2) by (cases x) simp_all
qed simp

lemma fle_if [fuel_mono]: "fle x x' \<Longrightarrow> fle y y' \<Longrightarrow> fle (if b then x else y) (if b then x' else y')"
  by simp

lemma fle_prod [fuel_mono]: "(\<And>a b. fle (f a b) (g a b)) \<Longrightarrow> fle (case p of (a, b) \<Rightarrow> f a b) (case p of (a, b) \<Rightarrow> g a b)"
  by (cases p) simp

lemma fle_option [fuel_mono]:
  "fle x y \<Longrightarrow> (\<And>a. fle (f a) (g a)) \<Longrightarrow>
   fle (case m of None \<Rightarrow> x | Some a \<Rightarrow> f a) (case m of None \<Rightarrow> y | Some a \<Rightarrow> g a)"
  by (cases m) simp_all

definition dle :: "double_fun \<Rightarrow> double_fun \<Rightarrow> bool" where
  "dle d d' \<longleftrightarrow> (\<forall>st w b s. fle (d st w b s) (d' st w b s))"

lemma dle_fle: "dle d d' \<Longrightarrow> fle (d st w b s) (d' st w b s)"
  by (simp add: dle_def)

lemma grow_mono [fuel_mono]:
  "n \<le> m \<Longrightarrow> dle d d' \<Longrightarrow> fle (grow_with n d st w nr b s) (grow_with m d' st w nr b s)"
proof (induction n arbitrary: m st)
  case 0
  then show ?case by simp
next
  case (Suc n)
  then obtain k where k: "m = Suc k" "n \<le> k" by (cases m) auto
  show ?case unfolding k(1) grow_with.simps 
    by (intro fuel_mono dle_fle [OF Suc.prems(2)] Suc.IH [OF k(2) Suc.prems(2)])
qed

lemma add_range_mono [fuel_mono]:
  "n \<le> m \<Longrightarrow> dle d d' \<Longrightarrow> fle (add_range_with n d st w b s f) (add_range_with m d' st w b s f)"
  unfolding add_range_with_def Let_def by (intro fuel_mono | assumption)+

lemma isolate_range_mono [fuel_mono]:
  "n \<le> m \<Longrightarrow> dle d d' \<Longrightarrow> fle (isolate_range_with n d st w b s) (isolate_range_with m d' st w b s)"
  unfolding isolate_range_with_def Let_def by (intro fuel_mono | assumption)+

lemma remove_range_mono [fuel_mono]:
  "n \<le> m \<Longrightarrow> dle d d' \<Longrightarrow> fle (remove_range_with n d st w b s) (remove_range_with m d' st w b s)"
  unfolding remove_range_with_def Let_def by (intro fuel_mono | assumption)+

lemma double_array_mono [fuel_mono]: "n \<le> m \<Longrightarrow> dle (memblock_double_array n env) (memblock_double_array m env)"
proof (induction n arbitrary: m)
  case 0
  then show ?case by (simp add: dle_def)
next
  case (Suc n)
  then obtain k where k: "m = Suc k" "n \<le> k" by (cases m) auto
  show ?case unfolding k(1) dle_def memblock_double_array.simps double_array_move_def Let_def
    by (intro allI fuel_mono k(2) Suc.IH [OF k(2)])
qed

text \<open>So for every operation of the interface.\<close>

lemma interface_mono [fuel_mono]:
  assumes "n \<le> m"
  shows "fle (memblock_add_range n env st w b s f) (memblock_add_range m env st w b s f)"
    and "fle (memblock_remove_range n env st w b s) (memblock_remove_range m env st w b s)"
    and "fle (memblock_isolate_range n env st w b s) (memblock_isolate_range m env st w b s)"
  unfolding memblock_add_range_def memblock_remove_range_def memblock_isolate_range_def
  by (intro fuel_mono assms)+

lemma operations_mono [fuel_mono]:
  assumes "n \<le> m"
  shows "fle (memblock_add n env st b s) (memblock_add m env st b s)"
    and "fle (memblock_remove n env st b s) (memblock_remove m env st b s)"
    and "fle (memblock_reserve n env st b s) (memblock_reserve m env st b s)"
    and "fle (memblock_free n env st b s) (memblock_free m env st b s)"
    and "fle (memblock_setclr_flag n env st b s c f) (memblock_setclr_flag m env st b s c f)"
    and "fle (memblock_enforce_memory_limit n env st l) (memblock_enforce_memory_limit m env st l)"
    and "fle (memblock_cap_memory_range n env st b s) (memblock_cap_memory_range m env st b s)"
  unfolding memblock_add_def memblock_remove_def memblock_reserve_def memblock_free_def memblock_setclr_flag_def
    memblock_enforce_memory_limit_def memblock_cap_memory_range_def Let_def
  by (intro fuel_mono assms)+

lemma allocations_mono [fuel_mono]:
  assumes "n \<le> m"
  shows "fle (memblock_mem_limit_remove_map n env st l) (memblock_mem_limit_remove_map m env st l)"
    and "fle (memblock_alloc_range n env st s a lo hi f) (memblock_alloc_range m env st s a lo hi f)"
    and "fle (memblock_alloc_try_raw n env st s a lo hi) (memblock_alloc_try_raw m env st s a lo hi)"
  unfolding memblock_mem_limit_remove_map_def memblock_alloc_range_def memblock_alloc_try_raw_def
    memblock_alloc_internal_def memblock_alloc_attempt_def Let_def
  by (intro fuel_mono assms)+

section \<open>Arrays that may not be resized\<close>

lemma add_range_fixed:
  assumes "mb_ok st" and "\<not> can_resize st" and "base \<le> U64_MAX"
  shows "(\<exists>st'. memblock_add_range (Suc n) env st w base sz f = Inr (0, st')) \<or>
    memblock_add_range (Suc n) env st w base sz f = Inr (- ENOMEM, st)"
proof -
  let ?t = "get_type w st"
  consider (room) "room_for ?t base (cap_end base sz)" | (zero) "cap_end base sz \<le> base"
    | (first) "live ?t = [empty_region]" | (full) "base < cap_end base sz" "live ?t \<noteq> [empty_region]"
      "\<not> room_for ?t base (cap_end base sz)" by linarith
  then show ?thesis
  proof cases
    case room
    then show ?thesis using add_range_exact [OF assms(1,3) room, of n env f] by blast
  next
    case zero
    then show ?thesis
      using cap_size_eq(1) [OF assms(3), of sz] by (simp add: memblock_add_range_def add_range_with_def)
  next
    case first
    then show ?thesis
      using not_dummy(1) [OF mb_ok_get [OF assms(1), of w]] by (simp add: memblock_add_range_def add_range_with_def Let_def)
  next
    case full
    then show ?thesis using add_range_full [OF assms(1,2) full] by blast
  qed
qed

lemma isolate_range_fixed:
  assumes "mb_ok st" and "\<not> can_resize st" and "base \<le> U64_MAX"
  shows "memblock_isolate_range (Suc n) env st w base sz = Inr (0, 0, 0, st) \<or>
    base < cap_end base sz \<and> cnt (get_type w st) + 2 \<le> max_cnt (get_type w st) \<or>
    memblock_isolate_range (Suc n) env st w base sz = Inr (- ENOMEM, 0, 0, st)"
proof -
  let ?t = "get_type w st"
  note cap = cap_size_eq [OF assms(3), of sz]
  consider (zero) "cap_end base sz \<le> base" | (room) "base < cap_end base sz" "cnt ?t + 2 \<le> max_cnt ?t"
    | (full) "base < cap_end base sz" "max_cnt ?t < cnt ?t + 2" by linarith
  then show ?thesis
  proof cases
    case zero
    then show ?thesis using cap by (simp add: memblock_isolate_range_def isolate_range_with_def)
  next
    case room
    then show ?thesis by blast
  next
    case full
    have "grow_with (Suc n) (memblock_double_array (Suc n) env) st w 2 base (cap_end base sz - base) =
        Inr (- ENOMEM, st)"
      using full(2) assms(2) by simp
    then show ?thesis
      using full(1) cap by (simp add: memblock_isolate_range_def isolate_range_with_def Let_def ENOMEM_def
          del: grow_with.simps memblock_double_array.simps)
  qed
qed

lemma isolate_range_returns:
  assumes "mb_ok st" and "\<not> can_resize st" and "base \<le> U64_MAX"
  shows "\<exists>r i j st'. memblock_isolate_range (Suc n) env st w base sz = Inr (r, i, j, st')"
  using isolate_range_fixed [OF assms, of n env w sz] isolate_range_exact [OF assms(1,3), of w sz n env] by blast

lemma remove_range_fixed:
  assumes "mb_ok st" and "\<not> can_resize st" and "base \<le> U64_MAX"
  shows "\<exists>r st'. memblock_remove_range (Suc n) env st w base sz = Inr (r, st')"
proof -
  obtain r i j st1 where "memblock_isolate_range (Suc n) env st w base sz = Inr (r, i, j, st1)"
    using isolate_range_returns [OF assms] by blast
  then show ?thesis
    by (simp add: memblock_remove_range_def memblock_isolate_range_def remove_range_with_def
        del: memblock_double_array.simps)
qed

end
