(* ===== verification/Memblock_Reach.thy ===== *)
theory Memblock_Reach
  imports Memblock_Fuel
begin

text \<open>
  The calls of the interface of \<^verbatim>\<open>mm/memblock.c\<close> that change its state, and the states that
  sequences of them reach.
\<close>

section \<open>\<^verbatim>\<open>memblock_cap_memory_range\<close>\<close>

lemma remove_none [simp]: "memblock_remove_regions t i i = t"
  by (cases i) simp_all

lemma length_or_empty: "0 < length (or_empty rs)" "length rs \<le> length (or_empty rs)"
  by (simp_all add: or_empty_def)

lemma remove_region_ok:
  assumes t: "type_ok t" and i: "i < cnt t"
  shows "type_ok (memblock_remove_region t i) \<and> same_frame t (memblock_remove_region t i) \<and>
    cnt t \<le> Suc (cnt (memblock_remove_region t i)) \<and>
    (\<forall>a f. tmap (memblock_remove_region t i) a = Some f \<longrightarrow> tmap t a = Some f)"
  using t
proof (cases rule: type_ok_cases)
  case dummy
  let ?t = "memblock_remove_region t i"
  have i0: "i = 0" using i dummy(2) by simp
  have tot: "total_size t = 0" using t dummy by (simp add: type_ok_def tot_ok_def empty_region_def)
  note r = remove_region_live [OF type_ok_arr [OF t] i]
  have l: "live ?t = [empty_region]" "total_size ?t = 0"
    using r(3,4) dummy i0 tot by (simp_all add: sub64_def empty_region_def)
  have "cnt ?t = 1" using length_live [OF r(1)] l(1) by simp
  then show ?thesis
    using r l dummy by (simp add: type_ok_def tot_ok_def same_frame_def empty_region_def)
next
  case regions
  let ?t = "memblock_remove_region t i" and ?L = "take i (live t)" and ?H = "drop (Suc i) (live t)"
  have arr: "arr_ok t" using t by (rule type_ok_arr)
  have split: "live t = ?L @ [live t ! i] @ ?H" using i arr by (simp add: id_take_nth_drop)
  have len: "length ?L = i" using i arr by simp
  have whole: "rgs_ok (?L @ [live t ! i] @ ?H)" using regions by (simp only: split [symmetric])
  have ok: "rgs_ok (?L @ ?H)" "rgs_ok [live t ! i]"
    using whole by simp_all
  have r: "arr_ok ?t" "tot_ok ?t" "same_frame t ?t" "live ?t = or_empty (?L @ ?H)"
    using remove_regions_live [OF arr _ split _ ok(2)] t len by (simp_all add: Let_def type_ok_def)
  have rest: "length (?L @ ?H) = cnt t - 1" using i arr by simp
  have c: "0 < cnt ?t" "cnt t \<le> Suc (cnt ?t)"
    using length_or_empty [of "?L @ ?H"] length_live [OF r(1)] rest unfolding r(4) by linarith+
  have "tmap t a = Some f" if a: "tmap ?t a = Some f" for a f
  proof -
    have "amap (?L @ ?H) a = Some f" using a r(4) by simp
    then obtain x where "x \<in> set (?L @ ?H)" "f = rg_flags x" "rg_base x \<le> a" "a < rg_base x + rg_size x"
      using amap_Some_flags by blast
    moreover from this have "x \<in> set (live t)" by (auto dest: in_set_takeD in_set_dropD)
    ultimately show ?thesis using rgs_ok_amap [OF regions] by blast
  qed
  moreover have "live ?t = [empty_region] \<or> rgs_ok (live ?t)" 
    unfolding r(4) or_empty_def using ok(1) by (cases "?L @ ?H = []") (simp_all only: if_True if_False simp_thms)
  ultimately show ?thesis unfolding type_ok_def using r(1-3) c by blast
qed

lemma remove_map_regions_ok:
  "type_ok t \<Longrightarrow> i \<le> cnt t \<Longrightarrow>
   type_ok (remove_map_regions t lo i) \<and> same_frame t (remove_map_regions t lo i) \<and>
   (lo \<le> cnt t \<longrightarrow> lo \<le> cnt (remove_map_regions t lo i)) \<and>
   (\<forall>a f. tmap (remove_map_regions t lo i) a = Some f \<longrightarrow> tmap t a = Some f)"
proof (induction i arbitrary: t)
  case 0
  then show ?case by simp
next
  case (Suc i)
  let ?t = "if memblock_is_nomap (regions t ! i) then t else memblock_remove_region t i"
  have r: "type_ok ?t" "same_frame t ?t" "cnt t \<le> Suc (cnt ?t)" "\<forall>a f. tmap ?t a = Some f \<longrightarrow> tmap t a = Some f"
    using remove_region_ok [OF Suc.prems(1), of i] Suc.prems by simp_all
  have "i \<le> cnt ?t" using r(3) Suc.prems(2) by linarith
  note ih = Suc.IH [OF r(1) this]
  show ?case
  proof (cases "lo \<le> i")
    case True
    then have "remove_map_regions t lo (Suc i) = remove_map_regions ?t lo i" by simp
    moreover have "lo \<le> cnt (remove_map_regions ?t lo i)" using ih \<open>i \<le> cnt ?t\<close> True by linarith
    ultimately show ?thesis using ih r(4) same_frame_trans [OF r(2)] by metis
  next
    case False
    then show ?thesis using Suc.prems(1) by simp
  qed
qed

text \<open>The state once the regions outside the range are gone.\<close>

definition capped :: "memblock \<Rightarrow> nat \<Rightarrow> nat \<Rightarrow> memblock" where
  "capped st i j = st\<lparr>memory := remove_map_regions (remove_map_regions (memory st) j (cnt (memory st))) 0 i\<rparr>"

lemma cap_memory_range_eq:
  assumes "sz \<noteq> 0" and "memblock_isolate_range n env st MEMORY base sz = Inr (r, i, j, st1)"
  shows "memblock_cap_memory_range n env st base sz =
    (if r \<noteq> 0 then Inr st1
     else rbind (memblock_remove_range n env (capped st1 i j) RESERVED 0 base)
       (\<lambda>(_, st3). rbind (memblock_remove_range n env st3 RESERVED (add64 base sz) U64_MAX) (\<lambda>(_, st4). Inr st4)))"
  using assms by (simp add: memblock_cap_memory_range_def capped_def Let_def)

lemma capped_ok:
  assumes ok: "mb_ok st" "mb_fits st" and base: "base \<le> U64_MAX" and slab: "\<not> slab_is_available env"
    and iso: "memblock_isolate_range n env st MEMORY base sz = Inr (r, i, j, st1)"
  shows "mb_ok st1 \<and> mb_fits st1 \<and> (r = 0 \<longrightarrow>
    mb_ok (capped st1 i j) \<and> mb_fits (capped st1 i j) \<and> same_settings st (capped st1 i j))"
proof -
  note isok = boot.isolate_range_ok [where env = env and n = n, unfolded no_slab_env [OF slab],
      OF ok base iso [unfolded memblock_isolate_range_def], unfolded get_type.simps]
  show ?thesis
  proof (cases "r = 0")
    case False
    then show ?thesis using isok by simp
  next
    case True
    let ?t1 = "remove_map_regions (memory st1) j (cnt (memory st1))"
    let ?t2 = "remove_map_regions ?t1 0 i"
    have st2: "capped st1 i j = put_type MEMORY ?t2 st1" by (simp add: capped_def)
    have t: "type_ok (memory st1)" "type_fits (memory st1)" using isok by (simp_all add: mb_ok_def mb_fits_def)
    have "i \<le> j" "j \<le> cnt (memory st1)"
      using isok True length_live [OF type_ok_arr [OF t(1)]] by (auto simp: isolated_def split: if_splits)
    then have m1: "type_ok ?t1" "same_frame (memory st1) ?t1" "i \<le> cnt ?t1"
      "\<forall>a f. tmap ?t1 a = Some f \<longrightarrow> tmap (memory st1) a = Some f"
      using remove_map_regions_ok [OF t(1) order_refl, of j] by simp_all
    note m2 = remove_map_regions_ok [OF m1(1,3), of 0]
    have "mb_ok (capped st1 i j)" unfolding st2 using isok m2 by (intro mb_ok_put) simp_all
    moreover have "mb_fits (capped st1 i j)"
      unfolding st2
    proof (rule mb_fits_put)
      have "same_frame (memory st1) ?t2" using m2 same_frame_trans [OF m1(2)] by blast
      then show "type_fits ?t2" using t(2) by (rule type_fits_frame)
      have "a < 2 ^ 56" if "tmap ?t2 a = Some f" for a f
      proof -
        have "mem_map st1 a \<noteq> None" using m1(4) m2 that by (metis option.discI)
        then show ?thesis using isok by (simp add: mb_fits_def)
      qed
      then show "MEMORY = MEMORY \<longrightarrow> (\<forall>a. tmap ?t2 a \<noteq> None \<longrightarrow> a < 2 ^ 56)" by blast
    qed (use isok in simp)
    moreover have "same_settings st (capped st1 i j)"
      unfolding st2 using isok same_settings_trans [OF _ put_settings(1)] by blast
    ultimately show ?thesis using isok by blast
  qed
qed

lemma cap_memory_range_ok:
  assumes ok: "mb_ok st" "mb_fits st" and base: "base \<le> U64_MAX" and slab: "\<not> slab_is_available env"
    and run: "memblock_cap_memory_range n env st base sz = Inr st'"
  shows "mb_ok st' \<and> mb_fits st'"
proof (cases "sz = 0")
  case True
  then show ?thesis using ok run by (simp add: memblock_cap_memory_range_def)
next
  case False
  obtain r i j st1 where iso: "memblock_isolate_range n env st MEMORY base sz = Inr (r, i, j, st1)"
    using run False by (auto simp: memblock_cap_memory_range_def rbind_Inr_iff)
  note eq = cap_memory_range_eq [OF False iso] and k = capped_ok [OF ok base slab iso]
  show ?thesis
  proof (cases "r = 0")
    case nz: False
    then show ?thesis using run eq k by simp
  next
    case True
    then obtain r3 st3 r4 where st3: "memblock_remove_range n env (capped st1 i j) RESERVED 0 base = Inr (r3, st3)"
      and r4: "memblock_remove_range n env st3 RESERVED (add64 base sz) U64_MAX = Inr (r4, st')"
      using run eq by (auto simp: rbind_Inr_iff)
    have "mb_ok st3" "mb_fits st3" using remove_range_grow [OF _ _ _ slab st3] k True by simp_all
    then show ?thesis using remove_range_grow [OF _ _ add64_bound slab r4] by blast
  qed
qed

lemma find_max_addr_le: "find_max_addr rs limit \<le> U64_MAX"
  by (induction rs arbitrary: limit) (simp_all add: add64_bound)

lemma enforce_memory_limit_ok:
  assumes ok: "mb_ok st" "mb_fits st" and slab: "\<not> slab_is_available env"
    and run: "memblock_enforce_memory_limit n env st limit = Inr st'"
  shows "mb_ok st' \<and> mb_fits st'"
proof -
  let ?m = "find_max_addr (take (cnt (memory st)) (regions (memory st))) limit"
  show ?thesis
  proof (cases "limit = 0 \<or> ?m = U64_MAX")
    case True
    then show ?thesis using ok run by (auto simp: memblock_enforce_memory_limit_def Let_def split: if_splits)
  next
    case False
    then obtain r1 st1 r2 where s: "memblock_remove_range n env st MEMORY ?m U64_MAX = Inr (r1, st1)"
      "memblock_remove_range n env st1 RESERVED ?m U64_MAX = Inr (r2, st')"
      using run by (auto simp: memblock_enforce_memory_limit_def rbind_Inr_iff Let_def)
    note r1 = remove_range_grow [OF ok find_max_addr_le slab s(1)]
    show ?thesis using remove_range_grow [OF _ _ find_max_addr_le slab s(2)] r1 by blast
  qed
qed

lemma mem_limit_remove_map_ok:
  assumes "mb_ok st" and "mb_fits st" and "\<not> slab_is_available env"
    and "memblock_mem_limit_remove_map n env st limit = Inr st'"
  shows "mb_ok st' \<and> mb_fits st'"
  using assms cap_memory_range_ok [OF assms(1,2) _ assms(3), of 0]
  by (auto simp: memblock_mem_limit_remove_map_def Let_def split: if_splits)

section \<open>The calls of the interface\<close>

text \<open>
  Every function that \<^verbatim>\<open>memblock.h\<close> declares and that changes the state, but for
  \<^verbatim>\<open>memblock_trim_memory\<close>, which nothing in the kernel calls and which is treated below.  The
  six functions that set or clear a flag are \<open>Setclr_flag\<close>; \<open>Alloc_range\<close> also stands for
  \<^verbatim>\<open>memblock_alloc_base\<close> and \<^verbatim>\<open>memblock_phys_alloc\<close>, and \<open>Alloc_try\<close> for \<^verbatim>\<open>memblock_alloc_try\<close>,
  its variants and the wrappers of the header, which all allocate by
  \<^verbatim>\<open>memblock_alloc_internal\<close>.
\<close>

datatype mb_call =
    Add_range which phys_addr phys_addr nat
  | Add phys_addr phys_addr
  | Remove phys_addr phys_addr
  | Reserve phys_addr phys_addr
  | Free phys_addr phys_addr
  | Setclr_flag phys_addr phys_addr bool nat
  | Alloc_range phys_addr phys_addr phys_addr phys_addr nat
  | Alloc_try phys_addr phys_addr phys_addr phys_addr
  | Enforce_memory_limit phys_addr
  | Cap_memory_range phys_addr phys_addr
  | Mem_limit_remove_map phys_addr
  | Set_current_limit phys_addr
  | Allow_resize
  | Set_bottom_up bool

fun mb_run :: "nat \<Rightarrow> memblock_env \<Rightarrow> mb_call \<Rightarrow> memblock \<Rightarrow> memblock res" where
  "mb_run n env (Add_range w b s f) st = rbind (memblock_add_range n env st w b s f) (\<lambda>(_, st'). Inr st')"
| "mb_run n env (Add b s) st = rbind (memblock_add n env st b s) (\<lambda>(_, st'). Inr st')"
| "mb_run n env (Remove b s) st = rbind (memblock_remove n env st b s) (\<lambda>(_, st'). Inr st')"
| "mb_run n env (Reserve b s) st = rbind (memblock_reserve n env st b s) (\<lambda>(_, st'). Inr st')"
| "mb_run n env (Free b s) st = rbind (memblock_free n env st b s) (\<lambda>(_, st'). Inr st')"
| "mb_run n env (Setclr_flag b s c f) st = rbind (memblock_setclr_flag n env st b s c f) (\<lambda>(_, st'). Inr st')"
| "mb_run n env (Alloc_range s a lo hi f) st = rbind (memblock_alloc_range n env st s a lo hi f) (\<lambda>(_, st'). Inr st')"
| "mb_run n env (Alloc_try s a lo hi) st = rbind (memblock_alloc_try_raw n env st s a lo hi) (\<lambda>(_, st'). Inr st')"
| "mb_run n env (Enforce_memory_limit l) st = memblock_enforce_memory_limit n env st l"
| "mb_run n env (Cap_memory_range b s) st = memblock_cap_memory_range n env st b s"
| "mb_run n env (Mem_limit_remove_map l) st = memblock_mem_limit_remove_map n env st l"
| "mb_run n env (Set_current_limit l) st = Inr (memblock_set_current_limit st l)"
| "mb_run n env Allow_resize st = Inr (memblock_allow_resize st)"
| "mb_run n env (Set_bottom_up b) st = Inr (memblock_set_bottom_up st b)"

text \<open>
  What a caller has to respect: addresses fit in 64 bits, memory is added below \<open>2 ^ 56\<close> (an
  arm64 physical address has at most 52 bits), and an alignment is 0 or a power of two.
\<close>

definition align_ok :: "phys_addr \<Rightarrow> bool" where
  "align_ok a \<longleftrightarrow> a = 0 \<or> (\<exists>k < 64. a = 2 ^ k)"

fun call_ok :: "mb_call \<Rightarrow> bool" where
  "call_ok (Add_range w b s f) \<longleftrightarrow> b \<le> U64_MAX \<and> (w = MEMORY \<longrightarrow> cap_end b s \<le> 2 ^ 56)"
| "call_ok (Add b s) \<longleftrightarrow> b \<le> U64_MAX \<and> cap_end b s \<le> 2 ^ 56"
| "call_ok (Remove b s) \<longleftrightarrow> b \<le> U64_MAX"
| "call_ok (Reserve b s) \<longleftrightarrow> b \<le> U64_MAX"
| "call_ok (Free b s) \<longleftrightarrow> b \<le> U64_MAX"
| "call_ok (Setclr_flag b s c f) \<longleftrightarrow> b \<le> U64_MAX"
| "call_ok (Alloc_range s a lo hi f) \<longleftrightarrow> align_ok a \<and> lo \<le> U64_MAX \<and> hi \<le> U64_MAX"
| "call_ok (Alloc_try s a lo hi) \<longleftrightarrow> align_ok a \<and> lo \<le> U64_MAX \<and> hi \<le> U64_MAX"
| "call_ok (Enforce_memory_limit l) \<longleftrightarrow> True"
| "call_ok (Cap_memory_range b s) \<longleftrightarrow> b \<le> U64_MAX"
| "call_ok (Mem_limit_remove_map l) \<longleftrightarrow> True"
| "call_ok (Set_current_limit l) \<longleftrightarrow> l \<le> U64_MAX"
| "call_ok Allow_resize \<longleftrightarrow> True"
| "call_ok (Set_bottom_up b) \<longleftrightarrow> True"

lemma mb_run_mono [fuel_mono]: "n \<le> m \<Longrightarrow> fle (mb_run n env c st) (mb_run m env c st)"
  by (cases c; simp only: mb_run.simps; intro fuel_mono; assumption)

lemma mb_run_more: "mb_run n env c st = Inr st' \<Longrightarrow> n \<le> m \<Longrightarrow> mb_run m env c st = Inr st'"
  using mb_run_mono [of n m env c st] by (simp add: fle_Inr)

text \<open>Allocation, with the alignment as the caller gives it.\<close>

lemma alloc_align:
  assumes "align_ok a"
  obtains k where "k < 64" "memblock_alloc_range n env st s a lo hi f = memblock_alloc_range n env st s (2 ^ k) lo hi f"
    "(if a = 0 then SMP_CACHE_BYTES else a) = 2 ^ k"
proof (cases "a = 0")
  case True
  then show thesis using that [of 6] by (simp add: memblock_alloc_range_def SMP_CACHE_BYTES_def)
next
  case False
  then obtain k where "k < 64" "a = 2 ^ k" using assms by (auto simp: align_ok_def)
  then show thesis using that [of k] False by simp
qed

lemma alloc_attempt_eq:
  "a \<noteq> 0 \<Longrightarrow> memblock_alloc_attempt n env st s a lo hi = memblock_alloc_range n env st s a lo hi choose_memblock_flags"
  by (simp add: memblock_alloc_attempt_def memblock_alloc_range_def)

lemma alloc_try_ok:
  assumes ok: "mb_ok st" "mb_fits st" and slab: "\<not> slab_is_available env"
    and args: "align_ok a" "lo \<le> U64_MAX" "hi \<le> U64_MAX"
    and run: "memblock_alloc_try_raw n env st s a lo hi = Inr (p, st')"
  shows "mb_ok st' \<and> mb_fits st'"
proof -
  obtain k where k: "k < 64" "(if a = 0 then SMP_CACHE_BYTES else a) = 2 ^ k" using alloc_align [OF args(1)] by metis
  define hi' where "hi' = (if hi > current_limit st then current_limit st else hi)"
  have hi': "hi' \<le> U64_MAX" using args(3) by (simp add: hi'_def)
  let ?a = "\<lambda>st lo. memblock_alloc_range n env st s (2 ^ k) lo hi' choose_memblock_flags"
  obtain q st1 where q: "?a st lo = Inr (q, st1)"
    and rest: "(if q \<noteq> 0 then Inr (q, st1) else if lo \<noteq> 0 then ?a st1 0 else Inr (0, st1)) = Inr (p, st')"
    using run slab unfolding memblock_alloc_try_raw_def memblock_alloc_internal_def Let_def hi'_def [symmetric] k(2)
    by (auto simp: rbind_Inr_iff alloc_attempt_eq cong: if_cong)
  note one = alloc_range_ok [OF ok slab args(2) hi' k(1) q]
  show ?thesis
  proof (cases "q = 0 \<and> lo \<noteq> 0")
    case True
    then have "?a st1 0 = Inr (p, st')" using rest by simp
    from alloc_range_ok [OF _ _ slab _ hi' k(1) this] show ?thesis using one by simp
  next
    case False
    then show ?thesis using rest one by (auto split: if_splits)
  qed
qed

lemma settings_keep [simp]:
  "mb_ok (memblock_set_current_limit st l) = mb_ok st"
  "l \<le> U64_MAX \<Longrightarrow> mb_fits st \<Longrightarrow> mb_fits (memblock_set_current_limit st l)"
  "mb_ok (memblock_allow_resize st) = mb_ok st" "mb_fits (memblock_allow_resize st) = mb_fits st"
  "mb_ok (memblock_set_bottom_up st b) = mb_ok st" "mb_fits (memblock_set_bottom_up st b) = mb_fits st"
  by (simp_all add: mb_ok_def mb_fits_def memblock_set_current_limit_def memblock_allow_resize_def
      memblock_set_bottom_up_def)

lemma rbind_stateE:
  assumes "rbind x (\<lambda>(_, st). Inr st) = Inr st'"
  obtains r where "x = Inr (r, st')"
  using assms by (auto simp: rbind_Inr_iff)

lemma mb_run_ok:
  assumes ok: "mb_ok st" "mb_fits st" and slab: "\<not> slab_is_available env" and c: "call_ok c"
    and run: "mb_run n env c st = Inr st'"
  shows "mb_ok st' \<and> mb_fits st'"
proof -
  have add: "mb_ok st' \<and> mb_fits st'"
    if "b \<le> U64_MAX" "w = MEMORY \<longrightarrow> cap_end b s \<le> 2 ^ 56"
      "rbind (memblock_add_range n env st w b s f) (\<lambda>(_, st'). Inr st') = Inr st'" for w b s f
    using add_range_grow [OF ok that(1,2) slab] rbind_stateE [OF that(3)] by metis
  have remove: "mb_ok st' \<and> mb_fits st'"
    if "b \<le> U64_MAX" "rbind (memblock_remove_range n env st w b s) (\<lambda>(_, st'). Inr st') = Inr st'" for w b s
    using remove_range_grow [OF ok that(1) slab] rbind_stateE [OF that(2)] by metis
  show ?thesis
  proof (cases c)
    case (Add_range w b s f)
    then show ?thesis using run c by (intro add [of b w s f]) simp_all
  next
    case (Add b s)
    then show ?thesis using run c by (intro add [of b MEMORY s 0]) (simp_all add: memblock_add_def)
  next
    case (Remove b s)
    then show ?thesis using run c by (intro remove [of b MEMORY s]) (simp_all add: memblock_remove_def)
  next
    case (Reserve b s)
    then show ?thesis using run c by (intro add [of b RESERVED s 0]) (simp_all add: memblock_reserve_def)
  next
    case (Free b s)
    then show ?thesis using run c by (intro remove [of b RESERVED s]) (simp_all add: memblock_free_def)
  next
    case (Setclr_flag b s x f)
    then obtain r where "memblock_setclr_flag n env st b s x f = Inr (r, st')" using run by (auto elim: rbind_stateE)
    then show ?thesis using setclr_flag_ok [OF ok _ slab] c Setclr_flag by simp
  next
    case (Alloc_range s a lo hi f)
    then obtain p where p: "memblock_alloc_range n env st s a lo hi f = Inr (p, st')"
      using run by (auto elim: rbind_stateE)
    have a: "align_ok a" "lo \<le> U64_MAX" "hi \<le> U64_MAX" using c Alloc_range by simp_all
    obtain k where k: "k < 64"
      "memblock_alloc_range n env st s a lo hi f = memblock_alloc_range n env st s (2 ^ k) lo hi f"
      using alloc_align [OF a(1)] by metis
    from alloc_range_ok [OF ok slab a(2,3) k(1) p [unfolded k(2)]] show ?thesis by blast
  next
    case (Alloc_try s a lo hi)
    then obtain p where p: "memblock_alloc_try_raw n env st s a lo hi = Inr (p, st')"
      using run by (auto elim: rbind_stateE)
    have "align_ok a" "lo \<le> U64_MAX" "hi \<le> U64_MAX" using c Alloc_try by simp_all
    from alloc_try_ok [OF ok slab this p] show ?thesis .
  next
    case (Enforce_memory_limit l)
    then show ?thesis using run enforce_memory_limit_ok [OF ok slab] by simp
  next
    case (Cap_memory_range b s)
    then show ?thesis using run c cap_memory_range_ok [OF ok _ slab] by simp
  next
    case (Mem_limit_remove_map l)
    then show ?thesis using run mem_limit_remove_map_ok [OF ok slab] by simp
  qed (use run c ok in auto)
qed

section \<open>Calls before the arrays may be resized\<close>

lemma setclr_flag_fixed:
  assumes "mb_ok st" and "\<not> can_resize st" and "base \<le> U64_MAX"
  shows "\<exists>r st'. memblock_setclr_flag (Suc n) env st base sz c f = Inr (r, st')"
proof -
  consider (room) "cnt (memory st) + 2 \<le> max_cnt (memory st)"
    | (zero) "memblock_isolate_range (Suc n) env st MEMORY base sz = Inr (0, 0, 0, st)"
    | (full) "memblock_isolate_range (Suc n) env st MEMORY base sz = Inr (- ENOMEM, 0, 0, st)"
    using isolate_range_fixed [OF assms, of n env MEMORY sz] by auto
  then show ?thesis
  proof cases
    case room
    then show ?thesis using setclr_flag_exact [OF assms(1,3), of n env sz c f] by blast
  next
    case zero
    have "type_ok (memory st)" using assms(1) by (simp add: mb_ok_def)
    from merge_type_ok [OF this] show ?thesis using zero by (auto simp: memblock_setclr_flag_def)
  next
    case full
    then show ?thesis by (simp add: memblock_setclr_flag_def ENOMEM_def)
  qed
qed

lemma alloc_range_fixed:
  assumes ok: "mb_ok st" "mb_fits st" "mb_small st" "\<not> can_resize st"
    and args: "lo \<le> U64_MAX" "hi \<le> U64_MAX" "k < 64"
  shows "\<exists>p st'. memblock_alloc_range (Suc n) env st s (2 ^ k) lo hi f = Inr (p, st') \<and> (p = 0 \<longrightarrow> st' = st)"
proof -
  have lim: "current_limit st \<le> U64_MAX" using ok(2) by (simp add: mb_fits_def)
  obtain c where c: "memblock_find_in_range_flags env st s (2 ^ k) lo hi f = Inr c"
    using find_in_range_flags_ends [OF ok(1,3)] by blast
  show ?thesis
  proof (cases "c = 0")
    case True
    then show ?thesis using c by (simp add: memblock_alloc_range_def)
  next
    case False
    note a = find_in_range_flags_sound [OF ok(1) lim args c False, unfolded area_ok_def]
    have "c \<le> U64_MAX" using a args lim by (auto simp: PAGE_SIZE_def PAGE_SHIFT_def U64_MAX_def split: if_splits)
    from add_range_fixed [OF ok(1,4) this, of n env RESERVED s 0] show ?thesis
      using c False by (auto simp: memblock_alloc_range_def memblock_reserve_def ENOMEM_def)
  qed
qed

lemma alloc_try_fixed:
  assumes ok: "mb_ok st" "mb_fits st" "mb_small st" "\<not> can_resize st" and slab: "\<not> slab_is_available env"
    and args: "align_ok a" "lo \<le> U64_MAX" "hi \<le> U64_MAX"
  shows "\<exists>p st'. memblock_alloc_try_raw (Suc n) env st s a lo hi = Inr (p, st')"
proof -
  obtain k where k: "k < 64" "(if a = 0 then SMP_CACHE_BYTES else a) = 2 ^ k" using alloc_align [OF args(1)] by metis
  define hi' where "hi' = (if hi > current_limit st then current_limit st else hi)"
  have hi': "hi' \<le> U64_MAX" using args(3) by (simp add: hi'_def)
  let ?a = "\<lambda>lo. memblock_alloc_range (Suc n) env st s (2 ^ k) lo hi' choose_memblock_flags"
  obtain p1 st1 where p1: "?a lo = Inr (p1, st1)" "p1 = 0 \<longrightarrow> st1 = st"
    using alloc_range_fixed [OF ok args(2) hi' k(1), of n env s choose_memblock_flags] by blast
  obtain p2 st2 where p2: "?a 0 = Inr (p2, st2)"
    using alloc_range_fixed [OF ok zero_le hi' k(1), of n env s choose_memblock_flags] by blast
  show ?thesis
    using p1 p2 slab unfolding memblock_alloc_try_raw_def memblock_alloc_internal_def Let_def hi'_def [symmetric] k(2)
    by (cases "p1 = 0") (simp_all add: alloc_attempt_eq)
qed

lemma two_removes_fixed:
  assumes ok: "mb_ok st" "mb_fits st" "\<not> can_resize st" and slab: "\<not> slab_is_available env"
    and args: "b \<le> U64_MAX" "b' \<le> U64_MAX"
  shows "\<exists>st'. rbind (memblock_remove_range (Suc n) env st w b s)
    (\<lambda>(_, st1). rbind (memblock_remove_range (Suc n) env st1 w' b' s') (\<lambda>(_, st2). Inr st2)) = Inr st'"
proof -
  obtain r st1 where r: "memblock_remove_range (Suc n) env st w b s = Inr (r, st1)"
    using remove_range_fixed [OF ok(1,3) args(1)] by blast
  from remove_range_grow [OF ok(1,2) args(1) slab r] have "mb_ok st1" "\<not> can_resize st1"
    using ok(3) by (simp_all add: same_settings_def)
  from remove_range_fixed [OF this args(2), of n env w' s'] show ?thesis using r by auto
qed

lemma cap_memory_range_fixed:
  assumes ok: "mb_ok st" "mb_fits st" "\<not> can_resize st" and slab: "\<not> slab_is_available env" and base: "base \<le> U64_MAX"
  shows "\<exists>st'. memblock_cap_memory_range (Suc n) env st base sz = Inr st'"
proof (cases "sz = 0")
  case True
  then show ?thesis by (simp add: memblock_cap_memory_range_def)
next
  case False
  obtain r i j st1 where iso: "memblock_isolate_range (Suc n) env st MEMORY base sz = Inr (r, i, j, st1)"
    using isolate_range_returns [OF ok(1,3) base] by blast
  note eq = cap_memory_range_eq [OF False iso] and k = capped_ok [OF ok(1,2) base slab iso]
  show ?thesis
  proof (cases "r = 0")
    case True
    then have "mb_ok (capped st1 i j)" "mb_fits (capped st1 i j)" "\<not> can_resize (capped st1 i j)"
      using k ok(3) by (simp_all add: same_settings_def)
    from two_removes_fixed [OF this slab zero_le add64_bound] show ?thesis using eq True by simp
  next
    case nz: False
    then show ?thesis using eq by simp
  qed
qed

lemma enforce_memory_limit_fixed:
  assumes "mb_ok st" and "mb_fits st" and "\<not> can_resize st" and "\<not> slab_is_available env"
  shows "\<exists>st'. memblock_enforce_memory_limit (Suc n) env st limit = Inr st'"
  using two_removes_fixed [OF assms find_max_addr_le find_max_addr_le]
  by (auto simp: memblock_enforce_memory_limit_def Let_def)

lemma mem_limit_remove_map_fixed:
  assumes "mb_ok st" and "mb_fits st" and "\<not> can_resize st" and "\<not> slab_is_available env"
  shows "\<exists>st'. memblock_mem_limit_remove_map (Suc n) env st limit = Inr st'"
  using cap_memory_range_fixed [OF assms zero_le] by (auto simp: memblock_mem_limit_remove_map_def Let_def)

lemma mb_run_fixed:
  assumes ok: "mb_ok st" "mb_fits st" "mb_small st" "\<not> can_resize st" and slab: "\<not> slab_is_available env"
    and c: "call_ok c"
  shows "\<exists>st'. mb_run (Suc n) env c st = Inr st'"
proof (cases c)
  case (Add_range w b s f)
  then show ?thesis using c add_range_fixed [OF ok(1,4), of b n env w s f] by auto
next
  case (Add b s)
  then show ?thesis using c add_range_fixed [OF ok(1,4), of b n env MEMORY s 0] by (auto simp: memblock_add_def)
next
  case (Remove b s)
  then show ?thesis using c remove_range_fixed [OF ok(1,4), of b n env MEMORY s] by (auto simp: memblock_remove_def)
next
  case (Reserve b s)
  then show ?thesis using c add_range_fixed [OF ok(1,4), of b n env RESERVED s 0] by (auto simp: memblock_reserve_def)
next
  case (Free b s)
  then show ?thesis using c remove_range_fixed [OF ok(1,4), of b n env RESERVED s] by (auto simp: memblock_free_def)
next
  case (Setclr_flag b s x f)
  then show ?thesis using c setclr_flag_fixed [OF ok(1,4), of b n env s x f] by auto
next
  case (Alloc_range s a lo hi f)
  have a: "align_ok a" "lo \<le> U64_MAX" "hi \<le> U64_MAX" using c Alloc_range by simp_all
  obtain k where k: "k < 64"
    "memblock_alloc_range (Suc n) env st s a lo hi f = memblock_alloc_range (Suc n) env st s (2 ^ k) lo hi f"
    using alloc_align [OF a(1)] by metis
  show ?thesis using alloc_range_fixed [OF ok a(2,3) k(1), of n env s f] k(2) Alloc_range by auto
next
  case (Alloc_try s a lo hi)
  have "align_ok a" "lo \<le> U64_MAX" "hi \<le> U64_MAX" using c Alloc_try by simp_all
  from alloc_try_fixed [OF ok slab this, of n s] show ?thesis using Alloc_try by auto
next
  case (Enforce_memory_limit l)
  then show ?thesis using enforce_memory_limit_fixed [OF ok(1,2,4) slab] by simp
next
  case (Cap_memory_range b s)
  then show ?thesis using c cap_memory_range_fixed [OF ok(1,2,4) slab] by simp
next
  case (Mem_limit_remove_map l)
  then show ?thesis using mem_limit_remove_map_fixed [OF ok(1,2,4) slab] by simp
qed simp_all

section \<open>Reachable states\<close>

text \<open>A step is a call that returns; the bound on its recursion is arbitrary.\<close>

inductive mb_step :: "memblock_env \<Rightarrow> memblock \<Rightarrow> memblock \<Rightarrow> bool" for env :: memblock_env where
  call: "call_ok c \<Longrightarrow> mb_run n env c st = Inr st' \<Longrightarrow> mb_step env st st'"

inductive mb_reach :: "memblock_env \<Rightarrow> memblock \<Rightarrow> memblock \<Rightarrow> bool" for env :: memblock_env and st0 :: memblock where
  start: "mb_reach env st0 st0"
| step: "mb_reach env st0 st \<Longrightarrow> mb_step env st st' \<Longrightarrow> mb_reach env st0 st'"

inductive_cases mb_stepE: "mb_step env st st'"

lemma init_fits: "mb_fits memblock_init"
  by (simp add: mb_fits_def memblock_init_def init_array_def type_fits_def live_def)

lemma mb_reach_ok:
  assumes "mb_reach env st0 st" and "\<not> slab_is_available env" and "mb_ok st0" and "mb_fits st0"
  shows "mb_ok st \<and> mb_fits st"
  using assms(1)
proof induction
  case start
  then show ?case using assms(3,4) by simp
next
  case (step st st')
  then show ?case using mb_run_ok [OF _ _ assms(2)] by (blast elim: mb_stepE)
qed

text \<open>
  \<^verbatim>\<open>memblock_trim_memory\<close> is left out because it breaks the invariant: it shortens a region
  and leaves \<open>total_size\<close> as it was.
\<close>

definition demo_trim :: memblock where
  "demo_trim = demo_mb\<lparr>memory := (memory demo_mb)\<lparr>total_size := 0x10800,
     regions := \<lparr>rg_base = 0x10000, rg_size = 0x10800, rg_flags = 0\<rparr> # replicate 3 empty_region\<rparr>\<rparr>"

lemma trim_memory_breaks_total:
  "mb_ok demo_trim \<and> (\<exists>st'. memblock_trim_memory demo_trim 0x1000 = Inr st' \<and> \<not> mb_ok st' \<and>
     total_size (memory st') = 0x10800 \<and> live (memory st') = [\<lparr>rg_base = 0x10000, rg_size = 0x10000, rg_flags = 0\<rparr>])"
proof -
  have "live (memory demo_trim) = [\<lparr>rg_base = 0x10000, rg_size = 0x10800, rg_flags = 0\<rparr>]"
    by (simp add: demo_trim_def demo_mb_def live_def)
  moreover have "type_ok (reserved demo_trim)" using demo_ok by (simp add: mb_ok_def demo_trim_def)
  ultimately have "mb_ok demo_trim"
    unfolding mb_ok_def type_ok_def [of "memory demo_trim"] tot_ok_def
    by (simp add: demo_trim_def demo_mb_def arr_ok_def rg_valid_def U64_MAX_def)
  moreover have "map_sum id (\<lambda>st. (total_size (memory st), live (memory st))) (memblock_trim_memory demo_trim 0x1000) =
      Inr (0x10800, [\<lparr>rg_base = 0x10000, rg_size = 0x10000, rg_flags = 0\<rparr>])"
    by code_simp
  then obtain st' where "memblock_trim_memory demo_trim 0x1000 = Inr st'" "total_size (memory st') = 0x10800"
    "live (memory st') = [\<lparr>rg_base = 0x10000, rg_size = 0x10000, rg_flags = 0\<rparr>]"
    by (cases "memblock_trim_memory demo_trim 0x1000") auto
  moreover from this have "\<not> mb_ok st'" by (simp add: mb_ok_def type_ok_def tot_ok_def)
  ultimately show ?thesis by blast
qed

section \<open>Properties\<close>

text \<open>
  C3: from the initial state, or any well-formed one, every sequence of the calls \<open>mb_call\<close>
  lists (all that change the state but \<^verbatim>\<open>memblock_trim_memory\<close>, which breaks \<open>total_size\<close>)
  that return, made before the slab allocator is up and within the bounds \<open>call_ok\<close>, growing
  the arrays as they may, leads to a well-formed state: both arrays are sorted lists of
  disjoint non-empty regions within their capacity and both totals are right.  While the
  arrays may not be resized, every call returns; and a call that returns has the same result
  with every larger bound on the recursion.
\<close>

theorem reach_invariant:
  assumes "mb_reach env st0 st" and "st0 = memblock_init \<or> mb_ok st0 \<and> mb_fits st0" and "\<not> slab_is_available env"
  shows "mb_ok st \<and> total_size (memory st) = card {a. mem_map st a \<noteq> None} \<and>
    total_size (reserved st) = card {a. res_map st a \<noteq> None} \<and>
    (\<forall>c. call_ok c \<and> mb_small st \<and> \<not> can_resize st \<longrightarrow> (\<exists>st'. mb_run 1 env c st = Inr st')) \<and>
    (\<forall>c n m st'. mb_run n env c st = Inr st' \<and> n \<le> m \<longrightarrow> mb_run m env c st = Inr st')"
proof -
  have "mb_ok st0" "mb_fits st0" using assms(2) init_ok init_fits by auto
  from mb_reach_ok [OF assms(1,3) this] have ok: "mb_ok st" "mb_fits st" by simp_all
  have "\<exists>st'. mb_run 1 env c st = Inr st'" if "call_ok c \<and> mb_small st \<and> \<not> can_resize st" for c
    using mb_run_fixed [OF ok _ _ assms(3), of c 0] that by simp
  moreover have "mb_run m env c st = Inr st'" if "mb_run n env c st = Inr st' \<and> n \<le> m" for c n m st'
    using mb_run_more that by blast
  moreover have "total_size (memory st) = card {a. mem_map st a \<noteq> None}"
    "total_size (reserved st) = card {a. res_map st a \<noteq> None}"
    using ok(1) by (simp_all add: mb_ok_def type_ok_total)
  ultimately show ?thesis using ok(1) by blast
qed

theorem reach_invariant_witness:
  "(\<exists>st. mb_reach demo_env memblock_init st \<and> mb_ok st \<and> total_size (memory st) = 0x10000) \<and>
   (\<exists>st. mb_reach demo_env demo_grow st \<and> mb_ok st \<and> max_cnt (reserved demo_grow) = 4 \<and> max_cnt (reserved st) = 8 \<and>
      total_size (reserved st) = 0x3400)"
proof
  have slab: "\<not> slab_is_available demo_env" by (simp add: demo_env_def)
  have "map_sum id (\<lambda>st. total_size (memory st)) (mb_run 1 demo_env (Add 0x10000 0x10000) memblock_init) = Inr 0x10000"
    by code_simp
  then obtain st where st: "mb_run 1 demo_env (Add 0x10000 0x10000) memblock_init = Inr st" "total_size (memory st) = 0x10000"
    by (cases "mb_run 1 demo_env (Add 0x10000 0x10000) memblock_init") auto
  have reach: "mb_reach demo_env memblock_init st"
    by (rule mb_reach.step [OF mb_reach.start mb_step.call [OF _ st(1)]]) (simp add: U64_MAX_def cap_end_def)
  from reach_invariant [OF this _ slab] st(2) reach
  show "\<exists>st. mb_reach demo_env memblock_init st \<and> mb_ok st \<and> total_size (memory st) = 0x10000" by auto
next
  have slab: "\<not> slab_is_available demo_env" by (simp add: demo_env_def)
  have "map_sum id (\<lambda>st. (max_cnt (reserved st), total_size (reserved st)))
      (mb_run 2 demo_env (Alloc_range 0x2000 0x1000 0 0x20000 0) demo_grow) = Inr (8, 0x3400)"
    by code_simp
  then obtain st where st: "mb_run 2 demo_env (Alloc_range 0x2000 0x1000 0 0x20000 0) demo_grow = Inr st"
    "max_cnt (reserved st) = 8" "total_size (reserved st) = 0x3400"
    by (cases "mb_run 2 demo_env (Alloc_range 0x2000 0x1000 0 0x20000 0) demo_grow") auto
  have "align_ok 0x1000" unfolding align_ok_def by (intro disjI2 exI [of _ 12]) simp
  then have reach: "mb_reach demo_env demo_grow st"
    by (intro mb_reach.step [OF mb_reach.start mb_step.call [OF _ st(1)]]) (simp add: U64_MAX_def)
  have "max_cnt (reserved demo_grow) = 4" by (simp add: demo_grow_def)
  with reach_invariant [OF reach _ slab] st(2,3) reach demo_grow_ok(1,2)
  show "\<exists>st. mb_reach demo_env demo_grow st \<and> mb_ok st \<and> max_cnt (reserved demo_grow) = 4 \<and> max_cnt (reserved st) = 8 \<and>
      total_size (reserved st) = 0x3400" by blast
qed

end
