(* ===== verification/Bitops.thy ===== *)
theory Bitops
  imports Kernel_Prelude
begin

text \<open>
  Single words and single bits: the bit-scan builtins (\<^verbatim>\<open>include/asm-generic/bitops\<close>), the
  word masks and sizes of \<^verbatim>\<open>include/linux/bitmap.h\<close>, the non-atomic bit operations, and the
  searches of \<^verbatim>\<open>lib/ulib/find_bit.c\<close>.  A bitmap is a list of 64-bit words; a bit number or
  a size in bits is a natural number, at most 64 times the length of the list, so that no
  index of the code wraps.
\<close>

section \<open>Words\<close>

type_synonym bitmap = "64 word list"

definition BITS_PER_LONG :: nat where "BITS_PER_LONG = 64"

definition BITS_TO_LONGS :: "nat \<Rightarrow> nat" where
  "BITS_TO_LONGS nr = (nr + 64 - 1) div 64"

definition BIT_WORD :: "nat \<Rightarrow> nat" where "BIT_WORD nr = nr div 64"

definition BIT_MASK :: "nat \<Rightarrow> 64 word" where "BIT_MASK nr = push_bit (nr mod 64) 1"

definition BITMAP_FIRST_WORD_MASK :: "nat \<Rightarrow> 64 word" where
  "BITMAP_FIRST_WORD_MASK start = push_bit (start mod 64) (NOT 0)"

definition BITMAP_LAST_WORD_MASK :: "nat \<Rightarrow> 64 word" where
  "BITMAP_LAST_WORD_MASK nbits = drop_bit ((64 - nbits mod 64) mod 64) (NOT 0)"

text \<open>
  \<^verbatim>\<open>__ffs\<close> and \<^verbatim>\<open>__fls\<close>: the compiler's count of trailing or leading zeros, undefined in C
  on 0 and never called there.
\<close>

definition ffs0 :: "64 word \<Rightarrow> nat" where
  "ffs0 w = length (takeWhile (\<lambda>i. \<not> bit w i) [0..<64])"

definition fls0 :: "64 word \<Rightarrow> nat" where
  "fls0 w = 64 - 1 - length (takeWhile (\<lambda>i. \<not> bit w (63 - i)) [0..<64])"

definition ffz :: "64 word \<Rightarrow> nat" where
  "ffz w = ffs0 (NOT w)"

definition fls64 :: "64 word \<Rightarrow> nat" where
  "fls64 w = (if w = 0 then 0 else fls0 w + 1)"

definition fls :: "32 word \<Rightarrow> nat" where
  "fls w = (if w = 0 then 0 else 32 - length (takeWhile (\<lambda>i. \<not> bit w (31 - i)) [0..<32]))"

section \<open>Bits of a bitmap\<close>

definition test_bit :: "bitmap \<Rightarrow> nat \<Rightarrow> bool" where
  "test_bit addr nr \<longleftrightarrow> 1 AND drop_bit (nr mod 64) (addr ! BIT_WORD nr) \<noteq> 0"

definition set_bit_op :: "bitmap \<Rightarrow> nat \<Rightarrow> bitmap" where
  "set_bit_op addr nr = addr[BIT_WORD nr := addr ! BIT_WORD nr OR BIT_MASK nr]"

definition clear_bit_op :: "bitmap \<Rightarrow> nat \<Rightarrow> bitmap" where
  "clear_bit_op addr nr = addr[BIT_WORD nr := addr ! BIT_WORD nr AND NOT (BIT_MASK nr)]"

definition change_bit_op :: "bitmap \<Rightarrow> nat \<Rightarrow> bitmap" where
  "change_bit_op addr nr = addr[BIT_WORD nr := addr ! BIT_WORD nr XOR BIT_MASK nr]"

definition test_and_set_bit_op :: "bitmap \<Rightarrow> nat \<Rightarrow> bool \<times> bitmap" where
  "test_and_set_bit_op addr nr =
     (let old = addr ! BIT_WORD nr in
      (old AND BIT_MASK nr \<noteq> 0, addr[BIT_WORD nr := old OR BIT_MASK nr]))"

definition test_and_clear_bit_op :: "bitmap \<Rightarrow> nat \<Rightarrow> bool \<times> bitmap" where
  "test_and_clear_bit_op addr nr =
     (let old = addr ! BIT_WORD nr in
      (old AND BIT_MASK nr \<noteq> 0, addr[BIT_WORD nr := old AND NOT (BIT_MASK nr)]))"

definition test_and_change_bit_op :: "bitmap \<Rightarrow> nat \<Rightarrow> bool \<times> bitmap" where
  "test_and_change_bit_op addr nr =
     (let old = addr ! BIT_WORD nr in
      (old AND BIT_MASK nr \<noteq> 0, addr[BIT_WORD nr := old XOR BIT_MASK nr]))"

section \<open>Searches\<close>

text \<open>
  \<^verbatim>\<open>_find_next_bit\<close>: the word it looks at, and its loop over the words after the first.
\<close>

definition next_word :: "bitmap \<Rightarrow> bitmap option \<Rightarrow> 64 word \<Rightarrow> nat \<Rightarrow> 64 word" where
  "next_word addr1 addr2 invert start =
     (case addr2 of
        None \<Rightarrow> addr1 ! (start div 64)
      | Some a \<Rightarrow> addr1 ! (start div 64) AND a ! (start div 64)) XOR invert"

function find_next_loop :: "bitmap \<Rightarrow> bitmap option \<Rightarrow> 64 word \<Rightarrow> nat \<Rightarrow> nat \<Rightarrow> 64 word \<Rightarrow> nat" where
  "find_next_loop addr1 addr2 invert nbits start tmp =
     (if tmp = 0 then
        let start' = start + 64 in
        if start' \<ge> nbits then nbits
        else find_next_loop addr1 addr2 invert nbits start' (next_word addr1 addr2 invert start')
      else min (start + ffs0 tmp) nbits)"
  by pat_completeness auto
termination
  by (relation "measure (\<lambda>(a1, a2, inv, n, s, t). n - s)") auto

declare find_next_loop.simps [simp del]

definition find_next_bit_of :: "bitmap \<Rightarrow> bitmap option \<Rightarrow> nat \<Rightarrow> nat \<Rightarrow> 64 word \<Rightarrow> nat" where
  "find_next_bit_of addr1 addr2 nbits start invert =
     (if start \<ge> nbits then nbits
      else
        let tmp = next_word addr1 addr2 invert start AND BITMAP_FIRST_WORD_MASK start in
        find_next_loop addr1 addr2 invert nbits (start div 64 * 64) tmp)"

definition find_next_bit :: "bitmap \<Rightarrow> nat \<Rightarrow> nat \<Rightarrow> nat" where
  "find_next_bit addr sz offset = find_next_bit_of addr None sz offset 0"

definition find_next_zero_bit :: "bitmap \<Rightarrow> nat \<Rightarrow> nat \<Rightarrow> nat" where
  "find_next_zero_bit addr sz offset = find_next_bit_of addr None sz offset (NOT 0)"

definition find_next_and_bit :: "bitmap \<Rightarrow> bitmap \<Rightarrow> nat \<Rightarrow> nat \<Rightarrow> nat" where
  "find_next_and_bit addr1 addr2 sz offset = find_next_bit_of addr1 (Some addr2) sz offset 0"

function find_first_from :: "bitmap \<Rightarrow> nat \<Rightarrow> nat \<Rightarrow> nat" where
  "find_first_from addr sz idx =
     (if idx * 64 < sz then
        (if addr ! idx \<noteq> 0 then min (idx * 64 + ffs0 (addr ! idx)) sz
         else find_first_from addr sz (idx + 1))
      else sz)"
  by pat_completeness auto
termination
  by (relation "measure (\<lambda>(a, n, i). n - i * 64)") auto

definition find_first_bit :: "bitmap \<Rightarrow> nat \<Rightarrow> nat" where
  "find_first_bit addr sz = find_first_from addr sz 0"

function find_first_zero_from :: "bitmap \<Rightarrow> nat \<Rightarrow> nat \<Rightarrow> nat" where
  "find_first_zero_from addr sz idx =
     (if idx * 64 < sz then
        (if addr ! idx \<noteq> NOT 0 then min (idx * 64 + ffz (addr ! idx)) sz
         else find_first_zero_from addr sz (idx + 1))
      else sz)"
  by pat_completeness auto
termination
  by (relation "measure (\<lambda>(a, n, i). n - i * 64)") auto

definition find_first_zero_bit :: "bitmap \<Rightarrow> nat \<Rightarrow> nat" where
  "find_first_zero_bit addr sz = find_first_zero_from addr sz 0"

declare find_first_from.simps [simp del] find_first_zero_from.simps [simp del]

fun find_last_from :: "bitmap \<Rightarrow> nat \<Rightarrow> 64 word \<Rightarrow> nat \<Rightarrow> nat" where
  "find_last_from addr sz val idx =
     (let v = val AND addr ! idx in
      if v \<noteq> 0 then idx * 64 + fls0 v
      else case idx of 0 \<Rightarrow> sz | Suc i \<Rightarrow> find_last_from addr sz (NOT 0) i)"

declare find_last_from.simps [simp del]

definition find_last_bit :: "bitmap \<Rightarrow> nat \<Rightarrow> nat" where
  "find_last_bit addr sz =
     (if sz \<noteq> 0 then find_last_from addr sz (BITMAP_LAST_WORD_MASK sz) ((sz - 1) div 64) else sz)"

section \<open>Words: lemmas\<close>

lemma takeWhile_upt:
  assumes "P k" and "k < n" and "\<forall>i < k. \<not> P i"
  shows "length (takeWhile (\<lambda>i. \<not> P i) [0..<n]) = k"
proof -
  have "[0..<n] = [0..<k] @ [k..<n]" using assms(2) by (metis le_add_diff_inverse less_imp_le upt_add_eq_append zero_le)
  moreover have "takeWhile (\<lambda>i. \<not> P i) ([0..<k] @ [k..<n]) = [0..<k] @ takeWhile (\<lambda>i. \<not> P i) [k..<n]"
    using assms(3) by (intro takeWhile_append2) simp
  moreover have "takeWhile (\<lambda>i. \<not> P i) [k..<n] = []"
    using assms(1,2) by (simp add: upt_rec)
  ultimately show ?thesis by simp
qed

lemma word64_nonzero_bit: "w \<noteq> 0 \<Longrightarrow> \<exists>i < 64. bit w i" for w :: "64 word"
proof (rule ccontr)
  assume "w \<noteq> 0" and "\<not> (\<exists>i < 64. bit w i)"
  then have "w = 0" by (intro bit_word_eqI) simp
  with \<open>w \<noteq> 0\<close> show False by simp
qed

lemma ffs0_ok:
  assumes "w \<noteq> 0"
  shows "ffs0 w < 64" and "bit w (ffs0 w)" and "i < ffs0 w \<Longrightarrow> \<not> bit w i"
proof -
  define k where "k = (LEAST i. bit w i)"
  have b: "bit w k" and k: "k < 64" and least: "\<forall>i < k. \<not> bit w i"
  proof -
    obtain j where j: "j < 64" "bit w j" using word64_nonzero_bit [OF assms] by blast
    show "bit w k" unfolding k_def by (rule LeastI [of "bit w", OF j(2)])
    show "k < 64" using Least_le [of "bit w", OF j(2)] j(1) unfolding k_def by linarith
    show "\<forall>i < k. \<not> bit w i" unfolding k_def using not_less_Least by blast
  qed
  have "ffs0 w = k" unfolding ffs0_def by (rule takeWhile_upt [OF b k least])
  with b k least show "ffs0 w < 64" "bit w (ffs0 w)" "i < ffs0 w \<Longrightarrow> \<not> bit w i" by simp_all
qed

lemma fls0_ok:
  assumes "w \<noteq> 0"
  shows "fls0 w < 64" and "bit w (fls0 w)" and "fls0 w < i \<Longrightarrow> i < 64 \<Longrightarrow> \<not> bit w i"
proof -
  define P where "P = (\<lambda>i. bit w (63 - i))"
  define k where "k = (LEAST i. P i)"
  have b: "P k" and k: "k < 64" and least: "\<forall>i < k. \<not> P i"
  proof -
    obtain j where j: "j < 64" "bit w j" using word64_nonzero_bit [OF assms] by blast
    then have p: "P (63 - j)" by (simp add: P_def)
    show "P k" unfolding k_def by (rule LeastI [of P, OF p])
    show "k < 64" using Least_le [of P, OF p] unfolding k_def by linarith
    show "\<forall>i < k. \<not> P i" unfolding k_def using not_less_Least by blast
  qed
  have "length (takeWhile (\<lambda>i. \<not> P i) [0..<64]) = k" by (rule takeWhile_upt [OF b k least])
  then have e: "fls0 w = 63 - k" by (simp add: fls0_def P_def)
  show "fls0 w < 64" using e by simp
  show "bit w (fls0 w)" using b e by (simp add: P_def)
  show "\<not> bit w i" if "fls0 w < i" "i < 64"
  proof -
    have "63 - i < k" using that e k by linarith
    then have "\<not> P (63 - i)" using least by blast
    then show ?thesis using that(2) by (simp add: P_def)
  qed
qed

lemma bit_NOT_0 [simp]: "bit (NOT 0 :: 64 word) i \<longleftrightarrow> i < 64"
  by (simp add: bit_not_iff)

lemma bit_first_mask: "bit (BITMAP_FIRST_WORD_MASK s) i \<longleftrightarrow> s mod 64 \<le> i \<and> i < 64"
  by (auto simp: BITMAP_FIRST_WORD_MASK_def bit_not_iff bit_mask_iff)

lemma bit_last_mask: "bit (BITMAP_LAST_WORD_MASK n) i \<longleftrightarrow> i < (if n mod 64 = 0 then 64 else n mod 64)"
proof -
  have m: "n mod 64 < 64" by simp
  show ?thesis
  proof (cases "n mod 64 = 0")
    case True
    then show ?thesis by (simp add: BITMAP_LAST_WORD_MASK_def)
  next
    case False
    then have "(64 - n mod 64) mod 64 = 64 - n mod 64" by simp
    then show ?thesis using False m by (auto simp: BITMAP_LAST_WORD_MASK_def bit_mask_iff)
  qed
qed

lemma bit_mask_iff' [simp]: "bit (BIT_MASK n) i \<longleftrightarrow> i = n mod 64"
  by (auto simp: BIT_MASK_def bit_exp_iff)

lemma test_bit_iff: "test_bit bm i \<longleftrightarrow> bit (bm ! (i div 64)) (i mod 64)"
proof -
  have "(1 AND w \<noteq> 0) = bit w 0" for w :: "64 word"
    by (simp add: and.commute [of 1] and_one_eq bit_0 odd_iff_mod_2_eq_one)
  then show ?thesis by (simp add: test_bit_def BIT_WORD_def bit_drop_bit_eq)
qed

section \<open>Searches: what they return\<close>

text \<open>The first position from \<open>s\<close> below \<open>n\<close> that satisfies a predicate, or \<open>n\<close>.\<close>

definition first_from :: "(nat \<Rightarrow> bool) \<Rightarrow> nat \<Rightarrow> nat \<Rightarrow> nat" where
  "first_from B s n = (case filter B [s..<n] of [] \<Rightarrow> n | i # _ \<Rightarrow> i)"

definition last_or :: "(nat \<Rightarrow> bool) \<Rightarrow> nat \<Rightarrow> nat \<Rightarrow> nat" where
  "last_or B n d = (case filter B (rev [0..<n]) of [] \<Rightarrow> d | i # _ \<Rightarrow> i)"

lemma first_from_past: "n \<le> s \<Longrightarrow> first_from B s n = n"
  by (simp add: first_from_def)

lemma first_from_eqI:
  assumes "s \<le> r" and "r \<le> n" and "\<And>i. s \<le> i \<Longrightarrow> i < r \<Longrightarrow> \<not> B i" and "r < n \<Longrightarrow> B r"
  shows "first_from B s n = r"
proof -
  have "[s..<n] = [s..<r] @ [r..<n]" using assms(1,2) by (metis le_Suc_ex upt_add_eq_append)
  moreover have "filter B [s..<r] = []" using assms(3) by (simp add: filter_empty_conv)
  ultimately have "filter B [s..<n] = filter B [r..<n]" by simp
  then show ?thesis
    using assms(2,4) by (cases "r < n") (simp_all add: first_from_def upt_rec [of r n])
qed

lemma first_from_skip:
  assumes "\<And>i. s \<le> i \<Longrightarrow> i < t \<Longrightarrow> \<not> B i" and "s \<le> t"
  shows "first_from B s n = (if t \<le> n then first_from B t n else n)"
proof (cases "t \<le> n")
  case True
  have "[s..<n] = [s..<t] @ [t..<n]" using assms(2) True by (metis le_Suc_ex upt_add_eq_append)
  moreover have "filter B [s..<t] = []" using assms(1) by (simp add: filter_empty_conv)
  ultimately show ?thesis using True by (simp add: first_from_def)
next
  case False
  then have "filter B [s..<n] = []" using assms(1) by (auto simp: filter_empty_conv)
  then show ?thesis using False by (simp add: first_from_def)
qed

lemma first_from_cases:
  obtains (none) "first_from B s n = n" "\<And>i. s \<le> i \<Longrightarrow> i < n \<Longrightarrow> \<not> B i"
  | (some) "s \<le> first_from B s n" "first_from B s n < n" "B (first_from B s n)"
      "\<And>i. s \<le> i \<Longrightarrow> i < first_from B s n \<Longrightarrow> \<not> B i"
proof (cases "\<exists>i. s \<le> i \<and> i < n \<and> B i")
  case False
  then have "filter B [s..<n] = []" by (auto simp: filter_empty_conv)
  then show ?thesis using False none by (simp add: first_from_def)
next
  case True
  define r where "r = (LEAST i. s \<le> i \<and> i < n \<and> B i)"
  obtain i where i: "s \<le> i \<and> i < n \<and> B i" using True by blast
  have r: "s \<le> r \<and> r < n \<and> B r" unfolding r_def by (rule LeastI [of "\<lambda>i. s \<le> i \<and> i < n \<and> B i", OF i])
  have l: "\<not> B j" if "s \<le> j" "j < r" for j
    using that r not_less_Least [of j "\<lambda>i. s \<le> i \<and> i < n \<and> B i"] unfolding r_def by auto
  have "first_from B s n = r" using r l by (intro first_from_eqI) auto
  with r l show ?thesis using some by simp
qed

lemma last_or_eqI:
  assumes "r < n" and "B r" and "\<And>i. r < i \<Longrightarrow> i < n \<Longrightarrow> \<not> B i"
  shows "last_or B n d = r"
proof -
  have "[0..<n] = [0..<r] @ [r] @ [Suc r..<n]"
    using assms(1) by (metis append_Cons append_Nil le_add_diff_inverse less_imp_le upt_add_eq_append upt_conv_Cons zero_le)
  then have "rev [0..<n] = rev [Suc r..<n] @ [r] @ rev [0..<r]" by simp
  moreover have "filter B (rev [Suc r..<n]) = []" using assms(3) by (simp add: filter_empty_conv)
  ultimately show ?thesis using assms(2) by (simp add: last_or_def)
qed

lemma last_or_skip:
  assumes "\<And>i. m \<le> i \<Longrightarrow> i < n \<Longrightarrow> \<not> B i" and "m \<le> n"
  shows "last_or B n d = last_or B m d"
proof -
  have "[0..<n] = [0..<m] @ [m..<n]" using assms(2) by (metis le_Suc_ex upt_add_eq_append zero_le)
  moreover have "filter B (rev [m..<n]) = []" using assms(1) by (simp add: filter_empty_conv)
  ultimately show ?thesis by (simp add: last_or_def)
qed

text \<open>The bits that \<^verbatim>\<open>_find_next_bit\<close> looks for.\<close>

definition sought :: "bitmap \<Rightarrow> bitmap option \<Rightarrow> 64 word \<Rightarrow> nat \<Rightarrow> bool" where
  "sought a1 a2 iv i \<longleftrightarrow> bit (next_word a1 a2 iv i) (i mod 64)"

lemma next_word_same: "s div 64 = t div 64 \<Longrightarrow> next_word a1 a2 iv s = next_word a1 a2 iv t"
  by (cases a2) (simp_all add: next_word_def)

lemma sought_in_word:
  assumes "64 dvd start" and "i < 64"
  shows "sought a1 a2 iv (start + i) \<longleftrightarrow> bit (next_word a1 a2 iv start) i"
proof -
  obtain q where q: "start = 64 * q" using assms(1) by blast
  then have "(start + i) div 64 = start div 64" "(start + i) mod 64 = i" using assms(2) by simp_all
  then show ?thesis using next_word_same [of "start + i" start] by (simp add: sought_def)
qed

lemma find_next_loop_ok:
  assumes "64 dvd start" and "start \<le> s" and "s < start + 64" and "s < nbits"
    and "\<And>i. i < 64 \<Longrightarrow> bit tmp i \<longleftrightarrow> s \<le> start + i \<and> sought a1 a2 iv (start + i)"
  shows "find_next_loop a1 a2 iv nbits start tmp = first_from (sought a1 a2 iv) s nbits"
  using assms
proof (induction a1 a2 iv nbits start tmp arbitrary: s rule: find_next_loop.induct)
  case (1 a1 a2 iv nbits start tmp)
  let ?B = "sought a1 a2 iv"
  show ?case
  proof (cases "tmp = 0")
    case False
    note f = ffs0_ok [OF False]
    have hit: "s \<le> start + ffs0 tmp" "?B (start + ffs0 tmp)" using 1(6) [OF f(1)] f(2) by simp_all
    have miss: "\<not> ?B i" if "s \<le> i" "i < start + ffs0 tmp" for i
    proof -
      have "i - start < 64" "start + (i - start) = i" "i - start < ffs0 tmp" using that 1(3) f(1) by linarith+
      then show ?thesis using 1(6) [of "i - start"] f(3) [of "i - start"] that(1) by simp
    qed
    have "first_from ?B s nbits = min (start + ffs0 tmp) nbits"
      using hit miss 1(5) by (intro first_from_eqI) auto
    then show ?thesis using False by (subst find_next_loop.simps) simp
  next
    case True
    have miss: "\<not> ?B i" if "s \<le> i" "i < start + 64" for i
    proof -
      have "i - start < 64" "start + (i - start) = i" using that 1(3) by linarith+
      then show ?thesis using 1(6) [of "i - start"] that(1) True by simp
    qed
    show ?thesis
    proof (cases "nbits \<le> start + 64")
      case past: True
      have "first_from ?B s nbits = nbits" using miss past 1(5) by (intro first_from_eqI) auto
      then show ?thesis using True past by (subst find_next_loop.simps) (simp add: Let_def)
    next
      case False
      have d: "64 dvd start + 64" using 1(2) by simp
      have "find_next_loop a1 a2 iv nbits (start + 64) (next_word a1 a2 iv (start + 64)) =
          first_from ?B (start + 64) nbits"
        using False sought_in_word [OF d, of _ a1 a2 iv]
        by (intro 1(1) [OF True refl _ d]) simp_all
      moreover have "first_from ?B s nbits = first_from ?B (start + 64) nbits"
        using first_from_skip [of s "start + 64" ?B nbits] miss 1(4) False by simp
      ultimately show ?thesis using True False by (subst find_next_loop.simps) (simp add: Let_def)
    qed
  qed
qed

lemma find_next_bit_of_ok:
  "find_next_bit_of a1 a2 nbits s iv = first_from (sought a1 a2 iv) s nbits"
proof (cases "nbits \<le> s")
  case True
  then show ?thesis by (simp add: find_next_bit_of_def first_from_past)
next
  case False
  let ?start = "s div 64 * 64"
  let ?tmp = "next_word a1 a2 iv s AND BITMAP_FIRST_WORD_MASK s"
  have st: "?start \<le> s" "s < ?start + 64" "s = ?start + s mod 64"
    using div_mult_mod_eq [of s 64] mod_less_divisor [of 64 s] by linarith+
  have b: "bit ?tmp i \<longleftrightarrow> s \<le> ?start + i \<and> sought a1 a2 iv (?start + i)" if "i < 64" for i
  proof -
    have "next_word a1 a2 iv s = next_word a1 a2 iv ?start" by (rule next_word_same) simp
    moreover have "s \<le> ?start + i \<longleftrightarrow> s mod 64 \<le> i" using st(3) by linarith
    ultimately show ?thesis
      using that sought_in_word [of ?start i a1 a2 iv] by (auto simp: bit_and_iff bit_first_mask)
  qed
  have "find_next_loop a1 a2 iv nbits ?start ?tmp = first_from (sought a1 a2 iv) s nbits"
    using st b False by (intro find_next_loop_ok) simp_all
  then show ?thesis using False by (simp add: find_next_bit_of_def Let_def)
qed

lemma sought_plain:
  "sought a None 0 = test_bit a"
  "i < 64 * length a \<Longrightarrow> sought a None (NOT 0) i \<longleftrightarrow> \<not> test_bit a i"
  "sought a (Some b) 0 = (\<lambda>i. test_bit a i \<and> test_bit b i)"
  by (auto simp: sought_def next_word_def test_bit_iff bit_and_iff bit_not_iff fun_eq_iff)

lemma first_from_cong: "(\<And>i. s \<le> i \<Longrightarrow> i < n \<Longrightarrow> B i = C i) \<Longrightarrow> first_from B s n = first_from C s n"
proof -
  assume "\<And>i. s \<le> i \<Longrightarrow> i < n \<Longrightarrow> B i = C i"
  then have "filter B [s..<n] = filter C [s..<n]" by (intro filter_cong) auto
  then show ?thesis by (simp add: first_from_def)
qed

lemma find_next_bit_ok: "find_next_bit bm n s = first_from (test_bit bm) s n"
  by (simp add: find_next_bit_def find_next_bit_of_ok sought_plain)

lemma find_next_zero_bit_ok: "find_next_zero_bit bm n s = first_from (\<lambda>i. \<not> test_bit bm i) s n"
proof -
  have "sought bm None (NOT 0) i \<longleftrightarrow> \<not> test_bit bm i" for i
    by (simp add: sought_def next_word_def test_bit_iff bit_not_iff)
  then have "sought bm None (NOT 0) = (\<lambda>i. \<not> test_bit bm i)" by (simp add: fun_eq_iff)
  then show ?thesis by (simp add: find_next_zero_bit_def find_next_bit_of_ok)
qed

lemma find_next_and_bit_ok:
  "find_next_and_bit a b n s = first_from (\<lambda>i. test_bit a i \<and> test_bit b i) s n"
  by (simp add: find_next_and_bit_def find_next_bit_of_ok sought_plain)

text \<open>One step of a search by whole words.\<close>

lemma first_from_word:
  assumes "\<And>i. i < 64 \<Longrightarrow> B (idx * 64 + i) \<longleftrightarrow> bit w i" and "idx * 64 < n"
  shows "first_from B (idx * 64) n =
    (if w \<noteq> 0 then min (idx * 64 + ffs0 w) n
     else if (idx + 1) * 64 \<le> n then first_from B ((idx + 1) * 64) n else n)"
proof (cases "w = 0")
  case False
  note f = ffs0_ok [OF False]
  have miss: "\<not> B i" if "idx * 64 \<le> i" "i < idx * 64 + ffs0 w" for i
  proof -
    have "i - idx * 64 < 64" "i - idx * 64 < ffs0 w" "idx * 64 + (i - idx * 64) = i" using that f(1) by linarith+
    then show ?thesis using assms(1) [of "i - idx * 64"] f(3) [of "i - idx * 64"] by simp
  qed
  have "first_from B (idx * 64) n = min (idx * 64 + ffs0 w) n"
    using miss assms f by (intro first_from_eqI) auto
  then show ?thesis using False by simp
next
  case True
  have "\<not> B i" if "idx * 64 \<le> i" "i < (idx + 1) * 64" for i
  proof -
    have "i - idx * 64 < 64" "idx * 64 + (i - idx * 64) = i" using that by (simp_all add: algebra_simps)
    then show ?thesis using assms(1) [of "i - idx * 64"] True by simp
  qed
  then show ?thesis using first_from_skip [of "idx * 64" "(idx + 1) * 64" B n] True by simp
qed

lemma find_first_from_ok:
  assumes "idx * 64 \<le> n"
  shows "find_first_from bm n idx = first_from (test_bit bm) (idx * 64) n"
  using assms
proof (induction bm n idx rule: find_first_from.induct)
  case (1 bm n idx)
  have w: "test_bit bm (idx * 64 + i) \<longleftrightarrow> bit (bm ! idx) i" if "i < 64" for i
    using that by (simp add: test_bit_iff)
  have past: "\<not> (idx + 1) * 64 \<le> n \<Longrightarrow> find_first_from bm n (idx + 1) = n"
    by (subst find_first_from.simps) simp
  show ?case
  proof (cases "idx * 64 < n")
    case False
    then show ?thesis using 1(2) by (subst find_first_from.simps) (simp add: first_from_past)
  next
    case True
    then show ?thesis
      using first_from_word [of "test_bit bm" idx "bm ! idx" n, OF w] 1(1) past
      by (subst find_first_from.simps) (cases "(idx + 1) * 64 \<le> n"; simp)
  qed
qed

lemma find_first_bit_ok: "find_first_bit bm n = first_from (test_bit bm) 0 n"
  using find_first_from_ok [of 0 n bm] by (simp add: find_first_bit_def)

lemma find_first_zero_from_ok:
  assumes "idx * 64 \<le> n"
  shows "find_first_zero_from bm n idx = first_from (\<lambda>i. \<not> test_bit bm i) (idx * 64) n"
  using assms
proof (induction bm n idx rule: find_first_zero_from.induct)
  case (1 bm n idx)
  let ?B = "\<lambda>i. \<not> test_bit bm i"
  have w: "?B (idx * 64 + i) \<longleftrightarrow> bit (NOT (bm ! idx)) i" if "i < 64" for i
    using that by (simp add: test_bit_iff bit_not_iff)
  have nz: "NOT (bm ! idx) \<noteq> 0 \<longleftrightarrow> bm ! idx \<noteq> NOT 0" by (metis bit.double_compl)
  have past: "\<not> (idx + 1) * 64 \<le> n \<Longrightarrow> find_first_zero_from bm n (idx + 1) = n"
    by (subst find_first_zero_from.simps) simp
  show ?case
  proof (cases "idx * 64 < n")
    case False
    then show ?thesis using 1(2) by (subst find_first_zero_from.simps) (simp add: first_from_past)
  next
    case True
    then show ?thesis
      using first_from_word [of ?B idx "NOT (bm ! idx)" n, OF w] 1(1) past
      by (subst find_first_zero_from.simps) (cases "(idx + 1) * 64 \<le> n"; simp add: nz ffz_def)
  qed
qed

lemma find_first_zero_bit_ok: "find_first_zero_bit bm n = first_from (\<lambda>i. \<not> test_bit bm i) 0 n"
  using find_first_zero_from_ok [of 0 n bm] by (simp add: find_first_zero_bit_def)

lemma find_last_from_ok:
  assumes "idx * 64 < m" and "m \<le> (idx + 1) * 64" and "\<And>i. i < 64 \<Longrightarrow> bit val i \<longleftrightarrow> idx * 64 + i < m"
  shows "find_last_from bm sz val idx = last_or (test_bit bm) m sz"
  using assms
proof (induction idx arbitrary: m val rule: less_induct)
  case (less idx)
  let ?v = "val AND bm ! idx"
  have w: "bit ?v i \<longleftrightarrow> idx * 64 + i < m \<and> test_bit bm (idx * 64 + i)" if "i < 64" for i
    using that less.prems(3) [OF that] by (simp add: test_bit_iff bit_and_iff)
  show ?case
  proof (cases "?v = 0")
    case False
    note f = fls0_ok [OF False]
    have "\<not> test_bit bm i" if "idx * 64 + fls0 ?v < i" "i < m" for i
    proof -
      have "i - idx * 64 < 64" "fls0 ?v < i - idx * 64" "idx * 64 + (i - idx * 64) = i"
        using that less.prems(2) by (simp_all add: algebra_simps)
      then show ?thesis using w [of "i - idx * 64"] f(3) [of "i - idx * 64"] that(2) by simp
    qed
    then have "last_or (test_bit bm) m sz = idx * 64 + fls0 ?v"
      using w [OF f(1)] f(2) by (intro last_or_eqI) auto
    then show ?thesis using False by (subst find_last_from.simps) (simp add: Let_def)
  next
    case True
    have "\<not> test_bit bm i" if "idx * 64 \<le> i" "i < m" for i
    proof -
      have "i - idx * 64 < 64" "idx * 64 + (i - idx * 64) = i"
        using that less.prems(2) by (simp_all add: algebra_simps)
      then show ?thesis using w [of "i - idx * 64"] that(2) True by simp
    qed
    then have skip: "last_or (test_bit bm) m sz = last_or (test_bit bm) (idx * 64) sz"
      using less.prems(1) by (intro last_or_skip) auto
    show ?thesis
    proof (cases idx)
      case 0
      then show ?thesis using True skip by (subst find_last_from.simps) (simp add: Let_def last_or_def)
    next
      case (Suc j)
      have "find_last_from bm sz (NOT 0) j = last_or (test_bit bm) (idx * 64) sz"
        using Suc by (intro less.IH) (simp_all add: algebra_simps)
      then show ?thesis using True skip Suc by (subst find_last_from.simps) (simp add: Let_def)
    qed
  qed
qed

lemma find_last_bit_ok: "find_last_bit bm n = last_or (test_bit bm) n n"
proof (cases "n = 0")
  case True
  then show ?thesis by (simp add: find_last_bit_def last_or_def)
next
  case False
  let ?i = "(n - 1) div 64"
  have d: "?i * 64 + (n - 1) mod 64 = n - 1" "(n - 1) mod 64 < 64" by simp_all
  then have b: "?i * 64 < n" "n \<le> (?i + 1) * 64" using False by (linarith, simp add: algebra_simps)
  have "n - ?i * 64 = (if n mod 64 = 0 then 64 else n mod 64)"
  proof (cases "n mod 64 = 0")
    case True
    then obtain q where q: "n = 64 * q" by blast
    then obtain p where "q = Suc p" using False by (cases q) auto
    then show ?thesis using q by (simp add: div_nat_eqI)
  next
    case ne: False
    have lt: "n mod 64 < 64" by simp
    have "?i = n div 64"
    proof (rule div_nat_eqI)
      show "64 * (n div 64) \<le> n - 1" using ne div_mult_mod_eq [of n 64] lt by linarith
      have "n < 64 * Suc (n div 64)" using div_mult_mod_eq [of n 64] lt unfolding mult_Suc_right by linarith
      then show "n - 1 < 64 * Suc (n div 64)" by (rule order_le_less_trans [OF diff_le_self])
    qed
    then show ?thesis using ne by (simp add: minus_div_mult_eq_mod)
  qed
  then have "bit (BITMAP_LAST_WORD_MASK n) i \<longleftrightarrow> ?i * 64 + i < n" for i
    using b(1) unfolding bit_last_mask by linarith
  then show ?thesis using find_last_from_ok [OF b] False by (simp add: find_last_bit_def)
qed

end
