(* ===== verification/Bitmap.thy ===== *)
theory Bitmap
  imports Bitops
begin

text \<open>
  The bitmap operations of \<^verbatim>\<open>lib/ulib/bitmap.c\<close> and \<^verbatim>\<open>include/linux/bitmap.h\<close>.  Each
  function that writes through \<^verbatim>\<open>dst\<close> takes the old contents of the array and returns the
  new ones.
\<close>

section \<open>Whole bitmaps\<close>

text \<open>A loop \<^verbatim>\<open>for (k = 0; k < lim; k++) dst[k] = f(k)\<close>.\<close>

definition store_words :: "(nat \<Rightarrow> 64 word) \<Rightarrow> nat \<Rightarrow> bitmap \<Rightarrow> bitmap" where
  "store_words f lim dst = fold (\<lambda>k d. d[k := f k]) [0..<lim] dst"

definition bitmap_zero :: "bitmap \<Rightarrow> nat \<Rightarrow> bitmap" where
  "bitmap_zero dst nbits = store_words (\<lambda>k. 0) (BITS_TO_LONGS nbits) dst"

definition bitmap_fill :: "bitmap \<Rightarrow> nat \<Rightarrow> bitmap" where
  "bitmap_fill dst nbits = store_words (\<lambda>k. NOT 0) (BITS_TO_LONGS nbits) dst"

definition bitmap_copy :: "bitmap \<Rightarrow> bitmap \<Rightarrow> nat \<Rightarrow> bitmap" where
  "bitmap_copy dst src nbits = store_words (\<lambda>k. src ! k) (BITS_TO_LONGS nbits) dst"

definition bitmap_copy_clear_tail :: "bitmap \<Rightarrow> bitmap \<Rightarrow> nat \<Rightarrow> bitmap" where
  "bitmap_copy_clear_tail dst src nbits =
     (let d = bitmap_copy dst src nbits in
      if nbits mod 64 \<noteq> 0
      then d[nbits div 64 := d ! (nbits div 64) AND BITMAP_LAST_WORD_MASK nbits] else d)"

definition bitmap_equal :: "bitmap \<Rightarrow> bitmap \<Rightarrow> nat \<Rightarrow> bool" where
  "bitmap_equal bitmap1 bitmap2 bits =
     (let lim = bits div 64 in
      list_all (\<lambda>k. bitmap1 ! k = bitmap2 ! k) [0..<lim] \<and>
      (bits mod 64 = 0 \<or> (bitmap1 ! lim XOR bitmap2 ! lim) AND BITMAP_LAST_WORD_MASK bits = 0))"

definition bitmap_complement :: "bitmap \<Rightarrow> bitmap \<Rightarrow> nat \<Rightarrow> bitmap" where
  "bitmap_complement dst src bits = store_words (\<lambda>k. NOT (src ! k)) (BITS_TO_LONGS bits) dst"

text \<open>\<^verbatim>\<open>__bitmap_and\<close> and \<^verbatim>\<open>__bitmap_andnot\<close> also say whether the result is not empty.\<close>

definition and_words :: "(nat \<Rightarrow> 64 word) \<Rightarrow> bitmap \<Rightarrow> nat \<Rightarrow> bool \<times> bitmap" where
  "and_words f dst bits =
     (let lim = bits div 64;
          d1 = store_words f lim dst;
          r1 = fold (\<lambda>k r. r OR f k) [0..<lim] 0
      in if bits mod 64 \<noteq> 0 then
           let v = f lim AND BITMAP_LAST_WORD_MASK bits in (r1 OR v \<noteq> 0, d1[lim := v])
         else (r1 \<noteq> 0, d1))"

definition bitmap_and :: "bitmap \<Rightarrow> bitmap \<Rightarrow> bitmap \<Rightarrow> nat \<Rightarrow> bool \<times> bitmap" where
  "bitmap_and dst bitmap1 bitmap2 bits = and_words (\<lambda>k. bitmap1 ! k AND bitmap2 ! k) dst bits"

definition bitmap_or :: "bitmap \<Rightarrow> bitmap \<Rightarrow> bitmap \<Rightarrow> nat \<Rightarrow> bitmap" where
  "bitmap_or dst bitmap1 bitmap2 bits =
     store_words (\<lambda>k. bitmap1 ! k OR bitmap2 ! k) (BITS_TO_LONGS bits) dst"

definition bitmap_xor :: "bitmap \<Rightarrow> bitmap \<Rightarrow> bitmap \<Rightarrow> nat \<Rightarrow> bitmap" where
  "bitmap_xor dst bitmap1 bitmap2 bits =
     store_words (\<lambda>k. bitmap1 ! k XOR bitmap2 ! k) (BITS_TO_LONGS bits) dst"

definition bitmap_andnot :: "bitmap \<Rightarrow> bitmap \<Rightarrow> bitmap \<Rightarrow> nat \<Rightarrow> bool \<times> bitmap" where
  "bitmap_andnot dst bitmap1 bitmap2 bits = and_words (\<lambda>k. bitmap1 ! k AND NOT (bitmap2 ! k)) dst bits"

text \<open>\<^verbatim>\<open>__bitmap_intersects\<close> and \<^verbatim>\<open>__bitmap_subset\<close>: is some word of a combination not 0?\<close>

definition some_word :: "(nat \<Rightarrow> 64 word) \<Rightarrow> nat \<Rightarrow> bool" where
  "some_word f bits =
     (let lim = bits div 64 in
      list_ex (\<lambda>k. f k \<noteq> 0) [0..<lim] \<or>
      (bits mod 64 \<noteq> 0 \<and> f lim AND BITMAP_LAST_WORD_MASK bits \<noteq> 0))"

definition bitmap_intersects :: "bitmap \<Rightarrow> bitmap \<Rightarrow> nat \<Rightarrow> bool" where
  "bitmap_intersects bitmap1 bitmap2 bits = some_word (\<lambda>k. bitmap1 ! k AND bitmap2 ! k) bits"

definition bitmap_subset :: "bitmap \<Rightarrow> bitmap \<Rightarrow> nat \<Rightarrow> bool" where
  "bitmap_subset bitmap1 bitmap2 bits = (\<not> some_word (\<lambda>k. bitmap1 ! k AND NOT (bitmap2 ! k)) bits)"

definition bitmap_empty :: "bitmap \<Rightarrow> nat \<Rightarrow> bool" where
  "bitmap_empty src nbits = (find_first_bit src nbits = nbits)"

definition bitmap_full :: "bitmap \<Rightarrow> nat \<Rightarrow> bool" where
  "bitmap_full src nbits = (find_first_zero_bit src nbits = nbits)"

section \<open>Shifts\<close>

text \<open>
  \<^verbatim>\<open>src\<close> may be the same array as \<^verbatim>\<open>dst\<close> (as in \<^verbatim>\<open>__bitmap_parse\<close>): then \<open>src\<close> is
  \<open>None\<close> and the loop reads what it has written.
\<close>

definition src_word :: "bitmap option \<Rightarrow> bitmap \<Rightarrow> nat \<Rightarrow> 64 word" where
  "src_word src dst k = (case src of None \<Rightarrow> dst ! k | Some s \<Rightarrow> s ! k)"

definition shift_right_word :: "(nat \<Rightarrow> 64 word) \<Rightarrow> nat \<Rightarrow> nat \<Rightarrow> nat \<Rightarrow> 64 word \<Rightarrow> nat \<Rightarrow> 64 word" where
  "shift_right_word src off rem lim msk k =
     (let upper =
            (if rem = 0 \<or> off + k + 1 \<ge> lim then 0
             else
               let u = src (off + k + 1);
                   u' = (if off + k + 1 = lim - 1 then u AND msk else u)
               in push_bit (64 - rem) u');
          l = src (off + k);
          l' = (if off + k = lim - 1 then l AND msk else l);
          lower = drop_bit rem l'
      in lower OR upper)"

definition bitmap_shift_right :: "bitmap \<Rightarrow> bitmap option \<Rightarrow> nat \<Rightarrow> nat \<Rightarrow> bitmap" where
  "bitmap_shift_right dst src shift nbits =
     (let lim = BITS_TO_LONGS nbits; off = shift div 64; rem = shift mod 64;
          msk = BITMAP_LAST_WORD_MASK nbits;
          d1 = fold (\<lambda>k d. d[k := shift_right_word (src_word src d) off rem lim msk k]) [0..<lim - off] dst
      in fold (\<lambda>k d. d[k := 0]) [lim - off..<lim] d1)"

definition shift_left_word :: "(nat \<Rightarrow> 64 word) \<Rightarrow> nat \<Rightarrow> nat \<Rightarrow> 64 word" where
  "shift_left_word src rem k =
     (let lower = (if rem \<noteq> 0 \<and> k > 0 then drop_bit (64 - rem) (src (k - 1)) else 0);
          upper = push_bit rem (src k)
      in lower OR upper)"

definition bitmap_shift_left :: "bitmap \<Rightarrow> bitmap option \<Rightarrow> nat \<Rightarrow> nat \<Rightarrow> bitmap" where
  "bitmap_shift_left dst src shift nbits =
     (let lim = BITS_TO_LONGS nbits; off = shift div 64; rem = shift mod 64;
          d1 = fold (\<lambda>k d. d[k + off := shift_left_word (src_word src d) rem k]) (rev [0..<lim - off]) dst
      in fold (\<lambda>k d. d[k := 0]) [0..<off] d1)"

section \<open>Runs of bits\<close>

text \<open>
  The loops of \<^verbatim>\<open>__bitmap_set\<close> and \<^verbatim>\<open>__bitmap_clear\<close>; \<open>b\<close> is \<^verbatim>\<open>bits_to_set - 1\<close>, which
  is never negative.
\<close>

function bitmap_set_loop :: "bitmap \<Rightarrow> nat \<Rightarrow> nat \<Rightarrow> nat \<Rightarrow> 64 word \<Rightarrow> bitmap \<times> nat \<times> nat \<times> 64 word" where
  "bitmap_set_loop bm p len b msk =
     (if len \<ge> Suc b then bitmap_set_loop (bm[p := bm ! p OR msk]) (p + 1) (len - Suc b) 63 (NOT 0)
      else (bm, p, len, msk))"
  by pat_completeness auto
termination
  by (relation "measure (\<lambda>(m, p, len, b, k). len)") auto

definition bitmap_set :: "bitmap \<Rightarrow> nat \<Rightarrow> nat \<Rightarrow> bitmap" where
  "bitmap_set bm start len =
     (let sz = start + len;
          (bm', p, len', msk) =
            bitmap_set_loop bm (BIT_WORD start) len (64 - start mod 64 - 1) (BITMAP_FIRST_WORD_MASK start)
      in if len' \<noteq> 0 then bm'[p := bm' ! p OR (msk AND BITMAP_LAST_WORD_MASK sz)] else bm')"

function bitmap_clear_loop :: "bitmap \<Rightarrow> nat \<Rightarrow> nat \<Rightarrow> nat \<Rightarrow> 64 word \<Rightarrow> bitmap \<times> nat \<times> nat \<times> 64 word" where
  "bitmap_clear_loop bm p len b msk =
     (if len \<ge> Suc b then bitmap_clear_loop (bm[p := bm ! p AND NOT msk]) (p + 1) (len - Suc b) 63 (NOT 0)
      else (bm, p, len, msk))"
  by pat_completeness auto
termination
  by (relation "measure (\<lambda>(m, p, len, b, k). len)") auto

definition bitmap_clear :: "bitmap \<Rightarrow> nat \<Rightarrow> nat \<Rightarrow> bitmap" where
  "bitmap_clear bm start len =
     (let sz = start + len;
          (bm', p, len', msk) =
            bitmap_clear_loop bm (BIT_WORD start) len (64 - start mod 64 - 1) (BITMAP_FIRST_WORD_MASK start)
      in if len' \<noteq> 0 then bm'[p := bm' ! p AND NOT (msk AND BITMAP_LAST_WORD_MASK sz)] else bm')"

declare bitmap_set_loop.simps [simp del] bitmap_clear_loop.simps [simp del]

text \<open>
  The loop under the label \<^verbatim>\<open>again\<close>; for a mask that is one less than a power of two the
  start grows in every round, and \<open>sz + 1\<close> rounds are enough.
\<close>

definition ALIGN_MASK :: "nat \<Rightarrow> nat \<Rightarrow> nat" where
  "ALIGN_MASK x msk = add64 x msk AND not64 msk"

primrec find_zero_area_loop :: "nat \<Rightarrow> bitmap \<Rightarrow> nat \<Rightarrow> nat \<Rightarrow> nat \<Rightarrow> nat \<Rightarrow> nat \<Rightarrow> nat res" where
  "find_zero_area_loop 0 bm sz start nr align_mask align_offset = Inl Fuel"
| "find_zero_area_loop (Suc n) bm sz start nr align_mask align_offset =
     (let index0 = find_next_zero_bit bm sz start;
          index = sub64 (ALIGN_MASK (add64 index0 align_offset) align_mask) align_offset;
          end = add64 index nr
      in if end > sz then Inr end
         else
           let i = find_next_bit bm end index in
           if i < end then find_zero_area_loop n bm sz (i + 1) nr align_mask align_offset
           else Inr index)"

definition bitmap_find_next_zero_area_off :: "bitmap \<Rightarrow> nat \<Rightarrow> nat \<Rightarrow> nat \<Rightarrow> nat \<Rightarrow> nat \<Rightarrow> nat res" where
  "bitmap_find_next_zero_area_off bm sz start nr align_mask align_offset =
     find_zero_area_loop (sz + 1) bm sz start nr align_mask align_offset"

definition bitmap_find_next_zero_area :: "bitmap \<Rightarrow> nat \<Rightarrow> nat \<Rightarrow> nat \<Rightarrow> nat \<Rightarrow> nat res" where
  "bitmap_find_next_zero_area bm sz start nr align_mask =
     bitmap_find_next_zero_area_off bm sz start nr align_mask 0"

end
