(* ===== verification/Bitmap_Spec.thy ===== *)
theory Bitmap_Spec
  imports Bitmap
begin

text \<open>
  What the bitmap operations do to the single bits of their arguments.
\<close>

section \<open>Words and bits\<close>

lemma fold_store_nth:
  "length (fold (\<lambda>k d. d[k := f k]) ks d) = length d"
  "j < length d \<Longrightarrow> fold (\<lambda>k d. d[k := f k]) ks d ! j = (if j \<in> set ks then f j else d ! j)"
  by (induction ks arbitrary: d) auto

lemma store_words_nth [simp]:
  "length (store_words f lim dst) = length dst"
  "j < length dst \<Longrightarrow> store_words f lim dst ! j = (if j < lim then f j else dst ! j)"
  by (simp_all add: store_words_def fold_store_nth)

text \<open>The array has room for \<open>n\<close> bits.\<close>

definition has_bits :: "bitmap \<Rightarrow> nat \<Rightarrow> bool" where
  "has_bits bm n \<longleftrightarrow> BITS_TO_LONGS n \<le> length bm"

lemma BITS_TO_LONGS_less: "k < BITS_TO_LONGS n \<longleftrightarrow> k * 64 < n"
  unfolding BITS_TO_LONGS_def by linarith

lemma has_bits_word: "has_bits bm n \<Longrightarrow> i < n \<Longrightarrow> i div 64 < length bm"
  using BITS_TO_LONGS_less [of "i div 64" n] div_times_less_eq_dividend [of i 64]
  unfolding has_bits_def by linarith

lemma word_in_range: "i < n \<Longrightarrow> i div 64 < BITS_TO_LONGS n"
  using BITS_TO_LONGS_less [of "i div 64" n] div_times_less_eq_dividend [of i 64] by linarith

lemma test_bit_store:
  assumes "i div 64 < length dst"
  shows "test_bit (store_words f lim dst) i =
    (if i div 64 < lim then bit (f (i div 64)) (i mod 64) else test_bit dst i)"
  using assms by (simp add: test_bit_iff)

lemma test_bit_update:
  assumes "i div 64 < length bm"
  shows "test_bit (bm[k := w]) i = (if i div 64 = k then bit w (i mod 64) else test_bit bm i)"
  using assms by (simp add: test_bit_iff)

text \<open>The bits below \<open>n\<close>, word by word: the full words and the masked last one.\<close>

lemma last_word_split:
  assumes "n mod 64 \<noteq> 0"
  shows "bit (w AND BITMAP_LAST_WORD_MASK n) j \<longleftrightarrow> bit w j \<and> n div 64 * 64 + j < n"
proof -
  have "n div 64 * 64 + n mod 64 = n" by simp
  then have "n div 64 * 64 + j < n \<longleftrightarrow> j < n mod 64" by linarith
  then show ?thesis using assms by (auto simp: bit_and_iff bit_last_mask)
qed

lemma some_word_iff:
  "some_word f n \<longleftrightarrow> (\<exists>i < n. bit (f (i div 64)) (i mod 64))"
proof
  assume "some_word f n"
  then consider (full) k where "k < n div 64" "f k \<noteq> 0"
    | (tail) "n mod 64 \<noteq> 0" "f (n div 64) AND BITMAP_LAST_WORD_MASK n \<noteq> 0"
    by (auto simp: some_word_def Let_def list_ex_iff)
  then show "\<exists>i < n. bit (f (i div 64)) (i mod 64)"
  proof cases
    case full
    obtain j where j: "j < 64" "bit (f k) j" using word64_nonzero_bit [OF full(2)] by blast
    have "n div 64 * 64 \<le> n" by simp
    moreover have "k * 64 + 64 \<le> n div 64 * 64"
      using mult_le_mono1 [of "k + 1" "n div 64" 64] full(1) by simp
    ultimately have "k * 64 + j < n" using j(1) by linarith
    moreover have "(k * 64 + j) div 64 = k" "(k * 64 + j) mod 64 = j" using j(1) by simp_all
    ultimately show ?thesis using j(2) by metis
  next
    case tail
    obtain j where j: "j < 64" "bit (f (n div 64) AND BITMAP_LAST_WORD_MASK n) j"
      using word64_nonzero_bit [OF tail(2)] by blast
    then have "bit (f (n div 64)) j" "n div 64 * 64 + j < n" using last_word_split [OF tail(1)] by simp_all
    moreover have "(n div 64 * 64 + j) div 64 = n div 64" "(n div 64 * 64 + j) mod 64 = j" using j(1) by simp_all
    ultimately show ?thesis by metis
  qed
next
  assume "\<exists>i < n. bit (f (i div 64)) (i mod 64)"
  then obtain i where i: "i < n" "bit (f (i div 64)) (i mod 64)" by blast
  show "some_word f n"
  proof (cases "i div 64 < n div 64")
    case True
    have "f (i div 64) \<noteq> 0" using i(2) by auto
    then show ?thesis using True by (auto simp: some_word_def Let_def list_ex_iff)
  next
    case False
    then have e: "i div 64 = n div 64" using i(1) by (simp add: div_le_mono le_antisym)
    then have "n div 64 * 64 + i mod 64 = i" by (metis div_mult_mod_eq)
    then have "n mod 64 \<noteq> 0" "n div 64 * 64 + i mod 64 < n" using i(1) div_mult_mod_eq [of n 64] by linarith+
    then have "bit (f (n div 64) AND BITMAP_LAST_WORD_MASK n) (i mod 64)" using i(2) e last_word_split by simp
    then have "f (n div 64) AND BITMAP_LAST_WORD_MASK n \<noteq> 0" by (metis bit_0_eq bot_apply bot_bool_def)
    then show ?thesis using \<open>n mod 64 \<noteq> 0\<close> by (simp add: some_word_def Let_def)
  qed
qed

section \<open>Comparisons\<close>

lemma word_xor_eq_0: "a XOR b = 0 \<longleftrightarrow> a = b" for a b :: "64 word"
proof
  assume "a XOR b = 0"
  then have "(a XOR b) XOR b = b" by simp
  then show "a = b" by (simp add: xor.assoc)
qed simp

lemma first_from_none_iff: "first_from B s n = n \<longleftrightarrow> (\<forall>i. s \<le> i \<and> i < n \<longrightarrow> \<not> B i)"
  by (rule first_from_cases [where B = B and s = s and n = n]) (metis, metis less_irrefl)

lemma bitmap_equal_iff: "bitmap_equal a b n \<longleftrightarrow> (\<forall>i < n. test_bit a i = test_bit b i)"
proof -
  have "bitmap_equal a b n \<longleftrightarrow> \<not> some_word (\<lambda>k. a ! k XOR b ! k) n"
    by (auto simp: bitmap_equal_def some_word_def Let_def list_all_iff list_ex_iff word_xor_eq_0)
  then show ?thesis by (simp add: some_word_iff test_bit_iff bit_xor_iff)
qed

lemma bitmap_intersects_iff: "bitmap_intersects a b n \<longleftrightarrow> (\<exists>i < n. test_bit a i \<and> test_bit b i)"
  by (simp add: bitmap_intersects_def some_word_iff test_bit_iff bit_and_iff)

lemma bitmap_subset_iff: "bitmap_subset a b n \<longleftrightarrow> (\<forall>i < n. test_bit a i \<longrightarrow> test_bit b i)"
  by (auto simp: bitmap_subset_def some_word_iff test_bit_iff bit_and_iff bit_not_iff)

lemma bitmap_empty_iff: "bitmap_empty a n \<longleftrightarrow> (\<forall>i < n. \<not> test_bit a i)"
  by (simp add: bitmap_empty_def find_first_bit_ok first_from_none_iff)

lemma bitmap_full_iff: "bitmap_full a n \<longleftrightarrow> (\<forall>i < n. test_bit a i)"
  by (simp add: bitmap_full_def find_first_zero_bit_ok first_from_none_iff)

section \<open>Word-wise operations\<close>

lemma fold_or_words: "fold (\<lambda>k r. r OR f k) ks r = 0 \<longleftrightarrow> r = 0 \<and> (\<forall>k \<in> set ks. f k = (0 :: 64 word))"
  by (induction ks arbitrary: r) (auto simp: or_eq_0_iff)

lemma and_words_fst: "fst (and_words f dst n) \<longleftrightarrow> (\<exists>i < n. bit (f (i div 64)) (i mod 64))"
proof -
  have "fst (and_words f dst n) \<longleftrightarrow> some_word f n"
    using fold_or_words [of f "[0..<n div 64]" 0]
    by (auto simp: and_words_def some_word_def Let_def list_ex_iff or_eq_0_iff)
  then show ?thesis by (simp add: some_word_iff)
qed

lemma and_words_bit:
  assumes "has_bits dst n" and "i < 64 * BITS_TO_LONGS n"
  shows "test_bit (snd (and_words f dst n)) i \<longleftrightarrow> i < n \<and> bit (f (i div 64)) (i mod 64)"
proof -
  have w: "i div 64 < BITS_TO_LONGS n" "i div 64 < length dst"
    using assms by (auto simp: has_bits_def less_mult_imp_div_less mult.commute)
  have i: "i div 64 * 64 + i mod 64 = i" and n: "n div 64 * 64 + n mod 64 = n" by simp_all
  show ?thesis
  proof (cases "i div 64 < n div 64")
    case True
    then have "i < n" by (metis div_le_mono leD leI)
    then show ?thesis using True w(2) by (simp add: and_words_def Let_def test_bit_store test_bit_update)
  next
    case False
    have "i div 64 * 64 < n" using w(1) by (simp add: BITS_TO_LONGS_less)
    then have e: "i div 64 = n div 64" and m: "n mod 64 \<noteq> 0"
      using False n by (metis div_le_mono le_antisym less_imp_le nonzero_mult_div_cancel_right not_less zero_neq_numeral,
          metis False add.right_neutral div_mult_self_is_m linorder_not_less mult_le_mono1 not_less order_less_le_trans)
    have "i < n \<longleftrightarrow> n div 64 * 64 + i mod 64 < n" using e i by simp
    then show ?thesis
      using e m w(2) last_word_split [OF m, of "f (n div 64)" "i mod 64"]
      by (auto simp: and_words_def Let_def test_bit_update)
  qed
qed

lemma and_words_length: "length (snd (and_words f dst n)) = length dst"
  by (simp add: and_words_def Let_def)

section \<open>Runs of bits\<close>

text \<open>
  The loops of \<^verbatim>\<open>__bitmap_set\<close> and \<^verbatim>\<open>__bitmap_clear\<close> share their control flow; the word
  operation is the parameter here.
\<close>

function run_loop ::
  "(64 word \<Rightarrow> 64 word \<Rightarrow> 64 word) \<Rightarrow> bitmap \<Rightarrow> nat \<Rightarrow> nat \<Rightarrow> nat \<Rightarrow> 64 word \<Rightarrow> bitmap \<times> nat \<times> nat \<times> 64 word" where
  "run_loop g bm p len b msk =
     (if len \<ge> Suc b then run_loop g (bm[p := g (bm ! p) msk]) (p + 1) (len - Suc b) 63 (NOT 0)
      else (bm, p, len, msk))"
  by pat_completeness auto
termination
  by (relation "measure (\<lambda>(g, m, p, len, b, k). len)") auto

declare run_loop.simps [simp del]

definition run_op :: "(64 word \<Rightarrow> 64 word \<Rightarrow> 64 word) \<Rightarrow> bitmap \<Rightarrow> nat \<Rightarrow> nat \<Rightarrow> bitmap" where
  "run_op g bm start len =
     (let (bm', p, len', msk) = run_loop g bm (BIT_WORD start) len (64 - start mod 64 - 1) (BITMAP_FIRST_WORD_MASK start)
      in if len' \<noteq> 0 then bm'[p := g (bm' ! p) (msk AND BITMAP_LAST_WORD_MASK (start + len))] else bm')"

lemma bitmap_set_loop_run: "bitmap_set_loop bm p len b msk = run_loop (\<lambda>w m. w OR m) bm p len b msk"
  by (induction bm p len b msk rule: bitmap_set_loop.induct)
    (subst bitmap_set_loop.simps, subst run_loop.simps, simp)

lemma bitmap_clear_loop_run: "bitmap_clear_loop bm p len b msk = run_loop (\<lambda>w m. w AND NOT m) bm p len b msk"
  by (induction bm p len b msk rule: bitmap_clear_loop.induct)
    (subst bitmap_clear_loop.simps, subst run_loop.simps, simp)

lemma bitmap_set_run: "bitmap_set = run_op (\<lambda>w m. w OR m)"
  by (simp add: fun_eq_iff bitmap_set_def run_op_def bitmap_set_loop_run Let_def)

lemma bitmap_clear_run: "bitmap_clear = run_op (\<lambda>w m. w AND NOT m)"
  by (simp add: fun_eq_iff bitmap_clear_def run_op_def bitmap_clear_loop_run Let_def)

text \<open>
  A word operation that acts bit by bit: \<open>h old\<close> is the new bit under the mask.
\<close>

definition bitwise_op :: "(64 word \<Rightarrow> 64 word \<Rightarrow> 64 word) \<Rightarrow> (bool \<Rightarrow> bool) \<Rightarrow> bool" where
  "bitwise_op g h \<longleftrightarrow> (\<forall>w m j. j < 64 \<longrightarrow> bit (g w m) j = (if bit m j then h (bit w j) else bit w j))"

text \<open>What is left after the loop: the words from \<open>p\<close> on, \<open>len'\<close> bits of them, under \<open>msk\<close>.\<close>

lemma run_word:
  assumes "bitwise_op g h" and "p < length bm" and "i < 64 * length bm"
  shows "test_bit (bm[p := g (bm ! p) msk]) i =
    (if i div 64 = p \<and> bit msk (i mod 64) then h (test_bit bm i) else test_bit bm i)"
proof -
  have "i div 64 < length bm" using assms(3) by (simp add: less_mult_imp_div_less mult.commute)
  moreover have "bit (g w m) (i mod 64) = (if bit m (i mod 64) then h (bit w (i mod 64)) else bit w (i mod 64))" for w m
    using assms(1) by (simp add: bitwise_op_def)
  ultimately show ?thesis by (cases "i div 64 = p") (simp_all add: test_bit_iff)
qed

lemma in_word_iff:
  assumes "c < (64 :: nat)"
  shows "i div 64 = p \<and> c \<le> i mod 64 \<longleftrightarrow> p * 64 + c \<le> i \<and> i < (p + 1) * 64"
proof
  assume "i div 64 = p \<and> c \<le> i mod 64"
  then show "p * 64 + c \<le> i \<and> i < (p + 1) * 64"
    using div_mult_mod_eq [of i 64] mod_less_divisor [of 64 i] by auto
next
  assume a: "p * 64 + c \<le> i \<and> i < (p + 1) * 64"
  then have "i div 64 = p" by (intro div_nat_eqI) (simp_all add: algebra_simps)
  then show "i div 64 = p \<and> c \<le> i mod 64" using a div_mult_mod_eq [of i 64] by auto
qed

lemma run_loop_ok:
  assumes g: "bitwise_op g h" and "b < 64"
    and "\<And>j. j < 64 \<Longrightarrow> bit msk j \<longleftrightarrow> 63 - b \<le> j" and "p * 64 + (63 - b) + len \<le> 64 * length bm"
    and "run_loop g bm p len b msk = (bm', p', len', msk')"
  shows "length bm' = length bm \<and>
    (\<exists>s'. p * 64 + (63 - b) \<le> s' \<and> s' + len' = p * 64 + (63 - b) + len \<and> p' = s' div 64 \<and> s' mod 64 + len' < 64 \<and>
       (\<forall>j < 64. bit msk' j \<longleftrightarrow> s' mod 64 \<le> j) \<and>
       (\<forall>i < 64 * length bm. test_bit bm' i =
          (if p * 64 + (63 - b) \<le> i \<and> i < s' then h (test_bit bm i) else test_bit bm i)))"
  using assms(2-5)
proof (induction len arbitrary: bm p b msk rule: less_induct)
  case (less len)
  let ?s = "p * 64 + (63 - b)"
  show ?case
  proof (cases "Suc b \<le> len")
    case False
    then have r: "bm' = bm" "p' = p" "len' = len" "msk' = msk"
      using less.prems(4) by (subst (asm) run_loop.simps, simp)+
    have c: "63 - b < 64" by simp
    have "?s div 64 = p" "?s mod 64 = 63 - b"
      using in_word_iff [OF c, of ?s p] c by (simp_all only: mod_mult_self3 mod_less div_mult_self3)
    then show ?thesis
      using r False less.prems(1,2) by (intro conjI exI [of _ ?s]) auto
  next
    case True
    let ?bm = "bm[p := g (bm ! p) msk]"
    have s1: "?s + Suc b = (p + 1) * 64" using less.prems(1) by simp
    have run: "run_loop g ?bm (p + 1) (len - Suc b) 63 (NOT 0) = (bm', p', len', msk')"
      using less.prems(4) True by (subst (asm) run_loop.simps) simp
    have room: "(p + 1) * 64 + (len - Suc b) \<le> 64 * length bm" using less.prems(3) True s1 by linarith
    then have p: "p < length bm" by simp
    have "length bm' = length ?bm \<and>
      (\<exists>s'. (p + 1) * 64 + (63 - 63) \<le> s' \<and> s' + len' = (p + 1) * 64 + (63 - 63) + (len - Suc b) \<and>
         p' = s' div 64 \<and> s' mod 64 + len' < 64 \<and> (\<forall>j < 64. bit msk' j \<longleftrightarrow> s' mod 64 \<le> j) \<and>
         (\<forall>i < 64 * length ?bm. test_bit bm' i =
            (if (p + 1) * 64 + (63 - 63) \<le> i \<and> i < s' then h (test_bit ?bm i) else test_bit ?bm i)))"
      using True room by (intro less.IH [OF _ _ _ _ run]) simp_all
    then obtain s' where l: "length bm' = length bm" and s': "(p + 1) * 64 \<le> s'" "s' + len' = ?s + len"
      "p' = s' div 64" "s' mod 64 + len' < 64" "\<forall>j < 64. bit msk' j \<longleftrightarrow> s' mod 64 \<le> j"
      "\<forall>i < 64 * length bm. test_bit bm' i =
            (if (p + 1) * 64 \<le> i \<and> i < s' then h (test_bit ?bm i) else test_bit ?bm i)"
      using True s1 by auto
    have "test_bit bm' i = (if ?s \<le> i \<and> i < s' then h (test_bit bm i) else test_bit bm i)"
      if i: "i < 64 * length bm" for i
    proof -
      have c: "63 - b < 64" by simp
      have "test_bit ?bm i = (if ?s \<le> i \<and> i < (p + 1) * 64 then h (test_bit bm i) else test_bit bm i)"
        using run_word [OF g p i, of msk] less.prems(2) [of "i mod 64"] in_word_iff [OF c, of i p] by simp
      then show ?thesis using s'(1,6) i s1 by auto
    qed
    moreover have "?s \<le> s'" using s'(1) s1 by linarith
    ultimately show ?thesis using l s'(2-5) by blast
  qed
qed

lemma run_op_ok:
  assumes g: "bitwise_op g h" and room: "start + len \<le> 64 * length bm" and i: "i < 64 * length bm"
  shows "length (run_op g bm start len) = length bm"
    and "test_bit (run_op g bm start len) i =
      (if start \<le> i \<and> i < start + len then h (test_bit bm i) else test_bit bm i)"
proof -
  obtain bm' p' len' msk' where r:
    "run_loop g bm (BIT_WORD start) len (64 - start mod 64 - 1) (BITMAP_FIRST_WORD_MASK start) = (bm', p', len', msk')"
    by (cases "run_loop g bm (BIT_WORD start) len (64 - start mod 64 - 1) (BITMAP_FIRST_WORD_MASK start)")
  have m: "start mod 64 < 64" by simp
  then have b: "63 - (64 - start mod 64 - 1) = start mod 64" by linarith
  have st: "BIT_WORD start * 64 + start mod 64 = start" by (simp add: BIT_WORD_def)
  have "length bm' = length bm \<and>
    (\<exists>s'. start \<le> s' \<and> s' + len' = start + len \<and> p' = s' div 64 \<and> s' mod 64 + len' < 64 \<and>
       (\<forall>j < 64. bit msk' j \<longleftrightarrow> s' mod 64 \<le> j) \<and>
       (\<forall>i < 64 * length bm. test_bit bm' i = (if start \<le> i \<and> i < s' then h (test_bit bm i) else test_bit bm i)))"
    using run_loop_ok [OF g _ _ _ r] room unfolding b st by (simp add: bit_first_mask)
  then obtain s' where l: "length bm' = length bm" and s': "start \<le> s'" "s' + len' = start + len" "p' = s' div 64"
    "s' mod 64 + len' < 64" "\<forall>j < 64. bit msk' j \<longleftrightarrow> s' mod 64 \<le> j"
    and t: "\<And>i. i < 64 * length bm \<Longrightarrow>
      test_bit bm' i = (if start \<le> i \<and> i < s' then h (test_bit bm i) else test_bit bm i)" by blast
  let ?m = "msk' AND BITMAP_LAST_WORD_MASK (start + len)"
  have run: "run_op g bm start len = (if len' \<noteq> 0 then bm'[p' := g (bm' ! p') ?m] else bm')"
    unfolding run_op_def r by simp
  then show "length (run_op g bm start len) = length bm" by (simp add: l)
  show "test_bit (run_op g bm start len) i =
      (if start \<le> i \<and> i < start + len then h (test_bit bm i) else test_bit bm i)"
  proof (cases "len' = 0")
    case True
    then show ?thesis using run t [OF i] s'(2) by simp
  next
    case False
    have e: "(start + len) mod 64 = s' mod 64 + len'" "(start + len) div 64 = s' div 64"
    proof -
      have "s' + len' = s' div 64 * 64 + (s' mod 64 + len')" by simp
      then show "(start + len) mod 64 = s' mod 64 + len'" "(start + len) div 64 = s' div 64"
        using s'(2,4) by (metis mod_less mod_mult_self3, metis (no_types, lifting) add.right_neutral div_less div_mult_self3 mod_mult_self3 zero_neq_numeral)
    qed
    have mk: "bit ?m j \<longleftrightarrow> s' mod 64 \<le> j \<and> j < s' mod 64 + len'" if "j < 64" for j
      using that s'(5) False e(1) by (simp add: bit_and_iff bit_last_mask)
    have p: "p' < length bm'"
    proof -
      have "s' < 64 * length bm" using s'(2) room False by linarith
      then show ?thesis using s'(3) l by (simp add: less_mult_imp_div_less mult.commute)
    qed
    have "i div 64 = p' \<and> bit ?m (i mod 64) \<longleftrightarrow> s' \<le> i \<and> i < s' + len'"
    proof -
      have d: "p' * 64 + s' mod 64 = s'" "i div 64 * 64 + i mod 64 = i" using s'(3) by simp_all
      have lt: "s' mod 64 < 64" "i mod 64 < 64" by simp_all
      show ?thesis
      proof
        assume "i div 64 = p' \<and> bit ?m (i mod 64)"
        then show "s' \<le> i \<and> i < s' + len'" using mk [OF lt(2)] d by (metis add.assoc add_le_cancel_left nat_add_left_cancel_less)
      next
        assume a: "s' \<le> i \<and> i < s' + len'"
        then have "i < (p' + 1) * 64" using d(1) s'(4) by simp
        then have "i div 64 = p'" "s' mod 64 \<le> i mod 64" using in_word_iff [OF lt(1), of i p'] a d(1) by simp_all
        moreover from this have "i mod 64 < s' mod 64 + len'" using a d by linarith
        ultimately show "i div 64 = p' \<and> bit ?m (i mod 64)" using mk [OF lt(2)] by blast
      qed
    qed
    then have "test_bit (run_op g bm start len) i =
        (if s' \<le> i \<and> i < s' + len' then h (test_bit bm' i) else test_bit bm' i)"
      using run_word [OF g p, of i ?m] i l run False by simp
    then show ?thesis using t [OF i] s'(1,2) by auto
  qed
qed

lemma bitmap_set_ok:
  assumes "start + len \<le> 64 * length bm" and "i < 64 * length bm"
  shows "length (bitmap_set bm start len) = length bm"
    and "test_bit (bitmap_set bm start len) i \<longleftrightarrow> start \<le> i \<and> i < start + len \<or> test_bit bm i"
proof -
  have "bitwise_op (\<lambda>w m. w OR m) (\<lambda>x. True)" by (simp add: bitwise_op_def bit_or_iff)
  note r = run_op_ok [OF this assms]
  show "length (bitmap_set bm start len) = length bm"
    "test_bit (bitmap_set bm start len) i \<longleftrightarrow> start \<le> i \<and> i < start + len \<or> test_bit bm i"
    using r by (auto simp: bitmap_set_run)
qed

lemma bitmap_clear_ok:
  assumes "start + len \<le> 64 * length bm" and "i < 64 * length bm"
  shows "length (bitmap_clear bm start len) = length bm"
    and "test_bit (bitmap_clear bm start len) i \<longleftrightarrow> \<not> (start \<le> i \<and> i < start + len) \<and> test_bit bm i"
proof -
  have "bitwise_op (\<lambda>w m. w AND NOT m) (\<lambda>x. False)" by (simp add: bitwise_op_def bit_and_iff bit_not_iff)
  note r = run_op_ok [OF this assms]
  show "length (bitmap_clear bm start len) = length bm"
    "test_bit (bitmap_clear bm start len) i \<longleftrightarrow> \<not> (start \<le> i \<and> i < start + len) \<and> test_bit bm i"
    using r by (auto simp: bitmap_clear_run)
qed

end
