(* ===== verification/Bitmap_Shifts.thy ===== *)
theory Bitmap_Shifts
  imports Bitmap_Spec
begin

text \<open>
  \<^verbatim>\<open>__bitmap_shift_right\<close> and \<^verbatim>\<open>__bitmap_shift_left\<close> move every bit by the shift, also when
  source and destination are the same array.
\<close>

section \<open>Shifts\<close>

text \<open>
  Storing in increasing order what depends only on words not yet overwritten, and the same
  in decreasing order for a destination that is never below the source.
\<close>

lemma fold_store_up:
  assumes "\<And>d' k. k < m \<Longrightarrow> (\<And>j. k \<le> j \<Longrightarrow> j < length d \<Longrightarrow> d' ! j = d ! j) \<Longrightarrow> F d' k = F d k"
  shows "fold (\<lambda>k d. d[k := F d k]) [0..<m] d = fold (\<lambda>k d'. d'[k := F d k]) [0..<m] d"
  using assms
proof (induction m)
  case 0
  then show ?case by simp
next
  case (Suc m)
  let ?d = "fold (\<lambda>k d'. d'[k := F d k]) [0..<m] d"
  have IH: "fold (\<lambda>k d. d[k := F d k]) [0..<m] d = ?d"
    by (rule Suc.IH) (rule Suc.prems, simp_all)
  have "?d ! j = d ! j" if "m \<le> j" "j < length d" for j
    using that fold_store_nth(2) [of j d "F d" "[0..<m]"] by simp
  then have "F ?d m = F d m" by (rule Suc.prems [OF lessI])
  then show ?case by (simp add: IH)
qed

lemma fold_store_down:
  assumes "\<forall>k d'. k < m \<and> (\<forall>j \<le> k. d' ! j = d ! j) \<longrightarrow> F d' k = F d k" and "m + off \<le> length d"
  shows "length (fold (\<lambda>k d. d[k + off := F d k]) (rev [0..<m]) d) = length d \<and>
    (\<forall>j < length d. fold (\<lambda>k d. d[k + off := F d k]) (rev [0..<m]) d ! j =
      (if off \<le> j \<and> j < m + off then F d (j - off) else d ! j))"
  using assms
proof (induction m arbitrary: d)
  case 0
  then show ?case by auto
next
  case (Suc m)
  let ?d = "d[m + off := F d m]"
  have step: "fold (\<lambda>k d. d[k + off := F d k]) (rev [0..<Suc m]) d = fold (\<lambda>k d. d[k + off := F d k]) (rev [0..<m]) ?d"
    by simp
  have low: "?d ! j = d ! j" if "j < m + off" for j using that by simp
  have F: "F d' k = F d k" if "k < m" "\<forall>j \<le> k. d' ! j = ?d ! j" for d' k
  proof -
    have "\<forall>j \<le> k. d' ! j = d ! j" using that low by simp
    then show ?thesis using Suc.prems(1) that(1) less_SucI [of k m] by blast
  qed
  have law: "\<forall>k d'. k < m \<and> (\<forall>j \<le> k. d' ! j = ?d ! j) \<longrightarrow> F d' k = F ?d k"
  proof (intro allI impI)
    fix k d'
    assume a: "k < m \<and> (\<forall>j \<le> k. d' ! j = ?d ! j)"
    have "F d' k = F d k" by (rule F) (use a in simp_all)
    moreover have "F ?d k = F d k" by (rule F) (use a in simp_all)
    ultimately show "F d' k = F ?d k" by simp
  qed
  have len: "m + off \<le> length ?d" using Suc.prems(2) by simp
  have Fd: "F ?d k = F d k" if "k < m" for k by (rule F [OF that]) simp
  show ?case unfolding step
  proof (intro conjI allI impI)
    show "length (fold (\<lambda>k d. d[k + off := F d k]) (rev [0..<m]) ?d) = length d"
      using Suc.IH [OF law len] by simp
    fix j
    assume j: "j < length d"
    then have "fold (\<lambda>k d. d[k + off := F d k]) (rev [0..<m]) ?d ! j =
      (if off \<le> j \<and> j < m + off then F ?d (j - off) else ?d ! j)"
      using Suc.IH [OF law len] by simp
    also have "\<dots> = (if off \<le> j \<and> j < Suc m + off then F d (j - off) else d ! j)"
      using j Fd [of "j - off"] by (cases "j = m + off") auto
    finally show "fold (\<lambda>k d. d[k + off := F d k]) (rev [0..<m]) ?d ! j =
      (if off \<le> j \<and> j < Suc m + off then F d (j - off) else d ! j)" .
  qed
qed

text \<open>Bit \<open>b\<close> of word \<open>k\<close> of the source, as far as it is below \<open>n\<close>.\<close>

lemma last_mask_lim:
  assumes "0 < n" and "b < 64"
  shows "bit (BITMAP_LAST_WORD_MASK n) b \<longleftrightarrow> (BITS_TO_LONGS n - 1) * 64 + b < n"
proof -
  have n: "n div 64 * 64 + n mod 64 = n" by simp
  show ?thesis
  proof (cases "n mod 64 = 0")
    case True
    then have "BITS_TO_LONGS n = n div 64" using n unfolding BITS_TO_LONGS_def by linarith
    moreover have "0 < n div 64" using True n assms(1) by (cases "n div 64") simp_all
    ultimately have "(BITS_TO_LONGS n - 1) * 64 + 64 = n" using True n by (cases "n div 64") simp_all
    then show ?thesis using True assms(2) by (simp add: bit_last_mask)
  next
    case False
    then have "BITS_TO_LONGS n = n div 64 + 1"
      using n mod_less_divisor [of 64 n] unfolding BITS_TO_LONGS_def by linarith
    then have "(BITS_TO_LONGS n - 1) * 64 + b < n \<longleftrightarrow> b < n mod 64" using n by (simp, linarith)
    then show ?thesis using False by (simp add: bit_last_mask)
  qed
qed

lemma word_bit_index:
  "b < 64 \<Longrightarrow> (w * 64 + b) div 64 = w"
  "b < 64 \<Longrightarrow> (w * 64 + b) mod 64 = b" for w b :: nat
  by simp_all

lemma masked_word:
  assumes "k < BITS_TO_LONGS n" and "b < 64"
  shows "bit (if k = BITS_TO_LONGS n - 1 then w AND BITMAP_LAST_WORD_MASK n else w) b \<longleftrightarrow>
    bit w b \<and> k * 64 + b < n"
proof (cases "k = BITS_TO_LONGS n - 1")
  case True
  have "0 < n" using assms(1) BITS_TO_LONGS_less [of k n] by simp
  then show ?thesis using True last_mask_lim [OF _ assms(2), of n] by (simp add: bit_and_iff)
next
  case False
  then have "k + 1 < BITS_TO_LONGS n" using assms(1) by simp
  then have "(k + 1) * 64 < n" by (simp only: BITS_TO_LONGS_less)
  then show ?thesis using False assms(2) by simp
qed

lemma shift_right_word_bit:
  assumes "shift = off * 64 + rem" and "rem < 64" and "off + k < BITS_TO_LONGS n" and "j < 64"
  defines "i \<equiv> k * 64 + j + shift"
  shows "bit (shift_right_word src off rem (BITS_TO_LONGS n) (BITMAP_LAST_WORD_MASK n) k) j \<longleftrightarrow>
    i < n \<and> bit (src (i div 64)) (i mod 64)"
proof -
  let ?lim = "BITS_TO_LONGS n" and ?m = "BITMAP_LAST_WORD_MASK n"
  let ?l = "if off + k = ?lim - 1 then src (off + k) AND ?m else src (off + k)"
  let ?u = "if off + k + 1 = ?lim - 1 then src (off + k + 1) AND ?m else src (off + k + 1)"
  have w: "shift_right_word src off rem ?lim ?m k =
      drop_bit rem ?l OR (if rem = 0 \<or> off + k + 1 \<ge> ?lim then 0 else push_bit (64 - rem) ?u)"
    by (simp add: shift_right_word_def Let_def)
  have i: "i = (off + k) * 64 + (j + rem)" using assms(1) by (simp add: i_def algebra_simps)
  show ?thesis
  proof (cases "j + rem < 64")
    case True
    then have "i div 64 = off + k" "i mod 64 = j + rem" unfolding i by (rule word_bit_index)+
    then show ?thesis
      using True masked_word [OF assms(3) True, of "src (off + k)"] assms(2) i unfolding w
      by (auto simp: bit_or_iff bit_drop_bit_eq bit_push_bit_iff add.commute split: if_splits)
  next
    case False
    have i': "i = (off + k + 1) * 64 + (j + rem - 64)" "j + rem - 64 < 64" using i False assms(2,4) by simp_all
    have d: "i div 64 = off + k + 1" "i mod 64 = j + rem - 64"
      using i'(2) unfolding i'(1) by (rule word_bit_index)+
    have lo: "\<not> bit (drop_bit rem ?l) j" using False by (auto simp: bit_drop_bit_eq dest: bit_imp_le_length)
    show ?thesis
    proof (cases "off + k + 1 < ?lim")
      case lt: True
      have "bit (push_bit (64 - rem) ?u) j \<longleftrightarrow> bit ?u (j + rem - 64)"
        using False assms(2,4) by (auto simp: bit_push_bit_iff simp del: One_nat_def)
      then show ?thesis
        using masked_word [OF lt i'(2), of "src (off + k + 1)"] lo lt False assms(4) i'(1) d unfolding w
        by (auto simp: bit_or_iff)
    next
      case ge: False
      have "n \<le> ?lim * 64" using BITS_TO_LONGS_less [of ?lim n] by simp
      moreover have "?lim * 64 \<le> (off + k + 1) * 64" using ge by (intro mult_le_mono1) simp
      ultimately have "n \<le> i" using i'(1) by simp
      then show ?thesis using ge lo unfolding w by simp
    qed
  qed
qed


lemma shift_left_word_bit:
  assumes "rem < 64" and "j < 64"
  shows "bit (shift_left_word src rem k) j \<longleftrightarrow>
    rem \<le> k * 64 + j \<and> bit (src ((k * 64 + j - rem) div 64)) ((k * 64 + j - rem) mod 64)"
proof (cases "rem \<le> j")
  case True
  then have i: "k * 64 + j - rem = k * 64 + (j - rem)" and j: "j - rem < 64" using assms by simp_all
  have "\<not> bit (drop_bit (64 - rem) w) j" for w :: "64 word"
    using True assms by (auto simp: bit_drop_bit_eq dest!: bit_imp_le_length)
  then show ?thesis
    using True assms word_bit_index [OF j, of k] unfolding i shift_left_word_def Let_def
    by (auto simp: bit_or_iff bit_push_bit_iff)
next
  case False
  then have hi: "\<not> bit (push_bit rem (src k)) j" by (simp add: bit_push_bit_iff)
  show ?thesis
  proof (cases k)
    case 0
    then show ?thesis using False hi by (simp add: shift_left_word_def Let_def)
  next
    case (Suc k')
    then have i: "k * 64 + j - rem = k' * 64 + (64 - rem + j)" and j: "64 - rem + j < 64"
      using False assms by simp_all
    show ?thesis
      using False Suc hi assms word_bit_index [OF j, of k'] unfolding i
      by (simp add: shift_left_word_def Let_def bit_or_iff bit_drop_bit_eq)
  qed
qed

text \<open>
  A right shift moves bit \<open>i + shift\<close> to \<open>i\<close> and fills with zeros up to the end of the last
  word; the shift may not be longer than the array.
\<close>

lemma bitmap_shift_right_ok:
  assumes room: "BITS_TO_LONGS n \<le> length dst" and "shift div 64 \<le> BITS_TO_LONGS n"
  shows "length (bitmap_shift_right dst src shift n) = length dst \<and>
    (\<forall>i < BITS_TO_LONGS n * 64. test_bit (bitmap_shift_right dst src shift n) i \<longleftrightarrow>
       i + shift < n \<and> bit (src_word src dst ((i + shift) div 64)) ((i + shift) mod 64))"
proof -
  define lim off rem where "lim = BITS_TO_LONGS n" and "off = shift div 64" and "rem = shift mod 64"
  define m where "m = BITMAP_LAST_WORD_MASK n"
  define F where "F d k = shift_right_word (src_word src d) off rem lim m k" for d k
  have sh: "shift = off * 64 + rem" "rem < 64" by (simp_all add: off_def rem_def)
  have F: "F d' k = F dst k"
    if "k < lim - off" "\<And>j. k \<le> j \<Longrightarrow> j < length dst \<Longrightarrow> d' ! j = dst ! j" for d' k
  proof -
    have "src_word src d' (off + k) = src_word src dst (off + k)"
      using that room by (cases src) (simp_all add: src_word_def lim_def)
    moreover have "off + k + 1 < lim \<Longrightarrow> src_word src d' (off + k + 1) = src_word src dst (off + k + 1)"
      using that room by (cases src) (simp_all add: src_word_def lim_def)
    ultimately show ?thesis by (simp add: F_def shift_right_word_def Let_def)
  qed
  define r where "r = bitmap_shift_right dst src shift n"
  have up: "fold (\<lambda>k d. d[k := F d k]) [0..<lim - off] dst = fold (\<lambda>k d'. d'[k := F dst k]) [0..<lim - off] dst"
    by (rule fold_store_up) (rule F)
  have "r = fold (\<lambda>k d. d[k := 0]) [lim - off..<lim] (fold (\<lambda>k d. d[k := F d k]) [0..<lim - off] dst)"
    unfolding r_def bitmap_shift_right_def Let_def lim_def off_def rem_def m_def F_def ..
  then have r: "r = fold (\<lambda>k d. d[k := 0]) [lim - off..<lim] (fold (\<lambda>k d'. d'[k := F dst k]) [0..<lim - off] dst)"
    unfolding up .
  have len: "length r = length dst" by (simp add: r fold_store_nth)
  have word: "r ! k = (if k < lim - off then F dst k else 0)" if "k < lim" for k
    using that room by (auto simp: r fold_store_nth lim_def)
  have "test_bit r i \<longleftrightarrow> i + shift < n \<and> bit (src_word src dst ((i + shift) div 64)) ((i + shift) mod 64)"
    if i: "i < lim * 64" for i
  proof -
    have k: "i div 64 < lim" using i by (simp add: less_mult_imp_div_less)
    have ij: "i div 64 * 64 + i mod 64 = i" and j: "i mod 64 < 64" by simp_all
    show ?thesis
    proof (cases "i div 64 < lim - off")
      case True
      then have "off + i div 64 < BITS_TO_LONGS n" by (simp add: lim_def)
      from shift_right_word_bit [OF sh this j, of "src_word src dst"] show ?thesis
        using True word [OF k] by (simp add: test_bit_iff F_def m_def lim_def)
    next
      case False
      then have "lim \<le> i div 64 + off" by simp
      moreover have "n \<le> lim * 64" using BITS_TO_LONGS_less [of lim n] by (simp add: lim_def)
      ultimately have "n \<le> i + shift" using ij sh(1) by linarith
      then show ?thesis using False word [OF k] by (simp add: test_bit_iff)
    qed
  qed
  then show ?thesis using len by (simp add: r_def lim_def)
qed

text \<open>A left shift moves bit \<open>i\<close> to \<open>i + shift\<close>.  Bits above \<open>n\<close> in the last word are not cleared.\<close>

lemma bitmap_shift_left_ok:
  assumes room: "BITS_TO_LONGS n \<le> length dst" and le: "shift div 64 \<le> BITS_TO_LONGS n"
  shows "length (bitmap_shift_left dst src shift n) = length dst \<and>
    (\<forall>i < BITS_TO_LONGS n * 64. test_bit (bitmap_shift_left dst src shift n) i \<longleftrightarrow>
       shift \<le> i \<and> bit (src_word src dst ((i - shift) div 64)) ((i - shift) mod 64))"
proof -
  define lim off rem where "lim = BITS_TO_LONGS n" and "off = shift div 64" and "rem = shift mod 64"
  define F where "F d k = shift_left_word (src_word src d) rem k" for d k
  have sh: "shift = off * 64 + rem" "rem < 64" by (simp_all add: off_def rem_def)
  have F: "\<forall>k d'. k < lim - off \<and> (\<forall>j \<le> k. d' ! j = dst ! j) \<longrightarrow> F d' k = F dst k"
    by (cases src) (simp_all add: F_def shift_left_word_def src_word_def Let_def)
  have fit: "lim - off + off \<le> length dst" using room le by (simp add: lim_def off_def)
  note down = fold_store_down [OF F fit]
  define r where "r = bitmap_shift_left dst src shift n"
  have r: "r = fold (\<lambda>k d. d[k := 0]) [0..<off] (fold (\<lambda>k d. d[k + off := F d k]) (rev [0..<lim - off]) dst)"
    by (simp add: r_def bitmap_shift_left_def Let_def lim_def off_def rem_def F_def)
  have len: "length r = length dst" using down by (simp add: r fold_store_nth)
  have word: "r ! k = (if k < off then 0 else F dst (k - off))" if "k < lim" for k
    using that room down by (auto simp: r fold_store_nth lim_def)
  have "test_bit r i \<longleftrightarrow> shift \<le> i \<and> bit (src_word src dst ((i - shift) div 64)) ((i - shift) mod 64)"
    if i: "i < lim * 64" for i
  proof -
    have k: "i div 64 < lim" using i by (simp add: less_mult_imp_div_less)
    have ij: "i div 64 * 64 + i mod 64 = i" and j: "i mod 64 < 64" by simp_all
    show ?thesis
    proof (cases "i div 64 < off")
      case True
      then have "i div 64 * 64 + 64 \<le> off * 64" by linarith
      then have "i < shift" using ij j sh(1) by linarith
      then show ?thesis using True word [OF k] by (simp add: test_bit_iff)
    next
      case False
      define q where "q = (i div 64 - off) * 64 + i mod 64"
      have q: "i = q + off * 64" using False ij by (simp add: q_def diff_mult_distrib)
      have "test_bit r i \<longleftrightarrow> bit (F dst (i div 64 - off)) (i mod 64)"
        using False word [OF k] by (simp add: test_bit_iff)
      also have "\<dots> \<longleftrightarrow> rem \<le> q \<and> bit (src_word src dst ((q - rem) div 64)) ((q - rem) mod 64)"
        using shift_left_word_bit [OF sh(2) j, of "src_word src dst" "i div 64 - off"] by (simp only: F_def q_def)
      also have "rem \<le> q \<longleftrightarrow> shift \<le> i" unfolding q sh(1) by simp
      also have "q - rem = i - shift" unfolding q sh(1) by simp
      finally show ?thesis .
    qed
  qed
  then show ?thesis using len by (simp add: r_def lim_def)
qed

end
