(* ===== verification/Hweight.thy ===== *)
theory Hweight
  imports Bitops
begin

text \<open>
  Population counts: \<^verbatim>\<open>lib/ulib/hweight.c\<close> (with \<^verbatim>\<open>CONFIG_ARCH_HAS_FAST_MULTIPLIER\<close>, which
  arm64 selects) and \<^verbatim>\<open>asm-generic/bitops/const_hweight.h\<close>, each shown equal to the number of
  set bits; and the small word helpers of \<^verbatim>\<open>include/linux/bitops.h\<close>.
\<close>

section \<open>The routines\<close>

definition sw_hweight8 :: "32 word \<Rightarrow> 32 word" where
  "sw_hweight8 w =
     (let res = w - (drop_bit 1 w AND 0x55);
          res = (res AND 0x33) + (drop_bit 2 res AND 0x33)
      in (res + drop_bit 4 res) AND 0x0F)"

definition sw_hweight16 :: "32 word \<Rightarrow> 32 word" where
  "sw_hweight16 w =
     (let res = w - (drop_bit 1 w AND 0x5555);
          res = (res AND 0x3333) + (drop_bit 2 res AND 0x3333);
          res = (res + drop_bit 4 res) AND 0x0F0F
      in (res + drop_bit 8 res) AND 0x00FF)"

definition sw_hweight32 :: "32 word \<Rightarrow> 32 word" where
  "sw_hweight32 w =
     (let w = w - (drop_bit 1 w AND 0x55555555);
          w = (w AND 0x33333333) + (drop_bit 2 w AND 0x33333333);
          w = (w + drop_bit 4 w) AND 0x0f0f0f0f
      in drop_bit 24 (w * 0x01010101))"

definition sw_hweight64 :: "64 word \<Rightarrow> 64 word" where
  "sw_hweight64 w =
     (let w = w - (drop_bit 1 w AND 0x5555555555555555);
          w = (w AND 0x3333333333333333) + (drop_bit 2 w AND 0x3333333333333333);
          w = (w + drop_bit 4 w) AND 0x0f0f0f0f0f0f0f0f
      in drop_bit 56 (w * 0x0101010101010101))"

definition hweight_long :: "64 word \<Rightarrow> nat" where
  "hweight_long w = unat (sw_hweight64 w)"

definition const_hweight8 :: "64 word \<Rightarrow> nat" where
  "const_hweight8 w =
     of_bool (w AND push_bit 0 1 \<noteq> 0) + of_bool (w AND push_bit 1 1 \<noteq> 0) +
     of_bool (w AND push_bit 2 1 \<noteq> 0) + of_bool (w AND push_bit 3 1 \<noteq> 0) +
     of_bool (w AND push_bit 4 1 \<noteq> 0) + of_bool (w AND push_bit 5 1 \<noteq> 0) +
     of_bool (w AND push_bit 6 1 \<noteq> 0) + of_bool (w AND push_bit 7 1 \<noteq> 0)"

definition const_hweight16 :: "64 word \<Rightarrow> nat" where
  "const_hweight16 w = const_hweight8 w + const_hweight8 (drop_bit 8 w)"

definition const_hweight32 :: "64 word \<Rightarrow> nat" where
  "const_hweight32 w = const_hweight16 w + const_hweight16 (drop_bit 16 w)"

definition const_hweight64 :: "64 word \<Rightarrow> nat" where
  "const_hweight64 w = const_hweight32 w + const_hweight32 (drop_bit 32 w)"

section \<open>The three parallel sums, byte by byte\<close>

text \<open>
  On natural numbers of \<open>k\<close> bytes, with the masks repeated in each byte.  The three steps act on
  every byte by itself, so they can be checked on the 256 values of one byte.
\<close>

primrec rep :: "nat \<Rightarrow> nat \<Rightarrow> nat" where
  "rep m 0 = 0"
| "rep m (Suc k) = m + 256 * rep m k"

definition st1 :: "nat \<Rightarrow> nat \<Rightarrow> nat" where
  "st1 k w = w - (w div 2 AND rep 0x55 k)"

definition st2 :: "nat \<Rightarrow> nat \<Rightarrow> nat" where
  "st2 k w = (w AND rep 0x33 k) + (w div 4 AND rep 0x33 k)"

definition st3 :: "nat \<Rightarrow> nat \<Rightarrow> nat" where
  "st3 k w = (w + w div 16) AND rep 0x0f k"

definition pop :: "nat \<Rightarrow> nat \<Rightarrow> nat" where
  "pop n x = (\<Sum>i<n. of_bool (bit x i))"

primrec byte_sums :: "nat \<Rightarrow> nat \<Rightarrow> nat" where
  "byte_sums 0 w = 0"
| "byte_sums (Suc k) w = pop 8 (w mod 256) + 256 * byte_sums k (w div 256)"

lemma and_bytes:
  fixes a b c m :: nat
  assumes "a < 256" and "m < 256"
  shows "(a + 256 * b) AND (m + 256 * c) = (a AND m) + 256 * (b AND c)"
proof -
  let ?x = "a + 256 * b" and ?y = "m + 256 * c"
  have x: "take_bit 8 ?x = a" "drop_bit 8 ?x = b" and y: "take_bit 8 ?y = m" "drop_bit 8 ?y = c"
    using assms by (simp_all add: take_bit_eq_mod drop_bit_eq_div)
  have "?x AND ?y = take_bit 8 (?x AND ?y) + push_bit 8 (drop_bit 8 (?x AND ?y))"
    by (simp add: take_bit_eq_mod push_bit_eq_mult drop_bit_eq_div)
  also have "\<dots> = (a AND m) + 256 * (b AND c)"
    by (simp only: take_bit_and drop_bit_and x y push_bit_eq_mult) simp
  finally show ?thesis .
qed

definition byte1 :: "nat \<Rightarrow> nat" where
  "byte1 b = b - (b div 2 AND 0x55)"

definition byte2 :: "nat \<Rightarrow> nat" where
  "byte2 b = (b AND 0x33) + (b div 4 AND 0x33)"

lemma and_nat_le1: "a AND b \<le> a" for a b :: nat
proof -
  have "int (a AND b) \<le> int a" by (simp add: of_nat_and_eq AND_upper1)
  then show ?thesis by simp
qed

lemma forall_less: "list_all P [0..<n] \<Longrightarrow> b < n \<Longrightarrow> P b" for P :: "nat \<Rightarrow> bool"
  by (simp add: list_all_iff)

lemma byte1_check:
  fixes b p :: nat
  assumes "b < 256" and "p < 2"
  shows "(b div 2 + 128 * p) AND 0x55 = b div 2 AND 0x55 \<and> b div 2 AND 0x55 \<le> b"
proof -
  have "list_all (\<lambda>b. list_all (\<lambda>p. (b div 2 + 128 * p) AND 0x55 = b div 2 AND 0x55 \<and> b div 2 AND 0x55 \<le> b)
    [0..<2]) [0..<256::nat]"
    by code_simp
  from forall_less [OF forall_less [OF this assms(1)] assms(2)] show ?thesis .
qed

lemma byte2_check:
  fixes x q :: nat
  assumes "x < 256" and "q < 4"
  shows "(x div 4 + 64 * q) AND 0x33 = x div 4 AND 0x33"
proof -
  have "list_all (\<lambda>x. list_all (\<lambda>q. (x div 4 + 64 * q) AND 0x33 = x div 4 AND 0x33) [0..<4]) [0..<256::nat]"
    by code_simp
  from forall_less [OF forall_less [OF this assms(1)] assms(2)] show ?thesis .
qed

lemma pop_8:
  "pop 8 x = x mod 2 + x div 2 mod 2 + x div 4 mod 2 + x div 8 mod 2 + x div 16 mod 2 + x div 32 mod 2 +
     x div 64 mod 2 + x div 128 mod 2"
proof -
  have "{..<8} = {0, 1, 2, 3, 4, 5, 6, 7 :: nat}" by auto
  then show ?thesis by (simp add: pop_def bit_iff_odd mod_2_eq_odd)
qed

lemma upt_256: "[0..<256] = 0 # 1 # [2..<256]"
  by (simp add: upt_conv_Cons numeral_eq_Suc del: upt_Suc)

lemma byte3_check:
  assumes "b < 256"
  shows "byte2 (byte1 b) + byte2 (byte1 b) div 16 + 16 * 4 < 256 \<and> byte2 (byte1 b) mod 16 < 5 \<and>
    (byte2 (byte1 b) + byte2 (byte1 b) div 16) mod 16 = pop 8 b"
proof -
  have "list_all (\<lambda>b. let x = byte2 (byte1 b) in
      x + x div 16 + 16 * 4 < 256 \<and> x mod 16 < 5 \<and> (x + x div 16) mod 16 = pop 8 b) [0..<256]"
    by (simp add: pop_8 upt_256 upt_rec_numeral byte1_def byte2_def Let_def)
  from forall_less [OF this assms] show ?thesis by (simp add: Let_def)
qed

lemma byte_div: "(x + 256 * y) div d = (x div d + e * (y mod d)) + 256 * (y div d)"
  if "d * e = 256" for d e x y :: nat
proof -
  have d: "x + 256 * y = x + d * (e * y)" by (simp add: that flip: mult.assoc)
  have "d \<noteq> 0" using that by (intro notI) simp
  then have "(x + d * (e * y)) div d = x div d + e * y" by simp
  moreover have "e * y = e * (y mod d) + 256 * (y div d)"
  proof -
    have "e * y = e * (y mod d + d * (y div d))" by simp
    then show ?thesis by (simp only: distrib_left that [symmetric] mult_ac)
  qed
  ultimately show ?thesis unfolding d by simp
qed

lemma sub_bytes: "u \<le> b \<Longrightarrow> v \<le> r \<Longrightarrow> (b + 256 * r) - (u + 256 * v) = (b - u) + 256 * (r - v)" for u v b r :: nat
  by linarith

lemma st1_Suc:
  assumes "b < 256"
  shows "st1 (Suc k) (b + 256 * r) = byte1 b + 256 * st1 k r \<and> r div 2 AND rep 0x55 k \<le> r"
proof -
  have "(b + 256 * r) div 2 = (b div 2 + 128 * (r mod 2)) + 256 * (r div 2)" by (rule byte_div) simp
  moreover have "b div 2 + 128 * (r mod 2) < 256" using assms by linarith
  ultimately have "(b + 256 * r) div 2 AND rep 0x55 (Suc k) =
      (b div 2 AND 0x55) + 256 * (r div 2 AND rep 0x55 k)"
    using byte1_check [OF assms, of "r mod 2"] by (simp add: and_bytes)
  moreover have "b div 2 AND 0x55 \<le> b" using byte1_check [OF assms, of 0] by simp
  moreover have "r div 2 AND rep 0x55 k \<le> r"
    by (rule order_trans [OF and_nat_le1]) simp
  ultimately show ?thesis using sub_bytes by (simp add: st1_def byte1_def)
qed

lemma st2_Suc:
  assumes "x < 256"
  shows "st2 (Suc k) (x + 256 * y) = byte2 x + 256 * st2 k y"
proof -
  have "(x + 256 * y) div 4 = (x div 4 + 64 * (y mod 4)) + 256 * (y div 4)" by (rule byte_div) simp
  moreover have "x div 4 + 64 * (y mod 4) < 256" using assms by linarith
  ultimately have "(x + 256 * y) div 4 AND rep 0x33 (Suc k) =
      (x div 4 AND 0x33) + 256 * (y div 4 AND rep 0x33 k)"
    using byte2_check [OF assms, of "y mod 4"] by (simp add: and_bytes)
  moreover have "(x + 256 * y) AND rep 0x33 (Suc k) = (x AND 0x33) + 256 * (y AND rep 0x33 k)"
    using assms by (simp add: and_bytes)
  ultimately show ?thesis by (simp add: st2_def byte2_def)
qed

lemma byte1_less: "b < 256 \<Longrightarrow> byte1 b < 256"
  by (simp add: byte1_def less_imp_diff_less)

lemma steps_low_nibble: "w < 256 ^ k \<Longrightarrow> st2 k (st1 k w) mod 16 < 5"
proof (cases k)
  case 0
  then show ?thesis by (simp add: st2_def)
next
  case (Suc k')
  have w: "w = w mod 256 + 256 * (w div 256)" by simp
  have "st2 (Suc k') (st1 (Suc k') w) = byte2 (byte1 (w mod 256)) + 256 * st2 k' (st1 k' (w div 256))"
    using st1_Suc [of "w mod 256" k' "w div 256"] st2_Suc [OF byte1_less, of "w mod 256" k' "st1 k' (w div 256)"]
    by (simp only: w [symmetric] mod_less_divisor zero_less_numeral simp_thms)
  moreover have "(b + 256 * c) mod 16 = b mod 16" for b c :: nat
    using mod_mult_self2 [of b 16 "16 * c"] by simp
  ultimately show ?thesis using Suc byte3_check [of "w mod 256"] by simp
qed

lemma steps_byte_sums:
  "w < 256 ^ k \<Longrightarrow> st3 k (st2 k (st1 k w)) = byte_sums k w \<and>
     st2 k (st1 k w) + st2 k (st1 k w) div 16 < 256 ^ k"
proof (induction k arbitrary: w)
  case 0
  then show ?case by (simp add: st1_def st2_def st3_def)
next
  case (Suc k)
  define b r where "b = w mod 256" and "r = w div 256"
  have w: "w = b + 256 * r" and b: "b < 256" by (simp_all add: b_def r_def)
  have r: "r < 256 ^ k" using Suc.prems by (simp add: r_def less_mult_imp_div_less mult.commute)
  define x y where "x = byte2 (byte1 b)" and "y = st2 k (st1 k r)"
  have xy: "st2 (Suc k) (st1 (Suc k) w) = x + 256 * y"
    unfolding w x_def y_def using b by (simp add: st1_Suc st2_Suc byte1_less)
  define q where "q = y mod 16"
  have q: "q < 5" using steps_low_nibble [OF r] by (simp add: y_def q_def)
  have and15: "z AND 15 = z mod 16" for z :: nat
    using take_bit_eq_mask [of 4 z] by (simp add: take_bit_eq_mod mask_eq_exp_minus_1)
  have c: "x + x div 16 + 16 * q < 256" "(x + x div 16 + 16 * q) AND 0x0f = pop 8 b"
    using byte3_check [OF b] q by (simp_all add: x_def and15)
  have split: "(x + 256 * y) + (x + 256 * y) div 16 = (x + x div 16 + 16 * q) + 256 * (y + y div 16)"
    using byte_div [of 16 16 x y] by (simp add: q_def)
  have "st3 (Suc k) (x + 256 * y) = pop 8 b + 256 * st3 k y"
    unfolding st3_def split rep.simps by (subst and_bytes) (use c in simp_all)
  moreover have "st3 k y = byte_sums k r" "y + y div 16 < 256 ^ k"
    using Suc.IH [OF r] by (simp_all add: y_def)
  moreover from this(2) have "(x + 256 * y) + (x + 256 * y) div 16 < 256 ^ Suc k"
    unfolding split using c(1) by simp
  ultimately show ?case unfolding xy by (simp add: b_def r_def)
qed

section \<open>On words\<close>

lemma unat_add_exact: "unat a + unat b < 2 ^ LENGTH('a) \<Longrightarrow> unat (a + b) = unat a + unat b" for a b :: "'a::len word"
  by (simp add: unat_word_ariths)

lemma unat_drop_div: "unat (drop_bit n w) = unat w div 2 ^ n" for w :: "'a::len word"
  by (rule trans [OF unat_drop_bit_eq drop_bit_eq_div])

lemma word_steps:
  fixes w m5 m3 mf :: "'a::len word"
  assumes w: "unat w < 256 ^ k" and k: "256 ^ k \<le> (2 :: nat) ^ LENGTH('a)"
    and m: "unat m5 = rep 0x55 k" "unat m3 = rep 0x33 k" "unat mf = rep 0x0f k"
  defines "w1 \<equiv> w - (drop_bit 1 w AND m5)"
  defines "w2 \<equiv> (w1 AND m3) + (drop_bit 2 w1 AND m3)"
  shows "unat ((w2 + drop_bit 4 w2) AND mf) = byte_sums k (unat w)"
proof -
  note ok = steps_byte_sums [OF w]
  have "drop_bit 1 w AND m5 \<le> w"
    by (simp add: word_le_nat_alt unsigned_and_eq unat_drop_div order_trans [OF and_nat_le1])
  then have w1: "unat w1 = st1 k (unat w)"
    by (simp add: w1_def unat_sub st1_def unsigned_and_eq unat_drop_div m(1))
  have "unat (w1 AND m3) + unat (drop_bit 2 w1 AND m3) = st2 k (st1 k (unat w))"
    by (simp add: st2_def unsigned_and_eq unat_drop_div m(2) w1)
  then have w2: "unat w2 = st2 k (st1 k (unat w))"
    unfolding w2_def using ok k by (subst unat_add_exact) simp_all
  have "unat (w2 + drop_bit 4 w2) = unat w2 + unat w2 div 16"
    using ok k by (subst unat_add_exact) (simp_all add: unat_drop_div w2)
  then show ?thesis using ok by (simp add: unsigned_and_eq m(3) st3_def w2)
qed

text \<open>The horizontal sums of the byte counts.\<close>

lemma pop_split:
  "pop (8 + n) x = pop 8 (x mod 256) + pop n (x div 256)"
proof -
  have "pop (8 + n) x = (\<Sum>i<8. of_bool (bit x i)) + (\<Sum>i<n. of_bool (bit x (8 + i)))"
    unfolding pop_def by (induction n) (simp_all only: add_0_right add_Suc_right sum.lessThan_Suc lessThan_0 sum.empty add.assoc)
  moreover have "bit (x mod 256) i = bit x i" if "i < 8" for i
    using that bit_take_bit_iff [of 8 x i] by (simp add: take_bit_eq_mod)
  moreover have "bit (x div 256) i = bit x (8 + i)" for i
    using bit_drop_bit_eq [of 8 x] by (simp add: drop_bit_eq_div fun_eq_iff)
  ultimately show ?thesis by (simp add: pop_def)
qed

lemma pop_8_le: "pop 8 x \<le> 8"
proof -
  have "pop 8 x \<le> (\<Sum>i<8::nat. 1)" unfolding pop_def by (rule sum_mono) simp
  then show ?thesis by simp
qed


lemma horizontal_64:
  fixes c0 c1 c2 c3 c4 c5 c6 c7 :: nat
  assumes "c0 \<le> 8" "c1 \<le> 8" "c2 \<le> 8" "c3 \<le> 8" "c4 \<le> 8" "c5 \<le> 8" "c6 \<le> 8" "c7 \<le> 8"
  shows "(c0 + 256 * (c1 + 256 * (c2 + 256 * (c3 + 256 * (c4 + 256 * (c5 + 256 * (c6 + 256 * (c7)))))))) * 0x101010101010101 mod 2 ^ 64 div 2 ^ 56 =
    c0 + c1 + c2 + c3 + c4 + c5 + c6 + c7"
proof -
  let ?s = "c0 + c1 + c2 + c3 + c4 + c5 + c6 + c7"
  let ?lo = "1 * (c0) + 256 * (c0+c1) + 65536 * (c0+c1+c2) + 16777216 * (c0+c1+c2+c3) + 4294967296 * (c0+c1+c2+c3+c4) + 1099511627776 * (c0+c1+c2+c3+c4+c5) + 281474976710656 * (c0+c1+c2+c3+c4+c5+c6)"
  let ?hi = "1 * (c1+c2+c3+c4+c5+c6+c7) + 256 * (c2+c3+c4+c5+c6+c7) + 65536 * (c3+c4+c5+c6+c7) + 16777216 * (c4+c5+c6+c7) + 4294967296 * (c5+c6+c7) + 1099511627776 * (c6+c7) + 281474976710656 * (c7)"
  have "(c0 + 256 * (c1 + 256 * (c2 + 256 * (c3 + 256 * (c4 + 256 * (c5 + 256 * (c6 + 256 * (c7)))))))) * 0x101010101010101 = (?s * 2 ^ 56 + ?lo) + 2 ^ 64 * ?hi"
    by simp
  moreover have "?s * 2 ^ 56 + ?lo < 2 ^ 64" using assms by simp
  moreover have "?lo < 2 ^ 56" using assms by simp
  ultimately show ?thesis by (simp only: mod_mult_self2 mod_less div_mult_self3) simp
qed

lemma horizontal_32:
  fixes c0 c1 c2 c3 :: nat
  assumes "c0 \<le> 8" "c1 \<le> 8" "c2 \<le> 8" "c3 \<le> 8"
  shows "(c0 + 256 * (c1 + 256 * (c2 + 256 * (c3)))) * 0x1010101 mod 2 ^ 32 div 2 ^ 24 =
    c0 + c1 + c2 + c3"
proof -
  let ?s = "c0 + c1 + c2 + c3"
  let ?lo = "1 * (c0) + 256 * (c0+c1) + 65536 * (c0+c1+c2)"
  let ?hi = "1 * (c1+c2+c3) + 256 * (c2+c3) + 65536 * (c3)"
  have "(c0 + 256 * (c1 + 256 * (c2 + 256 * (c3)))) * 0x1010101 = (?s * 2 ^ 24 + ?lo) + 2 ^ 32 * ?hi"
    by simp
  moreover have "?s * 2 ^ 24 + ?lo < 2 ^ 32" using assms by simp
  moreover have "?lo < 2 ^ 24" using assms by simp
  ultimately show ?thesis by (simp only: mod_mult_self2 mod_less div_mult_self3) simp
qed


section \<open>Hamming weights\<close>

lemma pop_card: "pop n x = card {i. i < n \<and> bit x i}"
  by (simp add: pop_def Collect_conj_eq lessThan_def)

lemma bits_of_unat: "{i. i < n \<and> bit (unat w) i} = {i. i < n \<and> bit w i}" for w :: "'a::len word"
  by (auto simp: bit_unsigned_iff dest: bit_imp_le_length)

lemma pop_word:
  "pop n (unat w) = card {i. i < n \<and> bit w i}" for w :: "'a::len word"
  by (simp add: pop_card bits_of_unat)

primrec byte_total :: "nat \<Rightarrow> nat \<Rightarrow> nat" where
  "byte_total 0 w = 0"
| "byte_total (Suc k) w = pop 8 (w mod 256) + byte_total k (w div 256)"

lemma pop_byte_total: "pop (8 * k) x = byte_total k x"
proof (induction k arbitrary: x)
  case 0
  then show ?case by (simp add: pop_def)
next
  case (Suc k)
  have "8 * Suc k = 8 + 8 * k" by simp
  then have "pop (8 * Suc k) x = pop 8 (x mod 256) + pop (8 * k) (x div 256)"
    using pop_split [of "8 * k" x] by (rule subst [OF sym])
  then show ?case using Suc.IH [of "x div 256"] by (metis byte_total.simps(2))
qed

lemma bytes_numeral:
  "rep m (numeral v) = m + 256 * rep m (pred_numeral v)"
  "byte_sums (numeral v) w = pop 8 (w mod 256) + 256 * byte_sums (pred_numeral v) (w div 256)"
  "byte_total (numeral v) w = pop 8 (w mod 256) + byte_total (pred_numeral v) (w div 256)"
  by (simp_all add: numeral_eq_Suc [of v])

lemma byte_sums_total_64: "byte_sums 8 x * 0x0101010101010101 mod 2 ^ 64 div 2 ^ 56 = byte_total 8 x"
proof -
  define y where "y i = pop 8 (x div 256 ^ i mod 256)" for i
  have y: "y i \<le> 8" for i by (simp add: y_def pop_8_le)
  have "byte_sums 8 x = y 0 + 256 * (y 1 + 256 * (y 2 + 256 * (y 3 + 256 * (y 4 + 256 * (y 5 + 256 * (y 6 + 256 * y 7))))))"
    "byte_total 8 x = y 0 + y 1 + y 2 + y 3 + y 4 + y 5 + y 6 + y 7"
    by (simp_all add: y_def bytes_numeral div_mult2_eq [symmetric])
  with horizontal_64 [OF y y y y y y y y] show ?thesis by simp
qed

lemma byte_sums_total_32: "byte_sums 4 x * 0x01010101 mod 2 ^ 32 div 2 ^ 24 = byte_total 4 x"
proof -
  define y where "y i = pop 8 (x div 256 ^ i mod 256)" for i
  have y: "y i \<le> 8" for i by (simp add: y_def pop_8_le)
  have "byte_sums 4 x = y 0 + 256 * (y 1 + 256 * (y 2 + 256 * y 3))"
    "byte_total 4 x = y 0 + y 1 + y 2 + y 3"
    by (simp_all add: y_def bytes_numeral div_mult2_eq [symmetric])
  with horizontal_32 [OF y y y y] show ?thesis by simp
qed

lemma sw_hweight64_ok: "unat (sw_hweight64 w) = card {i. i < 64 \<and> bit w i}"
proof -
  let ?w1 = "w - (drop_bit 1 w AND 0x5555555555555555)"
  let ?w2 = "(?w1 AND 0x3333333333333333) + (drop_bit 2 ?w1 AND 0x3333333333333333)"
  let ?w3 = "(?w2 + drop_bit 4 ?w2) AND 0x0f0f0f0f0f0f0f0f"
  have "unat w < 256 ^ 8" using unsigned_less [of w] by simp
  then have "unat ?w3 = byte_sums 8 (unat w)" by (rule word_steps) (simp_all add: bytes_numeral)
  then have "unat (drop_bit 56 (?w3 * 0x0101010101010101)) = byte_total 8 (unat w)"
    using byte_sums_total_64 [of "unat w"] by (simp add: unat_drop_div unat_word_ariths)
  also have "\<dots> = card {i. i < 64 \<and> bit w i}"
    using pop_byte_total [of 8 "unat w"] by (simp add: pop_word)
  finally show ?thesis unfolding sw_hweight64_def Let_def .
qed

lemma sw_hweight32_ok: "unat (sw_hweight32 w) = card {i. i < 32 \<and> bit w i}"
proof -
  let ?w1 = "w - (drop_bit 1 w AND 0x55555555)"
  let ?w2 = "(?w1 AND 0x33333333) + (drop_bit 2 ?w1 AND 0x33333333)"
  let ?w3 = "(?w2 + drop_bit 4 ?w2) AND 0x0f0f0f0f"
  have "unat w < 256 ^ 4" using unsigned_less [of w] by simp
  then have "unat ?w3 = byte_sums 4 (unat w)" by (rule word_steps) (simp_all add: bytes_numeral)
  then have "unat (drop_bit 24 (?w3 * 0x01010101)) = byte_total 4 (unat w)"
    using byte_sums_total_32 [of "unat w"] by (simp add: unat_drop_div unat_word_ariths)
  also have "\<dots> = card {i. i < 32 \<and> bit w i}"
    using pop_byte_total [of 4 "unat w"] by (simp add: pop_word)
  finally show ?thesis unfolding sw_hweight32_def Let_def .
qed


lemma and_255: "(w AND 0xFF :: 32 word) = w mod 256"
  using take_bit_eq_mask [of 8 w] by (simp add: take_bit_eq_mod mask_eq_exp_minus_1)

lemma sw_hweight16_ok:
  assumes "unat w < 2 ^ 16"
  shows "unat (sw_hweight16 w) = card {i. i < 16 \<and> bit w i}"
proof -
  let ?w1 = "w - (drop_bit 1 w AND 0x5555)"
  let ?w2 = "(?w1 AND 0x3333) + (drop_bit 2 ?w1 AND 0x3333)"
  define w3 where "w3 = (?w2 + drop_bit 4 ?w2) AND 0x0f0f"
  let ?x = "unat w"
  define y where "y i = pop 8 (?x div 256 ^ i mod 256)" for i
  have y: "y i \<le> 8" for i by (simp add: y_def pop_8_le)
  have "?x < 256 ^ 2" using assms by simp
  then have "unat w3 = byte_sums 2 ?x" unfolding w3_def by (rule word_steps) (simp_all add: bytes_numeral)
  then have w3: "unat w3 = y 0 + 256 * y 1" by (simp add: y_def bytes_numeral)
  have d: "(y 0 + 256 * y 1) div 256 = y 1" using y [of 0] by simp
  have "unat (w3 + drop_bit 8 w3) = y 0 + y 1 + 256 * y 1"
  proof (subst unat_add_exact)
    show "unat w3 + unat (drop_bit 8 w3) = y 0 + y 1 + 256 * y 1" using d by (simp add: unat_drop_div w3)
    then show "unat w3 + unat (drop_bit 8 w3) < 2 ^ LENGTH(32)" using y [of 0] y [of 1] by simp
  qed
  moreover have "y 0 + y 1 < 256" using y [of 0] y [of 1] by simp
  then have "(y 0 + y 1 + 256 * y 1) mod 256 = y 0 + y 1" by (simp only: mod_mult_self2 mod_less)
  ultimately have "unat ((w3 + drop_bit 8 w3) AND 0x00FF) = y 0 + y 1"
    by (simp only: and_255 unat_mod_distrib) simp
  also have "\<dots> = byte_total 2 ?x" by (simp add: y_def bytes_numeral)
  also have "\<dots> = card {i. i < 16 \<and> bit w i}"
    using pop_byte_total [of 2 ?x] by (simp add: pop_word)
  finally show ?thesis unfolding sw_hweight16_def Let_def w3_def .
qed

lemma sw_hweight8_ok:
  assumes "unat w < 2 ^ 8"
  shows "unat (sw_hweight8 w) = card {i. i < 8 \<and> bit w i}"
proof -
  let ?w1 = "w - (drop_bit 1 w AND 0x55)"
  let ?w2 = "(?w1 AND 0x33) + (drop_bit 2 ?w1 AND 0x33)"
  have "unat w < 256 ^ 1" using assms by simp
  then have "unat ((?w2 + drop_bit 4 ?w2) AND 0x0f) = byte_sums 1 (unat w)" by (rule word_steps) simp_all
  also have "\<dots> = card {i. i < 8 \<and> bit w i}"
    using pop_byte_total [of 1 "unat w"] by (simp add: pop_word)
  finally show ?thesis unfolding sw_hweight8_def Let_def .
qed

text \<open>The compile-time versions add the bits one by one.\<close>

lemma const_bit: "w AND push_bit n 1 \<noteq> 0 \<longleftrightarrow> bit w n" for w :: "64 word"
  by (rule bit_iff_and_push_bit_not_eq_0 [symmetric])

lemma const_hweight8_pop: "const_hweight8 w = pop 8 (unat w)"
proof -
  have b: "unat w div 2 ^ i mod 2 = of_bool (bit w i)" if "i < 64" for i
    using that bit_iff_odd [of "unat w" i] by (simp add: bit_unsigned_iff mod_2_eq_odd)
  show ?thesis
    unfolding const_hweight8_def const_bit pop_8
    using b [of 0] b [of 1] b [of 2] b [of 3] b [of 4] b [of 5] b [of 6] b [of 7] by simp
qed

lemma pop_add: "pop (m + n) x = pop m x + pop n (x div 2 ^ m)"
proof -
  have "pop (m + n) x = (\<Sum>i<m. of_bool (bit x i)) + (\<Sum>i<n. of_bool (bit x (m + i)))"
    unfolding pop_def by (induction n) (simp_all only: add_0_right add_Suc_right sum.lessThan_Suc lessThan_0 sum.empty add.assoc)
  moreover have "bit (x div 2 ^ m) i = bit x (m + i)" for i
    using bit_drop_bit_eq [of m x] by (simp add: drop_bit_eq_div fun_eq_iff)
  ultimately show ?thesis by (simp add: pop_def)
qed

lemma const_hweight64_ok: "const_hweight64 w = card {i. i < 64 \<and> bit w i}"
proof -
  have "const_hweight16 v = pop 16 (unat v)" for v
    using pop_add [of 8 8 "unat v"] by (simp add: const_hweight16_def const_hweight8_pop unat_drop_div)
  then have "const_hweight32 v = pop 32 (unat v)" for v
    using pop_add [of 16 16 "unat v"] by (simp add: const_hweight32_def unat_drop_div)
  then have "const_hweight64 w = pop 64 (unat w)"
    using pop_add [of 32 32 "unat w"] by (simp add: const_hweight64_def unat_drop_div)
  then show ?thesis by (simp add: pop_word)
qed

end
