(* ===== verification/Bitmap_Maps.thy ===== *)
theory Bitmap_Maps
  imports Bitmap_Spec Hweight
begin

text \<open>
  The operations of \<^verbatim>\<open>lib/ulib/bitmap.c\<close> that count and renumber bits: weights, the n-th set
  bit, remapping one bitmap by two others, folding, regions of a power of two, and arrays of
  32-bit words.
\<close>

section \<open>Definitions\<close>

definition bitmap_weight :: "bitmap \<Rightarrow> nat \<Rightarrow> nat" where
  "bitmap_weight bm bits =
     (let lim = bits div 64;
          w = fold (\<lambda>k w. w + hweight_long (bm ! k)) [0..<lim] 0
      in if bits mod 64 \<noteq> 0 then w + hweight_long (bm ! lim AND BITMAP_LAST_WORD_MASK bits) else w)"

text \<open>\<^verbatim>\<open>for_each_set_bit\<close>: the bit numbers its body runs with, in order.\<close>

lemma first_from_ge: "s \<le> n \<Longrightarrow> s \<le> first_from B s n"
  by (rule first_from_cases [of B s n]) auto

lemma find_next_bit_past [simp]: "nr < sz \<Longrightarrow> nr < find_next_bit addr sz (Suc nr)"
  using first_from_ge [of "Suc nr" sz "test_bit addr"] by (simp add: find_next_bit_ok Suc_le_eq)

function for_each_from :: "bitmap \<Rightarrow> nat \<Rightarrow> nat \<Rightarrow> nat list" where
  "for_each_from addr sz nr =
     (if nr < sz then nr # for_each_from addr sz (find_next_bit addr sz (nr + 1)) else [])"
  by pat_completeness auto
termination
  by (relation "measure (\<lambda>(a, n, b). n - b)") (auto simp: diff_less_mono2)

declare for_each_from.simps [simp del]

definition for_each_set_bit :: "bitmap \<Rightarrow> nat \<Rightarrow> nat list" where
  "for_each_set_bit addr sz = for_each_from addr sz (find_first_bit addr sz)"

definition bitmap_pos_to_ord :: "bitmap \<Rightarrow> nat \<Rightarrow> nat \<Rightarrow> int" where
  "bitmap_pos_to_ord buf pos nbits =
     (if pos \<ge> nbits \<or> \<not> test_bit buf pos then - 1 else int (bitmap_weight buf pos))"

fun ord_to_pos_loop :: "bitmap \<Rightarrow> nat \<Rightarrow> nat \<Rightarrow> nat \<Rightarrow> nat" where
  "ord_to_pos_loop buf nbits pos 0 = pos"
| "ord_to_pos_loop buf nbits pos (Suc ord) =
     (if pos < nbits then ord_to_pos_loop buf nbits (find_next_bit buf nbits (pos + 1)) ord else pos)"

definition bitmap_ord_to_pos :: "bitmap \<Rightarrow> nat \<Rightarrow> nat \<Rightarrow> nat" where
  "bitmap_ord_to_pos buf ord nbits = ord_to_pos_loop buf nbits (find_first_bit buf nbits) ord"

text \<open>
  A source array of \<open>None\<close> stands for a call with \<^verbatim>\<open>dst == src\<close>, which returns at once.
\<close>

definition bitmap_remap :: "bitmap \<Rightarrow> bitmap option \<Rightarrow> bitmap \<Rightarrow> bitmap \<Rightarrow> nat \<Rightarrow> bitmap" where
  "bitmap_remap dst src old new nbits =
     (case src of None \<Rightarrow> dst
      | Some s \<Rightarrow>
         let w = bitmap_weight new nbits in
         fold (\<lambda>oldbit d.
             let n = bitmap_pos_to_ord old oldbit nbits in
             if n < 0 \<or> w = 0 then set_bit_op d oldbit
             else set_bit_op d (bitmap_ord_to_pos new (nat n mod w) nbits))
           (for_each_set_bit s nbits) (bitmap_zero dst nbits))"

definition bitmap_bitremap :: "nat \<Rightarrow> bitmap \<Rightarrow> bitmap \<Rightarrow> nat \<Rightarrow> nat" where
  "bitmap_bitremap oldbit old new bits =
     (let w = bitmap_weight new bits; n = bitmap_pos_to_ord old oldbit bits in
      if n < 0 \<or> w = 0 then oldbit else bitmap_ord_to_pos new (nat n mod w) bits)"

definition bitmap_onto :: "bitmap \<Rightarrow> bitmap option \<Rightarrow> bitmap \<Rightarrow> nat \<Rightarrow> bitmap" where
  "bitmap_onto dst orig relmap bits =
     (case orig of None \<Rightarrow> dst
      | Some s \<Rightarrow>
         fst (fold (\<lambda>n (d, m). (if test_bit s m then set_bit_op d n else d, m + 1))
           (for_each_set_bit relmap bits) (bitmap_zero dst bits, 0)))"

definition bitmap_fold :: "bitmap \<Rightarrow> bitmap option \<Rightarrow> nat \<Rightarrow> nat \<Rightarrow> bitmap" where
  "bitmap_fold dst orig sz nbits =
     (case orig of None \<Rightarrow> dst
      | Some s \<Rightarrow> fold (\<lambda>oldbit d. set_bit_op d (oldbit mod sz)) (for_each_set_bit s nbits) (bitmap_zero dst nbits))"

text \<open>Regions: the words of a region, the mask for each of them, and the three operations.\<close>

definition reg_mask :: "nat \<Rightarrow> nat \<Rightarrow> 64 word" where
  "reg_mask pos order =
     (let offset = pos - (pos div 64) * 64; nbitsinlong = min (2 ^ order) 64;
          m = push_bit (nbitsinlong - 1) 1
      in push_bit offset (m + (m - 1)))"

definition reg_nlongs :: "nat \<Rightarrow> nat" where
  "reg_nlongs order = BITS_TO_LONGS (2 ^ order)"

definition reg_op_isfree :: "bitmap \<Rightarrow> nat \<Rightarrow> nat \<Rightarrow> bool" where
  "reg_op_isfree bm pos order =
     list_all (\<lambda>i. bm ! (pos div 64 + i) AND reg_mask pos order = 0) [0..<reg_nlongs order]"

definition reg_op_alloc :: "bitmap \<Rightarrow> nat \<Rightarrow> nat \<Rightarrow> bitmap" where
  "reg_op_alloc bm pos order =
     fold (\<lambda>i d. d[pos div 64 + i := d ! (pos div 64 + i) OR reg_mask pos order]) [0..<reg_nlongs order] bm"

definition reg_op_release :: "bitmap \<Rightarrow> nat \<Rightarrow> nat \<Rightarrow> bitmap" where
  "reg_op_release bm pos order =
     fold (\<lambda>i d. d[pos div 64 + i := d ! (pos div 64 + i) AND NOT (reg_mask pos order)]) [0..<reg_nlongs order] bm"

text \<open>
  The positions are 32-bit unsigned: where \<open>pos + 2 ^ order\<close> wraps, the search starts over and may not end.  The
  result is a signed 32-bit number.
\<close>

definition s32_of_u32 :: "nat \<Rightarrow> int" where
  "s32_of_u32 pos = (if pos < 2 ^ 31 then int pos else int pos - 2 ^ 32)"

partial_function (option) find_free_region_loop :: "bitmap \<Rightarrow> nat \<Rightarrow> nat \<Rightarrow> nat \<Rightarrow> (int \<times> bitmap) option" where
  "find_free_region_loop bm bits order pos =
     (let e = (pos + 2 ^ order mod 2 ^ 32) mod 2 ^ 32 in
      if e \<le> bits then
        if \<not> reg_op_isfree bm pos order then find_free_region_loop bm bits order e
        else Some (s32_of_u32 pos, reg_op_alloc bm pos order)
      else Some (- ENOMEM, bm))"

declare find_free_region_loop.simps [code]

definition bitmap_find_free_region :: "bitmap \<Rightarrow> nat \<Rightarrow> nat \<Rightarrow> (int \<times> bitmap) option" where
  "bitmap_find_free_region bm bits order = find_free_region_loop bm bits order 0"

definition bitmap_release_region :: "bitmap \<Rightarrow> nat \<Rightarrow> nat \<Rightarrow> bitmap" where
  "bitmap_release_region bm pos order = reg_op_release bm pos order"

definition bitmap_allocate_region :: "bitmap \<Rightarrow> nat \<Rightarrow> nat \<Rightarrow> int \<times> bitmap" where
  "bitmap_allocate_region bm pos order =
     (if \<not> reg_op_isfree bm pos order then (- EBUSY, bm) else (0, reg_op_alloc bm pos order))"

text \<open>Arrays of 32-bit words.\<close>

function from_arr32_loop :: "32 word list \<Rightarrow> nat \<Rightarrow> nat \<Rightarrow> bitmap \<Rightarrow> bitmap" where
  "from_arr32_loop buf halfwords i bm =
     (if i < halfwords then
        let bm1 = bm[i div 2 := ucast (buf ! i)];
            i1 = i + 1;
            bm2 = (if i1 < halfwords then bm1[i1 div 2 := bm1 ! (i1 div 2) OR push_bit 32 (ucast (buf ! i1))] else bm1)
        in from_arr32_loop buf halfwords (i1 + 1) bm2
      else bm)"
  by pat_completeness auto
termination
  by (relation "measure (\<lambda>(b, h, i, m). h - i)") auto

definition bitmap_from_arr32 :: "bitmap \<Rightarrow> 32 word list \<Rightarrow> nat \<Rightarrow> bitmap" where
  "bitmap_from_arr32 bm buf nbits =
     (let halfwords = (nbits + 32 - 1) div 32;
          bm' = from_arr32_loop buf halfwords 0 bm
      in if nbits mod 64 \<noteq> 0
         then bm'[(halfwords - 1) div 2 := bm' ! ((halfwords - 1) div 2) AND BITMAP_LAST_WORD_MASK nbits]
         else bm')"

function to_arr32_loop :: "bitmap \<Rightarrow> nat \<Rightarrow> nat \<Rightarrow> 32 word list \<Rightarrow> 32 word list" where
  "to_arr32_loop bm halfwords i buf =
     (if i < halfwords then
        let buf1 = buf[i := ucast (bm ! (i div 2) AND 0xFFFFFFFF)];
            i1 = i + 1;
            buf2 = (if i1 < halfwords then buf1[i1 := ucast (drop_bit 32 (bm ! (i1 div 2)))] else buf1)
        in to_arr32_loop bm halfwords (i1 + 1) buf2
      else buf)"
  by pat_completeness auto
termination
  by (relation "measure (\<lambda>(b, h, i, m). h - i)") auto

declare from_arr32_loop.simps [simp del] to_arr32_loop.simps [simp del]

definition bitmap_to_arr32 :: "32 word list \<Rightarrow> bitmap \<Rightarrow> nat \<Rightarrow> 32 word list" where
  "bitmap_to_arr32 buf bm nbits =
     (let halfwords = (nbits + 32 - 1) div 32;
          buf' = to_arr32_loop bm halfwords 0 buf
      in if nbits mod 64 \<noteq> 0
         then buf'[halfwords - 1 := buf' ! (halfwords - 1) AND drop_bit ((32 - nbits mod 32) mod 32) 0xFFFFFFFF]
         else buf')"

section \<open>Weights and the n-th set bit\<close>

definition bits_of :: "bitmap \<Rightarrow> nat \<Rightarrow> nat list" where
  "bits_of bm n = filter (test_bit bm) [0..<n]"

lemma for_each_from_ok: "for_each_from bm n (first_from (test_bit bm) s n) = filter (test_bit bm) [s..<n]"
proof (induction "n - s" arbitrary: s rule: less_induct)
  case less
  show ?case
  proof (rule first_from_cases [of "test_bit bm" s n])
    assume none: "first_from (test_bit bm) s n = n" "\<And>i. s \<le> i \<Longrightarrow> i < n \<Longrightarrow> \<not> test_bit bm i"
    then show ?thesis by (subst for_each_from.simps) (simp add: filter_empty_conv)
  next
    let ?r = "first_from (test_bit bm) s n"
    assume r: "s \<le> ?r" "?r < n" "test_bit bm ?r" "\<And>i. s \<le> i \<Longrightarrow> i < ?r \<Longrightarrow> \<not> test_bit bm i"
    have "n - Suc ?r < n - s" using r by simp
    then have "for_each_from bm n ?r = ?r # filter (test_bit bm) [Suc ?r..<n]"
      using r(2) less [of "Suc ?r"] by (subst for_each_from.simps) (simp add: find_next_bit_ok)
    moreover have "[s..<n] = [s..<?r] @ ?r # [Suc ?r..<n]"
      using r(1,2) by (metis le_add_diff_inverse less_imp_le upt_add_eq_append upt_conv_Cons)
    moreover have "filter (test_bit bm) [s..<?r] = []" using r(4) by (simp add: filter_empty_conv)
    ultimately show ?thesis using r(3) by simp
  qed
qed

lemma for_each_set_bit_ok: "for_each_set_bit bm n = bits_of bm n"
  by (simp add: for_each_set_bit_def find_first_bit_ok for_each_from_ok bits_of_def)

lemma ord_to_pos_loop_ok:
  "ord_to_pos_loop bm n (first_from (test_bit bm) s n) k =
    (let L = filter (test_bit bm) [s..<n] in if k < length L then L ! k else n)"
proof (induction k arbitrary: s)
  case 0
  show ?case
    by (cases "filter (test_bit bm) [s..<n]") (simp_all add: first_from_def Let_def)
next
  case (Suc k)
  let ?r = "first_from (test_bit bm) s n"
  have L: "filter (test_bit bm) [s..<n] = for_each_from bm n ?r" by (simp add: for_each_from_ok)
  show ?case
  proof (cases "?r < n")
    case True
    then have "filter (test_bit bm) [s..<n] = ?r # filter (test_bit bm) [Suc ?r..<n]"
      unfolding L by (subst for_each_from.simps) (simp add: find_next_bit_ok for_each_from_ok)
    then show ?thesis using True Suc.IH [of "Suc ?r"] by (simp add: find_next_bit_ok Let_def)
  next
    case False
    then have "filter (test_bit bm) [s..<n] = []" unfolding L by (subst for_each_from.simps) simp
    then show ?thesis using False by (simp add: first_from_def Let_def)
  qed
qed

lemma bitmap_ord_to_pos_ok:
  "bitmap_ord_to_pos bm k n = (if k < length (bits_of bm n) then bits_of bm n ! k else n)"
  unfolding bitmap_ord_to_pos_def find_first_bit_ok ord_to_pos_loop_ok bits_of_def Let_def ..

lemma chunk_weight:
  assumes "r \<le> 64"
  shows "length (filter (test_bit bm) [a * 64..<a * 64 + r]) = card {j. j < r \<and> bit (bm ! a) j}"
proof -
  have "[a * 64..<a * 64 + r] = map (\<lambda>j. j + a * 64) [0..<r]"
    using map_add_upt [of "a * 64" r] by (simp add: add.commute)
  moreover have "filter (\<lambda>j. test_bit bm (j + a * 64)) [0..<r] = filter (\<lambda>j. bit (bm ! a) j) [0..<r]"
    by (rule filter_cong) (use assms in \<open>simp_all add: test_bit_iff\<close>)
  ultimately have "length (filter (test_bit bm) [a * 64..<a * 64 + r]) = length (filter (\<lambda>j. bit (bm ! a) j) [0..<r])"
    by (simp add: filter_map comp_def)
  also have "\<dots> = card {j. j < r \<and> bit (bm ! a) j}"
    by (simp add: distinct_card [symmetric] Collect_conj_eq lessThan_def [symmetric] Int_commute atLeast0LessThan)
  finally show ?thesis .
qed

lemma hweight_long_card: "hweight_long w = card {j. j < 64 \<and> bit w j}"
  by (simp add: hweight_long_def sw_hweight64_ok)

lemma bitmap_weight_ok: "bitmap_weight bm n = length (bits_of bm n)"
proof -
  have full: "fold (\<lambda>k w. w + hweight_long (bm ! k)) [0..<m] 0 = length (filter (test_bit bm) [0..<m * 64])" for m
  proof (induction m)
    case (Suc m)
    have "[0..<Suc m * 64] = [0..<m * 64] @ [m * 64..<m * 64 + 64]"
      using upt_add_eq_append [of 0 "m * 64" 64] by (simp add: add.commute)
    then show ?case
      using Suc chunk_weight [of 64 bm m] by (simp add: hweight_long_card del: upt_Suc) (simp add: upt_Suc_append)
  qed simp
  define a r where "a = n div 64" and "r = n mod 64"
  have n: "n = a * 64 + r" and r: "r < 64" by (simp_all add: a_def r_def)
  have "[0..<n] = [0..<a * 64] @ [a * 64..<a * 64 + r]"
    unfolding n using upt_add_eq_append [of 0 "a * 64" r] by simp
  then have split: "length (bits_of bm n) = length (filter (test_bit bm) [0..<a * 64]) + card {j. j < r \<and> bit (bm ! a) j}"
    using r by (simp add: bits_of_def chunk_weight)
  show ?thesis
  proof (cases "r = 0")
    case True
    then show ?thesis using split full [of a] by (simp add: bitmap_weight_def Let_def a_def r_def)
  next
    case False
    have "hweight_long (bm ! a AND BITMAP_LAST_WORD_MASK n) = card {j. j < r \<and> bit (bm ! a) j}"
      unfolding hweight_long_card
      by (rule arg_cong [of _ _ card]) (use False r in \<open>auto simp: bit_and_iff bit_last_mask r_def\<close>)
    then show ?thesis using split full [of a] False by (simp add: bitmap_weight_def Let_def a_def r_def)
  qed
qed

lemma bits_of_split: "pos < n \<Longrightarrow> test_bit bm pos \<Longrightarrow> \<exists>rest. bits_of bm n = bits_of bm pos @ pos # rest"
proof -
  assume a: "pos < n" "test_bit bm pos"
  then have "[0..<n] = [0..<pos] @ pos # [Suc pos..<n]"
    by (metis le_add_diff_inverse less_imp_le upt_add_eq_append upt_conv_Cons zero_le)
  then show ?thesis using a(2) by (simp add: bits_of_def)
qed

lemma bitmap_pos_to_ord_nth:
  assumes "k < length (bits_of bm n)"
  shows "bitmap_pos_to_ord bm (bits_of bm n ! k) n = int k"
proof -
  let ?L = "bits_of bm n"
  have "?L ! k \<in> set ?L" using assms by simp
  then have p: "?L ! k < n" "test_bit bm (?L ! k)" by (simp_all add: bits_of_def)
  then obtain rest where L: "?L = bits_of bm (?L ! k) @ ?L ! k # rest" using bits_of_split by blast
  let ?m = "length (bits_of bm (?L ! k))"
  have "?L ! ?m = ?L ! k" by (subst L) simp
  moreover have "?m < length ?L" by (subst (2) L) simp
  moreover have "distinct ?L" by (simp add: bits_of_def)
  ultimately have "?m = k" using assms by (simp add: nth_eq_iff_index_eq)
  then show ?thesis using p by (simp add: bitmap_pos_to_ord_def bitmap_weight_ok)
qed

lemma bitmap_ord_to_pos_of_pos:
  assumes "pos < n" and "test_bit bm pos"
  shows "bitmap_pos_to_ord bm pos n = int (length (bits_of bm pos))"
    and "length (bits_of bm pos) < length (bits_of bm n)"
    and "bitmap_ord_to_pos bm (length (bits_of bm pos)) n = pos"
proof -
  obtain rest where L: "bits_of bm n = bits_of bm pos @ pos # rest" using bits_of_split [OF assms] by blast
  show "bitmap_pos_to_ord bm pos n = int (length (bits_of bm pos))"
    using assms by (simp add: bitmap_pos_to_ord_def bitmap_weight_ok)
  show "length (bits_of bm pos) < length (bits_of bm n)" "bitmap_ord_to_pos bm (length (bits_of bm pos)) n = pos"
    unfolding bitmap_ord_to_pos_ok L by simp_all
qed

section \<open>Renumbering\<close>

text \<open>Setting the images of the bits of a list, one by one, in a cleared bitmap.\<close>

lemma set_bit_op_bit:
  assumes "i < 64 * length bm" and "j < 64 * length bm"
  shows "test_bit (set_bit_op bm j) i \<longleftrightarrow> i = j \<or> test_bit bm i" and "length (set_bit_op bm j) = length bm"
proof -
  have l: "i div 64 < length bm" using assms(1) by (simp add: less_mult_imp_div_less mult.commute)
  have "bit (BIT_MASK j) (i mod 64) \<longleftrightarrow> i mod 64 = j mod 64"
    by (auto simp: BIT_MASK_def bit_exp_iff)
  moreover have "i div 64 = j div 64 \<and> i mod 64 = j mod 64 \<longleftrightarrow> i = j" by (metis div_mult_mod_eq)
  ultimately show "test_bit (set_bit_op bm j) i \<longleftrightarrow> i = j \<or> test_bit bm i"
    unfolding set_bit_op_def BIT_WORD_def test_bit_update [OF l] by (auto simp: bit_or_iff test_bit_iff)
qed (simp add: set_bit_op_def)

lemma fold_set_bits:
  assumes "\<forall>x \<in> set xs. f x < 64 * length bm" and "i < 64 * length bm"
  shows "length (fold (\<lambda>x d. set_bit_op d (f x)) xs bm) = length bm"
    and "test_bit (fold (\<lambda>x d. set_bit_op d (f x)) xs bm) i \<longleftrightarrow> (\<exists>x \<in> set xs. f x = i) \<or> test_bit bm i"
  using assms by (induction xs arbitrary: bm) (auto simp: set_bit_op_bit)

lemma bitmap_zero_bit: "has_bits bm n \<Longrightarrow> i < n \<Longrightarrow> \<not> test_bit (bitmap_zero bm n) i"
  by (simp add: bitmap_zero_def test_bit_store has_bits_word word_in_range)

lemma bitmap_zero_length [simp]: "length (bitmap_zero bm n) = length bm"
  by (simp add: bitmap_zero_def)

lemma has_bits_bit: "has_bits bm n \<Longrightarrow> i < n \<Longrightarrow> i < 64 * length bm"
  using BITS_TO_LONGS_less [of "length bm" n] by (simp add: has_bits_def not_less mult.commute)

lemma bitmap_bitremap_less: "j < n \<Longrightarrow> bitmap_bitremap j old new n < n"
proof -
  assume j: "j < n"
  show ?thesis
  proof (cases "bitmap_pos_to_ord old j n < 0 \<or> bitmap_weight new n = 0")
    case True
    then show ?thesis using j by (simp add: bitmap_bitremap_def Let_def)
  next
    case False
    let ?k = "nat (bitmap_pos_to_ord old j n) mod bitmap_weight new n"
    have "?k < length (bits_of new n)" using False by (simp add: bitmap_weight_ok)
    then have "bits_of new n ! ?k \<in> set (bits_of new n)" by simp
    then have "bits_of new n ! ?k < n" by (simp add: bits_of_def)
    then show ?thesis using False \<open>?k < _\<close> by (simp add: bitmap_bitremap_def Let_def bitmap_ord_to_pos_ok)
  qed
qed

lemma bitmap_remap_bits:
  assumes "has_bits dst n"
  shows "length (bitmap_remap dst (Some src) old new n) = length dst \<and>
    (\<forall>i < n. test_bit (bitmap_remap dst (Some src) old new n) i \<longleftrightarrow>
       (\<exists>j < n. test_bit src j \<and> bitmap_bitremap j old new n = i))"
proof -
  have r: "bitmap_remap dst (Some src) old new n =
      fold (\<lambda>j d. set_bit_op d (bitmap_bitremap j old new n)) (bits_of src n) (bitmap_zero dst n)"
    unfolding bitmap_remap_def bitmap_bitremap_def Let_def for_each_set_bit_ok
    by (auto intro!: fold_cong)
  have b: "\<forall>j \<in> set (bits_of src n). bitmap_bitremap j old new n < 64 * length (bitmap_zero dst n)"
    using has_bits_bit [OF assms] bitmap_bitremap_less by (simp add: bits_of_def)
  show ?thesis
  proof (intro conjI allI impI)
    show "length (bitmap_remap dst (Some src) old new n) = length dst"
    proof (cases "length dst = 0")
      case True
      then have "n = 0" using assms BITS_TO_LONGS_less [of 0 n] by (simp add: has_bits_def)
      then show ?thesis unfolding r by (simp add: bits_of_def)
    next
      case False
      then show ?thesis using fold_set_bits(1) [OF b, of 0] by (simp add: r)
    qed
    fix i assume i: "i < n"
    then show "test_bit (bitmap_remap dst (Some src) old new n) i \<longleftrightarrow>
       (\<exists>j < n. test_bit src j \<and> bitmap_bitremap j old new n = i)"
      using fold_set_bits(2) [OF b, of i] has_bits_bit [OF assms i] bitmap_zero_bit [OF assms i]
      by (auto simp: r bits_of_def)
  qed
qed


lemma bits_of_Suc: "bits_of bm (Suc i) = bits_of bm i @ (if test_bit bm i then [i] else [])"
  by (simp add: bits_of_def)

lemma onto_fold:
  assumes "\<forall>x \<in> set xs. x < 64 * length d" and "distinct xs"
  shows "length (fst (fold (\<lambda>n (d, m). (if test_bit s m then set_bit_op d n else d, m + 1)) xs (d, m))) = length d \<and>
    (\<forall>i < 64 * length d. test_bit (fst (fold (\<lambda>n (d, m). (if test_bit s m then set_bit_op d n else d, m + 1)) xs (d, m))) i \<longleftrightarrow>
       test_bit d i \<or> (\<exists>k < length xs. xs ! k = i \<and> test_bit s (m + k)))"
  using assms
proof (induction xs arbitrary: d m)
  case (Cons x xs)
  let ?d = "if test_bit s m then set_bit_op d x else d"
  have x: "x < 64 * length d" and l: "length ?d = length d"
    using Cons.prems(1) by (simp_all add: set_bit_op_def)
  have xs: "\<forall>x \<in> set xs. x < 64 * length ?d" "distinct xs" using Cons.prems l by simp_all
  note IH = Cons.IH [OF xs, of "m + 1"]
  have "test_bit ?d i \<or> (\<exists>k < length xs. xs ! k = i \<and> test_bit s (m + 1 + k)) \<longleftrightarrow>
      test_bit d i \<or> (\<exists>k < length (x # xs). (x # xs) ! k = i \<and> test_bit s (m + k))" if "i < 64 * length d" for i
    using set_bit_op_bit(1) [OF that x] by (auto simp: Ex_less_Suc2)
  then show ?case using IH l by simp
qed simp

lemma bitmap_onto_bits:
  assumes "has_bits dst n"
  shows "length (bitmap_onto dst (Some orig) relmap n) = length dst \<and>
    (\<forall>i < n. test_bit (bitmap_onto dst (Some orig) relmap n) i \<longleftrightarrow>
       test_bit relmap i \<and> test_bit orig (nat (bitmap_pos_to_ord relmap i n)))"
proof -
  let ?L = "bits_of relmap n"
  have L: "\<forall>x \<in> set ?L. x < 64 * length (bitmap_zero dst n)" "distinct ?L"
    using has_bits_bit [OF assms] by (simp_all add: bits_of_def)
  note r = onto_fold [OF L, of orig 0]
  have m: "(\<exists>k < length ?L. ?L ! k = i \<and> test_bit orig (0 + k)) \<longleftrightarrow>
      test_bit relmap i \<and> test_bit orig (nat (bitmap_pos_to_ord relmap i n))" if i: "i < n" for i
  proof
    assume "\<exists>k < length ?L. ?L ! k = i \<and> test_bit orig (0 + k)"
    then obtain k where k: "k < length ?L" "?L ! k = i" "test_bit orig k" by auto
    then have "i \<in> set ?L" by (metis nth_mem)
    then show "test_bit relmap i \<and> test_bit orig (nat (bitmap_pos_to_ord relmap i n))"
      using k bitmap_pos_to_ord_nth [OF k(1)] by (simp add: bits_of_def)
  next
    assume a: "test_bit relmap i \<and> test_bit orig (nat (bitmap_pos_to_ord relmap i n))"
    note p = bitmap_ord_to_pos_of_pos [OF i conjunct1 [OF a]]
    then show "\<exists>k < length ?L. ?L ! k = i \<and> test_bit orig (0 + k)"
      using a by (intro exI [of _ "length (bits_of relmap i)"]) (simp add: bitmap_ord_to_pos_ok)
  qed
  have "test_bit (bitmap_onto dst (Some orig) relmap n) i \<longleftrightarrow>
      (\<exists>k < length ?L. ?L ! k = i \<and> test_bit orig (0 + k))" if i: "i < n" for i
    using r has_bits_bit [OF assms i] bitmap_zero_bit [OF assms i]
    by (simp add: bitmap_onto_def for_each_set_bit_ok)
  then show ?thesis using r m by (simp add: bitmap_onto_def for_each_set_bit_ok)
qed

lemma bitmap_fold_bits:
  assumes "has_bits dst n" and "0 < n"
  shows "length (bitmap_fold dst (Some orig) sz n) = length dst \<and>
    (\<forall>i < n. test_bit (bitmap_fold dst (Some orig) sz n) i \<longleftrightarrow> (\<exists>j < n. test_bit orig j \<and> j mod sz = i))"
proof -
  have b: "\<forall>j \<in> set (bits_of orig n). j mod sz < 64 * length (bitmap_zero dst n)"
    using has_bits_bit [OF assms(1)] by (auto simp: bits_of_def intro: le_less_trans [OF mod_less_eq_dividend])
  note r = fold_set_bits [OF b]
  have "0 < 64 * length (bitmap_zero dst n)" using has_bits_bit [OF assms] by simp
  moreover have "test_bit (bitmap_fold dst (Some orig) sz n) i \<longleftrightarrow> (\<exists>j < n. test_bit orig j \<and> j mod sz = i)"
    if i: "i < n" for i
    using r(2) [of i] has_bits_bit [OF assms(1) i] bitmap_zero_bit [OF assms(1) i]
    by (auto simp: bitmap_fold_def for_each_set_bit_ok bits_of_def)
  ultimately show ?thesis using r(1) [of 0] by (simp add: bitmap_fold_def for_each_set_bit_ok)
qed

end
