(* ===== verification/Bitmap_Arr32.thy ===== *)
theory Bitmap_Arr32
  imports Bitmap_Maps
begin

text \<open>
  \<^verbatim>\<open>bitmap_from_arr32\<close> and \<^verbatim>\<open>bitmap_to_arr32\<close> keep every bit at its number.
\<close>

lemma pair_bit:
  fixes lo hi :: "32 word"
  assumes "j < 64"
  shows "bit (ucast lo OR push_bit 32 (ucast hi) :: 64 word) j \<longleftrightarrow> (if j < 32 then bit lo j else bit hi (j - 32))"
  using assms by (auto simp: bit_or_iff bit_push_bit_iff bit_unsigned_iff dest: bit_imp_le_length)

lemma from_arr32_loop_ok:
  assumes "h \<le> 2 * length bm"
  shows "length (from_arr32_loop buf h (2 * k) bm) = length bm \<and>
    (\<forall>w < length bm. from_arr32_loop buf h (2 * k) bm ! w =
      (if k \<le> w \<and> 2 * w < h then ucast (buf ! (2 * w)) OR (if 2 * w + 1 < h then push_bit 32 (ucast (buf ! (2 * w + 1))) else 0)
       else bm ! w))"
  using assms
proof (induction "h - 2 * k" arbitrary: k bm rule: less_induct)
  case less
  show ?case
  proof (cases "2 * k < h")
    case False
    then show ?thesis by (subst (1 2) from_arr32_loop.simps) auto
  next
    case True
    define v where "v = ucast (buf ! (2 * k)) OR (if 2 * k + 1 < h then push_bit 32 (ucast (buf ! (2 * k + 1))) else 0 :: 64 word)"
    have k: "k < length bm" using True less.prems by simp
    have step: "from_arr32_loop buf h (2 * k) bm = from_arr32_loop buf h (2 * (k + 1)) (bm[k := v])"
      using True k by (subst from_arr32_loop.simps) (simp add: Let_def v_def)
    have "h - 2 * (k + 1) < h - 2 * k" "h \<le> 2 * length (bm[k := v])" using True less.prems by simp_all
    note IH = less.hyps [OF this]
    show ?thesis unfolding step
    proof (intro conjI allI impI)
      show "length (from_arr32_loop buf h (2 * (k + 1)) (bm[k := v])) = length bm" using IH by simp
      fix w assume w: "w < length bm"
      show "from_arr32_loop buf h (2 * (k + 1)) (bm[k := v]) ! w =
        (if k \<le> w \<and> 2 * w < h then ucast (buf ! (2 * w)) OR (if 2 * w + 1 < h then push_bit 32 (ucast (buf ! (2 * w + 1))) else 0)
         else bm ! w)"
        using IH w True by (cases "w = k") (auto simp: v_def)
    qed
  qed
qed

lemma from_arr32_word_bit:
  assumes "j < 64"
  shows "bit (ucast (buf ! (2 * w)) OR (if 2 * w + 1 < h then push_bit 32 (ucast (buf ! (2 * w + 1))) else 0) :: 64 word) j \<longleftrightarrow>
    (if j < 32 then bit (buf ! (2 * w) :: 32 word) j else 2 * w + 1 < h \<and> bit (buf ! (2 * w + 1)) (j - 32))"
  using assms pair_bit [OF assms, of "buf ! (2 * w)" "buf ! (2 * w + 1)"]
  by (auto simp: bit_unsigned_iff dest: bit_imp_le_length)

lemma halfword_index:
  fixes i :: nat
  shows "i mod 64 < 32 \<Longrightarrow> i div 32 = 2 * (i div 64) \<and> i mod 32 = i mod 64"
    and "\<not> i mod 64 < 32 \<Longrightarrow> i div 32 = 2 * (i div 64) + 1 \<and> i mod 32 = i mod 64 - 32"
proof -
  have d: "i div 64 = i div 32 div 2" and m: "i mod 64 = 32 * (i div 32 mod 2) + i mod 32"
    using div_mult2_eq [of i 32 2] mod_mult2_eq [of i 32 2] by simp_all
  have e: "i div 32 = 2 * (i div 32 div 2) + i div 32 mod 2" and c: "i mod 32 < 32" by simp_all
  have p: "i div 32 mod 2 = 0 \<or> i div 32 mod 2 = 1" by linarith
  show "i div 32 = 2 * (i div 64) \<and> i mod 32 = i mod 64" if "i mod 64 < 32"
  proof -
    have z: "i div 32 mod 2 = 0" using p that m by linarith
    show ?thesis using e m unfolding d z by (metis add_0 add_0_right mult_0_right)
  qed
  show "i div 32 = 2 * (i div 64) + 1 \<and> i mod 32 = i mod 64 - 32" if "\<not> i mod 64 < 32"
  proof -
    have z: "i div 32 mod 2 = 1" using p that m c by linarith
    show ?thesis using e m unfolding d z by (metis add_diff_cancel_left' mult.right_neutral)
  qed
qed

lemma bitmap_from_arr32_bits:
  assumes "has_bits bm n" and i: "i < n"
  shows "length (bitmap_from_arr32 bm buf n) = length bm"
    and "test_bit (bitmap_from_arr32 bm buf n) i \<longleftrightarrow> bit (buf ! (i div 32)) (i mod 32)"
proof -
  define h where "h = (n + 32 - 1) div 32"
  define r where "r = from_arr32_loop buf h 0 bm"
  have nb: "n \<le> length bm * 64" using assms(1) BITS_TO_LONGS_less [of "length bm" n] by (simp add: has_bits_def not_less)
  have h: "n \<le> h * 32" "h * 32 < n + 32" unfolding h_def by linarith+
  have hb: "h \<le> 2 * length bm" using nb h by linarith
  note ok = from_arr32_loop_ok [OF hb, of buf 0, simplified, folded r_def]
  have w: "i div 64 < length bm" by (rule has_bits_word [OF assms])
  have ih: "i div 32 < h" using i h by linarith
  have "2 * (i div 64) \<le> i div 32" by linarith
  then have lt: "2 * (i div 64) < h" using ih by simp
  have j: "i mod 64 < 64" by simp
  have bit: "bit (r ! (i div 64)) (i mod 64) \<longleftrightarrow> bit (buf ! (i div 32)) (i mod 32)"
  proof (cases "i mod 64 < 32")
    case True
    then show ?thesis using ok w lt from_arr32_word_bit [OF j, of buf "i div 64" h] halfword_index(1) [OF True] by simp
  next
    case False
    have "2 * (i div 64) + 1 < h" using ih halfword_index(2) [OF False] by simp
    then show ?thesis using ok w lt False from_arr32_word_bit [OF j, of buf "i div 64" h] halfword_index(2) [OF False] by simp
  qed
  have res: "bitmap_from_arr32 bm buf n = (if n mod 64 \<noteq> 0 then r[(h - 1) div 2 := r ! ((h - 1) div 2) AND BITMAP_LAST_WORD_MASK n] else r)"
    by (simp add: bitmap_from_arr32_def Let_def h_def r_def)
  show "length (bitmap_from_arr32 bm buf n) = length bm" using ok by (simp add: res)
  have last: "bit (BITMAP_LAST_WORD_MASK n) (i mod 64)" if "n mod 64 \<noteq> 0" "i div 64 = (h - 1) div 2"
  proof -
    have n: "n = 64 * (n div 64) + n mod 64" "0 < n mod 64" "n mod 64 < 64" using that(1) by simp_all
    have "2 * (n div 64) < h" "h < 2 * (n div 64) + 3" using n h by linarith+
    then have "h - 1 = 2 * (n div 64) \<or> h - 1 = 2 * (n div 64) + 1" by linarith
    then have "(h - 1) div 2 = n div 64" by auto
    then have "i mod 64 < n mod 64" using that(2) i by (metis div_mult_mod_eq nat_add_left_cancel_less)
    then show ?thesis using that(1) by (simp add: bit_last_mask)
  qed
  have len: "i div 64 < length r" using ok w by simp
  show "test_bit (bitmap_from_arr32 bm buf n) i \<longleftrightarrow> bit (buf ! (i div 32)) (i mod 32)"
    unfolding res bit [symmetric] using last len
    by (cases "i div 64 = (h - 1) div 2") (auto simp: test_bit_iff bit_and_iff)
qed

lemma to_arr32_loop_ok:
  assumes "h \<le> length buf"
  shows "length (to_arr32_loop bm h (2 * k) buf) = length buf \<and>
    (\<forall>w < length buf. to_arr32_loop bm h (2 * k) buf ! w =
      (if 2 * k \<le> w \<and> w < h then (if even w then ucast (bm ! (w div 2) AND 0xFFFFFFFF) else ucast (drop_bit 32 (bm ! (w div 2))))
       else buf ! w))"
  using assms
proof (induction "h - 2 * k" arbitrary: k buf rule: less_induct)
  case less
  show ?case
  proof (cases "2 * k < h")
    case False
    then show ?thesis by (subst (1 2) to_arr32_loop.simps) auto
  next
    case True
    define b where "b = buf[2 * k := ucast (bm ! k AND 0xFFFFFFFF)]"
    define c where "c = (if 2 * k + 1 < h then b[2 * k + 1 := ucast (drop_bit 32 (bm ! k))] else b)"
    have step: "to_arr32_loop bm h (2 * k) buf = to_arr32_loop bm h (2 * (k + 1)) c"
      using True by (subst to_arr32_loop.simps) (simp add: Let_def b_def c_def)
    have len: "length c = length buf" by (simp add: b_def c_def)
    have "h - 2 * (k + 1) < h - 2 * k" "h \<le> length c" using True less.prems len by simp_all
    note IH = less.hyps [OF this]
    show ?thesis unfolding step
    proof (intro conjI allI impI)
      show "length (to_arr32_loop bm h (2 * (k + 1)) c) = length buf" using IH len by simp
      fix w assume w: "w < length buf"
      have "to_arr32_loop bm h (2 * (k + 1)) c ! w =
        (if 2 * (k + 1) \<le> w \<and> w < h then (if even w then ucast (bm ! (w div 2) AND 0xFFFFFFFF) else ucast (drop_bit 32 (bm ! (w div 2))))
         else c ! w)" using IH w len by simp
      also have "\<dots> = (if 2 * k \<le> w \<and> w < h then (if even w then ucast (bm ! (w div 2) AND 0xFFFFFFFF) else ucast (drop_bit 32 (bm ! (w div 2))))
         else buf ! w)"
      proof -
        consider "w < 2 * k" | "w = 2 * k" | "w = 2 * k + 1" | "2 * (k + 1) \<le> w" by atomize_elim arith
        then show ?thesis using True w less.prems by cases (auto simp: b_def c_def)
      qed
      finally show "to_arr32_loop bm h (2 * (k + 1)) c ! w =
        (if 2 * k \<le> w \<and> w < h then (if even w then ucast (bm ! (w div 2) AND 0xFFFFFFFF) else ucast (drop_bit 32 (bm ! (w div 2))))
         else buf ! w)" .
    qed
  qed
qed

lemma bitmap_to_arr32_bits:
  assumes "(n + 31) div 32 \<le> length buf" and i: "i < (n + 31) div 32 * 32"
  shows "length (bitmap_to_arr32 buf bm n) = length buf"
    and "bit (bitmap_to_arr32 buf bm n ! (i div 32)) (i mod 32) \<longleftrightarrow> i < n \<and> test_bit bm i"
proof -
  define h where "h = (n + 32 - 1) div 32"
  define r where "r = to_arr32_loop bm h 0 buf"
  have hn: "h = (n + 31) div 32" by (simp add: h_def)
  have hb: "h \<le> length buf" and ih: "i div 32 < h" using assms unfolding hn by (simp_all add: less_mult_imp_div_less)
  have h: "n \<le> h * 32" "h * 32 < n + 32" unfolding h_def by linarith+
  note ok = to_arr32_loop_ok [OF hb, of bm 0, simplified, folded r_def]
  have j: "i mod 32 < 32" by simp
  have bit: "bit (r ! (i div 32)) (i mod 32) \<longleftrightarrow> test_bit bm i"
  proof (cases "i mod 64 < 32")
    case True
    have "r ! (i div 32) = ucast (bm ! (i div 64) AND 0xFFFFFFFF)"
      using ok ih hb halfword_index(1) [OF True] by simp
    moreover have "bit (0xFFFFFFFF :: 64 word) (i mod 64)"
      using True bit_mask_iff [of 32 "i mod 64", where 'a = "64 word"] by (simp add: mask_eq_exp_minus_1)
    ultimately show ?thesis
      using halfword_index(1) [OF True] True by (simp add: test_bit_iff bit_unsigned_iff bit_and_iff)
  next
    case False
    have "r ! (i div 32) = ucast (drop_bit 32 (bm ! (i div 64)))"
      using ok ih hb halfword_index(2) [OF False] by simp
    then show ?thesis
      using halfword_index(2) [OF False] False j by (simp add: test_bit_iff bit_unsigned_iff bit_drop_bit_eq)
  qed
  have res: "bitmap_to_arr32 buf bm n =
      (if n mod 64 \<noteq> 0 then r[h - 1 := r ! (h - 1) AND drop_bit ((32 - n mod 32) mod 32) 0xFFFFFFFF] else r)"
    by (simp add: bitmap_to_arr32_def Let_def h_def r_def)
  show "length (bitmap_to_arr32 buf bm n) = length buf" using ok by (simp add: res)
  have tail: "bit (drop_bit ((32 - n mod 32) mod 32) 0xFFFFFFFF :: 32 word) (i mod 32) \<longleftrightarrow> i < n" if "i div 32 = h - 1"
  proof -
    have "bit (0xFFFFFFFF :: 32 word) j \<longleftrightarrow> j < 32" for j
      using bit_mask_iff [of 32 j, where 'a = "32 word"] by (auto simp: mask_eq_exp_minus_1 dest: bit_imp_le_length)
    then have "bit (drop_bit ((32 - n mod 32) mod 32) 0xFFFFFFFF :: 32 word) (i mod 32) \<longleftrightarrow>
        (32 - n mod 32) mod 32 + i mod 32 < 32" by (simp add: bit_drop_bit_eq)
    also have "\<dots> \<longleftrightarrow> i < n"
    proof (cases "n mod 32 = 0")
      case True
      then have "n = h * 32" using h by presburger
      then have "i < n" using ih by (simp add: div_less_iff_less_mult)
      then show ?thesis using True by simp
    next
      case False
      then have m: "(32 - n mod 32) mod 32 = 32 - n mod 32" by simp
      have n: "n = n div 32 * 32 + n mod 32" "n mod 32 < 32" by simp_all
      then have "n div 32 < h" "h < n div 32 + 2" using h False by linarith+
      then have "h - 1 = n div 32" by simp
      then have "i = n div 32 * 32 + i mod 32" using that by (metis div_mult_mod_eq)
      then have "i < n \<longleftrightarrow> i mod 32 < n mod 32" using n(1) by linarith
      then show ?thesis unfolding m using n(2) by arith
    qed
    finally show ?thesis .
  qed
  have early: "i < n" if "i div 32 \<noteq> h - 1" using that ih h by linarith
  have exact: "i < n" if "n mod 64 = 0"
  proof -
    have "n mod 32 = 0" using that by presburger
    then have "n = h * 32" using h by presburger
    then show ?thesis using i unfolding hn [symmetric] by simp
  qed
  have len: "i div 32 < length r" using ok ih hb by simp
  show "bit (bitmap_to_arr32 buf bm n ! (i div 32)) (i mod 32) \<longleftrightarrow> i < n \<and> test_bit bm i"
    unfolding res bit [symmetric] using tail early exact len
    by (cases "i div 32 = h - 1") (auto simp: bit_and_iff)
qed

end
