(* ===== verification/Bitmap_Regions.thy ===== *)
theory Bitmap_Regions
  imports Bitmap_Maps
begin

text \<open>
  Aligned regions of a power of two bits: what \<^verbatim>\<open>__reg_op\<close> reads and writes, and the search of
  \<^verbatim>\<open>bitmap_find_free_region\<close>.
\<close>

lemma reg_mask_push: "reg_mask pos order = push_bit (pos mod 64) (mask (min (2 ^ order) 64))"
proof -
  define b :: nat where "b = min (2 ^ order) 64"
  have "0 < b" by (simp add: b_def)
  then obtain c where c: "b = Suc c" by (cases b) simp_all
  have "push_bit (b - 1) 1 + (push_bit (b - 1) 1 - 1) = (mask b :: 64 word)"
    by (simp add: c mask_eq_exp_minus_1)
  then show ?thesis
    unfolding reg_mask_def Let_def b_def [symmetric] by (simp add: minus_div_mult_eq_mod)
qed

lemma region_words:
  fixes pos order :: nat
  assumes "2 ^ order dvd pos"
  shows "(order < 6 \<and> reg_nlongs order = 1 \<and> pos mod 64 + 2 ^ order \<le> 64) \<or>
    (6 \<le> order \<and> pos mod 64 = 0 \<and> 2 ^ order = reg_nlongs order * 64)"
proof (cases "order < 6")
  case True
  then have "(64 :: nat) = 2 ^ order * 2 ^ (6 - order)" by (simp flip: power_add)
  then obtain c :: nat where c: "64 = 2 ^ order * c" and "0 < c" by (metis gr0I mult_0_right zero_neq_numeral)
  have "2 ^ order dvd (64 :: nat)" unfolding c by (rule dvd_triv_left)
  then have "2 ^ order dvd pos mod 64" by (rule dvd_mod [OF assms])
  then obtain d where d: "pos mod 64 = 2 ^ order * d" by blast
  have "2 ^ order * d < 2 ^ order * c" using d c by (metis mod_less_divisor zero_less_numeral)
  then have "d + 1 \<le> c" by simp
  then have "2 ^ order * (d + 1) \<le> 2 ^ order * c" by (rule mult_le_mono2)
  then have "pos mod 64 + 2 ^ order \<le> 64" using c d by simp
  moreover have "reg_nlongs order = 1"
  proof -
    have "(2 :: nat) ^ order \<le> 64" using c \<open>0 < c\<close> by (metis dvd_imp_le dvd_triv_left zero_less_numeral)
    moreover have "(0 :: nat) < 2 ^ order" by simp
    ultimately show ?thesis unfolding reg_nlongs_def BITS_TO_LONGS_def by linarith
  qed
  ultimately show ?thesis using True by simp
next
  case False
  then have p: "(2 :: nat) ^ order = 64 * 2 ^ (order - 6)"
    using power_add [of "2 :: nat" 6 "order - 6"] by simp
  then have "64 dvd pos" using assms by (metis dvd_mult_left)
  moreover have "reg_nlongs order = 2 ^ (order - 6)"
    unfolding reg_nlongs_def BITS_TO_LONGS_def p by simp
  ultimately show ?thesis using False p by simp
qed

lemma region_bit:
  assumes "2 ^ order dvd pos" and "k < reg_nlongs order" and "j < 64"
  shows "bit (reg_mask pos order) j \<longleftrightarrow>
    pos \<le> (pos div 64 + k) * 64 + j \<and> (pos div 64 + k) * 64 + j < pos + 2 ^ order"
  using region_words [OF assms(1)]
proof
  assume a: "order < 6 \<and> reg_nlongs order = 1 \<and> pos mod 64 + 2 ^ order \<le> 64"
  then have k: "k = 0" and b: "min (2 ^ order) 64 = (2 ^ order :: nat)" using assms(2) by simp_all
  have p: "pos div 64 * 64 + pos mod 64 = pos" by simp
  have "bit (reg_mask pos order) j \<longleftrightarrow> pos mod 64 \<le> j \<and> j < pos mod 64 + 2 ^ order"
    unfolding reg_mask_push b using assms(3) by (auto simp: bit_push_bit_iff bit_mask_iff)
  also have "\<dots> \<longleftrightarrow> pos \<le> pos div 64 * 64 + j \<and> pos div 64 * 64 + j < pos + 2 ^ order"
    using p by linarith
  finally show ?thesis by (simp add: k)
next
  assume a: "6 \<le> order \<and> pos mod 64 = 0 \<and> 2 ^ order = reg_nlongs order * 64"
  then have b: "min (2 ^ order) 64 = (64 :: nat)" using assms(2) by simp
  have "pos div 64 * 64 = pos" using a by (metis add_0_right div_mult_mod_eq)
  moreover have "k * 64 + 64 \<le> 2 ^ order" using a assms(2) by simp
  moreover have "bit (reg_mask pos order) j" unfolding reg_mask_push b using a assms(3) by (simp add: bit_mask_iff)
  ultimately show ?thesis using assms(3) by (simp add: distrib_right)
qed

lemma region_word:
  assumes "2 ^ order dvd pos" and "pos \<le> i" and "i < pos + 2 ^ order"
  shows "pos div 64 \<le> i div 64 \<and> i div 64 - pos div 64 < reg_nlongs order"
proof -
  have p: "pos div 64 * 64 + pos mod 64 = pos" and i: "i div 64 * 64 + i mod 64 = i" by simp_all
  have "pos div 64 \<le> i div 64" using assms(2) by (rule div_le_mono)
  moreover have "i div 64 - pos div 64 < reg_nlongs order"
    using region_words [OF assms(1)]
  proof
    assume "order < 6 \<and> reg_nlongs order = 1 \<and> pos mod 64 + 2 ^ order \<le> 64"
    moreover from this have "i div 64 * 64 < pos div 64 * 64 + 64" using p i assms(3) by linarith
    ultimately show ?thesis by simp
  next
    assume a: "6 \<le> order \<and> pos mod 64 = 0 \<and> 2 ^ order = reg_nlongs order * 64"
    then have "i div 64 * 64 < pos div 64 * 64 + reg_nlongs order * 64" using p i assms(3) by linarith
    then have "i div 64 < pos div 64 + reg_nlongs order" by simp
    then show ?thesis using \<open>pos div 64 \<le> i div 64\<close> by simp
  qed
  ultimately show ?thesis by simp
qed

lemma region_room:
  assumes "2 ^ order dvd pos" and "pos + 2 ^ order \<le> 64 * length bm" and "k < reg_nlongs order"
  shows "pos div 64 + k < length bm"
proof -
  have p: "pos div 64 * 64 + pos mod 64 = pos" and g: "(0 :: nat) < 2 ^ order" by simp_all
  show ?thesis using region_words [OF assms(1)]
  proof
    assume "order < 6 \<and> reg_nlongs order = 1 \<and> pos mod 64 + 2 ^ order \<le> 64"
    then show ?thesis using p g assms(2,3) by linarith
  next
    assume "6 \<le> order \<and> pos mod 64 = 0 \<and> 2 ^ order = reg_nlongs order * 64"
    then show ?thesis using p assms(2,3) by linarith
  qed
qed

text \<open>A loop over the words of a region that changes each under the mask.\<close>

lemma region_store:
  "length (fold (\<lambda>i d. d[a + i := g (d ! (a + i))]) [0..<m] bm) = length bm \<and>
   (\<forall>k < length bm. fold (\<lambda>i d. d[a + i := g (d ! (a + i))]) [0..<m] bm ! k =
      (if a \<le> k \<and> k < a + m then g (bm ! k) else bm ! k))"
proof (induction m)
  case (Suc m)
  then show ?case by (auto simp: nth_list_update less_Suc_eq)
qed auto

lemma reg_op_isfree_iff:
  assumes "2 ^ order dvd pos"
  shows "reg_op_isfree bm pos order \<longleftrightarrow> (\<forall>i. pos \<le> i \<and> i < pos + 2 ^ order \<longrightarrow> \<not> test_bit bm i)"
proof
  assume a: "reg_op_isfree bm pos order"
  show "\<forall>i. pos \<le> i \<and> i < pos + 2 ^ order \<longrightarrow> \<not> test_bit bm i"
  proof (intro allI impI notI)
    fix i assume i: "pos \<le> i \<and> i < pos + 2 ^ order" and t: "test_bit bm i"
    let ?k = "i div 64 - pos div 64"
    have w: "pos div 64 + ?k = i div 64" "?k < reg_nlongs order"
      using region_word [OF assms] i by simp_all
    have "bit (reg_mask pos order) (i mod 64)"
      using region_bit [OF assms w(2), of "i mod 64"] i unfolding w(1) by simp
    moreover have "bm ! (pos div 64 + ?k) AND reg_mask pos order = 0"
      using a w(2) by (simp add: reg_op_isfree_def list_all_iff)
    ultimately show False
      using t bit_and_iff [of "bm ! (i div 64)" "reg_mask pos order" "i mod 64"] unfolding w(1) by (simp add: test_bit_iff)
  qed
next
  assume a: "\<forall>i. pos \<le> i \<and> i < pos + 2 ^ order \<longrightarrow> \<not> test_bit bm i"
  have "bm ! (pos div 64 + k) AND reg_mask pos order = 0" if k: "k < reg_nlongs order" for k
  proof (rule bit_eqI)
    fix j assume "possible_bit TYPE(64 word) j"
    then have j: "j < 64" by simp
    have "test_bit bm ((pos div 64 + k) * 64 + j) = bit (bm ! (pos div 64 + k)) j"
      using j by (simp only: test_bit_iff div_mult_self3 mod_mult_self3) simp
    then show "bit (bm ! (pos div 64 + k) AND reg_mask pos order) j = bit 0 j"
      using a region_bit [OF assms k j] by (auto simp: bit_and_iff)
  qed
  then show "reg_op_isfree bm pos order" by (simp add: reg_op_isfree_def list_all_iff)
qed

lemma region_change:
  assumes "2 ^ order dvd pos" and "pos + 2 ^ order \<le> 64 * length bm" and "i < 64 * length bm"
    and g: "\<And>w j. bit (g w) j \<longleftrightarrow> (if bit (reg_mask pos order) j then v else bit w j)"
  defines "r \<equiv> fold (\<lambda>i d. d[pos div 64 + i := g (d ! (pos div 64 + i))]) [0..<reg_nlongs order] bm"
  shows "length r = length bm" and "test_bit r i \<longleftrightarrow> (if pos \<le> i \<and> i < pos + 2 ^ order then v else test_bit bm i)"
proof -
  note s = region_store [where a = "pos div 64" and g = g and m = "reg_nlongs order" and bm = bm, folded r_def]
  show "length r = length bm" using s by simp
  have k: "i div 64 < length bm" using assms(3) by (simp add: less_mult_imp_div_less mult.commute)
  have w: "r ! (i div 64) = (if pos div 64 \<le> i div 64 \<and> i div 64 < pos div 64 + reg_nlongs order
      then g (bm ! (i div 64)) else bm ! (i div 64))" using s k by simp
  show "test_bit r i \<longleftrightarrow> (if pos \<le> i \<and> i < pos + 2 ^ order then v else test_bit bm i)"
  proof (cases "pos div 64 \<le> i div 64 \<and> i div 64 < pos div 64 + reg_nlongs order")
    case True
    let ?k = "i div 64 - pos div 64"
    have e: "pos div 64 + ?k = i div 64" and "?k < reg_nlongs order" using True by linarith+
    from region_bit [OF assms(1) this(2), of "i mod 64"]
    have "bit (reg_mask pos order) (i mod 64) \<longleftrightarrow> pos \<le> i \<and> i < pos + 2 ^ order" unfolding e by simp
    then show ?thesis using w True g by (simp add: test_bit_iff)
  next
    case False
    then have "\<not> (pos \<le> i \<and> i < pos + 2 ^ order)" using region_word [OF assms(1), of i] by auto
    then show ?thesis using w False by (auto simp: test_bit_iff)
  qed
qed

lemma reg_op_alloc_ok:
  assumes "2 ^ order dvd pos" and "pos + 2 ^ order \<le> 64 * length bm" and "i < 64 * length bm"
  shows "length (reg_op_alloc bm pos order) = length bm"
    and "test_bit (reg_op_alloc bm pos order) i \<longleftrightarrow> pos \<le> i \<and> i < pos + 2 ^ order \<or> test_bit bm i"
  using region_change [OF assms, of "\<lambda>w. w OR reg_mask pos order" True]
  by (auto simp: bit_or_iff reg_op_alloc_def)

lemma reg_op_release_ok:
  assumes "2 ^ order dvd pos" and "pos + 2 ^ order \<le> 64 * length bm" and "i < 64 * length bm"
  shows "length (reg_op_release bm pos order) = length bm"
    and "test_bit (reg_op_release bm pos order) i \<longleftrightarrow> \<not> (pos \<le> i \<and> i < pos + 2 ^ order) \<and> test_bit bm i"
proof -
  have "bit (w AND NOT (reg_mask pos order)) j \<longleftrightarrow> (if bit (reg_mask pos order) j then False else bit w j)" for w j
    by (auto simp: bit_and_iff bit_not_iff dest: bit_imp_possible_bit)
  from region_change [OF assms this] show "length (reg_op_release bm pos order) = length bm"
    "test_bit (reg_op_release bm pos order) i \<longleftrightarrow> \<not> (pos \<le> i \<and> i < pos + 2 ^ order) \<and> test_bit bm i"
    by (auto simp: reg_op_release_def)
qed


text \<open>Below these bounds the positions do not wrap, and the search ends.\<close>

lemma region_end:
  fixes pos bits order :: nat
  assumes "pos \<le> bits" "bits \<le> 2 ^ 31" "order \<le> 30"
  shows "(pos + 2 ^ order mod 2 ^ 32) mod 2 ^ 32 = pos + 2 ^ order"
proof -
  have "(2::nat) ^ order \<le> 2 ^ 30" using assms(3) by (intro power_increasing) simp_all
  then show ?thesis using assms(1,2) by simp
qed

lemma region_gap:
  fixes pos q order :: nat
  assumes "2 ^ order dvd pos" "2 ^ order dvd q" "pos < q"
  shows "pos + 2 ^ order \<le> q"
proof -
  obtain a b where "pos = 2 ^ order * a" "q = 2 ^ order * b" using assms(1,2) unfolding dvd_def by blast
  moreover from this assms(3) have "a + 1 \<le> b" by simp
  then have "2 ^ order * (a + 1) \<le> 2 ^ order * b" by (rule mult_le_mono2)
  ultimately show ?thesis by simp
qed

lemma find_free_region_loop_ok:
  assumes "2 ^ order dvd pos" and "pos \<le> bits" and "bits \<le> 2 ^ 31" and "order \<le> 30"
  shows "\<exists>r bm'. find_free_region_loop bm bits order pos = Some (r, bm') \<and>
    ((\<exists>p. r = int p \<and> pos \<le> p \<and> p + 2 ^ order \<le> bits \<and> 2 ^ order dvd p \<and> reg_op_isfree bm p order \<and>
      bm' = reg_op_alloc bm p order \<and> (\<forall>q. pos \<le> q \<and> q < p \<and> 2 ^ order dvd q \<longrightarrow> \<not> reg_op_isfree bm q order)) \<or>
    (r = - ENOMEM \<and> bm' = bm \<and>
      (\<forall>q. pos \<le> q \<and> 2 ^ order dvd q \<and> q + 2 ^ order \<le> bits \<longrightarrow> \<not> reg_op_isfree bm q order)))"
  using assms(1,2)
proof (induction "bits - pos" arbitrary: pos rule: less_induct)
  case less
  note run = find_free_region_loop.simps [of bm bits order pos, unfolded region_end [OF less(3) assms(3,4)] Let_def]
  consider (free) "pos + 2 ^ order \<le> bits" "reg_op_isfree bm pos order"
    | (busy) "pos + 2 ^ order \<le> bits" "\<not> reg_op_isfree bm pos order" | (past) "\<not> pos + 2 ^ order \<le> bits"
    by blast
  then show ?case
  proof cases
    case free
    have "(0::nat) < 2 ^ order" by simp
    then have "pos < 2 ^ 31" using free(1) assms(3) by linarith
    then have "find_free_region_loop bm bits order pos = Some (int pos, reg_op_alloc bm pos order)"
      using free by (simp add: run s32_of_u32_def)
    then show ?thesis using free less(2) by auto
  next
    case busy
    have "bits - (pos + 2 ^ order) < bits - pos" using busy(1) zero_less_power [of "2 :: nat" order] by linarith
    from less(1) [OF this] less(2) busy(1) obtain r bm' where
      step: "find_free_region_loop bm bits order (pos + 2 ^ order) = Some (r, bm')"
      and IH: "(\<exists>p. r = int p \<and> pos + 2 ^ order \<le> p \<and> p + 2 ^ order \<le> bits \<and> 2 ^ order dvd p \<and> reg_op_isfree bm p order \<and>
        bm' = reg_op_alloc bm p order \<and> (\<forall>q. pos + 2 ^ order \<le> q \<and> q < p \<and> 2 ^ order dvd q \<longrightarrow> \<not> reg_op_isfree bm q order)) \<or>
      (r = - ENOMEM \<and> bm' = bm \<and>
        (\<forall>q. pos + 2 ^ order \<le> q \<and> 2 ^ order dvd q \<and> q + 2 ^ order \<le> bits \<longrightarrow> \<not> reg_op_isfree bm q order))" by auto
    have run2: "find_free_region_loop bm bits order pos = Some (r, bm')" using busy step by (simp add: run)
    have later: "\<not> reg_op_isfree bm q order"
      if "pos \<le> q" "2 ^ order dvd q" "pos + 2 ^ order \<le> q \<Longrightarrow> \<not> reg_op_isfree bm q order" for q
      using that region_gap [OF less(2) that(2)] busy(2) by (cases "q = pos") auto
    from IH show ?thesis
    proof
      assume "\<exists>p. r = int p \<and> pos + 2 ^ order \<le> p \<and> p + 2 ^ order \<le> bits \<and> 2 ^ order dvd p \<and> reg_op_isfree bm p order \<and>
        bm' = reg_op_alloc bm p order \<and> (\<forall>q. pos + 2 ^ order \<le> q \<and> q < p \<and> 2 ^ order dvd q \<longrightarrow> \<not> reg_op_isfree bm q order)"
      then obtain p where p: "r = int p" "pos + 2 ^ order \<le> p" "p + 2 ^ order \<le> bits" "2 ^ order dvd p"
        "reg_op_isfree bm p order" "bm' = reg_op_alloc bm p order"
        "\<forall>q. pos + 2 ^ order \<le> q \<and> q < p \<and> 2 ^ order dvd q \<longrightarrow> \<not> reg_op_isfree bm q order" by blast
      then show ?thesis using later run2 by (intro exI [of _ r] exI [of _ bm'] conjI disjI1 exI [of _ p]) auto
    next
      assume "r = - ENOMEM \<and> bm' = bm \<and>
        (\<forall>q. pos + 2 ^ order \<le> q \<and> 2 ^ order dvd q \<and> q + 2 ^ order \<le> bits \<longrightarrow> \<not> reg_op_isfree bm q order)"
      then show ?thesis using later run2 by (intro exI [of _ r] exI [of _ bm'] conjI disjI2) auto
    qed
  next
    case past
    then have "find_free_region_loop bm bits order pos = Some (- ENOMEM, bm)" by (simp add: run)
    then show ?thesis using past by auto
  qed
qed

end
