(* ===== verification/Bitmap_Area.thy ===== *)
theory Bitmap_Area
  imports Bitmap_Spec
begin

text \<open>
  \<^verbatim>\<open>bitmap_find_next_zero_area_off\<close> always ends, and returns the first aligned area of zero
  bits, or a number past the end when there is none.
\<close>

definition aligned_area :: "bitmap \<Rightarrow> nat \<Rightarrow> nat \<Rightarrow> nat \<Rightarrow> nat \<Rightarrow> nat \<Rightarrow> bool" where
  "aligned_area bm sz nr k off q \<longleftrightarrow>
     q + nr \<le> sz \<and> 2 ^ k dvd q + off \<and> (\<forall>i. q \<le> i \<and> i < q + nr \<longrightarrow> \<not> test_bit bm i)"

lemma ALIGN_MASK_pow2:
  assumes "k < 64" and "x + 2 ^ k \<le> U64_MAX"
  shows "x \<le> ALIGN_MASK x (2 ^ k - 1)" and "2 ^ k dvd ALIGN_MASK x (2 ^ k - 1)"
    and "ALIGN_MASK x (2 ^ k - 1) < x + 2 ^ k"
    and "\<And>y. x \<le> y \<Longrightarrow> 2 ^ k dvd y \<Longrightarrow> ALIGN_MASK x (2 ^ k - 1) \<le> y"
proof -
  let ?p = "(2 :: nat) ^ k" and ?y = "x + 2 ^ k - 1"
  have p: "0 < ?p" by simp
  have "add64 x (?p - 1) = ?y" using assms(2) p by (subst add64_exact) simp_all
  moreover have "?p - 1 = sub64 ?p 1" using assms p by (simp add: sub64_exact)
  moreover have "?y \<le> U64_MAX" using assms(2) by simp
  ultimately have A: "ALIGN_MASK x (2 ^ k - 1) = ?y div ?p * ?p"
    using round_down64_pow2 [of ?y k] assms(1) by (simp add: ALIGN_MASK_def round_down64_def)
  have y: "?y div ?p * ?p + ?y mod ?p = ?y" by (rule div_mult_mod_eq)
  have m: "?y mod ?p < ?p" by simp
  show "x \<le> ALIGN_MASK x (2 ^ k - 1)" "ALIGN_MASK x (2 ^ k - 1) < x + 2 ^ k" "2 ^ k dvd ALIGN_MASK x (2 ^ k - 1)"
    unfolding A using y m p by (linarith, linarith, simp)
  fix z assume z: "x \<le> z" "?p dvd z"
  then obtain c where c: "z = ?p * c" by blast
  have "?y < ?p * (c + 1)" using z(1) p unfolding c distrib_left mult_1_right by linarith
  then have "?y div ?p < c + 1" by (simp add: less_mult_imp_div_less mult.commute)
  then have "?y div ?p \<le> c" by simp
  then have "?y div ?p * ?p \<le> c * ?p" by (rule mult_le_mono1)
  then show "ALIGN_MASK x (2 ^ k - 1) \<le> z" unfolding A c by (simp add: mult.commute)
qed

lemma first_from_bounds:
  assumes "s \<le> n"
  shows "s \<le> first_from B s n" and "first_from B s n \<le> n" and "\<And>i. s \<le> i \<Longrightarrow> i < first_from B s n \<Longrightarrow> \<not> B i"
  using assms by (cases rule: first_from_cases [of B s n]; simp)+

lemma first_from_hit:
  assumes "first_from B s n < n"
  shows "s \<le> first_from B s n" and "B (first_from B s n)"
  using assms by (cases rule: first_from_cases [of B s n]; simp)+

lemma first_from_miss: "\<not> first_from B s n < n \<Longrightarrow> s \<le> i \<Longrightarrow> i < n \<Longrightarrow> \<not> B i"
  by (cases rule: first_from_cases [of B s n]; simp)

lemma find_zero_area_loop_ok:
  assumes "k < 64" and "sz + off + 2 ^ k + nr \<le> U64_MAX" and "0 < nr" and "sz - start < n" and "start \<le> sz"
  shows "\<exists>r. find_zero_area_loop n bm sz start nr (2 ^ k - 1) off = Inr r \<and>
    (if r + nr \<le> sz then aligned_area bm sz nr k off r \<and> start \<le> r \<and> (\<forall>q. start \<le> q \<and> q < r \<longrightarrow> \<not> aligned_area bm sz nr k off q)
     else sz < r \<and> (\<forall>q. start \<le> q \<longrightarrow> \<not> aligned_area bm sz nr k off q))"
  using assms(4,5)
proof (induction n arbitrary: start)
  case (Suc n)
  define i0 where "i0 = find_next_zero_bit bm sz start"
  define ix where "ix = sub64 (ALIGN_MASK (add64 i0 off) (2 ^ k - 1)) off"
  define e where "e = add64 ix nr"
  have i0: "start \<le> i0" "i0 \<le> sz" "\<And>q. start \<le> q \<Longrightarrow> q < i0 \<Longrightarrow> test_bit bm q"
    using first_from_bounds [OF Suc.prems(2), where B = "\<lambda>i. \<not> test_bit bm i"] unfolding i0_def find_next_zero_bit_ok by simp_all
  have a: "add64 i0 off = i0 + off" using i0(2) assms(2) by (intro add64_exact) simp
  note al = ALIGN_MASK_pow2 [OF assms(1), of "i0 + off"]
  have b: "i0 + off + 2 ^ k \<le> U64_MAX" using i0(2) assms(2) by simp
  have ix: "ix + off = ALIGN_MASK (i0 + off) (2 ^ k - 1)"
    using al(1,3) [OF b] b unfolding ix_def a by (subst sub64_exact) simp_all
  have ixb: "i0 \<le> ix" "ix < i0 + 2 ^ k" "2 ^ k dvd ix + off" "\<And>q. i0 \<le> q \<Longrightarrow> 2 ^ k dvd q + off \<Longrightarrow> ix \<le> q"
  proof -
    show "i0 \<le> ix" "ix < i0 + 2 ^ k" "2 ^ k dvd ix + off" using al(1-3) [OF b] ix by simp_all
    show "ix \<le> q" if "i0 \<le> q" "2 ^ k dvd q + off" for q using al(4) [OF b, of "q + off"] that ix by simp
  qed
  have e: "e = ix + nr" using ixb(2) i0(2) assms(2) unfolding e_def by (intro add64_exact) simp
  have early: "ix \<le> q" if "start \<le> q" "aligned_area bm sz nr k off q" for q
  proof (rule ixb(4))
    show "i0 \<le> q" using that i0(3) [of q] assms(3) by (force simp: aligned_area_def)
    show "2 ^ k dvd q + off" using that by (simp add: aligned_area_def)
  qed
  have loop: "find_zero_area_loop (Suc n) bm sz start nr (2 ^ k - 1) off =
      (if e > sz then Inr e else let i = find_next_bit bm e ix in
        if i < e then find_zero_area_loop n bm sz (i + 1) nr (2 ^ k - 1) off else Inr ix)"
    by (simp add: Let_def i0_def ix_def e_def)
  show ?case
  proof (cases "e > sz")
    case True
    have "\<not> aligned_area bm sz nr k off q" if "start \<le> q" for q
      using early [OF that] True e by (auto simp: aligned_area_def)
    then show ?thesis using True assms(3) unfolding loop by (intro exI [of _ e]) auto
  next
    case False
    define i where "i = find_next_bit bm e ix"
    show ?thesis
    proof (cases "i < e")
      case True
      then have i: "ix \<le> i" "test_bit bm i"
        using first_from_hit [of "test_bit bm" ix e] unfolding i_def find_next_bit_ok by simp_all
      have skip: "i + 1 \<le> q" if "start \<le> q" "aligned_area bm sz nr k off q" for q
      proof (rule ccontr)
        assume "\<not> i + 1 \<le> q"
        moreover have "i < q + nr" using early [OF that] True e by simp
        ultimately show False using i(2) that(2) by (auto simp: aligned_area_def)
      qed
      have "sz - (i + 1) < n" "i + 1 \<le> sz" using Suc.prems i(1) ixb(1) i0(1) True False by simp_all
      from Suc.IH [OF this] obtain r where r:
        "find_zero_area_loop n bm sz (i + 1) nr (2 ^ k - 1) off = Inr r"
        "if r + nr \<le> sz then aligned_area bm sz nr k off r \<and> i + 1 \<le> r \<and> (\<forall>q. i + 1 \<le> q \<and> q < r \<longrightarrow> \<not> aligned_area bm sz nr k off q)
         else sz < r \<and> (\<forall>q. i + 1 \<le> q \<longrightarrow> \<not> aligned_area bm sz nr k off q)" by blast
      have ge: "start \<le> i + 1" using i(1) ixb(1) i0(1) by simp
      have eq: "find_zero_area_loop (Suc n) bm sz start nr (2 ^ k - 1) off = Inr r"
        unfolding loop i_def [symmetric] Let_def using r(1) True False by simp
      show ?thesis
      proof (cases "r + nr \<le> sz")
        case fits: True
        then have "aligned_area bm sz nr k off r" "i + 1 \<le> r"
          "\<forall>q. i + 1 \<le> q \<and> q < r \<longrightarrow> \<not> aligned_area bm sz nr k off q" using r(2) by simp_all
        moreover from this(3) have "\<forall>q. start \<le> q \<and> q < r \<longrightarrow> \<not> aligned_area bm sz nr k off q"
          using skip by blast
        ultimately show ?thesis using eq fits ge by (intro exI [of _ r]) simp
      next
        case no: False
        then have "sz < r" "\<forall>q. i + 1 \<le> q \<longrightarrow> \<not> aligned_area bm sz nr k off q" using r(2) by simp_all
        moreover from this(2) have "\<forall>q. start \<le> q \<longrightarrow> \<not> aligned_area bm sz nr k off q" using skip by blast
        ultimately show ?thesis using eq no by (intro exI [of _ r]) simp
      qed
    next
      case False
      then have "\<not> first_from (test_bit bm) ix e < e" by (simp add: i_def find_next_bit_ok)
      from first_from_miss [OF this] have "aligned_area bm sz nr k off ix" using \<open>\<not> e > sz\<close> e ixb(3) by (simp add: aligned_area_def)
      moreover have "\<not> aligned_area bm sz nr k off q" if "start \<le> q" "q < ix" for q
        using early [OF that(1)] that(2) by auto
      ultimately show ?thesis
        using False \<open>\<not> e > sz\<close> e ixb(1) i0(1) unfolding loop i_def [symmetric] Let_def
        by (intro exI [of _ ix]) auto
    qed
  qed
qed simp

end
