(* ===== verification/Bitmap_Properties.thy ===== *)
theory Bitmap_Properties
  imports Bitmap_Shifts Bitmap_Arr32 Bitmap_Regions Bitmap_Area
begin

text \<open>
  The properties of the bit searches, the population counts and the bitmap operations, and for
  each property with a hypothesis a concrete bitmap on which it applies.
\<close>

text \<open>
  C12: The six searches of find_bit.c, which look at whole words, are the searches bit by bit:
  the first number from the start on whose bit is set (clear, set in both), or the size; and the
  last set bit below the size, or the size.
\<close>
theorem find_bit_searches:
  "(find_next_bit bm n s = first_from (test_bit bm) s n) \<and>
    (find_next_zero_bit bm n s = first_from (\<lambda>i. \<not> test_bit bm i) s n) \<and>
    (find_next_and_bit bm bm2 n s = first_from (\<lambda>i. test_bit bm i \<and> test_bit bm2 i) s n) \<and>
    (find_first_bit bm n = first_from (test_bit bm) 0 n) \<and>
    (find_first_zero_bit bm n = first_from (\<lambda>i. \<not> test_bit bm i) 0 n) \<and>
    (find_last_bit bm n = last_or (test_bit bm) n n)"
  by (intro conjI find_next_bit_ok find_next_zero_bit_ok find_next_and_bit_ok find_first_bit_ok
      find_first_zero_bit_ok find_last_bit_ok)

text \<open>
  C13: The branch-free population counts (subtracting, masking and multiplying whole words) and the
  compile-time one all count the set bits.
\<close>
theorem hweight_counts_bits:
  "(unat (sw_hweight64 w) = card {i. i < 64 \<and> bit w i}) \<and>
    (unat (sw_hweight32 v) = card {i. i < 32 \<and> bit v i}) \<and>
    (unat (sw_hweight16 (ucast (h :: 16 word))) = card {i. i < 16 \<and> bit h i}) \<and>
    (unat (sw_hweight8 (ucast (b :: 8 word))) = card {i. i < 8 \<and> bit b i}) \<and>
    (const_hweight64 w = card {i. i < 64 \<and> bit w i}) \<and>
    (hweight_long w = card {i. i < 64 \<and> bit w i})"
proof (intro conjI)
  have h: "unat h < 2 ^ 16" and b: "unat b < 2 ^ 8" using unsigned_less [of h] unsigned_less [of b] by simp_all
  then have "unat (ucast h :: 32 word) < 2 ^ 16" "unat (ucast b :: 32 word) < 2 ^ 8"
    by (simp_all add: unsigned_ucast_eq take_bit_nat_eq_self)
  then show "unat (sw_hweight16 (ucast h)) = card {i. i < 16 \<and> bit h i}"
    "unat (sw_hweight8 (ucast b)) = card {i. i < 8 \<and> bit b i}"
    by (auto simp: sw_hweight16_ok sw_hweight8_ok bit_unsigned_iff intro!: arg_cong [of _ _ card])
qed (simp_all add: sw_hweight64_ok sw_hweight32_ok const_hweight64_ok hweight_long_card)

text \<open>
  The comparisons answer from the bits below the size: equality, intersection, inclusion,
  emptiness and fullness; the weight is the number of set bits below the size.
\<close>
lemma bitmap_comparisons:
  "(bitmap_equal a b n = list_all (\<lambda>i. test_bit a i = test_bit b i) [0..<n]) \<and>
    (bitmap_intersects a b n = list_ex (\<lambda>i. test_bit a i \<and> test_bit b i) [0..<n]) \<and>
    (bitmap_subset a b n = (\<not> list_ex (\<lambda>i. test_bit a i \<and> \<not> test_bit b i) [0..<n])) \<and>
    (bitmap_empty a n = (\<not> list_ex (test_bit a) [0..<n])) \<and>
    (bitmap_full a n = list_all (test_bit a) [0..<n]) \<and>
    (bitmap_weight a n = card {i. i < n \<and> test_bit a i})"
proof (intro conjI)
  have "length (filter (test_bit a) [0..<n]) = card {i. i < n \<and> test_bit a i}"
    by (simp add: distinct_card [symmetric] Collect_conj_eq lessThan_def [symmetric] Int_commute atLeast0LessThan)
  then show "bitmap_weight a n = card {i. i < n \<and> test_bit a i}" by (simp add: bitmap_weight_ok bits_of_def)
qed (auto simp: bitmap_equal_iff bitmap_intersects_iff bitmap_subset_iff bitmap_empty_iff bitmap_full_iff
    list_all_iff list_ex_iff)

text \<open>
  C14: With room for the bits in the destination, the word-wise operations compute their truth
  tables bit by bit below the size, and the conjunctions report whether any bit is left.
\<close>
theorem bitmap_algebra:
  assumes "has_bits dst n" and "i < n"
  shows "(\<not> test_bit (bitmap_zero dst n) i) \<and>
    (test_bit (bitmap_fill dst n) i) \<and>
    (test_bit (bitmap_copy dst a n) i = test_bit a i) \<and>
    (test_bit (bitmap_complement dst a n) i = (\<not> test_bit a i)) \<and>
    (test_bit (snd (bitmap_and dst a b n)) i = (test_bit a i \<and> test_bit b i)) \<and>
    (test_bit (bitmap_or dst a b n) i = (test_bit a i \<or> test_bit b i)) \<and>
    (test_bit (bitmap_xor dst a b n) i = (test_bit a i \<noteq> test_bit b i)) \<and>
    (test_bit (snd (bitmap_andnot dst a b n)) i = (test_bit a i \<and> \<not> test_bit b i)) \<and>
    (fst (bitmap_and dst a b n) = (\<not> bitmap_empty (snd (bitmap_and dst a b n)) n)) \<and>
    (fst (bitmap_andnot dst a b n) = (\<not> bitmap_empty (snd (bitmap_andnot dst a b n)) n))"
proof (intro conjI)
  note [simp] = has_bits_word [OF assms] word_in_range [OF assms(2)]
  show "\<not> test_bit (bitmap_zero dst n) i" "test_bit (bitmap_fill dst n) i"
    "test_bit (bitmap_copy dst a n) i = test_bit a i"
    "test_bit (bitmap_complement dst a n) i = (\<not> test_bit a i)"
    "test_bit (bitmap_or dst a b n) i = (test_bit a i \<or> test_bit b i)"
    "test_bit (bitmap_xor dst a b n) i = (test_bit a i \<noteq> test_bit b i)"
    by (simp_all add: bitmap_zero_def bitmap_fill_def bitmap_copy_def bitmap_complement_def bitmap_or_def
        bitmap_xor_def test_bit_store test_bit_iff bit_not_iff bit_or_iff bit_xor_iff)
  have bit: "test_bit (snd (and_words f dst n)) j = bit (f (j div 64)) (j mod 64)" if "j < n" for f j
    using and_words_bit [OF assms(1), of j f] that word_in_range [OF that]
    by (simp add: div_less_iff_less_mult mult.commute)
  show "test_bit (snd (bitmap_and dst a b n)) i = (test_bit a i \<and> test_bit b i)"
    "test_bit (snd (bitmap_andnot dst a b n)) i = (test_bit a i \<and> \<not> test_bit b i)"
    unfolding bitmap_and_def bitmap_andnot_def bit [OF assms(2)]
    by (simp_all add: bit_and_iff bit_not_iff test_bit_iff)
  have "fst (and_words f dst n) = (\<not> bitmap_empty (snd (and_words f dst n)) n)" for f
    using bit by (auto simp: and_words_fst bitmap_empty_iff)
  then show "fst (bitmap_and dst a b n) = (\<not> bitmap_empty (snd (bitmap_and dst a b n)) n)"
    "fst (bitmap_andnot dst a b n) = (\<not> bitmap_empty (snd (bitmap_andnot dst a b n)) n)"
    by (simp_all add: bitmap_and_def bitmap_andnot_def)
qed


theorem bitmap_algebra_witness:
  "test_bit (snd (bitmap_and [7, 7] [0, 6] [0, 12] 70)) 66 = True \<and>
   test_bit (bitmap_xor [7, 7] [0, 6] [0, 12] 70) 66 = False \<and>
   test_bit (bitmap_complement [7, 7] [0, 6] 70) 66 = False"
proof -
  have a: "has_bits [7, 7] 70" "(66 :: nat) < 70" by (simp_all add: has_bits_def BITS_TO_LONGS_def)
  have "test_bit [0, 6] 66" "test_bit [0, 12] 66" by code_simp+
  then show ?thesis
    using bitmap_algebra [OF a, of "[0, 6]" "[0, 12]"] by simp
qed

text \<open>
  Setting or clearing a run of bits that fits in the array, which the code does word by word
  with masks at both ends, changes exactly the bits of the run.
\<close>
lemma bitmap_set_clear_runs:
  assumes "start + len \<le> 64 * length bm" and "i < 64 * length bm"
  shows "(test_bit (bitmap_set bm start len) i = ((start \<le> i \<and> i < start + len) \<or> test_bit bm i)) \<and>
    (test_bit (bitmap_clear bm start len) i = (\<not> (start \<le> i \<and> i < start + len) \<and> test_bit bm i)) \<and>
    (length (bitmap_set bm start len) = length bm \<and> length (bitmap_clear bm start len) = length bm)"
  using bitmap_set_ok [OF assms] bitmap_clear_ok [OF assms] by simp_all

text \<open>
  C15: A right shift moves every bit below the size down by the shift and feeds zeros; a left shift
  moves every bit up and feeds zeros.  Both are right when source and destination are the same array
  (\<open>src = None\<close>), because the loops run away from the words still to be read.  The shift may not
  exceed the array.
\<close>
theorem bitmap_shifts:
  assumes "has_bits dst n" and "shift div 64 \<le> BITS_TO_LONGS n" and "i < BITS_TO_LONGS n * 64"
  shows "(test_bit (bitmap_shift_right dst src shift n) i =
      (i + shift < n \<and> bit (src_word src dst ((i + shift) div 64)) ((i + shift) mod 64))) \<and>
    (test_bit (bitmap_shift_left dst src shift n) i =
      (shift \<le> i \<and> bit (src_word src dst ((i - shift) div 64)) ((i - shift) mod 64)))"
  using bitmap_shift_right_ok [OF assms(1) [unfolded has_bits_def] assms(2), of src]
    bitmap_shift_left_ok [OF assms(1) [unfolded has_bits_def] assms(2), of src] assms(3) by auto

theorem bitmap_shifts_witness:
  "test_bit (bitmap_shift_right [0, 0xF0] None 68 100) 2 = True \<and>
   test_bit (bitmap_shift_left [0xF0, 0] None 68 100) 73 = True"
proof -
  have a: "has_bits [0, 0xF0] 100" "68 div 64 \<le> BITS_TO_LONGS 100" "2 < BITS_TO_LONGS 100 * 64"
    and b: "has_bits [0xF0, 0] 100" "73 < BITS_TO_LONGS 100 * 64"
    by (simp_all add: has_bits_def BITS_TO_LONGS_def)
  have "bit (0xF0 :: 64 word) 6" "bit (0xF0 :: 64 word) 5" by simp_all
  then show ?thesis
    using bitmap_shifts [OF a, of None] bitmap_shifts [OF b(1) a(2) b(2), of None]
    by (simp add: src_word_def)
qed


text \<open>
  C16: The search for an aligned run of zero bits ends: it returns the first such run at or after
  the start, or, when there is none, a number past the size.  Here \<open>k\<close> is the binary logarithm of
  the alignment and the sizes are such that no sum exceeds 64 bits.
\<close>
theorem find_next_zero_area_ends:
  assumes "k < 64" and "sz + align_offset + 2 ^ k + nr \<le> U64_MAX" and "0 < nr" and "start \<le> sz"
  shows "\<exists>r. bitmap_find_next_zero_area_off bm sz start nr (2 ^ k - 1) align_offset = Inr r \<and>
    (if r + nr \<le> sz
     then aligned_area bm sz nr k align_offset r \<and> start \<le> r \<and>
       (\<forall>q. start \<le> q \<and> q < r \<longrightarrow> \<not> aligned_area bm sz nr k align_offset q)
     else sz < r \<and> (\<forall>q. start \<le> q \<longrightarrow> \<not> aligned_area bm sz nr k align_offset q))"
  unfolding bitmap_find_next_zero_area_off_def
  by (rule find_zero_area_loop_ok) (use assms in simp_all)

theorem find_next_zero_area_ends_witness:
  "bitmap_find_next_zero_area_off [0x0F0F] 64 1 8 7 0 = Inr 16 \<and> aligned_area [0x0F0F] 64 8 3 0 16"
proof -
  have e: "bitmap_find_next_zero_area_off [0x0F0F] 64 1 8 (2 ^ 3 - 1) 0 = Inr 16" by code_simp
  have "\<exists>r. bitmap_find_next_zero_area_off [0x0F0F] 64 1 8 (2 ^ 3 - 1) 0 = Inr r \<and>
    (if r + 8 \<le> 64
     then aligned_area [0x0F0F] 64 8 3 0 r \<and> 1 \<le> r \<and> (\<forall>q. 1 \<le> q \<and> q < r \<longrightarrow> \<not> aligned_area [0x0F0F] 64 8 3 0 q)
     else 64 < r \<and> (\<forall>q. 1 \<le> q \<longrightarrow> \<not> aligned_area [0x0F0F] 64 8 3 0 q))"
    by (rule find_next_zero_area_ends) (simp_all add: U64_MAX_def)
  then have "aligned_area [0x0F0F] 64 8 3 0 16" unfolding e by auto
  then show ?thesis using e by simp
qed

text \<open>
  The position of a set bit and its ordinal among the set bits determine each other:
  \<^verbatim>\<open>bitmap_ord_to_pos\<close> undoes \<^verbatim>\<open>bitmap_pos_to_ord\<close> on set bits, and the converse holds for every
  ordinal below the weight.
\<close>
lemma ord_pos_roundtrip:
  assumes "pos < n" and "test_bit bm pos" and "k < bitmap_weight bm n"
  shows "(bitmap_ord_to_pos bm (nat (bitmap_pos_to_ord bm pos n)) n = pos) \<and>
    (bitmap_pos_to_ord bm (bitmap_ord_to_pos bm k n) n = int k)"
  using bitmap_ord_to_pos_of_pos [OF assms(1,2)] assms(3)
  by (simp_all add: bitmap_ord_to_pos_ok bitmap_pos_to_ord_nth bitmap_weight_ok)

text \<open>
  C17: \<^verbatim>\<open>bitmap_remap\<close> sets exactly the images under \<^verbatim>\<open>bitmap_bitremap\<close> of the bits of the source;
  \<^verbatim>\<open>bitmap_onto\<close> sets the set bits of the relative map whose ordinal is set in the original;
  \<^verbatim>\<open>bitmap_fold\<close> sets the remainders of the set bits.  Below the size nothing else is set.
\<close>
theorem remap_onto_fold:
  assumes "has_bits dst n" and "i < n"
  shows "(test_bit (bitmap_remap dst (Some src) old new n) i =
      list_ex (\<lambda>j. test_bit src j \<and> bitmap_bitremap j old new n = i) [0..<n]) \<and>
    (test_bit (bitmap_onto dst (Some src) relmap n) i =
      (test_bit relmap i \<and> test_bit src (nat (bitmap_pos_to_ord relmap i n)))) \<and>
    (test_bit (bitmap_fold dst (Some src) sz n) i = list_ex (\<lambda>j. test_bit src j \<and> j mod sz = i) [0..<n])"
  using bitmap_remap_bits [OF assms(1), of src old new] bitmap_onto_bits [OF assms(1), of src relmap]
    bitmap_fold_bits [OF assms(1), of src sz] assms(2) by (auto simp: list_ex_iff)

theorem remap_onto_fold_witness:
  "test_bit (bitmap_remap [0] (Some [0xA2]) [0xF0] [0xF000] 64) 13 = True \<and>
   test_bit (bitmap_onto [0] (Some [0x2]) [0xF0] 64) 5 = True \<and>
   test_bit (bitmap_fold [0] (Some [0xF0]) 5 64) 2 = True"
proof -
  have h: "has_bits [0] 64" by (simp add: has_bits_def BITS_TO_LONGS_def)
  have e: "list_ex (\<lambda>j. test_bit [0xA2] j \<and> bitmap_bitremap j [0xF0] [0xF000] 64 = 13) [0..<64]"
    "test_bit [0xF0] 5 \<and> test_bit [0x2] (nat (bitmap_pos_to_ord [0xF0] 5 64))"
    "list_ex (\<lambda>j. test_bit [0xF0] j \<and> j mod 5 = 2) [0..<64]" by code_simp+
  show ?thesis
    using remap_onto_fold [OF h, of 13 "[0xA2]" "[0xF0]" "[0xF000]"] remap_onto_fold [OF h, of 5 "[0x2]" _ _ "[0xF0]"]
      remap_onto_fold [OF h, of 2 "[0xF0]" _ _ _ 5] e by simp
qed

text \<open>
  C18: for a bitmap of at most \<open>2 ^ 31\<close> bits and an order of at most 30, \<^verbatim>\<open>bitmap_find_free_region\<close> ends.  It returns
  the lowest aligned region of the wanted order that is all zero and sets its bits and no others, or -ENOMEM with the
  bitmap unchanged when every aligned region has a set bit; releasing the region returned restores every bit.
\<close>
theorem find_free_region_alloc:
  assumes "bits \<le> 64 * length bm" and "bits \<le> 2 ^ 31" and "order \<le> 30"
  shows "\<exists>r bm'. bitmap_find_free_region bm bits order = Some (r, bm') \<and>
    (if r < 0 then r = - ENOMEM \<and> bm' = bm \<and>
        (\<forall>q. 2 ^ order dvd q \<and> q + 2 ^ order \<le> bits \<longrightarrow> (\<exists>i. q \<le> i \<and> i < q + 2 ^ order \<and> test_bit bm i))
      else 2 ^ order dvd nat r \<and> nat r + 2 ^ order \<le> bits \<and>
        (\<forall>i. nat r \<le> i \<and> i < nat r + 2 ^ order \<longrightarrow> \<not> test_bit bm i) \<and>
        (\<forall>q. 2 ^ order dvd q \<and> q < nat r \<longrightarrow> (\<exists>i. q \<le> i \<and> i < q + 2 ^ order \<and> test_bit bm i)) \<and>
        (\<forall>i < 64 * length bm.
           test_bit bm' i = (nat r \<le> i \<and> i < nat r + 2 ^ order \<or> test_bit bm i) \<and>
           test_bit (bitmap_release_region bm' (nat r) order) i = test_bit bm i))"
proof -
  obtain r bm' where run: "bitmap_find_free_region bm bits order = Some (r, bm')"
    and "(\<exists>p. r = int p \<and> 0 \<le> p \<and> p + 2 ^ order \<le> bits \<and> 2 ^ order dvd p \<and> reg_op_isfree bm p order \<and>
      bm' = reg_op_alloc bm p order \<and> (\<forall>q. 0 \<le> q \<and> q < p \<and> 2 ^ order dvd q \<longrightarrow> \<not> reg_op_isfree bm q order)) \<or>
    (r = - ENOMEM \<and> bm' = bm \<and>
      (\<forall>q. 0 \<le> q \<and> 2 ^ order dvd q \<and> q + 2 ^ order \<le> bits \<longrightarrow> \<not> reg_op_isfree bm q order))"
    using find_free_region_loop_ok [of order 0 bits bm] assms(2,3) unfolding bitmap_find_free_region_def by auto
  from this(2) have "if r < 0 then r = - ENOMEM \<and> bm' = bm \<and>
        (\<forall>q. 2 ^ order dvd q \<and> q + 2 ^ order \<le> bits \<longrightarrow> (\<exists>i. q \<le> i \<and> i < q + 2 ^ order \<and> test_bit bm i))
      else 2 ^ order dvd nat r \<and> nat r + 2 ^ order \<le> bits \<and>
        (\<forall>i. nat r \<le> i \<and> i < nat r + 2 ^ order \<longrightarrow> \<not> test_bit bm i) \<and>
        (\<forall>q. 2 ^ order dvd q \<and> q < nat r \<longrightarrow> (\<exists>i. q \<le> i \<and> i < q + 2 ^ order \<and> test_bit bm i)) \<and>
        (\<forall>i < 64 * length bm.
           test_bit bm' i = (nat r \<le> i \<and> i < nat r + 2 ^ order \<or> test_bit bm i) \<and>
           test_bit (bitmap_release_region bm' (nat r) order) i = test_bit bm i)"
  proof
    assume "\<exists>p. r = int p \<and> 0 \<le> p \<and> p + 2 ^ order \<le> bits \<and> 2 ^ order dvd p \<and> reg_op_isfree bm p order \<and>
      bm' = reg_op_alloc bm p order \<and> (\<forall>q. 0 \<le> q \<and> q < p \<and> 2 ^ order dvd q \<longrightarrow> \<not> reg_op_isfree bm q order)"
    then obtain p where p: "r = int p" "p + 2 ^ order \<le> bits" "2 ^ order dvd p" "reg_op_isfree bm p order"
      "bm' = reg_op_alloc bm p order" "\<And>q. q < p \<Longrightarrow> 2 ^ order dvd q \<Longrightarrow> \<not> reg_op_isfree bm q order" by blast
    have room: "p + 2 ^ order \<le> 64 * length bm" using p(2) assms(1) by simp
    have "test_bit bm' i = (p \<le> i \<and> i < p + 2 ^ order \<or> test_bit bm i) \<and>
        test_bit (bitmap_release_region bm' p order) i = test_bit bm i" if i: "i < 64 * length bm" for i
    proof -
      note a = reg_op_alloc_ok [OF p(3) room i]
      have "test_bit (reg_op_release bm' p order) i = (\<not> (p \<le> i \<and> i < p + 2 ^ order) \<and> test_bit bm' i)"
        using reg_op_release_ok [OF p(3), of bm' i] room i a(1) by (simp add: p(5))
      moreover have "\<not> test_bit bm i" if "p \<le> i" "i < p + 2 ^ order"
        using p(4) that reg_op_isfree_iff [OF p(3), of bm] by simp
      ultimately show ?thesis using a(2) by (auto simp: bitmap_release_region_def p(5))
    qed
    moreover have "\<exists>i. q \<le> i \<and> i < q + 2 ^ order \<and> test_bit bm i" if "2 ^ order dvd q" "q < p" for q
      using p(6) [OF that(2,1)] reg_op_isfree_iff [OF that(1), of bm] by blast
    moreover have "\<not> test_bit bm i" if "p \<le> i" "i < p + 2 ^ order" for i
      using p(4) that reg_op_isfree_iff [OF p(3), of bm] by simp
    ultimately show ?thesis using p(1,2,3) by simp
  next
    assume "r = - ENOMEM \<and> bm' = bm \<and>
      (\<forall>q. 0 \<le> q \<and> 2 ^ order dvd q \<and> q + 2 ^ order \<le> bits \<longrightarrow> \<not> reg_op_isfree bm q order)"
    then show ?thesis by (auto simp: ENOMEM_def reg_op_isfree_iff)
  qed
  then show ?thesis using run by blast
qed

theorem find_free_region_alloc_witness:
  "bitmap_find_free_region [0x0101] 64 2 = Some (4, [0x01F1]) \<and> test_bit [0x01F1] 6 = True \<and>
   test_bit (bitmap_release_region [0x01F1] 4 2) 6 = False"
proof -
  have e: "bitmap_find_free_region [0x0101] 64 2 = Some (4, [0x01F1])" by code_simp
  have "\<not> test_bit [0x0101] 6" by code_simp
  then show ?thesis using find_free_region_alloc [of 64 "[0x0101]" 2] e by simp
qed

text \<open>
  Bit numbers survive the conversion from and to arrays of 32-bit words: \<^verbatim>\<open>bitmap_from_arr32\<close>
  puts bit \<open>j\<close> of half word \<open>h\<close> at number \<open>32 h + j\<close>, \<^verbatim>\<open>bitmap_to_arr32\<close> inverts it on the bits
  below the size and clears the rest of the last half word.
\<close>
lemma arr32_roundtrip:
  assumes "has_bits bm n" and "(n + 31) div 32 \<le> length dst" and "i < (n + 31) div 32 * 32"
  shows "bit (bitmap_to_arr32 dst (bitmap_from_arr32 bm buf n) n ! (i div 32)) (i mod 32) =
    (i < n \<and> bit (buf ! (i div 32)) (i mod 32))"
  using bitmap_to_arr32_bits(2) [OF assms(2,3)] bitmap_from_arr32_bits(2) [OF assms(1), of i buf] by auto

end
