(* ===== verification/Ctype.thy ===== *)
theory Ctype
  imports Kernel_Prelude
begin

text \<open>
  Characters and bytes of memory.  \<^verbatim>\<open>lib/ulib/ctype.c\<close> and \<^verbatim>\<open>include/linux/ctype.h\<close>: the
  classification table and the predicates on it.  A memory is a list of bytes, an address an
  index into it; an access outside is a fault.
\<close>

type_synonym byte = "8 word"

section \<open>The table\<close>

definition CU :: byte where "CU = 0x01"
definition CL :: byte where "CL = 0x02"
definition CD :: byte where "CD = 0x04"
definition CC :: byte where "CC = 0x08"
definition CP :: byte where "CP = 0x10"
definition CS :: byte where "CS = 0x20"
definition CX :: byte where "CX = 0x40"
definition CSP :: byte where "CSP = 0x80"

definition ctype_table :: "byte list" where
  "ctype_table =
     replicate 9 CC @ replicate 5 (CC OR CS) @ replicate 18 CC @
     [CS OR CSP] @ replicate 15 CP @
     replicate 10 CD @ replicate 6 CP @
     [CP] @ replicate 6 (CU OR CX) @ replicate 20 CU @ replicate 5 CP @
     [CP] @ replicate 6 (CL OR CX) @ replicate 20 CL @ replicate 4 CP @ [CC] @
     replicate 32 0 @
     [CS OR CSP] @ replicate 31 CP @
     replicate 23 CU @ [CP] @ replicate 7 CU @ [CL] @
     replicate 16 CL @ replicate 7 CL @ [CP] @ replicate 8 CL"

definition ismask :: "byte \<Rightarrow> byte" where
  "ismask x = ctype_table ! unat x"

definition isalnum :: "byte \<Rightarrow> bool" where "isalnum c \<longleftrightarrow> ismask c AND (CU OR CL OR CD) \<noteq> 0"
definition isalpha :: "byte \<Rightarrow> bool" where "isalpha c \<longleftrightarrow> ismask c AND (CU OR CL) \<noteq> 0"
definition iscntrl :: "byte \<Rightarrow> bool" where "iscntrl c \<longleftrightarrow> ismask c AND CC \<noteq> 0"
definition isdigit :: "byte \<Rightarrow> bool" where "isdigit c \<longleftrightarrow> 48 \<le> c \<and> c \<le> 57"
definition isgraph :: "byte \<Rightarrow> bool" where "isgraph c \<longleftrightarrow> ismask c AND (CP OR CU OR CL OR CD) \<noteq> 0"
definition islower :: "byte \<Rightarrow> bool" where "islower c \<longleftrightarrow> ismask c AND CL \<noteq> 0"
definition isprint :: "byte \<Rightarrow> bool" where "isprint c \<longleftrightarrow> ismask c AND (CP OR CU OR CL OR CD OR CSP) \<noteq> 0"
definition ispunct :: "byte \<Rightarrow> bool" where "ispunct c \<longleftrightarrow> ismask c AND CP \<noteq> 0"
definition isspace :: "byte \<Rightarrow> bool" where "isspace c \<longleftrightarrow> ismask c AND CS \<noteq> 0"
definition isupper :: "byte \<Rightarrow> bool" where "isupper c \<longleftrightarrow> ismask c AND CU \<noteq> 0"
definition isxdigit :: "byte \<Rightarrow> bool" where "isxdigit c \<longleftrightarrow> ismask c AND (CD OR CX) \<noteq> 0"

definition tolower :: "byte \<Rightarrow> byte" where
  "tolower c = (if isupper c then c - (65 - 97) else c)"

definition toupper :: "byte \<Rightarrow> byte" where
  "toupper c = (if islower c then c - (97 - 65) else c)"

definition fast_tolower :: "byte \<Rightarrow> byte" where
  "fast_tolower c = c OR 0x20"

definition isodigit :: "byte \<Rightarrow> bool" where "isodigit c \<longleftrightarrow> 48 \<le> c \<and> c \<le> 55"

text \<open>\<^verbatim>\<open>hex_to_bin\<close> of \<^verbatim>\<open>lib/hexdump.c\<close>.\<close>

definition hex_to_bin :: "byte \<Rightarrow> int" where
  "hex_to_bin ch =
     (if 48 \<le> ch \<and> ch \<le> 57 then uint ch - 48
      else let c = tolower ch in
        if 97 \<le> c \<and> c \<le> 102 then uint c - 97 + 10 else - 1)"

section \<open>What the table says\<close>

lemma seg_nth: "k \<le> n \<Longrightarrow> (replicate r x @ ys) ! (n - k) = (if n < k + r then x else ys ! (n - (k + r)))"
  by (auto simp: nth_append)

lemma seg_nth_Cons: "k \<le> n \<Longrightarrow> (x # ys) ! (n - k) = (if n < k + 1 then x else ys ! (n - (k + 1)))"
  by (auto simp: nth_Cons')

lemma seg_nth_last: "k \<le> n \<Longrightarrow> n < k + r \<Longrightarrow> replicate r x ! (n - k) = x"
  by simp

lemma ismask_ranges:
  "ismask c =
     (let n = unat c in
      if n < 9 then CC else if n < 14 then CC OR CS else if n < 32 then CC else if n < 33 then CS OR CSP
      else if n < 48 then CP else if n < 58 then CD else if n < 65 then CP
      else if n < 71 then CU OR CX else if n < 91 then CU else if n < 97 then CP
      else if n < 103 then CL OR CX else if n < 123 then CL else if n < 127 then CP else if n < 128 then CC
      else if n < 160 then 0 else if n < 161 then CS OR CSP else if n < 192 then CP
      else if n < 215 then CU else if n < 216 then CP else if n < 223 then CU
      else if n < 247 then CL else if n < 248 then CP else CL)"
proof -
  have "unat c < 256" using unsigned_less [of c] by simp
  moreover have "ismask c = ctype_table ! (unat c - 0)" by (simp add: ismask_def)
  ultimately show ?thesis
    unfolding ctype_table_def append.simps
    by (simp only: seg_nth seg_nth_Cons seg_nth_last Let_def le0 not_less add_0 arith_simps if_True cong: if_cong) simp
qed

lemmas ctype_defs = CU_def CL_def CD_def CC_def CP_def CS_def CX_def CSP_def

lemma isspace_iff: "isspace c \<longleftrightarrow> 9 \<le> unat c \<and> unat c \<le> 13 \<or> unat c = 32 \<or> unat c = 160"
  by (simp add: isspace_def ismask_ranges ctype_defs Let_def)

lemma isxdigit_iff:
  "isxdigit c \<longleftrightarrow> 48 \<le> unat c \<and> unat c \<le> 57 \<or> 65 \<le> unat c \<and> unat c \<le> 70 \<or> 97 \<le> unat c \<and> unat c \<le> 102"
  by (simp add: isxdigit_def ismask_ranges ctype_defs Let_def)

lemma isupper_iff:
  "isupper c \<longleftrightarrow> 65 \<le> unat c \<and> unat c \<le> 90 \<or> 192 \<le> unat c \<and> unat c \<le> 222 \<and> unat c \<noteq> 215"
  by (simp add: isupper_def ismask_ranges ctype_defs Let_def)

lemma isdigit_iff: "isdigit c \<longleftrightarrow> 48 \<le> unat c \<and> unat c \<le> 57"
  by (simp add: isdigit_def word_le_nat_alt)

end
