(* ===== verification/Strings.thy ===== *)
theory Strings
  imports Ctype Bitops
begin

text \<open>
  The string and memory routines of \<^verbatim>\<open>lib/ulib/string.c\<close>.  All of memory is one list of bytes
  and a pointer is an address in it, so that overlapping arguments are modelled; \<^verbatim>\<open>NULL\<close> is
  \<open>None\<close> where a routine can return it.  A loop over a string ends at its NUL or with a fault
  at the end of memory.
\<close>

type_synonym mem = "byte list"

definition rd :: "mem \<Rightarrow> nat \<Rightarrow> byte res" where
  "rd m a = (if a < length m then Inr (m ! a) else Inl Oob)"

definition wr :: "mem \<Rightarrow> nat \<Rightarrow> byte \<Rightarrow> mem res" where
  "wr m a c = (if a < length m then Inr (m[a := c]) else Inl Oob)"

lemma rd_Inr [simp]: "rd m a = Inr c \<longleftrightarrow> a < length m \<and> m ! a = c"
  by (simp add: rd_def)

lemma wr_Inr [simp]: "wr m a c = Inr m' \<longleftrightarrow> a < length m \<and> m' = m[a := c]"
  by (auto simp: wr_def)

section \<open>Lengths and comparisons\<close>

function strlen_loop :: "mem \<Rightarrow> nat \<Rightarrow> nat res" where
  "strlen_loop m sc = rbind (rd m sc) (\<lambda>c. if c \<noteq> 0 then strlen_loop m (sc + 1) else Inr sc)"
  by pat_completeness auto
termination by (relation "measure (\<lambda>(m, a). length m - a)") auto

definition strlen :: "mem \<Rightarrow> nat \<Rightarrow> nat res" where
  "strlen m s = rbind (strlen_loop m s) (\<lambda>sc. Inr (sc - s))"

primrec strnlen_loop :: "nat \<Rightarrow> mem \<Rightarrow> nat \<Rightarrow> nat res" where
  "strnlen_loop 0 m sc = Inr sc"
| "strnlen_loop (Suc count) m sc =
     rbind (rd m sc) (\<lambda>c. if c \<noteq> 0 then strnlen_loop count m (sc + 1) else Inr sc)"

definition strnlen :: "mem \<Rightarrow> nat \<Rightarrow> nat \<Rightarrow> nat res" where
  "strnlen m s count = rbind (strnlen_loop count m s) (\<lambda>sc. Inr (sc - s))"

function strcmp :: "mem \<Rightarrow> nat \<Rightarrow> nat \<Rightarrow> int res" where
  "strcmp m cs ct =
     rbind (rd m cs) (\<lambda>c1. rbind (rd m ct) (\<lambda>c2.
       if c1 \<noteq> c2 then Inr (if c1 < c2 then - 1 else 1)
       else if c1 = 0 then Inr 0 else strcmp m (cs + 1) (ct + 1)))"
  by pat_completeness auto
termination by (relation "measure (\<lambda>(m, a, b). length m - a)") auto

primrec strncmp :: "mem \<Rightarrow> nat \<Rightarrow> nat \<Rightarrow> nat \<Rightarrow> int res" where
  "strncmp m cs ct 0 = Inr 0"
| "strncmp m cs ct (Suc count) =
     rbind (rd m cs) (\<lambda>c1. rbind (rd m ct) (\<lambda>c2.
       if c1 \<noteq> c2 then Inr (if c1 < c2 then - 1 else 1)
       else if c1 = 0 then Inr 0 else strncmp m (cs + 1) (ct + 1) count))"

primrec strncasecmp_loop :: "nat \<Rightarrow> mem \<Rightarrow> nat \<Rightarrow> nat \<Rightarrow> int res" where
  "strncasecmp_loop 0 m s1 s2 = Inl Bug"
| "strncasecmp_loop (Suc len) m s1 s2 =
     rbind (rd m s1) (\<lambda>c1. rbind (rd m s2) (\<lambda>c2.
       if c1 = 0 \<or> c2 = 0 then Inr (uint c1 - uint c2)
       else if c1 = c2 then
         (if len = 0 then Inr (uint c1 - uint c2) else strncasecmp_loop len m (s1 + 1) (s2 + 1))
       else
         let c1 = tolower c1; c2 = tolower c2 in
         if c1 \<noteq> c2 then Inr (uint c1 - uint c2)
         else if len = 0 then Inr (uint c1 - uint c2) else strncasecmp_loop len m (s1 + 1) (s2 + 1)))"

definition strncasecmp :: "mem \<Rightarrow> nat \<Rightarrow> nat \<Rightarrow> nat \<Rightarrow> int res" where
  "strncasecmp m s1 s2 len = (if len = 0 then Inr 0 else strncasecmp_loop len m s1 s2)"

function strcasecmp :: "mem \<Rightarrow> nat \<Rightarrow> nat \<Rightarrow> int res" where
  "strcasecmp m s1 s2 =
     rbind (rd m s1) (\<lambda>b1. rbind (rd m s2) (\<lambda>b2.
       let c1 = tolower b1; c2 = tolower b2 in
       if c1 = c2 \<and> c1 \<noteq> 0 then strcasecmp m (s1 + 1) (s2 + 1) else Inr (uint c1 - uint c2)))"
  by pat_completeness auto
termination by (relation "measure (\<lambda>(m, a, b). length m - a)") auto

section \<open>Searches\<close>

function strchr :: "mem \<Rightarrow> nat \<Rightarrow> byte \<Rightarrow> nat option res" where
  "strchr m s c =
     rbind (rd m s) (\<lambda>x. if x \<noteq> c then (if x = 0 then Inr None else strchr m (s + 1) c) else Inr (Some s))"
  by pat_completeness auto
termination by (relation "measure (\<lambda>(m, a, c). length m - a)") auto

function strchrnul :: "mem \<Rightarrow> nat \<Rightarrow> byte \<Rightarrow> nat res" where
  "strchrnul m s c = rbind (rd m s) (\<lambda>x. if x \<noteq> 0 \<and> x \<noteq> c then strchrnul m (s + 1) c else Inr s)"
  by pat_completeness auto
termination by (relation "measure (\<lambda>(m, a, c). length m - a)") auto

function strrchr_loop :: "mem \<Rightarrow> nat \<Rightarrow> byte \<Rightarrow> nat option \<Rightarrow> nat option res" where
  "strrchr_loop m s c la =
     rbind (rd m s) (\<lambda>x.
       let la = (if x = c then Some s else la) in
       if x \<noteq> 0 then strrchr_loop m (s + 1) c la else Inr la)"
  by pat_completeness auto
termination by (relation "measure (\<lambda>(m, a, c, l). length m - a)") auto

definition strrchr :: "mem \<Rightarrow> nat \<Rightarrow> byte \<Rightarrow> nat option res" where
  "strrchr m s c = strrchr_loop m s c None"

primrec strnchr :: "mem \<Rightarrow> nat \<Rightarrow> nat \<Rightarrow> byte \<Rightarrow> nat option res" where
  "strnchr m s 0 c = Inr None"
| "strnchr m s (Suc count) c =
     rbind (rd m s) (\<lambda>x. if x \<noteq> 0 then (if x = c then Inr (Some s) else strnchr m (s + 1) count c) else Inr None)"

function skip_spaces :: "mem \<Rightarrow> nat \<Rightarrow> nat res" where
  "skip_spaces m str = rbind (rd m str) (\<lambda>c. if isspace c then skip_spaces m (str + 1) else Inr str)"
  by pat_completeness auto
termination by (relation "measure (\<lambda>(m, a). length m - a)") auto

text \<open>The inner loops of \<^verbatim>\<open>strspn\<close>, \<^verbatim>\<open>strcspn\<close> and \<^verbatim>\<open>strpbrk\<close>: where the set of characters
  has \<open>x\<close>, or its NUL.\<close>

function set_loop :: "mem \<Rightarrow> nat \<Rightarrow> byte \<Rightarrow> nat res" where
  "set_loop m a x = rbind (rd m a) (\<lambda>c. if c \<noteq> 0 then (if x = c then Inr a else set_loop m (a + 1) x) else Inr a)"
  by pat_completeness auto
termination by (relation "measure (\<lambda>(m, a, x). length m - a)") auto

function strspn_loop :: "mem \<Rightarrow> nat \<Rightarrow> nat \<Rightarrow> nat \<Rightarrow> nat res" where
  "strspn_loop m p accept count =
     rbind (rd m p) (\<lambda>x.
       if x \<noteq> 0 then
         rbind (set_loop m accept x) (\<lambda>a. rbind (rd m a) (\<lambda>c.
           if c = 0 then Inr count else strspn_loop m (p + 1) accept (count + 1)))
       else Inr count)"
  by pat_completeness auto
termination by (relation "measure (\<lambda>(m, p, a, c). length m - p)") auto

definition strspn :: "mem \<Rightarrow> nat \<Rightarrow> nat \<Rightarrow> nat res" where
  "strspn m s accept = strspn_loop m s accept 0"

function strcspn_loop :: "mem \<Rightarrow> nat \<Rightarrow> nat \<Rightarrow> nat \<Rightarrow> nat res" where
  "strcspn_loop m p reject count =
     rbind (rd m p) (\<lambda>x.
       if x \<noteq> 0 then
         rbind (set_loop m reject x) (\<lambda>r. rbind (rd m r) (\<lambda>c.
           if c \<noteq> 0 then Inr count else strcspn_loop m (p + 1) reject (count + 1)))
       else Inr count)"
  by pat_completeness auto
termination by (relation "measure (\<lambda>(m, p, a, c). length m - p)") auto

definition strcspn :: "mem \<Rightarrow> nat \<Rightarrow> nat \<Rightarrow> nat res" where
  "strcspn m s reject = strcspn_loop m s reject 0"

function strpbrk :: "mem \<Rightarrow> nat \<Rightarrow> nat \<Rightarrow> nat option res" where
  "strpbrk m sc1 ct =
     rbind (rd m sc1) (\<lambda>x.
       if x \<noteq> 0 then
         rbind (set_loop m ct x) (\<lambda>r. rbind (rd m r) (\<lambda>c.
           if c \<noteq> 0 then Inr (Some sc1) else strpbrk m (sc1 + 1) ct))
       else Inr None)"
  by pat_completeness auto
termination by (relation "measure (\<lambda>(m, p, a). length m - p)") auto

definition strsep :: "mem \<Rightarrow> nat option \<Rightarrow> nat \<Rightarrow> (nat option \<times> nat option \<times> mem) res" where
  "strsep m s ct =
     (case s of None \<Rightarrow> Inr (None, None, m)
      | Some sbegin \<Rightarrow>
          rbind (strpbrk m sbegin ct) (\<lambda>end.
            case end of None \<Rightarrow> Inr (Some sbegin, None, m)
            | Some e \<Rightarrow> rbind (wr m e 0) (\<lambda>m'. Inr (Some sbegin, Some (e + 1), m'))))"

text \<open>An array of \<open>n\<close> string pointers, or one that a NULL ends.\<close>

function match_string_loop :: "mem \<Rightarrow> nat option list \<Rightarrow> nat \<Rightarrow> nat \<Rightarrow> nat \<Rightarrow> int res" where
  "match_string_loop m array n str index =
     (if index < n then
        if index < length array then
          case array ! index of None \<Rightarrow> Inr (- EINVAL)
          | Some item \<Rightarrow> rbind (strcmp m item str) (\<lambda>r.
              if r = 0 then Inr (int index) else match_string_loop m array n str (index + 1))
        else Inl Oob
      else Inr (- EINVAL))"
  by pat_completeness auto
termination by (relation "measure (\<lambda>(m, a, n, s, i). n - i)") auto

definition match_string :: "mem \<Rightarrow> nat option list \<Rightarrow> nat \<Rightarrow> nat \<Rightarrow> int res" where
  "match_string m array n str = match_string_loop m array n str 0"

section \<open>Areas of memory\<close>

primrec memset :: "mem \<Rightarrow> nat \<Rightarrow> byte \<Rightarrow> nat \<Rightarrow> mem res" where
  "memset m xs c 0 = Inr m"
| "memset m xs c (Suc count) = rbind (wr m xs c) (\<lambda>m'. memset m' (xs + 1) c count)"

definition memzero_explicit :: "mem \<Rightarrow> nat \<Rightarrow> nat \<Rightarrow> mem res" where
  "memzero_explicit m s count = memset m s 0 count"

primrec memcpy :: "mem \<Rightarrow> nat \<Rightarrow> nat \<Rightarrow> nat \<Rightarrow> mem res" where
  "memcpy m tmp s 0 = Inr m"
| "memcpy m tmp s (Suc count) = rbind (rd m s) (\<lambda>c. rbind (wr m tmp c) (\<lambda>m'. memcpy m' (tmp + 1) (s + 1) count))"

text \<open>The second loop of \<^verbatim>\<open>memmove\<close>, which counts down; the pointers are one past the byte moved.\<close>

primrec memmove_back :: "mem \<Rightarrow> nat \<Rightarrow> nat \<Rightarrow> nat \<Rightarrow> mem res" where
  "memmove_back m tmp s 0 = Inr m"
| "memmove_back m tmp s (Suc count) =
     rbind (rd m (s - 1)) (\<lambda>c. rbind (wr m (tmp - 1) c) (\<lambda>m'. memmove_back m' (tmp - 1) (s - 1) count))"

definition memmove :: "mem \<Rightarrow> nat \<Rightarrow> nat \<Rightarrow> nat \<Rightarrow> mem res" where
  "memmove m dest src count =
     (if dest \<le> src then memcpy m dest src count else memmove_back m (dest + count) (src + count) count)"

primrec memcmp :: "mem \<Rightarrow> nat \<Rightarrow> nat \<Rightarrow> nat \<Rightarrow> int res" where
  "memcmp m su1 su2 0 = Inr 0"
| "memcmp m su1 su2 (Suc count) =
     rbind (rd m su1) (\<lambda>x. rbind (rd m su2) (\<lambda>y.
       let r = uint x - uint y in if r \<noteq> 0 then Inr r else memcmp m (su1 + 1) (su2 + 1) count))"

definition bcmp :: "mem \<Rightarrow> nat \<Rightarrow> nat \<Rightarrow> nat \<Rightarrow> int res" where
  "bcmp m a b len = memcmp m a b len"

primrec memscan :: "mem \<Rightarrow> nat \<Rightarrow> byte \<Rightarrow> nat \<Rightarrow> nat res" where
  "memscan m p c 0 = Inr p"
| "memscan m p c (Suc sz) = rbind (rd m p) (\<lambda>x. if x = c then Inr p else memscan m (p + 1) c sz)"

primrec memchr :: "mem \<Rightarrow> nat \<Rightarrow> byte \<Rightarrow> nat \<Rightarrow> nat option res" where
  "memchr m p c 0 = Inr None"
| "memchr m p c (Suc n) = rbind (rd m p) (\<lambda>x. if c = x then Inr (Some p) else memchr m (p + 1) c n)"

function strstr_loop :: "mem \<Rightarrow> nat \<Rightarrow> nat \<Rightarrow> nat \<Rightarrow> nat \<Rightarrow> nat option res" where
  "strstr_loop m s1 s2 l1 l2 =
     (if l2 \<le> l1 \<and> 0 < l1 then
        rbind (memcmp m s1 s2 l2) (\<lambda>r. if r = 0 then Inr (Some s1) else strstr_loop m (s1 + 1) s2 (l1 - 1) l2)
      else Inr None)"
  by pat_completeness auto
termination by (relation "measure (\<lambda>(m, a, b, l1, l2). l1)") auto

definition strstr :: "mem \<Rightarrow> nat \<Rightarrow> nat \<Rightarrow> nat option res" where
  "strstr m s1 s2 =
     rbind (strlen m s2) (\<lambda>l2. if l2 = 0 then Inr (Some s1)
       else rbind (strlen m s1) (\<lambda>l1. strstr_loop m s1 s2 l1 l2))"

definition strnstr :: "mem \<Rightarrow> nat \<Rightarrow> nat \<Rightarrow> nat \<Rightarrow> nat option res" where
  "strnstr m s1 s2 len =
     rbind (strlen m s2) (\<lambda>l2. if l2 = 0 then Inr (Some s1) else strstr_loop m s1 s2 len l2)"

section \<open>Copies\<close>

function strcpy_loop :: "mem \<Rightarrow> nat \<Rightarrow> nat \<Rightarrow> mem res" where
  "strcpy_loop m dest src =
     rbind (rd m src) (\<lambda>c. rbind (wr m dest c) (\<lambda>m'. if c \<noteq> 0 then strcpy_loop m' (dest + 1) (src + 1) else Inr m'))"
  by pat_completeness auto
termination by (relation "measure (\<lambda>(m, d, s). length m - s)") auto

definition strcpy :: "mem \<Rightarrow> nat \<Rightarrow> nat \<Rightarrow> (nat \<times> mem) res" where
  "strcpy m dest src = rbind (strcpy_loop m dest src) (\<lambda>m'. Inr (dest, m'))"

primrec strncpy_loop :: "nat \<Rightarrow> mem \<Rightarrow> nat \<Rightarrow> nat \<Rightarrow> mem res" where
  "strncpy_loop 0 m tmp src = Inr m"
| "strncpy_loop (Suc count) m tmp src =
     rbind (rd m src) (\<lambda>c. rbind (wr m tmp c) (\<lambda>m'. strncpy_loop count m' (tmp + 1) (if c \<noteq> 0 then src + 1 else src)))"

definition strncpy :: "mem \<Rightarrow> nat \<Rightarrow> nat \<Rightarrow> nat \<Rightarrow> (nat \<times> mem) res" where
  "strncpy m dest src count = rbind (strncpy_loop count m dest src) (\<lambda>m'. Inr (dest, m'))"

definition strlcpy :: "mem \<Rightarrow> nat \<Rightarrow> nat \<Rightarrow> nat \<Rightarrow> (nat \<times> mem) res" where
  "strlcpy m dest src sz =
     rbind (strlen m src) (\<lambda>ret.
       if sz \<noteq> 0 then
         let len = (if sz \<le> ret then sz - 1 else ret) in
         rbind (memcpy m dest src len) (\<lambda>m1. rbind (wr m1 (dest + len) 0) (\<lambda>m2. Inr (ret, m2)))
       else Inr (ret, m))"

definition strcat :: "mem \<Rightarrow> nat \<Rightarrow> nat \<Rightarrow> (nat \<times> mem) res" where
  "strcat m dest src = rbind (strlen_loop m dest) (\<lambda>d. rbind (strcpy_loop m d src) (\<lambda>m'. Inr (dest, m')))"

function strncat_loop :: "mem \<Rightarrow> nat \<Rightarrow> nat \<Rightarrow> nat \<Rightarrow> mem res" where
  "strncat_loop m dest src count =
     rbind (rd m src) (\<lambda>c. rbind (wr m dest c) (\<lambda>m'.
       if c \<noteq> 0 then
         (if count - 1 = 0 then wr m' (dest + 1) 0 else strncat_loop m' (dest + 1) (src + 1) (count - 1))
       else Inr m'))"
  by pat_completeness auto
termination by (relation "measure (\<lambda>(m, d, s, c). length m - s)") auto

definition strncat :: "mem \<Rightarrow> nat \<Rightarrow> nat \<Rightarrow> nat \<Rightarrow> (nat \<times> mem) res" where
  "strncat m dest src count =
     (if count \<noteq> 0 then
        rbind (strlen_loop m dest) (\<lambda>d. rbind (strncat_loop m d src count) (\<lambda>m'. Inr (dest, m')))
      else Inr (dest, m))"

definition strlcat :: "mem \<Rightarrow> nat \<Rightarrow> nat \<Rightarrow> nat \<Rightarrow> (nat \<times> mem) res" where
  "strlcat m dest src count =
     rbind (strlen m dest) (\<lambda>dsize. rbind (strlen m src) (\<lambda>len.
       let r = dsize + len in
       if dsize \<ge> count then Inl Bug
       else
         let dest' = dest + dsize; count' = count - dsize;
             len' = (if len \<ge> count' then count' - 1 else len)
         in rbind (memcpy m dest' src len') (\<lambda>m1. rbind (wr m1 (dest' + len') 0) (\<lambda>m2. Inr (r, m2)))))"

text \<open>\<^verbatim>\<open>strim\<close>: \<open>e\<close> is \<^verbatim>\<open>end + 1\<close>.\<close>

fun strim_end :: "mem \<Rightarrow> nat \<Rightarrow> nat \<Rightarrow> nat res" where
  "strim_end m s e =
     (if s < e then rbind (rd m (e - 1)) (\<lambda>c. if isspace c then strim_end m s (e - 1) else Inr e) else Inr e)"

definition strim :: "mem \<Rightarrow> nat \<Rightarrow> (nat \<times> mem) res" where
  "strim m s =
     rbind (strlen m s) (\<lambda>sz.
       if sz = 0 then Inr (s, m)
       else rbind (strim_end m s (s + sz)) (\<lambda>e. rbind (wr m e 0) (\<lambda>m'.
              rbind (skip_spaces m' s) (\<lambda>p. Inr (p, m')))))"

function strreplace :: "mem \<Rightarrow> nat \<Rightarrow> byte \<Rightarrow> byte \<Rightarrow> (nat \<times> mem) res" where
  "strreplace m s old new =
     rbind (rd m s) (\<lambda>c.
       if c \<noteq> 0 then
         (if c = old then rbind (wr m s new) (\<lambda>m'. strreplace m' (s + 1) old new)
          else strreplace m (s + 1) old new)
       else Inr (s, m))"
  by pat_completeness auto
termination by (relation "measure (\<lambda>(m, s, a, b). length m - s)") auto

declare strlen_loop.simps [simp del] strcmp.simps [simp del] strcasecmp.simps [simp del] strchr.simps [simp del]
  strchrnul.simps [simp del] strrchr_loop.simps [simp del] skip_spaces.simps [simp del] set_loop.simps [simp del]
  strspn_loop.simps [simp del] strcspn_loop.simps [simp del] strpbrk.simps [simp del] match_string_loop.simps [simp del]
  strstr_loop.simps [simp del] strcpy_loop.simps [simp del] strncat_loop.simps [simp del] strim_end.simps [simp del]
  strreplace.simps [simp del]

end
