(* ===== verification/Strings_Spec.thy ===== *)
theory Strings_Spec
  imports Strings
begin

text \<open>
  What the string routines compute, on memories where their arguments are NUL-terminated strings
  or areas inside memory.
\<close>

section \<open>Strings in memory\<close>

text \<open>The string \<open>s\<close> stands at address \<open>a\<close>, with its terminating NUL.\<close>

primrec is_str :: "mem \<Rightarrow> nat \<Rightarrow> byte list \<Rightarrow> bool" where
  "is_str m a [] \<longleftrightarrow> a < length m \<and> m ! a = 0"
| "is_str m a (c # s) \<longleftrightarrow> a < length m \<and> m ! a = c \<and> c \<noteq> 0 \<and> is_str m (Suc a) s"

lemma is_str_bound: "is_str m a s \<Longrightarrow> a + length s < length m"
  by (induction s arbitrary: a) force+

lemma is_str_no_zero: "is_str m a s \<Longrightarrow> 0 \<notin> set s"
  by (induction s arbitrary: a) auto

lemma is_str_nth: "is_str m a s \<Longrightarrow> i < length s \<Longrightarrow> m ! (a + i) = s ! i"
proof (induction s arbitrary: a i)
  case (Cons c s)
  then show ?case using Cons.IH [of "Suc a" "i - 1"] by (cases i) auto
qed simp

lemma is_str_end: "is_str m a s \<Longrightarrow> m ! (a + length s) = 0"
  by (induction s arbitrary: a) force+

lemma is_str_upd: "d < a \<or> a + length s < d \<Longrightarrow> is_str (m[d := c]) a s = is_str m a s"
  by (induction s arbitrary: a) auto

lemma is_str_suffix: "is_str m a s \<Longrightarrow> i \<le> length s \<Longrightarrow> is_str m (a + i) (drop i s)"
proof (induction s arbitrary: a i)
  case (Cons c s)
  then show ?case using Cons.IH [of "Suc a" "i - 1"] by (cases i) auto
qed simp

lemma rd_ok [simp]: "a < length m \<Longrightarrow> rd m a = Inr (m ! a)"
  and wr_ok [simp]: "a < length m \<Longrightarrow> wr m a c = Inr (m[a := c])"
  by simp_all

section \<open>Scanning a string\<close>

text \<open>
  The contract of a loop that walks along a string up to the first character it stops at, which
  the NUL always is.
\<close>

locale string_scan =
  fixes scan :: "mem \<Rightarrow> nat \<Rightarrow> nat res" and stop :: "byte \<Rightarrow> bool"
  assumes scan_step: "scan m a = rbind (rd m a) (\<lambda>c. if stop c then Inr a else scan m (a + 1))"
    and stop_nul: "stop 0"
begin

lemma scan_ok: "is_str m a s \<Longrightarrow> scan m a = Inr (a + length (takeWhile (\<lambda>c. \<not> stop c) s))"
  by (induction s arbitrary: a) (subst scan_step; auto simp: stop_nul)+

lemma scan_stops: "is_str m a s \<Longrightarrow> \<exists>p. scan m a = Inr p \<and> a \<le> p \<and> p \<le> a + length s \<and> stop (m ! p)"
proof -
  assume s: "is_str m a s"
  let ?n = "length (takeWhile (\<lambda>c. \<not> stop c) s)"
  have "stop (m ! (a + ?n))"
  proof (cases "?n < length s")
    case True
    then show ?thesis using is_str_nth [OF s True] nth_length_takeWhile [OF True] by simp
  next
    case False
    then have "?n = length s" using length_takeWhile_le [of "\<lambda>c. \<not> stop c" s] by simp
    then show ?thesis using is_str_end [OF s] stop_nul by simp
  qed
  then show ?thesis using scan_ok [OF s] length_takeWhile_le [of "\<lambda>c. \<not> stop c" s] by simp
qed

end

lemma isspace_0: "\<not> isspace 0"
  by (simp add: isspace_iff)

interpretation len: string_scan strlen_loop "\<lambda>c. c = 0"
  by unfold_locales (subst strlen_loop.simps, auto intro!: arg_cong2 [of _ _ _ _ rbind])

interpretation chrnul: string_scan "\<lambda>m a. strchrnul m a x" "\<lambda>c. c = 0 \<or> c = x" for x
  by unfold_locales (subst strchrnul.simps, auto intro!: arg_cong2 [of _ _ _ _ rbind])

interpretation spaces: string_scan skip_spaces "\<lambda>c. \<not> isspace c"
  by unfold_locales (subst skip_spaces.simps, auto simp: isspace_0 intro!: arg_cong2 [of _ _ _ _ rbind])

interpretation chars: string_scan "\<lambda>m a. set_loop m a x" "\<lambda>c. c = 0 \<or> c = x" for x
  by unfold_locales (subst set_loop.simps, auto intro!: arg_cong2 [of _ _ _ _ rbind])

lemma takeWhile_nonzero: "0 \<notin> set s \<Longrightarrow> takeWhile (\<lambda>c. c \<noteq> 0 \<and> P c) s = takeWhile P s" for s :: "byte list"
  by (rule takeWhile_cong) auto

section \<open>Lengths and comparisons\<close>

lemma strlen_loop_ok: "is_str m a s \<Longrightarrow> strlen_loop m a = Inr (a + length s)"
proof -
  assume s: "is_str m a s"
  have "takeWhile (\<lambda>c. c \<noteq> 0) s = s" using is_str_no_zero [OF s] by (metis (mono_tags) takeWhile_eq_all_conv)
  from arg_cong [OF this, of length] show ?thesis using len.scan_ok [OF s] by simp
qed

lemma strlen_ok: "is_str m a s \<Longrightarrow> strlen m a = Inr (length s)"
  by (simp add: strlen_def strlen_loop_ok)

lemma strnlen_loop_ok: "is_str m a s \<Longrightarrow> strnlen_loop n m a = Inr (a + min (length s) n)"
proof (induction n arbitrary: a s)
  case (Suc n)
  then show ?case by (cases s) auto
qed simp

text \<open>Lexicographic comparison by the unsigned values of the characters.\<close>

fun str_cmp :: "byte list \<Rightarrow> byte list \<Rightarrow> int" where
  "str_cmp [] [] = 0"
| "str_cmp [] (y # t) = - 1"
| "str_cmp (x # s) [] = 1"
| "str_cmp (x # s) (y # t) = (if x < y then - 1 else if y < x then 1 else str_cmp s t)"

lemma str_cmp_0: "str_cmp s t = 0 \<longleftrightarrow> s = t"
  by (induction s t rule: str_cmp.induct) auto

lemma str_cmp_less: "str_cmp s t = - 1 \<longleftrightarrow> ord_class.lexordp s t"
  by (induction s t rule: str_cmp.induct) auto

lemma str_cmp_anti: "str_cmp t s = - str_cmp s t"
  by (induction s t rule: str_cmp.induct) auto

lemma strcmp_ok: "is_str m a s \<Longrightarrow> is_str m b t \<Longrightarrow> strcmp m a b = Inr (str_cmp s t)"
proof (induction s t arbitrary: a b rule: str_cmp.induct)
  case (2 y t)
  then have "0 < y" by (simp add: word_gt_0)
  with 2 show ?case by (subst strcmp.simps) auto
next
  case (3 x s)
  then have "\<not> x < 0" "x \<noteq> 0" by auto
  with 3 show ?case by (subst strcmp.simps) simp
qed (subst strcmp.simps; auto)+

lemma strncmp_ok: "is_str m a s \<Longrightarrow> is_str m b t \<Longrightarrow> strncmp m a b n = Inr (str_cmp (take n s) (take n t))"
proof (induction n arbitrary: a b s t)
  case (Suc n)
  show ?case
  proof (cases s)
    case Nil
    then show ?thesis using Suc.prems by (cases t) (auto simp: word_gt_0)
  next
    case (Cons x s')
    then show ?thesis using Suc by (cases t) auto
  qed
qed simp

lemma tolower_0: "tolower c = 0 \<longleftrightarrow> c = 0"
proof -
  have "tolower c \<noteq> 0" if "isupper c"
  proof
    assume "tolower c = 0"
    then have "c = - 32" using that by (simp add: tolower_def eq_neg_iff_add_eq_0 add.commute)
    then have "unat c = 224" by simp
    then show False using that by (simp add: isupper_iff)
  qed
  moreover have "\<not> isupper 0" by (simp add: isupper_iff)
  ultimately show ?thesis by (cases "isupper c") (auto simp: tolower_def)
qed

lemma tolower_pos: "c \<noteq> 0 \<Longrightarrow> tolower c \<noteq> 0 \<and> 0 < uint (tolower c)"
  using tolower_0 [of c] by (simp add: less_le uint_0_iff)

lemma strcasecmp_ok:
  "is_str m a s \<Longrightarrow> is_str m b t \<Longrightarrow> \<exists>r. strcasecmp m a b = Inr r \<and> sgn r = str_cmp (map tolower s) (map tolower t)"
proof (induction s arbitrary: a b t)
  case Nil
  have z: "tolower 0 = 0" by (simp add: tolower_0)
  show ?case
  proof (cases t)
    case Nil
    then show ?thesis using \<open>is_str m a []\<close> \<open>is_str m b t\<close> z by (subst strcasecmp.simps) (simp add: Let_def)
  next
    case (Cons y t')
    then show ?thesis using \<open>is_str m a []\<close> \<open>is_str m b t\<close> z tolower_pos [of y]
      by (subst strcasecmp.simps) (auto simp: Let_def)
  qed
next
  case (Cons x s)
  have nz: "tolower x \<noteq> 0" "0 < uint (tolower x)" using Cons.prems(1) tolower_pos [of x] by simp_all
  show ?case
  proof (cases t)
    case Nil
    then show ?thesis using Cons.prems nz tolower_0 [of 0] by (subst strcasecmp.simps) (auto simp: Let_def)
  next
    case t: (Cons y t')
    show ?thesis
    proof (cases "tolower x = tolower y")
      case True
      have "\<exists>r. strcasecmp m (Suc a) (Suc b) = Inr r \<and> sgn r = str_cmp (map tolower s) (map tolower t')"
        by (rule Cons.IH) (use Cons.prems t in simp_all)
      then show ?thesis using Cons.prems True nz t by (subst strcasecmp.simps) (auto simp: Let_def)
    next
      case False
      then have "strcasecmp m a b = Inr (uint (tolower x) - uint (tolower y))"
        using Cons.prems t by (subst strcasecmp.simps) (auto simp: Let_def)
      moreover have "uint (tolower x) \<noteq> uint (tolower y)" using False by (simp add: word_uint_eq_iff)
      ultimately show ?thesis using t by (auto simp: word_less_def)
    qed
  qed
qed

section \<open>Searches\<close>

lemma strchr_ok:
  "is_str m a s \<Longrightarrow> strchr m a c =
     Inr (let i = length (takeWhile (\<lambda>x. x \<noteq> c) s) in if i < length s \<or> c = 0 then Some (a + i) else None)"
  by (induction s arbitrary: a) (subst strchr.simps; auto simp: Let_def)+

lemma strchrnul_ok:
  "is_str m a s \<Longrightarrow> strchrnul m a c = Inr (a + length (takeWhile (\<lambda>x. x \<noteq> c) s))"
  using chrnul.scan_ok [of m a s c] is_str_no_zero [of m a s] by (simp add: takeWhile_nonzero)

lemma strrchr_loop_ok:
  "is_str m a s \<Longrightarrow> strrchr_loop m a c la =
     Inr (if c \<in> set (s @ [0]) then Some (a + length s - length (takeWhile (\<lambda>x. x \<noteq> c) (rev (s @ [0])))) else la)"
proof (induction s arbitrary: a la)
  case Nil
  then show ?case by (subst strrchr_loop.simps) (auto simp: Let_def)
next
  case (Cons x s)
  have IH: "strrchr_loop m (Suc a) c la' = Inr (if c \<in> set (s @ [0]) then
      Some (Suc a + length s - length (takeWhile (\<lambda>x. x \<noteq> c) (rev (s @ [0])))) else la')" for la'
    using Cons by simp
  have tw: "takeWhile (\<lambda>x. x \<noteq> c) (rev (s @ [0]) @ [x]) =
      (if c \<in> set (s @ [0]) then takeWhile (\<lambda>x. x \<noteq> c) (rev (s @ [0]))
       else rev (s @ [0]) @ (if x = c then [] else [x]))"
    by (auto simp: takeWhile_append)
  show ?case using Cons.prems IH tw by (subst strrchr_loop.simps) (auto simp: Let_def)
qed

lemma strnchr_ok:
  "is_str m a s \<Longrightarrow> strnchr m a n c =
     Inr (let i = length (takeWhile (\<lambda>x. x \<noteq> c) (take n s)) in if i < min n (length s) then Some (a + i) else None)"
proof (induction n arbitrary: a s)
  case (Suc n)
  then show ?case by (cases s) (auto simp: Let_def)
qed simp

lemma skip_spaces_ok: "is_str m a s \<Longrightarrow> skip_spaces m a = Inr (a + length (takeWhile isspace s))"
  using spaces.scan_ok [of m a s] by simp

lemma set_loop_hit:
  assumes "is_str m a t"
  shows "rbind (set_loop m a x) (\<lambda>r. rbind (rd m r) f) = f (if x \<in> set t then x else 0)"
  using assms
proof (induction t arbitrary: a)
  case (Cons c t)
  then show ?case by (subst chars.scan_step) (auto split: if_splits)
qed (subst chars.scan_step; simp)

lemma strspn_loop_ok:
  "is_str m a s \<Longrightarrow> is_str m b t \<Longrightarrow> strspn_loop m a b k = Inr (k + length (takeWhile (\<lambda>c. c \<in> set t) s))"
  by (induction s arbitrary: a k) (subst strspn_loop.simps; simp add: set_loop_hit)+

lemma strcspn_loop_ok:
  "is_str m a s \<Longrightarrow> is_str m b t \<Longrightarrow> strcspn_loop m a b k = Inr (k + length (takeWhile (\<lambda>c. c \<notin> set t) s))"
  by (induction s arbitrary: a k) (subst strcspn_loop.simps; simp add: set_loop_hit)+

lemma strpbrk_ok:
  "is_str m a s \<Longrightarrow> is_str m b t \<Longrightarrow> strpbrk m a b =
     Inr (let i = length (takeWhile (\<lambda>c. c \<notin> set t) s) in if i < length s then Some (a + i) else None)"
  by (induction s arbitrary: a) (subst strpbrk.simps; simp add: set_loop_hit Let_def)+

section \<open>Areas of memory\<close>

lemma memset_ok: "a + n \<le> length m \<Longrightarrow> memset m a c n = Inr (take a m @ replicate n c @ drop (a + n) m)"
proof (induction n arbitrary: m a)
  case (Suc n)
  then have "memset (m[a := c]) (Suc a) c n =
      Inr (take (Suc a) (m[a := c]) @ replicate n c @ drop (Suc a + n) (m[a := c]))" by simp
  moreover have "take (Suc a) (m[a := c]) = take a m @ [c]"
    using Suc.prems by (simp add: take_Suc_conv_app_nth)
  ultimately show ?case using Suc.prems by simp
qed simp

lemma arr_move_step:
  assumes "dst < length m" and "src < length m" and "dst \<le> src \<or> src + Suc n \<le> dst"
  shows "arr_move (m[dst := m ! src]) (Suc dst) (Suc src) n = arr_move m dst src (Suc n)"
proof -
  have "take (Suc dst) (m[dst := m ! src]) = take dst m @ [m ! src]"
    using assms(1) by (simp add: take_Suc_conv_app_nth)
  moreover have "take n (drop (Suc src) (m[dst := m ! src])) = take n (drop (Suc src) m)"
    using assms(3) by (auto simp: drop_update_swap take_update_cancel)
  moreover have "take (Suc n) (drop src m) = m ! src # take n (drop (Suc src) m)"
    using assms(2) by (simp add: Cons_nth_drop_Suc [symmetric])
  ultimately show ?thesis by (simp add: arr_move_def)
qed

lemma memcpy_ok:
  "dest + n \<le> length m \<Longrightarrow> src + n \<le> length m \<Longrightarrow> dest \<le> src \<or> src + n \<le> dest \<Longrightarrow>
   memcpy m dest src n = Inr (arr_move m dest src n)"
proof (induction n arbitrary: m dest src)
  case 0
  then show ?case by (simp add: arr_move_def)
next
  case (Suc n)
  have "memcpy (m[dest := m ! src]) (Suc dest) (Suc src) n = Inr (arr_move (m[dest := m ! src]) (Suc dest) (Suc src) n)"
    by (rule Suc.IH) (use Suc.prems in auto)
  then show ?case using Suc.prems by (simp add: arr_move_step)
qed

lemma arr_move_back:
  assumes "dst + Suc n \<le> length m" and "src + Suc n \<le> length m" and "src \<le> dst"
  shows "arr_move (m[dst + n := m ! (src + n)]) dst src n = arr_move m dst src (Suc n)"
proof -
  have "take dst (m[dst + n := m ! (src + n)]) = take dst m" by simp
  moreover have "take n (drop src (m[dst + n := m ! (src + n)])) = take n (drop src m)"
    using assms by (cases "src \<le> dst + n") (simp_all add: drop_update_swap)
  moreover have "drop (dst + n) (m[dst + n := m ! (src + n)]) = m ! (src + n) # drop (dst + Suc n) m"
    using assms(1) by (simp add: drop_update_swap Cons_nth_drop_Suc [symmetric])
  moreover have "take (Suc n) (drop src m) = take n (drop src m) @ [m ! (src + n)]"
    using assms(2) by (simp add: take_Suc_conv_app_nth)
  ultimately show ?thesis by (simp add: arr_move_def)
qed

lemma memmove_back_ok:
  "dest + n \<le> length m \<Longrightarrow> src + n \<le> length m \<Longrightarrow> src \<le> dest \<Longrightarrow>
   memmove_back m (dest + n) (src + n) n = Inr (arr_move m dest src n)"
proof (induction n arbitrary: m)
  case 0
  then show ?case by (simp add: arr_move_def)
next
  case (Suc n)
  have "memmove_back (m[dest + n := m ! (src + n)]) (dest + n) (src + n) n =
      Inr (arr_move (m[dest + n := m ! (src + n)]) dest src n)"
    by (rule Suc.IH) (use Suc.prems in auto)
  then show ?case using Suc.prems by (simp add: arr_move_back)
qed

lemma memmove_ok:
  "dest + n \<le> length m \<Longrightarrow> src + n \<le> length m \<Longrightarrow> memmove m dest src n = Inr (arr_move m dest src n)"
  by (simp add: memmove_def memcpy_ok memmove_back_ok)

lemma memcmp_0:
  "a + n \<le> length m \<Longrightarrow> b + n \<le> length m \<Longrightarrow>
   \<exists>r. memcmp m a b n = Inr r \<and> (r = 0 \<longleftrightarrow> take n (drop a m) = take n (drop b m)) \<and>
     sgn r = str_cmp (take n (drop a m)) (take n (drop b m))"
proof (induction n arbitrary: a b)
  case (Suc n)
  have t: "take (Suc n) (drop a m) = m ! a # take n (drop (Suc a) m)"
    "take (Suc n) (drop b m) = m ! b # take n (drop (Suc b) m)"
    using Suc.prems by (simp_all add: Cons_nth_drop_Suc [symmetric])
  show ?case
  proof (cases "m ! a = m ! b")
    case True
    then show ?thesis using Suc t by (simp add: Let_def)
  next
    case False
    then have "uint (m ! a) \<noteq> uint (m ! b)" by (simp add: word_uint_eq_iff)
    then show ?thesis using Suc.prems t False by (auto simp: Let_def word_less_def)
  qed
qed simp

lemma memchr_ok:
  "a + n \<le> length m \<Longrightarrow> memchr m a c n =
     Inr (let i = length (takeWhile (\<lambda>x. x \<noteq> c) (take n (drop a m))) in if i < n then Some (a + i) else None)"
proof (induction n arbitrary: a)
  case (Suc n)
  have "take (Suc n) (drop a m) = m ! a # take n (drop (Suc a) m)"
    using Suc.prems by (simp add: Cons_nth_drop_Suc [symmetric])
  then show ?case using Suc by (auto simp: Let_def)
qed simp

lemma memscan_ok:
  "a + n \<le> length m \<Longrightarrow> memscan m a c n = Inr (a + length (takeWhile (\<lambda>x. x \<noteq> c) (take n (drop a m))))"
proof (induction n arbitrary: a)
  case (Suc n)
  have "take (Suc n) (drop a m) = m ! a # take n (drop (Suc a) m)"
    using Suc.prems by (simp add: Cons_nth_drop_Suc [symmetric])
  then show ?case using Suc by auto
qed simp


lemma strncasecmp_loop_ok:
  "is_str m a s \<Longrightarrow> is_str m b t \<Longrightarrow> 0 < n \<Longrightarrow>
   \<exists>r. strncasecmp_loop n m a b = Inr r \<and> sgn r = str_cmp (map tolower (take n s)) (map tolower (take n t))"
proof (induction n arbitrary: a b s t)
  case (Suc n)
  have sg: "x < y \<Longrightarrow> sgn (uint x - uint y) = - 1" "y < x \<Longrightarrow> sgn (uint x - uint y) = 1" for x y :: byte
    by (simp_all add: word_less_def)
  show ?case
  proof (cases s)
    case s: Nil
    show ?thesis
    proof (cases t)
      case (Cons y t')
      then have "0 < uint y" using Suc.prems(2) by (simp add: less_le uint_0_iff)
      then show ?thesis using Suc.prems s Cons by simp
    qed (use Suc.prems s in simp)
  next
    case s: (Cons x s')
    then have x: "x \<noteq> 0" "0 < uint x" using Suc.prems(1) by (simp_all add: less_le uint_0_iff)
    show ?thesis
    proof (cases t)
      case Nil
      then show ?thesis using Suc.prems s x by simp
    next
      case t: (Cons y t')
      have str: "is_str m (Suc a) s'" "is_str m (Suc b) t'" using Suc.prems s t by simp_all
      have rest: "\<exists>r. (if n = 0 then Inr 0 else strncasecmp_loop n m (Suc a) (Suc b)) = Inr r \<and>
          sgn r = str_cmp (map tolower (take n s')) (map tolower (take n t'))"
        using Suc.IH [OF str] by (cases "n = 0") auto
      show ?thesis
      proof (cases "tolower x = tolower y")
        case True
        then show ?thesis using rest Suc.prems s t by (cases "x = y") (auto simp: Let_def split: if_splits)
      next
        case False
        then have "x \<noteq> y" by auto
        have r: "strncasecmp_loop (Suc n) m a b = Inr (uint (tolower x) - uint (tolower y))"
          using \<open>x \<noteq> y\<close> False Suc.prems s t by (auto simp: Let_def)
        show ?thesis unfolding r using False s t sg [where x = "tolower x" and y = "tolower y"] by (auto simp: neq_iff)
      qed
    qed
  qed
qed simp

lemma match_string_loop_ok:
  assumes "is_str m b t" and "list_all2 (\<lambda>p s. is_str m p s) ps ss"
  shows "i \<le> length ps \<Longrightarrow> match_string_loop m (map Some ps) (length ps) b i =
    Inr (let k = length (takeWhile (\<lambda>s. s \<noteq> t) (drop i ss)) in if i + k < length ps then int (i + k) else - EINVAL)"
proof (induction "length ps - i" arbitrary: i)
  case 0
  have "length ss = length ps" using assms(2) by (simp add: list_all2_lengthD)
  then show ?case using 0 by (subst match_string_loop.simps) simp
next
  case (Suc n)
  have l: "length ss = length ps" using assms(2) by (simp add: list_all2_lengthD)
  have i: "i < length ps" using Suc.hyps(2) by simp
  then have d: "drop i ss = ss ! i # drop (Suc i) ss" using l by (simp add: Cons_nth_drop_Suc)
  have c: "strcmp m (ps ! i) b = Inr (str_cmp (ss ! i) t)"
    using assms i by (intro strcmp_ok) (auto simp: list_all2_conv_all_nth)
  have IH: "match_string_loop m (map Some ps) (length ps) b (Suc i) =
    Inr (let k = length (takeWhile (\<lambda>s. s \<noteq> t) (drop (Suc i) ss)) in if Suc i + k < length ps then int (Suc i + k) else - EINVAL)"
    by (rule Suc.hyps(1)) (use Suc.hyps(2) i in simp_all)
  show ?case
    using i c IH unfolding d by (subst match_string_loop.simps) (auto simp: str_cmp_0 Let_def)
qed

end
