(* ===== verification/Strings_Copy.thy ===== *)
theory Strings_Copy
  imports Strings_Spec "HOL-Library.Sublist"
begin

text \<open>
  The routines of string.c that write: copies, concatenations, splitting, trimming and replacing;
  and the search for a substring.
\<close>

section \<open>Strings and areas\<close>

lemma is_str_iff:
  "is_str m a s \<longleftrightarrow> 0 \<notin> set s \<and> a + length s < length m \<and> take (length s) (drop a m) = s \<and> m ! (a + length s) = 0"
proof (induction s arbitrary: a)
  case (Cons c s)
  have "take (Suc n) (drop a m) = m ! a # take n (drop (Suc a) m)" if "a < length m" for n
    using that by (simp add: Cons_nth_drop_Suc [symmetric])
  then show ?case using Cons by auto
qed simp

lemma is_str_append_cong:
  "is_str m a s \<Longrightarrow> (\<And>i. a \<le> i \<Longrightarrow> i \<le> a + length s \<Longrightarrow> m' ! i = m ! i) \<Longrightarrow> length m' = length m \<Longrightarrow> is_str m' a s"
  by (induction s arbitrary: a) auto

text \<open>Memory with the bytes \<open>bs\<close> at address \<open>d\<close>.\<close>

definition put :: "mem \<Rightarrow> nat \<Rightarrow> byte list \<Rightarrow> mem" where
  "put m d bs = take d m @ bs @ drop (d + length bs) m"

lemma put_length [simp]: "d + length bs \<le> length m \<Longrightarrow> length (put m d bs) = length m"
  by (simp add: put_def)

lemma put_nth:
  "d + length bs \<le> length m \<Longrightarrow> i < length m \<Longrightarrow>
   put m d bs ! i = (if d \<le> i \<and> i < d + length bs then bs ! (i - d) else m ! i)"
  by (auto simp: put_def nth_append min_def)

lemma put_is_str:
  assumes "0 \<notin> set s" and "d + length s < length m"
  shows "is_str (put m d (s @ [0])) d s"
proof -
  have "put m d (s @ [0]) ! (d + length s) = 0" using assms put_nth [of d "s @ [0]" m "d + length s"] by simp
  then show ?thesis using assms by (simp add: is_str_iff put_def)
qed

lemma put_put: "d + length xs + length ys \<le> length m \<Longrightarrow> put (put m d xs) (d + length xs) ys = put m d (xs @ ys)"
  by (simp add: put_def ac_simps)

lemma arr_move_put: "arr_move m d a n = put m d (take n (drop a m))" if "a + n \<le> length m"
  using that by (simp add: arr_move_def put_def)

lemma put_update: "d + length bs < length m \<Longrightarrow> (put m d bs)[d + length bs := c] = put m d (bs @ [c])"
  by (auto simp: put_def list_update_append Cons_nth_drop_Suc [symmetric])

section \<open>Copies\<close>

lemma strcpy_loop_memcpy:
  "is_str m src s \<Longrightarrow> d \<le> src \<or> src + length s < d \<Longrightarrow> d + length s < length m \<Longrightarrow>
   strcpy_loop m d src = memcpy m d src (length s + 1)"
proof (induction s arbitrary: m d src)
  case Nil
  then show ?case by (subst strcpy_loop.simps) simp
next
  case (Cons c s)
  let ?m = "m[d := c]"
  have "strcpy_loop ?m (Suc d) (Suc src) = memcpy ?m (Suc d) (Suc src) (length s + 1)"
    by (rule Cons.IH) (use Cons.prems in \<open>auto simp: is_str_upd\<close>)
  then show ?case using Cons.prems by (subst strcpy_loop.simps) auto
qed

lemma str_bytes: "is_str m a s \<Longrightarrow> take (length s + 1) (drop a m) = s @ [0]"
proof -
  assume s: "is_str m a s"
  then have "take (length s + 1) (drop a m) = take (length s) (drop a m) @ [drop a m ! length s]"
    using is_str_bound [OF s] by (simp add: take_Suc_conv_app_nth)
  then show ?thesis using s is_str_bound [OF s] by (simp add: is_str_iff)
qed

lemma strcpy_loop_ok:
  assumes "is_str m src s" and "d \<le> src \<or> src + length s < d" and "d + length s < length m"
  shows "strcpy_loop m d src = Inr (put m d (s @ [0]))"
proof -
  have b: "src + length s < length m" using is_str_bound [OF assms(1)] .
  have "strcpy_loop m d src = Inr (arr_move m d src (length s + 1))"
    using strcpy_loop_memcpy [OF assms] memcpy_ok [of d "length s + 1" m src] assms b by auto
  then show ?thesis using arr_move_put [of src "length s + 1" m d] b str_bytes [OF assms(1)] by simp
qed

lemma put_Cons: "d < length m \<Longrightarrow> put (m[d := c]) (Suc d) bs = put m d (c # bs)"
  by (simp add: put_def take_Suc_conv_app_nth)

lemma strncpy_loop_ok:
  "is_str m src s \<Longrightarrow> d + n \<le> src \<or> src + length s < d \<Longrightarrow> d + n \<le> length m \<Longrightarrow>
   strncpy_loop n m d src = Inr (put m d (take n (s @ replicate n 0)))"
proof (induction n arbitrary: m d src s)
  case 0
  then show ?case by (simp add: put_def)
next
  case (Suc n)
  have src: "src < length m" using is_str_bound [OF Suc.prems(1)] by simp
  show ?case
  proof (cases s)
    case Nil
    have "strncpy_loop n (m[d := 0]) (Suc d) src = Inr (put (m[d := 0]) (Suc d) (take n ([] @ replicate n 0)))"
      by (rule Suc.IH) (use Suc.prems Nil src in \<open>auto simp: nth_list_update\<close>)
    then show ?thesis using Suc.prems Nil by (simp add: put_Cons)
  next
    case (Cons c t)
    have "strncpy_loop n (m[d := c]) (Suc d) (Suc src) = Inr (put (m[d := c]) (Suc d) (take n (t @ replicate n 0)))"
      by (rule Suc.IH) (use Suc.prems Cons in \<open>auto simp: is_str_upd\<close>)
    moreover have "take (Suc n) (s @ replicate (Suc n) 0) = c # take n (t @ replicate n 0)"
      using Cons by (simp add: replicate_append_same [symmetric] flip: append_assoc)
    ultimately show ?thesis using Suc.prems Cons by (simp add: put_Cons)
  qed
qed

lemma memcpy_put:
  assumes "is_str m src s" and "n \<le> length s" and "d + n \<le> length m" and "d \<le> src \<or> src + n \<le> d"
  shows "memcpy m d src n = Inr (put m d (take n s))"
proof -
  have b: "src + length s < length m" using is_str_bound [OF assms(1)] .
  have "take n (drop src m) = take n s"
    using assms(1,2) by (metis is_str_iff min.absorb1 take_take)
  then show ?thesis using memcpy_ok [of d n m src] arr_move_put [of src n m d] assms b by simp
qed

lemma strlcpy_ok:
  assumes "is_str m src s" and "dest + min (length s + 1) sz \<le> length m" and "dest \<le> src \<or> src + length s < dest"
  shows "strlcpy m dest src sz =
    Inr (length s, if sz = 0 then m else put m dest (take (sz - 1) s @ [0]))"
proof (cases "sz = 0")
  case True
  then show ?thesis using assms(1) by (simp add: strlcpy_def strlen_ok)
next
  case False
  let ?n = "if sz \<le> length s then sz - 1 else length s"
  have n: "?n \<le> length s" "dest + ?n < length m" "take ?n s = take (sz - 1) s" "length (take (sz - 1) s) = ?n"
    using False assms(2) by (auto simp: min_def)
  have "memcpy m dest src ?n = Inr (put m dest (take ?n s))"
    by (rule memcpy_put [OF assms(1) n(1)]) (use assms n in auto)
  then show ?thesis
    using False assms(1) n put_update [of dest "take (sz - 1) s" m 0] by (simp add: strlcpy_def strlen_ok Let_def)
qed

lemma strncat_loop_ok:
  "is_str m src s \<Longrightarrow> src + length s < d \<or> d + min n (length s) < src \<Longrightarrow> d + min n (length s) < length m \<Longrightarrow> 0 < n \<Longrightarrow>
   strncat_loop m d src n = Inr (put m d (take n s @ [0]))"
proof (induction s arbitrary: m d src n)
  case Nil
  then show ?case
    by (subst strncat_loop.simps) (auto simp: put_def upd_conv_take_nth_drop)
next
  case (Cons c s)
  let ?m = "m[d := c]"
  have src: "src < length m" using is_str_bound [OF Cons.prems(1)] by simp
  show ?case
  proof (cases "n = 1")
    case True
    have "?m[Suc d := 0] = put m d [c, 0]"
      using Cons.prems True by (auto simp: put_def upd_conv_take_nth_drop take_Suc_conv_app_nth)
    then show ?thesis using Cons.prems True src by (subst strncat_loop.simps) auto
  next
    case False
    have "strncat_loop ?m (Suc d) (Suc src) (n - 1) = Inr (put ?m (Suc d) (take (n - 1) s @ [0]))"
      by (rule Cons.IH) (use Cons.prems False in \<open>auto simp: is_str_upd\<close>)
    then show ?thesis using Cons.prems False src
      by (subst strncat_loop.simps) (auto simp: put_Cons take_Cons')
  qed
qed


section \<open>Concatenation\<close>

lemma put_append_str:
  assumes "is_str m a t" and "0 \<notin> set s" and "a + length t + length s < length m"
  shows "is_str (put m (a + length t) (s @ [0])) a (t @ s)"
proof -
  let ?m = "put m (a + length t) (s @ [0])"
  have t: "take (length t) (drop a m) = t" "0 \<notin> set t" using assms(1) by (simp_all add: is_str_iff)
  have "take (a + length t) m = take a m @ t" using t(1) by (simp add: take_add)
  then have "?m = take a m @ t @ s @ 0 # drop (Suc (a + length t + length s)) m"
    by (simp add: put_def)
  then show ?thesis using assms(2,3) t(2) by (simp add: is_str_iff nth_append)
qed

lemma strcat_ok:
  assumes "is_str m dest t" and "is_str m src s"
    and "dest + length t + length s < length m" and "src + length s < dest + length t \<or> dest + length t \<le> src"
  shows "strcat m dest src = Inr (dest, put m (dest + length t) (s @ [0]))"
  using assms strcpy_loop_ok [OF assms(2), of "dest + length t"] by (auto simp: strcat_def strlen_loop_ok)

lemma strncat_ok:
  assumes "is_str m dest t" and "is_str m src s" and "0 < n"
    and "dest + length t + min n (length s) < length m"
    and "src + length s < dest + length t \<or> dest + length t + min n (length s) < src"
  shows "strncat m dest src n = Inr (dest, put m (dest + length t) (take n s @ [0]))"
  using assms strncat_loop_ok [OF assms(2,5,4,3)] by (simp add: strncat_def strlen_loop_ok)

lemma strlcat_ok:
  assumes "is_str m dest t" and "is_str m src s" and "length t < n" and "dest + n \<le> length m"
    and "src + length s < dest + length t \<or> dest + length t \<le> src"
  shows "strlcat m dest src n =
    Inr (length t + length s, put m (dest + length t) (take (n - length t - 1) s @ [0]))"
proof -
  let ?d = "dest + length t"
  let ?n = "if n - length t \<le> length s then n - length t - 1 else length s"
  have k: "?n \<le> length s" "?d + ?n < length m" "take ?n s = take (n - length t - 1) s"
    "length (take (n - length t - 1) s) = ?n" using assms(3,4) by auto
  have "memcpy m ?d src ?n = Inr (put m ?d (take ?n s))"
    by (rule memcpy_put [OF assms(2) k(1)]) (use assms(5) k in auto)
  then show ?thesis
    using assms(1,2,3) k put_update [of ?d "take (n - length t - 1) s" m 0]
    by (simp add: strlcat_def strlen_ok Let_def not_le)
qed

lemma strlcat_bug: "is_str m dest t \<Longrightarrow> is_str m src s \<Longrightarrow> n \<le> length t \<Longrightarrow> strlcat m dest src n = Inl Bug"
  by (simp add: strlcat_def strlen_ok)

section \<open>Splitting, trimming, replacing\<close>

lemma strsep_ok:
  assumes "is_str m a s" and "is_str m b t"
  defines "i \<equiv> length (takeWhile (\<lambda>c. c \<notin> set t) s)"
  shows "strsep m (Some a) b =
    (if i < length s then Inr (Some a, Some (a + i + 1), m[a + i := 0]) else Inr (Some a, None, m))"
    and "i < length s \<Longrightarrow> is_str (m[a + i := 0]) a (takeWhile (\<lambda>c. c \<notin> set t) s) \<and>
      is_str (m[a + i := 0]) (a + i + 1) (drop (i + 1) s)"
proof -
  have bound: "a + length s < length m" using is_str_bound [OF assms(1)] .
  have tw: "takeWhile (\<lambda>c. c \<notin> set t) s = take i s" unfolding i_def by (rule takeWhile_eq_take)
  show "strsep m (Some a) b =
    (if i < length s then Inr (Some a, Some (a + i + 1), m[a + i := 0]) else Inr (Some a, None, m))"
    using strpbrk_ok [OF assms(1,2)] bound by (simp add: strsep_def Let_def i_def)
  assume i: "i < length s"
  have z: "0 \<notin> set s" "take (length s) (drop a m) = s" using assms(1) by (simp_all add: is_str_iff)
  have "take i (drop a m) = take i (take (length s) (drop a m))" using i by (simp add: min_def)
  then have "take i (drop a m) = take i s" by (simp only: z(2))
  then have "is_str (m[a + i := 0]) a (take i s)"
    using i bound z(1) by (auto simp: is_str_iff drop_update_swap dest: in_set_takeD)
  moreover have "is_str (m[a + i := 0]) (a + i + 1) (drop (i + 1) s)"
    using is_str_suffix [OF assms(1), of "i + 1"] i by (subst is_str_upd) (simp_all add: add.assoc)
  ultimately show "is_str (m[a + i := 0]) a (takeWhile (\<lambda>c. c \<notin> set t) s) \<and>
      is_str (m[a + i := 0]) (a + i + 1) (drop (i + 1) s)" unfolding tw by simp
qed

lemma strim_end_ok:
  "a + length s \<le> length m \<Longrightarrow> (\<And>i. i < length s \<Longrightarrow> m ! (a + i) = s ! i) \<Longrightarrow>
   strim_end m a (a + length s) = Inr (a + length (dropWhile isspace (rev s)))"
proof (induction s rule: rev_induct)
  case Nil
  then show ?case by (subst strim_end.simps) simp
next
  case (snoc c s)
  have c: "m ! (a + length s) = c" using snoc.prems(2) [of "length s"] by simp
  have "m ! (a + i) = s ! i" if "i < length s" for i using snoc.prems(2) [of i] that by (simp add: nth_append)
  then have "strim_end m a (a + length s) = Inr (a + length (dropWhile isspace (rev s)))"
    using snoc.prems(1) by (intro snoc.IH) simp_all
  then show ?case using snoc.prems(1) c by (subst strim_end.simps) simp
qed

definition trim_end :: "byte list \<Rightarrow> byte list" where
  "trim_end s = rev (dropWhile isspace (rev s))"

lemma trim_end_take: "trim_end s = take (length (dropWhile isspace (rev s))) s"
proof -
  have "rev s = takeWhile isspace (rev s) @ dropWhile isspace (rev s)" by simp
  then have "s = rev (dropWhile isspace (rev s)) @ rev (takeWhile isspace (rev s))"
    by (metis rev_append rev_rev_ident)
  then show ?thesis unfolding trim_end_def by (metis append_eq_conv_conj length_rev)
qed

lemma strim_ok:
  assumes "is_str m a s"
  shows "\<exists>p m'. strim m a = Inr (p, m') \<and> is_str m' p (dropWhile isspace (trim_end s)) \<and>
    m' = (if s = [] then m else m[a + length (trim_end s) := 0])"
proof (cases "s = []")
  case True
  then show ?thesis using assms strlen_ok [OF assms] by (simp add: strim_def trim_end_def)
next
  case False
  let ?n = "length (dropWhile isspace (rev s))" and ?t = "trim_end s"
  have bound: "a + length s < length m" using is_str_bound [OF assms] .
  have n: "?n \<le> length s" using length_dropWhile_le [of isspace "rev s"] by simp
  have len: "length ?t = ?n" by (simp add: trim_end_def)
  let ?m = "m[a + ?n := 0]"
  have z: "0 \<notin> set s" "take (length s) (drop a m) = s" using assms by (simp_all add: is_str_iff)
  have "take ?n (drop a m) = take ?n (take (length s) (drop a m))" using n by (simp add: min_def)
  then have "take ?n (drop a m) = ?t" by (simp only: z(2) trim_end_take)
  then have t: "is_str ?m a ?t"
    using n len bound z(1) by (auto simp: is_str_iff drop_update_swap trim_end_take dest: in_set_takeD)
  have e: "strim_end m a (a + length s) = Inr (a + ?n)"
    using bound is_str_nth [OF assms] by (intro strim_end_ok) simp_all
  have p: "is_str ?m (a + length (takeWhile isspace ?t)) (dropWhile isspace ?t)"
    using is_str_suffix [OF t length_takeWhile_le] by (simp add: dropWhile_eq_drop)
  have "strim m a = Inr (a + length (takeWhile isspace ?t), ?m)"
    using strlen_ok [OF assms] e skip_spaces_ok [OF t] n bound False by (simp add: strim_def)
  then show ?thesis using p False len by auto
qed

lemma strreplace_ok:
  "is_str m a s \<Longrightarrow> strreplace m a old new =
     Inr (a + length s, put m a (map (\<lambda>c. if c = old then new else c) s))"
proof (induction s arbitrary: m a)
  case Nil
  then show ?case by (subst strreplace.simps) (simp add: put_def)
next
  case (Cons c s)
  let ?c = "if c = old then new else c"
  have a: "a < length m" "m ! a = c" "c \<noteq> 0" "is_str m (Suc a) s" using Cons.prems by simp_all
  have "strreplace (m[a := ?c]) (Suc a) old new =
      Inr (Suc a + length s, put (m[a := ?c]) (Suc a) (map (\<lambda>c. if c = old then new else c) s))"
    by (rule Cons.IH) (use a in \<open>simp add: is_str_upd\<close>)
  moreover have "m[a := c] = m" using a(2) list_update_id [of m a] by simp
  ultimately show ?case using a by (subst strreplace.simps) (auto simp: put_Cons)
qed

section \<open>Substrings\<close>

primrec find_sub :: "byte list \<Rightarrow> byte list \<Rightarrow> nat option" where
  "find_sub t [] = (if prefix t [] then Some 0 else None)"
| "find_sub t (c # s) = (if prefix t (c # s) then Some 0 else map_option Suc (find_sub t s))"

lemma prefix_take: "prefix t s \<longleftrightarrow> take (length t) s = t"
  by (metis append_eq_conv_conj append_take_drop_id prefix_def)

lemma find_sub_None: "find_sub t s = None \<longleftrightarrow> \<not> sublist t s"
  by (induction s) (auto simp: sublist_Cons_right)

lemma find_sub_Some: "find_sub t s = Some i \<longleftrightarrow> i \<le> length s \<and> prefix t (drop i s) \<and> (\<forall>j < i. \<not> prefix t (drop j s))"
proof (induction s arbitrary: i)
  case (Cons c s)
  show ?case
  proof (cases i)
    case 0
    then show ?thesis by auto
  next
    case (Suc k)
    have "(\<forall>j < Suc k. \<not> prefix t (drop j (c # s))) \<longleftrightarrow> \<not> prefix t (c # s) \<and> (\<forall>j < k. \<not> prefix t (drop j s))"
      by (auto simp: less_Suc_eq_0_disj)
    then show ?thesis using Suc Cons [of k] by auto
  qed
qed auto

lemma find_sub_short: "length s < length t \<Longrightarrow> find_sub t s = None"
  by (induction s) (auto dest: prefix_length_le)

lemma strstr_loop_ok:
  assumes "b + length t \<le> length m" and "take (length t) (drop b m) = t" and "t \<noteq> []"
  shows "a + n \<le> length m \<Longrightarrow>
    strstr_loop m a b n (length t) = Inr (map_option (\<lambda>i. a + i) (find_sub t (take n (drop a m))))"
proof (induction n arbitrary: a)
  case 0
  then show ?case using assms(3) by (subst strstr_loop.simps) simp
next
  case (Suc n)
  have s: "take (Suc n) (drop a m) = m ! a # take n (drop (Suc a) m)"
    using Suc.prems by (simp add: Cons_nth_drop_Suc [symmetric])
  show ?case
  proof (cases "length t \<le> Suc n")
    case False
    then have "find_sub t (take (Suc n) (drop a m)) = None" by (intro find_sub_short) simp
    then show ?thesis using False by (subst strstr_loop.simps) simp
  next
    case True
    obtain r where r: "memcmp m a b (length t) = Inr r" "r = 0 \<longleftrightarrow> take (length t) (drop a m) = t"
      using memcmp_0 [of a "length t" m b] assms(1,2) Suc.prems True by auto
    have p: "prefix t (take (Suc n) (drop a m)) \<longleftrightarrow> r = 0"
      unfolding r(2) prefix_take using True by (simp add: min_def)
    have IH: "strstr_loop m (Suc a) b n (length t) = Inr (map_option (\<lambda>i. Suc a + i) (find_sub t (take n (drop (Suc a) m))))"
      using Suc.prems by (intro Suc.IH) simp
    show ?thesis
      using True r(1) p IH unfolding s
      by (subst strstr_loop.simps) (simp add: option.map_comp comp_def)
  qed
qed

lemma strstr_ok:
  assumes "is_str m a s" and "is_str m b t"
  shows "strstr m a b = Inr (map_option (\<lambda>i. a + i) (find_sub t s))"
proof (cases "t = []")
  case True
  then show ?thesis using strlen_ok [OF assms(2)] by (cases s) (simp_all add: strstr_def)
next
  case False
  then show ?thesis
    using strlen_ok [OF assms(2)] strlen_ok [OF assms(1)] assms strstr_loop_ok [of b t m a "length s"]
    by (simp add: strstr_def is_str_iff)
qed

end
