(* ===== verification/Strings_Word.thy ===== *)
theory Strings_Word
  imports Strings_Copy
begin

text \<open>
  The routines of string.c that read eight bytes at a time, on the little-endian arm64:
  \<^verbatim>\<open>strscpy\<close> with the zero-byte search of \<^verbatim>\<open>arch/arm64/include/asm/word-at-a-time.h\<close>, and
  \<^verbatim>\<open>memchr_inv\<close>.
\<close>

section \<open>Definitions\<close>

primrec le64 :: "byte list \<Rightarrow> 64 word" where
  "le64 [] = 0"
| "le64 (b # bs) = ucast b + 256 * le64 bs"

definition bytes64 :: "64 word \<Rightarrow> byte list" where
  "bytes64 w = map (\<lambda>i. ucast (drop_bit (8 * i) w)) [0..<8]"

definition rd64 :: "mem \<Rightarrow> nat \<Rightarrow> 64 word res" where
  "rd64 m a = (if a + 8 \<le> length m then Inr (le64 (take 8 (drop a m))) else Inl Oob)"

definition wr64 :: "mem \<Rightarrow> nat \<Rightarrow> 64 word \<Rightarrow> mem res" where
  "wr64 m a w = (if a + 8 \<le> length m then Inr (put m a (bytes64 w)) else Inl Oob)"

definition REPEAT_BYTE :: "64 word \<Rightarrow> 64 word" where
  "REPEAT_BYTE x = (NOT 0 div 0xff) * x"

record word_at_a_time =
  one_bits :: "64 word"
  high_bits :: "64 word"

definition WORD_AT_A_TIME_CONSTANTS :: word_at_a_time where
  "WORD_AT_A_TIME_CONSTANTS = \<lparr>one_bits = REPEAT_BYTE 0x01, high_bits = REPEAT_BYTE 0x80\<rparr>"

definition has_zero :: "64 word \<Rightarrow> word_at_a_time \<Rightarrow> 64 word" where
  "has_zero a c = ((a - one_bits c) AND NOT a) AND high_bits c"

definition create_zero_mask :: "64 word \<Rightarrow> 64 word" where
  "create_zero_mask bits = drop_bit 7 ((bits - 1) AND NOT bits)"

definition find_zero :: "64 word \<Rightarrow> nat" where
  "find_zero msk = fls64 msk div 8"

text \<open>
  The first loop of \<^verbatim>\<open>strscpy\<close>: it returns the length when it meets the NUL (\<open>Inl\<close>), or where it
  stopped and the room that is left.
\<close>

function strscpy_words :: "mem \<Rightarrow> nat \<Rightarrow> nat \<Rightarrow> nat \<Rightarrow> nat \<Rightarrow> nat \<Rightarrow> ((nat + nat \<times> nat) \<times> mem) res" where
  "strscpy_words m dest src r count mx =
     (if mx \<ge> 8 then
        rbind (rd64 m (src + r)) (\<lambda>c.
          let data = has_zero c WORD_AT_A_TIME_CONSTANTS in
          if data \<noteq> 0 then
            let data = create_zero_mask data in
            rbind (wr64 m (dest + r) (c AND data)) (\<lambda>m'. Inr (Inl (r + find_zero data), m'))
          else rbind (wr64 m (dest + r) c) (\<lambda>m'. strscpy_words m' dest src (r + 8) (count - 8) (mx - 8)))
      else Inr (Inr (r, count), m))"
  by pat_completeness auto
termination by (relation "measure (\<lambda>(m, d, s, r, c, x). x)") auto

declare strscpy_words.simps [simp del]

primrec strscpy_bytes :: "nat \<Rightarrow> mem \<Rightarrow> nat \<Rightarrow> nat \<Rightarrow> nat \<Rightarrow> (int \<times> mem) res" where
  "strscpy_bytes 0 m dest src r =
     (if r \<noteq> 0 then rbind (wr m (dest + r - 1) 0) (\<lambda>m'. Inr (- E2BIG, m')) else Inr (- E2BIG, m))"
| "strscpy_bytes (Suc count) m dest src r =
     rbind (rd m (src + r)) (\<lambda>c. rbind (wr m (dest + r) c) (\<lambda>m'.
       if c = 0 then Inr (int r, m') else strscpy_bytes count m' dest src (r + 1)))"

definition strscpy :: "mem \<Rightarrow> nat \<Rightarrow> nat \<Rightarrow> nat \<Rightarrow> (int \<times> mem) res" where
  "strscpy m dest src count =
     (if count = 0 then Inr (- E2BIG, m)
      else
        let limit = PAGE_SIZE - src mod PAGE_SIZE;
            mx = (if src mod 8 \<noteq> 0 \<and> limit < count then limit else count)
        in rbind (strscpy_words m dest src 0 count mx) (\<lambda>(out, m').
             case out of Inl n \<Rightarrow> Inr (int n, m') | Inr (r, count') \<Rightarrow> strscpy_bytes count' m' dest src r))"

primrec check_bytes8 :: "mem \<Rightarrow> nat \<Rightarrow> byte \<Rightarrow> nat \<Rightarrow> nat option res" where
  "check_bytes8 m start v 0 = Inr None"
| "check_bytes8 m start v (Suc bytes) =
     rbind (rd m start) (\<lambda>x. if x \<noteq> v then Inr (Some start) else check_bytes8 m (start + 1) v bytes)"

primrec memchr_inv_words :: "nat \<Rightarrow> mem \<Rightarrow> nat \<Rightarrow> byte \<Rightarrow> 64 word \<Rightarrow> (nat option + nat) res" where
  "memchr_inv_words 0 m start v v64 = Inr (Inr start)"
| "memchr_inv_words (Suc words) m start v v64 =
     rbind (rd64 m start) (\<lambda>w.
       if w \<noteq> v64 then rbind (check_bytes8 m start v 8) (\<lambda>r. Inr (Inl r))
       else memchr_inv_words words m (start + 8) v v64)"

definition memchr_inv :: "mem \<Rightarrow> nat \<Rightarrow> byte \<Rightarrow> nat \<Rightarrow> nat option res" where
  "memchr_inv m start v bytes =
     (if bytes \<le> 16 then check_bytes8 m start v bytes
      else
        let v64 = ucast v * 0x0101010101010101;
            tail = (\<lambda>start bytes.
              rbind (memchr_inv_words (bytes div 8 mod 2 ^ 32) m start v v64) (\<lambda>out.
                case out of Inl r \<Rightarrow> Inr r | Inr p \<Rightarrow> check_bytes8 m p v (bytes mod 8)))
        in if start mod 8 \<noteq> 0 then
             let pre = 8 - start mod 8 in
             rbind (check_bytes8 m start v pre) (\<lambda>r.
               case r of Some p \<Rightarrow> Inr (Some p) | None \<Rightarrow> tail (start + pre) (bytes - pre))
           else tail start bytes)"

section \<open>Bytes of a word\<close>

primrec le_val :: "byte list \<Rightarrow> int" where
  "le_val [] = 0"
| "le_val (b # bs) = uint b + 256 * le_val bs"

lemma le64_val: "le64 bs = word_of_int (le_val bs)"
  by (induction bs) (simp_all add: of_int_add of_int_mult flip: word_of_int_uint)

lemma bit_low: "j < 8 \<Longrightarrow> bit (x + 256 * z) j = bit x j" for x z :: int
proof -
  assume j: "j < 8"
  have "take_bit 8 (x + 256 * z) = take_bit 8 x" by (simp add: take_bit_eq_mod)
  then show ?thesis using j by (metis bit_take_bit_iff)
qed

lemma bit_high: "0 \<le> x \<Longrightarrow> x < 256 \<Longrightarrow> bit (x + 256 * z) (8 + n) = bit z n" for x z :: int
proof -
  assume x: "0 \<le> x" "x < 256"
  have "drop_bit 8 (x + 256 * z) = z" using x by (simp add: drop_bit_eq_div)
  then show ?thesis by (metis bit_drop_bit_eq o_apply)
qed

lemma uint_byte: "0 \<le> uint b" "uint b < 256" for b :: byte
  using uint_lt2p [of b] by simp_all

lemma le_val_bit: "i < length bs \<Longrightarrow> j < 8 \<Longrightarrow> bit (le_val bs) (8 * i + j) = bit (bs ! i) j"
proof (induction bs arbitrary: i)
  case (Cons b bs)
  show ?case
  proof (cases i)
    case 0
    then show ?thesis using Cons.prems bit_low [of j "uint b" "le_val bs"] by (simp add: bit_uint_iff)
  next
    case (Suc k)
    have e: "8 * i + j = 8 + (8 * k + j)" using Suc by simp
    have "bit (le_val (b # bs)) (8 * i + j) = bit (le_val bs) (8 * k + j)"
      unfolding e le_val.simps by (rule bit_high [OF uint_byte])
    then show ?thesis using Suc Cons by simp
  qed
qed simp

lemma le64_bit: "i < length bs \<Longrightarrow> j < 8 \<Longrightarrow> length bs = 8 \<Longrightarrow> bit (le64 bs) (8 * i + j) = bit (bs ! i) j"
  by (simp add: le64_val bit_word_of_int_iff le_val_bit)

lemma bytes64_le64: "length bs = 8 \<Longrightarrow> bytes64 (le64 bs) = bs"
  by (intro nth_equalityI bit_eqI)
    (auto simp: bytes64_def bit_unsigned_iff bit_drop_bit_eq le64_bit)

lemma le_val_sub_bit:
  assumes "i < length bs" and "j < 8" and "\<forall>k < i. bs ! k \<noteq> 0"
  shows "bit (le_val bs - le_val (replicate (length bs) 1)) (8 * i + j) = bit (uint (bs ! i) - 1) j"
  using assms
proof (induction bs arbitrary: i)
  case (Cons b bs)
  let ?z = "le_val bs - le_val (replicate (length bs) 1)"
  have e: "le_val (b # bs) - le_val (replicate (length (b # bs)) 1) = (uint b - 1) + 256 * ?z"
    by (simp add: algebra_simps)
  show ?case
  proof (cases i)
    case 0
    then show ?thesis using bit_low [OF Cons.prems(2), of "uint b - 1" ?z] unfolding e by simp
  next
    case (Suc k)
    have "b \<noteq> 0" using Cons.prems(3) Suc by force
    then have "0 \<le> uint b - 1" "uint b - 1 < 256" using uint_byte [of b] by (simp_all add: uint_0_iff less_le)
    note h = bit_high [OF this, of ?z "8 * k + j"]
    have "\<forall>l < k. bs ! l \<noteq> 0" using Cons.prems(3) Suc by force
    then have "bit ?z (8 * k + j) = bit (uint (bs ! k) - 1) j" using Cons Suc by simp
    then have "bit ((uint b - 1) + 256 * ?z) (8 + (8 * k + j)) = bit (uint (bs ! k) - 1) j" using h by (rule trans [rotated])
    moreover have "8 * i + j = 8 + (8 * k + j)" using Suc by simp
    ultimately show ?thesis unfolding e using Suc by (simp only: nth_Cons_Suc)
  qed
qed simp


section \<open>The search for a zero byte\<close>

lemma word_constants:
  "one_bits WORD_AT_A_TIME_CONSTANTS = le64 (replicate 8 1)"
  "high_bits WORD_AT_A_TIME_CONSTANTS = le64 (replicate 8 0x80)"
  by code_simp+

lemma byte_minus_1:
  "bit (uint b - 1) 7 \<and> \<not> bit b 7 \<longleftrightarrow> b = 0" for b :: byte
proof (cases "b = 0")
  case False
  then have "uint b \<noteq> 0" by (simp add: uint_0_iff)
  then have r: "1 \<le> uint b" "uint b < 256" using uint_byte [of b] by linarith+
  have b7: "bit x 7 \<longleftrightarrow> 128 \<le> x" if "0 \<le> x" "x < 256" for x :: int
  proof -
    have "x div 128 = 0 \<or> x div 128 = 1" "x div 128 = 0 \<longleftrightarrow> x < 128" using that by (auto simp: zdiv_eq_0_iff)
    then show ?thesis by (auto simp: bit_iff_odd)
  qed
  have "bit (uint b - 1) 7 \<longleftrightarrow> 128 \<le> uint b - 1" "bit b 7 \<longleftrightarrow> 128 \<le> uint b"
    using r b7 [of "uint b - 1"] b7 [of "uint b"] by (simp_all add: bit_uint_iff)
  then show ?thesis using False by simp
qed simp

lemma byte_position: "n < 64 \<Longrightarrow> \<exists>i j. n = 8 * i + j \<and> i < 8 \<and> j < 8" for n :: nat
  by (intro exI [of _ "n div 8"] exI [of _ "n mod 8"]) auto

lemma has_zero_bit:
  assumes "length bs = 8" and "i < 8" and "j < 8" and "\<forall>k < i. bs ! k \<noteq> 0"
  shows "bit (has_zero (le64 bs) WORD_AT_A_TIME_CONSTANTS) (8 * i + j) \<longleftrightarrow> j = 7 \<and> bs ! i = 0"
proof -
  let ?ones = "replicate 8 (1 :: byte)"
  have n: "8 * i + j < 64" using assms(2,3) by simp
  have "bit (le64 bs - le64 ?ones) (8 * i + j) = bit (uint (bs ! i) - 1) j"
    using le_val_sub_bit [of i bs j] assms n
    by (simp add: le64_val bit_word_of_int_iff flip: of_int_diff)
  moreover have "bit (le64 (replicate 8 0x80)) (8 * i + j) = (j = 7)"
  proof -
    have "bit (0x80 :: byte) j \<longleftrightarrow> j = 7" using bit_exp_iff [of 7 j, where 'a = byte] by auto
    then show ?thesis using le64_bit [of i "replicate 8 0x80" j] assms(2,3) by simp
  qed
  moreover have "bit (le64 bs) (8 * i + j) = bit (bs ! i) j" using le64_bit [of i bs j] assms by simp
  ultimately show ?thesis
    using byte_minus_1 [of "bs ! i"] n by (auto simp: has_zero_def word_constants bit_and_iff bit_not_iff)
qed

lemma has_zero_none:
  assumes "length bs = 8" and "0 \<notin> set bs"
  shows "has_zero (le64 bs) WORD_AT_A_TIME_CONSTANTS = 0"
proof (rule bit_eqI)
  fix n assume "possible_bit TYPE(64 word) n"
  then obtain i j where n: "n = 8 * i + j" "i < 8" "j < 8" using byte_position [of n] by auto
  have "\<forall>k < 8. bs ! k \<noteq> 0" using assms by (metis nth_mem)
  then show "bit (has_zero (le64 bs) WORD_AT_A_TIME_CONSTANTS) n = bit 0 n"
    using has_zero_bit [OF assms(1) n(2,3)] n by simp
qed

lemma lowest_bit_mask:
  fixes w :: "64 word"
  assumes "p < 64" and "bit w p" and "\<forall>q < p. \<not> bit w q"
  shows "(w - 1) AND NOT w = mask p"
proof -
  let ?h = "w AND NOT (mask (Suc p))"
  have "w = ?h OR push_bit p 1"
    using assms by (intro bit_eqI) (auto simp: bit_or_iff bit_and_iff bit_not_iff bit_mask_iff bit_push_bit_iff
      bit_1_iff less_Suc_eq bit_exp_iff not_less le_less)
  also have "\<dots> = ?h + push_bit p 1"
    by (rule disjunctive_add [symmetric]) (auto simp: bit_and_iff bit_not_iff bit_mask_iff bit_push_bit_iff bit_1_iff bit_exp_iff)
  finally have "w - 1 = ?h + mask p" by (simp add: mask_eq_exp_minus_1)
  also have "\<dots> = ?h OR mask p"
    by (rule disjunctive_add) (auto simp: bit_and_iff bit_not_iff bit_mask_iff)
  finally have m: "w - 1 = ?h OR mask p" .
  show ?thesis unfolding m using assms
    by (intro bit_eqI) (auto simp: bit_or_iff bit_and_iff bit_not_iff bit_mask_iff)
qed

lemma fls64_mask: "n < 64 \<Longrightarrow> fls64 (mask n) = n"
proof (cases n)
  case 0
  then show ?thesis by (simp add: fls64_def)
next
  case (Suc k)
  assume n: "n < 64"
  have "bit (mask n :: 64 word) 0" using Suc by (simp add: bit_mask_iff)
  then have nz: "mask n \<noteq> (0 :: 64 word)" by (metis bit_0_eq bot_apply bot_bool_def)
  note f = fls0_ok [OF nz]
  have "fls0 (mask n) < n" using f(2) by (simp add: bit_mask_iff)
  moreover have "\<not> fls0 (mask n) < k" using f(3) [of k] n Suc by (auto simp: bit_mask_iff)
  ultimately show ?thesis using nz Suc by (simp add: fls64_def)
qed

lemma has_zero_first:
  assumes "length bs = 8" and "k < 8" and "bs ! k = 0" and "\<forall>i < k. bs ! i \<noteq> 0"
  defines "data \<equiv> has_zero (le64 bs) WORD_AT_A_TIME_CONSTANTS"
  shows "data \<noteq> 0" and "create_zero_mask data = mask (8 * k)" and "find_zero (create_zero_mask data) = k"
    and "bytes64 (le64 bs AND create_zero_mask data) = take k bs @ replicate (8 - k) 0"
proof -
  have hit: "bit data (8 * k + 7)" using has_zero_bit [OF assms(1,2) _ assms(4), of 7] assms(3) by (simp add: data_def)
  then show "data \<noteq> 0" by auto
  have low: "\<not> bit data q" if q: "q < 8 * k + 7" for q
  proof -
    obtain i j where n: "q = 8 * i + j" "i < 8" "j < 8" using byte_position [of q] q assms(2) by auto
    have "\<forall>l < i. bs ! l \<noteq> 0" using assms(4) n q by auto
    then show ?thesis using has_zero_bit [OF assms(1) n(2,3)] n q assms(4) by (auto simp: data_def)
  qed
  have "(data - 1) AND NOT data = mask (8 * k + 7)"
    using hit low assms(2) by (intro lowest_bit_mask) auto
  then have "create_zero_mask data = drop_bit 7 (mask (8 * k + 7))" by (simp add: create_zero_mask_def)
  also have "\<dots> = mask (8 * k)"
    using assms(2) by (intro bit_eqI) (auto simp: bit_drop_bit_eq bit_mask_iff)
  finally show c: "create_zero_mask data = mask (8 * k)" .
  show "find_zero (create_zero_mask data) = k"
    using assms(2) by (simp add: c find_zero_def fls64_mask)
  show "bytes64 (le64 bs AND create_zero_mask data) = take k bs @ replicate (8 - k) 0"
  proof (rule nth_equalityI)
    show "length (bytes64 (le64 bs AND create_zero_mask data)) = length (take k bs @ replicate (8 - k) 0)"
      using assms(1,2) by (simp add: bytes64_def)
    fix i assume "i < length (bytes64 (le64 bs AND create_zero_mask data))"
    then have i: "i < 8" by (simp add: bytes64_def)
    show "bytes64 (le64 bs AND create_zero_mask data) ! i = (take k bs @ replicate (8 - k) 0) ! i"
    proof (rule bit_eqI)
      fix j assume "possible_bit TYPE(byte) j"
      then have j: "j < 8" by simp
      have "bit (bytes64 (le64 bs AND create_zero_mask data) ! i) j \<longleftrightarrow> bit (bs ! i) j \<and> 8 * i + j < 8 * k"
        using i j assms(1) le64_bit [of i bs j]
        by (simp add: bytes64_def bit_unsigned_iff bit_drop_bit_eq bit_and_iff c bit_mask_iff)
      also have "8 * i + j < 8 * k \<longleftrightarrow> i < k" using j by linarith
      finally show "bit (bytes64 (le64 bs AND create_zero_mask data) ! i) j =
          bit ((take k bs @ replicate (8 - k) 0) ! i) j"
        using i assms(1,2) by (auto simp: nth_append)
    qed
  qed
qed

section \<open>Copying with a limit\<close>

text \<open>
  Source and destination of at most \<open>n\<close> bytes each, inside memory and apart from each other.
\<close>

definition apart :: "mem \<Rightarrow> nat \<Rightarrow> nat \<Rightarrow> nat \<Rightarrow> bool" where
  "apart m dest src n \<longleftrightarrow> dest + n \<le> length m \<and> src + n \<le> length m \<and> (dest + n \<le> src \<or> src + n \<le> dest)"

lemma apart_nth:
  "apart m dest src n \<Longrightarrow> length bs \<le> n \<Longrightarrow> i < n \<Longrightarrow> put m dest bs ! (src + i) = m ! (src + i)"
  by (auto simp: apart_def put_nth)

lemma apart_take:
  assumes "apart m dest src n" and "length bs \<le> n" and "r + 8 \<le> n"
  shows "take 8 (drop (src + r) (put m dest bs)) = take 8 (drop (src + r) m)"
proof (rule nth_equalityI)
  show "length (take 8 (drop (src + r) (put m dest bs))) = length (take 8 (drop (src + r) m))"
    using assms by (simp add: apart_def)
  fix i assume "i < length (take 8 (drop (src + r) (put m dest bs)))"
  then have "i < 8" by simp
  then show "take 8 (drop (src + r) (put m dest bs)) ! i = take 8 (drop (src + r) m) ! i"
    using assms apart_nth [OF assms(1,2), of "r + i"] by (simp add: apart_def add.assoc)
qed

lemma strscpy_bytes_ok:
  assumes "is_str m src s" and "apart m dest src n" and "0 < n"
  shows "r \<le> length s \<Longrightarrow> r + count = n \<Longrightarrow>
    strscpy_bytes count (put m dest (take r s)) dest src r =
      (if length s < n then Inr (int (length s), put m dest (s @ [0]))
       else Inr (- E2BIG, put m dest (take (n - 1) s @ [0])))"
proof (induction count arbitrary: r)
  case 0
  then have r: "r = n" "n \<le> length s" by simp_all
  obtain k where k: "n = Suc k" using assms(3) by (cases n) simp_all
  have "take n s = take k s @ [s ! k]" using r k by (simp add: take_Suc_conv_app_nth)
  then have "put m dest (take n s) = (put m dest (take k s))[dest + k := s ! k]"
    using put_update [of dest "take k s" m "s ! k"] assms(2) r k by (simp add: apart_def)
  then have "(put m dest (take n s))[dest + k := 0] = put m dest (take k s @ [0])"
    using put_update [of dest "take k s" m 0] assms(2) r k by (simp add: apart_def)
  then show ?case using r k assms(2) by (simp add: apart_def)
next
  case (Suc count)
  have r: "r < n" using Suc.prems by simp
  have bound: "src + length s < length m" using is_str_bound [OF assms(1)] .
  have read: "put m dest (take r s) ! (src + r) = m ! (src + r)"
    using apart_nth [OF assms(2), of "take r s" r] r Suc.prems by simp
  have len: "length (put m dest (take r s)) = length m" using assms(2) r Suc.prems by (simp add: apart_def)
  have fit: "src + r < length m" "dest + r < length m" using assms(2) r by (simp_all add: apart_def)
  have upd: "(put m dest (take r s))[dest + r := c] = put m dest (take r s @ [c])" for c
    using put_update [of dest "take r s" m c] fit Suc.prems(1) by simp
  show ?case
  proof (cases "r = length s")
    case True
    then have "m ! (src + r) = 0" using is_str_end [OF assms(1)] by simp
    then show ?thesis using True read len fit upd r by simp
  next
    case False
    then have lt: "r < length s" using Suc.prems by simp
    have c: "m ! (src + r) = s ! r" using is_str_nth [OF assms(1) lt] .
    have nz: "s ! r \<noteq> 0" using is_str_no_zero [OF assms(1)] lt nth_mem by metis
    have "take r s @ [s ! r] = take (Suc r) s" using lt by (simp add: take_Suc_conv_app_nth)
    then show ?thesis using Suc.IH [of "Suc r"] Suc.prems lt c nz read len fit upd by simp
  qed
qed

lemma eight_bytes:
  assumes "is_str m src s" and "r \<le> length s" and "src + r + 8 \<le> length m"
  defines "bs \<equiv> take 8 (drop (src + r) m)"
  shows "length bs = 8" and "r + 8 \<le> length s \<Longrightarrow> bs = take 8 (drop r s) \<and> 0 \<notin> set bs"
    and "length s < r + 8 \<Longrightarrow> bs ! (length s - r) = 0 \<and> (\<forall>i < length s - r. bs ! i \<noteq> 0) \<and> take (length s - r) bs = drop r s"
proof -
  show len: "length bs = 8" using assms(3) by (simp add: bs_def)
  have nth: "bs ! i = m ! (src + (r + i))" if "i < 8" for i
    using that assms(3) by (simp add: bs_def add.assoc)
  have str: "m ! (src + (r + i)) = s ! (r + i) \<and> s ! (r + i) \<noteq> 0" if "r + i < length s" for i
    using is_str_nth [OF assms(1) that] is_str_no_zero [OF assms(1)] that nth_mem [of "r + i" s] by metis
  show "bs = take 8 (drop r s) \<and> 0 \<notin> set bs" if "r + 8 \<le> length s"
  proof
    show e: "bs = take 8 (drop r s)"
      by (rule nth_equalityI) (use len nth str that in auto)
    show "0 \<notin> set bs" unfolding e using is_str_no_zero [OF assms(1)] by (meson in_set_dropD in_set_takeD)
  qed
  show "bs ! (length s - r) = 0 \<and> (\<forall>i < length s - r. bs ! i \<noteq> 0) \<and> take (length s - r) bs = drop r s"
    if lt: "length s < r + 8"
  proof (intro conjI allI impI)
    show "bs ! (length s - r) = 0" using nth [of "length s - r"] is_str_end [OF assms(1)] assms(2) lt by simp
    show "bs ! i \<noteq> 0" if "i < length s - r" for i using that nth [of i] str [of i] lt by simp
    show "take (length s - r) bs = drop r s"
      by (rule nth_equalityI) (use len nth str lt in auto)
  qed
qed

lemma strscpy_words_ok:
  assumes "is_str m src s" and "apart m dest src n"
  shows "r \<le> length s \<Longrightarrow> r + count = n \<Longrightarrow> mx \<le> count \<Longrightarrow>
    \<exists>out m'. strscpy_words (put m dest (take r s)) dest src r count mx = Inr (out, m') \<and>
      (case out of
         Inl k \<Rightarrow> k = length s \<and> length s < n \<and> (\<exists>p. 0 < p \<and> length s + p \<le> n \<and> m' = put m dest (s @ replicate p 0))
       | Inr (r', count') \<Rightarrow> r' \<le> length s \<and> r' + count' = n \<and> m' = put m dest (take r' s))"
proof (induction mx arbitrary: r count rule: less_induct)
  case (less mx)
  let ?m = "put m dest (take r s)"
  show ?case
  proof (cases "8 \<le> mx")
    case False
    then show ?thesis using less.prems by (subst strscpy_words.simps) auto
  next
    case True
    define bs where "bs = take 8 (drop (src + r) m)"
    have room: "src + r + 8 \<le> length m" "dest + r + 8 \<le> length m" "r + 8 \<le> n"
      using assms(2) less.prems True by (simp_all add: apart_def)
    note e = eight_bytes [OF assms(1) less.prems(1) room(1), folded bs_def]
    have len: "length ?m = length m" "length (take r s) = r" using room less.prems(1) by simp_all
    have read: "rd64 ?m (src + r) = Inr (le64 bs)"
      using room len apart_take [OF assms(2), of "take r s" r] by (simp add: rd64_def bs_def)
    have store: "wr64 ?m (dest + r) w = Inr (put m dest (take r s @ bytes64 w))" for w
      using room len put_put [of dest "take r s" "bytes64 w" m] by (simp add: wr64_def bytes64_def)
    show ?thesis
    proof (cases "r + 8 \<le> length s")
      case long: True
      have nz: "has_zero (le64 bs) WORD_AT_A_TIME_CONSTANTS = 0"
        by (rule has_zero_none [OF e(1) conjunct2 [OF e(2) [OF long]]])
      have "take r s @ bytes64 (le64 bs) = take (r + 8) s"
        using e(1,2) long by (simp add: bytes64_le64 take_add)
      then have step: "strscpy_words ?m dest src r count mx =
          strscpy_words (put m dest (take (r + 8) s)) dest src (r + 8) (count - 8) (mx - 8)"
        using True read store nz by (subst strscpy_words.simps) (simp add: Let_def)
      show ?thesis unfolding step
        by (rule less.IH) (use True long less.prems in auto)
    next
      case short: False
      let ?k = "length s - r"
      have k: "?k < 8" "length s < r + 8" using short less.prems(1) by simp_all
      note z = e(3) [OF k(2)]
      note h = has_zero_first [OF e(1) k(1) conjunct1 [OF z] conjunct1 [OF conjunct2 [OF z]]]
      have b: "take r s @ (take ?k bs @ replicate (8 - ?k) 0) = s @ replicate (8 - ?k) 0"
        using z by (simp flip: append_assoc)
      have "strscpy_words ?m dest src r count mx = Inr (Inl (r + ?k), put m dest (s @ replicate (8 - ?k) 0))"
      proof -
        have "wr64 ?m (dest + r) (le64 bs AND create_zero_mask (has_zero (le64 bs) WORD_AT_A_TIME_CONSTANTS)) =
            Inr (put m dest (s @ replicate (8 - ?k) 0))"
          by (simp only: store h(4) b)
        then show ?thesis using True read h(1,3) by (subst strscpy_words.simps) (simp add: Let_def)
      qed
      then show ?thesis using k less.prems room by (auto intro!: exI [of _ "8 - ?k"])
    qed
  qed
qed

lemma strscpy_ok:
  assumes "is_str m src s" and "apart m dest src n" and "0 < n"
  shows "\<exists>m'. strscpy m dest src n = Inr (if length s < n then int (length s) else - E2BIG, m') \<and>
    is_str m' dest (take (n - 1) s) \<and> length m' = length m \<and>
    (\<forall>i < length m. i < dest \<or> dest + n \<le> i \<longrightarrow> m' ! i = m ! i)"
proof -
  define mx where "mx = (if src mod 8 \<noteq> 0 \<and> PAGE_SIZE - src mod PAGE_SIZE < n then PAGE_SIZE - src mod PAGE_SIZE else n)"
  have mx: "mx \<le> n" by (simp add: mx_def)
  have z: "0 \<notin> set s" using is_str_no_zero [OF assms(1)] .
  have put0: "put m dest (take 0 s) = m" by (simp add: put_def)
  have frame: "length (put m dest bs) = length m \<and> (\<forall>i < length m. i < dest \<or> dest + n \<le> i \<longrightarrow> put m dest bs ! i = m ! i)"
    if "length bs \<le> n" for bs using that assms(2) by (auto simp: apart_def put_nth)
  have str: "is_str (put m dest (t @ 0 # u)) dest t" if "0 \<notin> set t" "length t + length u < n" for t u
  proof -
    have "put m dest (t @ 0 # u) = put (put m dest (t @ 0 # u)) dest (t @ [0])"
      using that assms(2) by (auto simp: put_def apart_def)
    moreover have "is_str (put (put m dest (t @ 0 # u)) dest (t @ [0])) dest t"
      using that assms(2) by (intro put_is_str) (simp_all add: apart_def)
    ultimately show ?thesis by simp
  qed
  obtain out m' where w: "strscpy_words m dest src 0 n mx = Inr (out, m')"
    and c: "case out of
         Inl k \<Rightarrow> k = length s \<and> length s < n \<and> (\<exists>p. 0 < p \<and> length s + p \<le> n \<and> m' = put m dest (s @ replicate p 0))
       | Inr (r', count') \<Rightarrow> r' \<le> length s \<and> r' + count' = n \<and> m' = put m dest (take r' s)"
    using strscpy_words_ok [OF assms(1,2) _ _ mx, of 0] unfolding put0 by auto
  have call: "strscpy m dest src n =
      (case out of Inl k \<Rightarrow> Inr (int k, m') | Inr (r, count') \<Rightarrow> strscpy_bytes count' m' dest src r)"
    using assms(3) w by (simp add: strscpy_def Let_def mx_def)
  show ?thesis
  proof (cases out)
    case (Inl k)
    then obtain p where p: "k = length s" "length s < n" "0 < p" "length s + p \<le> n" "m' = put m dest (s @ replicate p 0)"
      using c by auto
    obtain q where q: "p = Suc q" using p(3) by (cases p) simp_all
    have "is_str m' dest s" using str [OF z, of "replicate q 0"] p q by (simp add: replicate_app_Cons_same)
    then show ?thesis using call Inl p frame [of "s @ replicate p 0"] by simp
  next
    case (Inr rc)
    then obtain r count' where rc: "rc = (r, count')" "r \<le> length s" "r + count' = n" "m' = put m dest (take r s)"
      using c by (cases rc) auto
    have b: "strscpy m dest src n = (if length s < n then Inr (int (length s), put m dest (s @ [0]))
       else Inr (- E2BIG, put m dest (take (n - 1) s @ [0])))"
      using call Inr rc strscpy_bytes_ok [OF assms rc(2,3)] by simp
    show ?thesis
    proof (cases "length s < n")
      case True
      then show ?thesis using b str [OF z, of "[]"] frame [of "s @ [0]"] by simp
    next
      case False
      have "0 \<notin> set (take (n - 1) s)" using z by (meson in_set_takeD)
      then show ?thesis using False b str [of "take (n - 1) s" "[]"] frame [of "take (n - 1) s @ [0]"] assms(3) by simp
    qed
  qed
qed


section \<open>The first byte that differs\<close>

definition first_other :: "byte \<Rightarrow> byte list \<Rightarrow> nat option" where
  "first_other v bs = (let i = length (takeWhile (\<lambda>x. x = v) bs) in if i < length bs then Some i else None)"

lemma first_other_None: "first_other v xs = None \<longleftrightarrow> (\<forall>x \<in> set xs. x = v)"
  by (induction xs) (auto simp: first_other_def Let_def)

lemma first_other_append:
  "first_other v (xs @ ys) =
     (case first_other v xs of Some i \<Rightarrow> Some i | None \<Rightarrow> map_option (\<lambda>i. length xs + i) (first_other v ys))"
proof (induction xs)
  case (Cons x xs)
  then show ?case by (auto simp: first_other_def Let_def split: if_splits)
qed (simp add: first_other_def Let_def)

lemma first_other_same: "first_other v (replicate n v) = None"
  by (simp add: first_other_def Let_def)

lemma check_bytes8_ok:
  "a + n \<le> length m \<Longrightarrow> check_bytes8 m a v n = Inr (map_option (\<lambda>i. a + i) (first_other v (take n (drop a m))))"
proof (induction n arbitrary: a)
  case 0
  then show ?case by (simp add: first_other_def)
next
  case (Suc n)
  have t: "take (Suc n) (drop a m) = [m ! a] @ take n (drop (Suc a) m)"
    using Suc.prems by (simp add: Cons_nth_drop_Suc [symmetric])
  have h: "first_other v [m ! a] = (if m ! a = v then None else Some 0)" by (simp add: first_other_def)
  show ?case
    using Suc unfolding t first_other_append h by (simp add: option.map_comp comp_def)
qed

lemma le64_inj: "length xs = 8 \<Longrightarrow> length ys = 8 \<Longrightarrow> le64 xs = le64 ys \<longleftrightarrow> xs = ys"
  by (metis bytes64_le64)

lemma le64_repeat: "ucast v * 0x0101010101010101 = le64 (replicate 8 v)"
proof -
  have r: "replicate 8 v = [v, v, v, v, v, v, v, v]" by (simp add: numeral_eq_Suc)
  show ?thesis unfolding r le64.simps by (simp add: algebra_simps)
qed

lemma take_add_drop: "take (x + y) (drop a m) = take x (drop a m) @ take y (drop (a + x) m)"
  by (simp add: take_add add.commute)

lemma memchr_inv_words_ok:
  "a + 8 * n \<le> length m \<Longrightarrow> memchr_inv_words n m a v (le64 (replicate 8 v)) =
     (case first_other v (take (8 * n) (drop a m)) of
        Some i \<Rightarrow> Inr (Inl (Some (a + i))) | None \<Rightarrow> Inr (Inr (a + 8 * n)))"
proof (induction n arbitrary: a)
  case 0
  then show ?case by (simp add: first_other_def)
next
  case (Suc n)
  let ?b = "take 8 (drop a m)"
  have "8 * Suc n = 8 + 8 * n" by simp
  then have t: "take (8 * Suc n) (drop a m) = ?b @ take (8 * n) (drop (a + 8) m)" by (simp only: take_add_drop)
  have len: "length ?b = 8" using Suc.prems by simp
  have rd: "rd64 m a = Inr (le64 ?b)" using Suc.prems by (simp add: rd64_def)
  show ?case
  proof (cases "?b = replicate 8 v")
    case True
    then have "first_other v ?b = None" by (simp add: first_other_same)
    then show ?thesis using Suc rd True unfolding t first_other_append by (simp split: option.splits)
  next
    case False
    have "?b = replicate 8 v" if "first_other v ?b = None"
      by (rule replicate_eqI) (use len that first_other_None [of v ?b] in auto)
    then obtain i where i: "first_other v ?b = Some i" using False by (cases "first_other v ?b") auto
    have "le64 ?b \<noteq> le64 (replicate 8 v)" using False le64_inj [OF len, of "replicate 8 v"] by simp
    moreover have "check_bytes8 m a v 8 = Inr (Some (a + i))" using check_bytes8_ok [of a 8 m v] Suc.prems i by simp
    ultimately show ?thesis using rd i unfolding t first_other_append by simp
  qed
qed

lemma memchr_inv_ok:
  assumes "a + n \<le> length m" and "n < 2 ^ 35"
  shows "memchr_inv m a v n = Inr (map_option (\<lambda>i. a + i) (first_other v (take n (drop a m))))"
proof -
  define tail where "tail start bytes =
      rbind (memchr_inv_words (bytes div 8 mod 2 ^ 32) m start v (le64 (replicate 8 v))) (\<lambda>out.
        case out of Inl r \<Rightarrow> Inr r | Inr p \<Rightarrow> check_bytes8 m p v (bytes mod 8))" for start bytes
  have tail: "tail b k = Inr (map_option (\<lambda>i. b + i) (first_other v (take k (drop b m))))"
    if "b + k \<le> length m" "k < 2 ^ 35" for b k
  proof -
    have w: "k div 8 mod 2 ^ 32 = k div 8" using that(2) by simp
    have k: "8 * (k div 8) + k mod 8 = k" by simp
    have e: "first_other v (take k (drop b m)) = (case first_other v (take (8 * (k div 8)) (drop b m)) of
        Some i \<Rightarrow> Some i
      | None \<Rightarrow> map_option (\<lambda>i. 8 * (k div 8) + i) (first_other v (take (k mod 8) (drop (b + 8 * (k div 8)) m))))"
    proof -
      have "take k (drop b m) = take (8 * (k div 8)) (drop b m) @ take (k mod 8) (drop (b + 8 * (k div 8)) m)"
        using take_add_drop [of "8 * (k div 8)" "k mod 8" b m] unfolding k .
      moreover have "length (take (8 * (k div 8)) (drop b m)) = 8 * (k div 8)" using that(1) k by simp
      ultimately show ?thesis by (simp only: first_other_append)
    qed
    have "b + 8 * (k div 8) \<le> length m" "b + 8 * (k div 8) + k mod 8 \<le> length m" using that(1) k by linarith+
    then show ?thesis
      using memchr_inv_words_ok [of b "k div 8" m v] check_bytes8_ok [of "b + 8 * (k div 8)" "k mod 8" m v]
      unfolding tail_def w e by (auto simp: option.map_comp comp_def add.assoc split: option.splits)
  qed
  show ?thesis
  proof (cases "n \<le> 16")
    case True
    then show ?thesis using check_bytes8_ok [OF assms(1)] by (simp add: memchr_inv_def)
  next
    case False
    define pre where "pre = 8 - a mod 8"
    have call: "memchr_inv m a v n = (if a mod 8 \<noteq> 0 then
        rbind (check_bytes8 m a v pre) (\<lambda>r. case r of Some p \<Rightarrow> Inr (Some p) | None \<Rightarrow> tail (a + pre) (n - pre))
        else tail a n)"
      using False unfolding memchr_inv_def tail_def pre_def le64_repeat Let_def by simp
    have p: "pre \<le> n" "a + pre \<le> length m" "a + pre + (n - pre) \<le> length m" "n - pre < 2 ^ 35"
      using False assms by (simp_all add: pre_def)
    have "take n (drop a m) = take pre (drop a m) @ take (n - pre) (drop (a + pre) m)"
      using take_add_drop [of pre "n - pre" a m] p(1) by simp
    moreover have "length (take pre (drop a m)) = pre" using p(2) by simp
    ultimately have e: "first_other v (take n (drop a m)) = (case first_other v (take pre (drop a m)) of
        Some i \<Rightarrow> Some i | None \<Rightarrow> map_option (\<lambda>i. pre + i) (first_other v (take (n - pre) (drop (a + pre) m))))"
      by (simp only: first_other_append)
    show ?thesis
    proof (cases "a mod 8 = 0")
      case True
      then show ?thesis using tail [OF assms] by (simp add: call)
    next
      case mis: False
      then show ?thesis
        using tail [OF p(3,4)] check_bytes8_ok [OF p(2), of v] unfolding call e
        by (auto simp: option.map_comp comp_def add.assoc split: option.splits)
    qed
  qed
qed

end
