(* ===== verification/Strings_Properties.thy ===== *)
theory Strings_Properties
  imports Strings_Word
begin

text \<open>
  The properties of the string and memory routines, and a concrete memory on which each applies.
  The witness memory holds the strings ``key=val'' at 0, ``='' at 8, ``vAl'' at 10 and free space.
\<close>

definition demo_mem :: mem where
  "demo_mem = [107, 101, 121, 61, 118, 97, 108, 0, 61, 0, 118, 65, 108, 0] @ replicate 18 0xAA"

lemma demo_strings:
  "is_str demo_mem 0 [107, 101, 121, 61, 118, 97, 108]" "is_str demo_mem 4 [118, 97, 108]"
  "is_str demo_mem 8 [61]" "is_str demo_mem 10 [118, 65, 108]" "length demo_mem = 32"
  by code_simp+

text \<open>
  C19: The comparisons order two strings by the unsigned value of their characters: strcmp returns
  -1, 0 or 1, strncmp does it for the first n characters, strcasecmp and strncasecmp return a
  number of that sign for the strings in lower case, and memcmp for areas of memory.
\<close>
theorem string_comparisons:
  assumes "is_str m a s" and "is_str m b t" and "a + n \<le> length m" and "b + n \<le> length m"
  shows "strcmp m a b = Inr (str_cmp s t) \<and> (str_cmp s t = 0 \<longleftrightarrow> s = t) \<and>
    (str_cmp s t = - 1 \<longleftrightarrow> ord_class.lexordp s t) \<and> str_cmp t s = - str_cmp s t \<and>
    strncmp m a b n = Inr (str_cmp (take n s) (take n t)) \<and>
    map_sum id sgn (strcasecmp m a b) = Inr (str_cmp (map tolower s) (map tolower t)) \<and>
    map_sum id sgn (strncasecmp m a b n) = Inr (str_cmp (map tolower (take n s)) (map tolower (take n t))) \<and>
    map_sum id sgn (memcmp m a b n) = Inr (str_cmp (take n (drop a m)) (take n (drop b m)))"
proof -
  have "map_sum id sgn (strncasecmp m a b n) = Inr (str_cmp (map tolower (take n s)) (map tolower (take n t)))"
    using strncasecmp_loop_ok [OF assms(1,2), of n] by (cases "n = 0") (auto simp: strncasecmp_def)
  then show ?thesis
    using strcasecmp_ok [OF assms(1,2)] memcmp_0 [OF assms(3,4)] assms(1,2)
    by (auto simp: strcmp_ok strncmp_ok str_cmp_0 str_cmp_less str_cmp_anti [of t s])
qed

theorem string_comparisons_witness:
  "strcmp demo_mem 4 10 = Inr 1 \<and> map_sum id sgn (strcasecmp demo_mem 4 10) = Inr (0 :: int)"
proof -
  have "str_cmp [118, 97, 108] [118, 65, 108] = 1"
    "str_cmp (map tolower [118, 97, 108]) (map tolower [118, 65, 108]) = 0" by code_simp+
  then show ?thesis using string_comparisons [OF demo_strings(2,4), of 3] demo_strings(5) by simp
qed

text \<open>
  C20: The searches, on a string at \<open>a\<close> and a set of characters at \<open>b\<close>: the length, the first and
  last occurrence of a character, the span of characters in and outside the set, the first
  character of the set, and the first occurrence of the string at \<open>b\<close> as a substring.
\<close>
theorem string_searches:
  assumes "is_str m a s" and "is_str m b t"
  shows "strlen m a = Inr (length s) \<and> strnlen m a n = Inr (min (length s) n) \<and>
    strchr m a c = Inr (let i = length (takeWhile (\<lambda>x. x \<noteq> c) s) in if i < length s \<or> c = 0 then Some (a + i) else None) \<and>
    strrchr m a c = Inr (if c \<in> set (s @ [0]) then Some (a + length s - length (takeWhile (\<lambda>x. x \<noteq> c) (rev (s @ [0])))) else None) \<and>
    strspn m a b = Inr (length (takeWhile (\<lambda>x. x \<in> set t) s)) \<and>
    strcspn m a b = Inr (length (takeWhile (\<lambda>x. x \<notin> set t) s)) \<and>
    strpbrk m a b = Inr (let i = length (takeWhile (\<lambda>x. x \<notin> set t) s) in if i < length s then Some (a + i) else None) \<and>
    (case strstr m a b of Inl e \<Rightarrow> False
       | Inr None \<Rightarrow> \<not> sublist t s
       | Inr (Some p) \<Rightarrow> a \<le> p \<and> prefix t (drop (p - a) s) \<and> (\<forall>j < p - a. \<not> prefix t (drop j s)))"
proof -
  have "case strstr m a b of Inl e \<Rightarrow> False | Inr None \<Rightarrow> \<not> sublist t s
       | Inr (Some p) \<Rightarrow> a \<le> p \<and> prefix t (drop (p - a) s) \<and> (\<forall>j < p - a. \<not> prefix t (drop j s))"
    using find_sub_None [of t s] find_sub_Some [of t s]
    by (cases "find_sub t s") (auto simp: strstr_ok [OF assms])
  then show ?thesis
    using assms strnlen_loop_ok [OF assms(1), of n]
    by (simp add: strlen_ok strnlen_def strchr_ok strrchr_def strrchr_loop_ok strspn_def strspn_loop_ok
        strcspn_def strcspn_loop_ok strpbrk_ok)
qed

theorem string_searches_witness:
  "strlen demo_mem 0 = Inr 7 \<and> strcspn demo_mem 0 8 = Inr 3 \<and> strpbrk demo_mem 0 8 = Inr (Some 3)"
  using string_searches [OF demo_strings(1,3), of 0 0] by simp

text \<open>
  C21: memmove copies correctly however the areas overlap: the destination becomes the old contents
  of the source and nothing else changes.  memcpy does so when the destination does not start
  inside the source, and memset fills exactly its area.
\<close>
theorem memory_moves:
  assumes "dest + n \<le> length m" and "src + n \<le> length m"
  shows "memmove m dest src n = Inr (put m dest (take n (drop src m))) \<and>
    (dest \<le> src \<or> src + n \<le> dest \<longrightarrow> memcpy m dest src n = Inr (put m dest (take n (drop src m)))) \<and>
    memset m dest c n = Inr (put m dest (replicate n c))"
  using assms by (auto simp: memmove_ok memcpy_ok memset_ok arr_move_put [symmetric]) (simp add: put_def)

theorem memory_moves_witness:
  "memmove [1, 2, 3, 4, 5] 1 0 4 = Inr [1, 1, 2, 3, 4] \<and> memset [1, 2, 3, 4, 5] 1 9 4 = Inr [1, 9, 9, 9, 9]"
  using memory_moves [of 1 4 "[1, 2, 3, 4, 5]" 0 9] by (simp add: put_def numeral_eq_Suc)

text \<open>
  C22: What the copying routines write.  For a source string \<open>s\<close> and a destination that holds the
  string \<open>t\<close>, apart from each other and with room: strcpy copies with the NUL, strncpy pads with
  NULs and drops the NUL of a longer string, strlcpy and strlcat cut the string to the room and
  return the length wanted, strcat and strncat append; strlcat on a buffer that is already full
  is a BUG.
\<close>
theorem string_copies:
  assumes "is_str m src s" and "is_str m dest t" and "dest + length t + length s + n < length m"
    and "src + length s < dest \<or> dest + length t + length s + n < src" and "0 < n"
  shows "strcpy m dest src = Inr (dest, put m dest (s @ [0])) \<and>
    strncpy m dest src n = Inr (dest, put m dest (take n (s @ replicate n 0))) \<and>
    strlcpy m dest src n = Inr (length s, put m dest (take (n - 1) s @ [0])) \<and>
    strcat m dest src = Inr (dest, put m (dest + length t) (s @ [0])) \<and>
    strncat m dest src n = Inr (dest, put m (dest + length t) (take n s @ [0])) \<and>
    strlcat m dest src n =
      (if n \<le> length t then Inl Bug
       else Inr (length t + length s, put m (dest + length t) (take (n - length t - 1) s @ [0])))"
proof -
  have "strcpy m dest src = Inr (dest, put m dest (s @ [0]))"
    using strcpy_loop_ok [OF assms(1), of dest] assms(3,4) by (auto simp: strcpy_def)
  moreover have "strncpy m dest src n = Inr (dest, put m dest (take n (s @ replicate n 0)))"
    using strncpy_loop_ok [OF assms(1), of dest n] assms(3,4) by (auto simp: strncpy_def)
  moreover have "strlcpy m dest src n = Inr (length s, put m dest (take (n - 1) s @ [0]))"
    using strlcpy_ok [OF assms(1), of dest n] assms(3,4,5) by auto
  moreover have "strcat m dest src = Inr (dest, put m (dest + length t) (s @ [0]))"
    using assms(3,4) by (intro strcat_ok [OF assms(2,1)]) auto
  moreover have "strncat m dest src n = Inr (dest, put m (dest + length t) (take n s @ [0]))"
    using assms(3,4,5) by (intro strncat_ok [OF assms(2,1)]) auto
  moreover have "strlcat m dest src n = Inr (length t + length s, put m (dest + length t) (take (n - length t - 1) s @ [0]))"
    if "\<not> n \<le> length t" using that assms(3,4) by (intro strlcat_ok [OF assms(2,1)]) auto
  ultimately show ?thesis using strlcat_bug [OF assms(2,1)] by auto
qed

theorem string_copies_witness:
  "map_sum id fst (strlcpy demo_mem 10 0 5) = Inr 7 \<and>
   strlcat demo_mem 10 0 3 = Inl Bug \<and> strlcpy demo_mem 10 0 5 = Inr (7, put demo_mem 10 [107, 101, 121, 61, 0])"
  using string_copies [OF demo_strings(1,4), of 5] string_copies [OF demo_strings(1,4), of 3] demo_strings(5) by simp

text \<open>
  C23: strscpy, which copies eight bytes at a time and finds the NUL by arithmetic on the word,
  leaves in the destination the string cut to the size, always terminated, changes nothing outside
  the destination, and returns the length or -E2BIG when the string did not fit.
\<close>
theorem strscpy_bounded:
  assumes "is_str m src s" and "apart m dest src count" and "0 < count"
  shows "\<exists>m'. strscpy m dest src count = Inr (if length s < count then int (length s) else - E2BIG, m') \<and>
    is_str m' dest (take (count - 1) s) \<and> length m' = length m \<and>
    (\<forall>i < length m. i < dest \<or> dest + count \<le> i \<longrightarrow> m' ! i = m ! i)"
  using assms by (rule strscpy_ok)

theorem strscpy_bounded_witness:
  "map_sum id fst (strscpy demo_mem 14 0 9) = Inr 7 \<and> map_sum id fst (strscpy demo_mem 14 0 5) = Inr (- E2BIG)"
proof -
  have "apart demo_mem 14 0 9" "apart demo_mem 14 0 5" by (simp_all add: apart_def demo_strings(5))
  then show ?thesis
    using strscpy_bounded [OF demo_strings(1), of 14 9] strscpy_bounded [OF demo_strings(1), of 14 5] by auto
qed

text \<open>
  Strsep cuts the string at the first separator: the token before it and the rest after it are
  strings of the new memory; without a separator the whole string is the last token.  strim leaves
  the string without white space at both ends, and strreplace replaces every occurrence.
\<close>
lemma split_trim_replace:
  assumes "is_str m a s" and "is_str m b t"
  shows "(case strsep m (Some a) b of
       Inr (Some p, None, m') \<Rightarrow> p = a \<and> m' = m \<and> takeWhile (\<lambda>c. c \<notin> set t) s = s
     | Inr (Some p, Some q, m') \<Rightarrow> p = a \<and> is_str m' p (takeWhile (\<lambda>c. c \<notin> set t) s) \<and>
         is_str m' q (tl (dropWhile (\<lambda>c. c \<notin> set t) s))
     | _ \<Rightarrow> False) \<and>
    (case strim m a of
       Inr (p, m') \<Rightarrow> is_str m' p (dropWhile isspace (rev (dropWhile isspace (rev s)))) | _ \<Rightarrow> False) \<and>
    strreplace m a old new = Inr (a + length s, put m a (map (\<lambda>c. if c = old then new else c) s))"
proof -
  let ?P = "\<lambda>c. c \<notin> set t"
  let ?i = "length (takeWhile ?P s)"
  have d: "drop (?i + 1) s = tl (dropWhile ?P s)" by (simp add: dropWhile_eq_drop drop_Suc tl_drop)
  have "case strsep m (Some a) b of
       Inr (Some p, None, m') \<Rightarrow> p = a \<and> m' = m \<and> takeWhile ?P s = s
     | Inr (Some p, Some q, m') \<Rightarrow> p = a \<and> is_str m' p (takeWhile ?P s) \<and> is_str m' q (tl (dropWhile ?P s))
     | _ \<Rightarrow> False"
  proof (cases "?i < length s")
    case True
    then show ?thesis using strsep_ok [OF assms] d by simp
  next
    case False
    then have "takeWhile ?P s = s" using takeWhile_eq_take [of ?P s] by simp
    moreover have "strsep m (Some a) b = Inr (Some a, None, m)" using strsep_ok(1) [OF assms] False by simp
    ultimately show ?thesis by (simp only: sum.case prod.case option.case simp_thms)
  qed
  then show ?thesis using strim_ok [OF assms(1)] strreplace_ok [OF assms(1)] by (auto simp: trim_end_def)
qed

end
