(* ===== verification/Page.thy ===== *)
theory Page
  imports Memblock Ctype
begin

text \<open>
  Page descriptors and zones: \<^verbatim>\<open>struct page\<close> (\<^verbatim>\<open>include/linux/mm_types.h\<close>) with the flag
  macros of \<^verbatim>\<open>include/linux/page-flags.h\<close>, the reference count of
  \<^verbatim>\<open>include/linux/page_ref.h\<close>, the helpers of \<^verbatim>\<open>include/linux/page.h\<close> and
  \<^verbatim>\<open>mm/internal.h\<close>, \<^verbatim>\<open>struct zone\<close> (\<^verbatim>\<open>include/linux/mmzone.h\<close>) and the allocation flags
  of \<^verbatim>\<open>include/linux/gfp.h\<close>.

  The array \<^verbatim>\<open>vmemmap\<close> is a list; a \<^verbatim>\<open>struct page *\<close> is an index into it, that is, the page
  frame number that \<^verbatim>\<open>page_to_pfn\<close> gives.  An access outside the array is a fault.
\<close>

unbundle bit_operations_syntax

section \<open>Page descriptors\<close>

text \<open>
  The first word of the union is \<^verbatim>\<open>lru.next\<close> or \<^verbatim>\<open>compound_head\<close>: \<open>Some h\<close> is the address of
  the descriptor \<open>h\<close> with bit 0 set, \<open>None\<close> any value with bit 0 clear (a list pointer, the
  list poison, zero).  The second word is \<^verbatim>\<open>lru.prev\<close> or \<^verbatim>\<open>compound_order\<close>: \<open>Some n\<close> after the
  latter was stored, \<open>None\<close> when the byte belongs to a pointer.
\<close>

record page =
  page_flags :: "64 word"
  head_word :: "nat option"
  order_byte :: "nat option"
  priv :: nat
  refcount :: "32 word"

type_synonym memmap = "page list"

definition rdp :: "memmap \<Rightarrow> nat \<Rightarrow> page res" where
  "rdp v p = (if p < length v then Inr (v ! p) else Inl Oob)"

definition wrp :: "memmap \<Rightarrow> nat \<Rightarrow> (page \<Rightarrow> page) \<Rightarrow> memmap res" where
  "wrp v p f = (if p < length v then Inr (v[p := f (v ! p)]) else Inl Oob)"

section \<open>Page flags\<close>

definition PG_locked :: nat where "PG_locked = 0"
definition PG_head :: nat where "PG_head = 1"
definition PG_buddy :: nat where "PG_buddy = 2"
definition PG_slab :: nat where "PG_slab = 3"
definition PG_arch :: nat where "PG_arch = 4"
definition PG_table :: nat where "PG_table = 5"
definition PG_reserved :: nat where "PG_reserved = 6"
definition NR_PAGEFLAGS :: nat where "NR_PAGEFLAGS = 7"

definition compound_head :: "memmap \<Rightarrow> nat \<Rightarrow> nat res" where
  "compound_head v p = rbind (rdp v p) (\<lambda>x. Inr (case head_word x of Some h \<Rightarrow> h | None \<Rightarrow> p))"

definition PageTail :: "memmap \<Rightarrow> nat \<Rightarrow> bool res" where
  "PageTail v p = rbind (rdp v p) (\<lambda>x. Inr (head_word x \<noteq> None))"

definition PageCompound :: "memmap \<Rightarrow> nat \<Rightarrow> bool res" where
  "PageCompound v p = rbind (rdp v p) (\<lambda>x. Inr (bit (page_flags x) PG_head \<or> head_word x \<noteq> None))"

definition PagePoisoned :: "page \<Rightarrow> bool" where
  "PagePoisoned x = (page_flags x = - 1)"

definition PF_POISONED_CHECK :: "memmap \<Rightarrow> nat \<Rightarrow> nat res" where
  "PF_POISONED_CHECK v p = rbind (rdp v p) (\<lambda>x. if PagePoisoned x then Inl Bug else Inr p)"

text \<open>The policies: which descriptor a flag operation acts on, and what it refuses.\<close>

definition PF_ANY :: "bool \<Rightarrow> memmap \<Rightarrow> nat \<Rightarrow> nat res" where
  "PF_ANY enforce v p = PF_POISONED_CHECK v p"

definition PF_HEAD :: "bool \<Rightarrow> memmap \<Rightarrow> nat \<Rightarrow> nat res" where
  "PF_HEAD enforce v p = rbind (compound_head v p) (PF_POISONED_CHECK v)"

definition PF_ONLY_HEAD :: "bool \<Rightarrow> memmap \<Rightarrow> nat \<Rightarrow> nat res" where
  "PF_ONLY_HEAD enforce v p =
     rbind (PageTail v p) (\<lambda>t. if t then Inl Bug else PF_POISONED_CHECK v p)"

definition PF_NO_TAIL :: "bool \<Rightarrow> memmap \<Rightarrow> nat \<Rightarrow> nat res" where
  "PF_NO_TAIL enforce v p =
     rbind (PageTail v p) (\<lambda>t. if enforce \<and> t then Inl Bug
       else rbind (compound_head v p) (PF_POISONED_CHECK v))"

definition PF_NO_COMPOUND :: "bool \<Rightarrow> memmap \<Rightarrow> nat \<Rightarrow> nat res" where
  "PF_NO_COMPOUND enforce v p =
     rbind (PageCompound v p) (\<lambda>c. if enforce \<and> c then Inl Bug else PF_POISONED_CHECK v p)"

definition TESTPAGEFLAG :: "nat \<Rightarrow> (bool \<Rightarrow> memmap \<Rightarrow> nat \<Rightarrow> nat res) \<Rightarrow> memmap \<Rightarrow> nat \<Rightarrow> bool res" where
  "TESTPAGEFLAG lname policy v p =
     rbind (policy False v p) (\<lambda>q. rbind (rdp v q) (\<lambda>x. Inr (bit (page_flags x) lname)))"

definition SETPAGEFLAG :: "nat \<Rightarrow> (bool \<Rightarrow> memmap \<Rightarrow> nat \<Rightarrow> nat res) \<Rightarrow> memmap \<Rightarrow> nat \<Rightarrow> memmap res" where
  "SETPAGEFLAG lname policy v p =
     rbind (policy True v p) (\<lambda>q. wrp v q (\<lambda>x. x\<lparr>page_flags := set_bit lname (page_flags x)\<rparr>))"

definition CLEARPAGEFLAG :: "nat \<Rightarrow> (bool \<Rightarrow> memmap \<Rightarrow> nat \<Rightarrow> nat res) \<Rightarrow> memmap \<Rightarrow> nat \<Rightarrow> memmap res" where
  "CLEARPAGEFLAG lname policy v p =
     rbind (policy True v p) (\<lambda>q. wrp v q (\<lambda>x. x\<lparr>page_flags := unset_bit lname (page_flags x)\<rparr>))"

definition PageHead :: "memmap \<Rightarrow> nat \<Rightarrow> bool res" where "PageHead = TESTPAGEFLAG PG_head PF_ANY"
definition SetPageHead :: "memmap \<Rightarrow> nat \<Rightarrow> memmap res" where "SetPageHead = SETPAGEFLAG PG_head PF_ANY"
definition PageBuddy :: "memmap \<Rightarrow> nat \<Rightarrow> bool res" where "PageBuddy = TESTPAGEFLAG PG_buddy PF_ANY"
definition SetPageBuddy :: "memmap \<Rightarrow> nat \<Rightarrow> memmap res" where "SetPageBuddy = SETPAGEFLAG PG_buddy PF_ANY"
definition ClearPageBuddy :: "memmap \<Rightarrow> nat \<Rightarrow> memmap res" where
  "ClearPageBuddy = CLEARPAGEFLAG PG_buddy PF_ANY"
definition SetPageReserved :: "memmap \<Rightarrow> nat \<Rightarrow> memmap res" where
  "SetPageReserved = SETPAGEFLAG PG_reserved PF_NO_COMPOUND"
definition ClearPageReserved :: "memmap \<Rightarrow> nat \<Rightarrow> memmap res" where
  "ClearPageReserved = CLEARPAGEFLAG PG_reserved PF_NO_COMPOUND"
definition SetPageTable :: "memmap \<Rightarrow> nat \<Rightarrow> memmap res" where "SetPageTable = SETPAGEFLAG PG_table PF_NO_TAIL"
definition ClearPageTable :: "memmap \<Rightarrow> nat \<Rightarrow> memmap res" where
  "ClearPageTable = CLEARPAGEFLAG PG_table PF_NO_TAIL"

definition set_compound_head :: "memmap \<Rightarrow> nat \<Rightarrow> nat \<Rightarrow> memmap res" where
  "set_compound_head v p h = wrp v p (\<lambda>x. x\<lparr>head_word := Some h\<rparr>)"

definition clear_compound_head :: "memmap \<Rightarrow> nat \<Rightarrow> memmap res" where
  "clear_compound_head v p = wrp v p (\<lambda>x. x\<lparr>head_word := None\<rparr>)"

definition PAGE_FLAGS_CHECK_AT_FREE :: "64 word" where
  "PAGE_FLAGS_CHECK_AT_FREE = push_bit PG_reserved 1 OR push_bit PG_slab 1"

definition PG_HWPOISON :: "64 word" where "PG_HWPOISON = 0"

definition PAGE_FLAGS_CHECK_AT_PREP :: "64 word" where
  "PAGE_FLAGS_CHECK_AT_PREP = (push_bit NR_PAGEFLAGS 1 - 1) AND NOT PG_HWPOISON"

section \<open>Reference counts\<close>

definition page_ref_count :: "memmap \<Rightarrow> nat \<Rightarrow> 32 word res" where
  "page_ref_count v p = rbind (rdp v p) (\<lambda>x. Inr (refcount x))"

definition page_count :: "memmap \<Rightarrow> nat \<Rightarrow> 32 word res" where
  "page_count v p = rbind (compound_head v p) (page_ref_count v)"

definition set_page_count :: "memmap \<Rightarrow> nat \<Rightarrow> 32 word \<Rightarrow> memmap res" where
  "set_page_count v p c = wrp v p (\<lambda>x. x\<lparr>refcount := c\<rparr>)"

definition init_page_count :: "memmap \<Rightarrow> nat \<Rightarrow> memmap res" where
  "init_page_count v p = set_page_count v p 1"

definition page_ref_inc :: "memmap \<Rightarrow> nat \<Rightarrow> memmap res" where
  "page_ref_inc v p = wrp v p (\<lambda>x. x\<lparr>refcount := refcount x + 1\<rparr>)"

definition page_ref_dec_and_test :: "memmap \<Rightarrow> nat \<Rightarrow> (bool \<times> memmap) res" where
  "page_ref_dec_and_test v p =
     rbind (wrp v p (\<lambda>x. x\<lparr>refcount := refcount x - 1\<rparr>)) (\<lambda>v'.
       rbind (page_ref_count v' p) (\<lambda>c. Inr (c = 0, v')))"

definition page_ref_add_unless :: "memmap \<Rightarrow> nat \<Rightarrow> 32 word \<Rightarrow> 32 word \<Rightarrow> (bool \<times> memmap) res" where
  "page_ref_add_unless v p nr u =
     rbind (page_ref_count v p) (\<lambda>c. if c = u then Inr (False, v)
       else rbind (set_page_count v p (c + nr)) (\<lambda>v'. Inr (True, v')))"

definition set_page_refcounted :: "memmap \<Rightarrow> nat \<Rightarrow> memmap res" where
  "set_page_refcounted v p =
     rbind (PageTail v p) (\<lambda>t. if t then Inl Bug
       else rbind (page_ref_count v p) (\<lambda>c. if c \<noteq> 0 then Inl Bug else set_page_count v p 1))"

definition put_page_testzero :: "memmap \<Rightarrow> nat \<Rightarrow> (bool \<times> memmap) res" where
  "put_page_testzero v p =
     rbind (page_ref_count v p) (\<lambda>c. if c = 0 then Inl Bug else page_ref_dec_and_test v p)"

definition get_page_unless_zero :: "memmap \<Rightarrow> nat \<Rightarrow> (bool \<times> memmap) res" where
  "get_page_unless_zero v p = page_ref_add_unless v p 1 0"

definition get_page :: "memmap \<Rightarrow> nat \<Rightarrow> memmap res" where
  "get_page v p =
     rbind (compound_head v p) (\<lambda>h. rbind (page_ref_count v h) (\<lambda>c.
       if sint c \<le> 0 then Inl Bug else page_ref_inc v h))"

section \<open>Zone number, order and private data\<close>

definition MAX_NR_ZONES :: nat where "MAX_NR_ZONES = 3"
definition ZONES_SHIFT :: nat where "ZONES_SHIFT = 2"
definition ZONES_PGSHIFT :: nat where "ZONES_PGSHIFT = 64 - ZONES_SHIFT"
definition ZONES_MASK :: "64 word" where "ZONES_MASK = push_bit ZONES_SHIFT 1 - 1"

definition zonenum :: "page \<Rightarrow> nat" where
  "zonenum x = unat (drop_bit ZONES_PGSHIFT (page_flags x) AND ZONES_MASK)"

definition page_zonenum :: "memmap \<Rightarrow> nat \<Rightarrow> nat res" where
  "page_zonenum v p = rbind (rdp v p) (\<lambda>x. Inr (zonenum x))"

definition page_zone_id :: "memmap \<Rightarrow> nat \<Rightarrow> nat res" where
  "page_zone_id v p = rbind (rdp v p) (\<lambda>x. Inr (zonenum x))"

definition set_page_zone :: "memmap \<Rightarrow> nat \<Rightarrow> nat \<Rightarrow> memmap res" where
  "set_page_zone v p zone = wrp v p (\<lambda>x. x\<lparr>page_flags :=
     (page_flags x AND NOT (push_bit ZONES_PGSHIFT ZONES_MASK)) OR
     push_bit ZONES_PGSHIFT (of_nat zone AND ZONES_MASK)\<rparr>)"

definition set_page_links :: "memmap \<Rightarrow> nat \<Rightarrow> nat \<Rightarrow> nat \<Rightarrow> memmap res" where
  "set_page_links v p zone pfn = set_page_zone v p zone"

definition compound_order :: "memmap \<Rightarrow> nat \<Rightarrow> nat res" where
  "compound_order v p =
     rbind (PageHead v p) (\<lambda>h. if \<not> h then Inr 0
       else rbind (rdp v (p + 1)) (\<lambda>x. case order_byte x of Some n \<Rightarrow> Inr n | None \<Rightarrow> Inl Undef))"

definition set_compound_order :: "memmap \<Rightarrow> nat \<Rightarrow> nat \<Rightarrow> memmap res" where
  "set_compound_order v p order = wrp v (p + 1) (\<lambda>x. x\<lparr>order_byte := Some (order mod 256)\<rparr>)"

definition page_private :: "memmap \<Rightarrow> nat \<Rightarrow> nat res" where
  "page_private v p = rbind (rdp v p) (\<lambda>x. Inr (priv x))"

definition set_page_private :: "memmap \<Rightarrow> nat \<Rightarrow> nat \<Rightarrow> memmap res" where
  "set_page_private v p n = wrp v p (\<lambda>x. x\<lparr>priv := n\<rparr>)"

definition page_order :: "memmap \<Rightarrow> nat \<Rightarrow> nat res" where
  "page_order v p = rbind (page_private v p) (\<lambda>n. Inr (n mod 2 ^ 32))"

definition find_buddy_pfn :: "nat \<Rightarrow> nat \<Rightarrow> nat" where
  "find_buddy_pfn page_pfn order = page_pfn XOR 2 ^ order"

section \<open>Zones\<close>

definition MAX_ORDER :: nat where "MAX_ORDER = 11"
definition pageblock_order :: nat where "pageblock_order = MAX_ORDER - 1"

record free_area =
  free_list :: "nat list"
  nr_free :: nat

record per_cpu_pages =
  pcp_count :: int
  pcp_high :: int
  pcp_batch :: int
  pcp_lists :: "nat list"

text \<open>
  \<^verbatim>\<open>pageset\<close> is a number of a per-CPU object, number 0 being \<^verbatim>\<open>boot_pageset\<close>.  A zone whose free
  lists were never initialised has \<^verbatim>\<open>NULL\<close> pointers in them: its \<open>free_area\<close> is empty and a use
  of it is a fault.
\<close>

record zone =
  pageset :: nat
  zone_start_pfn :: nat
  managed_pages :: nat
  spanned_pages :: nat
  present_pages :: nat
  initialized :: bool
  free_area :: "free_area list"

definition zone_is_initialized :: "zone \<Rightarrow> bool" where
  "zone_is_initialized z = initialized z"

definition zone_end_pfn :: "zone \<Rightarrow> nat" where
  "zone_end_pfn z = add64 (zone_start_pfn z) (spanned_pages z)"

definition zone_spans_pfn :: "zone \<Rightarrow> nat \<Rightarrow> bool" where
  "zone_spans_pfn z pfn = (zone_start_pfn z \<le> pfn \<and> pfn < zone_end_pfn z)"

definition zone_is_empty :: "zone \<Rightarrow> bool" where
  "zone_is_empty z = (spanned_pages z = 0)"

definition zone_intersects :: "zone \<Rightarrow> nat \<Rightarrow> nat \<Rightarrow> bool" where
  "zone_intersects z start_pfn nr_pages =
     (if zone_is_empty z then False
      else if start_pfn \<ge> zone_end_pfn z \<or> add64 start_pfn nr_pages \<le> zone_start_pfn z then False
      else True)"

definition populated_zone :: "zone \<Rightarrow> bool" where
  "populated_zone z = (present_pages z \<noteq> 0)"

section \<open>Allocation flags\<close>

type_synonym gfp = "64 word"

definition GFP_DMA :: gfp where "GFP_DMA = 1"
definition GFP_NORMAL :: gfp where "GFP_NORMAL = 2"
definition GFP_MOVABLE :: gfp where "GFP_MOVABLE = 4"
definition GFP_ZERO :: gfp where "GFP_ZERO = 8"
definition GFP_NOWARN :: gfp where "GFP_NOWARN = 16"

definition ZONE_DMA :: nat where "ZONE_DMA = 0"
definition ZONE_NORMAL :: nat where "ZONE_NORMAL = 1"
definition ZONE_MOVABLE :: nat where "ZONE_MOVABLE = 2"

definition gfp_zone :: "gfp \<Rightarrow> nat" where
  "gfp_zone f =
     (if GFP_DMA AND f \<noteq> 0 then ZONE_DMA
      else if GFP_MOVABLE AND f \<noteq> 0 then ZONE_MOVABLE
      else ZONE_NORMAL)"

section \<open>Valid page frames\<close>

text \<open>\<^verbatim>\<open>pfn_valid\<close> of \<^verbatim>\<open>arch/arm64/mm/init.c\<close> asks memblock.\<close>

definition pfn_valid :: "memblock \<Rightarrow> nat \<Rightarrow> bool" where
  "pfn_valid mb pfn =
     (let addr = (pfn * 2 ^ PAGE_SHIFT) mod 2 ^ 64 in
      if addr div 2 ^ PAGE_SHIFT \<noteq> pfn then False else memblock_is_map_memory mb addr)"

end
