(* ===== verification/Page_Alloc.thy ===== *)
theory Page_Alloc
  imports Page
begin

text \<open>
  The page allocator of \<^verbatim>\<open>mm/page_alloc.c\<close>: the buddy system of a zone, the per-CPU lists of
  single pages in front of it, and the allocation and release of pages.

  A linked list of pages is the list of their frame numbers.  Linking or unlinking a page writes
  both words of its \<^verbatim>\<open>lru\<close>; unlinking a page that is not on the list it is meant to be on is
  a fault.  The model is that of one CPU, which holds the zone locks and has interrupts off
  where the code says so: \<open>pagesets\<close> are this CPU's copies of the per-CPU objects.
\<close>

section \<open>Lists of pages\<close>

definition lru_write :: "memmap \<Rightarrow> nat \<Rightarrow> memmap res" where
  "lru_write v p = wrp v p (\<lambda>x. x\<lparr>head_word := None, order_byte := None\<rparr>)"

definition area_of :: "zone \<Rightarrow> nat \<Rightarrow> free_area res" where
  "area_of z n = (if n < length (free_area z) then Inr (free_area z ! n) else Inl Oob)"

definition set_area :: "zone \<Rightarrow> nat \<Rightarrow> free_area \<Rightarrow> zone" where
  "set_area z n a = z\<lparr>free_area := (free_area z)[n := a]\<rparr>"

definition area_list_add :: "memmap \<Rightarrow> zone \<Rightarrow> nat \<Rightarrow> nat \<Rightarrow> (memmap \<times> zone) res" where
  "area_list_add v z n p =
     rbind (area_of z n) (\<lambda>a. rbind (lru_write v p) (\<lambda>v'.
       Inr (v', set_area z n (a\<lparr>free_list := p # free_list a\<rparr>))))"

definition area_list_add_tail :: "memmap \<Rightarrow> zone \<Rightarrow> nat \<Rightarrow> nat \<Rightarrow> (memmap \<times> zone) res" where
  "area_list_add_tail v z n p =
     rbind (area_of z n) (\<lambda>a. rbind (lru_write v p) (\<lambda>v'.
       Inr (v', set_area z n (a\<lparr>free_list := free_list a @ [p]\<rparr>))))"

definition area_list_del :: "memmap \<Rightarrow> zone \<Rightarrow> nat \<Rightarrow> nat \<Rightarrow> (memmap \<times> zone) res" where
  "area_list_del v z n p =
     rbind (area_of z n) (\<lambda>a. if p \<notin> set (free_list a) then Inl Undef
       else rbind (lru_write v p) (\<lambda>v'.
         Inr (v', set_area z n (a\<lparr>free_list := remove1 p (free_list a)\<rparr>))))"

definition nr_free_inc :: "zone \<Rightarrow> nat \<Rightarrow> zone res" where
  "nr_free_inc z n = rbind (area_of z n) (\<lambda>a. Inr (set_area z n (a\<lparr>nr_free := add64 (nr_free a) 1\<rparr>)))"

definition nr_free_dec :: "zone \<Rightarrow> nat \<Rightarrow> zone res" where
  "nr_free_dec z n = rbind (area_of z n) (\<lambda>a. Inr (set_area z n (a\<lparr>nr_free := sub64 (nr_free a) 1\<rparr>)))"

section \<open>Checks on release\<close>

definition page_expected_state :: "memmap \<Rightarrow> nat \<Rightarrow> 64 word \<Rightarrow> bool res" where
  "page_expected_state v p check_flags =
     rbind (page_ref_count v p) (\<lambda>c. rbind (rdp v p) (\<lambda>x.
       Inr (c = 0 \<and> page_flags x AND check_flags = 0)))"

text \<open>1 (\<open>True\<close>) says that the page is bad.\<close>

definition free_pages_check :: "memmap \<Rightarrow> nat \<Rightarrow> bool res" where
  "free_pages_check v p =
     rbind (page_expected_state v p PAGE_FLAGS_CHECK_AT_FREE) (\<lambda>ok. Inr (\<not> ok))"

definition free_tail_pages_check :: "memmap \<Rightarrow> nat \<Rightarrow> nat \<Rightarrow> (bool \<times> memmap) res" where
  "free_tail_pages_check v head_page p =
     rbind (PageTail v p) (\<lambda>t. rbind (compound_head v p) (\<lambda>h.
       rbind (clear_compound_head v p) (\<lambda>v'. Inr (\<not> t \<or> h \<noteq> head_page, v'))))"

definition clear_prep_flags :: "memmap \<Rightarrow> nat \<Rightarrow> memmap res" where
  "clear_prep_flags v p =
     wrp v p (\<lambda>x. x\<lparr>page_flags := page_flags x AND NOT PAGE_FLAGS_CHECK_AT_PREP\<rparr>)"

text \<open>The loop over the pages behind the first one: \<open>n\<close> pages from \<open>p + i\<close> on are left.\<close>

primrec free_tails :: "nat \<Rightarrow> memmap \<Rightarrow> bool \<Rightarrow> nat \<Rightarrow> nat \<Rightarrow> nat \<Rightarrow> (nat \<times> memmap) res" where
  "free_tails 0 v compound p i bad = Inr (bad, v)"
| "free_tails (Suc n) v compound p i bad =
     rbind (if compound then free_tail_pages_check v p (p + i) else Inr (False, v)) (\<lambda>(b, v1).
       let bad1 = bad + (if b then 1 else 0) in
       rbind (free_pages_check v1 (p + i)) (\<lambda>b2.
         if b2 then free_tails n v1 compound p (i + 1) (bad1 + 1)
         else rbind (clear_prep_flags v1 (p + i)) (\<lambda>v2. free_tails n v2 compound p (i + 1) bad1)))"

definition free_pages_prepare :: "memmap \<Rightarrow> nat \<Rightarrow> nat \<Rightarrow> bool \<Rightarrow> (bool \<times> memmap) res" where
  "free_pages_prepare v p order check_free =
     rbind (PageTail v p) (\<lambda>t. if t then Inl Bug
       else rbind
         (if order \<noteq> 0 then
            rbind (PageCompound v p) (\<lambda>compound.
              rbind (if compound then compound_order v p else Inr order) (\<lambda>co.
                if compound \<and> co \<noteq> order then Inl Bug
                else free_tails (2 ^ order - 1) v compound p 1 0))
          else Inr (0, v))
         (\<lambda>(bad, v1).
           rbind (if check_free then free_pages_check v1 p else Inr False) (\<lambda>b.
             if bad + (if b then 1 else 0) \<noteq> 0 then Inr (False, v1)
             else rbind (clear_prep_flags v1 p) (\<lambda>v2. Inr (True, v2)))))"

definition free_pcp_prepare :: "memmap \<Rightarrow> nat \<Rightarrow> (bool \<times> memmap) res" where
  "free_pcp_prepare v p = free_pages_prepare v p 0 False"

definition free_unref_page_prepare :: "memmap \<Rightarrow> nat \<Rightarrow> (bool \<times> memmap) res" where
  "free_unref_page_prepare v p =
     rbind (free_pcp_prepare v p) (\<lambda>(ok, v1). if \<not> ok then Inr (False, v1) else Inr (True, v1))"

definition bulkfree_pcp_prepare :: "memmap \<Rightarrow> nat \<Rightarrow> bool res" where
  "bulkfree_pcp_prepare v p = free_pages_check v p"

section \<open>Merging\<close>

definition page_is_buddy :: "memmap \<Rightarrow> nat \<Rightarrow> nat \<Rightarrow> nat \<Rightarrow> bool res" where
  "page_is_buddy v p buddy order =
     rbind (PageBuddy v buddy) (\<lambda>b. if \<not> b then Inr False
       else rbind (page_order v buddy) (\<lambda>n. if n \<noteq> order then Inr False
         else rbind (page_zone_id v p) (\<lambda>zp. rbind (page_zone_id v buddy) (\<lambda>zb.
           if zp \<noteq> zb then Inr False
           else rbind (page_count v buddy) (\<lambda>c. if c \<noteq> 0 then Inl Bug else Inr True)))))"

definition set_page_order :: "memmap \<Rightarrow> nat \<Rightarrow> nat \<Rightarrow> memmap res" where
  "set_page_order v p order = rbind (set_page_private v p order) (\<lambda>v1. SetPageBuddy v1 p)"

definition rmv_page_order :: "memmap \<Rightarrow> nat \<Rightarrow> memmap res" where
  "rmv_page_order v p = rbind (ClearPageBuddy v p) (\<lambda>v1. set_page_private v1 p 0)"

text \<open>
  The loop of \<^verbatim>\<open>__free_one_page\<close>.  It returns the descriptors, the zone, the frame and order
  reached and the last value of \<^verbatim>\<open>buddy_pfn\<close> (\<open>None\<close>: not yet assigned).
\<close>

function merge_loop ::
  "memblock \<Rightarrow> memmap \<Rightarrow> zone \<Rightarrow> nat \<Rightarrow> nat option \<Rightarrow> nat \<Rightarrow> nat \<Rightarrow>
   (memmap \<times> zone \<times> nat \<times> nat option \<times> nat) res" where
  "merge_loop mb v z pfn bp order max_order =
     (if order < max_order - 1 then
        let buddy_pfn = find_buddy_pfn pfn order in
        if \<not> pfn_valid mb buddy_pfn then Inr (v, z, pfn, Some buddy_pfn, order)
        else rbind (page_is_buddy v pfn buddy_pfn order) (\<lambda>is_buddy.
          if \<not> is_buddy then Inr (v, z, pfn, Some buddy_pfn, order)
          else rbind (area_list_del v z order buddy_pfn) (\<lambda>(v1, z1).
            rbind (nr_free_dec z1 order) (\<lambda>z2.
              rbind (rmv_page_order v1 buddy_pfn) (\<lambda>v2.
                merge_loop mb v2 z2 (buddy_pfn AND pfn) (Some buddy_pfn) (order + 1) max_order))))
      else if max_order < MAX_ORDER then merge_loop mb v z pfn bp order (max_order + 1)
      else Inr (v, z, pfn, bp, order))"
  by pat_completeness auto
termination
  by (relation "measures [\<lambda>(mb, v, z, p, b, n, m). MAX_ORDER - m, \<lambda>(mb, v, z, p, b, n, m). m - n]") auto

declare merge_loop.simps [simp del]

text \<open>Whether the block is put at the tail of its list: its buddy's parent may soon be whole.\<close>

definition next_higher_free :: "memblock \<Rightarrow> memmap \<Rightarrow> nat \<Rightarrow> nat option \<Rightarrow> nat \<Rightarrow> bool res" where
  "next_higher_free mb v pfn bp order =
     (if order < MAX_ORDER - 2 then
        (case bp of None \<Rightarrow> Inl Undef
         | Some buddy_pfn \<Rightarrow>
             if pfn_valid mb buddy_pfn then
               let combined_pfn = buddy_pfn AND pfn;
                   higher = find_buddy_pfn combined_pfn (order + 1)
               in if pfn_valid mb higher then page_is_buddy v combined_pfn higher (order + 1)
                  else Inr False
             else Inr False)
      else Inr False)"

definition do_free_one_page ::
  "memblock \<Rightarrow> memmap \<Rightarrow> zone \<Rightarrow> nat \<Rightarrow> nat \<Rightarrow> (memmap \<times> zone) res" where
  "do_free_one_page mb v z pfn order =
     (if \<not> zone_is_initialized z then Inl Bug
      else rbind (rdp v pfn) (\<lambda>x.
        if page_flags x AND PAGE_FLAGS_CHECK_AT_PREP \<noteq> 0 then Inl Bug
        else if pfn AND (2 ^ order - 1) \<noteq> 0 then Inl Bug
        else rbind (merge_loop mb v z pfn None order (min MAX_ORDER (pageblock_order + 1)))
          (\<lambda>(v1, z1, p, bp, n).
            rbind (set_page_order v1 p n) (\<lambda>v2.
              rbind (next_higher_free mb v2 p bp n) (\<lambda>tail.
                rbind (if tail then area_list_add_tail v2 z1 n p else area_list_add v2 z1 n p)
                  (\<lambda>(v3, z2). rbind (nr_free_inc z2 n) (\<lambda>z3. Inr (v3, z3))))))))"

section \<open>Splitting\<close>

fun expand :: "memmap \<Rightarrow> zone \<Rightarrow> nat \<Rightarrow> nat \<Rightarrow> nat \<Rightarrow> (memmap \<times> zone) res" where
  "expand v z p low 0 = Inr (v, z)"
| "expand v z p low (Suc high) =
     (if Suc high > low then
        rbind (area_list_add v z high (p + 2 ^ high)) (\<lambda>(v1, z1).
          rbind (nr_free_inc z1 high) (\<lambda>z2.
            rbind (set_page_order v1 (p + 2 ^ high) high) (\<lambda>v2.
              expand v2 z2 p low high)))
      else Inr (v, z))"

function rmqueue_smallest_from ::
  "memmap \<Rightarrow> zone \<Rightarrow> nat \<Rightarrow> nat \<Rightarrow> (nat option \<times> memmap \<times> zone) res" where
  "rmqueue_smallest_from v z order current_order =
     (if current_order < MAX_ORDER then
        rbind (area_of z current_order) (\<lambda>a.
          case free_list a of [] \<Rightarrow> rmqueue_smallest_from v z order (current_order + 1)
          | p # ps \<Rightarrow>
              rbind (area_list_del v z current_order p) (\<lambda>(v1, z1).
                rbind (rmv_page_order v1 p) (\<lambda>v2.
                  rbind (nr_free_dec z1 current_order) (\<lambda>z2.
                    rbind (expand v2 z2 p order current_order) (\<lambda>(v3, z3).
                      Inr (Some p, v3, z3))))))
      else Inr (None, v, z))"
  by pat_completeness auto
termination
  by (relation "measure (\<lambda>(v, z, n, c). MAX_ORDER - c)") auto

declare rmqueue_smallest_from.simps [simp del]

definition rmqueue_smallest :: "memmap \<Rightarrow> zone \<Rightarrow> nat \<Rightarrow> (nat option \<times> memmap \<times> zone) res" where
  "rmqueue_smallest v z order = rmqueue_smallest_from v z order order"

definition do_rmqueue :: "memmap \<Rightarrow> zone \<Rightarrow> nat \<Rightarrow> (nat option \<times> memmap \<times> zone) res" where
  "do_rmqueue v z order =
     rbind (rmqueue_smallest v z order) (\<lambda>(r, v1, z1).
       case r of None \<Rightarrow> Inr (None, v1, z1) | Some p \<Rightarrow> Inr (Some p, v1, z1))"

section \<open>Checks on allocation\<close>

definition check_new_page :: "memmap \<Rightarrow> nat \<Rightarrow> bool res" where
  "check_new_page v p =
     rbind (page_expected_state v p (PAGE_FLAGS_CHECK_AT_PREP OR PG_HWPOISON)) (\<lambda>ok. Inr (\<not> ok))"

primrec check_new_pages_from :: "nat \<Rightarrow> memmap \<Rightarrow> nat \<Rightarrow> bool res" where
  "check_new_pages_from 0 v p = Inr False"
| "check_new_pages_from (Suc n) v p =
     rbind (check_new_page v p) (\<lambda>bad. if bad then Inr True else check_new_pages_from n v (p + 1))"

definition check_new_pages :: "memmap \<Rightarrow> nat \<Rightarrow> nat \<Rightarrow> bool res" where
  "check_new_pages v p order = check_new_pages_from (2 ^ order) v p"

definition check_pcp_refill :: "memmap \<Rightarrow> nat \<Rightarrow> bool res" where
  "check_pcp_refill v p = check_new_page v p"

definition check_new_pcp :: "memmap \<Rightarrow> nat \<Rightarrow> bool res" where
  "check_new_pcp v p = Inr False"

end
