(* ===== verification/Page_Frontend.thy ===== *)
theory Page_Frontend
  imports Page_Alloc
begin

text \<open>
  The rest of \<^verbatim>\<open>mm/page_alloc.c\<close> that allocates and releases pages: the per-CPU lists, the entry
  points \<^verbatim>\<open>__alloc_pages\<close> and \<^verbatim>\<open>__free_pages\<close>, \<^verbatim>\<open>put_page\<close> and the release of boot memory.
\<close>

section \<open>Retrying a block that fails its check\<close>

text \<open>
  The number of pages on the free lists of a zone.  Taking a block of order \<open>n\<close> lowers it by
  \<open>2 ^ n\<close>, whatever state the descriptors are in; that is why the loop of \<^verbatim>\<open>rmqueue\<close> ends.
\<close>

definition zone_weight :: "zone \<Rightarrow> nat" where
  "zone_weight z = (\<Sum>n<length (free_area z). length (free_list (free_area z ! n)) * 2 ^ n)"

lemma zone_weight_set_area:
  assumes "n < length (free_area z)"
  shows "zone_weight (set_area z n a) + length (free_list (free_area z ! n)) * 2 ^ n =
    zone_weight z + length (free_list a) * 2 ^ n"
proof -
  let ?f = "\<lambda>z k. length (free_list (free_area z ! k)) * 2 ^ k"
  have split: "(\<Sum>k<length (free_area z). g k) = g n + (\<Sum>k\<in>{..<length (free_area z)} - {n}. g k)"
    for g :: "nat \<Rightarrow> nat" using assms by (intro sum.remove) simp_all
  have "(\<Sum>k\<in>{..<length (free_area z)} - {n}. ?f (set_area z n a) k) =
      (\<Sum>k\<in>{..<length (free_area z)} - {n}. ?f z k)"
    by (intro sum.cong) (simp_all add: set_area_def)
  then show ?thesis
    using split [of "?f z"] split [of "?f (set_area z n a)"] assms
    by (simp add: zone_weight_def set_area_def)
qed

lemma zone_weight_same:
  assumes "n < length (free_area z)" and "length (free_list a) = length (free_list (free_area z ! n))"
  shows "zone_weight (set_area z n a) = zone_weight z"
  using zone_weight_set_area [OF assms(1), of a] assms(2) by simp

lemma zone_weight_more:
  assumes "n < length (free_area z)" and "length (free_list a) = Suc (length (free_list (free_area z ! n)))"
  shows "zone_weight (set_area z n a) = zone_weight z + 2 ^ n"
  using zone_weight_set_area [OF assms(1), of a] assms(2) by simp

lemma zone_weight_less:
  assumes "n < length (free_area z)" and "Suc (length (free_list a)) = length (free_list (free_area z ! n))"
  shows "zone_weight (set_area z n a) + 2 ^ n = zone_weight z"
  using zone_weight_set_area [OF assms(1), of a] by (simp flip: assms(2))

lemma zone_weight_nr_free:
  "nr_free_inc z n = Inr z' \<Longrightarrow> zone_weight z' = zone_weight z"
  "nr_free_dec z n = Inr z' \<Longrightarrow> zone_weight z' = zone_weight z"
  by (auto simp: nr_free_inc_def nr_free_dec_def area_of_def split: if_splits intro!: zone_weight_same)

lemma zone_weight_list_add:
  "area_list_add v z n p = Inr (v', z') \<Longrightarrow> zone_weight z' = zone_weight z + 2 ^ n"
  by (auto simp: area_list_add_def area_of_def rbind_Inr_iff split: if_splits intro!: zone_weight_more)

lemma zone_weight_list_del:
  "area_list_del v z n p = Inr (v', z') \<Longrightarrow> zone_weight z' + 2 ^ n = zone_weight z"
  by (auto simp: area_list_del_def area_of_def rbind_Inr_iff
      split: if_splits intro!: zone_weight_less length_remove1_Suc)

lemma expand_weight:
  "expand v z p low high = Inr (v', z') \<Longrightarrow> low \<le> high \<Longrightarrow>
   zone_weight z' + 2 ^ low = zone_weight z + 2 ^ high"
proof (induction v z p low high arbitrary: v' z' rule: expand.induct)
  case (2 v z p low high)
  show ?case
  proof (cases "low < Suc high")
    case True
    with 2(2) obtain v1 z1 z2 v2 where
      "area_list_add v z high (p + 2 ^ high) = Inr (v1, z1)" "nr_free_inc z1 high = Inr z2"
      "set_page_order v1 (p + 2 ^ high) high = Inr v2" "expand v2 z2 p low high = Inr (v', z')"
      by (auto simp: rbind_Inr_iff)
    moreover from this have "zone_weight z' + 2 ^ low = zone_weight z2 + 2 ^ high"
      using True by (intro 2(1)) auto
    ultimately show ?thesis by (simp add: zone_weight_list_add zone_weight_nr_free)
  qed (use 2 in auto)
qed simp

lemma rmqueue_smallest_from_weight:
  "rmqueue_smallest_from v z order c = Inr (Some p, v', z') \<Longrightarrow> order \<le> c \<Longrightarrow> zone_weight z' < zone_weight z"
proof (induction v z order c rule: rmqueue_smallest_from.induct)
  case (1 v z order c)
  show ?case
  proof (cases "c < MAX_ORDER")
    case True
    with 1(2) obtain a where a: "area_of z c = Inr a"
      and r: "(case free_list a of [] \<Rightarrow> rmqueue_smallest_from v z order (c + 1)
          | p # ps \<Rightarrow>
              rbind (area_list_del v z c p) (\<lambda>(v1, z1).
                rbind (rmv_page_order v1 p) (\<lambda>v2.
                  rbind (nr_free_dec z1 c) (\<lambda>z2.
                    rbind (expand v2 z2 p order c) (\<lambda>(v3, z3).
                      Inr (Some p, v3, z3)))))) = Inr (Some p, v', z')"
      by (auto simp: rmqueue_smallest_from.simps [of v z] rbind_Inr_iff)
    show ?thesis
    proof (cases "free_list a")
      case Nil
      with 1(1) [OF True a Nil] r 1(3) show ?thesis by simp
    next
      case (Cons q qs)
      with r obtain v1 z1 v2 z2 where
        del: "area_list_del v z c q = Inr (v1, z1)" and dec: "nr_free_dec z1 c = Inr z2"
        and ex: "expand v2 z2 q order c = Inr (v', z')"
        by (auto simp: rbind_Inr_iff)
      have "zone_weight z' + 2 ^ order = zone_weight z2 + 2 ^ c" by (rule expand_weight [OF ex 1(3)])
      with zone_weight_list_del [OF del] zone_weight_nr_free(2) [OF dec]
      have "zone_weight z' + 2 ^ order = zone_weight z" by simp
      moreover have "(0::nat) < 2 ^ order" by simp
      ultimately show ?thesis by linarith
    qed
  qed (use 1(2) in \<open>simp add: rmqueue_smallest_from.simps [of v z]\<close>)
qed

lemma do_rmqueue_weight: "do_rmqueue v z order = Inr (Some p, v', z') \<Longrightarrow> zone_weight z' < zone_weight z"
  by (auto simp: do_rmqueue_def rmqueue_smallest_def rbind_Inr_iff split: option.splits
      dest!: rmqueue_smallest_from_weight)

function rmqueue_retry :: "memmap \<Rightarrow> zone \<Rightarrow> nat \<Rightarrow> (nat option \<times> memmap \<times> zone) res" where
  "rmqueue_retry v z order =
     rbind (do_rmqueue v z order) (\<lambda>r.
       case r of (None, v1, z1) \<Rightarrow> Inr (None, v1, z1)
       | (Some p, v1, z1) \<Rightarrow>
           rbind (check_new_pages v1 p order) (\<lambda>bad.
             if bad then rmqueue_retry v1 z1 order else Inr (Some p, v1, z1)))"
  by pat_completeness auto
termination
  by (relation "measure (\<lambda>(v, z, n). zone_weight z)") (auto intro: do_rmqueue_weight)

declare rmqueue_retry.simps [simp del]

section \<open>Per-CPU lists\<close>

text \<open>
  The first loop of \<^verbatim>\<open>free_pcppages_bulk\<close>, one page per round: the page at the tail of the list is
  unlinked and, unless its check fails, collected in \<open>head\<close>.  With an empty list the loop
  \<^verbatim>\<open>do { batch_free++; } while (list_empty(list))\<close> goes round for ever.
\<close>

function pcp_take ::
  "memmap \<Rightarrow> nat list \<Rightarrow> int \<Rightarrow> nat list \<Rightarrow> int \<Rightarrow> int \<Rightarrow> (memmap \<times> nat list \<times> int \<times> nat list) res" where
  "pcp_take v lst pcount head count batch_free =
     (if lst = [] then Inl Spin
      else let p = last lst; rest = butlast lst in
        rbind (lru_write v p) (\<lambda>v1.
          rbind (bulkfree_pcp_prepare v1 p) (\<lambda>bad.
            rbind (if bad then Inr (v1, head) else rbind (lru_write v1 p) (\<lambda>v2. Inr (v2, head @ [p])))
              (\<lambda>(v2, head1).
                if count - 1 = 0 then Inr (v2, rest, pcount - 1, head1)
                else if batch_free - 1 \<noteq> 0 \<and> rest \<noteq> []
                  then pcp_take v2 rest (pcount - 1) head1 (count - 1) (batch_free - 1)
                else pcp_take v2 rest (pcount - 1) head1 (count - 1) (batch_free - 1 + 1)))))"
  by pat_completeness auto
termination
  by (relation "measure (\<lambda>(v, lst, c, h, n, b). length lst)") auto

declare pcp_take.simps [simp del]

primrec free_list_pages :: "memblock \<Rightarrow> nat list \<Rightarrow> memmap \<Rightarrow> zone \<Rightarrow> (memmap \<times> zone) res" where
  "free_list_pages mb [] v z = Inr (v, z)"
| "free_list_pages mb (p # ps) v z =
     rbind (do_free_one_page mb v z p 0) (\<lambda>(v1, z1). free_list_pages mb ps v1 z1)"

definition free_pcppages_bulk ::
  "memblock \<Rightarrow> memmap \<Rightarrow> zone \<Rightarrow> int \<Rightarrow> per_cpu_pages \<Rightarrow> (memmap \<times> zone \<times> per_cpu_pages) res" where
  "free_pcppages_bulk mb v z count pcp =
     rbind (if count \<noteq> 0 then pcp_take v (pcp_lists pcp) (pcp_count pcp) [] count 1
            else Inr (v, pcp_lists pcp, pcp_count pcp, []))
       (\<lambda>(v1, lst, pcount, head).
         rbind (free_list_pages mb head v1 z) (\<lambda>(v2, z1).
           Inr (v2, z1, pcp\<lparr>pcp_lists := lst, pcp_count := pcount\<rparr>)))"

primrec rmqueue_bulk ::
  "nat \<Rightarrow> memmap \<Rightarrow> zone \<Rightarrow> nat \<Rightarrow> nat list \<Rightarrow> int \<Rightarrow> (int \<times> memmap \<times> zone \<times> nat list) res" where
  "rmqueue_bulk 0 v z order lst alloced = Inr (alloced, v, z, lst)"
| "rmqueue_bulk (Suc count) v z order lst alloced =
     rbind (do_rmqueue v z order) (\<lambda>r.
       case r of (None, v1, z1) \<Rightarrow> Inr (alloced, v1, z1, lst)
       | (Some p, v1, z1) \<Rightarrow>
           rbind (check_pcp_refill v1 p) (\<lambda>bad.
             if bad then rmqueue_bulk count v1 z1 order lst alloced
             else rbind (lru_write v1 p) (\<lambda>v2.
               rmqueue_bulk count v2 z1 order (lst @ [p]) (alloced + 1))))"

text \<open>
  \<^verbatim>\<open>check_new_pcp\<close> is constantly false, so the loop of \<^verbatim>\<open>__rmqueue_pcplist\<close> has one round.
  The signed \<^verbatim>\<open>batch\<close> becomes a \<^verbatim>\<open>u64\<close> count.
\<close>

definition do_rmqueue_pcplist ::
  "memmap \<Rightarrow> zone \<Rightarrow> per_cpu_pages \<Rightarrow> (nat option \<times> memmap \<times> zone \<times> per_cpu_pages) res" where
  "do_rmqueue_pcplist v z pcp =
     rbind
       (if pcp_lists pcp = [] then
          rbind (rmqueue_bulk (nat (pcp_batch pcp mod 2 ^ 64)) v z 0 (pcp_lists pcp) 0) (\<lambda>(n, v1, z1, lst).
            Inr (v1, z1, pcp\<lparr>pcp_count := pcp_count pcp + n, pcp_lists := lst\<rparr>))
        else Inr (v, z, pcp))
       (\<lambda>(v1, z1, pcp1).
         case pcp_lists pcp1 of [] \<Rightarrow> Inr (None, v1, z1, pcp1)
         | p # ps \<Rightarrow>
             rbind (lru_write v1 p) (\<lambda>v2.
               Inr (Some p, v2, z1, pcp1\<lparr>pcp_lists := ps, pcp_count := pcp_count pcp1 - 1\<rparr>)))"

section \<open>The memory of the node\<close>

record mm =
  node_zones :: "zone list"
  nr_zones :: nat
  vmemmap :: memmap
  pagesets :: "per_cpu_pages list"
  highest_memmap_pfn :: nat
  nr_kernel_pages :: nat
  nr_all_pages :: nat
  boot_mem :: memblock
  ram :: "nat \<Rightarrow> nat \<Rightarrow> byte"

definition zone_at :: "mm \<Rightarrow> nat \<Rightarrow> zone res" where
  "zone_at s i = (if i < length (node_zones s) then Inr (node_zones s ! i) else Inl Oob)"

definition put_zone :: "nat \<Rightarrow> zone \<Rightarrow> mm \<Rightarrow> mm" where
  "put_zone i z s = s\<lparr>node_zones := (node_zones s)[i := z]\<rparr>"

definition pcp_at :: "mm \<Rightarrow> nat \<Rightarrow> per_cpu_pages res" where
  "pcp_at s i = (if i < length (pagesets s) then Inr (pagesets s ! i) else Inl Oob)"

definition put_pcp :: "nat \<Rightarrow> per_cpu_pages \<Rightarrow> mm \<Rightarrow> mm" where
  "put_pcp i c s = s\<lparr>pagesets := (pagesets s)[i := c]\<rparr>"

section \<open>Release\<close>

definition free_unref_page_commit :: "mm \<Rightarrow> nat \<Rightarrow> mm res" where
  "free_unref_page_commit s p =
     rbind (page_zonenum (vmemmap s) p) (\<lambda>i. rbind (zone_at s i) (\<lambda>z.
       rbind (pcp_at s (pageset z)) (\<lambda>pcp.
         rbind (lru_write (vmemmap s) p) (\<lambda>v1.
           let pcp1 = pcp\<lparr>pcp_lists := p # pcp_lists pcp, pcp_count := pcp_count pcp + 1\<rparr> in
           if pcp_count pcp1 \<ge> pcp_high pcp1 then
             rbind (free_pcppages_bulk (boot_mem s) v1 z (pcp_batch pcp1) pcp1) (\<lambda>(v2, z1, pcp2).
               Inr (put_zone i z1 (put_pcp (pageset z) pcp2 (s\<lparr>vmemmap := v2\<rparr>))))
           else Inr (put_pcp (pageset z) pcp1 (s\<lparr>vmemmap := v1\<rparr>))))))"

definition free_unref_page :: "mm \<Rightarrow> nat \<Rightarrow> mm res" where
  "free_unref_page s p =
     rbind (free_unref_page_prepare (vmemmap s) p) (\<lambda>(ok, v1).
       if \<not> ok then Inr (s\<lparr>vmemmap := v1\<rparr>) else free_unref_page_commit (s\<lparr>vmemmap := v1\<rparr>) p)"

definition free_one_page :: "mm \<Rightarrow> nat \<Rightarrow> nat \<Rightarrow> nat \<Rightarrow> mm res" where
  "free_one_page s i p order =
     rbind (zone_at s i) (\<lambda>z.
       rbind (do_free_one_page (boot_mem s) (vmemmap s) z p order) (\<lambda>(v1, z1).
         Inr (put_zone i z1 (s\<lparr>vmemmap := v1\<rparr>))))"

definition free_pages_ok :: "mm \<Rightarrow> nat \<Rightarrow> nat \<Rightarrow> mm res" where
  "free_pages_ok s p order =
     rbind (free_pages_prepare (vmemmap s) p order True) (\<lambda>(ok, v1).
       if \<not> ok then Inr (s\<lparr>vmemmap := v1\<rparr>)
       else rbind (page_zonenum v1 p) (\<lambda>i. free_one_page (s\<lparr>vmemmap := v1\<rparr>) i p order))"

definition free_the_page :: "mm \<Rightarrow> nat \<Rightarrow> nat \<Rightarrow> mm res" where
  "free_the_page s p order = (if order = 0 then free_unref_page s p else free_pages_ok s p order)"

definition do_free_pages :: "mm \<Rightarrow> nat \<Rightarrow> nat \<Rightarrow> mm res" where
  "do_free_pages s p order =
     rbind (put_page_testzero (vmemmap s) p) (\<lambda>(zero, v1).
       if zero then free_the_page (s\<lparr>vmemmap := v1\<rparr>) p order else Inr (s\<lparr>vmemmap := v1\<rparr>))"

text \<open>\<^verbatim>\<open>page_frag_free\<close> from the descriptor of the address on.\<close>

definition page_frag_free :: "mm \<Rightarrow> nat \<Rightarrow> mm res" where
  "page_frag_free s p =
     rbind (compound_head (vmemmap s) p) (\<lambda>h.
       rbind (put_page_testzero (vmemmap s) h) (\<lambda>(zero, v1).
         if zero then rbind (compound_order v1 h) (free_the_page (s\<lparr>vmemmap := v1\<rparr>) h)
         else Inr (s\<lparr>vmemmap := v1\<rparr>)))"

definition put_page :: "mm \<Rightarrow> nat \<Rightarrow> mm res" where
  "put_page s p =
     rbind (compound_head (vmemmap s) p) (\<lambda>h.
       rbind (put_page_testzero (vmemmap s) h) (\<lambda>(zero, v1).
         if zero then rbind (compound_order v1 h) (do_free_pages (s\<lparr>vmemmap := v1\<rparr>) h)
         else Inr (s\<lparr>vmemmap := v1\<rparr>)))"

definition free_reserved_page :: "mm \<Rightarrow> nat \<Rightarrow> mm res" where
  "free_reserved_page s p =
     rbind (ClearPageReserved (vmemmap s) p) (\<lambda>v1.
       rbind (init_page_count v1 p) (\<lambda>v2. do_free_pages (s\<lparr>vmemmap := v2\<rparr>) p 0))"

definition mark_page_reserved :: "mm \<Rightarrow> nat \<Rightarrow> mm res" where
  "mark_page_reserved s p = rbind (SetPageReserved (vmemmap s) p) (\<lambda>v1. Inr (s\<lparr>vmemmap := v1\<rparr>))"

definition pgtable_page_ctor :: "mm \<Rightarrow> nat \<Rightarrow> mm res" where
  "pgtable_page_ctor s p = rbind (SetPageTable (vmemmap s) p) (\<lambda>v1. Inr (s\<lparr>vmemmap := v1\<rparr>))"

definition pgtable_page_dtor :: "mm \<Rightarrow> nat \<Rightarrow> mm res" where
  "pgtable_page_dtor s p = rbind (ClearPageTable (vmemmap s) p) (\<lambda>v1. Inr (s\<lparr>vmemmap := v1\<rparr>))"

text \<open>Boot memory enters the allocator.\<close>

primrec unreserve_pages :: "nat \<Rightarrow> memmap \<Rightarrow> nat \<Rightarrow> memmap res" where
  "unreserve_pages 0 v p = Inr v"
| "unreserve_pages (Suc n) v p =
     rbind (ClearPageReserved v p) (\<lambda>v1. rbind (set_page_count v1 p 0) (\<lambda>v2. unreserve_pages n v2 (p + 1)))"

definition free_pages_boot_core :: "mm \<Rightarrow> nat \<Rightarrow> nat \<Rightarrow> mm res" where
  "free_pages_boot_core s p order =
     rbind (unreserve_pages (2 ^ order) (vmemmap s) p) (\<lambda>v1.
       rbind (page_zonenum v1 p) (\<lambda>i. rbind (zone_at s i) (\<lambda>z.
         let s1 = put_zone i (z\<lparr>managed_pages := add64 (managed_pages z) (2 ^ order)\<rparr>) (s\<lparr>vmemmap := v1\<rparr>) in
         rbind (set_page_refcounted v1 p) (\<lambda>v2. do_free_pages (s1\<lparr>vmemmap := v2\<rparr>) p order))))"

definition memblock_free_pages :: "mm \<Rightarrow> nat \<Rightarrow> nat \<Rightarrow> nat \<Rightarrow> mm res" where
  "memblock_free_pages s p pfn order = free_pages_boot_core s p order"

section \<open>Allocation\<close>

definition rmqueue_pcplist :: "mm \<Rightarrow> nat \<Rightarrow> (nat option \<times> mm) res" where
  "rmqueue_pcplist s i =
     rbind (zone_at s i) (\<lambda>z. rbind (pcp_at s (pageset z)) (\<lambda>pcp.
       rbind (do_rmqueue_pcplist (vmemmap s) z pcp) (\<lambda>(r, v1, z1, pcp1).
         Inr (r, put_zone i z1 (put_pcp (pageset z) pcp1 (s\<lparr>vmemmap := v1\<rparr>))))))"

definition rmqueue :: "mm \<Rightarrow> nat \<Rightarrow> nat \<Rightarrow> (nat option \<times> mm) res" where
  "rmqueue s i order =
     (if order = 0 then rmqueue_pcplist s i
      else rbind (zone_at s i) (\<lambda>z.
        rbind (rmqueue_retry (vmemmap s) z order) (\<lambda>(r, v1, z1).
          Inr (r, put_zone i z1 (s\<lparr>vmemmap := v1\<rparr>)))))"

definition post_alloc_hook :: "memmap \<Rightarrow> nat \<Rightarrow> memmap res" where
  "post_alloc_hook v p = rbind (set_page_private v p 0) (\<lambda>v1. set_page_refcounted v1 p)"

primrec prep_tails :: "nat \<Rightarrow> memmap \<Rightarrow> nat \<Rightarrow> nat \<Rightarrow> memmap res" where
  "prep_tails 0 v p i = Inr v"
| "prep_tails (Suc n) v p i =
     rbind (set_page_count v (p + i) 0) (\<lambda>v1.
       rbind (set_compound_head v1 (p + i) p) (\<lambda>v2. prep_tails n v2 p (i + 1)))"

definition prep_compound_page :: "memmap \<Rightarrow> nat \<Rightarrow> nat \<Rightarrow> memmap res" where
  "prep_compound_page v p order =
     rbind (set_compound_order v p order) (\<lambda>v1.
       rbind (SetPageHead v1 p) (\<lambda>v2. prep_tails (2 ^ order - 1) v2 p 1))"

definition clear_pages :: "nat \<Rightarrow> nat \<Rightarrow> (nat \<Rightarrow> nat \<Rightarrow> byte) \<Rightarrow> nat \<Rightarrow> nat \<Rightarrow> byte" where
  "clear_pages p n r = (\<lambda>q. if p \<le> q \<and> q < p + n then \<lambda>_. 0 else r q)"

definition prep_new_page :: "mm \<Rightarrow> nat \<Rightarrow> nat \<Rightarrow> gfp \<Rightarrow> mm res" where
  "prep_new_page s p order gfp_flags =
     rbind (post_alloc_hook (vmemmap s) p) (\<lambda>v1.
       let s1 = s\<lparr>ram := if gfp_flags AND GFP_ZERO \<noteq> 0 then clear_pages p (2 ^ order) (ram s) else ram s\<rparr> in
       rbind (if order \<noteq> 0 then prep_compound_page v1 p order else Inr v1) (\<lambda>v2.
         Inr (s1\<lparr>vmemmap := v2\<rparr>)))"

definition get_page_from_freelist :: "mm \<Rightarrow> gfp \<Rightarrow> nat \<Rightarrow> nat \<Rightarrow> (nat option \<times> mm) res" where
  "get_page_from_freelist s gfp_mask order zoneidx =
     rbind (rmqueue s zoneidx order) (\<lambda>r.
       case r of (None, s1) \<Rightarrow> Inr (None, s1)
       | (Some p, s1) \<Rightarrow> rbind (prep_new_page s1 p order gfp_mask) (\<lambda>s2. Inr (Some p, s2)))"

definition alloc_pages_slowpath :: "mm \<Rightarrow> gfp \<Rightarrow> nat \<Rightarrow> nat \<Rightarrow> (nat option \<times> mm) res" where
  "alloc_pages_slowpath s gfp_mask order zoneidx = Inr (None, s)"

definition alloc_pages :: "mm \<Rightarrow> gfp \<Rightarrow> nat \<Rightarrow> (nat option \<times> mm) res" where
  "alloc_pages s gfp_mask order =
     (if order \<ge> MAX_ORDER then Inr (None, s)
      else let zoneidx = gfp_zone gfp_mask in
        rbind (get_page_from_freelist s gfp_mask order zoneidx) (\<lambda>(r, s1).
          if r \<noteq> None then Inr (r, s1) else alloc_pages_slowpath s1 gfp_mask order zoneidx))"

section \<open>Inspection\<close>

function is_free_buddy_from :: "memmap \<Rightarrow> nat \<Rightarrow> nat \<Rightarrow> nat res" where
  "is_free_buddy_from v pfn order =
     (if order < MAX_ORDER then
        let page_head = pfn - (pfn AND (2 ^ order - 1)) in
        rbind (PageBuddy v page_head) (\<lambda>b.
          rbind (if b then page_order v page_head else Inr 0) (\<lambda>n.
            if b \<and> n \<ge> order then Inr order else is_free_buddy_from v pfn (order + 1)))
      else Inr order)"
  by pat_completeness auto
termination
  by (relation "measure (\<lambda>(v, p, n). MAX_ORDER - n)") auto

declare is_free_buddy_from.simps [simp del]

definition is_free_buddy_page :: "mm \<Rightarrow> nat \<Rightarrow> bool res" where
  "is_free_buddy_page s p =
     rbind (page_zonenum (vmemmap s) p) (\<lambda>i. rbind (zone_at s i) (\<lambda>z.
       rbind (is_free_buddy_from (vmemmap s) p 0) (\<lambda>n. Inr (n < MAX_ORDER))))"

end
