(* ===== verification/Buddy_Map.thy ===== *)
theory Buddy_Map
  imports Page
begin

text \<open>
  The abstract buddy system: a map from the first frame of a free block to its order.  A map
  is well formed when its blocks are aligned and disjoint and no two buddies are both free.  The
  lemmas say what removing, merging, inserting and splitting a block do to the set of free
  frames.
\<close>

type_synonym bmap = "nat \<rightharpoonup> nat"

definition blk :: "nat \<Rightarrow> nat \<Rightarrow> nat set" where
  "blk p n = {p..<p + 2 ^ n}"

definition cover :: "bmap \<Rightarrow> nat set" where
  "cover H = {q. \<exists>p n. H p = Some n \<and> q \<in> blk p n}"

definition bmap_ok :: "bmap \<Rightarrow> bool" where
  "bmap_ok H \<longleftrightarrow>
     (\<forall>p n. H p = Some n \<longrightarrow> n < MAX_ORDER \<and> 2 ^ n dvd p) \<and>
     (\<forall>p n q m. H p = Some n \<and> H q = Some m \<and> p \<noteq> q \<longrightarrow> blk p n \<inter> blk q m = {}) \<and>
     (\<forall>p n. H p = Some n \<and> n < MAX_ORDER - 1 \<longrightarrow> H (find_buddy_pfn p n) \<noteq> Some n)"

lemma blk_self [simp]: "p \<in> blk p n"
  by (simp add: blk_def)

lemma finite_blk [simp]: "finite (blk p n)"
  by (simp add: blk_def)

lemma card_blk [simp]: "card (blk p n) = 2 ^ n"
  by (simp add: blk_def)

lemma blk_0 [simp]: "blk p 0 = {p}"
  by (auto simp: blk_def)

lemma blk_Suc: "blk p (Suc n) = blk p n \<union> blk (p + 2 ^ n) n" "blk p n \<inter> blk (p + 2 ^ n) n = {}"
  by (auto simp: blk_def)

lemma coverI: "H p = Some n \<Longrightarrow> q \<in> blk p n \<Longrightarrow> q \<in> cover H"
  by (auto simp: cover_def)

lemma cover_head: "H p = Some n \<Longrightarrow> p \<in> cover H"
  by (rule coverI [OF _ blk_self])

lemma cover_empty [simp]: "cover Map.empty = {}"
  by (simp add: cover_def)

lemma bmap_ok_empty [simp]: "bmap_ok Map.empty"
  by (simp add: bmap_ok_def)

lemma bmap_okD:
  assumes "bmap_ok H" and "H p = Some n"
  shows "n < MAX_ORDER" "2 ^ n dvd p" "n < MAX_ORDER - 1 \<Longrightarrow> H (find_buddy_pfn p n) \<noteq> Some n"
  using assms by (simp_all add: bmap_ok_def)

lemma bmap_ok_disjoint:
  assumes "bmap_ok H" and "H p = Some n" and "H q = Some m" and "p \<noteq> q"
  shows "blk p n \<inter> blk q m = {}"
  using assms unfolding bmap_ok_def by blast

section \<open>Buddies\<close>

lemma add_pow_or:
  fixes q :: nat
  assumes "2 ^ Suc n dvd q"
  shows "q + 2 ^ n = q OR 2 ^ n" and "\<not> bit q n"
proof -
  from assms obtain k where k: "q = 2 ^ Suc n * k" by (auto simp: dvd_def)
  then have "q div 2 ^ n = 2 * k" by simp
  then show "\<not> bit q n" by (simp add: bit_iff_odd)
  then show "q + 2 ^ n = q OR 2 ^ n"
    by (intro disjunctive_add) (auto simp: bit_exp_iff)
qed

lemma buddy_low:
  assumes "2 ^ Suc n dvd q" shows "find_buddy_pfn q n = q + 2 ^ n" and "find_buddy_pfn (q + 2 ^ n) n = q"
    and "q AND (q + 2 ^ n) = q"
  unfolding find_buddy_pfn_def add_pow_or(1) [OF assms]
  using add_pow_or(2) [OF assms]
  by (auto intro!: bit_eqI simp: bit_simps)

lemma buddy_cases:
  assumes "2 ^ n dvd p"
  obtains (low) "2 ^ Suc n dvd p" "find_buddy_pfn p n = p + 2 ^ n" "find_buddy_pfn p n AND p = p"
  | (high) q where "2 ^ Suc n dvd q" "p = q + 2 ^ n" "find_buddy_pfn p n = q" "find_buddy_pfn p n AND p = q"
proof -
  from assms obtain k where k: "p = 2 ^ n * k" by (auto simp: dvd_def)
  show thesis
  proof (cases "even k")
    case True
    with k have d: "2 ^ Suc n dvd p" by (auto elim!: evenE)
    show thesis by (rule low) (use buddy_low [OF d] d in \<open>simp_all add: and.commute\<close>)
  next
    case False
    define q where "q = 2 ^ n * (k - 1)"
    have d: "2 ^ Suc n dvd q" using False by (auto simp: q_def elim!: oddE)
    have p: "p = q + 2 ^ n" using False k by (auto simp: q_def elim!: oddE)
    show thesis by (rule high [of q]) (use buddy_low [OF d] d p in simp_all)
  qed
qed

lemma buddy_blocks:
  assumes "2 ^ n dvd p"
  defines "b \<equiv> find_buddy_pfn p n"
  shows "2 ^ n dvd b" "2 ^ Suc n dvd b AND p" "blk (b AND p) (Suc n) = blk p n \<union> blk b n"
    "blk p n \<inter> blk b n = {}" "find_buddy_pfn b n = p" "b \<noteq> p"
proof -
  have a: "2 ^ n dvd q" if "2 ^ Suc n dvd q" for q :: nat
    using that by (rule dvd_trans [rotated]) simp
  have "2 ^ n dvd b \<and> 2 ^ Suc n dvd b AND p \<and> blk (b AND p) (Suc n) = blk p n \<union> blk b n \<and>
      blk p n \<inter> blk b n = {} \<and> find_buddy_pfn b n = p \<and> b \<noteq> p"
    using assms(1)
  proof (cases rule: buddy_cases)
    case low
    then have b: "b = p + 2 ^ n" "b AND p = p" by (simp_all only: b_def)
    show ?thesis
      unfolding b(2) blk_Suc(1) using blk_Suc(2) [of p n] buddy_low(2) [OF low(1)] a [OF low(1)] low(1)
      by (simp add: b(1))
  next
    case (high q)
    then have b: "b = q" "b AND p = q" by (simp_all only: b_def)
    show ?thesis
      unfolding b(2) blk_Suc(1) using blk_Suc(2) [of q n] buddy_low(1) [OF high(1)] a [OF high(1)] high(1)
      by (simp add: b(1) high(2) Un_commute Int_commute)
  qed
  then show "2 ^ n dvd b" "2 ^ Suc n dvd b AND p" "blk (b AND p) (Suc n) = blk p n \<union> blk b n"
    "blk p n \<inter> blk b n = {}" "find_buddy_pfn b n = p" "b \<noteq> p" by blast+
qed

section \<open>Changing the map\<close>

lemma cover_remove:
  assumes "bmap_ok H" and "H p = Some n"
  shows "cover (H(p := None)) = cover H - blk p n" and "blk p n \<subseteq> cover H"
proof -
  show "blk p n \<subseteq> cover H" using assms(2) by (auto intro: coverI)
  show "cover (H(p := None)) = cover H - blk p n"
  proof (intro set_eqI iffI)
    fix x assume "x \<in> cover (H(p := None))"
    then obtain q m where q: "H q = Some m" "x \<in> blk q m" "p \<noteq> q" by (auto simp: cover_def split: if_splits)
    with bmap_ok_disjoint [OF assms(1,2) q(1)] show "x \<in> cover H - blk p n" by (auto intro: coverI)
  next
    fix x assume "x \<in> cover H - blk p n"
    then obtain q m where "H q = Some m" "x \<in> blk q m" "x \<notin> blk p n" by (auto simp: cover_def)
    with assms(2) have "(H(p := None)) q = Some m" by (cases "q = p") auto
    then show "x \<in> cover (H(p := None))" using \<open>x \<in> blk q m\<close> by (rule coverI)
  qed
qed

lemma bmap_ok_remove: "bmap_ok H \<Longrightarrow> bmap_ok (H(p := None))"
  by (auto simp: bmap_ok_def split: if_splits)

lemma cover_insert:
  assumes "H p = None" shows "cover (H(p \<mapsto> n)) = cover H \<union> blk p n"
proof (intro set_eqI iffI)
  fix x assume "x \<in> cover H \<union> blk p n"
  then show "x \<in> cover (H(p \<mapsto> n))"
  proof
    assume "x \<in> cover H"
    then obtain q m where q: "H q = Some m" "x \<in> blk q m" by (auto simp: cover_def)
    with assms have "(H(p \<mapsto> n)) q = Some m" by (cases "q = p") auto
    then show ?thesis using q(2) by (rule coverI)
  next
    assume "x \<in> blk p n"
    then show ?thesis by (intro coverI [of "H(p \<mapsto> n)" p n]) simp_all
  qed
qed (auto simp: cover_def split: if_splits)

lemma bmap_ok_insert:
  assumes "bmap_ok H" and "n < MAX_ORDER" and "2 ^ n dvd p" and "blk p n \<inter> cover H = {}"
    and "n < MAX_ORDER - 1 \<Longrightarrow> H (find_buddy_pfn p n) \<noteq> Some n"
  shows "bmap_ok (H(p \<mapsto> n))"
proof -
  have d: "blk p n \<inter> blk q m = {}" if "H q = Some m" for q m
    using assms(4) that by (auto intro: coverI)
  have b: "find_buddy_pfn q n = p \<longleftrightarrow> q = find_buddy_pfn p n" if "2 ^ n dvd q" for q
    using buddy_blocks(5) [OF assms(3)] buddy_blocks(5) [OF that] by auto
  show ?thesis
    unfolding bmap_ok_def
  proof (intro conjI allI impI; (elim conjE)?)
    fix q m assume "(H(p \<mapsto> n)) q = Some m"
    then show "m < MAX_ORDER" "2 ^ m dvd q"
      using assms(1-3) by (auto dest: bmap_okD split: if_splits)
  next
    fix q m r k assume "(H(p \<mapsto> n)) q = Some m" "(H(p \<mapsto> n)) r = Some k" "q \<noteq> r"
    then show "blk q m \<inter> blk r k = {}"
      using d [of q m] d [of r k] bmap_ok_disjoint [OF assms(1)]
      by (auto split: if_splits)
  next
    fix q m assume q: "(H(p \<mapsto> n)) q = Some m" "m < MAX_ORDER - 1"
    show "(H(p \<mapsto> n)) (find_buddy_pfn q m) \<noteq> Some m"
    proof (cases "q = p")
      case True
      then show ?thesis using q assms(5) buddy_blocks(6) [OF assms(3)] by auto
    next
      case False
      with q have Hq: "H q = Some m" by simp
      with assms(1) q(2) have "H (find_buddy_pfn q m) \<noteq> Some m" "2 ^ m dvd q" by (auto dest: bmap_okD)
      moreover have "\<not> (find_buddy_pfn q m = p \<and> m = n)"
        using b [of q] Hq assms(5) q(2) \<open>2 ^ m dvd q\<close> by auto
      ultimately show ?thesis by auto
    qed
  qed
qed

lemma bmap_merge:
  assumes "bmap_ok H" and "2 ^ n dvd p" and "blk p n \<inter> cover H = {}"
    and "H (find_buddy_pfn p n) = Some n"
  defines "b \<equiv> find_buddy_pfn p n"
  shows "bmap_ok (H(b := None))" "2 ^ Suc n dvd b AND p"
    "blk (b AND p) (Suc n) \<inter> cover (H(b := None)) = {}"
    "cover (H(b := None)) \<union> blk (b AND p) (Suc n) = cover H \<union> blk p n"
proof -
  note bb = buddy_blocks [OF assms(2), folded b_def]
  have Hb: "H b = Some n" using assms(4) by (simp add: b_def)
  note c = cover_remove [OF assms(1) Hb]
  show "bmap_ok (H(b := None))" by (rule bmap_ok_remove [OF assms(1)])
  show "2 ^ Suc n dvd b AND p" by (rule bb(2))
  show "blk (b AND p) (Suc n) \<inter> cover (H(b := None)) = {}"
    using assms(3) unfolding c(1) bb(3) by blast
  show "cover (H(b := None)) \<union> blk (b AND p) (Suc n) = cover H \<union> blk p n"
    using c(2) unfolding c(1) bb(3) by blast
qed

lemma bmap_split:
  assumes "bmap_ok H" and "2 ^ Suc n dvd p" and "blk p (Suc n) \<inter> cover H = {}" and "Suc n < MAX_ORDER"
  shows "bmap_ok (H(p + 2 ^ n \<mapsto> n))" "2 ^ n dvd p"
    "cover (H(p + 2 ^ n \<mapsto> n)) = cover H \<union> blk (p + 2 ^ n) n"
    "blk p n \<inter> cover (H(p + 2 ^ n \<mapsto> n)) = {}" "H (p + 2 ^ n) = None"
proof -
  have sub: "p \<notin> cover H" "blk (p + 2 ^ n) n \<inter> cover H = {}" "blk p n \<inter> cover H = {}"
    using assms(3) blk_self [of p n] unfolding blk_Suc(1) by blast+
  have none: "H q = None" if "q \<notin> cover H" for q
    using that cover_head [of H q] by (cases "H q") auto
  show d: "2 ^ n dvd p" using assms(2) by (rule dvd_trans [rotated]) simp
  show hn: "H (p + 2 ^ n) = None" using sub(2) blk_self [of "p + 2 ^ n" n] by (intro none) blast
  show "bmap_ok (H(p + 2 ^ n \<mapsto> n))"
    using none [OF sub(1)] assms(4) d sub(2)
    by (intro bmap_ok_insert [OF assms(1)]) (simp_all add: buddy_low(2) [OF assms(2)])
  show c: "cover (H(p + 2 ^ n \<mapsto> n)) = cover H \<union> blk (p + 2 ^ n) n"
    by (rule cover_insert [where H = H, OF hn])
  show "blk p n \<inter> cover (H(p + 2 ^ n \<mapsto> n)) = {}"
    unfolding c using sub(3) blk_Suc(2) by blast
qed

end
