(* ===== verification/Buddy_Zone.thy ===== *)
theory Buddy_Zone
  imports Page_Alloc Buddy_Map
begin

text \<open>
  The invariant of the free lists of one zone, and that the operations of
  \<^verbatim>\<open>mm/page_alloc.c\<close> on the lists refine the abstract buddy system of \<open>Buddy_Map\<close>.
\<close>

section \<open>Descriptors of free pages\<close>

definition lru0 :: "page \<Rightarrow> page" where
  "lru0 x = x\<lparr>head_word := None, order_byte := None\<rparr>"

definition rmv_order :: "page \<Rightarrow> page" where
  "rmv_order x = x\<lparr>page_flags := unset_bit PG_buddy (page_flags x), priv := 0\<rparr>"

definition put_order :: "nat \<Rightarrow> page \<Rightarrow> page" where
  "put_order n x = x\<lparr>priv := n, page_flags := set_bit PG_buddy (page_flags x)\<rparr>"

definition is_buddy :: "page \<Rightarrow> bool" where
  "is_buddy x = bit (page_flags x) PG_buddy"

text \<open>
  An idle page has no reference, is no tail and has no flag set but perhaps \<^verbatim>\<open>PG_buddy\<close>.
\<close>

definition idle :: "nat \<Rightarrow> page \<Rightarrow> bool" where
  "idle i x \<longleftrightarrow> zonenum x = i \<and> refcount x = 0 \<and> head_word x = None \<and>
     unset_bit PG_buddy (page_flags x) AND PAGE_FLAGS_CHECK_AT_PREP = 0"

lemmas PG_defs = PG_locked_def PG_head_def PG_buddy_def PG_slab_def PG_arch_def PG_table_def
  PG_reserved_def NR_PAGEFLAGS_def

lemma check_at_prep_mask: "PAGE_FLAGS_CHECK_AT_PREP = mask 7"
  by (simp add: PAGE_FLAGS_CHECK_AT_PREP_def PG_HWPOISON_def NR_PAGEFLAGS_def mask_eq_exp_minus_1)

lemma zonenum_eq: "zonenum x = unat (drop_bit 62 (page_flags x))"
proof -
  have m: "ZONES_MASK = mask 2" by (simp add: ZONES_MASK_def ZONES_SHIFT_def mask_eq_exp_minus_1)
  have "drop_bit 62 (page_flags x) AND mask 2 = drop_bit 62 (page_flags x)"
    by (rule bit_eqI) (auto simp: bit_simps dest: bit_imp_le_length)
  then show ?thesis by (simp add: zonenum_def m ZONES_PGSHIFT_def ZONES_SHIFT_def)
qed

lemma zonenum_low [simp]:
  "n < 62 \<Longrightarrow> drop_bit 62 (set_bit n w) = drop_bit 62 w"
  "n < 62 \<Longrightarrow> drop_bit 62 (unset_bit n w) = drop_bit 62 w"
  "k \<le> 62 \<Longrightarrow> drop_bit 62 (w AND NOT (mask k)) = drop_bit 62 w" for w :: "64 word"
  by (auto intro!: bit_eqI simp: bit_simps dest: bit_imp_le_length) (auto dest!: bit_imp_le_length)

lemma not_poisoned: "zonenum x < MAX_NR_ZONES \<Longrightarrow> page_flags x \<noteq> - 1"
  by (auto simp: zonenum_eq MAX_NR_ZONES_def mask_eq_exp_minus_1)

lemma zonenum_upd [simp]:
  "zonenum (lru0 x) = zonenum x" "zonenum (rmv_order x) = zonenum x" "zonenum (put_order n x) = zonenum x"
  "zonenum (x\<lparr>refcount := c\<rparr>) = zonenum x" "zonenum (x\<lparr>head_word := h\<rparr>) = zonenum x"
  "zonenum (x\<lparr>priv := m\<rparr>) = zonenum x"
  by (simp_all add: zonenum_eq lru0_def rmv_order_def put_order_def PG_buddy_def)

lemma is_buddy_upd [simp]:
  "is_buddy (lru0 x) = is_buddy x" "\<not> is_buddy (rmv_order x)" "is_buddy (put_order n x)"
  by (simp_all add: is_buddy_def lru0_def rmv_order_def put_order_def PG_buddy_def bit_simps)

lemma priv_upd [simp]:
  "priv (lru0 x) = priv x" "priv (rmv_order x) = 0" "priv (put_order n x) = n"
  by (simp_all add: lru0_def rmv_order_def put_order_def)

lemma unset_bit_set_unset [simp]:
  "unset_bit n (set_bit n w) = unset_bit n w" "unset_bit n (unset_bit n w) = unset_bit n w" for w :: "64 word"
  by (auto intro!: bit_eqI simp: bit_simps)

lemma idle_upd [simp]:
  "idle i (rmv_order x) = idle i x" "idle i (put_order n x) = idle i x"
  "idle i x \<Longrightarrow> idle i (lru0 x)"
  by (auto simp: idle_def zonenum_eq lru0_def rmv_order_def put_order_def PG_buddy_def)

lemma idle_flags: "idle i x \<Longrightarrow> \<not> is_buddy x \<Longrightarrow> page_flags x AND PAGE_FLAGS_CHECK_AT_PREP = 0"
proof -
  assume a: "idle i x" "\<not> is_buddy x"
  then have "unset_bit PG_buddy (page_flags x) = page_flags x"
    by (auto simp: is_buddy_def intro!: bit_eqI simp: bit_simps)
  with a(1) show ?thesis by (simp add: idle_def)
qed

section \<open>The map of a zone\<close>

definition buddy_map :: "memmap \<Rightarrow> nat \<Rightarrow> bmap" where
  "buddy_map v i p =
     (if p < length v \<and> zonenum (v ! p) = i \<and> is_buddy (v ! p) then Some (priv (v ! p)) else None)"

lemma buddy_map_update:
  "b < length v \<Longrightarrow> buddy_map (v[b := x]) i =
   (buddy_map v i)(b := if zonenum x = i \<and> is_buddy x then Some (priv x) else None)"
  by (rule ext) (simp add: buddy_map_def nth_list_update)

lemma buddy_map_Some:
  "buddy_map v i p = Some n \<longleftrightarrow> p < length v \<and> zonenum (v ! p) = i \<and> is_buddy (v ! p) \<and> priv (v ! p) = n"
  by (auto simp: buddy_map_def)

lemma buddy_coverI: "buddy_map v i p = Some n \<Longrightarrow> q \<in> blk p n \<Longrightarrow> q \<in> cover (buddy_map v i)"
  by (rule coverI)

lemma buddy_cover_head: "buddy_map v i p = Some n \<Longrightarrow> p \<in> cover (buddy_map v i)"
  by (rule cover_head)

definition pages_idle :: "memblock \<Rightarrow> memmap \<Rightarrow> nat \<Rightarrow> nat set \<Rightarrow> bool" where
  "pages_idle mb v i S \<longleftrightarrow> (\<forall>q\<in>S. q < length v \<and> idle i (v ! q) \<and> pfn_valid mb q)"

definition fresh :: "memblock \<Rightarrow> memmap \<Rightarrow> nat \<Rightarrow> nat set \<Rightarrow> bool" where
  "fresh mb v i S \<longleftrightarrow> pages_idle mb v i S \<and> (\<forall>q\<in>S. \<not> is_buddy (v ! q))"

definition lists_ok :: "zone \<Rightarrow> bmap \<Rightarrow> bool" where
  "lists_ok z H \<longleftrightarrow> length (free_area z) = MAX_ORDER \<and> dom H \<subseteq> {..<2 ^ 52} \<and>
     (\<forall>n<MAX_ORDER. distinct (free_list (free_area z ! n)) \<and>
        set (free_list (free_area z ! n)) = {p. H p = Some n} \<and>
        nr_free (free_area z ! n) = length (free_list (free_area z ! n)))"

definition vmem_ok :: "memblock \<Rightarrow> memmap \<Rightarrow> bool" where
  "vmem_ok mb v \<longleftrightarrow> length v \<le> 2 ^ 52 \<and>
     (\<forall>q. pfn_valid mb q \<longrightarrow> q < length v \<and> zonenum (v ! q) < MAX_NR_ZONES \<and>
        (is_buddy (v ! q) \<longrightarrow> idle (zonenum (v ! q)) (v ! q)))"

definition zone_inv :: "memblock \<Rightarrow> memmap \<Rightarrow> nat \<Rightarrow> zone \<Rightarrow> bool" where
  "zone_inv mb v i z \<longleftrightarrow> i < MAX_NR_ZONES \<and> initialized z \<and> vmem_ok mb v \<and>
     lists_ok z (buddy_map v i) \<and> bmap_ok (buddy_map v i) \<and>
     pages_idle mb v i (cover (buddy_map v i))"

text \<open>Descriptors that an operation leaves alone: those outside \<open>S\<close>, and every zone number.\<close>

definition changes :: "nat set \<Rightarrow> memmap \<Rightarrow> memmap \<Rightarrow> bool" where
  "changes S v v' \<longleftrightarrow> length v' = length v \<and> (\<forall>q<length v. zonenum (v' ! q) = zonenum (v ! q)) \<and>
     (\<forall>q<length v. q \<notin> S \<longrightarrow> v' ! q = v ! q)"

lemma changes_refl [simp]: "changes S v v"
  by (simp add: changes_def)

lemma changes_trans: "changes S v v' \<Longrightarrow> changes T v' v'' \<Longrightarrow> S \<subseteq> U \<Longrightarrow> T \<subseteq> U \<Longrightarrow> changes U v v''"
  unfolding changes_def subset_iff by metis

lemma changes_update:
  "q \<in> S \<Longrightarrow> zonenum x = zonenum (v ! q) \<Longrightarrow> changes S v (v[q := x])"
  unfolding changes_def by (cases "q < length v") (auto simp: nth_list_update)

lemma vmem_ok_update:
  "vmem_ok mb v \<Longrightarrow> zonenum x = zonenum (v ! q) \<Longrightarrow> (is_buddy x \<Longrightarrow> idle (zonenum x) x) \<Longrightarrow>
   vmem_ok mb (v[q := x])"
  unfolding vmem_ok_def by (cases "q < length v") (auto simp: nth_list_update)

definition same_zone :: "zone \<Rightarrow> zone \<Rightarrow> bool" where
  "same_zone z z' \<longleftrightarrow> z'\<lparr>free_area := []\<rparr> = z\<lparr>free_area := []\<rparr>"

lemma same_zone_refl [simp]: "same_zone z z"
  by (simp add: same_zone_def)

lemma same_zone_trans: "same_zone z z' \<Longrightarrow> same_zone z' z'' \<Longrightarrow> same_zone z z''"
  by (simp add: same_zone_def)

lemma same_zone_set_area [simp]: "same_zone z (set_area z' n a) = same_zone z z'"
  by (simp add: same_zone_def set_area_def)

lemma same_zoneD: "same_zone z z' \<Longrightarrow> initialized z' = initialized z" "same_zone z z' \<Longrightarrow> pageset z' = pageset z"
  by (cases z; cases z'; simp add: same_zone_def)+

section \<open>Primitive steps\<close>

lemma rbind_if_Inr: "rbind (if c then Inr a else Inl e) f = (if c then f a else Inl e)"
  by simp

lemma wrp_Inr: "p < length v \<Longrightarrow> wrp v p f = Inr (v[p := f (v ! p)])"
  by (simp add: wrp_def)

lemma rdp_Inr: "p < length v \<Longrightarrow> rdp v p = Inr (v ! p)"
  by (simp add: rdp_def)

lemma lru_write_Inr: "p < length v \<Longrightarrow> lru_write v p = Inr (v[p := lru0 (v ! p)])"
  by (simp add: lru_write_def wrp_Inr lru0_def)

lemma PF_ANY_Inr: "p < length v \<Longrightarrow> page_flags (v ! p) \<noteq> - 1 \<Longrightarrow> PF_ANY e v p = Inr p"
  by (simp add: PF_ANY_def PF_POISONED_CHECK_def rdp_Inr PagePoisoned_def)

lemma PageBuddy_Inr: "p < length v \<Longrightarrow> page_flags (v ! p) \<noteq> - 1 \<Longrightarrow> PageBuddy v p = Inr (is_buddy (v ! p))"
  by (simp add: PageBuddy_def TESTPAGEFLAG_def PF_ANY_Inr rdp_Inr is_buddy_def)

lemma rmv_page_order_Inr:
  assumes "p < length v" and "zonenum (v ! p) < MAX_NR_ZONES"
  shows "rmv_page_order v p = Inr (v[p := rmv_order (v ! p)])"
  using assms not_poisoned [OF assms(2)]
  by (simp add: rmv_page_order_def ClearPageBuddy_def CLEARPAGEFLAG_def PF_ANY_Inr wrp_Inr
      set_page_private_def rmv_order_def)

lemma set_page_order_Inr:
  assumes "p < length v" and "zonenum (v ! p) < MAX_NR_ZONES"
  shows "set_page_order v p n = Inr (v[p := put_order n (v ! p)])"
  using assms not_poisoned [OF assms(2)]
  by (simp add: set_page_order_def SetPageBuddy_def SETPAGEFLAG_def PF_ANY_Inr wrp_Inr
      set_page_private_def put_order_def)

section \<open>Steps on the lists\<close>

lemma lists_ok_bound:
  assumes "lists_ok z H" and "n < MAX_ORDER"
  shows "length (free_list (free_area z ! n)) \<le> 2 ^ 52" and "nr_free (free_area z ! n) = length (free_list (free_area z ! n))"
    and "n < length (free_area z)"
proof -
  have d: "distinct (free_list (free_area z ! n))" and s: "set (free_list (free_area z ! n)) = {p. H p = Some n}"
    and "dom H \<subseteq> {..<2 ^ 52}"
    using assms by (simp_all add: lists_ok_def)
  then have "set (free_list (free_area z ! n)) \<subseteq> {..<2 ^ 52}" by auto
  then have "card (set (free_list (free_area z ! n))) \<le> card {..<(2::nat) ^ 52}" by (intro card_mono) simp_all
  with d show "length (free_list (free_area z ! n)) \<le> 2 ^ 52" by (simp add: distinct_card)
  show "nr_free (free_area z ! n) = length (free_list (free_area z ! n))" and "n < length (free_area z)"
    using assms by (simp_all add: lists_ok_def)
qed

lemma lists_ok_set_area:
  assumes "lists_ok z H" and "n < MAX_ORDER" and "dom H' \<subseteq> {..<2 ^ 52}"
    and "distinct (free_list a)" and "set (free_list a) = {p. H' p = Some n}"
    and "nr_free a = length (free_list a)"
    and "\<And>m. m < MAX_ORDER \<Longrightarrow> m \<noteq> n \<Longrightarrow> {p. H' p = Some m} = {p. H p = Some m}"
  shows "lists_ok (set_area z n a) H'"
  using assms unfolding lists_ok_def by (simp add: set_area_def nth_list_update)

lemma lists_del:
  assumes "lists_ok z H" and "H b = Some n" and "n < MAX_ORDER" and "b < length v"
  obtains z1 z2 where "area_list_del v z n b = Inr (v[b := lru0 (v ! b)], z1)" "nr_free_dec z1 n = Inr z2"
    "lists_ok z2 (H(b := None))" "same_zone z z2"
proof -
  let ?a = "free_area z ! n"
  note bd = lists_ok_bound [OF assms(1,3)]
  have d: "distinct (free_list ?a)" and s: "set (free_list ?a) = {p. H p = Some n}" and dm: "dom H \<subseteq> {..<2 ^ 52}"
    using assms(1,3) by (simp_all add: lists_ok_def)
  have b: "b \<in> set (free_list ?a)" using s assms(2) by simp
  let ?a1 = "?a\<lparr>free_list := remove1 b (free_list ?a)\<rparr>"
  let ?a2 = "?a1\<lparr>nr_free := sub64 (nr_free ?a) 1\<rparr>"
  have len: "length (free_list ?a) = Suc (length (remove1 b (free_list ?a)))"
    by (rule length_remove1_Suc [OF b, symmetric])
  have "nr_free ?a2 = length (free_list ?a2)"
    using bd(1,2) len by (simp add: sub64_exact U64_MAX_def)
  then have "lists_ok (set_area z n ?a2) (H(b := None))"
    using dm d s assms(2) by (intro lists_ok_set_area [OF assms(1,3)]) (auto simp: set_remove1_eq)
  moreover have "area_list_del v z n b = Inr (v[b := lru0 (v ! b)], set_area z n ?a1)"
    using b bd(3) by (simp add: area_list_del_def area_of_def lru_write_Inr assms(4))
  moreover have "nr_free_dec (set_area z n ?a1) n = Inr (set_area z n ?a2)"
    using bd(3) by (simp add: nr_free_dec_def area_of_def set_area_def)
  moreover have "same_zone z (set_area z n ?a2)" by simp
  ultimately show thesis by (intro that) assumption+
qed

lemma lists_ok_add:
  assumes "lists_ok z H" and "H b = None" and "n < MAX_ORDER" and "b < 2 ^ 52"
    and "distinct l" and "set l = insert b (set (free_list (free_area z ! n)))"
    and "length l = Suc (length (free_list (free_area z ! n)))"
  shows "lists_ok (set_area z n ((free_area z ! n)\<lparr>free_list := l, nr_free := add64 (nr_free (free_area z ! n)) 1\<rparr>))
    (H(b \<mapsto> n))"
proof -
  note bd = lists_ok_bound [OF assms(1,3)]
  have "set (free_list (free_area z ! n)) = {p. H p = Some n}" and "dom H \<subseteq> {..<2 ^ 52}"
    using assms(1,3) by (simp_all add: lists_ok_def)
  moreover have "add64 (nr_free (free_area z ! n)) 1 = length l"
    using bd(1,2) assms(7) by (simp add: add64_exact U64_MAX_def)
  ultimately show ?thesis
    using assms(2,4,5,6) by (intro lists_ok_set_area [OF assms(1,3)]) auto
qed

lemma lists_add:
  assumes "lists_ok z H" and "H b = None" and "n < MAX_ORDER" and "b < length v" and "length v \<le> 2 ^ 52"
  obtains z1 z2 where
    "(if tail then area_list_add_tail v z n b else area_list_add v z n b) = Inr (v[b := lru0 (v ! b)], z1)"
    "nr_free_inc z1 n = Inr z2" "lists_ok z2 (H(b \<mapsto> n))" "same_zone z z2"
proof -
  let ?a = "free_area z ! n"
  let ?l = "if tail then free_list ?a @ [b] else b # free_list ?a"
  let ?a1 = "?a\<lparr>free_list := ?l\<rparr>" and ?a2 = "?a\<lparr>free_list := ?l, nr_free := add64 (nr_free ?a) 1\<rparr>"
  have n: "n < length (free_area z)" by (rule lists_ok_bound(3) [OF assms(1,3)])
  have "lists_ok (set_area z n ?a2) (H(b \<mapsto> n))"
    using assms by (intro lists_ok_add) (auto simp: lists_ok_def)
  moreover have "(if tail then area_list_add_tail v z n b else area_list_add v z n b) =
      Inr (v[b := lru0 (v ! b)], set_area z n ?a1)"
    using n by (simp add: area_list_add_tail_def area_list_add_def area_of_def lru_write_Inr assms(4))
  moreover have "nr_free_inc (set_area z n ?a1) n = Inr (set_area z n ?a2)"
    using n by (simp add: nr_free_inc_def area_of_def set_area_def)
  moreover have "same_zone z (set_area z n ?a2)" by simp
  ultimately show thesis by (intro that) assumption+
qed

section \<open>Merging\<close>

lemma page_is_buddy_Inr:
  assumes "vmem_ok mb v" and "p < length v" and "pfn_valid mb b"
  shows "page_is_buddy v p b n =
    Inr (is_buddy (v ! b) \<and> priv (v ! b) mod 2 ^ 32 = n \<and> zonenum (v ! p) = zonenum (v ! b))"
proof -
  have b: "b < length v" "zonenum (v ! b) < MAX_NR_ZONES" "is_buddy (v ! b) \<Longrightarrow> idle (zonenum (v ! b)) (v ! b)"
    using assms(1,3) by (simp_all add: vmem_ok_def)
  then show ?thesis
    using assms(2) not_poisoned [OF b(2)]
    by (auto simp: page_is_buddy_def PageBuddy_Inr page_order_def page_private_def page_zone_id_def
        page_count_def compound_head_def page_ref_count_def rdp_Inr idle_def)
qed

lemma zone_invD:
  assumes "zone_inv mb v i z"
  shows "i < MAX_NR_ZONES" "initialized z" "vmem_ok mb v" "lists_ok z (buddy_map v i)"
    "bmap_ok (buddy_map v i)" "pages_idle mb v i (cover (buddy_map v i))" "length v \<le> 2 ^ 52"
  using assms by (simp_all add: zone_inv_def vmem_ok_def)

lemma inside_not_buddy:
  assumes "zone_inv mb v i z" and "buddy_map v i b = Some n" and "q \<in> blk b n" and "q \<noteq> b"
  shows "\<not> is_buddy (v ! q)"
proof
  assume ib: "is_buddy (v ! q)"
  have "q < length v" "idle i (v ! q)"
    using zone_invD(6) [OF assms(1)] buddy_coverI [OF assms(2,3)] by (simp_all add: pages_idle_def)
  with ib have "buddy_map v i q = Some (priv (v ! q))" by (simp add: buddy_map_def idle_def)
  from bmap_ok_disjoint [OF zone_invD(5) [OF assms(1)] assms(2) this] assms(3,4) show False
    using blk_self [of q "priv (v ! q)"] by blast
qed

lemma zone_inv_remove:
  assumes inv: "zone_inv mb v i z" and b: "buddy_map v i b = Some n"
    and x: "idle i x" "\<not> is_buddy x" and z: "lists_ok z' ((buddy_map v i)(b := None))" "same_zone z z'"
  shows "zone_inv mb (v[b := x]) i z'" "buddy_map (v[b := x]) i = (buddy_map v i)(b := None)"
    "changes (blk b n) v (v[b := x])" "fresh mb (v[b := x]) i (blk b n)"
proof -
  let ?H = "buddy_map v i"
  note D = zone_invD [OF inv]
  have bl: "b < length v" "zonenum (v ! b) = i" using b by (simp_all add: buddy_map_Some)
  have zx: "zonenum x = i" using x(1) by (simp add: idle_def)
  show H: "buddy_map (v[b := x]) i = ?H(b := None)" using bl x(2) by (simp add: buddy_map_update)
  show "changes (blk b n) v (v[b := x])" using zx bl by (intro changes_update) simp_all
  have "vmem_ok mb (v[b := x])" using x(2) zx bl by (intro vmem_ok_update [OF D(3)]) simp_all
  moreover have "pages_idle mb (v[b := x]) i (cover (?H(b := None)))"
    using D(6) x(1) bl(1) unfolding cover_remove [OF D(5) b] pages_idle_def
    by (auto simp: nth_list_update)
  ultimately show "zone_inv mb (v[b := x]) i z'"
    using D z by (simp add: zone_inv_def H bmap_ok_remove same_zoneD)
  have "blk b n \<subseteq> cover ?H" by (rule cover_remove(2) [OF D(5) b])
  then show "fresh mb (v[b := x]) i (blk b n)"
    using D(6) x inside_not_buddy [OF inv b] bl(1) unfolding fresh_def pages_idle_def
    by (auto simp: nth_list_update)
qed

text \<open>A block that may be released: aligned, idle and outside the free blocks.\<close>

definition block_ok :: "memblock \<Rightarrow> memmap \<Rightarrow> nat \<Rightarrow> nat \<Rightarrow> nat \<Rightarrow> bool" where
  "block_ok mb v i p n \<longleftrightarrow> n < MAX_ORDER \<and> 2 ^ n dvd p \<and> blk p n \<inter> cover (buddy_map v i) = {} \<and>
     fresh mb v i (blk p n)"

lemma fresh_changes:
  "fresh mb v i S \<Longrightarrow> changes T v v' \<Longrightarrow> S \<inter> T = {} \<Longrightarrow> fresh mb v' i S"
  unfolding fresh_def pages_idle_def changes_def by (metis disjoint_iff)

lemma fresh_Un: "fresh mb v i (S \<union> T) \<longleftrightarrow> fresh mb v i S \<and> fresh mb v i T"
  by (auto simp: fresh_def pages_idle_def)

lemma buddy_merge_step:
  assumes inv: "zone_inv mb v i z" and blk: "block_ok mb v i p n" and n: "n < MAX_ORDER - 1"
    and b: "buddy_map v i (find_buddy_pfn p n) = Some n"
  defines "b \<equiv> find_buddy_pfn p n"
  obtains v1 v2 z1 z2 where "area_list_del v z n b = Inr (v1, z1)" "nr_free_dec z1 n = Inr z2"
    "rmv_page_order v1 b = Inr v2" "zone_inv mb v2 i z2" "block_ok mb v2 i (b AND p) (Suc n)"
    "cover (buddy_map v2 i) \<union> blk (b AND p) (Suc n) = cover (buddy_map v i) \<union> blk p n"
    "changes (cover (buddy_map v i) \<union> blk p n) v v2" "same_zone z z2"
proof -
  let ?H = "buddy_map v i"
  note D = zone_invD [OF inv]
  have B: "2 ^ n dvd p" "blk p n \<inter> cover ?H = {}" "fresh mb v i (blk p n)" "n < MAX_ORDER"
    using blk by (simp_all add: block_ok_def)
  have Hb: "?H b = Some n" using b by (simp add: b_def)
  note M = bmap_merge [OF D(5) B(1,2) b, folded b_def] and BB = buddy_blocks [OF B(1), folded b_def]
  have bl: "b < length v" "zonenum (v ! b) = i" using Hb by (simp_all add: buddy_map_Some)
  have idl: "idle i (v ! b)" using D(6) buddy_cover_head [OF Hb] by (simp add: pages_idle_def)
  obtain z1 z2 where L: "area_list_del v z n b = Inr (v[b := lru0 (v ! b)], z1)" "nr_free_dec z1 n = Inr z2"
    "lists_ok z2 (?H(b := None))" "same_zone z z2" by (rule lists_del [OF D(4) Hb B(4) bl(1)])
  let ?x = "rmv_order (lru0 (v ! b))"
  have r: "rmv_page_order (v[b := lru0 (v ! b)]) b = Inr (v[b := ?x])"
    using bl D(1) by (subst rmv_page_order_Inr) simp_all
  have R: "zone_inv mb (v[b := ?x]) i z2" "buddy_map (v[b := ?x]) i = ?H(b := None)"
    "changes (blk b n) v (v[b := ?x])" "fresh mb (v[b := ?x]) i (blk b n)"
    by (rule zone_inv_remove [OF inv Hb _ _ L(3,4)]; simp add: idl)+
  have "fresh mb (v[b := ?x]) i (blk (b AND p) (Suc n))"
    unfolding BB(3) fresh_Un using R(4) fresh_changes [OF B(3) R(3) BB(4)] by simp
  then have "block_ok mb (v[b := ?x]) i (b AND p) (Suc n)"
    using M(2,3) n by (simp add: block_ok_def R(2))
  moreover have "changes (cover ?H \<union> blk p n) v (v[b := ?x])"
    using changes_trans [OF R(3) changes_refl [of "{}"]] cover_remove(2) [OF D(5) Hb] by blast
  ultimately show thesis using that [OF L(1,2) r R(1)] M(4) L(4) by (simp add: R(2))
qed

lemma merge_loop_ok:
  "zone_inv mb v i z \<Longrightarrow> block_ok mb v i p n \<Longrightarrow> n + k = MAX_ORDER - 1 \<Longrightarrow>
   \<exists>v' z' p' bp' n'. merge_loop mb v z p bp n MAX_ORDER = Inr (v', z', p', bp', n') \<and>
     zone_inv mb v' i z' \<and> block_ok mb v' i p' n' \<and>
     cover (buddy_map v' i) \<union> blk p' n' = cover (buddy_map v i) \<union> blk p n \<and>
     (n' < MAX_ORDER - 1 \<longrightarrow> bp' = Some (find_buddy_pfn p' n') \<and>
        buddy_map v' i (find_buddy_pfn p' n') \<noteq> Some n') \<and>
     changes (cover (buddy_map v i) \<union> blk p n) v v' \<and> same_zone z z'"
proof (induction k arbitrary: v z p bp n)
  case 0
  then show ?case by (subst merge_loop.simps) simp
next
  case (Suc k)
  let ?H = "buddy_map v i" and ?b = "find_buddy_pfn p n"
  note D = zone_invD [OF Suc.prems(1)]
  have n: "n < MAX_ORDER - 1" using Suc.prems(3) by simp
  have p: "p < length v" "zonenum (v ! p) = i"
    using Suc.prems(2) blk_self [of p n] by (auto simp: block_ok_def fresh_def pages_idle_def idle_def)
  have val: "pfn_valid mb ?b" if "?H ?b = Some n"
    using D(6) buddy_cover_head [OF that] by (simp add: pages_idle_def)
  have isb: "page_is_buddy v p ?b n = Inr (?H ?b = Some n)" if "pfn_valid mb ?b"
  proof -
    have "priv (v ! ?b) < MAX_ORDER" if "is_buddy (v ! ?b)" "zonenum (v ! ?b) = i"
      using bmap_okD(1) [OF D(5), of ?b "priv (v ! ?b)"] that D(3) \<open>pfn_valid mb ?b\<close>
      by (auto simp: buddy_map_Some vmem_ok_def)
    then show ?thesis
      using D(3) that p n unfolding page_is_buddy_Inr [OF D(3) p(1) that] buddy_map_Some
      by (auto simp: vmem_ok_def MAX_ORDER_def)
  qed
  show ?case
  proof (cases "?H ?b = Some n")
    case False
    then have "merge_loop mb v z p bp n MAX_ORDER = Inr (v, z, p, Some ?b, n)"
      using n isb by (subst merge_loop.simps) (simp add: Let_def)
    with False Suc.prems show ?thesis by simp
  next
    case True
    obtain v1 v2 z1 z2 where S: "area_list_del v z n ?b = Inr (v1, z1)" "nr_free_dec z1 n = Inr z2"
      "rmv_page_order v1 ?b = Inr v2" "zone_inv mb v2 i z2" "block_ok mb v2 i (?b AND p) (Suc n)"
      "cover (buddy_map v2 i) \<union> blk (?b AND p) (Suc n) = cover ?H \<union> blk p n"
      "changes (cover ?H \<union> blk p n) v v2" "same_zone z z2"
      by (rule buddy_merge_step [OF Suc.prems(1,2) n True])
    have "merge_loop mb v z p bp n MAX_ORDER = merge_loop mb v2 z2 (?b AND p) (Some ?b) (Suc n) MAX_ORDER"
      using n isb [OF val [OF True]] val [OF True] S(1-3) True by (subst merge_loop.simps) (simp add: Let_def)
    moreover note Suc.IH [OF S(4,5), of "Some ?b"]
    ultimately show ?thesis using Suc.prems(3) S(6,7,8)
      by (auto intro: same_zone_trans changes_trans)
  qed
qed

section \<open>Releasing a block\<close>

lemma and_low_mod: "p AND (2 ^ n - 1) = p mod 2 ^ n" for p :: nat
  by (metis mask_eq_exp_minus_1 take_bit_eq_mask take_bit_eq_mod)


lemma block_okD:
  assumes "block_ok mb v i p n"
  shows "n < MAX_ORDER" "2 ^ n dvd p" "blk p n \<inter> cover (buddy_map v i) = {}" "fresh mb v i (blk p n)"
    "p < length v" "zonenum (v ! p) = i" "idle i (v ! p)" "\<not> is_buddy (v ! p)" "buddy_map v i p = None"
  using assms blk_self [of p n]
  by (auto simp: block_ok_def fresh_def pages_idle_def idle_def buddy_map_def)

lemma zone_inv_insert:
  assumes inv: "zone_inv mb v i z" and blk: "block_ok mb v i p n"
    and nb: "n < MAX_ORDER - 1 \<Longrightarrow> buddy_map v i (find_buddy_pfn p n) \<noteq> Some n"
    and x: "idle i x" "is_buddy x" "priv x = n"
    and z: "lists_ok z' ((buddy_map v i)(p \<mapsto> n))" "same_zone z z'"
  shows "zone_inv mb (v[p := x]) i z'" "buddy_map (v[p := x]) i = (buddy_map v i)(p \<mapsto> n)"
    "cover (buddy_map (v[p := x]) i) = cover (buddy_map v i) \<union> blk p n" "changes (blk p n) v (v[p := x])"
proof -
  let ?H = "buddy_map v i"
  note D = zone_invD [OF inv] and B = block_okD [OF blk]
  have zx: "zonenum x = i" using x(1) by (simp add: idle_def)
  show H: "buddy_map (v[p := x]) i = ?H(p \<mapsto> n)" using B(5) x zx by (simp add: buddy_map_update)
  show c: "cover (buddy_map (v[p := x]) i) = cover ?H \<union> blk p n"
    unfolding H by (rule cover_insert [where H = ?H, OF B(9)])
  show "changes (blk p n) v (v[p := x])" using zx B(6) by (intro changes_update) simp_all
  have "vmem_ok mb (v[p := x])" using x zx B(6) by (intro vmem_ok_update [OF D(3)]) simp_all
  moreover have "pages_idle mb (v[p := x]) i (cover ?H \<union> blk p n)"
    using D(6) B(4,5) x(1) by (auto simp: pages_idle_def fresh_def nth_list_update)
  moreover have "bmap_ok (?H(p \<mapsto> n))" by (rule bmap_ok_insert [OF D(5) B(1-3) nb])
  ultimately show "zone_inv mb (v[p := x]) i z'"
    using D(1,2) z unfolding zone_inv_def c by (simp add: H same_zoneD)
qed

lemma next_higher_free_Inr:
  assumes "vmem_ok mb v" and "p < length v" and "2 ^ n dvd p"
    and "n < MAX_ORDER - 1 \<Longrightarrow> bp = Some (find_buddy_pfn p n)"
  shows "\<exists>t. next_higher_free mb v p bp n = Inr t"
proof (cases "n < MAX_ORDER - 2 \<and> pfn_valid mb (find_buddy_pfn p n)")
  case True
  let ?c = "find_buddy_pfn p n AND p"
  have "find_buddy_pfn p n < length v" using assms(1) True by (simp add: vmem_ok_def)
  moreover have "?c = p \<or> ?c = find_buddy_pfn p n"
    using assms(3) by (cases rule: buddy_cases) simp_all
  ultimately have "?c < length v" using assms(2) by auto
  then show ?thesis using True assms(4)
    by (auto simp: next_higher_free_def Let_def page_is_buddy_Inr [OF assms(1)])
qed (use assms(4) in \<open>auto simp: next_higher_free_def\<close>)

lemma do_free_one_page_ok:
  assumes inv: "zone_inv mb v i z" and blk: "block_ok mb v i p n"
  shows "\<exists>v' z'. do_free_one_page mb v z p n = Inr (v', z') \<and> zone_inv mb v' i z' \<and>
    cover (buddy_map v' i) = cover (buddy_map v i) \<union> blk p n \<and>
    changes (cover (buddy_map v i) \<union> blk p n) v v' \<and> same_zone z z'"
proof -
  note D = zone_invD [OF inv] and B = block_okD [OF blk]
  obtain k where k: "n + k = MAX_ORDER - 1" using B(1) by (metis Suc_pred' add.commute le_add_diff_inverse2
        less_Suc_eq_le not_less_zero zero_less_iff_neq_zero)
  obtain v1 z1 q bp m where M: "merge_loop mb v z p None n MAX_ORDER = Inr (v1, z1, q, bp, m)"
    "zone_inv mb v1 i z1" "block_ok mb v1 i q m"
    "cover (buddy_map v1 i) \<union> blk q m = cover (buddy_map v i) \<union> blk p n"
    "m < MAX_ORDER - 1 \<longrightarrow> bp = Some (find_buddy_pfn q m) \<and> buddy_map v1 i (find_buddy_pfn q m) \<noteq> Some m"
    "changes (cover (buddy_map v i) \<union> blk p n) v v1" "same_zone z z1"
    using merge_loop_ok [OF inv blk k, of None] by blast
  note D1 = zone_invD [OF M(2)] and B1 = block_okD [OF M(3)]
  let ?v2 = "v1[q := put_order m (v1 ! q)]"
  have so: "set_page_order v1 q m = Inr ?v2" using B1(5,6) D1(1) by (simp add: set_page_order_Inr)
  have "vmem_ok mb ?v2" using B1(6,7) by (intro vmem_ok_update [OF D1(3)]) simp_all
  then obtain t where t: "next_higher_free mb ?v2 q bp m = Inr t"
    using next_higher_free_Inr [of mb ?v2 q m bp] B1(2,5) M(5) by auto
  obtain z2 z3 where L: "(if t then area_list_add_tail ?v2 z1 m q else area_list_add ?v2 z1 m q) =
      Inr (?v2[q := lru0 (?v2 ! q)], z2)" "nr_free_inc z2 m = Inr z3"
    "lists_ok z3 ((buddy_map v1 i)(q \<mapsto> m))" "same_zone z1 z3"
    by (rule lists_add [OF D1(4) B1(9) B1(1), of ?v2 t]) (use B1(5) D1(7) in simp_all)
  let ?x = "lru0 (put_order m (v1 ! q))"
  have v3: "?v2[q := lru0 (?v2 ! q)] = v1[q := ?x]" using B1(5) by simp
  have I: "zone_inv mb (v1[q := ?x]) i z3" "cover (buddy_map (v1[q := ?x]) i) = cover (buddy_map v1 i) \<union> blk q m"
    "changes (blk q m) v1 (v1[q := ?x])"
    by (rule zone_inv_insert [OF M(2,3) _ _ _ _ L(3,4)]; use M(5) B1(7) in simp)+
  have al: "p AND (2 ^ n - 1) = 0" using B(2) by (simp only: and_low_mod) (simp add: dvd_eq_mod_eq_0)
  have "do_free_one_page mb v z p n = Inr (v1[q := ?x], z3)"
    using D(2) B(5) B1(5) idle_flags [OF B(7,8)] M(1) so t L(1,2) al
    by (simp add: do_free_one_page_def zone_is_initialized_def rdp_Inr pageblock_order_def MAX_ORDER_def v3)
  moreover have "changes (cover (buddy_map v i) \<union> blk p n) v (v1[q := ?x])"
    by (rule changes_trans [OF M(6) I(3)]) (use M(4) in auto)
  ultimately show ?thesis using I(1,2) M(4) same_zone_trans [OF M(7) L(4)] by metis
qed

section \<open>Taking a block\<close>

lemma expand_step:
  assumes inv: "zone_inv mb v i z" and blk: "block_ok mb v i p (Suc n)"
  obtains v1 v2 z1 z2 where "area_list_add v z n (p + 2 ^ n) = Inr (v1, z1)" "nr_free_inc z1 n = Inr z2"
    "set_page_order v1 (p + 2 ^ n) n = Inr v2" "zone_inv mb v2 i z2" "block_ok mb v2 i p n"
    "cover (buddy_map v2 i) = cover (buddy_map v i) \<union> blk (p + 2 ^ n) n"
    "changes (blk (p + 2 ^ n) n) v v2" "same_zone z z2"
proof -
  let ?H = "buddy_map v i" and ?q = "p + 2 ^ n"
  note D = zone_invD [OF inv] and B = block_okD [OF blk]
  note S = bmap_split [OF D(5) B(2,3,1)]
  have q: "?q < length v" "zonenum (v ! ?q) = i" "idle i (v ! ?q)"
    using B(4) blk_self [of ?q n] unfolding fresh_def pages_idle_def idle_def blk_Suc(1) by blast+
  obtain z1 z2 where L: "area_list_add v z n ?q = Inr (v[?q := lru0 (v ! ?q)], z1)" "nr_free_inc z1 n = Inr z2"
    "lists_ok z2 (?H(?q \<mapsto> n))" "same_zone z z2"
    using lists_add [OF D(4) S(5), where v = v and tail = False and n = n] B(1) q(1) D(7) by auto
  let ?x = "put_order n (lru0 (v ! ?q))"
  have so: "set_page_order (v[?q := lru0 (v ! ?q)]) ?q n = Inr (v[?q := ?x])"
    using q D(1) by (subst set_page_order_Inr) simp_all
  have fr: "fresh mb v i (blk p n)" "fresh mb v i (blk ?q n)" using B(4) by (simp_all add: blk_Suc(1) fresh_Un)
  have d: "2 ^ n dvd ?q" using S(2) by simp
  have "block_ok mb v i ?q n" using B(1,3) d fr(2) by (auto simp: block_ok_def blk_Suc(1))
  moreover have "?H (find_buddy_pfn ?q n) \<noteq> Some n"
    using buddy_low(2) [OF B(2)] B(9) by simp
  ultimately have I: "zone_inv mb (v[?q := ?x]) i z2" "buddy_map (v[?q := ?x]) i = ?H(?q \<mapsto> n)"
    "changes (blk ?q n) v (v[?q := ?x])"
    by (auto intro!: zone_inv_insert [OF inv _ _ _ _ _ L(3,4)] simp: q(3))
  have "block_ok mb (v[?q := ?x]) i p n"
    using B(1) S(2,4) fresh_changes [OF fr(1) I(3) blk_Suc(2)] by (simp add: block_ok_def I(2))
  then show thesis using that [OF L(1,2) so I(1)] S(3) I(3) L(4) by (simp add: I(2))
qed

lemma blk_mono: "n \<le> m \<Longrightarrow> blk p n \<subseteq> blk p m"
  by (auto simp: blk_def intro: less_le_trans)

lemma expand_ok:
  "zone_inv mb v i z \<Longrightarrow> block_ok mb v i p high \<Longrightarrow> low \<le> high \<Longrightarrow>
   \<exists>v' z'. expand v z p low high = Inr (v', z') \<and> zone_inv mb v' i z' \<and> block_ok mb v' i p low \<and>
     cover (buddy_map v' i) = cover (buddy_map v i) \<union> (blk p high - blk p low) \<and>
     changes (blk p high) v v' \<and> same_zone z z'"
proof (induction high arbitrary: v z)
  case (Suc h)
  show ?case
  proof (cases "low = Suc h")
    case False
    then have lo: "low \<le> h" using Suc.prems(3) by simp
    obtain v1 v2 z1 z2 where S: "area_list_add v z h (p + 2 ^ h) = Inr (v1, z1)" "nr_free_inc z1 h = Inr z2"
      "set_page_order v1 (p + 2 ^ h) h = Inr v2" "zone_inv mb v2 i z2" "block_ok mb v2 i p h"
      "cover (buddy_map v2 i) = cover (buddy_map v i) \<union> blk (p + 2 ^ h) h"
      "changes (blk (p + 2 ^ h) h) v v2" "same_zone z z2"
      by (rule expand_step [OF Suc.prems(1,2)])
    obtain v' z' where E: "expand v2 z2 p low h = Inr (v', z')" "zone_inv mb v' i z'" "block_ok mb v' i p low"
      "cover (buddy_map v' i) = cover (buddy_map v2 i) \<union> (blk p h - blk p low)"
      "changes (blk p h) v2 v'" "same_zone z2 z'"
      using Suc.IH [OF S(4,5) lo] by blast
    have "expand v z p low (Suc h) = Inr (v', z')" using lo S(1-3) E(1) by simp
    moreover have "blk (p + 2 ^ h) h \<union> (blk p h - blk p low) = blk p (Suc h) - blk p low"
      using blk_mono [OF lo, of p] blk_Suc(2) [of p h] unfolding blk_Suc(1) by blast
    moreover have "changes (blk p (Suc h)) v v'"
      by (rule changes_trans [OF S(7) E(5)]) (auto simp: blk_Suc(1))
    ultimately show ?thesis using E(2-4) S(6) same_zone_trans [OF S(8) E(6)] by (metis Un_assoc)
  qed (use Suc.prems in simp)
qed simp

lemma rmqueue_smallest_from_ok:
  "zone_inv mb v i z \<Longrightarrow> order \<le> c \<Longrightarrow>
   (\<forall>p m. c \<le> m \<longrightarrow> buddy_map v i p \<noteq> Some m) \<and> rmqueue_smallest_from v z order c = Inr (None, v, z) \<or>
   (\<exists>p m v' z'. rmqueue_smallest_from v z order c = Inr (Some p, v', z') \<and>
     c \<le> m \<and> buddy_map v i p = Some m \<and> (\<forall>q k. c \<le> k \<and> k < m \<longrightarrow> buddy_map v i q \<noteq> Some k) \<and>
     zone_inv mb v' i z' \<and> block_ok mb v' i p order \<and>
     cover (buddy_map v' i) = cover (buddy_map v i) - blk p order \<and>
     changes (cover (buddy_map v i)) v v' \<and> same_zone z z')"
proof (induction "MAX_ORDER - c" arbitrary: c)
  case 0
  then have "\<not> c < MAX_ORDER" by simp
  moreover have "buddy_map v i p \<noteq> Some m" if "c \<le> m" for p m
    using bmap_okD(1) [OF zone_invD(5) [OF 0(2)], of p m] that calculation by auto
  ultimately show ?case by (subst (1) rmqueue_smallest_from.simps) simp
next
  case (Suc k)
  let ?H = "buddy_map v i" and ?l = "free_list (free_area z ! c)"
  note D = zone_invD [OF Suc.prems(1)]
  have c: "c < MAX_ORDER" using Suc(2) by simp
  have a: "area_of z c = Inr (free_area z ! c)" "set ?l = {p. ?H p = Some c}"
    using D(4) c by (simp_all add: area_of_def lists_ok_def)
  show ?case
  proof (cases ?l)
    case Nil
    then have no: "?H p \<noteq> Some c" for p using a(2) by auto
    have eq: "rmqueue_smallest_from v z order c = rmqueue_smallest_from v z order (Suc c)"
      using c a(1) Nil by (subst rmqueue_smallest_from.simps) simp
    have "k = MAX_ORDER - Suc c" and le: "order \<le> Suc c" using Suc(2) Suc.prems(2) by simp_all
    have ge: "Suc c \<le> m" if "?H q = Some m" "c \<le> m" for q m
      using no [of q] that by (cases "m = c") auto
    from Suc(1) [OF \<open>k = MAX_ORDER - Suc c\<close> Suc.prems(1) le, folded eq] show ?thesis
    proof (elim disjE conjE exE)
      assume "\<forall>p m. Suc c \<le> m \<longrightarrow> ?H p \<noteq> Some m" "rmqueue_smallest_from v z order c = Inr (None, v, z)"
      then show ?thesis using ge by (intro disjI1) auto
    qed (intro disjI2 exI conjI, assumption, use ge in \<open>auto dest: ge\<close>, use ge in blast)
  next
    case (Cons p ps)
    then have Hp: "?H p = Some c" using a(2) by auto
    have p: "p < length v" "zonenum (v ! p) = i" using Hp by (simp_all add: buddy_map_Some)
    have idl: "idle i (v ! p)" using D(6) buddy_cover_head [OF Hp] by (simp add: pages_idle_def)
    obtain z1 z2 where L: "area_list_del v z c p = Inr (v[p := lru0 (v ! p)], z1)" "nr_free_dec z1 c = Inr z2"
      "lists_ok z2 (?H(p := None))" "same_zone z z2" by (rule lists_del [OF D(4) Hp c p(1)])
    let ?x = "rmv_order (lru0 (v ! p))"
    have r: "rmv_page_order (v[p := lru0 (v ! p)]) p = Inr (v[p := ?x])"
      using p D(1) by (subst rmv_page_order_Inr) simp_all
    have R: "zone_inv mb (v[p := ?x]) i z2" "buddy_map (v[p := ?x]) i = ?H(p := None)"
      "changes (blk p c) v (v[p := ?x])" "fresh mb (v[p := ?x]) i (blk p c)"
      by (rule zone_inv_remove [OF Suc.prems(1) Hp _ _ L(3,4)]; simp add: idl)+
    note C = cover_remove [OF D(5) Hp]
    have "block_ok mb (v[p := ?x]) i p c"
      using bmap_okD(1,2) [OF D(5) Hp] R(4) C(1) by (auto simp: block_ok_def R(2))
    then obtain v' z' where E: "expand (v[p := ?x]) z2 p order c = Inr (v', z')" "zone_inv mb v' i z'"
      "block_ok mb v' i p order"
      "cover (buddy_map v' i) = cover (?H(p := None)) \<union> (blk p c - blk p order)"
      "changes (blk p c) (v[p := ?x]) v'" "same_zone z2 z'"
      using expand_ok [OF R(1) _ Suc.prems(2)] R(2) by metis
    have "rmqueue_smallest_from v z order c = Inr (Some p, v', z')"
      using c a(1) Cons L(1,2) r E(1) by (subst rmqueue_smallest_from.simps) simp
    moreover have "cover (buddy_map v' i) = cover ?H - blk p order"
      unfolding E(4) C(1) using C(2) blk_mono [OF Suc.prems(2), of p] by blast
    moreover have "changes (cover ?H) v v'" by (rule changes_trans [OF R(3) E(5)]) (use C(2) in simp_all)
    ultimately show ?thesis using Hp E(2,3) same_zone_trans [OF L(4) E(6)] by auto
  qed
qed

end
