(* ===== verification/Page_Inv.thy ===== *)
theory Page_Inv
  imports Page_Frontend Buddy_Zone
begin

text \<open>
  The invariant of the whole allocator (the zones with their buddy systems and the per-CPU lists)
  and that allocation and release keep it and move exactly the pages they name.
\<close>

section \<open>Frames\<close>

lemma zone_inv_outside:
  assumes "zone_inv mb v i z" and "changes S v v'" and "S \<inter> cover (buddy_map v i) = {}"
    and "\<And>q. q \<in> S \<Longrightarrow> q < length v \<Longrightarrow> \<not> is_buddy (v ! q) \<and> \<not> is_buddy (v' ! q)"
  shows "zone_inv mb v' i z" "buddy_map v' i = buddy_map v i"
proof -
  note D = zone_invD [OF assms(1)]
  have len: "length v' = length v" and zn: "\<And>q. q < length v \<Longrightarrow> zonenum (v' ! q) = zonenum (v ! q)"
    and eq: "\<And>q. q < length v \<Longrightarrow> q \<notin> S \<Longrightarrow> v' ! q = v ! q" using assms(2) by (auto simp: changes_def)
  show H: "buddy_map v' i = buddy_map v i"
  proof (rule ext)
    fix q show "buddy_map v' i q = buddy_map v i q"
      using assms(4) [of q] eq [of q] by (cases "q \<in> S") (auto simp: buddy_map_def len)
  qed
  have "pages_idle mb v' i (cover (buddy_map v i))"
    using D(6) assms(3) eq unfolding pages_idle_def len by (metis disjoint_iff)
  moreover have "vmem_ok mb v'"
    using D(3) assms(4) eq zn unfolding vmem_ok_def len by metis
  ultimately show "zone_inv mb v' i z" using D by (simp add: zone_inv_def H)
qed

lemma zone_inv_other:
  assumes "zone_inv mb v j z" and "changes S v v'" and "\<And>q. q \<in> S \<Longrightarrow> q < length v \<Longrightarrow> zonenum (v ! q) = i"
    and "i \<noteq> j" and "vmem_ok mb v'"
  shows "zone_inv mb v' j z" "buddy_map v' j = buddy_map v j" "fresh mb v j T \<Longrightarrow> fresh mb v' j T"
proof -
  note D = zone_invD [OF assms(1)]
  have len: "length v' = length v" and zn: "\<And>q. q < length v \<Longrightarrow> zonenum (v' ! q) = zonenum (v ! q)"
    and eq: "\<And>q. q < length v \<Longrightarrow> zonenum (v ! q) = j \<Longrightarrow> v' ! q = v ! q"
    using assms(2,3,4) by (auto simp: changes_def)
  show H: "buddy_map v' j = buddy_map v j"
  proof (rule ext)
    fix q show "buddy_map v' j q = buddy_map v j q"
      using eq [of q] zn [of q] by (cases "zonenum (v ! q) = j") (auto simp: buddy_map_def len)
  qed
  have id: "idle j (v' ! q)" if "q < length v" "idle j (v ! q)" for q
    using eq [of q] that by (simp add: idle_def)
  show "zone_inv mb v' j z"
    using D assms(5) id by (auto simp: zone_inv_def H pages_idle_def len)
  show "fresh mb v' j T" if "fresh mb v j T"
    using that eq unfolding fresh_def pages_idle_def len idle_def by metis
qed

lemma lru_fresh:
  assumes "zone_inv mb v i z" and "fresh mb v i S" and "q \<in> S" and "S \<inter> cover (buddy_map v i) = {}"
  obtains v' where "lru_write v q = Inr v'" "zone_inv mb v' i z" "buddy_map v' i = buddy_map v i"
    "fresh mb v' i S" "changes S v v'"
proof -
  let ?v = "v[q := lru0 (v ! q)]"
  have q: "q < length v" "idle i (v ! q)" "\<not> is_buddy (v ! q)"
    using assms(2,3) by (auto simp: fresh_def pages_idle_def)
  have ch: "changes S v ?v" using assms(3) by (intro changes_update) simp_all
  have nb: "\<not> is_buddy (v ! r) \<and> \<not> is_buddy (?v ! r)" if "r \<in> S" for r
    using assms(2) that q by (auto simp: fresh_def nth_list_update)
  note O = zone_inv_outside [OF assms(1) ch assms(4) nb]
  have "fresh mb ?v i S"
    using assms(2) q by (auto simp: fresh_def pages_idle_def nth_list_update)
  then show thesis by (intro that [of ?v]) (use lru_write_Inr [OF q(1)] O ch in simp_all)
qed

section \<open>Checks pass on idle pages\<close>

lemma expected_state_Inr:
  "p < length v \<Longrightarrow> page_expected_state v p m = Inr (refcount (v ! p) = 0 \<and> page_flags (v ! p) AND m = 0)"
  by (simp add: page_expected_state_def page_ref_count_def rdp_Inr)

lemma and_zero_subset: "a AND b = 0 \<Longrightarrow> c AND b = c \<Longrightarrow> a AND c = 0" for a b c :: "64 word"
proof -
  assume a: "a AND b = 0" "c AND b = c"
  have "a AND (c AND b) = (a AND b) AND c" by (simp only: ac_simps)
  then show ?thesis by (simp add: a)
qed

lemma check_at_free_subset: "PAGE_FLAGS_CHECK_AT_FREE AND PAGE_FLAGS_CHECK_AT_PREP = PAGE_FLAGS_CHECK_AT_FREE"
  by (simp add: PAGE_FLAGS_CHECK_AT_FREE_def PAGE_FLAGS_CHECK_AT_PREP_def PG_defs PG_HWPOISON_def)

lemma fresh_checks:
  assumes "fresh mb v i S" and "q \<in> S"
  shows "free_pages_check v q = Inr False" "check_new_page v q = Inr False"
proof -
  have q: "q < length v" "idle i (v ! q)" "\<not> is_buddy (v ! q)"
    using assms by (auto simp: fresh_def pages_idle_def)
  note f = idle_flags [OF q(2,3)]
  show "free_pages_check v q = Inr False" "check_new_page v q = Inr False"
    using q(1,2) f and_zero_subset [OF f check_at_free_subset]
    by (simp_all add: free_pages_check_def check_new_page_def expected_state_Inr idle_def PG_HWPOISON_def)
qed

lemma check_new_pages_fresh:
  "fresh mb v i {p..<p + n} \<Longrightarrow> check_new_pages_from n v p = Inr False"
proof (induction n arbitrary: p)
  case (Suc n)
  then have "fresh mb v i {p + 1..<p + 1 + n}" by (auto simp: fresh_def pages_idle_def)
  then show ?case using Suc.IH [of "p + 1"] fresh_checks(2) [OF Suc.prems, of p] by simp
qed simp

section \<open>Blocks\<close>

lemma do_rmqueue_ok:
  assumes "zone_inv mb v i z"
  shows "(\<forall>p m. order \<le> m \<longrightarrow> buddy_map v i p \<noteq> Some m) \<and> do_rmqueue v z order = Inr (None, v, z) \<or>
   (\<exists>p m v' z'. do_rmqueue v z order = Inr (Some p, v', z') \<and>
     order \<le> m \<and> buddy_map v i p = Some m \<and> (\<forall>q k. order \<le> k \<and> k < m \<longrightarrow> buddy_map v i q \<noteq> Some k) \<and>
     zone_inv mb v' i z' \<and> block_ok mb v' i p order \<and>
     cover (buddy_map v' i) = cover (buddy_map v i) - blk p order \<and>
     changes (cover (buddy_map v i)) v v' \<and> same_zone z z')"
  using rmqueue_smallest_from_ok [OF assms order.refl, of order]
  by (auto simp: do_rmqueue_def rmqueue_smallest_def)

lemma rmqueue_retry_ok:
  assumes "zone_inv mb v i z"
  shows "rmqueue_retry v z order = do_rmqueue v z order"
  using do_rmqueue_ok [OF assms, of order]
proof (elim disjE conjE exE)
  fix p m v' z'
  assume a: "do_rmqueue v z order = Inr (Some p, v', z')" "block_ok mb v' i p order"
  then have "check_new_pages v' p order = Inr False"
    using check_new_pages_fresh [of mb v' i p "2 ^ order"]
    by (simp add: check_new_pages_def block_ok_def blk_def)
  with a(1) show ?thesis by (subst rmqueue_retry.simps) simp
qed (subst rmqueue_retry.simps, simp)

section \<open>Per-CPU lists\<close>

lemma fresh_mono: "fresh mb v i T \<Longrightarrow> S \<subseteq> T \<Longrightarrow> fresh mb v i S"
  by (auto simp: fresh_def pages_idle_def)

lemma rmqueue_bulk_ok:
  "zone_inv mb v i z \<Longrightarrow> distinct lst \<Longrightarrow> fresh mb v i (set lst) \<Longrightarrow>
   set lst \<inter> cover (buddy_map v i) = {} \<Longrightarrow>
   \<exists>new v' z'. rmqueue_bulk count v z 0 lst a = Inr (a + int (length new), v', z', lst @ new) \<and>
     zone_inv mb v' i z' \<and> distinct (lst @ new) \<and> fresh mb v' i (set (lst @ new)) \<and>
     set (lst @ new) \<inter> cover (buddy_map v' i) = {} \<and>
     cover (buddy_map v' i) \<union> set (lst @ new) = cover (buddy_map v i) \<union> set lst \<and>
     changes (cover (buddy_map v i) \<union> set lst) v v' \<and> same_zone z z' \<and>
     (0 < count \<and> new = [] \<longrightarrow> cover (buddy_map v i) = {})"
proof (induction count arbitrary: v z lst a)
  case 0
  then show ?case by (intro exI [of _ "[]"] exI [of _ v] exI [of _ z]) simp
next
  case (Suc count)
  let ?C = "cover (buddy_map v i)"
  from do_rmqueue_ok [OF Suc.prems(1), of 0] show ?case
  proof (elim disjE conjE exE)
    assume "\<forall>p m. 0 \<le> m \<longrightarrow> buddy_map v i p \<noteq> Some m" and r: "do_rmqueue v z 0 = Inr (None, v, z)"
    then have "?C = {}" by (simp add: cover_def)
    with r Suc.prems show ?case by (intro exI [of _ "[]"] exI [of _ v] exI [of _ z]) simp
  next
    fix p m v1 z1
    assume r: "do_rmqueue v z 0 = Inr (Some p, v1, z1)" and "buddy_map v i p = Some m"
      and inv1: "zone_inv mb v1 i z1" and b: "block_ok mb v1 i p 0"
      and c1: "cover (buddy_map v1 i) = ?C - blk p 0" and ch1: "changes ?C v v1" and sz1: "same_zone z z1"
    then have p: "p \<in> ?C" "p \<notin> set lst" using Suc.prems(4) by (auto dest: buddy_cover_head)
    let ?S = "set (lst @ [p])"
    have fr: "fresh mb v1 i ?S" and dj: "?S \<inter> cover (buddy_map v1 i) = {}"
      using fresh_changes [OF Suc.prems(3) ch1 Suc.prems(4)] block_okD(3,4) [OF b] Suc.prems(4) c1
      by (auto simp: fresh_def pages_idle_def)
    have pS: "p \<in> ?S" by simp
    obtain v2 where w: "lru_write v1 p = Inr v2" "zone_inv mb v2 i z1" "buddy_map v2 i = buddy_map v1 i"
      "fresh mb v2 i ?S" "changes ?S v1 v2" by (rule lru_fresh [OF inv1 fr pS dj])
    have d: "distinct (lst @ [p])" using Suc.prems(2) p by simp
    have dj2: "?S \<inter> cover (buddy_map v2 i) = {}" using dj w(3) by simp
    from Suc.IH [OF w(2) d w(4) dj2, of "a + 1"] obtain new v' z' where
      N: "rmqueue_bulk count v2 z1 0 (lst @ [p]) (a + 1) = Inr (a + 1 + int (length new), v', z', (lst @ [p]) @ new)"
      "zone_inv mb v' i z'" "distinct ((lst @ [p]) @ new)" "fresh mb v' i (set ((lst @ [p]) @ new))"
      "set ((lst @ [p]) @ new) \<inter> cover (buddy_map v' i) = {}"
      "cover (buddy_map v' i) \<union> set ((lst @ [p]) @ new) = cover (buddy_map v2 i) \<union> ?S"
      "changes (cover (buddy_map v2 i) \<union> ?S) v2 v'" "same_zone z1 z'" by blast
    have U: "cover (buddy_map v2 i) \<union> ?S = ?C \<union> set lst" using p c1 w(3) by auto
    have "changes (?C \<union> set lst) v v2" by (rule changes_trans [OF ch1 w(5)]) (use p in auto)
    then have "changes (?C \<union> set lst) v v'" by (rule changes_trans [OF _ N(7)]) (use U in auto)
    moreover have "rmqueue_bulk (Suc count) v z 0 lst a = Inr (a + int (length (p # new)), v', z', lst @ p # new)"
      using r w(1) N(1) fresh_checks(2) [OF fr pS] by (simp add: check_pcp_refill_def algebra_simps)
    ultimately show ?case
      using N(2-6) U same_zone_trans [OF sz1 N(8)]
      by (intro exI [of _ "p # new"] exI [of _ v'] exI [of _ z']) simp
  qed
qed

lemma pcp_take_ok:
  "zone_inv mb v i z \<Longrightarrow> fresh mb v i S \<Longrightarrow> S \<inter> cover (buddy_map v i) = {} \<Longrightarrow> set lst \<subseteq> S \<Longrightarrow>
   1 \<le> count \<Longrightarrow> count \<le> int (length lst) \<Longrightarrow>
   \<exists>v'. pcp_take v lst pc head count bf =
       Inr (v', take (length lst - nat count) lst, pc - count, head @ rev (drop (length lst - nat count) lst)) \<and>
     zone_inv mb v' i z \<and> buddy_map v' i = buddy_map v i \<and> fresh mb v' i S \<and> changes S v v'"
proof (induction lst arbitrary: v pc head count bf rule: rev_induct)
  case (snoc x xs)
  have xS: "x \<in> S" using snoc.prems(4) by simp
  obtain v1 where w1: "lru_write v x = Inr v1" "zone_inv mb v1 i z" "buddy_map v1 i = buddy_map v i"
    "fresh mb v1 i S" "changes S v v1" by (rule lru_fresh [OF snoc.prems(1,2) xS snoc.prems(3)])
  have dj1: "S \<inter> cover (buddy_map v1 i) = {}" using snoc.prems(3) w1(3) by simp
  obtain v2 where w2: "lru_write v1 x = Inr v2" "zone_inv mb v2 i z" "buddy_map v2 i = buddy_map v1 i"
    "fresh mb v2 i S" "changes S v1 v2" by (rule lru_fresh [OF w1(2,4) xS dj1])
  have ch: "changes S v v2" by (rule changes_trans [OF w1(5) w2(5)]) simp_all
  have dj2: "S \<inter> cover (buddy_map v2 i) = {}" using dj1 w2(3) by simp
  have step: "pcp_take v (xs @ [x]) pc head count bf =
      (if count - 1 = 0 then Inr (v2, xs, pc - 1, head @ [x])
       else if bf - 1 \<noteq> 0 \<and> xs \<noteq> [] then pcp_take v2 xs (pc - 1) (head @ [x]) (count - 1) (bf - 1)
       else pcp_take v2 xs (pc - 1) (head @ [x]) (count - 1) (bf - 1 + 1))"
    using w1(1) w2(1) fresh_checks(1) [OF w1(4) xS]
    by (subst pcp_take.simps) (simp add: Let_def bulkfree_pcp_prepare_def)
  show ?case
  proof (cases "count = 1")
    case True
    then show ?thesis using step w2(2-4) w1(3) ch by simp
  next
    case False
    then have c: "1 \<le> count - 1" "count - 1 \<le> int (length xs)" using snoc.prems(5,6) by simp_all
    have sub: "set xs \<subseteq> S" using snoc.prems(4) by simp
    have "nat count = Suc (nat (count - 1))" using c by linarith
    then have l: "length (xs @ [x]) - nat count = length xs - nat (count - 1)" "length xs - nat (count - 1) \<le> length xs"
      by simp_all
    have "\<exists>v'. pcp_take v2 xs (pc - 1) (head @ [x]) (count - 1) b =
        Inr (v', take (length xs - nat (count - 1)) xs, pc - 1 - (count - 1),
          (head @ [x]) @ rev (drop (length xs - nat (count - 1)) xs)) \<and>
        zone_inv mb v' i z \<and> buddy_map v' i = buddy_map v2 i \<and> fresh mb v' i S \<and> changes S v2 v'" for b
      by (rule snoc.IH [OF w2(2,4) dj2 sub c])
    then obtain f where f: "\<And>b. pcp_take v2 xs (pc - 1) (head @ [x]) (count - 1) b =
        Inr (f b, take (length xs - nat (count - 1)) xs, pc - 1 - (count - 1),
          (head @ [x]) @ rev (drop (length xs - nat (count - 1)) xs)) \<and>
        zone_inv mb (f b) i z \<and> buddy_map (f b) i = buddy_map v2 i \<and> fresh mb (f b) i S \<and> changes S v2 (f b)"
      by metis
    have tr: "changes S v (f b)" for b by (rule changes_trans [OF ch]) (use f in auto)
    show ?thesis
      unfolding step l(1) using False f tr w2(3) w1(3) l(2) by auto
  qed
qed simp

lemma free_list_pages_ok:
  "zone_inv mb v i z \<Longrightarrow> distinct ps \<Longrightarrow> fresh mb v i (set ps) \<Longrightarrow> set ps \<inter> cover (buddy_map v i) = {} \<Longrightarrow>
   \<exists>v' z'. free_list_pages mb ps v z = Inr (v', z') \<and> zone_inv mb v' i z' \<and>
     cover (buddy_map v' i) = cover (buddy_map v i) \<union> set ps \<and>
     changes (cover (buddy_map v i) \<union> set ps) v v' \<and> same_zone z z'"
proof (induction ps arbitrary: v z)
  case (Cons p ps)
  let ?C = "cover (buddy_map v i)"
  have "block_ok mb v i p 0" using Cons.prems(3,4) by (auto simp: block_ok_def fresh_def pages_idle_def MAX_ORDER_def)
  from do_free_one_page_ok [OF Cons.prems(1) this] obtain v1 z1 where
    F: "do_free_one_page mb v z p 0 = Inr (v1, z1)" "zone_inv mb v1 i z1"
    "cover (buddy_map v1 i) = ?C \<union> blk p 0" "changes (?C \<union> blk p 0) v v1" "same_zone z z1" by blast
  have d: "distinct ps" "set ps \<inter> cover (buddy_map v1 i) = {}" using Cons.prems(2,4) F(3) by auto
  have "fresh mb v i (set ps)" using Cons.prems(3) by (rule fresh_mono) auto
  then have fr: "fresh mb v1 i (set ps)" by (rule fresh_changes [OF _ F(4)]) (use Cons.prems(2,4) in auto)
  from Cons.IH [OF F(2) d(1) fr d(2)] obtain v' z' where
    R: "free_list_pages mb ps v1 z1 = Inr (v', z')" "zone_inv mb v' i z'"
    "cover (buddy_map v' i) = cover (buddy_map v1 i) \<union> set ps"
    "changes (cover (buddy_map v1 i) \<union> set ps) v1 v'" "same_zone z1 z'" by blast
  have "changes (?C \<union> set (p # ps)) v v'" by (rule changes_trans [OF F(4) R(4)]) (use F(3) in auto)
  then show ?case using F(1,3) R(1-3) same_zone_trans [OF F(5) R(5)] by simp
qed simp

end
