(* ===== verification/Page_Node.thy ===== *)
theory Page_Node
  imports Page_Inv
begin

text \<open>
  The invariant of the node and the pages that a caller holds; allocation and release at the
  entry points of \<^verbatim>\<open>mm/page_alloc.c\<close>.
\<close>

section \<open>The invariant\<close>

definition pcp_ok :: "memblock \<Rightarrow> memmap \<Rightarrow> nat \<Rightarrow> per_cpu_pages \<Rightarrow> bool" where
  "pcp_ok mb v i c \<longleftrightarrow> distinct (pcp_lists c) \<and> pcp_count c = int (length (pcp_lists c)) \<and>
     1 \<le> pcp_batch c \<and> pcp_batch c \<le> max 1 (pcp_high c) \<and> pcp_batch c < 2 ^ 31 \<and>
     fresh mb v i (set (pcp_lists c)) \<and> set (pcp_lists c) \<inter> cover (buddy_map v i) = {}"

definition live_zone :: "mm \<Rightarrow> nat \<Rightarrow> bool" where
  "live_zone s i \<longleftrightarrow> i < MAX_NR_ZONES \<and> initialized (node_zones s ! i)"

definition pcp_of :: "mm \<Rightarrow> nat \<Rightarrow> per_cpu_pages" where
  "pcp_of s i = pagesets s ! pageset (node_zones s ! i)"

definition zone_free :: "mm \<Rightarrow> nat \<Rightarrow> nat set" where
  "zone_free s i = cover (buddy_map (vmemmap s) i) \<union> set (pcp_lists (pcp_of s i))"

definition mm_ok :: "mm \<Rightarrow> bool" where
  "mm_ok s \<longleftrightarrow> length (node_zones s) = MAX_NR_ZONES \<and> vmem_ok (boot_mem s) (vmemmap s) \<and>
     (\<forall>i. live_zone s i \<longrightarrow> zone_inv (boot_mem s) (vmemmap s) i (node_zones s ! i) \<and>
        pageset (node_zones s ! i) < length (pagesets s) \<and>
        pcp_ok (boot_mem s) (vmemmap s) i (pcp_of s i)) \<and>
     (\<forall>i j. live_zone s i \<and> live_zone s j \<and> i \<noteq> j \<longrightarrow>
        pageset (node_zones s ! i) \<noteq> pageset (node_zones s ! j))"

text \<open>
  A block in the hands of one caller: outside the free memory, with the reference count and the
  compound marks that \<^verbatim>\<open>prep_new_page\<close> leaves (or, for boot memory, without compound marks).
\<close>

definition held :: "mm \<Rightarrow> nat \<Rightarrow> nat \<Rightarrow> bool" where
  "held s p n \<longleftrightarrow> n < MAX_ORDER \<and> 2 ^ n dvd p \<and> live_zone s (zonenum (vmemmap s ! p)) \<and>
     blk p n \<inter> zone_free s (zonenum (vmemmap s ! p)) = {} \<and>
     (\<forall>q\<in>blk p n. q < length (vmemmap s) \<and> pfn_valid (boot_mem s) q \<and>
        zonenum (vmemmap s ! q) = zonenum (vmemmap s ! p) \<and>
        page_flags (vmemmap s ! q) AND PAGE_FLAGS_CHECK_AT_FREE = 0) \<and>
     head_word (vmemmap s ! p) = None \<and> refcount (vmemmap s ! p) = 1 \<and>
     (\<forall>q\<in>blk p n - {p}. refcount (vmemmap s ! q) = 0 \<and>
        head_word (vmemmap s ! q) = (if bit (page_flags (vmemmap s ! p)) PG_head then Some p else None)) \<and>
     (bit (page_flags (vmemmap s ! p)) PG_head \<longrightarrow> 0 < n \<and> order_byte (vmemmap s ! (p + 1)) = Some n)"

lemma mm_okD:
  assumes "mm_ok s"
  shows "length (node_zones s) = MAX_NR_ZONES" "vmem_ok (boot_mem s) (vmemmap s)"
    "live_zone s i \<Longrightarrow> zone_inv (boot_mem s) (vmemmap s) i (node_zones s ! i)"
    "live_zone s i \<Longrightarrow> pageset (node_zones s ! i) < length (pagesets s)"
    "live_zone s i \<Longrightarrow> pcp_ok (boot_mem s) (vmemmap s) i (pcp_of s i)"
  using assms by (simp_all add: mm_ok_def)

lemma fresh_zone: "fresh mb v i S \<Longrightarrow> q \<in> S \<Longrightarrow> q < length v \<and> zonenum (v ! q) = i"
  by (auto simp: fresh_def pages_idle_def idle_def)

lemma zone_free_zone:
  assumes "mm_ok s" and "live_zone s i" and "q \<in> zone_free s i"
  shows "q < length (vmemmap s)" "zonenum (vmemmap s ! q) = i" "pfn_valid (boot_mem s) q"
  using assms mm_okD(3,5) [OF assms(1,2)]
  by (auto simp: zone_free_def zone_inv_def pages_idle_def idle_def pcp_ok_def fresh_def)

text \<open>The one way in which the operations change the state.\<close>

lemma mm_ok_update:
  assumes ok: "mm_ok s" and live: "live_zone s i"
    and z: "zone_inv (boot_mem s) v i z" "pageset z = pageset (node_zones s ! i)"
    and c: "pcp_ok (boot_mem s) v i c"
    and ch: "changes S (vmemmap s) v" "\<And>q. q \<in> S \<Longrightarrow> q < length (vmemmap s) \<Longrightarrow> zonenum (vmemmap s ! q) = i"
  defines "s' \<equiv> put_zone i z (put_pcp (pageset (node_zones s ! i)) c (s\<lparr>vmemmap := v\<rparr>))"
  shows "mm_ok s'" "zone_free s' i = cover (buddy_map v i) \<union> set (pcp_lists c)"
    "\<And>j. live_zone s j \<Longrightarrow> j \<noteq> i \<Longrightarrow> zone_free s' j = zone_free s j" "\<And>j. live_zone s' j = live_zone s j"
    "vmemmap s' = v" "boot_mem s' = boot_mem s" "node_zones s' ! i = z" "pcp_of s' i = c"
proof -
  note len = mm_okD(1) [OF ok]
  have i: "i < MAX_NR_ZONES" "initialized (node_zones s ! i)" using live by (simp_all add: live_zone_def)
  note ps = mm_okD(4) [OF ok live]
  have sz: "initialized z" "pageset z = pageset (node_zones s ! i)" using zone_invD(2) [OF z(1)] z(2) by simp_all
  show vm: "vmemmap s' = v" and bm: "boot_mem s' = boot_mem s" and zi: "node_zones s' ! i = z"
    using i len by (simp_all add: s'_def put_zone_def put_pcp_def)
  have zj: "node_zones s' ! j = node_zones s ! j" if "j \<noteq> i" for j
    using that by (simp add: s'_def put_zone_def put_pcp_def)
  have pg: "pagesets s' = (pagesets s)[pageset (node_zones s ! i) := c]"
    by (simp add: s'_def put_zone_def put_pcp_def)
  show lz: "live_zone s' j = live_zone s j" for j
    using sz i by (cases "j = i") (simp_all add: live_zone_def zi zj)
  show pci: "pcp_of s' i = c" using ps by (simp add: pcp_of_def zi sz pg)
  have dst: "pageset (node_zones s ! j) \<noteq> pageset (node_zones s ! i)" if "live_zone s j" "j \<noteq> i" for j
    using ok live that by (auto simp: mm_ok_def)
  have pcj: "pcp_of s' j = pcp_of s j" if "live_zone s j" "j \<noteq> i" for j
    using dst [OF that] that(2) by (simp add: pcp_of_def zj pg)
  have vo: "vmem_ok (boot_mem s) v" using zone_invD(3) [OF z(1)] .
  have ot: "zone_inv (boot_mem s) v j (node_zones s ! j)" "buddy_map v j = buddy_map (vmemmap s) j"
    "fresh (boot_mem s) (vmemmap s) j T \<Longrightarrow> fresh (boot_mem s) v j T" if "live_zone s j" "j \<noteq> i" for j T
    using zone_inv_other [OF mm_okD(3) [OF ok that(1)] ch _ vo] that(2) by auto
  show "zone_free s' i = cover (buddy_map v i) \<union> set (pcp_lists c)" by (simp add: zone_free_def vm pci)
  show "zone_free s' j = zone_free s j" if "live_zone s j" "j \<noteq> i" for j
    using ot(2) [OF that] pcj [OF that] by (simp add: zone_free_def vm)
  show "mm_ok s'"
    unfolding mm_ok_def lz bm vm
  proof (intro conjI allI impI; (elim conjE)?)
    show "length (node_zones s') = MAX_NR_ZONES" using len by (simp add: s'_def put_zone_def put_pcp_def)
    show "vmem_ok (boot_mem s) v" by (rule vo)
  next
    fix j assume lj: "live_zone s j"
    show "zone_inv (boot_mem s) v j (node_zones s' ! j)"
      using z(1) ot(1) [OF lj] by (cases "j = i") (simp_all add: zi zj)
    show "pageset (node_zones s' ! j) < length (pagesets s')"
      using ps mm_okD(4) [OF ok lj] sz by (cases "j = i") (simp_all add: zi zj pg)
    show "pcp_ok (boot_mem s) v j (pcp_of s' j)"
    proof (cases "j = i")
      case False
      then show ?thesis using mm_okD(5) [OF ok lj] ot(2,3) [OF lj False] pcj [OF lj False]
        by (simp add: pcp_ok_def)
    qed (simp add: pci c)
  next
    fix j k assume "live_zone s j" "live_zone s k" "j \<noteq> k"
    then show "pageset (node_zones s' ! j) \<noteq> pageset (node_zones s' ! k)"
      using dst [of j] dst [of k] sz ok by (cases "j = i"; cases "k = i") (auto simp: zi zj mm_ok_def)
  qed
qed

text \<open>An operation on zone \<open>i\<close>: the invariant is kept and the other zones keep their free pages.\<close>

definition mm_step :: "mm \<Rightarrow> nat \<Rightarrow> mm \<Rightarrow> bool" where
  "mm_step s i s' \<longleftrightarrow> mm_ok s' \<and> (\<forall>j. live_zone s j \<and> j \<noteq> i \<longrightarrow> zone_free s' j = zone_free s j) \<and>
     (\<forall>j. live_zone s' j = live_zone s j) \<and> boot_mem s' = boot_mem s"

lemma mm_step_update:
  assumes "mm_ok s" and "live_zone s i" and "zone_inv (boot_mem s) v i z" "pageset z = pageset (node_zones s ! i)"
    and "pcp_ok (boot_mem s) v i c" and "changes S (vmemmap s) v"
    and "\<And>q. q \<in> S \<Longrightarrow> q < length (vmemmap s) \<Longrightarrow> zonenum (vmemmap s ! q) = i"
    and "cover (buddy_map v i) \<union> set (pcp_lists c) = F"
  defines "s' \<equiv> put_zone i z (put_pcp (pageset (node_zones s ! i)) c (s\<lparr>vmemmap := v\<rparr>))"
  shows "mm_step s i s' \<and> zone_free s' i = F \<and> changes S (vmemmap s) (vmemmap s')"
  using mm_ok_update [OF assms(1-7)] assms(6,8) unfolding s'_def mm_step_def by simp

lemma mm_step_trans: "mm_step s i s' \<Longrightarrow> mm_step s' i s'' \<Longrightarrow> mm_step s i s''"
  by (simp add: mm_step_def)

section \<open>Preparing a block for release\<close>

definition wiped :: "page \<Rightarrow> page" where
  "wiped x = x\<lparr>head_word := None, page_flags := page_flags x AND NOT PAGE_FLAGS_CHECK_AT_PREP\<rparr>"

lemma wiped_simps [simp]:
  "zonenum (wiped x) = zonenum x" "refcount (wiped x) = refcount x" "\<not> is_buddy (wiped x)"
  "head_word (wiped x) = None"
  using zonenum_low(3) [of 7 "page_flags x"]
  by (simp_all add: wiped_def zonenum_eq check_at_prep_mask is_buddy_def PG_buddy_def bit_simps)

lemma wiped_idle: "zonenum x = i \<Longrightarrow> refcount x = 0 \<Longrightarrow> idle i (wiped x)"
proof -
  assume "zonenum x = i" "refcount x = 0"
  moreover have "unset_bit PG_buddy (page_flags x AND NOT (mask 7)) AND mask 7 = 0"
    by (rule bit_eqI) (auto simp: bit_simps)
  ultimately show ?thesis by (simp add: idle_def) (simp add: wiped_def check_at_prep_mask)
qed

lemma free_tails_ok:
  "\<forall>q\<in>{p + k..<p + k + m}. q < length v \<and> refcount (v ! q) = 0 \<and>
     page_flags (v ! q) AND PAGE_FLAGS_CHECK_AT_FREE = 0 \<and>
     head_word (v ! q) = (if compound then Some p else None) \<Longrightarrow>
   \<exists>v'. free_tails m v compound p k bad = Inr (bad, v') \<and> changes {p + k..<p + k + m} v v' \<and>
     (\<forall>q\<in>{p + k..<p + k + m}. v' ! q = wiped (v ! q))"
proof (induction m arbitrary: v k)
  case (Suc m)
  let ?q = "p + k"
  have q: "?q < length v" "refcount (v ! ?q) = 0" "page_flags (v ! ?q) AND PAGE_FLAGS_CHECK_AT_FREE = 0"
    "head_word (v ! ?q) = (if compound then Some p else None)" using Suc.prems by simp_all
  let ?v1 = "if compound then v[?q := (v ! ?q)\<lparr>head_word := None\<rparr>] else v" and ?v2 = "v[?q := wiped (v ! ?q)]"
  have 1: "(if compound then free_tail_pages_check v p ?q else Inr (False, v)) = Inr (False, ?v1)"
    using q by (simp add: free_tail_pages_check_def PageTail_def compound_head_def rdp_Inr
        clear_compound_head_def wrp_Inr)
  have 2: "free_pages_check ?v1 ?q = Inr False"
    using q by (simp add: free_pages_check_def expected_state_Inr)
  have 3: "clear_prep_flags ?v1 ?q = Inr ?v2"
    using q by (cases "v ! ?q") (simp add: clear_prep_flags_def wrp_Inr wiped_def)
  have "\<forall>q\<in>{p + (k + 1)..<p + (k + 1) + m}. q < length ?v2 \<and> refcount (?v2 ! q) = 0 \<and>
     page_flags (?v2 ! q) AND PAGE_FLAGS_CHECK_AT_FREE = 0 \<and>
     head_word (?v2 ! q) = (if compound then Some p else None)"
    using Suc.prems by (auto simp: nth_list_update)
  from Suc.IH [OF this] obtain v' where
    v': "free_tails m ?v2 compound p (k + 1) bad = Inr (bad, v')" "changes {p + (k + 1)..<p + (k + 1) + m} ?v2 v'"
    "\<forall>q\<in>{p + (k + 1)..<p + (k + 1) + m}. v' ! q = wiped (?v2 ! q)" by blast
  have "free_tails (Suc m) v compound p k bad = Inr (bad, v')" using 2 3 v'(1) by (simp add: 1)
  moreover have "changes {?q} v ?v2" by (rule changes_update) simp_all
  then have "changes {p + k..<p + k + Suc m} v v'" by (rule changes_trans [OF _ v'(2)]) auto
  moreover have "v' ! r = wiped (v ! r)" if "r \<in> {p + k..<p + k + Suc m}" for r
  proof (cases "r = ?q")
    case True
    then show ?thesis using v'(2) q(1) by (simp add: changes_def)
  next
    case False
    then show ?thesis using that v'(3) by auto
  qed
  ultimately show ?case by blast
qed simp

lemma clear_prep_flags_wiped:
  "p < length v \<Longrightarrow> head_word (v ! p) = None \<Longrightarrow> clear_prep_flags v p = Inr (v[p := wiped (v ! p)])"
  by (cases "v ! p") (simp add: clear_prep_flags_def wrp_Inr wiped_def)

lemma PageCompound_Inr: "p < length v \<Longrightarrow> PageCompound v p = Inr (bit (page_flags (v ! p)) PG_head \<or> head_word (v ! p) \<noteq> None)"
  by (simp add: PageCompound_def rdp_Inr)

lemma blk_tail: "blk p n - {p} = {p + 1..<p + 1 + (2 ^ n - 1)}"
  by (auto simp: blk_def)

lemma free_pages_prepare_ok:
  assumes b: "\<And>q. q \<in> blk p n \<Longrightarrow> q < length v \<and> refcount (v ! q) = 0 \<and> zonenum (v ! q) < MAX_NR_ZONES \<and>
      page_flags (v ! q) AND PAGE_FLAGS_CHECK_AT_FREE = 0"
    and h: "head_word (v ! p) = None"
    and t: "\<And>q. q \<in> blk p n - {p} \<Longrightarrow>
      head_word (v ! q) = (if bit (page_flags (v ! p)) PG_head then Some p else None)"
    and o: "0 < n \<Longrightarrow> bit (page_flags (v ! p)) PG_head \<Longrightarrow> order_byte (v ! (p + 1)) = Some n"
  shows "\<exists>v'. free_pages_prepare v p n check = Inr (True, v') \<and> changes (blk p n) v v' \<and>
    (\<forall>q\<in>blk p n. v' ! q = wiped (v ! q))"
proof -
  have p: "p < length v" "refcount (v ! p) = 0" "zonenum (v ! p) < MAX_NR_ZONES"
    "page_flags (v ! p) AND PAGE_FLAGS_CHECK_AT_FREE = 0" using b [of p] by simp_all
  let ?c = "bit (page_flags (v ! p)) PG_head"
  have "\<exists>v1. (if n \<noteq> 0 then rbind (PageCompound v p) (\<lambda>compound.
              rbind (if compound then compound_order v p else Inr n) (\<lambda>co.
                if compound \<and> co \<noteq> n then Inl Bug
                else free_tails (2 ^ n - 1) v compound p 1 0))
          else Inr (0, v)) = Inr (0, v1) \<and> changes (blk p n - {p}) v v1 \<and>
          (\<forall>q\<in>blk p n - {p}. v1 ! q = wiped (v ! q))"
  proof (cases "n = 0")
    case False
    have "2 ^ n > (1::nat)" using False one_less_power [of "2::nat" n] by simp
    then have "p + 1 \<in> blk p n" by (simp add: blk_def)
    then have "compound_order v p = Inr n" if ?c
      using p b [of "p + 1"] o False that not_poisoned [OF p(3)]
      by (simp add: compound_order_def PageHead_def TESTPAGEFLAG_def PF_ANY_Inr rdp_Inr)
    moreover have "\<exists>v1. free_tails (2 ^ n - 1) v ?c p 1 0 = Inr (0, v1) \<and>
        changes {p + 1..<p + 1 + (2 ^ n - 1)} v v1 \<and> (\<forall>q\<in>{p + 1..<p + 1 + (2 ^ n - 1)}. v1 ! q = wiped (v ! q))"
    proof (rule free_tails_ok, intro ballI)
      fix q assume "q \<in> {p + 1..<p + 1 + (2 ^ n - 1)}"
      then have "q \<in> blk p n - {p}" by (simp only: blk_tail)
      then show "q < length v \<and> refcount (v ! q) = 0 \<and> page_flags (v ! q) AND PAGE_FLAGS_CHECK_AT_FREE = 0 \<and>
          head_word (v ! q) = (if ?c then Some p else None)" using b [of q] t [of q] by simp
    qed
    ultimately show ?thesis using False p h by (auto simp: PageCompound_Inr blk_tail)
  qed simp
  then obtain v1 where v1: "(if n \<noteq> 0 then rbind (PageCompound v p) (\<lambda>compound.
              rbind (if compound then compound_order v p else Inr n) (\<lambda>co.
                if compound \<and> co \<noteq> n then Inl Bug
                else free_tails (2 ^ n - 1) v compound p 1 0))
          else Inr (0, v)) = Inr (0, v1)" "changes (blk p n - {p}) v v1" "\<forall>q\<in>blk p n - {p}. v1 ! q = wiped (v ! q)"
    by blast
  have p1: "p < length v1" "v1 ! p = v ! p" using v1(2) p(1) by (simp_all add: changes_def)
  have "free_pages_prepare v p n check = Inr (True, v1[p := wiped (v ! p)])"
    using p p1 h unfolding free_pages_prepare_def v1(1)
    by (simp add: PageTail_def rdp_Inr free_pages_check_def expected_state_Inr clear_prep_flags_wiped)
  moreover have "changes {p} v1 (v1[p := wiped (v ! p)])" using p1 by (intro changes_update) simp_all
  then have "changes (blk p n) v (v1[p := wiped (v ! p)])" by (intro changes_trans [OF v1(2)]) auto
  moreover have "\<forall>q\<in>blk p n. v1[p := wiped (v ! p)] ! q = wiped (v ! q)"
    using v1(3) p1(1) by (auto simp: nth_list_update)
  ultimately show ?thesis by blast
qed

section \<open>Release\<close>

lemma put_same_zone: "put_zone i (node_zones s ! i) (put_pcp k c (s\<lparr>vmemmap := v\<rparr>)) = put_pcp k c (s\<lparr>vmemmap := v\<rparr>)"
  by (simp add: put_zone_def put_pcp_def)

lemma put_same_pcp:
  "put_zone i z (put_pcp (pageset (node_zones s ! i)) (pcp_of s i) (s\<lparr>vmemmap := v\<rparr>)) =
   put_zone i z (s\<lparr>vmemmap := v\<rparr>)"
  by (simp add: put_zone_def put_pcp_def pcp_of_def)

lemma heldD:
  assumes "mm_ok s" and "held s p n"
  defines "i \<equiv> zonenum (vmemmap s ! p)"
  shows "live_zone s i" "blk p n \<inter> zone_free s i = {}" "p < length (vmemmap s)" "refcount (vmemmap s ! p) = 1"
    "\<And>q. q \<in> blk p n \<Longrightarrow> \<not> is_buddy (vmemmap s ! q)"
    "\<And>q. q \<in> blk p n \<Longrightarrow> q < length (vmemmap s) \<and> zonenum (vmemmap s ! q) = i \<and> pfn_valid (boot_mem s) q"
    "n < MAX_ORDER" "2 ^ n dvd p"
proof -
  show A: "live_zone s i" "blk p n \<inter> zone_free s i = {}" "refcount (vmemmap s ! p) = 1"
    "n < MAX_ORDER" "2 ^ n dvd p"
    using assms(2) unfolding held_def i_def by blast+
  have "\<forall>q\<in>blk p n. q < length (vmemmap s)" using assms(2) unfolding held_def by blast
  then show "p < length (vmemmap s)" by simp
  fix q assume q: "q \<in> blk p n"
  then show B: "q < length (vmemmap s) \<and> zonenum (vmemmap s ! q) = i \<and> pfn_valid (boot_mem s) q"
    using assms(2) unfolding held_def i_def by blast
  show "\<not> is_buddy (vmemmap s ! q)"
  proof
    assume "is_buddy (vmemmap s ! q)"
    with B have "q \<in> cover (buddy_map (vmemmap s) i)" by (intro buddy_cover_head) (simp add: buddy_map_Some)
    with A(2) q show False by (auto simp: zone_free_def)
  qed
qed

lemma held_prepare:
  assumes ok: "mm_ok s" and h: "held s p n"
  defines "i \<equiv> zonenum (vmemmap s ! p)" and "v0 \<equiv> (vmemmap s)[p := (vmemmap s ! p)\<lparr>refcount := 0\<rparr>]"
  obtains v where "free_pages_prepare v0 p n check = Inr (True, v)" "changes (blk p n) (vmemmap s) v"
    "fresh (boot_mem s) v i (blk p n \<union> set (pcp_lists (pcp_of s i)))" "zone_inv (boot_mem s) v i (node_zones s ! i)"
    "buddy_map v i = buddy_map (vmemmap s) i"
proof -
  let ?v = "vmemmap s"
  note H = heldD [OF ok h, folded i_def]
  have hl: "q \<in> blk p n \<Longrightarrow> page_flags (?v ! q) AND PAGE_FLAGS_CHECK_AT_FREE = 0"
    "q \<in> blk p n \<Longrightarrow> q \<noteq> p \<Longrightarrow> refcount (?v ! q) = 0 \<and>
      head_word (?v ! q) = (if bit (page_flags (?v ! p)) PG_head then Some p else None)"
    "head_word (?v ! p) = None"
    "0 < n \<Longrightarrow> bit (page_flags (?v ! p)) PG_head \<Longrightarrow> order_byte (?v ! (p + 1)) = Some n" for q
    using h unfolding held_def by blast+
  have i3: "i < MAX_NR_ZONES" using H(1) by (simp add: live_zone_def)
  have v0: "v0 ! q = (if q = p then (?v ! p)\<lparr>refcount := 0\<rparr> else ?v ! q)" "length v0 = length ?v" for q
    using H(3) by (auto simp: v0_def nth_list_update)
  have "\<exists>v'. free_pages_prepare v0 p n check = Inr (True, v') \<and> changes (blk p n) v0 v' \<and>
      (\<forall>q\<in>blk p n. v' ! q = wiped (v0 ! q))"
    by (rule free_pages_prepare_ok) (use H(6) hl i3 in \<open>auto simp: v0\<close>)
  then obtain v where v: "free_pages_prepare v0 p n check = Inr (True, v)" "changes (blk p n) v0 v"
    "\<forall>q\<in>blk p n. v ! q = wiped (v0 ! q)" by blast
  have "changes {p} ?v v0" unfolding v0_def by (rule changes_update) simp_all
  then have ch: "changes (blk p n) ?v v" by (rule changes_trans [OF _ v(2)]) simp_all
  have nb: "\<not> is_buddy (?v ! q) \<and> \<not> is_buddy (v ! q)" if "q \<in> blk p n" for q
    using H(5) [OF that] v(3) that by simp
  have dj: "blk p n \<inter> cover (buddy_map ?v i) = {}" "set (pcp_lists (pcp_of s i)) \<inter> blk p n = {}"
    using H(2) by (auto simp: zone_free_def)
  have Z: "zone_inv (boot_mem s) v i (node_zones s ! i)" "buddy_map v i = buddy_map ?v i"
    using zone_inv_outside [OF mm_okD(3) [OF ok H(1)] ch dj(1) nb] by simp_all
  have "idle i (v ! q)" if "q \<in> blk p n" for q
    using v(3) that H(6) [OF that] hl(2) [OF that] wiped_idle [of "v0 ! q" i] by (auto simp: v0)
  then have "fresh (boot_mem s) v i (blk p n)"
    using H(6) nb ch by (auto simp: fresh_def pages_idle_def changes_def)
  moreover have "fresh (boot_mem s) v i (set (pcp_lists (pcp_of s i)))"
    using fresh_changes [OF _ ch dj(2)] mm_okD(5) [OF ok H(1)] by (simp add: pcp_ok_def)
  ultimately show thesis using that [OF v(1) ch _ Z] by (simp add: fresh_Un)
qed

lemma put_page_testzero_Inr:
  "p < length v \<Longrightarrow> refcount (v ! p) \<noteq> 0 \<Longrightarrow>
   put_page_testzero v p = Inr (refcount (v ! p) = 1, v[p := (v ! p)\<lparr>refcount := refcount (v ! p) - 1\<rparr>])"
  by (simp add: put_page_testzero_def page_ref_count_def page_ref_dec_and_test_def rdp_Inr wrp_Inr)

lemma page_zonenum_Inr: "p < length v \<Longrightarrow> page_zonenum v p = Inr (zonenum (v ! p))"
  by (simp add: page_zonenum_def rdp_Inr)

lemma pcp_ok_changes:
  assumes "pcp_ok mb v i c" and "changes S v v'" and "set (pcp_lists c) \<inter> S = {}"
    and "set (pcp_lists c) \<inter> cover (buddy_map v' i) = {}"
  shows "pcp_ok mb v' i c"
  using assms fresh_changes [OF _ assms(2,3)] by (simp add: pcp_ok_def)

lemma free_pages_ok_ok:
  assumes ok: "mm_ok s" and h: "held s p n"
  defines "i \<equiv> zonenum (vmemmap s ! p)" and "v0 \<equiv> (vmemmap s)[p := (vmemmap s ! p)\<lparr>refcount := 0\<rparr>]"
  shows "\<exists>v z. free_pages_ok (s\<lparr>vmemmap := v0\<rparr>) p n =
      Inr (put_zone i z (put_pcp (pageset (node_zones s ! i)) (pcp_of s i) (s\<lparr>vmemmap := v\<rparr>))) \<and>
    zone_inv (boot_mem s) v i z \<and> same_zone (node_zones s ! i) z \<and> pcp_ok (boot_mem s) v i (pcp_of s i) \<and>
    changes (zone_free s i \<union> blk p n) (vmemmap s) v \<and>
    cover (buddy_map v i) \<union> set (pcp_lists (pcp_of s i)) = zone_free s i \<union> blk p n"
proof -
  note H = heldD [OF ok h, folded i_def]
  let ?C = "cover (buddy_map (vmemmap s) i)" and ?L = "set (pcp_lists (pcp_of s i))"
  obtain v1 where P: "free_pages_prepare v0 p n True = Inr (True, v1)" "changes (blk p n) (vmemmap s) v1"
    "fresh (boot_mem s) v1 i (blk p n \<union> ?L)" "zone_inv (boot_mem s) v1 i (node_zones s ! i)"
    "buddy_map v1 i = buddy_map (vmemmap s) i"
    using held_prepare [OF ok h, of True] unfolding i_def v0_def by blast
  have dj: "blk p n \<inter> ?C = {}" "blk p n \<inter> ?L = {}" "?L \<inter> ?C = {}"
    using H(2) mm_okD(5) [OF ok H(1)] by (auto simp: zone_free_def pcp_ok_def)
  have "block_ok (boot_mem s) v1 i p n"
    using H(7,8) dj(1) fresh_mono [OF P(3)] by (auto simp: block_ok_def P(5))
  from do_free_one_page_ok [OF P(4) this] obtain v z where
    F: "do_free_one_page (boot_mem s) v1 (node_zones s ! i) p n = Inr (v, z)" "zone_inv (boot_mem s) v i z"
    "cover (buddy_map v i) = ?C \<union> blk p n" "changes (?C \<union> blk p n) v1 v" "same_zone (node_zones s ! i) z"
    unfolding P(5) by blast
  have ch: "changes (?C \<union> blk p n) (vmemmap s) v" by (rule changes_trans [OF P(2) F(4)]) auto
  have "p < length v1" "zonenum (v1 ! p) = i" using P(2) H(3) by (simp_all add: changes_def i_def)
  then have "free_pages_ok (s\<lparr>vmemmap := v0\<rparr>) p n = Inr (put_zone i z (s\<lparr>vmemmap := v\<rparr>))"
    using P(1) F(1) H(1) mm_okD(1) [OF ok]
    by (simp add: free_pages_ok_def page_zonenum_Inr free_one_page_def zone_at_def live_zone_def)
  moreover have "pcp_ok (boot_mem s) v i (pcp_of s i)"
    by (rule pcp_ok_changes [OF mm_okD(5) [OF ok H(1)] ch]) (use dj F(3) in auto)
  moreover have "changes (zone_free s i \<union> blk p n) (vmemmap s) v"
    by (rule changes_trans [OF ch changes_refl [of "{}"]]) (auto simp: zone_free_def)
  moreover have "cover (buddy_map v i) \<union> ?L = zone_free s i \<union> blk p n" using F(3) by (auto simp: zone_free_def)
  ultimately show ?thesis using F(2,5) unfolding put_same_pcp by blast
qed

text \<open>A single page goes to the per-CPU list; a full list gives \<^verbatim>\<open>batch\<close> pages back to the zone.\<close>

lemma free_pcppages_bulk_ok:
  assumes inv: "zone_inv mb v i z" and fr: "fresh mb v i (set (pcp_lists c))"
    and dj: "set (pcp_lists c) \<inter> cover (buddy_map v i) = {}" and d: "distinct (pcp_lists c)"
    and n: "1 \<le> count" "count \<le> int (length (pcp_lists c))" and pc: "pcp_count c = int (length (pcp_lists c))"
  shows "\<exists>v' z' c'. free_pcppages_bulk mb v z count c = Inr (v', z', c') \<and> zone_inv mb v' i z' \<and> same_zone z z' \<and>
    changes (cover (buddy_map v i) \<union> set (pcp_lists c)) v v' \<and>
    cover (buddy_map v' i) \<union> set (pcp_lists c') = cover (buddy_map v i) \<union> set (pcp_lists c) \<and>
    fresh mb v' i (set (pcp_lists c')) \<and> set (pcp_lists c') \<inter> cover (buddy_map v' i) = {} \<and>
    distinct (pcp_lists c') \<and> pcp_count c' = int (length (pcp_lists c')) \<and>
    pcp_batch c' = pcp_batch c \<and> pcp_high c' = pcp_high c"
proof -
  let ?l = "pcp_lists c" and ?C = "cover (buddy_map v i)"
  define m where "m = length ?l - nat count"
  obtain v1 where T: "pcp_take v ?l (pcp_count c) [] count 1 = Inr (v1, take m ?l, pcp_count c - count, rev (drop m ?l))"
    "zone_inv mb v1 i z" "buddy_map v1 i = buddy_map v i" "fresh mb v1 i (set ?l)" "changes (set ?l) v v1"
    using pcp_take_ok [OF inv fr dj subset_refl n, of "pcp_count c" "[]" 1] unfolding m_def by auto
  have un: "set ?l = set (take m ?l) \<union> set (drop m ?l)" by (metis append_take_drop_id set_append)
  have dt: "set (take m ?l) \<inter> set (drop m ?l) = {}" using d by (metis append_take_drop_id distinct_append)
  have "fresh mb v1 i (set (rev (drop m ?l)))" by (rule fresh_mono [OF T(4)]) (use un in auto)
  moreover have "set (rev (drop m ?l)) \<inter> cover (buddy_map v1 i) = {}" using dj un by (auto simp: T(3))
  moreover have "distinct (rev (drop m ?l))" using d by simp
  ultimately obtain v2 z2 where F: "free_list_pages mb (rev (drop m ?l)) v1 z = Inr (v2, z2)" "zone_inv mb v2 i z2"
    "cover (buddy_map v2 i) = ?C \<union> set (drop m ?l)" "changes (?C \<union> set (drop m ?l)) v1 v2" "same_zone z z2"
    using free_list_pages_ok [OF T(2), of "rev (drop m ?l)"] by (auto simp: T(3))
  have "changes (?C \<union> set ?l) v v2" by (rule changes_trans [OF T(5) F(4)]) (use un in auto)
  moreover have "fresh mb v2 i (set (take m ?l))"
    by (rule fresh_changes [OF fresh_mono [OF T(4)] F(4)]) (use un dt dj in auto)
  moreover have "free_pcppages_bulk mb v z count c =
      Inr (v2, z2, c\<lparr>pcp_lists := take m ?l, pcp_count := pcp_count c - count\<rparr>)"
    using n T(1) F(1) by (simp add: free_pcppages_bulk_def)
  moreover have "pcp_count c - count = int (length (take m ?l))" using n pc by (simp add: m_def)
  moreover have "cover (buddy_map v2 i) \<union> set (take m ?l) = ?C \<union> set ?l" using F(3) un by blast
  moreover have "set (take m ?l) \<inter> cover (buddy_map v2 i) = {}" using F(3) un dt dj by blast
  ultimately show ?thesis
    using F(2,5) d by (intro exI [of _ v2] exI [of _ z2]
        exI [of _ "c\<lparr>pcp_lists := take m ?l, pcp_count := pcp_count c - count\<rparr>"]) simp
qed

lemma free_unref_page_ok:
  assumes ok: "mm_ok s" and h: "held s p 0"
  defines "i \<equiv> zonenum (vmemmap s ! p)" and "v0 \<equiv> (vmemmap s)[p := (vmemmap s ! p)\<lparr>refcount := 0\<rparr>]"
  shows "\<exists>v z c. free_unref_page (s\<lparr>vmemmap := v0\<rparr>) p =
      Inr (put_zone i z (put_pcp (pageset (node_zones s ! i)) c (s\<lparr>vmemmap := v\<rparr>))) \<and>
    zone_inv (boot_mem s) v i z \<and> same_zone (node_zones s ! i) z \<and> pcp_ok (boot_mem s) v i c \<and>
    changes (zone_free s i \<union> {p}) (vmemmap s) v \<and>
    cover (buddy_map v i) \<union> set (pcp_lists c) = zone_free s i \<union> {p}"
proof -
  note H = heldD [OF ok h, folded i_def]
  let ?C = "cover (buddy_map (vmemmap s) i)" and ?c = "pcp_of s i" and ?z = "node_zones s ! i"
  let ?S = "insert p (set (pcp_lists ?c))"
  define c where "c = ?c\<lparr>pcp_lists := p # pcp_lists ?c, pcp_count := pcp_count ?c + 1\<rparr>"
  have pk: "pcp_ok (boot_mem s) (vmemmap s) i ?c" by (rule mm_okD(5) [OF ok H(1)])
  obtain v1 where P: "free_pages_prepare v0 p 0 False = Inr (True, v1)" "changes (blk p 0) (vmemmap s) v1"
    "fresh (boot_mem s) v1 i (blk p 0 \<union> set (pcp_lists ?c))" "zone_inv (boot_mem s) v1 i ?z"
    "buddy_map v1 i = buddy_map (vmemmap s) i"
    using held_prepare [OF ok h, of False] unfolding i_def v0_def by blast
  have dj: "?S \<inter> ?C = {}" "p \<notin> set (pcp_lists ?c)"
    using H(2) pk by (auto simp: zone_free_def pcp_ok_def)
  have fr1: "fresh (boot_mem s) v1 i ?S" and dj1: "?S \<inter> cover (buddy_map v1 i) = {}"
    using P(3) dj by (simp_all add: P(5))
  obtain v2 where w: "lru_write v1 p = Inr v2" "zone_inv (boot_mem s) v2 i ?z" "buddy_map v2 i = buddy_map v1 i"
    "fresh (boot_mem s) v2 i ?S" "changes ?S v1 v2" by (rule lru_fresh [OF P(4) fr1 insertI1 dj1])
  have ch2: "changes ?S (vmemmap s) v2" by (rule changes_trans [OF P(2) w(5)]) auto
  have cl: "set (pcp_lists c) = ?S" "distinct (pcp_lists c)" "pcp_count c = int (length (pcp_lists c))"
    "pcp_batch c = pcp_batch ?c" "pcp_high c = pcp_high ?c"
    using pk dj(2) by (simp_all add: c_def pcp_ok_def)
  have p1: "p < length v1" "zonenum (v1 ! p) = i" using P(2) H(3) by (simp_all add: changes_def i_def)
  have at: "zone_at (s\<lparr>vmemmap := v1\<rparr>) i = Inr ?z" "pcp_at (s\<lparr>vmemmap := v1\<rparr>) (pageset ?z) = Inr ?c"
    using H(1) mm_okD(1,4) [OF ok] by (simp_all add: zone_at_def pcp_at_def pcp_of_def live_zone_def)
  have run: "free_unref_page (s\<lparr>vmemmap := v0\<rparr>) p =
      (if pcp_count c \<ge> pcp_high c then
         rbind (free_pcppages_bulk (boot_mem s) v2 ?z (pcp_batch c) c) (\<lambda>(v, z, c').
           Inr (put_zone i z (put_pcp (pageset ?z) c' (s\<lparr>vmemmap := v\<rparr>))))
       else Inr (put_pcp (pageset ?z) c (s\<lparr>vmemmap := v2\<rparr>)))"
    using P(1) w(1) p1 at
    by (simp add: free_unref_page_def free_unref_page_prepare_def free_pcp_prepare_def
        free_unref_page_commit_def page_zonenum_Inr Let_def c_def)
  have zf: "zone_free s i \<union> {p} = ?C \<union> ?S" by (auto simp: zone_free_def)
  show ?thesis
  proof (cases "pcp_count c \<ge> pcp_high c")
    case False
    have "pcp_ok (boot_mem s) v2 i c" using pk cl w(3,4) dj1 by (simp add: pcp_ok_def)
    moreover have "changes (zone_free s i \<union> {p}) (vmemmap s) v2"
      by (rule changes_trans [OF ch2 changes_refl [of "{}"]]) (auto simp: zone_free_def)
    ultimately show ?thesis
      using False run w(2,3) cl(1) zf put_same_zone [of i s "pageset ?z" c v2]
      by (intro exI [of _ v2] exI [of _ ?z] exI [of _ c]) (simp add: P(5))
  next
    case True
    have b: "1 \<le> pcp_batch c" "pcp_batch c \<le> int (length (pcp_lists c))"
      using pk True cl by (auto simp: pcp_ok_def c_def)
    have A: "fresh (boot_mem s) v2 i (set (pcp_lists c))" "set (pcp_lists c) \<inter> cover (buddy_map v2 i) = {}"
      using w(3,4) dj1 by (simp_all add: cl(1))
    obtain v z c' where B: "free_pcppages_bulk (boot_mem s) v2 ?z (pcp_batch c) c = Inr (v, z, c')"
      "zone_inv (boot_mem s) v i z" "same_zone ?z z" "changes (cover (buddy_map v2 i) \<union> set (pcp_lists c)) v2 v"
      "cover (buddy_map v i) \<union> set (pcp_lists c') = cover (buddy_map v2 i) \<union> set (pcp_lists c)"
      "fresh (boot_mem s) v i (set (pcp_lists c'))" "set (pcp_lists c') \<inter> cover (buddy_map v i) = {}"
      "distinct (pcp_lists c')" "pcp_count c' = int (length (pcp_lists c'))"
      "pcp_batch c' = pcp_batch c" "pcp_high c' = pcp_high c"
      using free_pcppages_bulk_ok [OF w(2) A cl(2) b cl(3)] by blast
    have U: "cover (buddy_map v2 i) \<union> set (pcp_lists c) = zone_free s i \<union> {p}"
      using zf by (simp add: w(3) P(5) cl(1))
    have "changes (zone_free s i \<union> {p}) (vmemmap s) v"
      by (rule changes_trans [OF ch2 B(4)]) (use U zf in auto)
    moreover have "pcp_ok (boot_mem s) v i c'" using pk B(6-11) cl by (simp add: pcp_ok_def)
    ultimately show ?thesis using True run B(1,2,3,5) U by auto
  qed
qed

lemma do_free_pages_ok:
  assumes ok: "mm_ok s" and h: "held s p n"
  defines "i \<equiv> zonenum (vmemmap s ! p)"
  shows "\<exists>s'. do_free_pages s p n = Inr s' \<and> mm_step s i s' \<and>
    zone_free s' i = zone_free s i \<union> blk p n \<and>
    changes (zone_free s i \<union> blk p n) (vmemmap s) (vmemmap s')"
proof -
  note H = heldD [OF ok h, folded i_def]
  let ?v0 = "(vmemmap s)[p := (vmemmap s ! p)\<lparr>refcount := 0\<rparr>]"
  have "\<exists>v z c. free_the_page (s\<lparr>vmemmap := ?v0\<rparr>) p n =
      Inr (put_zone i z (put_pcp (pageset (node_zones s ! i)) c (s\<lparr>vmemmap := v\<rparr>))) \<and>
    zone_inv (boot_mem s) v i z \<and> same_zone (node_zones s ! i) z \<and> pcp_ok (boot_mem s) v i c \<and>
    changes (zone_free s i \<union> blk p n) (vmemmap s) v \<and>
    cover (buddy_map v i) \<union> set (pcp_lists c) = zone_free s i \<union> blk p n"
  proof (cases "n = 0")
    case True
    then show ?thesis using free_unref_page_ok [OF ok, of p] h by (simp add: free_the_page_def i_def)
  next
    case False
    then show ?thesis using free_pages_ok_ok [OF ok h] unfolding i_def free_the_page_def by auto
  qed
  then obtain v z c where F: "free_the_page (s\<lparr>vmemmap := ?v0\<rparr>) p n =
      Inr (put_zone i z (put_pcp (pageset (node_zones s ! i)) c (s\<lparr>vmemmap := v\<rparr>)))"
    "zone_inv (boot_mem s) v i z" "same_zone (node_zones s ! i) z" "pcp_ok (boot_mem s) v i c"
    "changes (zone_free s i \<union> blk p n) (vmemmap s) v"
    "cover (buddy_map v i) \<union> set (pcp_lists c) = zone_free s i \<union> blk p n" by blast
  have zn: "zonenum (vmemmap s ! q) = i" if "q \<in> zone_free s i \<union> blk p n" for q
    using that zone_free_zone(2) [OF ok H(1)] H(6) by auto
  have "do_free_pages s p n = Inr (put_zone i z (put_pcp (pageset (node_zones s ! i)) c (s\<lparr>vmemmap := v\<rparr>)))"
    using F(1) H(3,4) by (simp add: do_free_pages_def put_page_testzero_Inr)
  moreover note mm_step_update [OF ok H(1) F(2) same_zoneD(2) [OF F(3)] F(4,5) zn F(6)]
  ultimately show ?thesis by blast
qed

end
