(* ===== verification/Page_Take.thy ===== *)
theory Page_Take
  imports Page_Node
begin

text \<open>
  Allocation of pages: \<^verbatim>\<open>rmqueue\<close>, \<^verbatim>\<open>prep_new_page\<close> and \<^verbatim>\<open>__alloc_pages\<close> under the invariant of the
  node.
\<close>

section \<open>Taking pages off the lists\<close>

lemma buddy_map_empty: "cover (buddy_map v i) = {} \<Longrightarrow> buddy_map v i p = None"
  using buddy_cover_head [of v i p] by (cases "buddy_map v i p") auto

lemma do_rmqueue_none:
  assumes "zone_inv mb v i z" and "cover (buddy_map v i) = {}"
  shows "do_rmqueue v z n = Inr (None, v, z)"
  using do_rmqueue_ok [OF assms(1), of n] buddy_map_empty [OF assms(2)] by auto

lemma do_rmqueue_pcplist_ok:
  assumes inv: "zone_inv mb v i z" and pk: "pcp_ok mb v i c"
  defines "F \<equiv> cover (buddy_map v i) \<union> set (pcp_lists c)"
  shows "F = {} \<and> do_rmqueue_pcplist v z c = Inr (None, v, z, c) \<or>
    (\<exists>p v' z' c'. do_rmqueue_pcplist v z c = Inr (Some p, v', z', c') \<and> p \<in> F \<and>
      zone_inv mb v' i z' \<and> same_zone z z' \<and> pcp_ok mb v' i c' \<and> changes F v v' \<and>
      cover (buddy_map v' i) \<union> set (pcp_lists c') = F - {p} \<and> fresh mb v' i {p})"
proof -
  have b: "nat (pcp_batch c mod 2 ^ 64) = nat (pcp_batch c)" "0 < nat (pcp_batch c)"
    using pk by (simp_all add: pcp_ok_def)
  have "\<exists>v1 z1 c1. (if pcp_lists c = [] then
          rbind (rmqueue_bulk (nat (pcp_batch c mod 2 ^ 64)) v z 0 (pcp_lists c) 0) (\<lambda>(n, v1, z1, lst).
            Inr (v1, z1, c\<lparr>pcp_count := pcp_count c + n, pcp_lists := lst\<rparr>))
        else Inr (v, z, c)) = Inr (v1, z1, c1) \<and> zone_inv mb v1 i z1 \<and> same_zone z z1 \<and> pcp_ok mb v1 i c1 \<and>
        changes F v v1 \<and> cover (buddy_map v1 i) \<union> set (pcp_lists c1) = F \<and>
        (pcp_lists c1 = [] \<longrightarrow> F = {} \<and> v1 = v \<and> z1 = z \<and> c1 = c)"
  proof (cases "pcp_lists c = []")
    case False
    then show ?thesis using inv pk by (intro exI [of _ v] exI [of _ z] exI [of _ c]) (simp add: F_def)
  next
    case True
    have c0: "pcp_count c = 0" using pk True by (simp add: pcp_ok_def)
    show ?thesis
    proof (cases "cover (buddy_map v i) = {}")
      case e: True
      from b(2) obtain m where m: "nat (pcp_batch c) = Suc m" by (cases "nat (pcp_batch c)") auto
      have "rmqueue_bulk (nat (pcp_batch c mod 2 ^ 64)) v z 0 (pcp_lists c) 0 = Inr (0, v, z, [])"
        unfolding b(1) m using True do_rmqueue_none [OF inv e] by simp
      moreover have "c\<lparr>pcp_count := pcp_count c + 0, pcp_lists := []\<rparr> = c" using True c0 by (cases c) simp
      ultimately show ?thesis
        using True inv pk e by (intro exI [of _ v] exI [of _ z] exI [of _ c]) (simp add: F_def)
    next
      case ne: False
      obtain new v1 z1 where R: "rmqueue_bulk (nat (pcp_batch c)) v z 0 [] 0 = Inr (int (length new), v1, z1, new)"
        "zone_inv mb v1 i z1" "distinct new" "fresh mb v1 i (set new)" "set new \<inter> cover (buddy_map v1 i) = {}"
        "cover (buddy_map v1 i) \<union> set new = F" "changes F v v1" "same_zone z z1" "new \<noteq> []"
        using rmqueue_bulk_ok [OF inv, of "[]" "nat (pcp_batch c)" 0] b(2) ne True
        by (auto simp: F_def fresh_def pages_idle_def)
      then show ?thesis
        using True pk c0 by (intro exI [of _ v1] exI [of _ z1]
            exI [of _ "c\<lparr>pcp_count := pcp_count c + int (length new), pcp_lists := new\<rparr>"]) (simp add: b(1) pcp_ok_def)
    qed
  qed
  then obtain v1 z1 c1 where Q: "(if pcp_lists c = [] then
          rbind (rmqueue_bulk (nat (pcp_batch c mod 2 ^ 64)) v z 0 (pcp_lists c) 0) (\<lambda>(n, v1, z1, lst).
            Inr (v1, z1, c\<lparr>pcp_count := pcp_count c + n, pcp_lists := lst\<rparr>))
        else Inr (v, z, c)) = Inr (v1, z1, c1)" "zone_inv mb v1 i z1" "same_zone z z1" "pcp_ok mb v1 i c1"
    "changes F v v1" "cover (buddy_map v1 i) \<union> set (pcp_lists c1) = F"
    "pcp_lists c1 = [] \<longrightarrow> F = {} \<and> v1 = v \<and> z1 = z \<and> c1 = c" by blast
  show ?thesis
  proof (cases "pcp_lists c1")
    case Nil
    then show ?thesis using Q(1,7) unfolding do_rmqueue_pcplist_def by simp
  next
    case (Cons p ps)
    have fr: "fresh mb v1 i (set (pcp_lists c1))" and dj: "set (pcp_lists c1) \<inter> cover (buddy_map v1 i) = {}"
      and d: "distinct (pcp_lists c1)" using Q(4) by (simp_all add: pcp_ok_def)
    have pS: "p \<in> set (pcp_lists c1)" using Cons by simp
    obtain v2 where w: "lru_write v1 p = Inr v2" "zone_inv mb v2 i z1" "buddy_map v2 i = buddy_map v1 i"
      "fresh mb v2 i (set (pcp_lists c1))" "changes (set (pcp_lists c1)) v1 v2"
      by (rule lru_fresh [OF Q(2) fr pS dj])
    let ?c = "c1\<lparr>pcp_lists := ps, pcp_count := pcp_count c1 - 1\<rparr>"
    have "do_rmqueue_pcplist v z c = Inr (Some p, v2, z1, ?c)"
      using Q(1) Cons w(1) unfolding do_rmqueue_pcplist_def by simp
    moreover have "pcp_ok mb v2 i ?c" using Q(4) Cons w(3) fresh_mono [OF w(4), of "set ps"] by (auto simp: pcp_ok_def)
    moreover have "changes F v v2" by (rule changes_trans [OF Q(5) w(5)]) (use Q(6) in auto)
    moreover have "cover (buddy_map v2 i) \<union> set (pcp_lists ?c) = F - {p}" "p \<in> F"
      using Q(6) Cons d dj w(3) by auto
    moreover have "fresh mb v2 i {p}" by (rule fresh_mono [OF w(4)]) (simp add: Cons)
    ultimately show ?thesis using w(2) Q(3) by blast
  qed
qed

text \<open>What \<^verbatim>\<open>rmqueue\<close> does: nothing when no block is large enough, else it takes a block.\<close>

lemma rmqueue_ok:
  assumes ok: "mm_ok s" and live: "live_zone s i"
  shows "(if n = 0 then zone_free s i = {} else \<forall>p m. n \<le> m \<longrightarrow> buddy_map (vmemmap s) i p \<noteq> Some m) \<and>
      rmqueue s i n = Inr (None, s) \<or>
    (\<exists>p v z c. rmqueue s i n = Inr (Some p, put_zone i z (put_pcp (pageset (node_zones s ! i)) c (s\<lparr>vmemmap := v\<rparr>))) \<and>
      zone_inv (boot_mem s) v i z \<and> same_zone (node_zones s ! i) z \<and> pcp_ok (boot_mem s) v i c \<and>
      changes (zone_free s i) (vmemmap s) v \<and> blk p n \<subseteq> zone_free s i \<and>
      cover (buddy_map v i) \<union> set (pcp_lists c) = zone_free s i - blk p n \<and>
      fresh (boot_mem s) v i (blk p n) \<and> 2 ^ n dvd p)"
proof -
  let ?z = "node_zones s ! i" and ?c = "pcp_of s i" and ?v = "vmemmap s"
  note inv = mm_okD(3) [OF ok live] and pk = mm_okD(5) [OF ok live]
  have at: "zone_at s i = Inr ?z" "pcp_at s (pageset ?z) = Inr ?c"
    using live mm_okD(1,4) [OF ok] by (simp_all add: zone_at_def pcp_at_def pcp_of_def live_zone_def)
  have same: "put_zone i ?z (put_pcp (pageset ?z) ?c (s\<lparr>vmemmap := ?v\<rparr>)) = s"
    by (simp add: put_zone_def put_pcp_def pcp_of_def)
  show ?thesis
  proof (cases "n = 0")
    case True
    then show ?thesis
      using do_rmqueue_pcplist_ok [OF inv pk] at same
      by (elim disjE conjE exE) (auto simp: rmqueue_def rmqueue_pcplist_def zone_free_def)
  next
    case False
    have r: "rmqueue s i n = rbind (do_rmqueue ?v ?z n) (\<lambda>(r, v1, z1). Inr (r, put_zone i z1 (s\<lparr>vmemmap := v1\<rparr>)))"
      using False at(1) by (simp add: rmqueue_def rmqueue_retry_ok [OF inv])
    from do_rmqueue_ok [OF inv, of n] show ?thesis
    proof (elim disjE conjE exE)
      fix p m v z
      assume R: "do_rmqueue ?v ?z n = Inr (Some p, v, z)" "n \<le> m" "buddy_map ?v i p = Some m" "zone_inv (boot_mem s) v i z"
        "block_ok (boot_mem s) v i p n" "cover (buddy_map v i) = cover (buddy_map ?v i) - blk p n"
        "changes (cover (buddy_map ?v i)) ?v v" "same_zone ?z z"
      have sub: "blk p n \<subseteq> cover (buddy_map ?v i)"
        using cover_remove(2) [OF zone_invD(5) [OF inv] R(3)] blk_mono [OF R(2), of p] by blast
      have dj: "set (pcp_lists ?c) \<inter> cover (buddy_map ?v i) = {}" using pk by (simp add: pcp_ok_def)
      have "pcp_ok (boot_mem s) v i ?c" by (rule pcp_ok_changes [OF pk R(7) dj]) (use R(6) dj in auto)
      moreover have "changes (zone_free s i) ?v v"
        by (rule changes_trans [OF R(7) changes_refl [of "{}"]]) (auto simp: zone_free_def)
      moreover have "cover (buddy_map v i) \<union> set (pcp_lists ?c) = zone_free s i - blk p n"
        using R(6) sub dj by (auto simp: zone_free_def)
      moreover have "rmqueue s i n = Inr (Some p, put_zone i z (put_pcp (pageset ?z) ?c (s\<lparr>vmemmap := v\<rparr>)))"
        using r R(1) by (simp add: put_same_pcp)
      moreover have "blk p n \<subseteq> zone_free s i" using sub by (auto simp: zone_free_def)
      ultimately show ?thesis using R(4,8) block_okD(2,4) [OF R(5)] by blast
    next
      assume "\<forall>p m. n \<le> m \<longrightarrow> buddy_map ?v i p \<noteq> Some m" "do_rmqueue ?v ?z n = Inr (None, ?v, ?z)"
      then show ?thesis using r False by (auto simp: put_zone_def)
    qed
  qed
qed

section \<open>Preparing the block\<close>

lemma set_page_refcounted_Inr:
  "p < length v \<Longrightarrow> head_word (v ! p) = None \<Longrightarrow> refcount (v ! p) = 0 \<Longrightarrow>
   set_page_refcounted v p = Inr (v[p := (v ! p)\<lparr>refcount := 1\<rparr>])"
  by (simp add: set_page_refcounted_def PageTail_def page_ref_count_def set_page_count_def rdp_Inr wrp_Inr)

lemma prep_tails_ok:
  "\<forall>q\<in>{p + k..<p + k + m}. q < length v \<Longrightarrow>
   \<exists>v'. prep_tails m v p k = Inr v' \<and> changes {p + k..<p + k + m} v v' \<and>
     (\<forall>q\<in>{p + k..<p + k + m}. v' ! q = (v ! q)\<lparr>refcount := 0, head_word := Some p\<rparr>)"
proof (induction m arbitrary: v k)
  case (Suc m)
  let ?q = "p + k" and ?f = "\<lambda>x. x\<lparr>refcount := 0, head_word := Some p\<rparr>"
  let ?v2 = "v[?q := ?f (v ! ?q)]"
  have q: "?q < length v" using Suc.prems by simp
  have "\<forall>q\<in>{p + (k + 1)..<p + (k + 1) + m}. q < length ?v2" using Suc.prems by auto
  from Suc.IH [OF this] obtain v' where v': "prep_tails m ?v2 p (k + 1) = Inr v'"
    "changes {p + (k + 1)..<p + (k + 1) + m} ?v2 v'" "\<forall>q\<in>{p + (k + 1)..<p + (k + 1) + m}. v' ! q = ?f (?v2 ! q)"
    by blast
  have "prep_tails (Suc m) v p k = Inr v'"
    using q v'(1) by (simp add: set_page_count_def set_compound_head_def wrp_Inr)
  moreover have "changes {?q} v ?v2" by (rule changes_update) (simp_all add: zonenum_eq)
  then have "changes {p + k..<p + k + Suc m} v v'" by (rule changes_trans [OF _ v'(2)]) auto
  moreover have "v' ! r = ?f (v ! r)" if "r \<in> {p + k..<p + k + Suc m}" for r
    using that v'(2,3) q by (cases "r = ?q") (auto simp: changes_def)
  ultimately show ?case by blast
qed simp

lemma prep_compound_page_ok:
  assumes len: "\<And>q. q \<in> blk p n \<Longrightarrow> q < length v" and zn: "zonenum (v ! p) < MAX_NR_ZONES" and n: "0 < n" "n < MAX_ORDER"
  shows "\<exists>v'. prep_compound_page v p n = Inr v' \<and> changes (blk p n) v v' \<and>
    v' ! p = (v ! p)\<lparr>page_flags := set_bit PG_head (page_flags (v ! p))\<rparr> \<and> order_byte (v' ! (p + 1)) = Some n \<and>
    (\<forall>q\<in>blk p n - {p}. refcount (v' ! q) = 0 \<and> head_word (v' ! q) = Some p \<and> page_flags (v' ! q) = page_flags (v ! q))"
proof -
  have "(1::nat) < 2 ^ n" using n(1) one_less_power [of "2::nat" n] by simp
  then have p1: "p + 1 \<in> blk p n - {p}" "p \<in> blk p n" by (simp_all add: blk_def)
  let ?v1 = "v[p + 1 := (v ! (p + 1))\<lparr>order_byte := Some n\<rparr>]"
  let ?v2 = "?v1[p := (v ! p)\<lparr>page_flags := set_bit PG_head (page_flags (v ! p))\<rparr>]"
  have 1: "set_compound_order v p n = Inr ?v1"
    using len [of "p + 1"] p1(1) n(2) by (simp add: set_compound_order_def wrp_Inr MAX_ORDER_def)
  have 2: "SetPageHead ?v1 p = Inr ?v2"
    using len [OF p1(2)] not_poisoned [OF zn] by (simp add: SetPageHead_def SETPAGEFLAG_def PF_ANY_Inr wrp_Inr)
  have "\<forall>q\<in>{p + 1..<p + 1 + (2 ^ n - 1)}. q < length ?v2" unfolding blk_tail [symmetric] using len by simp
  from prep_tails_ok [OF this] obtain v' where v': "prep_tails (2 ^ n - 1) ?v2 p 1 = Inr v'"
    "changes (blk p n - {p}) ?v2 v'" "\<forall>q\<in>blk p n - {p}. v' ! q = (?v2 ! q)\<lparr>refcount := 0, head_word := Some p\<rparr>"
    unfolding blk_tail by blast
  have "changes {p + 1} v ?v1" by (rule changes_update) (simp_all add: zonenum_eq)
  moreover have "changes {p} ?v1 ?v2" by (rule changes_update) (simp_all add: zonenum_eq PG_head_def)
  ultimately have "changes (blk p n) v ?v2" by (rule changes_trans) (use p1 in auto)
  then have "changes (blk p n) v v'" by (rule changes_trans [OF _ v'(2)]) auto
  moreover have "v' ! p = (v ! p)\<lparr>page_flags := set_bit PG_head (page_flags (v ! p))\<rparr>"
    using v'(2) len [OF p1(2)] by (simp add: changes_def)
  moreover have "order_byte (v' ! (p + 1)) = Some n" using v'(3) p1(1) len [of "p + 1"] by auto
  moreover have "refcount (v' ! q) = 0 \<and> head_word (v' ! q) = Some p \<and> page_flags (v' ! q) = page_flags (v ! q)"
    if "q \<in> blk p n - {p}" for q
    using v'(3) that len [of q] by (cases "q = p + 1") auto
  ultimately show ?thesis using 1 2 v'(1) by (auto simp: prep_compound_page_def)
qed

lemma flag_clear:
  assumes "page_flags x AND PAGE_FLAGS_CHECK_AT_PREP = 0" and "k < 7" shows "\<not> bit (page_flags x) k"
proof
  assume "bit (page_flags x) k"
  then have "bit (page_flags x AND PAGE_FLAGS_CHECK_AT_PREP) k" using assms(2) by (simp add: check_at_prep_mask bit_simps)
  with assms(1) show False by simp
qed

lemma bit_check_at_free: "bit PAGE_FLAGS_CHECK_AT_FREE k \<longleftrightarrow> k < 64 \<and> (k = PG_reserved \<or> k = PG_slab)"
  by (auto simp: PAGE_FLAGS_CHECK_AT_FREE_def bit_simps)

lemma set_head_flags:
  "page_flags x AND PAGE_FLAGS_CHECK_AT_PREP = 0 \<Longrightarrow> set_bit PG_head (page_flags x) AND PAGE_FLAGS_CHECK_AT_FREE = 0"
  by (rule bit_eqI) (auto simp: bit_check_at_free bit_simps PG_defs flag_clear)

text \<open>The state of the block after \<^verbatim>\<open>prep_new_page\<close>.\<close>

lemma prep_new_page_ok:
  assumes fr: "fresh (boot_mem s) (vmemmap s) i (blk p n)" and n: "n < MAX_ORDER" and i: "i < MAX_NR_ZONES"
  shows "\<exists>v. prep_new_page s p n g =
      Inr (s\<lparr>ram := if g AND GFP_ZERO \<noteq> 0 then clear_pages p (2 ^ n) (ram s) else ram s, vmemmap := v\<rparr>) \<and>
    changes (blk p n) (vmemmap s) v \<and> (\<forall>q\<in>blk p n. \<not> is_buddy (v ! q) \<and> page_flags (v ! q) AND PAGE_FLAGS_CHECK_AT_FREE = 0) \<and>
    head_word (v ! p) = None \<and> refcount (v ! p) = 1 \<and> (bit (page_flags (v ! p)) PG_head \<longleftrightarrow> 0 < n) \<and>
    (\<forall>q\<in>blk p n - {p}. refcount (v ! q) = 0 \<and> head_word (v ! q) = Some p) \<and>
    (0 < n \<longrightarrow> order_byte (v ! (p + 1)) = Some n)"
proof -
  let ?v = "vmemmap s"
  have B: "q < length ?v" "idle i (?v ! q)" "\<not> is_buddy (?v ! q)" "page_flags (?v ! q) AND PAGE_FLAGS_CHECK_AT_PREP = 0"
    "page_flags (?v ! q) AND PAGE_FLAGS_CHECK_AT_FREE = 0" if "q \<in> blk p n" for q
    using fr that idle_flags and_zero_subset [OF idle_flags check_at_free_subset]
    by (auto simp: fresh_def pages_idle_def)
  have p: "p \<in> blk p n" by simp
  note Bp = B [OF p]
  have ip: "zonenum (?v ! p) = i" "refcount (?v ! p) = 0" "head_word (?v ! p) = None" using Bp(2) by (simp_all add: idle_def)
  let ?x = "(?v ! p)\<lparr>priv := 0, refcount := 1\<rparr>"
  let ?v1 = "?v[p := ?x]"
  have h: "post_alloc_hook ?v p = Inr ?v1"
    using Bp(1) ip by (simp add: post_alloc_hook_def set_page_private_def wrp_Inr set_page_refcounted_Inr)
  have ch1: "changes {p} ?v ?v1" by (rule changes_update) (simp_all add: zonenum_eq)
  have nh: "\<not> bit (page_flags (?v ! p)) PG_head" using flag_clear [OF Bp(4), of PG_head] by (simp add: PG_head_def)
  have "\<exists>v. (if n \<noteq> 0 then prep_compound_page ?v1 p n else Inr ?v1) = Inr v \<and> changes (blk p n) ?v v \<and>
      (\<forall>q\<in>blk p n. \<not> is_buddy (v ! q) \<and> page_flags (v ! q) AND PAGE_FLAGS_CHECK_AT_FREE = 0) \<and>
      head_word (v ! p) = None \<and> refcount (v ! p) = 1 \<and> (bit (page_flags (v ! p)) PG_head \<longleftrightarrow> 0 < n) \<and>
      (\<forall>q\<in>blk p n - {p}. refcount (v ! q) = 0 \<and> head_word (v ! q) = Some p) \<and>
      (0 < n \<longrightarrow> order_byte (v ! (p + 1)) = Some n)"
  proof (cases "n = 0")
    case True
    then show ?thesis using Bp ip ch1 nh by (auto simp: is_buddy_def)
  next
    case False
    have "\<exists>v'. prep_compound_page ?v1 p n = Inr v' \<and> changes (blk p n) ?v1 v' \<and>
      v' ! p = (?v1 ! p)\<lparr>page_flags := set_bit PG_head (page_flags (?v1 ! p))\<rparr> \<and> order_byte (v' ! (p + 1)) = Some n \<and>
      (\<forall>q\<in>blk p n - {p}. refcount (v' ! q) = 0 \<and> head_word (v' ! q) = Some p \<and> page_flags (v' ! q) = page_flags (?v1 ! q))"
      by (rule prep_compound_page_ok) (use B(1) Bp(1) ip(1) i n False in \<open>auto simp: zonenum_eq\<close>)
    then obtain v where v: "prep_compound_page ?v1 p n = Inr v" "changes (blk p n) ?v1 v"
      "v ! p = ?x\<lparr>page_flags := set_bit PG_head (page_flags ?x)\<rparr>" "order_byte (v ! (p + 1)) = Some n"
      "\<forall>q\<in>blk p n - {p}. refcount (v ! q) = 0 \<and> head_word (v ! q) = Some p \<and> page_flags (v ! q) = page_flags (?v ! q)"
      using Bp(1) by auto
    have "\<not> is_buddy (v ! q) \<and> page_flags (v ! q) AND PAGE_FLAGS_CHECK_AT_FREE = 0" if "q \<in> blk p n" for q
    proof (cases "q = p")
      case True
      then show ?thesis
        using v(3) Bp(3) set_head_flags [OF Bp(4)] by (simp add: is_buddy_def bit_simps PG_defs)
    next
      case False
      then show ?thesis using v(5) B(3,5) [OF that] that by (simp add: is_buddy_def)
    qed
    moreover have "changes (blk p n) ?v v" by (rule changes_trans [OF ch1 v(2)]) auto
    ultimately show ?thesis using False v ip by (simp add: bit_simps PG_head_def)
  qed
  then show ?thesis using h by (auto simp: prep_new_page_def Let_def)
qed

section \<open>Allocation\<close>

lemma ram_simps [simp]:
  "mm_ok (s\<lparr>ram := r\<rparr>) = mm_ok s" "zone_free (s\<lparr>ram := r\<rparr>) = zone_free s" "live_zone (s\<lparr>ram := r\<rparr>) = live_zone s"
  "held (s\<lparr>ram := r\<rparr>) = held s"
proof -
  have pc: "pcp_of (s\<lparr>ram := r\<rparr>) = pcp_of s" by (rule ext) (simp add: pcp_of_def)
  show lz: "live_zone (s\<lparr>ram := r\<rparr>) = live_zone s" by (rule ext) (simp add: live_zone_def)
  show zf: "zone_free (s\<lparr>ram := r\<rparr>) = zone_free s" by (rule ext) (simp add: zone_free_def pc)
  show "mm_ok (s\<lparr>ram := r\<rparr>) = mm_ok s" by (simp add: mm_ok_def lz pc)
  show "held (s\<lparr>ram := r\<rparr>) = held s" unfolding held_def lz zf by simp
qed

text \<open>
  One allocation: either nothing of the size is free and nothing changes, or a block leaves the
  free pages and is handed to the caller.
\<close>

lemma alloc_pages_ok:
  assumes ok: "mm_ok s" and live: "live_zone s (gfp_zone g)" and n: "n < MAX_ORDER"
  defines "i \<equiv> gfp_zone g"
  shows "(if n = 0 then zone_free s i = {} else \<forall>p m. n \<le> m \<longrightarrow> buddy_map (vmemmap s) i p \<noteq> Some m) \<and>
      alloc_pages s g n = Inr (None, s) \<or>
    (\<exists>p s'. alloc_pages s g n = Inr (Some p, s') \<and> mm_step s i s' \<and> blk p n \<subseteq> zone_free s i \<and>
      zone_free s' i = zone_free s i - blk p n \<and> held s' p n \<and>
      changes (zone_free s i) (vmemmap s) (vmemmap s') \<and>
      ram s' = (if g AND GFP_ZERO \<noteq> 0 then clear_pages p (2 ^ n) (ram s) else ram s))"
proof -
  have lv: "live_zone s i" using live by (simp add: i_def)
  from rmqueue_ok [OF ok lv, of n] show ?thesis
  proof (elim disjE conjE exE)
    assume "if n = 0 then zone_free s i = {} else \<forall>p m. n \<le> m \<longrightarrow> buddy_map (vmemmap s) i p \<noteq> Some m"
      and "rmqueue s i n = Inr (None, s)"
    then show ?thesis using n
      by (intro disjI1) (simp add: alloc_pages_def get_page_from_freelist_def alloc_pages_slowpath_def Let_def i_def)
  next
    fix p v z c
    let ?put = "\<lambda>v. put_zone i z (put_pcp (pageset (node_zones s ! i)) c (s\<lparr>vmemmap := v\<rparr>))"
    assume R: "rmqueue s i n = Inr (Some p, ?put v)" "zone_inv (boot_mem s) v i z" "same_zone (node_zones s ! i) z"
      "pcp_ok (boot_mem s) v i c" "changes (zone_free s i) (vmemmap s) v" "blk p n \<subseteq> zone_free s i"
      "cover (buddy_map v i) \<union> set (pcp_lists c) = zone_free s i - blk p n" "fresh (boot_mem s) v i (blk p n)"
      "2 ^ n dvd p"
    let ?r = "if g AND GFP_ZERO \<noteq> 0 then clear_pages p (2 ^ n) (ram s) else ram s"
    have i3: "i < MAX_NR_ZONES" using lv by (simp add: live_zone_def)
    have ps: "vmemmap (?put v) = v" "boot_mem (?put v) = boot_mem s" "ram (?put v) = ram s"
      by (simp_all add: put_zone_def put_pcp_def)
    obtain v' where P: "prep_new_page (?put v) p n g = Inr (?put v\<lparr>ram := ?r, vmemmap := v'\<rparr>)" "changes (blk p n) v v'"
      "\<forall>q\<in>blk p n. \<not> is_buddy (v' ! q) \<and> page_flags (v' ! q) AND PAGE_FLAGS_CHECK_AT_FREE = 0"
      "head_word (v' ! p) = None" "refcount (v' ! p) = 1" "bit (page_flags (v' ! p)) PG_head \<longleftrightarrow> 0 < n"
      "\<forall>q\<in>blk p n - {p}. refcount (v' ! q) = 0 \<and> head_word (v' ! q) = Some p"
      "0 < n \<longrightarrow> order_byte (v' ! (p + 1)) = Some n"
      using prep_new_page_ok [of "?put v" i p n g] R(8) n i3 unfolding ps by blast
    have eq: "?put v\<lparr>ram := ?r, vmemmap := v'\<rparr> = (?put v')\<lparr>ram := ?r\<rparr>" by (simp add: put_zone_def put_pcp_def)
    have dj: "blk p n \<inter> cover (buddy_map v i) = {}" "set (pcp_lists c) \<inter> blk p n = {}" using R(7) by auto
    have nb: "\<not> is_buddy (v ! q) \<and> \<not> is_buddy (v' ! q)" if "q \<in> blk p n" for q
      using P(3) R(8) that by (simp add: fresh_def)
    have Z: "zone_inv (boot_mem s) v' i z" "buddy_map v' i = buddy_map v i"
      using zone_inv_outside [OF R(2) P(2) dj(1) nb] by simp_all
    have pk: "pcp_ok (boot_mem s) v' i c"
      by (rule pcp_ok_changes [OF R(4) P(2) dj(2)]) (use R(4) in \<open>simp add: Z(2) pcp_ok_def\<close>)
    have ch: "changes (zone_free s i) (vmemmap s) v'" by (rule changes_trans [OF R(5) P(2)]) (use R(6) in auto)
    have zn: "zonenum (vmemmap s ! q) = i" if "q \<in> zone_free s i" for q by (rule zone_free_zone(2) [OF ok lv that])
    have F: "cover (buddy_map v' i) \<union> set (pcp_lists c) = zone_free s i - blk p n" using R(7) by (simp add: Z(2))
    note U = mm_step_update [OF ok lv Z(1) same_zoneD(2) [OF R(3)] pk ch zn F]
    have v'l: "vmemmap (?put v') = v'" "boot_mem (?put v') = boot_mem s" by (simp_all add: put_zone_def put_pcp_def)
    have q: "q < length v'" "zonenum (v' ! q) = i" "pfn_valid (boot_mem s) q" if "q \<in> blk p n" for q
      using fresh_zone [OF R(8) that] P(2) R(8) that by (auto simp: changes_def fresh_def pages_idle_def)
    have lv': "live_zone (?put v') i" using U lv by (simp add: mm_step_def)
    have zp: "zonenum (v' ! p) = i" by (rule q(2)) simp
    have pt: "\<forall>q\<in>blk p n - {p}. refcount (v' ! q) = 0 \<and> head_word (v' ! q) = (if bit (page_flags (v' ! p)) PG_head then Some p else None)"
      using P(6,7) by (cases "n = 0") auto
    have "held (?put v') p n"
      unfolding held_def v'l zp using n R(9) lv' U q P(3,4,5,6,8) pt by auto
    moreover have "alloc_pages s g n = Inr (Some p, (?put v')\<lparr>ram := ?r\<rparr>)"
      using n R(1) P(1) unfolding eq
      by (simp add: alloc_pages_def get_page_from_freelist_def Let_def i_def)
    ultimately show ?thesis
      using U R(6) by (intro disjI2 exI [of _ p] exI [of _ "(?put v')\<lparr>ram := ?r\<rparr>"]) (simp add: mm_step_def v'l(1))
  qed
qed

end
