(* ===== verification/Page_Init.thy ===== *)
theory Page_Init
  imports Page_Take Bitops
begin

text \<open>
  Setting up zones and per-CPU lists: \<^verbatim>\<open>free_area_init_core\<close> with what it calls, the pageset
  functions and \<^verbatim>\<open>setup_per_cpu_pageset\<close> of \<^verbatim>\<open>mm/page_alloc.c\<close>.  After them the invariant of the
  allocator holds and no page is free.
\<close>

section \<open>Zone extents\<close>

text \<open>
  The pages a zone spans inside the node; \<open>low\<close> and \<open>high\<close> are the entries of
  \<^verbatim>\<open>arch_zone_lowest_possible_pfn\<close> and \<^verbatim>\<open>arch_zone_highest_possible_pfn\<close>.  The first
  component is the size, the others are what is stored through the pointers (\<open>None\<close>: nothing).
\<close>

definition zone_spanned_pages_in_node ::
  "nat \<Rightarrow> nat \<Rightarrow> nat \<Rightarrow> nat \<Rightarrow> nat \<times> (nat \<times> nat) option" where
  "zone_spanned_pages_in_node low high node_start_pfn node_end_pfn =
     (if node_start_pfn = 0 \<and> node_end_pfn = 0 then (0, None)
      else if high < node_start_pfn \<or> low > node_end_pfn then (0, Some (low, high))
      else let e = min high node_end_pfn; b = max low node_start_pfn in (sub64 e b, Some (b, e)))"

definition calc_memmap_size :: "nat \<Rightarrow> nat \<Rightarrow> nat" where
  "calc_memmap_size spanned present =
     (let pages = (if spanned > add64 present (present div 16) then present else spanned) in
      PAGE_ALIGN ((pages * 64) mod 2 ^ 64) div 2 ^ PAGE_SHIFT)"

section \<open>Per-CPU lists\<close>

definition rounddown_pow_of_two :: "nat \<Rightarrow> nat" where
  "rounddown_pow_of_two n = 2 ^ (fls64 (of_nat n) - 1)"

text \<open>\<^verbatim>\<open>batch\<close> is an \<^verbatim>\<open>int\<close>; its product with \<^verbatim>\<open>PAGE_SIZE\<close> is a \<^verbatim>\<open>u64\<close>.\<close>

definition zone_batchsize :: "zone \<Rightarrow> int" where
  "zone_batchsize z =
     (let b0 = s32 (managed_pages z div 1024);
          b1 = (if nat ((b0 * int PAGE_SIZE) mod 2 ^ 64) > 1024 * 1024 then (1024 * 1024) div int PAGE_SIZE else b0);
          b2 = b1 div 4;
          b3 = (if b2 < 1 then 1 else b2)
      in int (rounddown_pow_of_two (nat (b3 + b3 div 2))) - 1)"

definition pageset_init :: per_cpu_pages where
  "pageset_init = \<lparr>pcp_count = 0, pcp_high = 0, pcp_batch = 0, pcp_lists = []\<rparr>"

definition update_pageset :: "per_cpu_pages \<Rightarrow> nat \<Rightarrow> nat \<Rightarrow> per_cpu_pages" where
  "update_pageset c high batch =
     (let c1 = c\<lparr>pcp_batch := 1\<rparr>; c2 = c1\<lparr>pcp_high := s32 high\<rparr> in c2\<lparr>pcp_batch := s32 batch\<rparr>)"

definition pageset_set_batch :: "per_cpu_pages \<Rightarrow> nat \<Rightarrow> per_cpu_pages" where
  "pageset_set_batch c batch = update_pageset c ((6 * batch) mod 2 ^ 64) (max 1 batch)"

definition pageset_set_high_and_batch :: "zone \<Rightarrow> per_cpu_pages \<Rightarrow> per_cpu_pages" where
  "pageset_set_high_and_batch z c = pageset_set_batch c (nat (zone_batchsize z mod 2 ^ 64))"

definition zone_pageset_init :: "zone \<Rightarrow> per_cpu_pages" where
  "zone_pageset_init z = pageset_set_high_and_batch z pageset_init"

definition setup_pageset :: "nat \<Rightarrow> per_cpu_pages" where
  "setup_pageset batch = pageset_set_batch pageset_init batch"

text \<open>\<^verbatim>\<open>alloc_percpu\<close> gives a new object, here the next number.\<close>

definition setup_zone_pageset :: "mm \<Rightarrow> nat \<Rightarrow> mm" where
  "setup_zone_pageset s i =
     s\<lparr>node_zones := (node_zones s)[i := (node_zones s ! i)\<lparr>pageset := length (pagesets s)\<rparr>],
       pagesets := pagesets s @ [zone_pageset_init (node_zones s ! i)]\<rparr>"

fun populated_zones_loop :: "mm \<Rightarrow> nat list \<Rightarrow> mm" where
  "populated_zones_loop s [] = s"
| "populated_zones_loop s (i # is) =
     populated_zones_loop (if populated_zone (node_zones s ! i) then setup_zone_pageset s i else s) is"

definition setup_per_cpu_pageset :: "mm \<Rightarrow> mm" where
  "setup_per_cpu_pageset s = populated_zones_loop s [0..<MAX_NR_ZONES]"

definition build_all_zone :: "mm \<Rightarrow> mm" where
  "build_all_zone s = s\<lparr>pagesets := (pagesets s)[0 := setup_pageset 0]\<rparr>"

section \<open>Zones\<close>

definition zone_init_internals :: "zone \<Rightarrow> nat \<Rightarrow> zone" where
  "zone_init_internals z remaining_pages = z\<lparr>managed_pages := remaining_pages, pageset := 0\<rparr>"

definition zone_init_free_lists :: "zone \<Rightarrow> zone" where
  "zone_init_free_lists z = z\<lparr>free_area := replicate MAX_ORDER \<lparr>free_list = [], nr_free = 0\<rparr>\<rparr>"

definition init_currently_empty_zone :: "mm \<Rightarrow> nat \<Rightarrow> nat \<Rightarrow> nat \<Rightarrow> mm" where
  "init_currently_empty_zone s i start_pfn sz =
     (let n = (if i + 1 > nr_zones s then i + 1 else nr_zones s);
          z = zone_init_free_lists ((node_zones s ! i)\<lparr>zone_start_pfn := start_pfn\<rparr>)
      in put_zone i (z\<lparr>initialized := True\<rparr>) (s\<lparr>nr_zones := n\<rparr>))"

definition zero_page :: page where
  "zero_page = \<lparr>page_flags = 0, head_word = None, order_byte = Some 0, priv = 0, refcount = 0\<rparr>"

definition init_single_page :: "memmap \<Rightarrow> nat \<Rightarrow> nat \<Rightarrow> memmap res" where
  "init_single_page v pfn zone =
     rbind (wrp v pfn (\<lambda>_. zero_page)) (\<lambda>v1. rbind (set_page_links v1 pfn zone pfn) (\<lambda>v2.
       rbind (init_page_count v2 pfn) (\<lambda>v3. wrp v3 pfn (\<lambda>x. x\<lparr>head_word := None, order_byte := None\<rparr>))))"

function memmap_init_loop :: "memmap \<Rightarrow> nat \<Rightarrow> nat \<Rightarrow> nat \<Rightarrow> memmap res" where
  "memmap_init_loop v zone pfn end_pfn =
     (if pfn < end_pfn then rbind (init_single_page v pfn zone) (\<lambda>v1. memmap_init_loop v1 zone (pfn + 1) end_pfn)
      else Inr v)"
  by pat_completeness auto
termination by (relation "measure (\<lambda>(v, z, p, e). e - p)") auto

declare memmap_init_loop.simps [simp del]

definition memmap_init_zone :: "mm \<Rightarrow> nat \<Rightarrow> nat \<Rightarrow> nat \<Rightarrow> mm res" where
  "memmap_init_zone s sz zone start_pfn =
     (let end_pfn = add64 start_pfn sz;
          h = (if highest_memmap_pfn s < sub64 end_pfn 1 then sub64 end_pfn 1 else highest_memmap_pfn s)
      in rbind (memmap_init_loop (vmemmap s) zone start_pfn end_pfn) (\<lambda>v.
           Inr (s\<lparr>highest_memmap_pfn := h, vmemmap := v\<rparr>)))"

text \<open>The pages of zone \<open>j\<close> that are left after its descriptors and the DMA reserve.\<close>

definition zone_freesize :: "nat \<Rightarrow> nat \<Rightarrow> zone \<Rightarrow> nat" where
  "zone_freesize dma_reserve j z =
     (let memmap_pages = calc_memmap_size (spanned_pages z) (present_pages z);
          f1 = (if present_pages z \<ge> memmap_pages then present_pages z - memmap_pages else present_pages z)
      in if j = 0 \<and> f1 > dma_reserve then f1 - dma_reserve else f1)"

definition init_zone_step :: "nat \<Rightarrow> mm \<Rightarrow> nat \<Rightarrow> mm res" where
  "init_zone_step dma_reserve s j =
     (let z = node_zones s ! j;
          start = zone_start_pfn z;
          sz = spanned_pages z;
          freesize = zone_freesize dma_reserve j z;
          s1 = put_zone j (zone_init_internals z freesize)
                 (s\<lparr>nr_kernel_pages := add64 (nr_kernel_pages s) freesize, nr_all_pages := add64 (nr_all_pages s) freesize\<rparr>)
      in if sz = 0 then Inr s1
         else memmap_init_zone (init_currently_empty_zone s1 j start sz) sz j start)"

fun init_zones_loop :: "nat \<Rightarrow> mm \<Rightarrow> nat list \<Rightarrow> mm res" where
  "init_zones_loop dma_reserve s [] = Inr s"
| "init_zones_loop dma_reserve s (j # js) =
     rbind (init_zone_step dma_reserve s j) (\<lambda>s1. init_zones_loop dma_reserve s1 js)"

definition free_area_init_core :: "nat \<Rightarrow> mm \<Rightarrow> mm res" where
  "free_area_init_core dma_reserve s = init_zones_loop dma_reserve s [0..<MAX_NR_ZONES]"

section \<open>The size of the per-CPU lists\<close>

lemma rounddown_pow_of_two_le:
  assumes "0 < n" and "n < 2 ^ 64" shows "0 < rounddown_pow_of_two n" "rounddown_pow_of_two n \<le> n"
proof -
  let ?w = "of_nat n :: 64 word"
  have "unat ?w = n" using assms(2) by (simp add: unsigned_of_nat take_bit_eq_mod)
  then have w: "?w \<noteq> 0" using assms(1) by auto
  have "bit n (fls0 ?w)" using fls0_ok(2) [OF w] by (simp add: bit_simps)
  then have "2 ^ fls0 ?w \<le> n" using bit_nat_less [of n "fls0 ?w" "fls0 ?w"] by force
  then show "0 < rounddown_pow_of_two n" "rounddown_pow_of_two n \<le> n"
    using w by (simp_all add: rounddown_pow_of_two_def fls64_def)
qed

lemma zone_batchsize_bounds: "0 \<le> zone_batchsize z \<and> zone_batchsize z \<le> 95"
proof -
  define b0 where "b0 = s32 (managed_pages z div 1024)"
  define b1 where "b1 = (if nat ((b0 * int PAGE_SIZE) mod 2 ^ 64) > 1024 * 1024 then (1024 * 1024) div int PAGE_SIZE else b0)"
  define b3 where "b3 = (if b1 div 4 < 1 then 1 else b1 div 4)"
  have P: "int PAGE_SIZE = 4096" by (simp add: PAGE_SIZE_def PAGE_SHIFT_def)
  have b0: "- (2 ^ 31) \<le> b0" "b0 < 2 ^ 31" by (auto simp: b0_def s32_def)
  have "0 \<le> b1 \<and> b1 \<le> 256"
  proof (cases "0 \<le> b0")
    case True
    then have "(b0 * 4096) mod 2 ^ 64 = b0 * 4096" using b0 by (intro mod_pos_pos_trivial) simp_all
    then show ?thesis using True by (auto simp: b1_def P nat_le_iff not_less)
  next
    case False
    then have "(b0 * 4096) mod 2 ^ 64 = b0 * 4096 + 2 ^ 64" using b0
      by (subst mod_add_self2 [symmetric], intro mod_pos_pos_trivial) simp_all
    then show ?thesis using False b0 by (simp add: b1_def P)
  qed
  then have b3: "1 \<le> b3" "b3 \<le> 64" by (auto simp: b3_def)
  define n where "n = nat (b3 + b3 div 2)"
  have n: "0 < n" "n \<le> 96" using b3 by (auto simp: n_def)
  have "zone_batchsize z = int (rounddown_pow_of_two n) - 1"
    by (simp only: zone_batchsize_def Let_def n_def b3_def b1_def b0_def)
  then show ?thesis using rounddown_pow_of_two_le [of n] n by simp
qed

lemma zone_pageset_init_ok: "pcp_ok mb v i (zone_pageset_init z)"
proof -
  define b where "b = nat (zone_batchsize z mod 2 ^ 64)"
  have "b \<le> 95" using zone_batchsize_bounds [of z] by (auto simp: b_def nat_le_iff)
  then have "s32 (6 * b) = 6 * int b" "s32 (max 1 b) = max 1 (int b)" "(6 * b) mod 2 ^ 64 = 6 * b"
    by (auto simp: s32_def)
  then show ?thesis using \<open>b \<le> 95\<close>
    unfolding zone_pageset_init_def pageset_set_high_and_batch_def pageset_set_batch_def b_def [symmetric]
    by (simp add: pcp_ok_def update_pageset_def pageset_init_def fresh_def pages_idle_def)
qed

section \<open>The descriptors\<close>

definition new_page :: "nat \<Rightarrow> page" where
  "new_page zone = \<lparr>page_flags = push_bit 62 (of_nat zone AND mask 2), head_word = None, order_byte = None, priv = 0, refcount = 1\<rparr>"

lemma init_single_page_Inr: "p < length v \<Longrightarrow> init_single_page v p zone = Inr (v[p := new_page zone])"
  by (simp add: init_single_page_def wrp_Inr set_page_links_def set_page_zone_def init_page_count_def
      set_page_count_def zero_page_def new_page_def ZONES_PGSHIFT_def ZONES_SHIFT_def ZONES_MASK_def mask_eq_exp_minus_1)

lemma new_page_simps: "zone < MAX_NR_ZONES \<Longrightarrow> zonenum (new_page zone) = zone" "\<not> is_buddy (new_page zone)"
proof -
  assume "zone < MAX_NR_ZONES"
  then have "zone = 0 \<or> zone = 1 \<or> zone = 2" by (auto simp: MAX_NR_ZONES_def)
  then show "zonenum (new_page zone) = zone" by (auto simp: zonenum_eq new_page_def mask_eq_exp_minus_1)
qed (simp add: is_buddy_def new_page_def PG_buddy_def bit_simps)

lemma memmap_init_loop_ok:
  "e \<le> length v \<Longrightarrow> \<exists>v'. memmap_init_loop v zone p e = Inr v' \<and> length v' = length v \<and>
     (\<forall>q<length v. v' ! q = (if p \<le> q \<and> q < e then new_page zone else v ! q))"
proof (induction "e - p" arbitrary: v p)
  case 0
  then show ?case by (subst memmap_init_loop.simps) auto
next
  case (Suc k)
  let ?v = "v[p := new_page zone]"
  have "k = e - (p + 1)" "e \<le> length ?v" using Suc(2,3) by simp_all
  from Suc(1) [OF this] obtain v' where
    "memmap_init_loop ?v zone (p + 1) e = Inr v'" "length v' = length v"
    "\<forall>q<length v. v' ! q = (if p + 1 \<le> q \<and> q < e then new_page zone else ?v ! q)" by auto
  then show ?case using Suc(2,3) by (subst memmap_init_loop.simps) (auto simp: init_single_page_Inr nth_list_update)
qed

section \<open>The zones\<close>

text \<open>What holds after the zones in \<open>J\<close> were set up, starting from \<open>s0\<close>.\<close>

definition booted_zone :: "zone \<Rightarrow> bool \<Rightarrow> zone \<Rightarrow> bool" where
  "booted_zone z0 over z \<longleftrightarrow> spanned_pages z = spanned_pages z0 \<and> present_pages z = present_pages z0 \<and>
     zone_start_pfn z = zone_start_pfn z0 \<and>
     (if over \<and> spanned_pages z0 \<noteq> 0
      then initialized z \<and> free_area z = replicate MAX_ORDER \<lparr>free_list = [], nr_free = 0\<rparr>
      else initialized z = initialized z0)"

definition span :: "zone \<Rightarrow> nat set" where
  "span z = {zone_start_pfn z..<zone_start_pfn z + spanned_pages z}"

text \<open>The descriptor of page \<open>q\<close> is new, and belongs to a zone of \<open>J\<close> that spans the page.\<close>

definition new_in :: "mm \<Rightarrow> nat set \<Rightarrow> memmap \<Rightarrow> nat \<Rightarrow> bool" where
  "new_in s0 J v q \<longleftrightarrow> (\<exists>k\<in>J. k < MAX_NR_ZONES \<and> q \<in> span (node_zones s0 ! k) \<and> v ! q = new_page k)"

lemma new_in_zonenum: "new_in s0 J v q \<Longrightarrow> zonenum (v ! q) < MAX_NR_ZONES"
  by (auto simp: new_in_def new_page_simps)

definition booted_pages :: "mm \<Rightarrow> nat set \<Rightarrow> memmap \<Rightarrow> bool" where
  "booted_pages s0 J v \<longleftrightarrow> length v = length (vmemmap s0) \<and> (\<forall>q<length v. \<not> is_buddy (v ! q)) \<and>
     (\<forall>j\<in>J. \<forall>q\<in>span (node_zones s0 ! j). new_in s0 J v q)"

definition booting :: "mm \<Rightarrow> nat set \<Rightarrow> mm \<Rightarrow> bool" where
  "booting s0 J s \<longleftrightarrow> length (node_zones s) = MAX_NR_ZONES \<and> boot_mem s = boot_mem s0 \<and>
     pagesets s = pagesets s0 \<and> booted_pages s0 J (vmemmap s) \<and>
     (\<forall>j<MAX_NR_ZONES. booted_zone (node_zones s0 ! j) (j \<in> J) (node_zones s ! j))"

lemma booted_pages_step:
  assumes "booted_pages s0 J v" and "j < MAX_NR_ZONES" and "length v' = length v"
    and "\<And>q. q < length v \<Longrightarrow> v' ! q = (if q \<in> span (node_zones s0 ! j) then new_page j else v ! q)"
    and "\<And>k. k \<in> insert j J \<Longrightarrow> span (node_zones s0 ! k) \<subseteq> {..<length v}"
  shows "booted_pages s0 (insert j J) v'"
  unfolding booted_pages_def
proof (intro conjI ballI allI impI)
  show "length v' = length (vmemmap s0)" using assms(1,3) by (simp add: booted_pages_def)
  show "\<not> is_buddy (v' ! q)" if "q < length v'" for q
    using assms(1,3,4) that new_page_simps(2) by (simp add: booted_pages_def)
  fix k q assume k: "k \<in> insert j J" and q: "q \<in> span (node_zones s0 ! k)"
  have ql: "q < length v" using assms(5) [OF k] q by auto
  show "new_in s0 (insert j J) v' q"
  proof (cases "q \<in> span (node_zones s0 ! j)")
    case False
    with k q have "k \<in> J" by auto
    with assms(1) q have "new_in s0 J v q" by (simp add: booted_pages_def)
    then show ?thesis using assms(4) [OF ql] False by (auto simp: new_in_def)
  qed (use assms(2,4) ql in \<open>simp add: new_in_def\<close>)
qed

lemma init_zone_step_ok:
  assumes B: "booting s0 J s" and j: "j < MAX_NR_ZONES"
    and fit: "\<And>k. k \<in> insert j J \<Longrightarrow> span (node_zones s0 ! k) \<subseteq> {..<length (vmemmap s0)}"
    and len: "length (vmemmap s0) \<le> 2 ^ 52"
  shows "\<exists>s'. init_zone_step d s j = Inr s' \<and> booting s0 (insert j J) s'"
proof -
  let ?z = "node_zones s ! j" and ?old = "node_zones s0 ! j" and ?fresh = "replicate MAX_ORDER \<lparr>free_list = [], nr_free = 0\<rparr>"
  have zs: "length (node_zones s) = MAX_NR_ZONES" and bm: "boot_mem s = boot_mem s0" "pagesets s = pagesets s0"
    and bp: "booted_pages s0 J (vmemmap s)" and bz: "\<And>k. k < MAX_NR_ZONES \<Longrightarrow> booted_zone (node_zones s0 ! k) (k \<in> J) (node_zones s ! k)"
    using B by (simp_all add: booting_def)
  have vl: "length (vmemmap s) = length (vmemmap s0)" using bp by (simp add: booted_pages_def)
  have same: "spanned_pages ?z = spanned_pages ?old" "zone_start_pfn ?z = zone_start_pfn ?old" "present_pages ?z = present_pages ?old"
    using bz [OF j] by (simp_all add: booted_zone_def)
  have fin: "booting s0 (insert j J) t"
    if "node_zones t = (node_zones s)[j := z']" "boot_mem t = boot_mem s" "pagesets t = pagesets s"
      "booted_pages s0 (insert j J) (vmemmap t)" "booted_zone ?old True z'" for z' t
  proof -
    have A: "booted_zone (node_zones s0 ! k) (k \<in> insert j J) ((node_zones s)[j := z'] ! k)" if "k < MAX_NR_ZONES" for k
      using \<open>booted_zone ?old True z'\<close> bz [OF that] zs j by (cases "k = j") simp_all
    show ?thesis unfolding booting_def that(1-3) bm length_list_update
      by (intro conjI allI impI refl zs that(4) A)
  qed
  let ?m = "zone_freesize d j ?z"
  let ?s = "s\<lparr>nr_kernel_pages := add64 (nr_kernel_pages s) ?m, nr_all_pages := add64 (nr_all_pages s) ?m\<rparr>"
  show ?thesis
  proof (cases "spanned_pages ?old = 0")
    case True
    then have sp: "span ?old = {}" by (simp add: span_def)
    have m: "init_zone_step d s j = Inr (put_zone j (zone_init_internals ?z ?m) ?s)"
      using True by (simp add: init_zone_step_def Let_def same(1))
    have "booted_pages s0 (insert j J) (vmemmap s)" using bp sp by (auto simp: booted_pages_def new_in_def)
    moreover have "booted_zone ?old True (zone_init_internals ?z ?m)"
      using bz [OF j] True by (simp add: booted_zone_def zone_init_internals_def)
    ultimately show ?thesis using m fin by (simp add: put_zone_def)
  next
    case False
    have sp: "span ?old = {zone_start_pfn ?old..<zone_start_pfn ?old + spanned_pages ?old}" by (simp add: span_def)
    let ?e = "zone_start_pfn ?old + spanned_pages ?old"
    have "?e - 1 \<in> span ?old" using False by (simp add: span_def)
    then have e: "?e \<le> length (vmemmap s)" using fit [of j] vl by auto
    then have a: "add64 (zone_start_pfn ?old) (spanned_pages ?old) = ?e"
      using len vl by (simp add: add64_exact U64_MAX_def)
    obtain v where v: "memmap_init_loop (vmemmap s) j (zone_start_pfn ?old) ?e = Inr v" "length v = length (vmemmap s)"
      "\<And>q. q < length (vmemmap s) \<Longrightarrow> v ! q = (if q \<in> span ?old then new_page j else vmemmap s ! q)"
      using memmap_init_loop_ok [OF e, of j "zone_start_pfn ?old"] unfolding sp by auto
    define z' where "z' m = ?z\<lparr>managed_pages := m, pageset := 0, zone_start_pfn := zone_start_pfn ?old,
        free_area := ?fresh, initialized := True\<rparr>" for m :: nat
    let ?n = "if j + 1 > nr_zones s then j + 1 else nr_zones s"
    have "init_currently_empty_zone (put_zone j (zone_init_internals ?z ?m) ?s) j (zone_start_pfn ?old) (spanned_pages ?old) =
        put_zone j (z' ?m) (?s\<lparr>nr_zones := ?n\<rparr>)"
      using zs j by (simp add: init_currently_empty_zone_def put_zone_def zone_init_free_lists_def Let_def
          zone_init_internals_def z'_def)
    moreover have "init_zone_step d s j = memmap_init_zone (init_currently_empty_zone
        (put_zone j (zone_init_internals ?z ?m) ?s) j (zone_start_pfn ?old) (spanned_pages ?old)) (spanned_pages ?old) j (zone_start_pfn ?old)"
      using False by (simp add: init_zone_step_def Let_def same(1,2))
    ultimately obtain h where r: "init_zone_step d s j =
        Inr ((put_zone j (z' ?m) (?s\<lparr>nr_zones := ?n\<rparr>))\<lparr>highest_memmap_pfn := h, vmemmap := v\<rparr>)"
      using v(1) a by (auto simp: memmap_init_zone_def Let_def put_zone_def)
    have "booted_pages s0 (insert j J) v"
      by (rule booted_pages_step [OF bp j v(2,3)]) (use fit vl in auto)
    moreover have "booted_zone ?old True (z' ?m)" using False by (simp add: booted_zone_def z'_def same)
    ultimately show ?thesis
      using r fin [of _ "z' ?m"] by (simp add: put_zone_def)
  qed
qed

lemma init_zones_loop_ok:
  "booting s0 J s \<Longrightarrow> set js \<union> J \<subseteq> {..<MAX_NR_ZONES} \<Longrightarrow>
   (\<And>k. k < MAX_NR_ZONES \<Longrightarrow> span (node_zones s0 ! k) \<subseteq> {..<length (vmemmap s0)}) \<Longrightarrow>
   length (vmemmap s0) \<le> 2 ^ 52 \<Longrightarrow> \<exists>s'. init_zones_loop d s js = Inr s' \<and> booting s0 (set js \<union> J) s'"
proof (induction js arbitrary: s J)
  case (Cons j js)
  have j: "j < MAX_NR_ZONES" and ins: "\<And>k. k \<in> insert j J \<Longrightarrow> k < MAX_NR_ZONES" using Cons.prems(2) by auto
  obtain s1 where s1: "init_zone_step d s j = Inr s1" "booting s0 (insert j J) s1"
    using init_zone_step_ok [OF Cons.prems(1) j _ Cons.prems(4), of d] Cons.prems(3) ins by blast
  from Cons.IH [OF s1(2) _ Cons.prems(3,4)] Cons.prems(2) s1(1) show ?case by auto
qed auto

section \<open>The per-CPU lists of the zones\<close>

definition psets_ok :: "mm \<Rightarrow> nat set \<Rightarrow> mm \<Rightarrow> bool" where
  "psets_ok s J t \<longleftrightarrow> length (node_zones t) = length (node_zones s) \<and> boot_mem t = boot_mem s \<and> vmemmap t = vmemmap s \<and>
     length (pagesets s) \<le> length (pagesets t) \<and>
     (\<forall>j<length (node_zones s). (node_zones t ! j)\<lparr>pageset := 0\<rparr> = (node_zones s ! j)\<lparr>pageset := 0\<rparr>) \<and>
     (\<forall>j\<in>J. populated_zone (node_zones s ! j) \<longrightarrow> pageset (node_zones t ! j) < length (pagesets t) \<and>
        (\<exists>z. pagesets t ! pageset (node_zones t ! j) = zone_pageset_init z)) \<and>
     (\<forall>j\<in>J. \<forall>k\<in>J. populated_zone (node_zones s ! j) \<and> populated_zone (node_zones s ! k) \<and> j \<noteq> k \<longrightarrow>
        pageset (node_zones t ! j) \<noteq> pageset (node_zones t ! k))"

lemma populated_pageset: "z\<lparr>pageset := 0\<rparr> = z'\<lparr>pageset := 0\<rparr> \<Longrightarrow> populated_zone z = populated_zone z'"
  by (cases z; cases z'; simp add: populated_zone_def)

lemma setup_zone_pageset_ok:
  assumes P: "psets_ok s J t" and j: "j < length (node_zones s)" "j \<notin> J" and J: "J \<subseteq> {..<length (node_zones s)}"
  shows "psets_ok s (insert j J) (if populated_zone (node_zones t ! j) then setup_zone_pageset t j else t)"
proof (cases "populated_zone (node_zones s ! j)")
  case False
  then show ?thesis using P j populated_pageset [of "node_zones t ! j" "node_zones s ! j"]
    by (simp add: psets_ok_def)
next
  case True
  let ?t = "setup_zone_pageset t j"
  have pj: "populated_zone (node_zones t ! j)"
    using P True j populated_pageset [of "node_zones t ! j" "node_zones s ! j"] by (simp add: psets_ok_def)
  have l: "j < length (node_zones t)" using P j by (simp add: psets_ok_def)
  have zt: "node_zones ?t ! k = (if k = j then (node_zones t ! j)\<lparr>pageset := length (pagesets t)\<rparr> else node_zones t ! k)" for k
    using l by (simp add: setup_zone_pageset_def)
  have pt: "pagesets ?t = pagesets t @ [zone_pageset_init (node_zones t ! j)]" by (simp add: setup_zone_pageset_def)
  have old: "pageset (node_zones t ! k) < length (pagesets t)" "\<exists>z. pagesets t ! pageset (node_zones t ! k) = zone_pageset_init z"
    if "k \<in> J" "populated_zone (node_zones s ! k)" for k
    using P that by (auto simp: psets_ok_def)
  have "psets_ok s (insert j J) ?t"
    unfolding psets_ok_def
  proof (intro conjI allI ballI impI; (elim conjE)?)
    show "length (node_zones ?t) = length (node_zones s)" "boot_mem ?t = boot_mem s" "vmemmap ?t = vmemmap s"
      "length (pagesets s) \<le> length (pagesets ?t)"
      using P by (simp_all add: psets_ok_def setup_zone_pageset_def)
    show "(node_zones ?t ! k)\<lparr>pageset := 0\<rparr> = (node_zones s ! k)\<lparr>pageset := 0\<rparr>" if "k < length (node_zones s)" for k
      using P that by (simp add: psets_ok_def zt)
  next
    fix k assume "k \<in> insert j J" "populated_zone (node_zones s ! k)"
    then show "pageset (node_zones ?t ! k) < length (pagesets ?t)" "\<exists>z. pagesets ?t ! pageset (node_zones ?t ! k) = zone_pageset_init z"
      using old [of k] j(2) by (auto simp: zt pt nth_append)
  next
    fix a b assume "a \<in> insert j J" "b \<in> insert j J" "populated_zone (node_zones s ! a)" "populated_zone (node_zones s ! b)" "a \<noteq> b"
    then show "pageset (node_zones ?t ! a) \<noteq> pageset (node_zones ?t ! b)"
      using old(1) [of a] old(1) [of b] P by (auto simp: zt psets_ok_def)
  qed
  then show ?thesis using pj by simp
qed

lemma populated_zones_loop_ok:
  "psets_ok s J t \<Longrightarrow> distinct is \<Longrightarrow> set is \<inter> J = {} \<Longrightarrow> set is \<union> J \<subseteq> {..<length (node_zones s)} \<Longrightarrow>
   psets_ok s (set is \<union> J) (populated_zones_loop t is)"
proof (induction "is" arbitrary: t J)
  case (Cons i js)
  have "psets_ok s (insert i J) (if populated_zone (node_zones t ! i) then setup_zone_pageset t i else t)"
    by (rule setup_zone_pageset_ok [OF Cons.prems(1)]) (use Cons.prems in auto)
  from Cons.IH [OF this] Cons.prems show ?case by auto
qed simp

section \<open>Boot\<close>

text \<open>The state the zone sizes leave: nothing is initialised, and every page frame that is memory
  lies in a zone whose descriptors exist.\<close>

definition boot_start :: "mm \<Rightarrow> bool" where
  "boot_start s \<longleftrightarrow> length (node_zones s) = MAX_NR_ZONES \<and> length (vmemmap s) \<le> 2 ^ 52 \<and>
     (\<forall>q<length (vmemmap s). \<not> is_buddy (vmemmap s ! q)) \<and>
     (\<forall>j<MAX_NR_ZONES. \<not> initialized (node_zones s ! j) \<and> span (node_zones s ! j) \<subseteq> {..<length (vmemmap s)} \<and>
        (spanned_pages (node_zones s ! j) \<noteq> 0 \<longrightarrow> populated_zone (node_zones s ! j))) \<and>
     (\<forall>q. pfn_valid (boot_mem s) q \<longrightarrow> (\<exists>j<MAX_NR_ZONES. q \<in> span (node_zones s ! j)))"

text \<open>The state after boot: the zones that span pages are live, nothing is free yet, and the
  descriptor of every page of a zone is new.\<close>

definition boot_done :: "mm \<Rightarrow> mm \<Rightarrow> bool" where
  "boot_done s0 t \<longleftrightarrow> mm_ok t \<and> boot_mem t = boot_mem s0 \<and> length (vmemmap t) = length (vmemmap s0) \<and>
     (\<forall>i<MAX_NR_ZONES. live_zone t i \<longleftrightarrow> spanned_pages (node_zones s0 ! i) \<noteq> 0) \<and>
     (\<forall>i. live_zone t i \<longrightarrow> zone_free t i = {}) \<and>
     (\<forall>j<MAX_NR_ZONES. \<forall>q\<in>span (node_zones s0 ! j). new_in s0 {..<MAX_NR_ZONES} (vmemmap t) q)"

lemma boot_doneD:
  assumes "boot_done s0 t"
  shows "mm_ok t" and "boot_mem t = boot_mem s0" and "length (vmemmap t) = length (vmemmap s0)"
    and "\<forall>i<MAX_NR_ZONES. live_zone t i \<longleftrightarrow> spanned_pages (node_zones s0 ! i) \<noteq> 0"
    and "\<forall>i. live_zone t i \<longrightarrow> zone_free t i = {}"
    and "\<forall>j<MAX_NR_ZONES. \<forall>q\<in>span (node_zones s0 ! j).
       refcount (vmemmap t ! q) = 1 \<and> \<not> is_buddy (vmemmap t ! q) \<and>
       zonenum (vmemmap t ! q) < MAX_NR_ZONES \<and> q \<in> span (node_zones s0 ! zonenum (vmemmap t ! q))"
proof -
  show "\<forall>j<MAX_NR_ZONES. \<forall>q\<in>span (node_zones s0 ! j).
       refcount (vmemmap t ! q) = 1 \<and> \<not> is_buddy (vmemmap t ! q) \<and>
       zonenum (vmemmap t ! q) < MAX_NR_ZONES \<and> q \<in> span (node_zones s0 ! zonenum (vmemmap t ! q))"
  proof (intro allI impI ballI)
    fix j q assume j: "j < MAX_NR_ZONES" "q \<in> span (node_zones s0 ! j)"
    then have "new_in s0 {..<MAX_NR_ZONES} (vmemmap t) q" using assms by (simp add: boot_done_def)
    then obtain k where k: "k < MAX_NR_ZONES" "q \<in> span (node_zones s0 ! k)" "vmemmap t ! q = new_page k"
      by (auto simp: new_in_def)
    have "refcount (new_page k) = 1" by (simp add: new_page_def)
    with k show "refcount (vmemmap t ! q) = 1 \<and> \<not> is_buddy (vmemmap t ! q) \<and>
       zonenum (vmemmap t ! q) < MAX_NR_ZONES \<and> q \<in> span (node_zones s0 ! zonenum (vmemmap t ! q))"
      by (simp add: new_page_simps)
  qed
qed (use assms in \<open>simp_all add: boot_done_def\<close>)

lemma boot_mm_ok:
  assumes S: "boot_start s0"
  shows "\<exists>s. free_area_init_core d s0 = Inr s \<and> boot_done s0 (setup_per_cpu_pageset s)"
proof -
  have B0: "booting s0 {} s0" using S by (simp add: boot_start_def booting_def booted_pages_def booted_zone_def)
  have sp: "span (node_zones s0 ! k) \<subseteq> {..<length (vmemmap s0)}" if "k < MAX_NR_ZONES" for k
    using S that by (simp add: boot_start_def)
  have len: "length (vmemmap s0) \<le> 2 ^ 52" using S by (simp add: boot_start_def)
  have sub: "set [0..<MAX_NR_ZONES] \<union> {} \<subseteq> {..<MAX_NR_ZONES}" by auto
  obtain s where s: "free_area_init_core d s0 = Inr s" "booting s0 {..<MAX_NR_ZONES} s"
    using init_zones_loop_ok [OF B0 sub sp len, of d] by (auto simp: free_area_init_core_def atLeast0LessThan)
  let ?t = "setup_per_cpu_pageset s"
  have zs: "length (node_zones s) = MAX_NR_ZONES" and bp: "booted_pages s0 {..<MAX_NR_ZONES} (vmemmap s)"
    and bm: "boot_mem s = boot_mem s0"
    and bz: "\<And>k. k < MAX_NR_ZONES \<Longrightarrow> booted_zone (node_zones s0 ! k) True (node_zones s ! k)"
    using s(2) by (simp_all add: booting_def)
  have "psets_ok s {} s" by (simp add: psets_ok_def)
  then have T: "psets_ok s {..<MAX_NR_ZONES} ?t"
    using populated_zones_loop_ok [of s "{}" s "[0..<MAX_NR_ZONES]"] zs
    by (simp add: setup_per_cpu_pageset_def atLeast0LessThan)
  have eqs: "length (node_zones ?t) = MAX_NR_ZONES" "boot_mem ?t = boot_mem s0" "vmemmap ?t = vmemmap s"
    using T zs bm by (simp_all add: psets_ok_def)
  have zt: "(node_zones ?t ! j)\<lparr>pageset := 0\<rparr> = (node_zones s ! j)\<lparr>pageset := 0\<rparr>" if "j < MAX_NR_ZONES" for j
    using T that zs by (simp add: psets_ok_def)
  have flds: "initialized (node_zones ?t ! j) = initialized (node_zones s ! j)" "free_area (node_zones ?t ! j) = free_area (node_zones s ! j)"
    if "j < MAX_NR_ZONES" for j
    using zt [OF that] by (cases "node_zones ?t ! j"; cases "node_zones s ! j"; simp)+
  have ini: "live_zone ?t j \<longleftrightarrow> spanned_pages (node_zones s0 ! j) \<noteq> 0" if "j < MAX_NR_ZONES" for j
  proof -
    have "\<not> initialized (node_zones s0 ! j)" using S that by (simp add: boot_start_def)
    then show ?thesis
      using bz [OF that] flds(1) [OF that] that by (simp add: live_zone_def booted_zone_def split: if_splits)
  qed
  have fa: "free_area (node_zones ?t ! j) = replicate MAX_ORDER \<lparr>free_list = [], nr_free = 0\<rparr>"
    and pop: "populated_zone (node_zones s ! j)" if "live_zone ?t j" for j
  proof -
    have j: "j < MAX_NR_ZONES" using that by (simp add: live_zone_def)
    show "free_area (node_zones ?t ! j) = replicate MAX_ORDER \<lparr>free_list = [], nr_free = 0\<rparr>"
      using bz [OF j] flds(2) [OF j] ini [OF j] that by (simp add: booted_zone_def)
    show "populated_zone (node_zones s ! j)"
      using bz [OF j] S j ini [OF j] that by (simp add: booted_zone_def boot_start_def populated_zone_def)
  qed
  have nob: "buddy_map (vmemmap s) j = Map.empty" for j
    using bp by (intro ext) (simp add: buddy_map_def booted_pages_def)
  have vo: "vmem_ok (boot_mem s0) (vmemmap s)"
    unfolding vmem_ok_def
  proof (intro conjI allI impI)
    show "length (vmemmap s) \<le> 2 ^ 52" using bp len by (simp add: booted_pages_def)
    fix q assume "pfn_valid (boot_mem s0) q"
    then obtain j where j: "j < MAX_NR_ZONES" "q \<in> span (node_zones s0 ! j)" using S by (auto simp: boot_start_def)
    then show ql: "q < length (vmemmap s)" using sp [OF j(1)] bp by (auto simp: booted_pages_def)
    show "zonenum (vmemmap s ! q) < MAX_NR_ZONES" using bp j by (intro new_in_zonenum [of s0 "{..<MAX_NR_ZONES}"]) (simp add: booted_pages_def)
    show "idle (zonenum (vmemmap s ! q)) (vmemmap s ! q)" if "is_buddy (vmemmap s ! q)"
      using bp ql that by (simp add: booted_pages_def)
  qed
  have pcps: "pageset (node_zones ?t ! j) < length (pagesets ?t) \<and> (\<exists>z. pcp_of ?t j = zone_pageset_init z)"
    if "live_zone ?t j" for j
  proof -
    have "j \<in> {..<MAX_NR_ZONES}" using that by (simp add: live_zone_def)
    with T pop [OF that] show ?thesis by (simp add: psets_ok_def pcp_of_def)
  qed
  have empty: "zone_free ?t j = {}" if "live_zone ?t j" for j
    using pcps [OF that]
    by (auto simp: zone_free_def eqs nob zone_pageset_init_def pageset_set_high_and_batch_def
        pageset_set_batch_def update_pageset_def pageset_init_def Let_def)
  have "mm_ok ?t"
    unfolding mm_ok_def eqs
  proof (intro conjI allI impI refl vo; (elim conjE)?)
    fix j assume lj: "live_zone ?t j"
    show "zone_inv (boot_mem s0) (vmemmap s) j (node_zones ?t ! j)"
      using lj fa [OF lj] vo by (simp add: zone_inv_def nob lists_ok_def pages_idle_def live_zone_def)
    show "pageset (node_zones ?t ! j) < length (pagesets ?t)" using pcps [OF lj] by simp
    show "pcp_ok (boot_mem s0) (vmemmap s) j (pcp_of ?t j)" using pcps [OF lj] zone_pageset_init_ok by auto
  next
    fix j k assume "live_zone ?t j" "live_zone ?t k" "j \<noteq> k"
    then show "pageset (node_zones ?t ! j) \<noteq> pageset (node_zones ?t ! k)"
      using T pop [of j] pop [of k] by (simp add: psets_ok_def live_zone_def)
  qed
  then show ?thesis using s(1) ini empty bp by (auto simp: boot_done_def eqs booted_pages_def)
qed

end
