(* ===== verification/Page_Contract.thy ===== *)
theory Page_Contract
  imports Page_Init
begin

text \<open>
  What a client of the page allocator may rely on, as an interface: blocks that are taken are
  disjoint from what is free and from one another, stay owned until they are given back, and giving
  them back restores the free pages.  The client's lemma on whole sequences of requests is proved
  once, from the interface; \<^verbatim>\<open>__alloc_pages\<close> and \<^verbatim>\<open>__free_pages\<close> provide it.
\<close>

section \<open>Sequences of requests\<close>

fun take_all :: "('s \<Rightarrow> nat \<Rightarrow> (nat option \<times> 's) res) \<Rightarrow> 's \<Rightarrow> nat list \<Rightarrow> ((nat \<times> nat) list \<times> 's) res" where
  "take_all tk s [] = Inr ([], s)"
| "take_all tk s (n # ns) =
     rbind (tk s n) (\<lambda>(r, s1). case r of None \<Rightarrow> Inr ([], s1)
       | Some p \<Rightarrow> rbind (take_all tk s1 ns) (\<lambda>(bs, s2). Inr ((p, n) # bs, s2)))"

fun give_all :: "('s \<Rightarrow> nat \<Rightarrow> nat \<Rightarrow> 's res) \<Rightarrow> 's \<Rightarrow> (nat \<times> nat) list \<Rightarrow> 's res" where
  "give_all gv s [] = Inr s"
| "give_all gv s ((p, n) # bs) = rbind (gv s p n) (\<lambda>s1. give_all gv s1 bs)"

fun disjoint_blocks :: "(nat \<times> nat) list \<Rightarrow> bool" where
  "disjoint_blocks [] = True"
| "disjoint_blocks ((p, n) # bs) \<longleftrightarrow> (\<forall>(q, m)\<in>set bs. blk p n \<inter> blk q m = {}) \<and> disjoint_blocks bs"

definition blocks :: "(nat \<times> nat) list \<Rightarrow> nat set" where
  "blocks bs = (\<Union>(p, n)\<in>set bs. blk p n)"

lemma blocks_simps [simp]: "blocks [] = {}" "blocks ((p, n) # bs) = blk p n \<union> blocks bs"
  by (simp_all add: blocks_def)

lemma disjoint_blocks_Cons: "disjoint_blocks ((p, n) # bs) \<longleftrightarrow> blk p n \<inter> blocks bs = {} \<and> disjoint_blocks bs"
  by (auto simp: blocks_def)

locale block_allocator =
  fixes inv :: "'s \<Rightarrow> bool" and avail :: "'s \<Rightarrow> nat set" and own :: "'s \<Rightarrow> nat \<Rightarrow> nat \<Rightarrow> bool"
    and tk :: "'s \<Rightarrow> nat \<Rightarrow> (nat option \<times> 's) res" and gv :: "'s \<Rightarrow> nat \<Rightarrow> nat \<Rightarrow> 's res"
  assumes take_law: "inv s \<Longrightarrow> n < MAX_ORDER \<Longrightarrow> tk s n = Inr (None, s) \<or>
      (\<exists>p s'. tk s n = Inr (Some p, s') \<and> inv s' \<and> blk p n \<subseteq> avail s \<and> avail s' = avail s - blk p n \<and> own s' p n)"
    and take_keeps: "inv s \<Longrightarrow> n < MAX_ORDER \<Longrightarrow> own s q m \<Longrightarrow> tk s n = Inr (Some p, s') \<Longrightarrow> own s' q m"
    and own_apart: "inv s \<Longrightarrow> own s p n \<Longrightarrow> blk p n \<inter> avail s = {}"
    and give_law: "inv s \<Longrightarrow> own s p n \<Longrightarrow> \<exists>s'. gv s p n = Inr s' \<and> inv s' \<and> avail s' = avail s \<union> blk p n"
    and give_keeps: "inv s \<Longrightarrow> own s p n \<Longrightarrow> own s q m \<Longrightarrow> blk p n \<inter> blk q m = {} \<Longrightarrow> gv s p n = Inr s' \<Longrightarrow> own s' q m"
begin

lemma take_all_law:
  "inv s \<Longrightarrow> \<forall>n\<in>set ns. n < MAX_ORDER \<Longrightarrow>
   \<exists>bs s'. take_all tk s ns = Inr (bs, s') \<and> inv s' \<and> disjoint_blocks bs \<and> blocks bs \<subseteq> avail s \<and>
     avail s' = avail s - blocks bs \<and> (\<forall>(p, n)\<in>set bs. own s' p n) \<and>
     (\<forall>q m. own s q m \<longrightarrow> own s' q m)"
proof (induction ns arbitrary: s)
  case (Cons n ns)
  have n: "n < MAX_ORDER" and ns: "\<forall>n\<in>set ns. n < MAX_ORDER" using Cons.prems(2) by simp_all
  from take_law [OF Cons.prems(1) n] show ?case
  proof (elim disjE exE conjE)
    fix p s1 assume T: "tk s n = Inr (Some p, s1)" "inv s1" "blk p n \<subseteq> avail s" "avail s1 = avail s - blk p n" "own s1 p n"
    from Cons.IH [OF T(2) ns] obtain bs s' where R: "take_all tk s1 ns = Inr (bs, s')" "inv s'" "disjoint_blocks bs"
      "blocks bs \<subseteq> avail s1" "avail s' = avail s1 - blocks bs" "\<forall>(p, n)\<in>set bs. own s' p n"
      "\<forall>q m. own s1 q m \<longrightarrow> own s' q m" by blast
    have "disjoint_blocks ((p, n) # bs)" using R(3,4) T(4) by (auto simp: disjoint_blocks_Cons simp del: disjoint_blocks.simps)
    moreover have "blocks ((p, n) # bs) \<subseteq> avail s" "avail s' = avail s - blocks ((p, n) # bs)" using R(4,5) T(3,4) by auto
    moreover have "\<forall>q m. own s q m \<longrightarrow> own s' q m" using R(7) take_keeps [OF Cons.prems(1) n _ T(1)] by blast
    ultimately show ?case using T(1,5) R(1,2,6,7)
      by (intro exI [of _ "(p, n) # bs"] exI [of _ s']) simp
  qed (use Cons.prems in \<open>simp add: exI [of _ s]\<close>)
qed simp

lemma give_all_law:
  "inv s \<Longrightarrow> disjoint_blocks bs \<Longrightarrow> \<forall>(p, n)\<in>set bs. own s p n \<Longrightarrow>
   \<exists>s'. give_all gv s bs = Inr s' \<and> inv s' \<and> avail s' = avail s \<union> blocks bs"
proof (induction bs arbitrary: s)
  case (Cons b bs)
  obtain p n where b: "b = (p, n)" by (cases b)
  have o: "own s p n" using Cons.prems(3) b by simp
  from give_law [OF Cons.prems(1) o] obtain s1 where G: "gv s p n = Inr s1" "inv s1" "avail s1 = avail s \<union> blk p n" by blast
  have "own s1 q m" if "(q, m) \<in> set bs" for q m
    by (rule give_keeps [OF Cons.prems(1) o _ _ G(1)]) (use Cons.prems(2,3) b that in auto)
  then have "\<forall>(q, m)\<in>set bs. own s1 q m" by auto
  with Cons.IH [OF G(2)] Cons.prems(2) b G show ?case by auto
qed simp

lemma take_give_all:
  assumes "inv s" and "\<forall>n\<in>set ns. n < MAX_ORDER"
  shows "\<exists>bs s1 s2. take_all tk s ns = Inr (bs, s1) \<and> disjoint_blocks bs \<and> blocks bs \<subseteq> avail s \<and>
    avail s1 = avail s - blocks bs \<and> give_all gv s1 bs = Inr s2 \<and> inv s2 \<and> avail s2 = avail s"
proof -
  obtain bs s1 where T: "take_all tk s ns = Inr (bs, s1)" "inv s1" "disjoint_blocks bs" "blocks bs \<subseteq> avail s"
    "avail s1 = avail s - blocks bs" "\<forall>(p, n)\<in>set bs. own s1 p n"
    using take_all_law [OF assms] by blast
  obtain s2 where G: "give_all gv s1 bs = Inr s2" "inv s2" "avail s2 = avail s1 \<union> blocks bs"
    using give_all_law [OF T(2,3,6)] by blast
  have "avail s2 = avail s" using T(4,5) G(3) by auto
  then show ?thesis using T G by blast
qed

end

section \<open>The allocator provides the interface\<close>

definition held_in :: "nat \<Rightarrow> mm \<Rightarrow> nat \<Rightarrow> nat \<Rightarrow> bool" where
  "held_in i s p n \<longleftrightarrow> held s p n \<and> zonenum (vmemmap s ! p) = i"

definition mm_live :: "nat \<Rightarrow> mm \<Rightarrow> bool" where
  "mm_live i s \<longleftrightarrow> mm_ok s \<and> live_zone s i"

lemma held_changes:
  assumes h: "held s q m" and st: "mm_step s i s'" and ch: "changes S (vmemmap s) (vmemmap s')"
    and S: "S \<inter> blk q m = {}" and F: "zone_free s' i \<inter> blk q m = {}"
  shows "held s' q m" "zonenum (vmemmap s' ! q) = zonenum (vmemmap s ! q)"
proof -
  have bl: "r < length (vmemmap s)" if "r \<in> blk q m" for r using h that unfolding held_def by blast
  have eq: "vmemmap s' ! r = vmemmap s ! r" if "r \<in> blk q m" for r
    using ch S bl [OF that] that unfolding changes_def by blast
  show z: "zonenum (vmemmap s' ! q) = zonenum (vmemmap s ! q)" using eq [of q] by simp
  have q1: "vmemmap s' ! (q + 1) = vmemmap s ! (q + 1)" if "0 < m"
  proof -
    have "(1::nat) < 2 ^ m" using that one_less_power [of "2::nat" m] by simp
    then show ?thesis by (intro eq) (simp add: blk_def)
  qed
  let ?j = "zonenum (vmemmap s ! q)"
  have lv: "live_zone s' ?j = live_zone s ?j" "boot_mem s' = boot_mem s"
    and other: "live_zone s ?j \<Longrightarrow> ?j \<noteq> i \<Longrightarrow> zone_free s' ?j = zone_free s ?j"
    using st by (auto simp: mm_step_def)
  have A: "live_zone s ?j" "blk q m \<inter> zone_free s ?j = {}" using h unfolding held_def by blast+
  have "blk q m \<inter> zone_free s' ?j = {}" using F A other by (cases "?j = i") auto
  moreover have len: "length (vmemmap s') = length (vmemmap s)" using ch by (simp add: changes_def)
  have eqq: "vmemmap s' ! q = vmemmap s ! q" by (rule eq) simp
  moreover have "\<forall>r\<in>blk q m. r < length (vmemmap s') \<and> pfn_valid (boot_mem s') r \<and>
      zonenum (vmemmap s' ! r) = ?j \<and> page_flags (vmemmap s' ! r) AND PAGE_FLAGS_CHECK_AT_FREE = 0"
    using h eq unfolding held_def len lv(2) by metis
  moreover have "\<forall>r\<in>blk q m - {q}. refcount (vmemmap s' ! r) = 0 \<and>
      head_word (vmemmap s' ! r) = (if bit (page_flags (vmemmap s ! q)) PG_head then Some q else None)"
    using h eq unfolding held_def by (metis DiffD1)
  moreover have "bit (page_flags (vmemmap s ! q)) PG_head \<longrightarrow> 0 < m \<and> order_byte (vmemmap s' ! (q + 1)) = Some m"
    using h q1 unfolding held_def by metis
  moreover have "m < MAX_ORDER" "2 ^ m dvd q" "live_zone s' ?j" "head_word (vmemmap s ! q) = None" "refcount (vmemmap s ! q) = 1"
    using h lv(1) unfolding held_def by blast+
  ultimately show "held s' q m" unfolding held_def eqq by blast
qed

lemma gfp_zone_less: "gfp_zone g < MAX_NR_ZONES"
  by (simp add: gfp_zone_def MAX_NR_ZONES_def ZONE_DMA_def ZONE_MOVABLE_def ZONE_NORMAL_def)

interpretation pages: block_allocator "mm_live (gfp_zone g)" "\<lambda>s. zone_free s (gfp_zone g)" "held_in (gfp_zone g)"
  "\<lambda>s n. alloc_pages s g n" do_free_pages for g
proof unfold_locales
  fix s n assume a: "mm_live (gfp_zone g) s" "n < MAX_ORDER"
  then have ok: "mm_ok s" and lv: "live_zone s (gfp_zone g)" by (simp_all add: mm_live_def)
  from alloc_pages_ok [OF ok lv a(2)]
  show "alloc_pages s g n = Inr (None, s) \<or>
      (\<exists>p s'. alloc_pages s g n = Inr (Some p, s') \<and> mm_live (gfp_zone g) s' \<and> blk p n \<subseteq> zone_free s (gfp_zone g) \<and>
        zone_free s' (gfp_zone g) = zone_free s (gfp_zone g) - blk p n \<and> held_in (gfp_zone g) s' p n)"
  proof (elim disjE exE conjE)
    fix p s' assume T: "alloc_pages s g n = Inr (Some p, s')" "mm_step s (gfp_zone g) s'" "blk p n \<subseteq> zone_free s (gfp_zone g)"
      "zone_free s' (gfp_zone g) = zone_free s (gfp_zone g) - blk p n" "held s' p n"
      "changes (zone_free s (gfp_zone g)) (vmemmap s) (vmemmap s')"
    have "p \<in> zone_free s (gfp_zone g)" using T(3) by auto
    then have "zonenum (vmemmap s' ! p) = gfp_zone g"
      using zone_free_zone [OF ok lv] T(6) by (simp add: changes_def)
    then show ?thesis using T lv by (auto simp: held_in_def mm_live_def mm_step_def)
  qed simp
next
  fix s n q m p s'
  assume a: "mm_live (gfp_zone g) s" "n < MAX_ORDER" "held_in (gfp_zone g) s q m" "alloc_pages s g n = Inr (Some p, s')"
  then have ok: "mm_ok s" and lv: "live_zone s (gfp_zone g)" by (simp_all add: mm_live_def)
  obtain T: "mm_step s (gfp_zone g) s'" "zone_free s' (gfp_zone g) = zone_free s (gfp_zone g) - blk p n"
    "changes (zone_free s (gfp_zone g)) (vmemmap s) (vmemmap s')"
    using alloc_pages_ok [OF ok lv a(2)] a(4) by auto
  have "blk q m \<inter> zone_free s (gfp_zone g) = {}" using a(3) unfolding held_in_def held_def by metis
  then have "zone_free s (gfp_zone g) \<inter> blk q m = {}" "zone_free s' (gfp_zone g) \<inter> blk q m = {}" using T(2) by auto
  moreover have "held s q m" "zonenum (vmemmap s ! q) = gfp_zone g" using a(3) by (simp_all add: held_in_def)
  ultimately show "held_in (gfp_zone g) s' q m"
    using held_changes [OF _ T(1,3), of q m] by (simp add: held_in_def)
next
  fix s p n assume "mm_live (gfp_zone g) s" "held_in (gfp_zone g) s p n"
  then show "blk p n \<inter> zone_free s (gfp_zone g) = {}" unfolding held_in_def held_def by metis
next
  fix s p n assume a: "mm_live (gfp_zone g) s" "held_in (gfp_zone g) s p n"
  then have h: "held s p n" and z: "zonenum (vmemmap s ! p) = gfp_zone g" and ok: "mm_ok s" and lv: "live_zone s (gfp_zone g)"
    by (simp_all add: held_in_def mm_live_def)
  then show "\<exists>s'. do_free_pages s p n = Inr s' \<and> mm_live (gfp_zone g) s' \<and>
      zone_free s' (gfp_zone g) = zone_free s (gfp_zone g) \<union> blk p n"
    using do_free_pages_ok [OF ok h] by (auto simp: mm_live_def mm_step_def)
next
  fix s p n q m s'
  assume a: "mm_live (gfp_zone g) s" "held_in (gfp_zone g) s p n" "held_in (gfp_zone g) s q m" "blk p n \<inter> blk q m = {}"
    "do_free_pages s p n = Inr s'"
  then have h: "held s p n" "held s q m" and z: "zonenum (vmemmap s ! p) = gfp_zone g" "zonenum (vmemmap s ! q) = gfp_zone g"
    and ok: "mm_ok s" by (simp_all add: held_in_def mm_live_def)
  obtain T: "mm_step s (gfp_zone g) s'" "zone_free s' (gfp_zone g) = zone_free s (gfp_zone g) \<union> blk p n"
    "changes (zone_free s (gfp_zone g) \<union> blk p n) (vmemmap s) (vmemmap s')"
    using do_free_pages_ok [OF ok h(1)] a(5) z by auto
  have "blk q m \<inter> zone_free s (gfp_zone g) = {}" using h(2) z unfolding held_def by metis
  then have "(zone_free s (gfp_zone g) \<union> blk p n) \<inter> blk q m = {}" using a(4) by auto
  then show "held_in (gfp_zone g) s' q m"
    using held_changes [OF h(2) T(1,3)] T(2) z by (simp add: held_in_def)
qed

end
