(* ===== verification/Page_Boot.thy ===== *)
theory Page_Boot
  imports Page_Contract
begin

text \<open>
  Boot memory entering the allocator (\<^verbatim>\<open>memblock_free_pages\<close>), and \<^verbatim>\<open>is_free_buddy_page\<close>.
\<close>

lemma heldI:
  assumes "n < MAX_ORDER" "2 ^ n dvd p" "zonenum (vmemmap s ! p) = i" "live_zone s i" "blk p n \<inter> zone_free s i = {}"
    and "\<And>q. q \<in> blk p n \<Longrightarrow> q < length (vmemmap s) \<and> pfn_valid (boot_mem s) q \<and> zonenum (vmemmap s ! q) = i \<and>
      page_flags (vmemmap s ! q) AND PAGE_FLAGS_CHECK_AT_FREE = 0"
    and "head_word (vmemmap s ! p) = None" "refcount (vmemmap s ! p) = 1"
    and "\<And>q. q \<in> blk p n - {p} \<Longrightarrow> refcount (vmemmap s ! q) = 0 \<and>
      head_word (vmemmap s ! q) = (if bit (page_flags (vmemmap s ! p)) PG_head then Some p else None)"
    and "bit (page_flags (vmemmap s ! p)) PG_head \<Longrightarrow> 0 < n \<and> order_byte (vmemmap s ! (p + 1)) = Some n"
  shows "held s p n"
  unfolding held_def assms(3) using assms by blast

section \<open>Boot memory\<close>

text \<open>A block of memory that the allocator has never seen.\<close>

definition boot_block :: "mm \<Rightarrow> nat \<Rightarrow> nat \<Rightarrow> bool" where
  "boot_block s p n \<longleftrightarrow> n < MAX_ORDER \<and> 2 ^ n dvd p \<and> live_zone s (zonenum (vmemmap s ! p)) \<and>
     blk p n \<inter> zone_free s (zonenum (vmemmap s ! p)) = {} \<and>
     (\<forall>q\<in>blk p n. q < length (vmemmap s) \<and> pfn_valid (boot_mem s) q \<and>
        zonenum (vmemmap s ! q) = zonenum (vmemmap s ! p) \<and> head_word (vmemmap s ! q) = None \<and>
        \<not> bit (page_flags (vmemmap s ! q)) PG_head \<and> \<not> bit (page_flags (vmemmap s ! q)) PG_slab)"

definition unreserved :: "page \<Rightarrow> page" where
  "unreserved x = x\<lparr>page_flags := unset_bit PG_reserved (page_flags x), refcount := 0\<rparr>"

lemma unreserved_simps [simp]:
  "zonenum (unreserved x) = zonenum x" "is_buddy (unreserved x) = is_buddy x" "head_word (unreserved x) = head_word x"
  "refcount (unreserved x) = 0" "bit (page_flags (unreserved x)) PG_head = bit (page_flags x) PG_head"
  "bit (page_flags (unreserved x)) PG_slab = bit (page_flags x) PG_slab" "\<not> bit (page_flags (unreserved x)) PG_reserved"
  by (auto simp: unreserved_def zonenum_eq is_buddy_def PG_defs bit_simps)

lemma unreserve_pages_ok:
  "\<forall>q\<in>{p..<p + m}. q < length v \<and> zonenum (v ! q) < MAX_NR_ZONES \<and> head_word (v ! q) = None \<and>
     \<not> bit (page_flags (v ! q)) PG_head \<Longrightarrow>
   \<exists>v'. unreserve_pages m v p = Inr v' \<and> changes {p..<p + m} v v' \<and> (\<forall>q\<in>{p..<p + m}. v' ! q = unreserved (v ! q))"
proof (induction m arbitrary: v p)
  case (Suc m)
  have p: "p < length v" "zonenum (v ! p) < MAX_NR_ZONES" "head_word (v ! p) = None" "\<not> bit (page_flags (v ! p)) PG_head"
    using Suc.prems by simp_all
  let ?v = "v[p := unreserved (v ! p)]"
  have "PF_NO_COMPOUND True v p = Inr p"
    using p not_poisoned [OF p(2)] by (simp add: PF_NO_COMPOUND_def PageCompound_Inr PF_POISONED_CHECK_def rdp_Inr PagePoisoned_def)
  then have 1: "rbind (ClearPageReserved v p) (\<lambda>v1. set_page_count v1 p 0) = Inr ?v"
    using p by (simp add: ClearPageReserved_def CLEARPAGEFLAG_def wrp_Inr set_page_count_def unreserved_def)
  have "\<forall>q\<in>{p + 1..<p + 1 + m}. q < length ?v \<and> zonenum (?v ! q) < MAX_NR_ZONES \<and> head_word (?v ! q) = None \<and>
     \<not> bit (page_flags (?v ! q)) PG_head" using Suc.prems by (auto simp: nth_list_update)
  from Suc.IH [OF this] obtain v' where v': "unreserve_pages m ?v (p + 1) = Inr v'" "changes {p + 1..<p + 1 + m} ?v v'"
    "\<forall>q\<in>{p + 1..<p + 1 + m}. v' ! q = unreserved (?v ! q)" by blast
  have "unreserve_pages (Suc m) v p = Inr v'" using 1 v'(1) by (auto simp: rbind_Inr_iff)
  moreover have "changes {p} v ?v" by (rule changes_update) simp_all
  then have "changes {p..<p + Suc m} v v'" by (rule changes_trans [OF _ v'(2)]) auto
  moreover have "v' ! q = unreserved (v ! q)" if "q \<in> {p..<p + Suc m}" for q
    using that v'(2,3) p(1) by (cases "q = p") (auto simp: changes_def)
  ultimately show ?case by blast
qed simp

lemma free_pages_boot_core_ok:
  assumes ok: "mm_ok s" and b: "boot_block s p n"
  defines "i \<equiv> zonenum (vmemmap s ! p)"
  shows "\<exists>s'. free_pages_boot_core s p n = Inr s' \<and> mm_step s i s' \<and>
    zone_free s' i = zone_free s i \<union> blk p n \<and> changes (zone_free s i \<union> blk p n) (vmemmap s) (vmemmap s')"
proof -
  let ?v = "vmemmap s" and ?z = "node_zones s ! i" and ?c = "pcp_of s i"
  have B: "n < MAX_ORDER" "2 ^ n dvd p" "live_zone s i" "blk p n \<inter> zone_free s i = {}"
    "\<And>q. q \<in> blk p n \<Longrightarrow> q < length ?v \<and> pfn_valid (boot_mem s) q \<and> zonenum (?v ! q) = i \<and> head_word (?v ! q) = None \<and>
      \<not> bit (page_flags (?v ! q)) PG_head \<and> \<not> bit (page_flags (?v ! q)) PG_slab"
    using b unfolding boot_block_def i_def by blast+
  have i3: "i < MAX_NR_ZONES" using B(3) by (simp add: live_zone_def)
  have bl: "blk p n = {p..<p + 2 ^ n}" by (simp add: blk_def)
  have dj: "blk p n \<inter> cover (buddy_map ?v i) = {}" "set (pcp_lists ?c) \<inter> blk p n = {}"
    using B(4) by (auto simp: zone_free_def)
  have nb: "\<not> is_buddy (?v ! q)" if "q \<in> blk p n" for q
    using dj(1) that B(5) [OF that] buddy_cover_head [of ?v i q] by (auto simp: buddy_map_Some)
  have "\<exists>v'. unreserve_pages (2 ^ n) ?v p = Inr v' \<and> changes {p..<p + 2 ^ n} ?v v' \<and>
      (\<forall>q\<in>{p..<p + 2 ^ n}. v' ! q = unreserved (?v ! q))"
    by (rule unreserve_pages_ok) (use B(5) i3 in \<open>simp add: bl\<close>)
  then obtain v1 where v1: "unreserve_pages (2 ^ n) ?v p = Inr v1" "changes (blk p n) ?v v1"
    "\<And>q. q \<in> blk p n \<Longrightarrow> v1 ! q = unreserved (?v ! q)" unfolding bl by blast
  have p: "p \<in> blk p n" "p < length v1" "zonenum (v1 ! p) = i" using v1(2) B(5) [of p] by (simp_all add: changes_def)
  define v2 where "v2 = v1[p := (v1 ! p)\<lparr>refcount := 1\<rparr>]"
  let ?zz = "?z\<lparr>managed_pages := add64 (managed_pages ?z) (2 ^ n)\<rparr>"
  have rc: "set_page_refcounted v1 p = Inr v2"
    unfolding v2_def using p v1(3) B(5) [OF p(1)] by (intro set_page_refcounted_Inr) simp_all
  have ch: "changes (blk p n) ?v v2"
    unfolding v2_def by (rule changes_trans [OF v1(2) changes_update [of p "{p}"]]) simp_all
  have v2q: "v2 ! q = (if q = p then (unreserved (?v ! p))\<lparr>refcount := 1\<rparr> else unreserved (?v ! q))" if "q \<in> blk p n" for q
    unfolding v2_def using v1(3) that p(1,2) by simp
  have nb2: "\<not> is_buddy (?v ! q) \<and> \<not> is_buddy (v2 ! q)" if "q \<in> blk p n" for q
    using nb [OF that] that v2q [OF that] nb [OF p(1)] unreserved_simps(2) by (auto simp: is_buddy_def)
  have Z: "zone_inv (boot_mem s) v2 i ?z" "buddy_map v2 i = buddy_map ?v i"
    using zone_inv_outside [OF mm_okD(3) [OF ok B(3)] ch dj(1) nb2] by simp_all
  have Zz: "zone_inv (boot_mem s) v2 i ?zz" using Z(1) by (simp add: zone_inv_def lists_ok_def)
  have pk: "pcp_ok (boot_mem s) v2 i ?c"
    by (rule pcp_ok_changes [OF mm_okD(5) [OF ok B(3)] ch dj(2)]) (use mm_okD(5) [OF ok B(3)] in \<open>simp add: Z(2) pcp_ok_def\<close>)
  define s2 where "s2 = put_zone i ?zz (put_pcp (pageset ?z) ?c (s\<lparr>vmemmap := v2\<rparr>))"
  have U: "mm_step s i s2" "zone_free s2 i = zone_free s i" "changes (blk p n) ?v (vmemmap s2)"
    using mm_step_update [OF ok B(3) Zz _ pk ch _ refl] B(5) unfolding s2_def by (auto simp: zone_free_def Z(2))
  have vm: "vmemmap s2 = v2" "boot_mem s2 = boot_mem s" by (simp_all add: s2_def put_zone_def put_pcp_def)
  have "page_flags (v2 ! q) AND PAGE_FLAGS_CHECK_AT_FREE = 0" if "q \<in> blk p n" for q
  proof (rule bit_eqI)
    fix k show "bit (page_flags (v2 ! q) AND PAGE_FLAGS_CHECK_AT_FREE) k = bit 0 k"
      using B(5) [OF that] v2q [OF that] unreserved_simps(6,7) [of "?v ! q"] by (auto simp: bit_and_iff bit_check_at_free)
  qed
  moreover have "q < length v2 \<and> zonenum (v2 ! q) = i" if "q \<in> blk p n" for q
    using v2q [OF that] B(5) [OF that] v1(2) by (auto simp: changes_def v2_def)
  ultimately have blkq: "q < length v2 \<and> pfn_valid (boot_mem s) q \<and> zonenum (v2 ! q) = i \<and>
      page_flags (v2 ! q) AND PAGE_FLAGS_CHECK_AT_FREE = 0" if "q \<in> blk p n" for q using B(5) that by blast
  have zp: "zonenum (v2 ! p) = i" "\<not> bit (page_flags (v2 ! p)) PG_head" "head_word (v2 ! p) = None" "refcount (v2 ! p) = 1"
    using v2q [OF p(1)] B(5) [OF p(1)] by simp_all
  have tl: "refcount (v2 ! q) = 0 \<and> head_word (v2 ! q) = (if bit (page_flags (v2 ! p)) PG_head then Some p else None)"
    if "q \<in> blk p n - {p}" for q
    using v2q [of q] B(5) [of q] that zp(2) by simp
  have "live_zone s2 i" using U(1) B(3) by (simp add: mm_step_def)
  then have "held s2 p n"
    by (intro heldI [where i = i, OF B(1,2)]; (unfold vm)?) (use zp B(4) U(2) blkq tl in simp_all)
  from do_free_pages_ok [OF _ this] U(1) obtain s' where F: "do_free_pages s2 p n = Inr s'" "mm_step s2 i s'"
    "zone_free s' i = zone_free s2 i \<union> blk p n" "changes (zone_free s2 i \<union> blk p n) (vmemmap s2) (vmemmap s')"
    unfolding vm zp(1) by (auto simp: mm_step_def)
  have eq: "(put_zone i ?zz (s\<lparr>vmemmap := v1\<rparr>))\<lparr>vmemmap := v2\<rparr> = s2"
    unfolding s2_def by (simp add: put_zone_def put_pcp_def pcp_of_def)
  have "zone_at s i = Inr ?z" using B(3) mm_okD(1) [OF ok] by (simp add: zone_at_def live_zone_def)
  then have "free_pages_boot_core s p n = Inr s'"
    using v1(1) p rc F(1) by (simp add: free_pages_boot_core_def page_zonenum_Inr Let_def eq)
  moreover have "changes (zone_free s i \<union> blk p n) ?v (vmemmap s')"
    by (rule changes_trans [OF U(3) F(4)]) (auto simp: U(2))
  moreover have "mm_step s i s'" by (rule mm_step_trans [OF U(1) F(2)])
  ultimately show ?thesis using F(3) U(2) by auto
qed

section \<open>Inspection\<close>

lemma is_free_buddy_from_ok:
  assumes "p < length v" and "\<And>q. q \<le> p \<Longrightarrow> page_flags (v ! q) \<noteq> - 1"
  shows "\<exists>r. is_free_buddy_from v p k = Inr r \<and>
    (r < MAX_ORDER \<longleftrightarrow> (\<exists>m\<ge>k. m < MAX_ORDER \<and> is_buddy (v ! (p - p mod 2 ^ m)) \<and> m \<le> priv (v ! (p - p mod 2 ^ m)) mod 2 ^ 32))"
proof (induction "MAX_ORDER - k" arbitrary: k)
  case 0
  then show ?case by (subst is_free_buddy_from.simps) auto
next
  case (Suc d)
  let ?h = "p - p mod 2 ^ k"
  let ?stop = "\<lambda>m. is_buddy (v ! (p - p mod 2 ^ m)) \<and> m \<le> priv (v ! (p - p mod 2 ^ m)) mod 2 ^ 32"
  have k: "k < MAX_ORDER" using Suc(2) by simp
  have h: "?h < length v" "page_flags (v ! ?h) \<noteq> - 1" using assms by auto
  have step: "is_free_buddy_from v p k = (if ?stop k then Inr k else is_free_buddy_from v p (k + 1))"
    using k h by (subst is_free_buddy_from.simps)
      (simp only: and_low_mod, simp add: Let_def PageBuddy_Inr page_order_def page_private_def rdp_Inr)
  show ?case
  proof (cases "?stop k")
    case True
    then show ?thesis unfolding step using k by auto
  next
    case False
    have "d = MAX_ORDER - (k + 1)" using Suc(2) by simp
    from Suc(1) [OF this] obtain r where r: "is_free_buddy_from v p (k + 1) = Inr r"
      "r < MAX_ORDER \<longleftrightarrow> (\<exists>m\<ge>k + 1. m < MAX_ORDER \<and> ?stop m)" by blast
    have "(\<exists>m\<ge>k. m < MAX_ORDER \<and> ?stop m) \<longleftrightarrow> (\<exists>m\<ge>k + 1. m < MAX_ORDER \<and> ?stop m)"
      using False by (metis Suc_eq_plus1 Suc_leD Suc_leI le_neq_implies_less)
    then show ?thesis using step False r by (intro exI [of _ r]) argo
  qed
qed

lemma aligned_block: "2 ^ m dvd h \<Longrightarrow> p \<in> blk h m \<Longrightarrow> p - p mod 2 ^ m = h"
proof -
  assume "2 ^ m dvd h" "p \<in> blk h m"
  then obtain k where "h = 2 ^ m * k" "h \<le> p" "p < h + 2 ^ m" by (auto simp: dvd_def blk_def)
  then have "p mod 2 ^ m = p - h" by (metis le_mod_geq mod_mult_self4 mod_less nat_arith.rule0
        add_diff_inverse_nat less_diff_conv2 linorder_not_le add.commute)
  then show ?thesis using \<open>h \<le> p\<close> by simp
qed

text \<open>Every descriptor has a zone number, and only live zones have free blocks.\<close>

definition descriptors_ok :: "mm \<Rightarrow> bool" where
  "descriptors_ok s \<longleftrightarrow> (\<forall>x\<in>set (vmemmap s). zonenum x < MAX_NR_ZONES \<and> (is_buddy x \<longrightarrow> live_zone s (zonenum x)))"

lemma is_free_buddy_page_ok:
  assumes ok: "mm_ok s" and p: "p < length (vmemmap s)"
    and lv: "live_zone s (zonenum (vmemmap s ! p))" and all: "descriptors_ok s"
  defines "i \<equiv> zonenum (vmemmap s ! p)"
  shows "is_free_buddy_page s p = Inr (p \<in> cover (buddy_map (vmemmap s) i))"
proof -
  let ?v = "vmemmap s" and ?H = "\<lambda>j. buddy_map (vmemmap s) j"
  have np: "page_flags (?v ! q) \<noteq> - 1" if "q \<le> p" for q
    using all p that by (intro not_poisoned) (auto simp: descriptors_ok_def)
  obtain r where r: "is_free_buddy_from ?v p 0 = Inr r"
    "r < MAX_ORDER \<longleftrightarrow> (\<exists>m. m < MAX_ORDER \<and> is_buddy (?v ! (p - p mod 2 ^ m)) \<and> m \<le> priv (?v ! (p - p mod 2 ^ m)) mod 2 ^ 32)"
    using is_free_buddy_from_ok [OF p np, of 0] by auto
  have "(r < MAX_ORDER) = (p \<in> cover (?H i))"
  proof
    assume "r < MAX_ORDER"
    then obtain m where m: "m < MAX_ORDER" "is_buddy (?v ! (p - p mod 2 ^ m))" "m \<le> priv (?v ! (p - p mod 2 ^ m)) mod 2 ^ 32"
      using r(2) by blast
    let ?h = "p - p mod 2 ^ m"
    let ?j = "zonenum (?v ! ?h)"
    have hl: "?h < length ?v" using p by simp
    have lj: "live_zone s ?j" using all hl m(2) by (auto simp: descriptors_ok_def)
    have Hh: "?H ?j ?h = Some (priv (?v ! ?h))" using hl m(2) by (simp add: buddy_map_Some)
    have "priv (?v ! ?h) < MAX_ORDER" by (rule bmap_okD(1) [OF zone_invD(5) [OF mm_okD(3) [OF ok lj]] Hh])
    then have "m \<le> priv (?v ! ?h)" using m(3) by (simp add: MAX_ORDER_def)
    moreover have "p mod 2 ^ m < 2 ^ m" "p mod 2 ^ m \<le> p" by simp_all
    then have "p \<in> blk ?h m" unfolding blk_def atLeastLessThan_iff by linarith
    ultimately have "p \<in> cover (?H ?j)" using Hh blk_mono [of m "priv (?v ! ?h)" ?h] by (auto intro: buddy_coverI)
    then have "p \<in> zone_free s ?j" by (simp add: zone_free_def)
    then have "?j = i" using zone_free_zone(2) [OF ok lj] by (simp add: i_def)
    then show "p \<in> cover (?H i)" using \<open>p \<in> cover (?H ?j)\<close> by simp
  next
    assume "p \<in> cover (?H i)"
    then obtain h m where hm: "?H i h = Some m" "p \<in> blk h m" by (auto simp: cover_def)
    have li: "live_zone s i" using lv by (simp add: i_def)
    note D = bmap_okD [OF zone_invD(5) [OF mm_okD(3) [OF ok li]] hm(1)]
    have "p - p mod 2 ^ m = h" by (rule aligned_block [OF D(2) hm(2)])
    then show "r < MAX_ORDER" unfolding r(2)
      using hm(1) D(1) by (intro exI [of _ m]) (simp add: buddy_map_Some MAX_ORDER_def)
  qed
  moreover have "zone_at s i = Inr (node_zones s ! i)"
    using lv mm_okD(1) [OF ok] by (simp add: zone_at_def live_zone_def i_def)
  ultimately show ?thesis using r(1) p by (simp add: is_free_buddy_page_def page_zonenum_Inr i_def)
qed

section \<open>Faults\<close>

lemma put_page_last:
  assumes ok: "mm_ok s" and h: "held s p n"
  shows "put_page s p = Inl Bug"
proof -
  note H = heldD [OF ok h]
  let ?v = "vmemmap s"
  let ?w = "?v[p := (?v ! p)\<lparr>refcount := 0\<rparr>]"
  have hw: "head_word (?v ! p) = None" using h unfolding held_def by blast
  have zp: "page_flags (?v ! p) \<noteq> - 1" using H(1) by (intro not_poisoned) (simp add: live_zone_def)
  have pw: "PageHead ?w p = Inr (bit (page_flags (?v ! p)) PG_head)"
    using H(3) zp by (simp add: PageHead_def TESTPAGEFLAG_def PF_ANY_Inr rdp_Inr)
  have "\<exists>k. compound_order ?w p = Inr k"
  proof (cases "bit (page_flags (?v ! p)) PG_head")
    case True
    with h have hd: "0 < n" "order_byte (?v ! (p + 1)) = Some n" unfolding held_def by blast+
    then have "(1::nat) < 2 ^ n" using one_less_power [of "2::nat" n] by simp
    then have "p + 1 < length ?v" using H(6) [of "p + 1"] by (simp add: blk_def)
    then show ?thesis using True hd(2) by (simp add: compound_order_def pw rdp_Inr)
  qed (simp add: compound_order_def pw)
  then obtain k where k: "compound_order ?w p = Inr k" ..
  have "put_page_testzero ?w p = Inl Bug"
    using H(3) by (simp add: put_page_testzero_def page_ref_count_def rdp_Inr)
  then show ?thesis
    using H(3,4) hw k by (simp add: put_page_def compound_head_def rdp_Inr put_page_testzero_Inr do_free_pages_def)
qed

text \<open>A zone whose free lists were never set up.\<close>

lemma alloc_uninitialised:
  assumes "gfp_zone g < length (node_zones s)" and "free_area (node_zones s ! gfp_zone g) = []"
    and "pageset (node_zones s ! gfp_zone g) < length (pagesets s)"
    and "pcp_lists (pcp_of s (gfp_zone g)) = []" and "1 \<le> pcp_batch (pcp_of s (gfp_zone g))" "pcp_batch (pcp_of s (gfp_zone g)) < 2 ^ 31"
    and n: "n < MAX_ORDER"
  shows "alloc_pages s g n = Inl Oob"
proof -
  let ?i = "gfp_zone g" and ?z = "node_zones s ! gfp_zone g" and ?c = "pcp_of s (gfp_zone g)"
  have q: "do_rmqueue (vmemmap s) ?z k = Inl Oob" if "k < MAX_ORDER" for k
    unfolding do_rmqueue_def rmqueue_smallest_def
    by (subst rmqueue_smallest_from.simps) (simp add: that area_of_def assms(2))
  have "nat (pcp_batch ?c mod 2 ^ 64) = Suc (nat (pcp_batch ?c) - 1)" using assms(5,6) by simp
  then have "rmqueue_bulk (nat (pcp_batch ?c mod 2 ^ 64)) (vmemmap s) ?z 0 [] 0 = Inl Oob"
    using q [of 0] by (simp only: rmqueue_bulk.simps) (simp add: MAX_ORDER_def)
  then have "rmqueue_pcplist s ?i = Inl Oob"
    using assms(1,3,4) unfolding rmqueue_pcplist_def do_rmqueue_pcplist_def
    by (simp add: zone_at_def pcp_at_def flip: pcp_of_def)
  moreover have "rmqueue_retry (vmemmap s) ?z n = Inl Oob" by (subst rmqueue_retry.simps) (simp add: q [OF n])
  ultimately have "rmqueue s ?i n = Inl Oob" using assms(1) by (simp add: rmqueue_def zone_at_def)
  then show ?thesis using n by (simp add: alloc_pages_def get_page_from_freelist_def)
qed

end
