(* ===== verification/Page_Properties.thy ===== *)
theory Page_Properties
  imports Page_Boot Memblock_Spec
begin

text \<open>
  The properties of the page allocator, and for each a concrete node on which it applies: 16 pages
  of memory, the frames 16 to 31, all in the normal zone.
\<close>

section \<open>A small node\<close>

definition demo_zone :: "nat \<Rightarrow> nat \<Rightarrow> zone" where
  "demo_zone start n = \<lparr>pageset = 0, zone_start_pfn = start, managed_pages = 0, spanned_pages = n, present_pages = n,
     initialized = False, free_area = []\<rparr>"

definition demo_boot :: mm where
  "demo_boot = \<lparr>node_zones = [demo_zone 0 0, demo_zone 16 16, demo_zone 0 0], nr_zones = 0, vmemmap = replicate 32 zero_page,
     pagesets = [setup_pageset 0], highest_memmap_pfn = 0, nr_kernel_pages = 0, nr_all_pages = 0, boot_mem = demo_mb, ram = (\<lambda>_ _. 0)\<rparr>"

definition demo_init :: mm where
  "demo_init = (case free_area_init_core 0 demo_boot of Inr s \<Rightarrow> setup_per_cpu_pageset s | Inl _ \<Rightarrow> demo_boot)"

definition demo_node :: mm where
  "demo_node = (case memblock_free_pages demo_init 16 16 4 of Inr s \<Rightarrow> s | Inl _ \<Rightarrow> demo_init)"

lemma demo_pfn_valid: "pfn_valid demo_mb q \<longleftrightarrow> 16 \<le> q \<and> q < 32"
proof -
  define a where "a = (q * 2 ^ 12) mod 2 ^ 64"
  have "memblock_is_map_memory demo_mb a \<longleftrightarrow> 0x10000 \<le> a \<and> a < 0x20000"
    using is_map_memory_iff [OF demo_ok, of a] by (auto simp: demo_live)
  then have v: "pfn_valid demo_mb q \<longleftrightarrow> a div 2 ^ 12 = q \<and> 0x10000 \<le> a \<and> a < 0x20000"
    unfolding pfn_valid_def PAGE_SHIFT_def Let_def a_def by metis
  show ?thesis
  proof
    assume "16 \<le> q \<and> q < 32"
    moreover from this have "a = q * 2 ^ 12" unfolding a_def by (intro mod_less) simp
    ultimately show "pfn_valid demo_mb q" unfolding v by simp
  next
    assume "pfn_valid demo_mb q"
    then show "16 \<le> q \<and> q < 32" unfolding v by auto
  qed
qed

lemma less_3: "j < MAX_NR_ZONES \<longleftrightarrow> j = 0 \<or> j = 1 \<or> j = 2"
  by (auto simp: MAX_NR_ZONES_def)

lemma ZONE_NORMAL_less: "ZONE_NORMAL < MAX_NR_ZONES"
  by (simp add: ZONE_NORMAL_def MAX_NR_ZONES_def)

lemma demo_zones: "i < MAX_NR_ZONES \<Longrightarrow> node_zones demo_boot ! i = (if i = ZONE_NORMAL then demo_zone 16 16 else demo_zone 0 0)"
  by (auto simp: less_3 demo_boot_def ZONE_NORMAL_def)

lemma demo_boot_simps: "length (node_zones demo_boot) = MAX_NR_ZONES" "length (vmemmap demo_boot) = 32" "boot_mem demo_boot = demo_mb"
  "q < 32 \<Longrightarrow> vmemmap demo_boot ! q = zero_page"
  by (simp_all add: demo_boot_def MAX_NR_ZONES_def)

lemma demo_span: "span (demo_zone a n) = {a..<a + n}" "spanned_pages (demo_zone a n) = n" "populated_zone (demo_zone a n) \<longleftrightarrow> n \<noteq> 0"
  "\<not> initialized (demo_zone a n)"
  by (simp_all add: span_def demo_zone_def populated_zone_def)

lemma demo_boot_start: "boot_start demo_boot"
proof -
  have "\<exists>j<MAX_NR_ZONES. q \<in> span (node_zones demo_boot ! j)" if "pfn_valid demo_mb q" for q
    by (rule exI [of _ ZONE_NORMAL]) (use that in \<open>simp add: demo_zones demo_pfn_valid demo_span ZONE_NORMAL_less\<close>)
  moreover have "\<not> is_buddy zero_page" by (simp add: zero_page_def is_buddy_def)
  ultimately show ?thesis
    unfolding boot_start_def demo_boot_simps by (auto simp: demo_boot_simps demo_zones demo_span)
qed

lemma demo_init_ok:
  "mm_ok demo_init" "live_zone demo_init i \<longleftrightarrow> i = ZONE_NORMAL" "zone_free demo_init ZONE_NORMAL = {}" "boot_mem demo_init = demo_mb"
  "length (vmemmap demo_init) = 32" "16 \<le> q \<Longrightarrow> q < 32 \<Longrightarrow> vmemmap demo_init ! q = new_page ZONE_NORMAL"
proof -
  obtain s where s: "free_area_init_core 0 demo_boot = Inr s" "boot_done demo_boot (setup_per_cpu_pageset s)"
    using boot_mm_ok [OF demo_boot_start] by blast
  then have D: "boot_done demo_boot demo_init" by (simp add: demo_init_def)
  have L: "live_zone demo_init i \<longleftrightarrow> i = ZONE_NORMAL" for i
  proof (cases "i < MAX_NR_ZONES")
    case True
    then show ?thesis using D by (simp add: boot_done_def demo_zones demo_span)
  qed (auto simp: live_zone_def ZONE_NORMAL_less)
  show "live_zone demo_init i \<longleftrightarrow> i = ZONE_NORMAL" by (rule L)
  show "mm_ok demo_init" "zone_free demo_init ZONE_NORMAL = {}" "boot_mem demo_init = demo_mb" "length (vmemmap demo_init) = 32"
    using D L by (simp_all add: boot_done_def demo_boot_simps)
  assume q: "16 \<le> q" "q < 32"
  note ZONE_NORMAL_less
  with D q have "new_in demo_boot {..<MAX_NR_ZONES} (vmemmap demo_init) q" by (auto simp: boot_done_def demo_zones demo_span)
  then show "vmemmap demo_init ! q = new_page ZONE_NORMAL" by (auto simp: new_in_def demo_zones demo_span split: if_splits)
qed

lemma new_page_1: "zonenum (new_page ZONE_NORMAL) = ZONE_NORMAL" "head_word (new_page ZONE_NORMAL) = None" "\<not> bit (page_flags (new_page ZONE_NORMAL)) PG_head"
  "\<not> bit (page_flags (new_page ZONE_NORMAL)) PG_slab" "refcount (new_page ZONE_NORMAL) = 1"
  by (simp_all add: new_page_simps ZONE_NORMAL_less, simp_all add: new_page_def PG_defs bit_simps)

lemma demo_block: "boot_block demo_init 16 4"
proof -
  have "blk 16 4 = {16..<32}" by (auto simp: blk_def)
  then show ?thesis unfolding boot_block_def
    using demo_init_ok by (auto simp: new_page_1 demo_pfn_valid MAX_ORDER_def)
qed

lemma demo_node_ok:
  "mm_ok demo_node" "live_zone demo_node i \<longleftrightarrow> i = ZONE_NORMAL" "zone_free demo_node ZONE_NORMAL = {16..<32}" "boot_mem demo_node = demo_mb"
  "free_pages_boot_core demo_init 16 4 = Inr demo_node"
proof -
  have Z: "zonenum (vmemmap demo_init ! 16) = ZONE_NORMAL" by (simp add: demo_init_ok new_page_1)
  obtain s where s: "free_pages_boot_core demo_init 16 4 = Inr s" "mm_step demo_init ZONE_NORMAL s" "zone_free s ZONE_NORMAL = {16..<32}"
    using free_pages_boot_core_ok [OF demo_init_ok(1) demo_block] unfolding Z demo_init_ok(3) by (auto simp: blk_def)
  have eq: "demo_node = s" using s(1) by (simp add: demo_node_def memblock_free_pages_def)
  show "mm_ok demo_node" "live_zone demo_node i \<longleftrightarrow> i = ZONE_NORMAL" "zone_free demo_node ZONE_NORMAL = {16..<32}" "boot_mem demo_node = demo_mb"
    "free_pages_boot_core demo_init 16 4 = Inr demo_node"
    using s by (simp_all add: eq mm_step_def demo_init_ok)
qed

text \<open>The same memory as one free block of order 4.\<close>

definition demo_free :: page where
  "demo_free = (new_page ZONE_NORMAL)\<lparr>refcount := 0\<rparr>"

lemma demo_free_simps: "zonenum demo_free = ZONE_NORMAL" "\<not> is_buddy demo_free" "idle ZONE_NORMAL demo_free"
proof -
  have "page_flags demo_free = push_bit 62 1" "refcount demo_free = 0" "head_word demo_free = None"
    by (simp_all add: demo_free_def new_page_def ZONE_NORMAL_def and.commute [of _ "mask 2"] flip: take_bit_eq_mask)
  moreover have "unset_bit 2 (push_bit 62 1) AND mask 7 = (0::64 word)" by (simp add: mask_eq_exp_minus_1 unset_bit_eq_and_not)
  moreover show "zonenum demo_free = ZONE_NORMAL" by (simp add: demo_free_def new_page_1)
  ultimately show "\<not> is_buddy demo_free" "idle ZONE_NORMAL demo_free"
    by (simp_all add: idle_def is_buddy_def check_at_prep_mask PG_defs bit_simps)
qed

definition demo_map :: memmap where
  "demo_map = (replicate 32 demo_free)[16 := put_order 4 demo_free]"

definition demo_lists :: zone where
  "demo_lists = (demo_zone 16 16)\<lparr>initialized := True,
     free_area := (replicate MAX_ORDER \<lparr>free_list = [], nr_free = 0\<rparr>)[4 := \<lparr>free_list = [16], nr_free = 1\<rparr>]\<rparr>"

lemma demo_map_nth: "q < 32 \<Longrightarrow> demo_map ! q = (if q = 16 then put_order 4 else id) demo_free"
  by (simp add: demo_map_def)

lemma demo_buddy_map: "buddy_map demo_map ZONE_NORMAL = [16 \<mapsto> 4]" "cover [16 \<mapsto> 4] = {16..<32}"
proof -
  show "buddy_map demo_map ZONE_NORMAL = [16 \<mapsto> 4]"
  proof
    fix q show "buddy_map demo_map ZONE_NORMAL q = [16 \<mapsto> 4] q"
      by (cases "q < 32") (simp_all add: buddy_map_def demo_map_nth demo_free_simps, simp_all add: demo_map_def demo_free_simps)
  qed
  show "cover [16 \<mapsto> 4] = {16..<32}" by (auto simp: cover_def blk_def split: if_splits)
qed

lemma demo_zone_inv: "zone_inv demo_mb demo_map ZONE_NORMAL demo_lists"
proof -
  have len: "length demo_map = 32" by (simp add: demo_map_def)
  have idl: "idle ZONE_NORMAL (demo_map ! q)" if "q < 32" for q using that by (simp add: demo_map_nth demo_free_simps)
  have "vmem_ok demo_mb demo_map" using idl by (auto simp: vmem_ok_def demo_pfn_valid len idle_def ZONE_NORMAL_less)
  moreover have "lists_ok demo_lists [16 \<mapsto> 4]"
    by (auto simp: lists_ok_def demo_lists_def nth_list_update MAX_ORDER_def split: if_splits)
  moreover have "bmap_ok [16 \<mapsto> 4]"
    by (auto simp: bmap_ok_def MAX_ORDER_def find_buddy_pfn_def split: if_splits)
  moreover have "pages_idle demo_mb demo_map ZONE_NORMAL {16..<32}" using idl by (simp add: pages_idle_def len demo_pfn_valid)
  ultimately show ?thesis unfolding zone_inv_def demo_buddy_map by (simp add: demo_lists_def ZONE_NORMAL_less)
qed

definition demo_free_block :: mm where
  "demo_free_block = demo_boot\<lparr>node_zones := (node_zones demo_boot)[1 := demo_lists], vmemmap := demo_map,
     pagesets := [setup_pageset 0]\<rparr>"

lemma demo_free_block_simps: "vmemmap demo_free_block = demo_map" "length demo_map = 32" "boot_mem demo_free_block = demo_mb"
  "i < MAX_NR_ZONES \<Longrightarrow> node_zones demo_free_block ! i = (if i = ZONE_NORMAL then demo_lists else demo_zone 0 0)"
  "length (node_zones demo_free_block) = MAX_NR_ZONES" "live_zone demo_free_block i \<longleftrightarrow> i = ZONE_NORMAL"
proof -
  show *: "node_zones demo_free_block ! i = (if i = ZONE_NORMAL then demo_lists else demo_zone 0 0)" if "i < MAX_NR_ZONES" for i
    using that by (auto simp: demo_free_block_def demo_boot_def less_3 ZONE_NORMAL_def)
  show "live_zone demo_free_block i \<longleftrightarrow> i = ZONE_NORMAL"
    using ZONE_NORMAL_less by (auto simp: live_zone_def * demo_span demo_lists_def split: if_splits)
qed (simp_all add: demo_free_block_def demo_map_def demo_boot_def MAX_NR_ZONES_def)

lemma demo_free_block_ok: "mm_ok demo_free_block" "descriptors_ok demo_free_block"
proof -
  have ps: "pageset demo_lists = 0" "pagesets demo_free_block = [setup_pageset 0]"
    by (simp_all add: demo_lists_def demo_zone_def demo_free_block_def)
  have "pcp_ok demo_mb demo_map ZONE_NORMAL (setup_pageset 0)"
    by (simp add: pcp_ok_def setup_pageset_def pageset_set_batch_def update_pageset_def pageset_init_def Let_def s32_def
        fresh_def pages_idle_def)
  then show "mm_ok demo_free_block"
    using demo_zone_inv ZONE_NORMAL_less zone_invD(3) [OF demo_zone_inv]
    by (auto simp: mm_ok_def demo_free_block_simps ps pcp_of_def)
  show "descriptors_ok demo_free_block"
    unfolding descriptors_ok_def demo_free_block_simps
    using ZONE_NORMAL_less by (auto simp: in_set_conv_nth demo_free_block_simps demo_map_nth demo_free_simps split: if_splits)
qed

lemma demo_gfp: "gfp_zone 0 = ZONE_NORMAL"
  by (simp add: gfp_zone_def)

section \<open>Properties\<close>

text \<open>No free block of the zone is large enough (for a single page: nothing is free at all).\<close>

definition short_of :: "mm \<Rightarrow> nat \<Rightarrow> nat \<Rightarrow> bool" where
  "short_of s i n \<longleftrightarrow>
     (if n = 0 then zone_free s i = {} else \<not> (\<exists>p m. n \<le> m \<and> buddy_map (vmemmap s) i p = Some m))"

text \<open>No free block of order at least \<open>n\<close> in the zone, or none smaller than \<open>m\<close>.\<close>

definition no_block :: "memmap \<Rightarrow> nat \<Rightarrow> nat \<Rightarrow> nat \<Rightarrow> bool" where
  "no_block v i n m \<longleftrightarrow> \<not> (\<exists>p k. n \<le> k \<and> k < m \<and> buddy_map v i p = Some k)"

text \<open>
  C24: An allocation of \<open>2 ^ n\<close> pages never faults.  It fails only when no free block of the zone
  is large enough, and then it changes nothing; otherwise it returns an aligned block of pages that were
  free, takes exactly these from the free pages of the zone, keeps the invariant of the allocator and the
  free pages of the other zones, hands the pages out with the reference count and the compound marks the
  caller expects, and zeroes their contents if it was asked to.
\<close>
theorem alloc_pages_block:
  assumes "mm_ok s" and "live_zone s (gfp_zone g)" and "n < MAX_ORDER"
  shows "(short_of s (gfp_zone g) n \<and> alloc_pages s g n = Inr (None, s)) \<or>
    (\<exists>p s'. alloc_pages s g n = Inr (Some p, s') \<and> mm_step s (gfp_zone g) s' \<and> held s' p n \<and>
      blk p n \<subseteq> zone_free s (gfp_zone g) \<and> zone_free s' (gfp_zone g) = zone_free s (gfp_zone g) - blk p n \<and>
      changes (zone_free s (gfp_zone g)) (vmemmap s) (vmemmap s') \<and>
      ram s' = (if g AND GFP_ZERO \<noteq> 0 then clear_pages p (2 ^ n) (ram s) else ram s))"
proof -
  have "short_of s (gfp_zone g) n \<longleftrightarrow> (if n = 0 then zone_free s (gfp_zone g) = {}
      else \<forall>p m. n \<le> m \<longrightarrow> buddy_map (vmemmap s) (gfp_zone g) p \<noteq> Some m)" by (auto simp: short_of_def)
  then show ?thesis using alloc_pages_ok [OF assms] by blast
qed

theorem alloc_pages_block_witness:
  "\<exists>p s'. alloc_pages demo_node 0 0 = Inr (Some p, s') \<and> held s' p 0 \<and> 16 \<le> p \<and> p < 32 \<and>
    zone_free s' ZONE_NORMAL = {16..<32} - {p}"
proof -
  have "\<not> short_of demo_node ZONE_NORMAL 0" by (simp add: short_of_def demo_node_ok)
  then show ?thesis
    using alloc_pages_block [of demo_node 0 0] by (auto simp: demo_gfp demo_node_ok MAX_ORDER_def)
qed

text \<open>
  C25: Releasing a block that one caller holds never faults: its pages become free again, the invariant
  of the allocator is kept, and nothing but the descriptors of free pages and of the block changes.
\<close>
theorem free_pages_block:
  assumes "mm_ok s" and "held s p n"
  shows "\<exists>s'. do_free_pages s p n = Inr s' \<and> mm_step s (zonenum (vmemmap s ! p)) s' \<and>
    zone_free s' (zonenum (vmemmap s ! p)) = zone_free s (zonenum (vmemmap s ! p)) \<union> blk p n \<and>
    changes (zone_free s (zonenum (vmemmap s ! p)) \<union> blk p n) (vmemmap s) (vmemmap s')"
  by (rule do_free_pages_ok [OF assms])

text \<open>A state in which a caller holds a page.\<close>

definition demo_taken :: mm where
  "demo_taken = (case alloc_pages demo_node 0 0 of Inr (_, s) \<Rightarrow> s | Inl _ \<Rightarrow> demo_node)"

lemma demo_taken_ok:
  "\<exists>p. mm_ok demo_taken \<and> held demo_taken p 0 \<and> 16 \<le> p \<and> p < 32 \<and> zonenum (vmemmap demo_taken ! p) = ZONE_NORMAL \<and>
    zone_free demo_taken ZONE_NORMAL = {16..<32} - {p}"
proof -
  have "zone_free demo_node ZONE_NORMAL \<noteq> {}" by (simp add: demo_node_ok)
  then obtain p s where A: "alloc_pages demo_node 0 0 = Inr (Some p, s)" "mm_step demo_node ZONE_NORMAL s" "held s p 0"
    "p \<in> {16..<32}" "zone_free s ZONE_NORMAL = {16..<32} - {p}" "changes {16..<32} (vmemmap demo_node) (vmemmap s)"
    using alloc_pages_ok [of demo_node 0 0] by (auto simp: demo_gfp demo_node_ok MAX_ORDER_def)
  have eq: "demo_taken = s" using A(1) by (simp add: demo_taken_def)
  have z: "zonenum (vmemmap s ! p) = ZONE_NORMAL"
    using zone_free_zone [of demo_node ZONE_NORMAL p] A(4,6) by (simp add: demo_node_ok changes_def)
  show ?thesis using A z unfolding eq by (intro exI [of _ p]) (simp add: mm_step_def)
qed

theorem free_pages_block_witness:
  "\<exists>p s'. do_free_pages demo_taken p 0 = Inr s' \<and> mm_ok s' \<and> zone_free s' ZONE_NORMAL = {16..<32}"
proof -
  obtain p where p: "mm_ok demo_taken" "held demo_taken p 0" "p \<in> {16..<32}" "zonenum (vmemmap demo_taken ! p) = ZONE_NORMAL"
    "zone_free demo_taken ZONE_NORMAL = {16..<32} - {p}" using demo_taken_ok by auto
  have "{16..<32} - {p} \<union> {p} = {16..<32::nat}" using p(3) by auto
  then show ?thesis using free_pages_block [OF p(1,2)] unfolding p(4,5) by (auto simp: mm_step_def)
qed

text \<open>
  C26: Any sequence of allocations gives disjoint blocks of free pages, and releasing them all, in the
  order they were taken, succeeds and restores exactly the free pages there were.
\<close>
theorem alloc_free_sequences:
  assumes "mm_ok s" and "live_zone s (gfp_zone g)" and "list_all (\<lambda>n. n < MAX_ORDER) ns"
  shows "\<exists>bs s1 s2. take_all (\<lambda>s. alloc_pages s g) s ns = Inr (bs, s1) \<and> disjoint_blocks bs \<and>
    blocks bs \<subseteq> zone_free s (gfp_zone g) \<and> zone_free s1 (gfp_zone g) = zone_free s (gfp_zone g) - blocks bs \<and>
    give_all do_free_pages s1 bs = Inr s2 \<and> mm_ok s2 \<and> zone_free s2 (gfp_zone g) = zone_free s (gfp_zone g)"
proof -
  have "mm_live (gfp_zone g) s" "\<forall>n\<in>set ns. n < MAX_ORDER" using assms by (simp_all add: mm_live_def list_all_iff)
  from pages.take_give_all [OF this] show ?thesis by (auto simp: mm_live_def)
qed

theorem alloc_free_sequences_witness:
  "\<exists>bs s1 s2. take_all (\<lambda>s. alloc_pages s 0) demo_node [2, 0, 1, 0] = Inr (bs, s1) \<and> disjoint_blocks bs \<and>
    blocks bs \<subseteq> {16..<32} \<and> give_all do_free_pages s1 bs = Inr s2 \<and> zone_free s2 ZONE_NORMAL = {16..<32}"
proof -
  have "list_all (\<lambda>n. n < MAX_ORDER) [2, 0, 1, 0]" by (simp add: MAX_ORDER_def)
  from alloc_free_sequences [OF demo_node_ok(1) _ this, of 0] show ?thesis
    by (auto simp: demo_gfp demo_node_ok)
qed

text \<open>
  C27: Putting a block into the free lists of a zone merges it with its free buddies and keeps the
  invariant of the lists: every list holds exactly the free blocks of its order, aligned and disjoint,
  with the right count, and no two buddies are both free.  The free pages grow by exactly the block.
\<close>
theorem free_one_page_merges:
  assumes "zone_inv mb v i z" and "block_ok mb v i p n"
  shows "\<exists>v' z'. do_free_one_page mb v z p n = Inr (v', z') \<and> zone_inv mb v' i z' \<and>
    cover (buddy_map v' i) = cover (buddy_map v i) \<union> blk p n \<and>
    changes (cover (buddy_map v i) \<union> blk p n) v v' \<and> same_zone z z'"
  by (rule do_free_one_page_ok [OF assms])

lemma demo_rmqueue:
  "\<exists>v z. do_rmqueue demo_map demo_lists 2 = Inr (Some 16, v, z) \<and> zone_inv demo_mb v ZONE_NORMAL z \<and>
    block_ok demo_mb v ZONE_NORMAL 16 2 \<and> cover (buddy_map v ZONE_NORMAL) = {20..<32}"
proof -
  have "\<not> (\<forall>p m. 2 \<le> m \<longrightarrow> ([16 \<mapsto> 4] :: bmap) p \<noteq> Some m)" by (auto intro!: exI [of _ 16])
  then obtain p m v z where R: "rmqueue_smallest_from demo_map demo_lists 2 2 = Inr (Some p, v, z)" "([16 \<mapsto> 4] :: bmap) p = Some m"
    "zone_inv demo_mb v ZONE_NORMAL z" "block_ok demo_mb v ZONE_NORMAL p 2"
    "cover (buddy_map v ZONE_NORMAL) = {16..<32} - blk p 2"
    using rmqueue_smallest_from_ok [OF demo_zone_inv, of 2 2] unfolding demo_buddy_map by blast
  from R(2) have "p = 16" by (simp split: if_splits)
  moreover have "{16..<32} - blk 16 2 = {20..<32}" by (auto simp: blk_def)
  ultimately show ?thesis using R by (simp add: do_rmqueue_def rmqueue_smallest_def)
qed

theorem free_one_page_merges_witness:
  "\<exists>v z v' z'. do_rmqueue demo_map demo_lists 2 = Inr (Some 16, v, z) \<and> do_free_one_page demo_mb v z 16 2 = Inr (v', z') \<and>
    zone_inv demo_mb v' ZONE_NORMAL z' \<and> cover (buddy_map v' ZONE_NORMAL) = {16..<32}"
proof -
  obtain v z where R: "do_rmqueue demo_map demo_lists 2 = Inr (Some 16, v, z)" "zone_inv demo_mb v ZONE_NORMAL z"
    "block_ok demo_mb v ZONE_NORMAL 16 2" "cover (buddy_map v ZONE_NORMAL) = {20..<32}" using demo_rmqueue by blast
  have "{20..<32} \<union> blk 16 2 = {16..<32}" by (auto simp: blk_def)
  then show ?thesis using free_one_page_merges [OF R(2,3)] R(1) unfolding R(4) by metis
qed

text \<open>
  C28: Taking a block of order \<open>n\<close> from the free lists is a best fit: it fails, changing nothing, only when
  no free block is large enough; otherwise it takes the front of a smallest free block that is, splits the
  rest into free blocks and keeps the invariant of the lists.
\<close>
theorem rmqueue_smallest_best_fit:
  assumes "zone_inv mb v i z"
  shows "(no_block v i n MAX_ORDER \<and> do_rmqueue v z n = Inr (None, v, z)) \<or>
    (\<exists>p m v' z'. do_rmqueue v z n = Inr (Some p, v', z') \<and> n \<le> m \<and> buddy_map v i p = Some m \<and> no_block v i n m \<and>
      zone_inv mb v' i z' \<and> block_ok mb v' i p n \<and> cover (buddy_map v' i) = cover (buddy_map v i) - blk p n \<and>
      changes (cover (buddy_map v i)) v v' \<and> same_zone z z')"
proof -
  note R = rmqueue_smallest_from_ok [OF assms order_refl [of n]]
  from R show ?thesis
  proof (elim disjE exE conjE)
    assume "\<forall>p m. n \<le> m \<longrightarrow> buddy_map v i p \<noteq> Some m" "rmqueue_smallest_from v z n n = Inr (None, v, z)"
    then show ?thesis by (auto simp: no_block_def do_rmqueue_def rmqueue_smallest_def)
  next
    fix p m v' z' assume A: "rmqueue_smallest_from v z n n = Inr (Some p, v', z')" "n \<le> m" "buddy_map v i p = Some m"
      "\<forall>q k. n \<le> k \<and> k < m \<longrightarrow> buddy_map v i q \<noteq> Some k" "zone_inv mb v' i z'" "block_ok mb v' i p n"
      "cover (buddy_map v' i) = cover (buddy_map v i) - blk p n" "changes (cover (buddy_map v i)) v v'" "same_zone z z'"
    then have "no_block v i n m" by (auto simp: no_block_def)
    moreover have "do_rmqueue v z n = Inr (Some p, v', z')" using A(1) by (simp add: do_rmqueue_def rmqueue_smallest_def)
    ultimately show ?thesis using A(2,3,5-9) by blast
  qed
qed

theorem rmqueue_smallest_best_fit_witness:
  "\<exists>v z. do_rmqueue demo_map demo_lists 2 = Inr (Some 16, v, z) \<and> cover (buddy_map v ZONE_NORMAL) = {20..<32}"
proof -
  have "\<not> no_block demo_map ZONE_NORMAL 2 MAX_ORDER"
    unfolding no_block_def demo_buddy_map by (auto simp: MAX_ORDER_def intro!: exI [of _ 16])
  then obtain p m v z where R: "do_rmqueue demo_map demo_lists 2 = Inr (Some p, v, z)" "([16 \<mapsto> 4] :: bmap) p = Some m"
    "cover (buddy_map v ZONE_NORMAL) = {16..<32} - blk p 2"
    using rmqueue_smallest_best_fit [OF demo_zone_inv, of 2] unfolding demo_buddy_map by blast
  moreover have "p = 16" using R(2) by (simp split: if_splits)
  moreover have "{16..<32} - blk 16 2 = {20..<32}" by (auto simp: blk_def)
  ultimately show ?thesis by auto
qed

text \<open>
  C29: Setting up the zones and their per-CPU lists from the zone sizes establishes the invariant of the
  allocator, provided that every zone that spans pages also has pages present: it never faults, exactly the
  zones that span pages become usable, no page is free yet, and every page of a zone is in use once, is on
  no free list, and names a zone that spans it.  (The descriptors are not marked reserved, although the
  comments say so: see \<open>boot_pages_not_reserved\<close>.)
\<close>
theorem boot_establishes_invariant:
  assumes "length (node_zones s0) = MAX_NR_ZONES" and "length (vmemmap s0) \<le> 2 ^ 52"
    and "\<forall>q<length (vmemmap s0). \<not> is_buddy (vmemmap s0 ! q)"
    and "\<forall>j<MAX_NR_ZONES. \<not> initialized (node_zones s0 ! j) \<and> span (node_zones s0 ! j) \<subseteq> {..<length (vmemmap s0)}"
    and "\<forall>j<MAX_NR_ZONES. spanned_pages (node_zones s0 ! j) \<noteq> 0 \<longrightarrow> populated_zone (node_zones s0 ! j)"
    and "\<forall>q. pfn_valid (boot_mem s0) q \<longrightarrow> (\<exists>j<MAX_NR_ZONES. q \<in> span (node_zones s0 ! j))"
  shows "\<exists>s t. free_area_init_core d s0 = Inr s \<and> t = setup_per_cpu_pageset s \<and>
    mm_ok t \<and> boot_mem t = boot_mem s0 \<and> length (vmemmap t) = length (vmemmap s0) \<and>
    (\<forall>i<MAX_NR_ZONES. live_zone t i \<longleftrightarrow> spanned_pages (node_zones s0 ! i) \<noteq> 0) \<and>
    (\<forall>i. live_zone t i \<longrightarrow> zone_free t i = {}) \<and>
    (\<forall>j<MAX_NR_ZONES. \<forall>q\<in>span (node_zones s0 ! j).
       refcount (vmemmap t ! q) = 1 \<and> \<not> is_buddy (vmemmap t ! q) \<and>
       zonenum (vmemmap t ! q) < MAX_NR_ZONES \<and> q \<in> span (node_zones s0 ! zonenum (vmemmap t ! q)))"
proof -
  have "boot_start s0" using assms unfolding boot_start_def by blast
  from boot_mm_ok [OF this, of d] obtain s where s: "free_area_init_core d s0 = Inr s"
    "boot_done s0 (setup_per_cpu_pageset s)" by blast
  from s(1) boot_doneD [OF s(2)] show ?thesis by blast
qed

theorem boot_establishes_invariant_witness:
  "\<exists>s t. free_area_init_core 0 demo_boot = Inr s \<and> t = setup_per_cpu_pageset s \<and> mm_ok t \<and>
    live_zone t ZONE_NORMAL \<and> refcount (vmemmap t ! 16) = 1 \<and> \<not> is_buddy (vmemmap t ! 16)"
proof -
  note S = demo_boot_start [unfolded boot_start_def]
  have a: "length (node_zones demo_boot) = MAX_NR_ZONES" "length (vmemmap demo_boot) \<le> 2 ^ 52"
    "\<forall>q<length (vmemmap demo_boot). \<not> is_buddy (vmemmap demo_boot ! q)"
    "\<forall>j<MAX_NR_ZONES. \<not> initialized (node_zones demo_boot ! j) \<and> span (node_zones demo_boot ! j) \<subseteq> {..<length (vmemmap demo_boot)}"
    "\<forall>j<MAX_NR_ZONES. spanned_pages (node_zones demo_boot ! j) \<noteq> 0 \<longrightarrow> populated_zone (node_zones demo_boot ! j)"
    "\<forall>q. pfn_valid (boot_mem demo_boot) q \<longrightarrow> (\<exists>j<MAX_NR_ZONES. q \<in> span (node_zones demo_boot ! j))"
    using S by blast+
  from boot_establishes_invariant [OF a, of 0] obtain s t where st: "free_area_init_core 0 demo_boot = Inr s"
    "t = setup_per_cpu_pageset s" "mm_ok t"
    "\<forall>i<MAX_NR_ZONES. live_zone t i \<longleftrightarrow> spanned_pages (node_zones demo_boot ! i) \<noteq> 0"
    "\<forall>j<MAX_NR_ZONES. \<forall>q\<in>span (node_zones demo_boot ! j). refcount (vmemmap t ! q) = 1 \<and> \<not> is_buddy (vmemmap t ! q)"
    by blast
  have "16 \<in> span (node_zones demo_boot ! ZONE_NORMAL)" using ZONE_NORMAL_less by (simp add: demo_zones demo_span)
  with st ZONE_NORMAL_less have "refcount (vmemmap t ! 16) = 1" "\<not> is_buddy (vmemmap t ! 16)" by blast+
  moreover have "live_zone t ZONE_NORMAL" using st(4) ZONE_NORMAL_less by (simp add: demo_zones demo_span)
  ultimately show ?thesis using st(1-3) by blast
qed

text \<open>
  The comments above \<^verbatim>\<open>memmap_init_zone\<close> and \<^verbatim>\<open>free_area_init_core\<close> say that all pages are marked reserved
  at first; \<^verbatim>\<open>__init_single_page\<close> leaves \<^verbatim>\<open>PG_reserved\<close> clear.
\<close>
lemma boot_pages_not_reserved:
  assumes "boot_start s0" and "free_area_init_core d s0 = Inr s" and "j < MAX_NR_ZONES" and "q \<in> span (node_zones s0 ! j)"
  shows "\<not> bit (page_flags (vmemmap (setup_per_cpu_pageset s) ! q)) PG_reserved"
proof -
  have "boot_done s0 (setup_per_cpu_pageset s)" using boot_mm_ok [OF assms(1), of d] assms(2) by simp
  then have "new_in s0 {..<MAX_NR_ZONES} (vmemmap (setup_per_cpu_pageset s)) q" using assms(3,4) by (simp add: boot_done_def)
  then show ?thesis by (auto simp: new_in_def new_page_def PG_defs bit_simps)
qed

text \<open>
  C30: Dropping the last reference to a block never returns its pages: \<^verbatim>\<open>put_page\<close> decrements the count to
  zero and calls \<^verbatim>\<open>__free_pages\<close>, which tests the count again and hits its check for a count of zero.
\<close>
theorem put_page_last_reference:
  assumes "mm_ok s" and "held s p n"
  shows "put_page s p = Inl Bug"
  by (rule put_page_last [OF assms])

theorem put_page_last_reference_witness:
  "\<exists>p s. alloc_pages demo_node 0 0 = Inr (Some p, s) \<and> put_page s p = Inl Bug"
proof -
  have "zone_free demo_node ZONE_NORMAL \<noteq> {}" by (simp add: demo_node_ok)
  then obtain p s where A: "alloc_pages demo_node 0 0 = Inr (Some p, s)" "mm_step demo_node ZONE_NORMAL s" "held s p 0"
    using alloc_pages_ok [of demo_node 0 0] by (auto simp: demo_gfp demo_node_ok MAX_ORDER_def)
  then show ?thesis using put_page_last_reference [of s p 0] by (auto simp: mm_step_def)
qed

end
