(* ===== verification/Kstrtox.thy ===== *)
theory Kstrtox
  imports Strings_Spec
begin

text \<open>
  Conversion of text to integers, \<^verbatim>\<open>lib/ulib/kstrtox.c\<close>.  A routine returns its code and, where the
  code stores through the result pointer, the value stored (\<open>None\<close>: nothing is stored).
  \<^verbatim>\<open>char\<close> is unsigned on arm64.
\<close>

section \<open>The routines\<close>

definition KSTRTOX_OVERFLOW :: "32 word" where
  "KSTRTOX_OVERFLOW = push_bit 31 1"

definition parse_integer_fixup_radix :: "mem \<Rightarrow> nat \<Rightarrow> nat \<Rightarrow> (nat \<times> nat) res" where
  "parse_integer_fixup_radix m s base =
     rbind
       (if base = 0 then
          rbind (rd m s) (\<lambda>c0.
            if c0 = 48 then
              rbind (rd m (s + 1)) (\<lambda>c1.
                if fast_tolower c1 = 120 then rbind (rd m (s + 2)) (\<lambda>c2. Inr (if isxdigit c2 then 16 else 8))
                else Inr 8)
            else Inr 10)
        else Inr base)
       (\<lambda>base. if base = 16 then
          rbind (rd m s) (\<lambda>c0.
            if c0 = 48 then rbind (rd m (s + 1)) (\<lambda>c1. Inr (if fast_tolower c1 = 120 then s + 2 else s, base))
            else Inr (s, base))
        else Inr (s, base))"

text \<open>The value of a character as a digit of any base up to 16.\<close>

definition digit_val :: "byte \<Rightarrow> nat option" where
  "digit_val c =
     (let lc = c OR 0x20 in
      if 48 \<le> c \<and> c \<le> 57 then Some (unat c - 48)
      else if 97 \<le> lc \<and> lc \<le> 102 then Some (unat lc - 97 + 10)
      else None)"

function parse_integer_loop :: "mem \<Rightarrow> nat \<Rightarrow> nat \<Rightarrow> 64 word \<Rightarrow> 32 word \<Rightarrow> (32 word \<times> 64 word) res" where
  "parse_integer_loop m s base res rv =
     rbind (rd m s) (\<lambda>c. case digit_val c of None \<Rightarrow> Inr (rv, res)
       | Some val \<Rightarrow>
           if val \<ge> base then Inr (rv, res)
           else
             let rv1 = (if res AND push_bit 60 (NOT 0) \<noteq> 0 \<and> res > (- 1 - of_nat val) div of_nat base
                        then rv OR KSTRTOX_OVERFLOW else rv)
             in parse_integer_loop m (s + 1) base (res * of_nat base + of_nat val) (rv1 + 1))"
  by pat_completeness auto
termination by (relation "measure (\<lambda>(m, a, b, r, v). length m - a)") (auto simp: rbind_Inr_iff)

declare parse_integer_loop.simps [simp del]

definition parse_integer :: "mem \<Rightarrow> nat \<Rightarrow> nat \<Rightarrow> (32 word \<times> 64 word) res" where
  "parse_integer m s base = parse_integer_loop m s base 0 0"

definition do_kstrtoull :: "mem \<Rightarrow> nat \<Rightarrow> nat \<Rightarrow> (int \<times> 64 word option) res" where
  "do_kstrtoull m s base =
     rbind (parse_integer_fixup_radix m s base) (\<lambda>(s1, base1).
       rbind (parse_integer m s1 base1) (\<lambda>(rv, res).
         if rv AND KSTRTOX_OVERFLOW \<noteq> 0 then Inr (- ERANGE, None)
         else if rv = 0 then Inr (- EINVAL, None)
         else
           let s2 = s1 + unat rv in
           rbind (rd m s2) (\<lambda>c.
             let s3 = (if c = 10 then s2 + 1 else s2) in
             rbind (rd m s3) (\<lambda>c'. if c' \<noteq> 0 then Inr (- EINVAL, None) else Inr (0, Some res)))))"

definition kstrtoull :: "mem \<Rightarrow> nat \<Rightarrow> nat \<Rightarrow> (int \<times> 64 word option) res" where
  "kstrtoull m s base = rbind (rd m s) (\<lambda>c. do_kstrtoull m (if c = 43 then s + 1 else s) base)"

definition kstrtoll :: "mem \<Rightarrow> nat \<Rightarrow> nat \<Rightarrow> (int \<times> 64 word option) res" where
  "kstrtoll m s base =
     rbind (rd m s) (\<lambda>c.
       if c = 45 then
         rbind (do_kstrtoull m (s + 1) base) (\<lambda>(rv, r). case r of
           None \<Rightarrow> Inr (rv, None)
         | Some tmp \<Rightarrow> if sint (- tmp) > 0 then Inr (- ERANGE, None) else Inr (0, Some (- tmp)))
       else
         rbind (kstrtoull m s base) (\<lambda>(rv, r). case r of
           None \<Rightarrow> Inr (rv, None)
         | Some tmp \<Rightarrow> if sint tmp < 0 then Inr (- ERANGE, None) else Inr (0, Some tmp)))"

text \<open>
  The narrower conversions: a call of the 64-bit one, and a test that the value survives the
  conversion to the narrower type and back.
\<close>

definition kstrtoul :: "mem \<Rightarrow> nat \<Rightarrow> nat \<Rightarrow> (int \<times> 64 word option) res" where
  "kstrtoul m s base = rbind (kstrtoull m s base) (\<lambda>(rv, r). case r of
     None \<Rightarrow> Inr (rv, None)
   | Some tmp \<Rightarrow> if tmp \<noteq> tmp then Inr (- ERANGE, None) else Inr (0, Some tmp))"

definition kstrtol :: "mem \<Rightarrow> nat \<Rightarrow> nat \<Rightarrow> (int \<times> 64 word option) res" where
  "kstrtol m s base = rbind (kstrtoll m s base) (\<lambda>(rv, r). case r of
     None \<Rightarrow> Inr (rv, None)
   | Some tmp \<Rightarrow> if tmp \<noteq> tmp then Inr (- ERANGE, None) else Inr (0, Some tmp))"

definition kstrtouint :: "mem \<Rightarrow> nat \<Rightarrow> nat \<Rightarrow> (int \<times> 32 word option) res" where
  "kstrtouint m s base = rbind (kstrtoull m s base) (\<lambda>(rv, r). case r of
     None \<Rightarrow> Inr (rv, None)
   | Some tmp \<Rightarrow> if tmp \<noteq> ucast (ucast tmp :: 32 word) then Inr (- ERANGE, None) else Inr (0, Some (ucast tmp)))"

definition kstrtoint :: "mem \<Rightarrow> nat \<Rightarrow> nat \<Rightarrow> (int \<times> 32 word option) res" where
  "kstrtoint m s base = rbind (kstrtoll m s base) (\<lambda>(rv, r). case r of
     None \<Rightarrow> Inr (rv, None)
   | Some tmp \<Rightarrow> if tmp \<noteq> scast (ucast tmp :: 32 word) then Inr (- ERANGE, None) else Inr (0, Some (ucast tmp)))"

definition kstrtou16 :: "mem \<Rightarrow> nat \<Rightarrow> nat \<Rightarrow> (int \<times> 16 word option) res" where
  "kstrtou16 m s base = rbind (kstrtoull m s base) (\<lambda>(rv, r). case r of
     None \<Rightarrow> Inr (rv, None)
   | Some tmp \<Rightarrow> if tmp \<noteq> ucast (ucast tmp :: 16 word) then Inr (- ERANGE, None) else Inr (0, Some (ucast tmp)))"

definition kstrtos16 :: "mem \<Rightarrow> nat \<Rightarrow> nat \<Rightarrow> (int \<times> 16 word option) res" where
  "kstrtos16 m s base = rbind (kstrtoll m s base) (\<lambda>(rv, r). case r of
     None \<Rightarrow> Inr (rv, None)
   | Some tmp \<Rightarrow> if tmp \<noteq> scast (ucast tmp :: 16 word) then Inr (- ERANGE, None) else Inr (0, Some (ucast tmp)))"

definition kstrtou8 :: "mem \<Rightarrow> nat \<Rightarrow> nat \<Rightarrow> (int \<times> 8 word option) res" where
  "kstrtou8 m s base = rbind (kstrtoull m s base) (\<lambda>(rv, r). case r of
     None \<Rightarrow> Inr (rv, None)
   | Some tmp \<Rightarrow> if tmp \<noteq> ucast (ucast tmp :: 8 word) then Inr (- ERANGE, None) else Inr (0, Some (ucast tmp)))"

definition kstrtos8 :: "mem \<Rightarrow> nat \<Rightarrow> nat \<Rightarrow> (int \<times> 8 word option) res" where
  "kstrtos8 m s base = rbind (kstrtoll m s base) (\<lambda>(rv, r). case r of
     None \<Rightarrow> Inr (rv, None)
   | Some tmp \<Rightarrow> if tmp \<noteq> scast (ucast tmp :: 8 word) then Inr (- ERANGE, None) else Inr (0, Some (ucast tmp)))"

definition kstrtobool :: "mem \<Rightarrow> nat option \<Rightarrow> (int \<times> bool option) res" where
  "kstrtobool m s = (case s of None \<Rightarrow> Inr (- EINVAL, None)
   | Some a \<Rightarrow> rbind (rd m a) (\<lambda>c0.
       if c0 = 121 \<or> c0 = 89 \<or> c0 = 49 then Inr (0, Some True)
       else if c0 = 110 \<or> c0 = 78 \<or> c0 = 48 then Inr (0, Some False)
       else if c0 = 111 \<or> c0 = 79 then
         rbind (rd m (a + 1)) (\<lambda>c1.
           if c1 = 110 \<or> c1 = 78 then Inr (0, Some True)
           else if c1 = 102 \<or> c1 = 70 then Inr (0, Some False)
           else Inr (- EINVAL, None))
       else Inr (- EINVAL, None)))"

section \<open>What they compute\<close>

text \<open>Character \<open>i\<close> of a string, or its NUL.\<close>

definition chr :: "byte list \<Rightarrow> nat \<Rightarrow> byte" where
  "chr s i = (if i < length s then s ! i else 0)"

lemma rd_chr: "is_str m a s \<Longrightarrow> i \<le> length s \<Longrightarrow> rd m (a + i) = Inr (chr s i)"
  using is_str_bound [of m a s] is_str_nth [of m a s i] is_str_end [of m a s]
  by (cases "i = length s") (simp_all add: chr_def)

text \<open>The base that is used and the number of characters in front of the digits.\<close>

definition radix :: "nat \<Rightarrow> byte list \<Rightarrow> nat \<times> nat" where
  "radix base s =
     (let hex = (chr s 0 = 48 \<and> fast_tolower (chr s 1) = 120);
          b = (if base \<noteq> 0 then base else if chr s 0 \<noteq> 48 then 10 else if hex \<and> isxdigit (chr s 2) then 16 else 8)
      in (b, if b = 16 \<and> hex then 2 else 0))"

lemma chr_nonzero: "chr s i \<noteq> 0 \<Longrightarrow> i < length s"
  by (auto simp: chr_def split: if_splits)

lemma fast_tolower_0: "fast_tolower 0 = 0x20"
  by (simp add: fast_tolower_def)

lemma fixup_radix_ok:
  assumes "is_str m a s"
  shows "parse_integer_fixup_radix m a base = Inr (a + snd (radix base s), fst (radix base s))"
proof -
  have 0: "rd m a = Inr (chr s 0)" using rd_chr [OF assms, of 0] by simp
  have 1: "chr s 0 = 48 \<Longrightarrow> rd m (a + 1) = Inr (chr s 1)"
    using chr_nonzero [of s 0] by (intro rd_chr [OF assms]) (simp add: Suc_le_eq)
  have 2: "fast_tolower (chr s 1) = 120 \<Longrightarrow> rd m (a + 2) = Inr (chr s 2)"
    using chr_nonzero [of s 1] by (intro rd_chr [OF assms]) (cases "chr s 1 = 0", auto simp: fast_tolower_0)
  show ?thesis
    unfolding parse_integer_fixup_radix_def radix_def Let_def
    using 0 1 2 by auto
qed

text \<open>The digits in front of a string, and the number they denote.\<close>

definition is_digit :: "nat \<Rightarrow> byte \<Rightarrow> bool" where
  "is_digit base c = (case digit_val c of None \<Rightarrow> False | Some v \<Rightarrow> v < base)"

definition number :: "nat \<Rightarrow> byte list \<Rightarrow> nat" where
  "number base ds = foldl (\<lambda>n c. n * base + the (digit_val c)) 0 ds"

lemma number_ge: "n \<le> foldl (\<lambda>n c. n * base + the (digit_val c)) n ds" if "1 \<le> base" for n base :: nat
proof (induction ds arbitrary: n)
  case (Cons c ds)
  have "n * 1 \<le> n * base" using that by (intro mult_le_mono2)
  then have "n \<le> n * base + the (digit_val c)" unfolding mult_1_right by (rule trans_le_add1)
  then show ?case using Cons.IH [of "n * base + the (digit_val c)"] by simp
qed simp

text \<open>The counter of digits carries the overflow flag in its top bit.\<close>

definition rv_of :: "bool \<Rightarrow> nat \<Rightarrow> 32 word" where
  "rv_of overflow k = of_nat ((if overflow then 2 ^ 31 else 0) + k)"

lemma rv_of_simps:
  assumes "k < 2 ^ 31"
  shows "rv_of v k OR KSTRTOX_OVERFLOW = rv_of True k" "rv_of v k + 1 = rv_of v (k + 1)"
    "rv_of v k AND KSTRTOX_OVERFLOW \<noteq> 0 \<longleftrightarrow> v" "unat (rv_of False k) = k"
proof -
  have nb: "\<not> bit (of_nat k :: 32 word) 31" using bit_nat_less [OF _ assms, of 31] by (auto simp: bit_of_nat_iff)
  have e: "KSTRTOX_OVERFLOW = 2 ^ 31" by (simp add: KSTRTOX_OVERFLOW_def)
  have "of_nat k AND KSTRTOX_OVERFLOW = 0"
    using nb by (auto simp: KSTRTOX_OVERFLOW_def bit_iff_and_push_bit_not_eq_0)
  then have plus: "of_nat k OR KSTRTOX_OVERFLOW = of_nat k + (2 ^ 31 :: 32 word)"
    using word_plus_and_or [of "of_nat k" KSTRTOX_OVERFLOW] e by simp
  have t: "rv_of True k = of_nat k OR KSTRTOX_OVERFLOW" "rv_of False k = of_nat k"
    unfolding plus by (simp_all add: rv_of_def)
  show "rv_of v k OR KSTRTOX_OVERFLOW = rv_of True k" by (cases v) (simp_all add: t ac_simps)
  show "rv_of v k + 1 = rv_of v (k + 1)" by (simp add: rv_of_def)
  have "bit (of_nat k OR KSTRTOX_OVERFLOW) 31" by (simp add: KSTRTOX_OVERFLOW_def bit_simps)
  then show "rv_of v k AND KSTRTOX_OVERFLOW \<noteq> 0 \<longleftrightarrow> v"
    using nb unfolding KSTRTOX_OVERFLOW_def bit_iff_and_push_bit_not_eq_0 [symmetric]
    by (cases v) (simp_all add: t KSTRTOX_OVERFLOW_def)
  show "unat (rv_of False k) = k" using assms by (simp add: rv_of_def unat_of_nat)
qed

lemma overflow_test:
  fixes n base val :: nat
  assumes "n < 2 ^ 64" and "val < base" and "base \<le> 16"
  defines "x \<equiv> (of_nat n :: 64 word)"
  shows "x AND push_bit 60 (NOT 0) \<noteq> 0 \<and> x > (- 1 - of_nat val) div of_nat base \<longleftrightarrow> 2 ^ 64 \<le> n * base + val"
proof -
  have ux: "unat x = n" using assms(1) by (simp add: x_def unat_of_nat)
  have ub: "unat (of_nat base :: 64 word) = base" "unat (of_nat val :: 64 word) = val"
    using assms(2,3) by (simp_all add: unat_of_nat)
  have "of_nat val \<le> (- 1 :: 64 word)" by (rule word_order.extremum)
  then have um: "unat (- 1 - of_nat val :: 64 word) = 2 ^ 64 - 1 - val" by (simp add: unat_sub ub unsigned_minus_1_eq_mask mask_eq_exp_minus_1)
  have gt: "x > (- 1 - of_nat val) div of_nat base \<longleftrightarrow> (2 ^ 64 - 1 - val) div base < n"
    by (simp add: word_less_nat_alt unat_div um ub ux)
  also have "\<dots> \<longleftrightarrow> 2 ^ 64 - 1 - val < n * base" using assms(2) by (intro div_less_iff_less_mult) simp
  also have "\<dots> \<longleftrightarrow> 2 ^ 64 \<le> n * base + val" using assms(2,3) by auto
  finally have gt: "x > (- 1 - of_nat val) div of_nat base \<longleftrightarrow> 2 ^ 64 \<le> n * base + val" .
  have "2 ^ 60 \<le> n" if "2 ^ 64 \<le> n * base + val"
  proof (rule ccontr)
    assume "\<not> 2 ^ 60 \<le> n"
    then have "n * base + val \<le> (2 ^ 60 - 1) * 16 + 15" using assms(2,3) by (intro add_mono mult_mono) auto
    with that show False by simp
  qed
  moreover have "n < 2 ^ 60" if "x AND push_bit 60 (NOT 0) = 0"
  proof -
    have "push_bit 60 (NOT 0) = NOT (mask 60 :: 64 word)" by (simp add: minus_exp_eq_not_mask push_bit_eq_mult mask_eq_exp_minus_1)
    then have "x AND NOT (mask 60) = 0" using that by simp
    moreover have "x = (x AND NOT (mask 60)) OR (x AND mask 60)" by (rule bit_eqI) (auto simp: bit_simps)
    ultimately have "x = take_bit 60 x" by (simp add: take_bit_eq_mask)
    then have "unat x = take_bit 60 (unat x)" by (metis unsigned_take_bit_eq)
    then show ?thesis using ux take_bit_nat_less_exp by metis
  qed
  ultimately show ?thesis using gt by auto
qed

lemma parse_integer_loop_ok:
  assumes "1 \<le> base" and "base \<le> 16"
  shows "is_str m a s \<Longrightarrow> k + length s < 2 ^ 31 \<Longrightarrow> (\<not> v \<Longrightarrow> n < 2 ^ 64 \<and> res = of_nat n) \<Longrightarrow>
    let ds = takeWhile (is_digit base) s; N = foldl (\<lambda>n c. n * base + the (digit_val c)) n ds in
    \<exists>r. parse_integer_loop m a base res (rv_of v k) = Inr (rv_of (v \<or> 2 ^ 64 \<le> N) (k + length ds), r) \<and>
      (\<not> v \<and> N < 2 ^ 64 \<longrightarrow> r = of_nat N)"
proof (induction s arbitrary: a k v n res)
  case Nil
  then have "rd m a = Inr 0" by simp
  moreover have "digit_val 0 = None" by (simp add: digit_val_def)
  moreover have "(v \<or> 2 ^ 64 \<le> n) = v" using Nil(3) by (cases v) auto
  ultimately show ?case using Nil by (subst parse_integer_loop.simps) (auto simp: Let_def)
next
  case (Cons c s)
  have rd: "rd m a = Inr c" and st: "is_str m (a + 1) s" using Cons.prems(1) by simp_all
  show ?case
  proof (cases "is_digit base c")
    case False
    then have "parse_integer_loop m a base res (rv_of v k) = Inr (rv_of v k, res)"
      using rd by (subst parse_integer_loop.simps) (auto simp: is_digit_def split: option.splits)
    moreover have "(v \<or> 2 ^ 64 \<le> n) = v" using Cons.prems(3) by (cases v) auto
    ultimately show ?thesis using False Cons.prems(3) by (auto simp: Let_def)
  next
    case True
    then obtain d where d: "digit_val c = Some d" "d < base" by (auto simp: is_digit_def split: option.splits)
    let ?res = "res * of_nat base + of_nat d" and ?n = "n * base + d"
    let ?t = "res AND push_bit 60 (NOT 0) \<noteq> 0 \<and> res > (- 1 - of_nat d) div of_nat base"
    define w where "w \<longleftrightarrow> v \<or> ?t"
    have k: "k < 2 ^ 31" "k + 1 + length s < 2 ^ 31" using Cons.prems(2) by simp_all
    have "parse_integer_loop m a base res (rv_of v k) = parse_integer_loop m (a + 1) base ?res (rv_of w (k + 1))"
      using rd d rv_of_simps [OF k(1)] by (subst parse_integer_loop.simps) (auto simp: Let_def w_def)
    moreover have w: "w \<longleftrightarrow> v \<or> 2 ^ 64 \<le> ?n" and nw: "\<not> w \<Longrightarrow> ?n < 2 ^ 64 \<and> ?res = of_nat ?n"
      using Cons.prems(3) overflow_test [OF _ d(2) assms(2), of n] by (auto simp: w_def not_le)
    let ?ds = "takeWhile (is_digit base) s"
    let ?N = "foldl (\<lambda>n c. n * base + the (digit_val c)) ?n ?ds"
    have "\<exists>r. parse_integer_loop m (a + 1) base ?res (rv_of w (k + 1)) = Inr (rv_of (w \<or> 2 ^ 64 \<le> ?N) (k + 1 + length ?ds), r) \<and>
        (\<not> w \<and> ?N < 2 ^ 64 \<longrightarrow> r = of_nat ?N)"
      using Cons.IH [OF st k(2), of w ?n ?res] nw unfolding Let_def by blast
    then obtain r where R: "parse_integer_loop m (a + 1) base ?res (rv_of w (k + 1)) = Inr (rv_of (w \<or> 2 ^ 64 \<le> ?N) (k + 1 + length ?ds), r)"
      "\<not> w \<and> ?N < 2 ^ 64 \<longrightarrow> r = of_nat ?N" by blast
    have ge: "?n \<le> ?N" by (rule number_ge [OF assms(1)])
    have eq: "(w \<or> 2 ^ 64 \<le> ?N) = (v \<or> 2 ^ 64 \<le> ?N)" "\<not> v \<and> ?N < 2 ^ 64 \<Longrightarrow> \<not> w" using w ge by auto
    have tw: "takeWhile (is_digit base) (c # s) = c # ?ds" using True by simp
    have sum: "k + length (c # ?ds) = k + 1 + length ?ds" by simp
    have fl: "foldl (\<lambda>n c. n * base + the (digit_val c)) n (c # ?ds) = ?N" using d by simp
    show ?thesis unfolding Let_def tw sum fl using calculation(1) R eq by auto
  qed
qed

text \<open>
  The conversion as a function of the string: the digits after the sign and the prefix of the base
  make a number, and nothing but one newline may follow them.
\<close>

definition strtoull_spec :: "nat \<Rightarrow> byte list \<Rightarrow> int \<times> nat option" where
  "strtoull_spec base s =
     (let (b, skip) = radix base s;
          ds = takeWhile (is_digit b) (drop skip s);
          rest = dropWhile (is_digit b) (drop skip s)
      in if 2 ^ 64 \<le> number b ds then (- ERANGE, None)
         else if ds = [] \<or> rest \<notin> {[], [10]} then (- EINVAL, None)
         else (0, Some (number b ds)))"

lemma do_kstrtoull_ok:
  assumes s: "is_str m a s" and l: "length s < 2 ^ 31" and b: "base \<le> 16"
  shows "do_kstrtoull m a base = Inr (map_prod id (map_option of_nat) (strtoull_spec base s))"
proof -
  obtain b skip where r: "radix base s = (b, skip)" by (cases "radix base s")
  have b1: "1 \<le> b" "b \<le> 16" "skip \<le> length s"
    using r b chr_nonzero [of s 1] fast_tolower_0 by (cases "chr s 1 = 0"; auto simp: radix_def Let_def split: if_splits)+
  let ?t = "drop skip s"
  let ?ds = "takeWhile (is_digit b) ?t" and ?rest = "dropWhile (is_digit b) ?t"
  have t: "is_str m (a + skip) ?t" by (rule is_str_suffix [OF s b1(3)])
  have len: "length ?ds \<le> length ?t" by (rule length_takeWhile_le)
  have k: "length ?ds < 2 ^ 31" using len l by simp
  obtain res where P: "parse_integer m (a + skip) b = Inr (rv_of (2 ^ 64 \<le> number b ?ds) (length ?ds), res)"
    "number b ?ds < 2 ^ 64 \<Longrightarrow> res = of_nat (number b ?ds)"
  proof -
    have "rv_of False 0 = 0" "0 + length ?t < 2 ^ 31" using l by (simp_all add: rv_of_def)
    then show thesis
      using parse_integer_loop_ok [OF b1(1,2) t, of 0 False 0 0] that
      unfolding parse_integer_def number_def Let_def by auto
  qed
  note F = fixup_radix_ok [OF s, of base] r
  show ?thesis
  proof (cases "2 ^ 64 \<le> number b ?ds")
    case True
    then show ?thesis using F P(1) rv_of_simps(3) [OF k] by (simp add: do_kstrtoull_def strtoull_spec_def Let_def)
  next
    case False
    note U = rv_of_simps(3) [OF k, of False] rv_of_simps(4) [OF k]
    have z: "rv_of False (length ?ds) = 0 \<longleftrightarrow> ?ds = []" using U(2) by (metis length_0_conv unat_eq_zero)
    have rest: "is_str m (a + skip + length ?ds) ?rest"
      using is_str_suffix [OF t len] by (simp add: dropWhile_eq_drop)
    have e: "do_kstrtoull m a base = (if ?ds = [] then Inr (- EINVAL, None)
        else let s2 = a + skip + length ?ds in rbind (rd m s2) (\<lambda>c. let s3 = (if c = 10 then s2 + 1 else s2) in
             rbind (rd m s3) (\<lambda>c'. if c' \<noteq> 0 then Inr (- EINVAL, None) else Inr (0, Some res))))"
      using F P(1) False U z by (simp add: do_kstrtoull_def)
    have "do_kstrtoull m a base = Inr (if ?ds = [] \<or> ?rest \<notin> {[], [10]} then (- EINVAL, None) else (0, Some res))"
      unfolding e using rest by (cases ?rest; cases "tl ?rest") (auto simp: Let_def)
    then show ?thesis using False P(2) r by (auto simp: strtoull_spec_def Let_def)
  qed
qed

end
