(* ===== verification/Kstrtox_Properties.thy ===== *)
theory Kstrtox_Properties
  imports Kstrtox
begin

text \<open>
  The properties of the integer conversions: the 64-bit conversion computes the number a grammar
  assigns to the text, and the typed conversions store exactly that number or refuse it.
\<close>

section \<open>Signs\<close>

definition unplus :: "byte list \<Rightarrow> byte list" where
  "unplus s = (if chr s 0 = 43 then tl s else s)"

text \<open>The number that a text denotes, with its sign, before any type is considered.\<close>

definition unsigned_spec :: "nat \<Rightarrow> byte list \<Rightarrow> int \<times> int option" where
  "unsigned_spec base s = map_prod id (map_option int) (strtoull_spec base (unplus s))"

definition signed_spec :: "nat \<Rightarrow> byte list \<Rightarrow> int \<times> int option" where
  "signed_spec base s =
     (if chr s 0 = 45 then map_prod id (map_option (\<lambda>n. - int n)) (strtoull_spec base (tl s))
      else unsigned_spec base s)"

text \<open>A number outside \<open>{lo..<hi}\<close> is refused with \<^verbatim>\<open>-ERANGE\<close>.\<close>

fun narrow :: "int \<Rightarrow> int \<Rightarrow> int \<times> int option \<Rightarrow> int \<times> int option" where
  "narrow lo hi (rv, None) = (rv, None)"
| "narrow lo hi (rv, Some n) = (if lo \<le> n \<and> n < hi then (0, Some n) else (- ERANGE, None))"

text \<open>What a conversion returns, with the stored value read as a number.\<close>

definition reading :: "('w \<Rightarrow> int) \<Rightarrow> (int \<times> 'w option) res \<Rightarrow> (int \<times> int option) res" where
  "reading f x = map_sum id (map_prod id (map_option f)) x"

lemma reading_Inr [simp]: "reading f (Inr (rv, r)) = Inr (rv, map_option f r)"
  by (simp add: reading_def)

lemma strtoull_range: "strtoull_spec base s = (rv, Some n) \<Longrightarrow> rv = 0 \<and> n < 2 ^ 64"
  by (auto simp: strtoull_spec_def Let_def split: if_splits prod.splits)

lemma is_str_tl: "is_str m a s \<Longrightarrow> chr s 0 = c \<Longrightarrow> c \<noteq> 0 \<Longrightarrow> is_str m (a + 1) (tl s)"
  by (cases s) (auto simp: chr_def)

lemma rd_first: "is_str m a s \<Longrightarrow> rd m a = Inr (chr s 0)"
  using rd_chr [of m a s 0] by simp

lemma kstrtoull_ok:
  assumes "is_str m a s" and "length s < 2 ^ 31" and "base \<le> 16"
  shows "kstrtoull m a base = Inr (map_prod id (map_option of_nat) (strtoull_spec base (unplus s)))"
proof -
  have "is_str m (if chr s 0 = 43 then a + 1 else a) (unplus s)"
    using assms(1) is_str_tl [OF assms(1), of 43] by (simp add: unplus_def)
  moreover have "length (unplus s) < 2 ^ 31" using assms(2) by (auto simp: unplus_def intro: le_less_trans [of _ "length s"])
  ultimately show ?thesis
    using do_kstrtoull_ok [of m _ "unplus s" base] assms(3) rd_first [OF assms(1)] by (simp add: kstrtoull_def)
qed

lemma sint_of_int: "- (2 ^ 63) \<le> k \<Longrightarrow> k < 2 ^ 63 \<Longrightarrow> sint (of_int k :: 64 word) = k"
  by (simp add: signed_of_int signed_take_bit_int_eq_self)

lemma of_int_wrap: "(of_int (k + 2 ^ 64) :: 64 word) = of_int k"
  by (simp add: word_of_int_eq_iff take_bit_eq_mod)

lemma sint_of_nat:
  assumes "n < 2 ^ 64"
  shows "sint (of_nat n :: 64 word) < 0 \<longleftrightarrow> 2 ^ 63 \<le> n" "n < 2 ^ 63 \<Longrightarrow> sint (of_nat n :: 64 word) = int n"
    "sint (- of_nat n :: 64 word) > 0 \<longleftrightarrow> 2 ^ 63 < n" "n \<le> 2 ^ 63 \<Longrightarrow> sint (- of_nat n :: 64 word) = - int n"
proof -
  have e: "(of_nat n :: 64 word) = of_int (int n)" "(- of_nat n :: 64 word) = of_int (- int n)" by simp_all
  have w: "(of_int (int n) :: 64 word) = of_int (int n - 2 ^ 64)" "(of_int (- int n) :: 64 word) = of_int (2 ^ 64 - int n)"
    using of_int_wrap [of "int n - 2 ^ 64"] of_int_wrap [of "- int n"] by (simp_all del: of_int_diff of_int_minus of_int_add)
  show A: "n < 2 ^ 63 \<Longrightarrow> sint (of_nat n :: 64 word) = int n" unfolding e by (intro sint_of_int) auto
  show B: "n \<le> 2 ^ 63 \<Longrightarrow> sint (- of_nat n :: 64 word) = - int n" unfolding e(2) by (intro sint_of_int) auto
  have C: "2 ^ 63 \<le> n \<Longrightarrow> sint (of_nat n :: 64 word) = int n - 2 ^ 64"
    unfolding e(1) w(1) using assms by (intro sint_of_int) auto
  have D: "2 ^ 63 < n \<Longrightarrow> sint (- of_nat n :: 64 word) = 2 ^ 64 - int n"
    unfolding e(2) w(2) using assms by (intro sint_of_int) auto
  show "sint (of_nat n :: 64 word) < 0 \<longleftrightarrow> 2 ^ 63 \<le> n" using A C assms by (cases "n < 2 ^ 63") auto
  show "sint (- of_nat n :: 64 word) > 0 \<longleftrightarrow> 2 ^ 63 < n" using B D assms by (cases "n \<le> 2 ^ 63") auto
qed

lemma reading_kstrtoull:
  assumes "is_str m a s" and "length s < 2 ^ 31" and "base \<le> 16"
  shows "reading uint (kstrtoull m a base) = Inr (unsigned_spec base s)"
proof -
  obtain rv r where s: "strtoull_spec base (unplus s) = (rv, r)" by (cases "strtoull_spec base (unplus s)")
  have "map_option uint (map_option (of_nat :: nat \<Rightarrow> 64 word) r) = map_option int r"
    using strtoull_range [of base "unplus s" rv] s by (cases r) (auto simp: unsigned_of_nat take_bit_nat_eq_self)
  then show ?thesis using kstrtoull_ok [OF assms] s by (simp add: unsigned_spec_def)
qed

lemma reading_kstrtoll:
  assumes "is_str m a s" and "length s < 2 ^ 31" and "base \<le> 16"
  shows "reading sint (kstrtoll m a base) = Inr (narrow (- (2 ^ 63)) (2 ^ 63) (signed_spec base s))"
proof (cases "chr s 0 = 45")
  case True
  have t: "is_str m (a + 1) (tl s)" "length (tl s) < 2 ^ 31" using is_str_tl [OF assms(1) True] assms(2) by simp_all
  obtain rv r where s: "strtoull_spec base (tl s) = (rv, r)" by (cases "strtoull_spec base (tl s)")
  show ?thesis
    using do_kstrtoull_ok [OF t assms(3)] s True rd_first [OF assms(1)] strtoull_range [of base "tl s" rv] sint_of_nat(3,4)
    by (cases r) (auto simp: kstrtoll_def signed_spec_def)
next
  case False
  obtain rv r where s: "strtoull_spec base (unplus s) = (rv, r)" by (cases "strtoull_spec base (unplus s)")
  show ?thesis
    using kstrtoull_ok [OF assms] s False rd_first [OF assms(1)] strtoull_range [of base "unplus s" rv] sint_of_nat(1,2)
    by (cases r) (auto simp: kstrtoll_def signed_spec_def unsigned_spec_def)
qed

section \<open>Narrower types\<close>

locale narrowing =
  fixes wide :: "64 word \<Rightarrow> int" and conv :: "64 word \<Rightarrow> 'w" and wid :: "'w \<Rightarrow> 64 word" and rdw :: "'w \<Rightarrow> int"
    and lo hi :: int
  assumes kept: "t = wid (conv t) \<longleftrightarrow> lo \<le> wide t \<and> wide t < hi"
    and exact: "lo \<le> wide t \<Longrightarrow> wide t < hi \<Longrightarrow> rdw (conv t) = wide t"
begin

lemma narrowed:
  assumes "reading wide x = Inr y"
  shows "reading rdw (rbind x (\<lambda>(rv, r). case r of None \<Rightarrow> Inr (rv, None)
     | Some tmp \<Rightarrow> if tmp \<noteq> wid (conv tmp) then Inr (- ERANGE, None) else Inr (0, Some (conv tmp)))) = Inr (narrow lo hi y)"
proof (cases x)
  case (Inr p)
  obtain rv r where p: "p = (rv, r)" by (cases p)
  then have y: "y = (rv, map_option wide r)" using assms Inr by simp
  show ?thesis unfolding Inr p y using kept exact by (cases r) auto
qed (use assms in \<open>simp add: reading_def\<close>)

end

lemma unsigned_narrowing:
  assumes "LENGTH('a::len) \<le> 64"
  shows "narrowing uint (ucast :: 64 word \<Rightarrow> 'a word) ucast uint 0 (2 ^ LENGTH('a))"
proof
  fix t :: "64 word"
  have c: "uint (ucast t :: 'a word) = take_bit LENGTH('a) (uint t)" by (rule unsigned_ucast_eq)
  have "uint (ucast (ucast t :: 'a word) :: 64 word) = take_bit 64 (uint (ucast t :: 'a word))"
    using unsigned_ucast_eq [where 'a = int and 'c = 64, of "ucast t :: 'a word"] by simp
  then have "uint (ucast (ucast t :: 'a word) :: 64 word) = take_bit LENGTH('a) (uint t)"
    unfolding c using assms by (simp add: min_absorb2)
  then show "t = ucast (ucast t :: 'a word) \<longleftrightarrow> 0 \<le> uint t \<and> uint t < 2 ^ LENGTH('a)"
    by (metis take_bit_int_eq_self_iff word_uint_eq_iff)
  show "uint (ucast t :: 'a word) = uint t" if "0 \<le> uint t" "uint t < 2 ^ LENGTH('a)"
    unfolding c using that by (rule take_bit_int_eq_self)
qed

lemma signed_narrowing:
  assumes "LENGTH('a::len) < 64"
  shows "narrowing sint (ucast :: 64 word \<Rightarrow> 'a word) scast sint (- (2 ^ (LENGTH('a) - 1))) (2 ^ (LENGTH('a) - 1))"
proof
  fix t :: "64 word"
  let ?L = "LENGTH('a) - 1"
  have "sint (ucast t :: 'a word) = signed_take_bit ?L (uint t)" by (simp add: signed_ucast_eq)
  also have "\<dots> = signed_take_bit ?L (sint t)"
    using assms by (intro bit_eqI) (auto simp: bit_simps min_def)
  finally have c: "sint (ucast t :: 'a word) = signed_take_bit ?L (sint t)" .
  have "sint (scast (ucast t :: 'a word) :: 64 word) = signed_take_bit 63 (sint (ucast t :: 'a word))"
    using signed_scast_eq [where 'a = int and 'c = 64, of "ucast t :: 'a word"] by simp
  also have "\<dots> = signed_take_bit ?L (sint t)"
    unfolding c using assms by (simp add: min_absorb2)
  finally have b: "sint (scast (ucast t :: 'a word) :: 64 word) = signed_take_bit ?L (sint t)" .
  have self: "signed_take_bit ?L (sint t) = sint t \<longleftrightarrow> - (2 ^ ?L) \<le> sint t \<and> sint t < 2 ^ ?L"
    by (rule signed_take_bit_int_eq_self_iff)
  show "t = scast (ucast t :: 'a word) \<longleftrightarrow> - (2 ^ ?L) \<le> sint t \<and> sint t < 2 ^ ?L"
    unfolding self [symmetric] b [symmetric] by (metis signed_word_eqI)
  show "sint (ucast t :: 'a word) = sint t" if "- (2 ^ ?L) \<le> sint t" "sint t < 2 ^ ?L"
    unfolding c using that self by blast
qed

interpretation to_u32: narrowing uint "ucast :: 64 word \<Rightarrow> 32 word" ucast uint 0 "2 ^ 32"
  using unsigned_narrowing [where 'a = 32] by simp

interpretation to_s32: narrowing sint "ucast :: 64 word \<Rightarrow> 32 word" scast sint "- (2 ^ 31)" "2 ^ 31"
  using signed_narrowing [where 'a = 32] by simp

interpretation to_u16: narrowing uint "ucast :: 64 word \<Rightarrow> 16 word" ucast uint 0 "2 ^ 16"
  using unsigned_narrowing [where 'a = 16] by simp

interpretation to_s16: narrowing sint "ucast :: 64 word \<Rightarrow> 16 word" scast sint "- (2 ^ 15)" "2 ^ 15"
  using signed_narrowing [where 'a = 16] by simp

interpretation to_u8: narrowing uint "ucast :: 64 word \<Rightarrow> 8 word" ucast uint 0 "2 ^ 8"
  using unsigned_narrowing [where 'a = 8] by simp

interpretation to_s8: narrowing sint "ucast :: 64 word \<Rightarrow> 8 word" scast sint "- (2 ^ 7)" "2 ^ 7"
  using signed_narrowing [where 'a = 8] by simp

lemma kstrtol_eq: "kstrtoul m a base = kstrtoull m a base" "kstrtol m a base = kstrtoll m a base"
  if "kstrtoull m a base = Inr (rv, r)" "r \<noteq> None \<Longrightarrow> rv = 0" "kstrtoll m a base = Inr (rv', r')" "r' \<noteq> None \<Longrightarrow> rv' = 0"
  using that by (auto simp: kstrtoul_def kstrtol_def split: option.splits)

lemma narrow_zero: "narrow lo hi y = (rv, r) \<Longrightarrow> r \<noteq> None \<Longrightarrow> rv = 0"
  by (cases y; cases "snd y") (auto split: if_splits)

section \<open>Properties\<close>

text \<open>
  A memory with the texts ``0x1F'', ``-300'' and ``99999999999999999999''.
\<close>

definition demo_text :: mem where
  "demo_text = [48, 120, 49, 70, 10, 0, 45, 51, 48, 48, 0] @ replicate 20 57 @ [0]"

lemma demo_text_strs: "is_str demo_text 0 [48, 120, 49, 70, 10]" "is_str demo_text 6 [45, 51, 48, 48]"
  "is_str demo_text 11 (replicate 20 57)"
  by code_simp+

text \<open>
  C31: On every text of less than \<open>2 ^ 31\<close> characters and every base up to 16, the conversions to 64 bits
  return what the grammar of numbers says: an optional sign, the prefix of the base, digits, at most one
  newline.  A number that does not fit is refused with -ERANGE whatever follows it, any other text with
  -EINVAL, and nothing is stored then; otherwise the exact number is stored.  The loop with its test for
  overflow in the top four bits only computes the number without wrap-around.
\<close>
theorem kstrtoull_exact:
  assumes "is_str m a s" and "length s < 2 ^ 31" and "base \<le> 16"
  shows "reading uint (kstrtoull m a base) = Inr (unsigned_spec base s) \<and>
    reading sint (kstrtoll m a base) = Inr (narrow (- (2 ^ 63)) (2 ^ 63) (signed_spec base s))"
  using reading_kstrtoull [OF assms] reading_kstrtoll [OF assms] by blast

theorem kstrtoull_exact_witness:
  "reading uint (kstrtoull demo_text 0 0) = Inr (0, Some 31) \<and> reading sint (kstrtoll demo_text 6 10) = Inr (0, Some (- 300)) \<and>
   reading uint (kstrtoull demo_text 11 0) = Inr (- ERANGE, None)"
proof -
  have "unsigned_spec 0 [48, 120, 49, 70, 10] = (0, Some 31)" by code_simp
  moreover have "narrow (- (2 ^ 63)) (2 ^ 63) (signed_spec 10 [45, 51, 48, 48]) = (0, Some (- 300))" by code_simp
  moreover have "unsigned_spec 0 (replicate 20 57) = (- ERANGE, None)" by code_simp
  ultimately show ?thesis
    using kstrtoull_exact [OF demo_text_strs(1), of 0] kstrtoull_exact [OF demo_text_strs(2), of 10]
      kstrtoull_exact [OF demo_text_strs(3), of 0] by simp
qed

text \<open>
  C32: The typed conversions never store a truncated number: each stores the exact number when it lies in the
  range of its type, read at that type, and otherwise returns -ERANGE and stores nothing.
\<close>
theorem kstrto_types:
  assumes "is_str m a s" and "length s < 2 ^ 31" and "base \<le> 16"
  shows "reading uint (kstrtouint m a base) = Inr (narrow 0 (2 ^ 32) (unsigned_spec base s)) \<and>
    reading uint (kstrtou16 m a base) = Inr (narrow 0 (2 ^ 16) (unsigned_spec base s)) \<and>
    reading uint (kstrtou8 m a base) = Inr (narrow 0 (2 ^ 8) (unsigned_spec base s)) \<and>
    reading sint (kstrtoint m a base) = Inr (narrow (- (2 ^ 31)) (2 ^ 31) (signed_spec base s)) \<and>
    reading sint (kstrtos16 m a base) = Inr (narrow (- (2 ^ 15)) (2 ^ 15) (signed_spec base s)) \<and>
    reading sint (kstrtos8 m a base) = Inr (narrow (- (2 ^ 7)) (2 ^ 7) (signed_spec base s)) \<and>
    kstrtoul m a base = kstrtoull m a base \<and> kstrtol m a base = kstrtoll m a base"
proof -
  note U = reading_kstrtoull [OF assms] and S = reading_kstrtoll [OF assms]
  have nn: "narrow lo hi (narrow (- (2 ^ 63)) (2 ^ 63) y) = narrow lo hi y" if "- (2 ^ 63) \<le> lo" "hi \<le> 2 ^ 63" for lo hi y
    using that by (cases y; cases "snd y") auto
  obtain rv r where k: "kstrtoull m a base = Inr (rv, r)" using U by (cases "kstrtoull m a base") (auto simp: reading_def)
  obtain rv' r' where k': "kstrtoll m a base = Inr (rv', r')" using S by (cases "kstrtoll m a base") (auto simp: reading_def)
  have "r \<noteq> None \<Longrightarrow> rv = 0"
    using kstrtoull_ok [OF assms] k strtoull_range by (cases "strtoull_spec base (unplus s)") auto
  moreover have "r' \<noteq> None \<Longrightarrow> rv' = 0"
    using S k' narrow_zero [of "- (2 ^ 63)" "2 ^ 63" "signed_spec base s" rv' "map_option sint r'"] by auto
  ultimately have long: "kstrtoul m a base = kstrtoull m a base" "kstrtol m a base = kstrtoll m a base"
    using kstrtol_eq [OF k _ k'] by blast+
  have n: "narrow (- (2 ^ 31)) (2 ^ 31) (narrow (- (2 ^ 63)) (2 ^ 63) y) = narrow (- (2 ^ 31)) (2 ^ 31) y"
    "narrow (- (2 ^ 15)) (2 ^ 15) (narrow (- (2 ^ 63)) (2 ^ 63) y) = narrow (- (2 ^ 15)) (2 ^ 15) y"
    "narrow (- (2 ^ 7)) (2 ^ 7) (narrow (- (2 ^ 63)) (2 ^ 63) y) = narrow (- (2 ^ 7)) (2 ^ 7) y" for y
    by (rule nn; simp)+
  show ?thesis
    unfolding kstrtouint_def kstrtou16_def kstrtou8_def kstrtoint_def kstrtos16_def kstrtos8_def
    by (intro conjI long to_u32.narrowed [OF U] to_u16.narrowed [OF U] to_u8.narrowed [OF U]
        to_s32.narrowed [OF S, unfolded n(1)] to_s16.narrowed [OF S, unfolded n(2)] to_s8.narrowed [OF S, unfolded n(3)])
qed

theorem kstrto_types_witness:
  "reading uint (kstrtou8 demo_text 0 0) = Inr (0, Some 31) \<and> reading sint (kstrtos8 demo_text 6 10) = Inr (- ERANGE, None) \<and>
   reading sint (kstrtos16 demo_text 6 10) = Inr (0, Some (- 300))"
proof -
  have "unsigned_spec 0 [48, 120, 49, 70, 10] = (0, Some 31)" by code_simp
  moreover have "signed_spec 10 [45, 51, 48, 48] = (0, Some (- 300))" by code_simp
  ultimately show ?thesis
    using kstrto_types [OF demo_text_strs(1), of 0] kstrto_types [OF demo_text_strs(2), of 10] by simp
qed

end
