(* ===== verification/Rbtree.thy ===== *)
theory Rbtree
  imports Kernel_Prelude
begin

text \<open>
  The red-black trees of \<^verbatim>\<open>lib/ulib/rbtree.c\<close>, \<^verbatim>\<open>include/linux/rbtree.h\<close> and
  \<^verbatim>\<open>include/linux/rbree_augmented.h\<close> on a heap of nodes.  A pointer is a 64-bit address, \<^verbatim>\<open>NULL\<close>
  is 0, and a use of an address at which no node lives is a fault.  The parent of a node and its
  colour share one word, as in the code.  The code writes each rebalancing step twice, once for a
  left and once for a right child; the model writes it once, with the side as a parameter.

  The callbacks of augmented trees are functions of the client.  They read the nodes and change data
  of their own (\<open>aug\<close>), which no routine of the tree looks at.
\<close>

section \<open>Nodes\<close>

type_synonym ptr = "64 word"

record rb_node =
  rb_parent_color :: "64 word"
  rb_right :: ptr
  rb_left :: ptr

type_synonym rb_heap = "ptr \<Rightarrow> rb_node option"

text \<open>A tree with the cached pointer to its first node, and the data of the callbacks.\<close>

record 'a rb_state =
  nodes :: rb_heap
  root_node :: ptr
  leftmost :: ptr
  aug :: 'a

datatype side = SLeft | SRight

fun opp :: "side \<Rightarrow> side" where
  "opp SLeft = SRight"
| "opp SRight = SLeft"

definition child :: "side \<Rightarrow> rb_node \<Rightarrow> ptr" where
  "child d n = (case d of SLeft \<Rightarrow> rb_left n | SRight \<Rightarrow> rb_right n)"

definition put_child :: "side \<Rightarrow> ptr \<Rightarrow> rb_node \<Rightarrow> rb_node" where
  "put_child d q n = (case d of SLeft \<Rightarrow> n\<lparr>rb_left := q\<rparr> | SRight \<Rightarrow> n\<lparr>rb_right := q\<rparr>)"

definition node_at :: "('a, 'b) rb_state_scheme \<Rightarrow> ptr \<Rightarrow> rb_node res" where
  "node_at s p = (case nodes s p of None \<Rightarrow> Inl Oob | Some n \<Rightarrow> Inr n)"

definition upd :: "'a rb_state \<Rightarrow> ptr \<Rightarrow> (rb_node \<Rightarrow> rb_node) \<Rightarrow> 'a rb_state res" where
  "upd s p f = (case nodes s p of None \<Rightarrow> Inl Oob | Some n \<Rightarrow> Inr (s\<lparr>nodes := (nodes s)(p \<mapsto> f n)\<rparr>))"

definition set_child :: "'a rb_state \<Rightarrow> side \<Rightarrow> ptr \<Rightarrow> ptr \<Rightarrow> 'a rb_state res" where
  "set_child s d p q = upd s p (put_child d q)"

definition RB_RED :: "64 word" where "RB_RED = 0"
definition RB_BLACK :: "64 word" where "RB_BLACK = 1"

definition pc_parent :: "64 word \<Rightarrow> ptr" where "pc_parent pc = pc AND NOT 3"
definition pc_color :: "64 word \<Rightarrow> 64 word" where "pc_color pc = pc AND 1"
definition pc_is_black :: "64 word \<Rightarrow> bool" where "pc_is_black pc = (pc_color pc \<noteq> 0)"
definition pc_is_red :: "64 word \<Rightarrow> bool" where "pc_is_red pc = (pc_color pc = 0)"

definition rb_parent :: "rb_node \<Rightarrow> ptr" where "rb_parent n = rb_parent_color n AND NOT 3"
definition rb_red_parent :: "rb_node \<Rightarrow> ptr" where "rb_red_parent n = rb_parent_color n"
definition rb_is_red :: "rb_node \<Rightarrow> bool" where "rb_is_red n = pc_is_red (rb_parent_color n)"
definition rb_is_black :: "rb_node \<Rightarrow> bool" where "rb_is_black n = pc_is_black (rb_parent_color n)"

definition RB_EMPTY_NODE :: "ptr \<Rightarrow> rb_node \<Rightarrow> bool" where
  "RB_EMPTY_NODE p n = (rb_parent_color n = p)"

definition rb_set_black :: "'a rb_state \<Rightarrow> ptr \<Rightarrow> 'a rb_state res" where
  "rb_set_black s p = upd s p (\<lambda>n. n\<lparr>rb_parent_color := rb_parent_color n OR RB_BLACK\<rparr>)"

definition rb_set_parent :: "'a rb_state \<Rightarrow> ptr \<Rightarrow> ptr \<Rightarrow> 'a rb_state res" where
  "rb_set_parent s p q = upd s p (\<lambda>n. n\<lparr>rb_parent_color := pc_color (rb_parent_color n) OR q\<rparr>)"

definition rb_set_parent_color :: "'a rb_state \<Rightarrow> ptr \<Rightarrow> ptr \<Rightarrow> 64 word \<Rightarrow> 'a rb_state res" where
  "rb_set_parent_color s p q color = upd s p (\<lambda>n. n\<lparr>rb_parent_color := q OR color\<rparr>)"

definition set_pc :: "'a rb_state \<Rightarrow> ptr \<Rightarrow> 64 word \<Rightarrow> 'a rb_state res" where
  "set_pc s p pc = upd s p (\<lambda>n. n\<lparr>rb_parent_color := pc\<rparr>)"

definition rb_change_child :: "'a rb_state \<Rightarrow> ptr \<Rightarrow> ptr \<Rightarrow> ptr \<Rightarrow> 'a rb_state res" where
  "rb_change_child s old new parent =
     (if parent \<noteq> 0 then
        rbind (node_at s parent) (\<lambda>p.
          if rb_left p = old then set_child s SLeft parent new else set_child s SRight parent new)
      else Inr (s\<lparr>root_node := new\<rparr>))"

definition rb_rotate_set_parents :: "'a rb_state \<Rightarrow> ptr \<Rightarrow> ptr \<Rightarrow> 64 word \<Rightarrow> 'a rb_state res" where
  "rb_rotate_set_parents s old new color =
     rbind (node_at s old) (\<lambda>n.
       rbind (set_pc s new (rb_parent_color n)) (\<lambda>s1.
         rbind (rb_set_parent_color s1 old new color) (\<lambda>s2.
           rb_change_child s2 old new (rb_parent n))))"

definition rb_link_node :: "'a rb_state \<Rightarrow> ptr \<Rightarrow> ptr \<Rightarrow> side \<Rightarrow> 'a rb_state res" where
  "rb_link_node s node parent d =
     rbind (upd s node (\<lambda>n. \<lparr>rb_parent_color = parent, rb_right = 0, rb_left = 0\<rparr>)) (\<lambda>s1.
       if parent \<noteq> 0 then set_child s1 d parent node else Inr (s1\<lparr>root_node := node\<rparr>))"

section \<open>Callbacks\<close>

record 'a rb_augment_callbacks =
  propagate :: "rb_heap \<Rightarrow> ptr \<Rightarrow> ptr \<Rightarrow> 'a \<Rightarrow> 'a"
  acopy :: "rb_heap \<Rightarrow> ptr \<Rightarrow> ptr \<Rightarrow> 'a \<Rightarrow> 'a"
  arotate :: "rb_heap \<Rightarrow> ptr \<Rightarrow> ptr \<Rightarrow> 'a \<Rightarrow> 'a"

definition dummy_callbacks :: "'a rb_augment_callbacks" where
  "dummy_callbacks = \<lparr>propagate = (\<lambda>_ _ _ x. x), acopy = (\<lambda>_ _ _ x. x), arotate = (\<lambda>_ _ _ x. x)\<rparr>"

definition call :: "(rb_heap \<Rightarrow> ptr \<Rightarrow> ptr \<Rightarrow> 'a \<Rightarrow> 'a) \<Rightarrow> 'a rb_state \<Rightarrow> ptr \<Rightarrow> ptr \<Rightarrow> 'a rb_state" where
  "call f s p q = s\<lparr>aug := f (nodes s) p q (aug s)\<rparr>"

section \<open>Insertion\<close>

text \<open>A child that may be missing: nothing is written through \<^verbatim>\<open>NULL\<close>.\<close>

definition unless_null :: "ptr \<Rightarrow> 'a rb_state \<Rightarrow> 'a rb_state res \<Rightarrow> 'a rb_state res" where
  "unless_null p s x = (if p \<noteq> 0 then x else Inr s)"

text \<open>Case 2: the node becomes the parent of its parent, which was on side \<open>d\<close> of the grandparent.\<close>

definition insert_case2 ::
  "(rb_heap \<Rightarrow> ptr \<Rightarrow> ptr \<Rightarrow> 'a \<Rightarrow> 'a) \<Rightarrow> 'a rb_state \<Rightarrow> side \<Rightarrow> ptr \<Rightarrow> ptr \<Rightarrow> (ptr \<times> ptr \<times> 'a rb_state) res" where
  "insert_case2 rot s d node parent =
     rbind (node_at s parent) (\<lambda>p. let tmp = child (opp d) p in
       if node = tmp then
         rbind (node_at s node) (\<lambda>n. let tmp = child d n in
           rbind (set_child s (opp d) parent tmp) (\<lambda>s1.
             rbind (set_child s1 d node parent) (\<lambda>s2.
               rbind (unless_null tmp s2 (rb_set_parent_color s2 tmp parent RB_BLACK)) (\<lambda>s3.
                 rbind (rb_set_parent_color s3 parent node RB_RED) (\<lambda>s4.
                   let s5 = call rot s4 parent node in
                   rbind (node_at s5 node) (\<lambda>n. Inr (node, child (opp d) n, s5)))))))
       else Inr (parent, tmp, s))"

text \<open>Case 3: the parent is rotated over the grandparent.\<close>

definition insert_case3 ::
  "(rb_heap \<Rightarrow> ptr \<Rightarrow> ptr \<Rightarrow> 'a \<Rightarrow> 'a) \<Rightarrow> 'a rb_state \<Rightarrow> side \<Rightarrow> ptr \<Rightarrow> ptr \<Rightarrow> ptr \<Rightarrow> 'a rb_state res" where
  "insert_case3 rot s d gparent parent tmp =
     rbind (set_child s d gparent tmp) (\<lambda>s1.
       rbind (set_child s1 (opp d) parent gparent) (\<lambda>s2.
         rbind (unless_null tmp s2 (rb_set_parent_color s2 tmp gparent RB_BLACK)) (\<lambda>s3.
           rbind (rb_rotate_set_parents s3 gparent parent RB_RED) (\<lambda>s4.
             Inr (call rot s4 gparent parent)))))"

definition is_red_at :: "'a rb_state \<Rightarrow> ptr \<Rightarrow> bool res" where
  "is_red_at s p = (if p = 0 then Inr False else rbind (node_at s p) (\<lambda>n. Inr (rb_is_red n)))"

primrec rb_insert_loop ::
  "nat \<Rightarrow> (rb_heap \<Rightarrow> ptr \<Rightarrow> ptr \<Rightarrow> 'a \<Rightarrow> 'a) \<Rightarrow> 'a rb_state \<Rightarrow> ptr \<Rightarrow> ptr \<Rightarrow> 'a rb_state res" where
  "rb_insert_loop 0 rot s node parent = Inl Fuel"
| "rb_insert_loop (Suc k) rot s node parent =
     (if parent = 0 then rb_set_parent_color s node 0 RB_BLACK
      else rbind (node_at s parent) (\<lambda>p.
        if rb_is_black p then Inr s
        else let gparent = rb_red_parent p in
          rbind (node_at s gparent) (\<lambda>g.
            let d = (if parent \<noteq> rb_right g then SLeft else SRight); tmp = child (opp d) g in
            rbind (is_red_at s tmp) (\<lambda>uncle_red.
              if uncle_red then
                rbind (rb_set_parent_color s tmp gparent RB_BLACK) (\<lambda>s1.
                  rbind (rb_set_parent_color s1 parent gparent RB_BLACK) (\<lambda>s2.
                    rbind (node_at s2 gparent) (\<lambda>g2.
                      rbind (rb_set_parent_color s2 gparent (rb_parent g2) RB_RED) (\<lambda>s3.
                        rb_insert_loop k rot s3 gparent (rb_parent g2)))))
              else
                rbind (insert_case2 rot s d node parent) (\<lambda>(parent, tmp, s1).
                  insert_case3 rot s1 d gparent parent tmp)))))"

definition rb_insert ::
  "nat \<Rightarrow> (rb_heap \<Rightarrow> ptr \<Rightarrow> ptr \<Rightarrow> 'a \<Rightarrow> 'a) \<Rightarrow> 'a rb_state \<Rightarrow> ptr \<Rightarrow> bool \<Rightarrow> 'a rb_state res" where
  "rb_insert k rot s node newleft =
     rbind (node_at s node) (\<lambda>n.
       rb_insert_loop k rot (if newleft then s\<lparr>leftmost := node\<rparr> else s) node (rb_red_parent n))"

definition rb_insert_color :: "nat \<Rightarrow> 'a rb_state \<Rightarrow> ptr \<Rightarrow> 'a rb_state res" where
  "rb_insert_color k s node = rb_insert k (arotate dummy_callbacks) s node False"

definition rb_insert_color_cached :: "nat \<Rightarrow> 'a rb_state \<Rightarrow> ptr \<Rightarrow> bool \<Rightarrow> 'a rb_state res" where
  "rb_insert_color_cached k s node newleft = rb_insert k (arotate dummy_callbacks) s node newleft"

definition rb_insert_augmented :: "nat \<Rightarrow> 'a rb_augment_callbacks \<Rightarrow> 'a rb_state \<Rightarrow> ptr \<Rightarrow> 'a rb_state res" where
  "rb_insert_augmented k cb s node = rb_insert k (arotate cb) s node False"

definition rb_insert_augmented_cached :: "nat \<Rightarrow> 'a rb_augment_callbacks \<Rightarrow> 'a rb_state \<Rightarrow> ptr \<Rightarrow> bool \<Rightarrow> 'a rb_state res" where
  "rb_insert_augmented_cached k cb s node newleft = rb_insert k (arotate cb) s node newleft"

section \<open>Walking\<close>

primrec descend :: "nat \<Rightarrow> 'a rb_state \<Rightarrow> side \<Rightarrow> ptr \<Rightarrow> ptr res" where
  "descend 0 s d n = Inl Fuel"
| "descend (Suc k) s d n =
     rbind (node_at s n) (\<lambda>x. if child d x \<noteq> 0 then descend k s d (child d x) else Inr n)"

primrec ascend :: "nat \<Rightarrow> 'a rb_state \<Rightarrow> side \<Rightarrow> ptr \<Rightarrow> ptr res" where
  "ascend 0 s d n = Inl Fuel"
| "ascend (Suc k) s d n =
     rbind (node_at s n) (\<lambda>x. let parent = rb_parent x in
       if parent = 0 then Inr parent
       else rbind (node_at s parent) (\<lambda>p. if n = child d p then ascend k s d parent else Inr parent))"

definition rb_first :: "nat \<Rightarrow> 'a rb_state \<Rightarrow> ptr res" where
  "rb_first k s = (if root_node s = 0 then Inr 0 else descend k s SLeft (root_node s))"

definition rb_last :: "nat \<Rightarrow> 'a rb_state \<Rightarrow> ptr res" where
  "rb_last k s = (if root_node s = 0 then Inr 0 else descend k s SRight (root_node s))"

text \<open>\<^verbatim>\<open>rb_next\<close> is the walk towards the right, \<^verbatim>\<open>rb_prev\<close> the one towards the left.\<close>

definition rb_step :: "nat \<Rightarrow> 'a rb_state \<Rightarrow> side \<Rightarrow> ptr \<Rightarrow> ptr res" where
  "rb_step k s d node =
     rbind (node_at s node) (\<lambda>n.
       if RB_EMPTY_NODE node n then Inr 0
       else if child d n \<noteq> 0 then descend k s (opp d) (child d n)
       else ascend k s d node)"

definition rb_next :: "nat \<Rightarrow> 'a rb_state \<Rightarrow> ptr \<Rightarrow> ptr res" where
  "rb_next k s node = rb_step k s SRight node"

definition rb_prev :: "nat \<Rightarrow> 'a rb_state \<Rightarrow> ptr \<Rightarrow> ptr res" where
  "rb_prev k s node = rb_step k s SLeft node"

primrec rb_left_deepest_node :: "nat \<Rightarrow> 'a rb_state \<Rightarrow> ptr \<Rightarrow> ptr res" where
  "rb_left_deepest_node 0 s n = Inl Fuel"
| "rb_left_deepest_node (Suc k) s n =
     rbind (node_at s n) (\<lambda>x.
       if rb_left x \<noteq> 0 then rb_left_deepest_node k s (rb_left x)
       else if rb_right x \<noteq> 0 then rb_left_deepest_node k s (rb_right x)
       else Inr n)"

definition rb_next_postorder :: "nat \<Rightarrow> 'a rb_state \<Rightarrow> ptr \<Rightarrow> ptr res" where
  "rb_next_postorder k s node =
     (if node = 0 then Inr 0
      else rbind (node_at s node) (\<lambda>n. let parent = rb_parent n in
        if parent = 0 then Inr parent
        else rbind (node_at s parent) (\<lambda>p.
          if node = rb_left p \<and> rb_right p \<noteq> 0 then rb_left_deepest_node k s (rb_right p) else Inr parent)))"

definition rb_first_postorder :: "nat \<Rightarrow> 'a rb_state \<Rightarrow> ptr res" where
  "rb_first_postorder k s = (if root_node s = 0 then Inr 0 else rb_left_deepest_node k s (root_node s))"

definition rb_replace_node :: "'a rb_state \<Rightarrow> ptr \<Rightarrow> ptr \<Rightarrow> 'a rb_state res" where
  "rb_replace_node s victim new =
     rbind (node_at s victim) (\<lambda>v.
       rbind (upd s new (\<lambda>_. v)) (\<lambda>s1.
         rbind (unless_null (rb_left v) s1 (rb_set_parent s1 (rb_left v) new)) (\<lambda>s2.
           rbind (unless_null (rb_right v) s2 (rb_set_parent s2 (rb_right v) new)) (\<lambda>s3.
             rb_change_child s3 victim new (rb_parent v)))))"

definition rb_replace_node_cached :: "'a rb_state \<Rightarrow> ptr \<Rightarrow> ptr \<Rightarrow> 'a rb_state res" where
  "rb_replace_node_cached s victim new =
     rbind (rb_replace_node s victim new) (\<lambda>s1.
       Inr (if leftmost s1 = victim then s1\<lparr>leftmost := new\<rparr> else s1))"

section \<open>Removal\<close>

text \<open>
  Rebalancing after the removal of a black node.  \<open>d\<close> is the side of the parent that is one black node
  short; the sibling is on the other one.
\<close>

definition erase_case1 ::
  "(rb_heap \<Rightarrow> ptr \<Rightarrow> ptr \<Rightarrow> 'a \<Rightarrow> 'a) \<Rightarrow> 'a rb_state \<Rightarrow> side \<Rightarrow> ptr \<Rightarrow> ptr \<Rightarrow> (ptr \<times> 'a rb_state) res" where
  "erase_case1 rot s d parent sibling =
     rbind (node_at s sibling) (\<lambda>sn.
       if rb_is_red sn then
         let tmp1 = child d sn in
         rbind (set_child s (opp d) parent tmp1) (\<lambda>s1.
           rbind (set_child s1 d sibling parent) (\<lambda>s2.
             rbind (rb_set_parent_color s2 tmp1 parent RB_BLACK) (\<lambda>s3.
               rbind (rb_rotate_set_parents s3 parent sibling RB_RED) (\<lambda>s4.
                 Inr (tmp1, call rot s4 parent sibling)))))
       else Inr (sibling, s))"

definition erase_case3 ::
  "(rb_heap \<Rightarrow> ptr \<Rightarrow> ptr \<Rightarrow> 'a \<Rightarrow> 'a) \<Rightarrow> 'a rb_state \<Rightarrow> side \<Rightarrow> ptr \<Rightarrow> ptr \<Rightarrow> ptr \<Rightarrow> 'a rb_state res" where
  "erase_case3 rot s d parent sibling tmp2 =
     rbind (node_at s tmp2) (\<lambda>t. let tmp1 = child (opp d) t in
       rbind (set_child s d sibling tmp1) (\<lambda>s1.
         rbind (set_child s1 (opp d) tmp2 sibling) (\<lambda>s2.
           rbind (set_child s2 (opp d) parent tmp2) (\<lambda>s3.
             rbind (unless_null tmp1 s3 (rb_set_parent_color s3 tmp1 sibling RB_BLACK)) (\<lambda>s4.
               Inr (call rot s4 sibling tmp2))))))"

definition erase_case4 ::
  "(rb_heap \<Rightarrow> ptr \<Rightarrow> ptr \<Rightarrow> 'a \<Rightarrow> 'a) \<Rightarrow> 'a rb_state \<Rightarrow> side \<Rightarrow> ptr \<Rightarrow> ptr \<Rightarrow> ptr \<Rightarrow> 'a rb_state res" where
  "erase_case4 rot s d parent sibling tmp1 =
     rbind (node_at s sibling) (\<lambda>sn. let tmp2 = child d sn in
       rbind (set_child s (opp d) parent tmp2) (\<lambda>s1.
         rbind (set_child s1 d sibling parent) (\<lambda>s2.
           rbind (rb_set_parent_color s2 tmp1 sibling RB_BLACK) (\<lambda>s3.
             rbind (unless_null tmp2 s3 (rb_set_parent s3 tmp2 parent)) (\<lambda>s4.
               rbind (rb_rotate_set_parents s4 parent sibling RB_BLACK) (\<lambda>s5.
                 Inr (call rot s5 parent sibling)))))))"

primrec rb_erase_color ::
  "nat \<Rightarrow> (rb_heap \<Rightarrow> ptr \<Rightarrow> ptr \<Rightarrow> 'a \<Rightarrow> 'a) \<Rightarrow> 'a rb_state \<Rightarrow> ptr \<Rightarrow> ptr \<Rightarrow> 'a rb_state res" where
  "rb_erase_color 0 rot s node parent = Inl Fuel"
| "rb_erase_color (Suc k) rot s node parent =
     rbind (node_at s parent) (\<lambda>p.
       let d = (if node \<noteq> rb_right p then SLeft else SRight) in
       rbind (erase_case1 rot s d parent (child (opp d) p)) (\<lambda>(sibling, s).
         rbind (node_at s sibling) (\<lambda>sn. let tmp1 = child (opp d) sn in
           rbind (is_red_at s tmp1) (\<lambda>red1.
             if red1 then erase_case4 rot s d parent sibling tmp1
             else let tmp2 = child d sn in
               rbind (is_red_at s tmp2) (\<lambda>red2.
                 if red2 then
                   rbind (erase_case3 rot s d parent sibling tmp2) (\<lambda>s1.
                     erase_case4 rot s1 d parent tmp2 sibling)
                 else
                   rbind (rb_set_parent_color s sibling parent RB_RED) (\<lambda>s1.
                     rbind (node_at s1 parent) (\<lambda>p.
                       if rb_is_red p then rb_set_black s1 parent
                       else if rb_parent p \<noteq> 0 then rb_erase_color k rot s1 parent (rb_parent p)
                       else Inr s1)))))))"

text \<open>The successor of a node with two children, and its parent: the walk down the left children of the
  right child.\<close>

primrec successor_loop :: "nat \<Rightarrow> 'a rb_state \<Rightarrow> ptr \<Rightarrow> ptr \<Rightarrow> (ptr \<times> ptr) res" where
  "successor_loop 0 s successor tmp = Inl Fuel"
| "successor_loop (Suc k) s successor tmp =
     rbind (node_at s tmp) (\<lambda>t.
       if rb_left t \<noteq> 0 then successor_loop k s tmp (rb_left t) else Inr (successor, tmp))"

text \<open>The unlinking of the successor: its parent afterwards, itself and its right child.\<close>

definition take_successor ::
  "nat \<Rightarrow> 'a rb_augment_callbacks \<Rightarrow> 'a rb_state \<Rightarrow> ptr \<Rightarrow> ptr \<Rightarrow> (ptr \<times> ptr \<times> ptr \<times> 'a rb_state) res" where
  "take_successor k cb s node right_child =
     rbind (node_at s right_child) (\<lambda>c.
       if rb_left c = 0 then Inr (right_child, right_child, rb_right c, call (acopy cb) s node right_child)
       else
         rbind (successor_loop k s right_child (rb_left c)) (\<lambda>(parent, successor).
           rbind (node_at s successor) (\<lambda>sn. let child2 = rb_right sn in
             rbind (set_child s SLeft parent child2) (\<lambda>s1.
               rbind (set_child s1 SRight successor right_child) (\<lambda>s2.
                 rbind (rb_set_parent s2 right_child successor) (\<lambda>s3.
                   Inr (parent, successor, child2,
                        call (propagate cb) (call (acopy cb) s3 node successor) parent successor)))))))"

text \<open>\<^verbatim>\<open>__rb_erase_augmented\<close>: the node at which to rebalance (0: none) and the new state.\<close>

definition erase_node ::
  "nat \<Rightarrow> 'a rb_augment_callbacks \<Rightarrow> 'a rb_state \<Rightarrow> ptr \<Rightarrow> (ptr \<times> ptr \<times> 'a rb_state) res" where
  "erase_node k cb s node =
     rbind (node_at s node) (\<lambda>n. let pc = rb_parent_color n; parent = pc_parent pc in
       if rb_left n = 0 then
         rbind (rb_change_child s node (rb_right n) parent) (\<lambda>s1.
           if rb_right n \<noteq> 0 then rbind (set_pc s1 (rb_right n) pc) (\<lambda>s2. Inr (0, parent, s2))
           else Inr (if pc_is_black pc then parent else 0, parent, s1))
       else if rb_right n = 0 then
         rbind (set_pc s (rb_left n) pc) (\<lambda>s1.
           rbind (rb_change_child s1 node (rb_left n) parent) (\<lambda>s2. Inr (0, parent, s2)))
       else
         rbind (take_successor k cb s node (rb_right n)) (\<lambda>(parent, successor, child2, s1).
           rbind (node_at s1 node) (\<lambda>n1.
             rbind (set_child s1 SLeft successor (rb_left n1)) (\<lambda>s2.
               rbind (rb_set_parent s2 (rb_left n1) successor) (\<lambda>s3.
                 rbind (node_at s3 node) (\<lambda>n3. let pc = rb_parent_color n3 in
                   rbind (rb_change_child s3 node successor (pc_parent pc)) (\<lambda>s4.
                     if child2 \<noteq> 0 then
                       rbind (set_pc s4 successor pc) (\<lambda>s5.
                         rbind (rb_set_parent_color s5 child2 parent RB_BLACK) (\<lambda>s6. Inr (0, successor, s6)))
                     else
                       rbind (node_at s4 successor) (\<lambda>sn.
                         rbind (set_pc s4 successor pc) (\<lambda>s5.
                           Inr (if rb_is_black sn then parent else 0, successor, s5))))))))))"

definition rb_erase_augmented_core ::
  "nat \<Rightarrow> 'a rb_augment_callbacks \<Rightarrow> 'a rb_state \<Rightarrow> ptr \<Rightarrow> bool \<Rightarrow> (ptr \<times> 'a rb_state) res" where
  "rb_erase_augmented_core k cb s node cached =
     rbind (if cached \<and> node = leftmost s then rbind (rb_next k s node) (\<lambda>q. Inr (s\<lparr>leftmost := q\<rparr>)) else Inr s) (\<lambda>s1.
       rbind (erase_node k cb s1 node) (\<lambda>(rebalance, tmp, s2). Inr (rebalance, call (propagate cb) s2 tmp 0)))"

definition rb_erase_with :: "nat \<Rightarrow> 'a rb_augment_callbacks \<Rightarrow> 'a rb_state \<Rightarrow> ptr \<Rightarrow> bool \<Rightarrow> 'a rb_state res" where
  "rb_erase_with k cb s node cached =
     rbind (rb_erase_augmented_core k cb s node cached) (\<lambda>(rebalance, s1).
       if rebalance \<noteq> 0 then rb_erase_color k (arotate cb) s1 0 rebalance else Inr s1)"

definition rb_erase :: "nat \<Rightarrow> 'a rb_state \<Rightarrow> ptr \<Rightarrow> 'a rb_state res" where
  "rb_erase k s node = rb_erase_with k dummy_callbacks s node False"

definition rb_erase_cached :: "nat \<Rightarrow> 'a rb_state \<Rightarrow> ptr \<Rightarrow> 'a rb_state res" where
  "rb_erase_cached k s node = rb_erase_with k dummy_callbacks s node True"

definition rb_erase_augmented :: "nat \<Rightarrow> 'a rb_augment_callbacks \<Rightarrow> 'a rb_state \<Rightarrow> ptr \<Rightarrow> 'a rb_state res" where
  "rb_erase_augmented k cb s node = rb_erase_with k cb s node False"

definition rb_erase_augmented_cached :: "nat \<Rightarrow> 'a rb_augment_callbacks \<Rightarrow> 'a rb_state \<Rightarrow> ptr \<Rightarrow> 'a rb_state res" where
  "rb_erase_augmented_cached k cb s node = rb_erase_with k cb s node True"

end
