(* ===== verification/Rbtree_Abs.thy ===== *)
theory Rbtree_Abs
  imports Rbtree
begin

text \<open>
  Red-black trees as values: the rebalancing of \<^verbatim>\<open>lib/ulib/rbtree.c\<close> on a tree with a hole (a path of
  frames from the hole to the root), and that it keeps the order of the nodes and the red-black
  properties.
\<close>

section \<open>Trees and paths\<close>

datatype color = Red | Black

datatype rbt = Leaf | Node rbt color ptr rbt

text \<open>A frame is a node on the path, with the side of the hole, and the subtree on the other side.\<close>

datatype frame = Frame side color ptr rbt

fun mk :: "side \<Rightarrow> rbt \<Rightarrow> color \<Rightarrow> ptr \<Rightarrow> rbt \<Rightarrow> rbt" where
  "mk SLeft t c a u = Node t c a u"
| "mk SRight t c a u = Node u c a t"

fun plug :: "frame list \<Rightarrow> rbt \<Rightarrow> rbt" where
  "plug [] t = t"
| "plug (Frame d c a u # fs) t = plug fs (mk d t c a u)"

fun inorder :: "rbt \<Rightarrow> ptr list" where
  "inorder Leaf = []"
| "inorder (Node l c a r) = inorder l @ a # inorder r"

fun pre :: "frame list \<Rightarrow> ptr list" where
  "pre [] = []"
| "pre (Frame d c a u # fs) = pre fs @ (if d = SRight then inorder u @ [a] else [])"

fun post :: "frame list \<Rightarrow> ptr list" where
  "post [] = []"
| "post (Frame d c a u # fs) = (if d = SLeft then a # inorder u else []) @ post fs"

lemma inorder_plug: "inorder (plug fs t) = pre fs @ inorder t @ post fs"
proof (induction fs arbitrary: t)
  case (Cons f fs)
  obtain d c a u where f: "f = Frame d c a u" by (cases f)
  show ?case using Cons.IH by (cases d) (simp_all add: f)
qed simp

lemma plug_append: "plug (gs @ fs) t = plug fs (plug gs t)"
proof (induction gs arbitrary: t)
  case (Cons f gs)
  then show ?case by (cases f) simp
qed simp

fun col :: "rbt \<Rightarrow> color" where
  "col Leaf = Black"
| "col (Node l c a r) = c"

fun root :: "rbt \<Rightarrow> ptr" where
  "root Leaf = 0"
| "root (Node l c a r) = a"

fun near :: "side \<Rightarrow> rbt \<Rightarrow> rbt" where
  "near SLeft (Node l c a r) = l"
| "near SRight (Node l c a r) = r"
| "near d Leaf = Leaf"

fun paint :: "color \<Rightarrow> rbt \<Rightarrow> rbt" where
  "paint c Leaf = Leaf"
| "paint c (Node l c' a r) = Node l c a r"

abbreviation far :: "side \<Rightarrow> rbt \<Rightarrow> rbt" where
  "far d \<equiv> near (opp d)"

lemma mk_simps [simp]:
  "mk d t c a u \<noteq> Leaf" "Leaf \<noteq> mk d t c a u" "col (mk d t c a u) = c" "root (mk d t c a u) = a"
  "near d (mk d t c a u) = t" "near (opp d) (mk d t c a u) = u" "paint c' (mk d t c a u) = mk d t c' a u"
  by (cases d; simp)+

lemma opp_simps [simp]: "opp (opp d) = d" "opp d \<noteq> d" "d \<noteq> opp d" "mk (opp d) t c a u = mk d u c a t"
  by (cases d; simp)+

lemma mk_near: "t \<noteq> Leaf \<Longrightarrow> mk d (near d t) (col t) (root t) (near (opp d) t) = t"
  by (cases t; cases d) simp_all

lemma tree_cases_mk:
  obtains "t = Leaf" | x c a y where "t = mk d x c a y"
  using mk_near [of t d] by metis

lemma paint_simps [simp]: "paint c (paint c' t) = paint c t" "root (paint c t) = root t" "inorder (paint c t) = inorder t"
  "near d (paint c t) = near d t" "paint c t = Leaf \<longleftrightarrow> t = Leaf" "t \<noteq> Leaf \<Longrightarrow> col (paint c t) = c"
  by (cases t; cases d; simp)+

lemma col_paint_Black [simp]: "col (paint Black t) = Black"
  by (cases t) simp_all

lemma paint_same: "col t = c \<Longrightarrow> paint c t = t"
  by (cases t) simp_all

section \<open>Red-black properties\<close>

fun bh :: "rbt \<Rightarrow> nat" where
  "bh Leaf = 0"
| "bh (Node l c a r) = bh l + (if c = Black then 1 else 0)"

fun invc :: "rbt \<Rightarrow> bool" where
  "invc Leaf = True"
| "invc (Node l c a r) \<longleftrightarrow> (c = Red \<longrightarrow> col l = Black \<and> col r = Black) \<and> invc l \<and> invc r"

fun invh :: "rbt \<Rightarrow> bool" where
  "invh Leaf = True"
| "invh (Node l c a r) \<longleftrightarrow> bh l = bh r \<and> invh l \<and> invh r"

text \<open>Valid below the root, and with a black root.\<close>

definition wft :: "rbt \<Rightarrow> bool" where
  "wft t \<longleftrightarrow> invc t \<and> invh t"

definition is_rbt :: "rbt \<Rightarrow> bool" where
  "is_rbt t \<longleftrightarrow> wft t \<and> col t = Black"

lemma wft_Leaf [simp]: "wft Leaf"
  by (simp add: wft_def)

lemma wft_mk: "wft (mk d t c a u) \<longleftrightarrow> (c = Red \<longrightarrow> col t = Black \<and> col u = Black) \<and> bh t = bh u \<and> wft t \<and> wft u"
  by (cases d) (auto simp: wft_def)

lemma bh_mk: "bh t = bh u \<Longrightarrow> bh (mk d t c a u) = bh t + (if c = Black then 1 else 0)"
  by (cases d) simp_all

lemma inorder_mk: "inorder (mk d t c a u) = (if d = SLeft then inorder t @ a # inorder u else inorder u @ a # inorder t)"
  by (cases d) simp_all

lemma wft_paint: "wft t \<Longrightarrow> wft (paint Black t)"
  by (cases t) (auto simp: wft_def)

lemma bh_paint_Red: "wft t \<Longrightarrow> col t = Red \<Longrightarrow> bh (paint Black t) = Suc (bh t)"
  by (cases t) auto

lemma neq_Black [simp]: "c \<noteq> Black \<longleftrightarrow> c = Red" "c \<noteq> Red \<longleftrightarrow> c = Black"
  by (cases c; simp)+

lemma neq_side [simp]: "d \<noteq> SLeft \<longleftrightarrow> d = SRight" "d \<noteq> SRight \<longleftrightarrow> d = SLeft"
  by (cases d; simp)+

text \<open>Replacing a subtree by one that is no worse.\<close>

definition fits :: "rbt \<Rightarrow> rbt \<Rightarrow> bool" where
  "fits t t' \<longleftrightarrow> wft t' \<and> bh t' = bh t \<and> (col t' = Red \<longrightarrow> col t = Red)"

lemma fits_mk: "wft (mk d t c a u) \<Longrightarrow> fits t t' \<Longrightarrow> fits (mk d t c a u) (mk d t' c b u)"
  by (auto simp: fits_def wft_mk bh_mk)

lemma plug_wft_sub: "wft (plug fs t) \<Longrightarrow> wft t"
proof (induction fs arbitrary: t)
  case (Cons f fs)
  obtain d c a u where f: "f = Frame d c a u" by (cases f)
  show ?case using Cons.IH [of "mk d t c a u"] Cons.prems by (simp add: f wft_mk)
qed simp

lemma plug_fits: "wft (plug fs t) \<Longrightarrow> fits t t' \<Longrightarrow> fits (plug fs t) (plug fs t')"
proof (induction fs arbitrary: t t')
  case (Cons f fs)
  obtain d c a u where f: "f = Frame d c a u" by (cases f)
  have w: "wft (plug fs (mk d t c a u))" using Cons.prems(1) by (simp add: f)
  from Cons.IH [OF w fits_mk [OF plug_wft_sub [OF w] Cons.prems(2)]] show ?case by (simp add: f)
qed simp

lemma is_rbt_plug_fits: "is_rbt (plug fs t) \<Longrightarrow> fits t t' \<Longrightarrow> is_rbt (plug fs t')"
  using plug_fits [of fs t t'] by (auto simp: is_rbt_def fits_def)

lemma is_rbt_sub: "is_rbt (plug fs t) \<Longrightarrow> wft t"
  using plug_wft_sub by (auto simp: is_rbt_def)

section \<open>Height\<close>

fun hgt :: "rbt \<Rightarrow> nat" where
  "hgt Leaf = 0"
| "hgt (Node l c a r) = Suc (max (hgt l) (hgt r))"

lemma hgt_mk: "hgt (mk d t c a u) = Suc (max (hgt t) (hgt u))"
  by (cases d) simp_all

lemma hgt_plug: "length fs + hgt t \<le> hgt (plug fs t)"
proof (induction fs arbitrary: t)
  case (Cons f fs)
  obtain d c a u where f: "f = Frame d c a u" by (cases f)
  show ?case using Cons.IH [of "mk d t c a u"] by (simp add: f hgt_mk)
qed simp

text \<open>The height is at most twice the logarithm of the number of nodes.\<close>

lemma hgt_bh: "wft t \<Longrightarrow> hgt t \<le> 2 * bh t + (if col t = Red then 1 else 0)"
  by (induction t) (auto simp: wft_def split: if_splits)

lemma bh_size: "wft t \<Longrightarrow> 2 ^ bh t \<le> length (inorder t) + 1"
proof (induction t)
  case (Node l c a r)
  have w: "wft l" "wft r" "bh l = bh r" using Node.prems by (simp_all add: wft_def)
  have "2 * 2 ^ bh l \<le> length (inorder l) + 1 + (length (inorder r) + 1)" using Node.IH w by simp
  moreover have "(2 :: nat) ^ bh (Node l c a r) \<le> 2 * 2 ^ bh l" by simp
  ultimately show ?case by simp
qed simp

lemma hgt_log: "is_rbt t \<Longrightarrow> 2 ^ hgt t \<le> (length (inorder t) + 1) ^ 2"
proof -
  assume "is_rbt t"
  then have "hgt t \<le> bh t + bh t" "wft t" using hgt_bh [of t] by (simp_all add: is_rbt_def)
  then have "(2 :: nat) ^ hgt t \<le> 2 ^ (bh t + bh t)" by (intro power_increasing) simp_all
  also have "\<dots> = 2 ^ bh t * 2 ^ bh t" by (simp add: power_add)
  also have "\<dots> \<le> (length (inorder t) + 1) * (length (inorder t) + 1)" by (intro mult_le_mono bh_size) fact+
  finally show ?thesis by (simp add: power2_eq_square)
qed

section \<open>Insertion\<close>

fun ins_fix :: "frame list \<Rightarrow> rbt \<Rightarrow> rbt" where
  "ins_fix [] t = paint Black t"
| "ins_fix [f] t = plug [f] t"
| "ins_fix (Frame d c a u # Frame e cg g v # fs) t =
     (if c = Black then plug (Frame d c a u # Frame e cg g v # fs) t
      else if col v = Red then ins_fix fs (mk e (mk d t Black a u) Red g (paint Black v))
      else plug fs
        (if d = e then mk e t cg a (mk e (paint Black u) Red g v)
         else mk e (mk e u Red a (paint Black (near e t))) cg (root t) (mk e (paint Black (far e t)) Red g v)))"

lemma ins_fix_inorder: "t \<noteq> Leaf \<Longrightarrow> inorder (ins_fix fs t) = inorder (plug fs t)"
proof (induction fs t rule: ins_fix.induct)
  case (3 d c a u e cg g v fs t)
  obtain x ct n y where t: "t = mk e x ct n y" using 3(2) by (rule_tac t = t and d = e in tree_cases_mk) auto
  show ?case using 3(1) by (cases d; cases e) (auto simp: inorder_plug t)
qed simp_all

lemma ins_fix_ok:
  "is_rbt (plug fs t0) \<Longrightarrow> col t0 = Black \<Longrightarrow> wft t \<Longrightarrow> bh t = bh t0 \<Longrightarrow> col t = Red \<Longrightarrow> is_rbt (ins_fix fs t)"
proof (induction fs t arbitrary: t0 rule: ins_fix.induct)
  case (1 t)
  then show ?case by (simp add: is_rbt_def wft_paint)
next
  case (2 f t)
  obtain d c a u where f: "f = Frame d c a u" by (cases f)
  have "is_rbt (mk d t0 c a u)" using 2(1) by (simp add: f)
  then show ?case using 2 by (simp add: f is_rbt_def wft_mk)
next
  case (3 d c a u e cg g v fs t)
  let ?T = "mk e (mk d t0 c a u) cg g v"
  have P: "is_rbt (plug fs ?T)" using 3(2) by simp
  have w: "wft ?T" by (rule is_rbt_sub [OF P])
  obtain x ct n y where t: "t = mk e x ct n y" using 3(6) by (rule_tac t = t and d = e in tree_cases_mk) auto
  show ?case
  proof (cases "c = Black")
    case True
    then have "fits ?T (mk e (mk d t c a u) cg g v)" using w 3(3-5) by (auto simp: fits_def wft_mk bh_mk)
    from is_rbt_plug_fits [OF P this] True show ?thesis by simp
  next
    case False
    then have c: "c = Red" "cg = Black" "col u = Black" "wft u" "wft v" "bh u = bh t" "bh v = bh t"
      using w 3(3-5) by (auto simp: wft_mk bh_mk)
    show ?thesis
    proof (cases "col v = Red")
      case True
      have "is_rbt (ins_fix fs (mk e (mk d t Black a u) Red g (paint Black v)))"
        by (rule 3(1) [OF _ True P]) (use c True 3(3-5) w in \<open>auto simp: wft_mk bh_mk wft_paint bh_paint_Red\<close>)
      then show ?thesis using c True by simp
    next
      case v: False
      let ?t1 = "mk e t cg a (mk e (paint Black u) Red g v)"
      let ?t2 = "mk e (mk e u Red a (paint Black (near e t))) cg (root t) (mk e (paint Black (far e t)) Red g v)"
      have "fits ?T (if d = e then ?t1 else ?t2)"
        using c v w 3(3-6) t by (auto simp: fits_def wft_mk bh_mk paint_same)
      from is_rbt_plug_fits [OF P this] show ?thesis using c v by (auto split: if_splits)
    qed
  qed
qed

section \<open>Removal\<close>

text \<open>
  The subtree \<open>t\<close> on side \<open>d\<close> of the parent \<open>p\<close> is one black node short, its sibling \<open>S\<close> is black.  The
  first component of the result says that the whole subtree still is.
\<close>

definition bal_del :: "side \<Rightarrow> color \<Rightarrow> rbt \<Rightarrow> ptr \<Rightarrow> rbt \<Rightarrow> bool \<times> rbt" where
  "bal_del d cp t p S =
     (if col (far d S) = Red then (False, mk d (mk d t Black p (near d S)) cp (root S) (paint Black (far d S)))
      else if col (near d S) = Red then
        (False, mk d (mk d t Black p (near d (near d S))) cp (root (near d S))
           (mk d (paint Black (far d (near d S))) Black (root S) (far d S)))
      else (cp = Black, mk d t Black p (paint Red S)))"

fun del_fix :: "frame list \<Rightarrow> rbt \<Rightarrow> rbt" where
  "del_fix [] t = t"
| "del_fix (Frame d c p S # fs) t =
     (if col S = Red then
        plug (Frame d c (root S) (far d S) # fs) (snd (bal_del d Red t p (paint Black (near d S))))
      else if fst (bal_del d c t p S) then del_fix fs (snd (bal_del d c t p S))
      else plug fs (snd (bal_del d c t p S)))"

lemma bal_del_inorder: "S \<noteq> Leaf \<Longrightarrow> inorder (snd (bal_del d c t p S)) = inorder (mk d t c p S)"
proof -
  assume "S \<noteq> Leaf"
  then obtain x cs s y where S: "S = mk d x cs s y" by (rule_tac t = S and d = d in tree_cases_mk) auto
  consider "x = Leaf" | xx cx xs xy where "x = mk d xx cx xs xy" by (rule tree_cases_mk)
  then show ?thesis by cases (cases d; auto simp: bal_del_def S)+
qed

lemma del_fix_inorder:
  "wft (plug fs t0) \<Longrightarrow> 0 < bh t0 \<Longrightarrow> inorder (del_fix fs t) = inorder (plug fs t)"
proof (induction fs t arbitrary: t0 rule: del_fix.induct)
  case (2 d c p S fs t)
  have w: "wft (plug fs (mk d t0 c p S))" using 2(2) by simp
  then have wS: "wft (mk d t0 c p S)" by (rule plug_wft_sub)
  then have S0: "S \<noteq> Leaf" using 2(3) by (auto simp: wft_mk)
  then obtain x cs s y where S: "S = mk d x cs s y" by (rule_tac t = S and d = d in tree_cases_mk) auto
  have x: "x \<noteq> Leaf" if "cs = Red" using that wS 2(3) by (auto simp: S wft_mk bh_mk)
  show ?case
  proof (cases "cs = Red")
    case True
    then have "inorder (del_fix (Frame d c p S # fs) t) = pre fs @ inorder (mk d (snd (bal_del d Red t p (paint Black x))) c s y) @ post fs"
      by (simp add: S inorder_plug)
    also have "\<dots> = inorder (plug (Frame d c p S # fs) t)"
      using x [OF True] by (cases d) (simp_all add: S inorder_plug bal_del_inorder)
    finally show ?thesis .
  next
    case False
    have "inorder (del_fix fs (snd (bal_del d c t p S))) = inorder (plug fs (snd (bal_del d c t p S)))"
      if "fst (bal_del d c t p S)"
      by (rule 2(1) [OF _ that w]) (use False wS 2(3) in \<open>auto simp: S bh_mk wft_mk\<close>)
    then show ?thesis using False S0 by (auto simp: inorder_plug bal_del_inorder S)
  qed
qed simp

lemma bal_del_ok:
  assumes w: "wft (mk d t0 c p S)" and t: "wft t" "col t = Black" "bh t0 = Suc (bh t)" and S: "col S = Black"
  defines "r \<equiv> bal_del d c t p S"
  shows "wft (snd r)" "fst r \<Longrightarrow> bh (mk d t0 c p S) = Suc (bh (snd r)) \<and> c = Black \<and> col (snd r) = Black"
    "\<not> fst r \<Longrightarrow> bh (snd r) = bh (mk d t0 c p S) \<and> (col (snd r) = Red \<longrightarrow> c = Red)"
proof -
  have "S \<noteq> Leaf" using w t(3) by (auto simp: wft_mk)
  then obtain x cs s y where Sx: "S = mk d x cs s y" by (rule_tac t = S and d = d in tree_cases_mk) auto
  have b: "bh t0 = bh S" "wft S" "cs = Black" "wft x" "wft y" "bh x = bh t" "bh y = bh t"
    using w t(3) S by (auto simp: Sx wft_mk bh_mk)
  have xx: "x = mk d (near d x) (col x) (root x) (far d x)" if "col x = Red" using mk_near [of x d] that by (cases x) auto
  then have xw: "wft (near d x) \<and> wft (far d x) \<and> bh (near d x) = bh t \<and> bh (far d x) = bh t \<and>
      col (near d x) = Black \<and> col (far d x) = Black" if "col x = Red"
    using that b(4,6) wft_mk [of d "near d x" "col x" "root x" "far d x"] bh_mk [of "near d x" "far d x" d "col x" "root x"] by auto
  show "wft (snd r)" "fst r \<Longrightarrow> bh (mk d t0 c p S) = Suc (bh (snd r)) \<and> c = Black \<and> col (snd r) = Black"
    "\<not> fst r \<Longrightarrow> bh (snd r) = bh (mk d t0 c p S) \<and> (col (snd r) = Red \<longrightarrow> c = Red)"
    unfolding r_def bal_del_def using b t xw
    by (auto simp: Sx wft_mk bh_mk wft_paint bh_paint_Red paint_same split: if_splits)
qed

lemma del_fix_ok:
  "is_rbt (plug fs t0) \<Longrightarrow> wft t \<Longrightarrow> col t = Black \<Longrightarrow> bh t0 = Suc (bh t) \<Longrightarrow> col t0 = Black \<Longrightarrow> is_rbt (del_fix fs t)"
proof (induction fs t arbitrary: t0 rule: del_fix.induct)
  case (1 t)
  then show ?case by (simp add: is_rbt_def)
next
  case (2 d c p S fs t)
  let ?T = "mk d t0 c p S"
  have P: "is_rbt (plug fs ?T)" using 2(2) by simp
  then have w: "wft ?T" by (rule is_rbt_sub)
  show ?case
  proof (cases "col S = Red")
    case True
    then obtain x s y where S: "S = mk d x Red s y" by (rule_tac t = S and d = d in tree_cases_mk) auto
    let ?r = "bal_del d Red t p (paint Black x)"
    have b: "c = Black" "col x = Black" "col y = Black" "wft x" "wft y" "wft t0" "bh x = bh t0" "bh y = bh t0"
      using w by (auto simp: S wft_mk bh_mk)
    have w2: "wft (mk d t0 Red p x)" using b 2(6) by (simp add: wft_mk)
    note B = bal_del_ok [OF w2 2(3-5) b(2)]
    have "\<not> fst (bal_del d Red t p x)" using B(2) by blast
    then have "fits ?T (mk d (snd (bal_del d Red t p x)) c s y)"
      using B(1,3) b w by (auto simp: fits_def wft_mk bh_mk S)
    from is_rbt_plug_fits [OF P this] show ?thesis using b(2) by (simp add: S paint_same)
  next
    case False
    then have S: "col S = Black" by simp
    note B = bal_del_ok [OF w 2(3-5) S]
    show ?thesis
    proof (cases "fst (bal_del d c t p S)")
      case True
      have "is_rbt (del_fix fs (snd (bal_del d c t p S)))"
        by (rule 2(1) [OF _ True P B(1)]) (use B(2) [OF True] False in auto)
      then show ?thesis using True False by simp
    next
      case F: False
      have "fits ?T (snd (bal_del d c t p S))" using B F False by (simp add: fits_def)
      from is_rbt_plug_fits [OF P this] F False show ?thesis by simp
    qed
  qed
qed

text \<open>The leftmost node of a tree, with the path to it.\<close>

fun left_path :: "frame list \<Rightarrow> rbt \<Rightarrow> frame list \<times> rbt" where
  "left_path fs Leaf = (fs, Leaf)"
| "left_path fs (Node l c a r) = (if l = Leaf then (fs, Node l c a r) else left_path (Frame SLeft c a r # fs) l)"

lemma left_path_plug: "left_path fs t = (gs, m) \<Longrightarrow> plug gs m = plug fs t"
  by (induction fs t rule: left_path.induct) (auto split: if_splits)

lemma left_path_min: "left_path fs t = (gs, m) \<Longrightarrow> t \<noteq> Leaf \<Longrightarrow> \<exists>c a r. m = Node Leaf c a r"
  by (induction fs t rule: left_path.induct) (auto split: if_splits)

lemma left_path_pre: "left_path fs t = (gs, m) \<Longrightarrow> pre gs = pre fs"
  by (induction fs t rule: left_path.induct) (auto split: if_splits)

lemma left_path_append: "left_path (fs @ hs) t = (let (gs, m) = left_path fs t in (gs @ hs, m))"
proof (induction fs t rule: left_path.induct)
  case (2 fs l c a r)
  then show ?case by (cases "l = Leaf") (simp_all add: case_prod_beta)
qed simp

text \<open>Taking out a node with at most one child: what is in the hole, and whether that is too short.\<close>

definition cut :: "frame list \<Rightarrow> color \<Rightarrow> rbt \<Rightarrow> rbt" where
  "cut fs c t = (if t \<noteq> Leaf then plug fs (paint Black t) else if c = Black then del_fix fs Leaf else plug fs Leaf)"

definition erase_at :: "frame list \<Rightarrow> rbt \<Rightarrow> color \<Rightarrow> ptr \<Rightarrow> rbt \<Rightarrow> rbt" where
  "erase_at fs l c n r =
     (if l = Leaf then cut fs c r
      else if r = Leaf then cut fs c l
      else let (gs, m) = left_path [] r in cut (gs @ Frame SRight c (root m) l # fs) (col m) (near SRight m))"

lemma lone_child:
  assumes "wft (mk d t c n Leaf)" and "t \<noteq> Leaf"
  shows "c = Black" "col t = Red"
proof -
  have "bh t = 0" and red: "c = Red \<Longrightarrow> col t = Black" using assms(1) by (auto simp: wft_mk)
  then show "col t = Red" using assms(2) by (cases t) (auto split: if_splits)
  then show "c = Black" using red by (cases c) auto
qed

lemma cut_ok:
  assumes P: "is_rbt (plug fs (mk d t c n Leaf))"
  shows "is_rbt (cut fs c t)" "inorder (cut fs c t) = inorder (plug fs t)"
proof -
  have w: "wft (mk d t c n Leaf)" by (rule is_rbt_sub [OF P])
  show "is_rbt (cut fs c t)"
  proof (cases "t = Leaf")
    case True
    have "fits (mk d Leaf Red n Leaf) Leaf" by (simp add: fits_def bh_mk)
    then have red: "c = Red \<Longrightarrow> is_rbt (plug fs Leaf)" using is_rbt_plug_fits P True by metis
    have "c = Black \<Longrightarrow> is_rbt (del_fix fs Leaf)" by (rule del_fix_ok [OF P]) (simp_all add: True bh_mk)
    then show ?thesis using red True by (cases c) (simp_all add: cut_def)
  next
    case False
    note L = lone_child [OF w False]
    have "fits (mk d t c n Leaf) (paint Black t)"
      using w L by (auto simp: fits_def wft_mk wft_paint bh_paint_Red bh_mk)
    from is_rbt_plug_fits [OF P this] show ?thesis using False by (simp add: cut_def)
  qed
  have "c = Black \<Longrightarrow> t = Leaf \<Longrightarrow> inorder (del_fix fs Leaf) = inorder (plug fs Leaf)"
    by (rule del_fix_inorder [of fs "mk d t c n Leaf"]) (use P in \<open>simp_all add: is_rbt_def bh_mk\<close>)
  then show "inorder (cut fs c t) = inorder (plug fs t)" by (auto simp: cut_def inorder_plug)
qed

lemma erase_at_ok:
  assumes P: "is_rbt (plug fs (Node l c n r))"
  shows "is_rbt (erase_at fs l c n r)" "inorder (erase_at fs l c n r) = pre fs @ inorder l @ inorder r @ post fs"
proof -
  have "is_rbt (erase_at fs l c n r) \<and> inorder (erase_at fs l c n r) = pre fs @ inorder l @ inorder r @ post fs"
  proof (cases "l = Leaf \<or> r = Leaf")
    case True
    then show ?thesis
      using cut_ok [of fs SRight r c n] cut_ok [of fs SLeft l c n] P
      by (cases "l = Leaf") (auto simp: erase_at_def inorder_plug)
  next
    case False
    obtain gs m where g: "left_path [] r = (gs, m)" by (cases "left_path [] r")
    obtain cm s y where m: "m = Node Leaf cm s y" using left_path_min [OF g] False by blast
    let ?full = "gs @ Frame SRight c s l # fs"
    have rp: "r = plug gs m" "pre gs = []" using left_path_plug [OF g] left_path_pre [OF g] by simp_all
    have "fits (Node l c n r) (Node l c s r)" using is_rbt_sub [OF P] by (auto simp: fits_def wft_def)
    from is_rbt_plug_fits [OF P this] have "is_rbt (plug ?full (mk SRight y cm s Leaf))"
      by (simp add: plug_append rp(1) m)
    note C = cut_ok [OF this]
    have "inorder r = s # inorder y @ post gs" by (simp add: rp inorder_plug m)
    moreover have "inorder (plug ?full y) = pre fs @ inorder l @ s # inorder y @ post gs @ post fs"
      by (simp add: plug_append inorder_plug rp)
    ultimately show ?thesis using C False g by (simp add: erase_at_def m)
  qed
  then show "is_rbt (erase_at fs l c n r)" "inorder (erase_at fs l c n r) = pre fs @ inorder l @ inorder r @ post fs"
    by blast+
qed

end
