(* ===== verification/Rbtree_Heap.thy ===== *)
theory Rbtree_Heap
  imports Rbtree_Abs
begin

text \<open>
  When a heap of nodes holds a tree, and that the routines of \<^verbatim>\<open>lib/ulib/rbtree.c\<close> refine the
  operations on trees.
\<close>

section \<open>The word with parent and colour\<close>

text \<open>A node is aligned to eight bytes and is not at address 0.\<close>

definition good :: "ptr \<Rightarrow> bool" where
  "good a \<longleftrightarrow> a \<noteq> 0 \<and> a AND 7 = 0"

fun colw :: "color \<Rightarrow> 64 word" where
  "colw Red = RB_RED"
| "colw Black = RB_BLACK"

definition pc_of :: "ptr \<Rightarrow> color \<Rightarrow> 64 word" where
  "pc_of par c = par OR colw c"

lemma good_bits: "a AND 7 = 0 \<Longrightarrow> i < 3 \<Longrightarrow> \<not> bit a i" for a :: "64 word"
proof -
  assume "a AND 7 = 0" "i < 3"
  have "(7 :: 64 word) = mask 3" by (simp add: mask_eq_exp_minus_1)
  then have "a AND mask 3 = 0" using \<open>a AND 7 = 0\<close> by simp
  from arg_cong [OF this, of "\<lambda>x. bit x i"] show ?thesis using \<open>i < 3\<close> by (auto simp: bit_simps)
qed

lemma pc_simps:
  assumes "par = 0 \<or> good par"
  shows "pc_parent (pc_of par c) = par" "pc_color (pc_of par c) = colw c"
    "pc_is_black (pc_of par c) \<longleftrightarrow> c = Black" "pc_is_red (pc_of par c) \<longleftrightarrow> c = Red"
    "pc_of par Red = par" "pc_of par c OR RB_BLACK = pc_of par Black"
proof -
  have a: "par AND 7 = 0" using assms by (auto simp: good_def)
  note b = good_bits [OF a]
  have m: "(3 :: 64 word) = mask 2" "(1 :: 64 word) = mask 1" by (simp_all add: mask_eq_exp_minus_1)
  have c: "colw c = (if c = Black then 1 else 0)" by (cases c) (simp_all add: RB_RED_def RB_BLACK_def)
  show "pc_parent (pc_of par c) = par"
    unfolding pc_parent_def pc_of_def c m(1) by (rule bit_eqI) (use b in \<open>auto simp: bit_simps bit_1_iff\<close>)
  show k: "pc_color (pc_of par c) = colw c"
    unfolding pc_color_def pc_of_def c
    by (rule bit_eqI) (use b [of 0] in \<open>auto simp: bit_simps bit_1_iff intro!: gr0I\<close>)
  show "pc_is_black (pc_of par c) \<longleftrightarrow> c = Black" "pc_is_red (pc_of par c) \<longleftrightarrow> c = Red"
    unfolding pc_is_black_def pc_is_red_def k by (cases c; simp add: RB_RED_def RB_BLACK_def)+
  show "pc_of par Red = par" by (simp add: pc_of_def RB_RED_def)
  show "pc_of par c OR RB_BLACK = pc_of par Black"
    by (cases c) (simp_all add: pc_of_def RB_RED_def or.assoc)
qed

section \<open>Nodes seen from one side\<close>

definition nd :: "side \<Rightarrow> 64 word \<Rightarrow> ptr \<Rightarrow> ptr \<Rightarrow> rb_node" where
  "nd d pc x y = (case d of SLeft \<Rightarrow> \<lparr>rb_parent_color = pc, rb_right = y, rb_left = x\<rparr>
     | SRight \<Rightarrow> \<lparr>rb_parent_color = pc, rb_right = x, rb_left = y\<rparr>)"

lemma nd_simps [simp]:
  "rb_parent_color (nd d pc x y) = pc" "child d (nd d pc x y) = x" "child (opp d) (nd d pc x y) = y"
  "put_child d q (nd d pc x y) = nd d pc q y" "put_child (opp d) q (nd d pc x y) = nd d pc x q"
  "rb_left (nd d pc x y) = (if d = SLeft then x else y)" "rb_right (nd d pc x y) = (if d = SLeft then y else x)"
  "nd d pc x y\<lparr>rb_parent_color := pc'\<rparr> = nd d pc' x y"
  by (cases d; simp add: nd_def child_def put_child_def)+

lemma nd_opp: "nd (opp d) pc x y = nd d pc y x"
  by (cases d) (simp_all add: nd_def)

section \<open>Trees in the heap\<close>

fun rep :: "rb_heap \<Rightarrow> ptr \<Rightarrow> rbt \<Rightarrow> bool" where
  "rep h par Leaf = True"
| "rep h par (Node l c a r) \<longleftrightarrow> good a \<and> h a = Some (nd SLeft (pc_of par c) (root l) (root r)) \<and> rep h a l \<and> rep h a r"

fun top_of :: "frame list \<Rightarrow> ptr" where
  "top_of [] = 0"
| "top_of (Frame d c a u # fs) = a"

fun repc :: "rb_heap \<Rightarrow> ptr \<Rightarrow> frame list \<Rightarrow> bool" where
  "repc h p [] = True"
| "repc h p (Frame d c a u # fs) \<longleftrightarrow>
     good a \<and> h a = Some (nd d (pc_of (top_of fs) c) p (root u)) \<and> rep h a u \<and> repc h a fs"

lemma rep_mk: "rep h par (mk d t c a u) \<longleftrightarrow>
    good a \<and> h a = Some (nd d (pc_of par c) (root t) (root u)) \<and> rep h a t \<and> rep h a u"
  by (cases d) (auto simp: nd_opp [of SLeft, simplified])

lemma rep_plug: "rep h 0 (plug fs t) \<longleftrightarrow> repc h (root t) fs \<and> rep h (top_of fs) t"
proof (induction fs arbitrary: t)
  case (Cons f fs)
  obtain d c a u where f: "f = Frame d c a u" by (cases f)
  show ?case using Cons.IH by (auto simp: f rep_mk)
qed simp

abbreviation addrs :: "rbt \<Rightarrow> ptr set" where
  "addrs t \<equiv> set (inorder t)"

definition fset :: "frame list \<Rightarrow> ptr set" where
  "fset fs = set (pre fs) \<union> set (post fs)"

lemma fset_simps [simp]: "fset [] = {}" "fset (Frame d c a u # fs) = insert a (addrs u \<union> fset fs)"
  by (auto simp: fset_def)

lemma addrs_mk [simp]: "addrs (mk d t c a u) = insert a (addrs t \<union> addrs u)"
  by (cases d) auto

lemma addrs_plug: "addrs (plug fs t) = fset fs \<union> addrs t"
  by (auto simp: inorder_plug fset_def)

lemma rep_cong: "\<forall>a\<in>addrs t. h' a = h a \<Longrightarrow> rep h' par t = rep h par t"
  by (induction t arbitrary: par) auto

lemma repc_cong: "\<forall>a\<in>fset fs. h' a = h a \<Longrightarrow> repc h' p fs = repc h p fs"
proof (induction fs arbitrary: p)
  case (Cons f fs)
  then show ?case using rep_cong [of _ h' h] by (cases f) auto
qed simp

lemma rep_upd [simp]: "a \<notin> addrs t \<Longrightarrow> rep (h(a := x)) par t = rep h par t"
  by (rule rep_cong) auto

lemma repc_upd [simp]: "a \<notin> fset fs \<Longrightarrow> repc (h(a := x)) p fs = repc h p fs"
  by (rule repc_cong) auto

lemma rep_good: "rep h par t \<Longrightarrow> a \<in> addrs t \<Longrightarrow> good a"
  by (induction t arbitrary: par) auto

lemma repc_top: "repc h p fs \<Longrightarrow> top_of fs = 0 \<or> good (top_of fs)"
  by (cases fs rule: top_of.cases) auto

lemma root_addrs: "t \<noteq> Leaf \<Longrightarrow> root t \<in> addrs t"
  by (cases t) auto

lemma root_zero: "rep h par t \<Longrightarrow> root t = 0 \<longleftrightarrow> t = Leaf"
  by (cases t) (auto simp: good_def)

text \<open>No node occurs twice.\<close>

lemma distinct_mk: "distinct (inorder (mk d t c a u)) \<longleftrightarrow>
    distinct (inorder t) \<and> distinct (inorder u) \<and> a \<notin> addrs t \<and> a \<notin> addrs u \<and> addrs t \<inter> addrs u = {}"
  by (cases d) auto

fun dfs :: "frame list \<Rightarrow> bool" where
  "dfs [] = True"
| "dfs (Frame d c a u # fs) \<longleftrightarrow>
     distinct (inorder u) \<and> a \<notin> addrs u \<and> a \<notin> fset fs \<and> addrs u \<inter> fset fs = {} \<and> dfs fs"

lemma distinct_plug: "distinct (inorder (plug fs t)) \<longleftrightarrow> dfs fs \<and> distinct (inorder t) \<and> addrs t \<inter> fset fs = {}"
proof (induction fs arbitrary: t)
  case (Cons f fs)
  obtain d c a u where f: "f = Frame d c a u" by (cases f)
  show ?case unfolding f plug.simps Cons.IH distinct_mk by auto
qed simp

section \<open>Elementary steps\<close>

lemma node_at_Inr: "nodes s p = Some n \<Longrightarrow> node_at s p = Inr n"
  by (simp add: node_at_def)

lemma upd_Inr: "nodes s p = Some n \<Longrightarrow> upd s p f = Inr (s\<lparr>nodes := (nodes s)(p \<mapsto> f n)\<rparr>)"
  by (simp add: upd_def)

lemmas step_defs = set_child_def rb_set_parent_color_def set_pc_def rb_set_parent_def rb_set_black_def
  rb_parent_def rb_red_parent_def rb_is_red_def rb_is_black_def

text \<open>Hanging a subtree under another parent, painted black or in its own colour.\<close>

lemma reparent_ok:
  assumes "rep (nodes s) par t" and "par = 0 \<or> good par"
  shows "unless_null (root t) s (rb_set_parent_color s (root t) q (colw c)) =
      Inr (if t = Leaf then s else s\<lparr>nodes := (nodes s)(root t \<mapsto> the (nodes s (root t))\<lparr>rb_parent_color := pc_of q c\<rparr>)\<rparr>)"
    "unless_null (root t) s (rb_set_parent s (root t) q) =
      Inr (if t = Leaf then s else s\<lparr>nodes := (nodes s)(root t \<mapsto> the (nodes s (root t))\<lparr>rb_parent_color := pc_of q (col t)\<rparr>)\<rparr>)"
proof -
  have e: "pc_color (pc_of par c) OR q = pc_of q c" for c using pc_simps(2) [OF assms(2)] by (simp add: pc_of_def or.commute)
  show "unless_null (root t) s (rb_set_parent_color s (root t) q (colw c)) =
      Inr (if t = Leaf then s else s\<lparr>nodes := (nodes s)(root t \<mapsto> the (nodes s (root t))\<lparr>rb_parent_color := pc_of q c\<rparr>)\<rparr>)"
    using assms(1) by (cases t) (simp_all add: unless_null_def good_def step_defs upd_Inr pc_of_def)
  show "unless_null (root t) s (rb_set_parent s (root t) q) =
      Inr (if t = Leaf then s else s\<lparr>nodes := (nodes s)(root t \<mapsto> the (nodes s (root t))\<lparr>rb_parent_color := pc_of q (col t)\<rparr>)\<rparr>)"
    using assms(1) by (cases t) (simp_all add: unless_null_def good_def step_defs upd_Inr e)
qed

lemma rep_repaint:
  assumes "rep h par t" and "distinct (inorder t)" and "t \<noteq> Leaf"
  shows "rep (h(root t \<mapsto> the (h (root t))\<lparr>rb_parent_color := pc_of q c\<rparr>)) q (paint c t)"
  using assms by (cases t) auto

text \<open>Outside \<open>S\<close> the heap is as before, and the cached first node is.\<close>

definition agree :: "ptr set \<Rightarrow> 'a rb_state \<Rightarrow> 'a rb_state \<Rightarrow> bool" where
  "agree S s s' \<longleftrightarrow> (\<forall>p. p \<notin> S \<longrightarrow> nodes s' p = nodes s p) \<and> leftmost s' = leftmost s"

lemma agree_rep: "agree S s s' \<Longrightarrow> addrs t \<inter> S = {} \<Longrightarrow> rep (nodes s') par t = rep (nodes s) par t"
  by (rule rep_cong) (auto simp: agree_def)

lemma agree_repc: "agree S s s' \<Longrightarrow> fset fs \<inter> S = {} \<Longrightarrow> repc (nodes s') p fs = repc (nodes s) p fs"
  by (rule repc_cong) (auto simp: agree_def)

lemma agree_trans: "agree S s s' \<Longrightarrow> agree T s' s'' \<Longrightarrow> S \<subseteq> U \<Longrightarrow> T \<subseteq> U \<Longrightarrow> agree U s s''"
  unfolding agree_def by (metis subsetD)

lemma agreeD: "agree S s s' \<Longrightarrow> p \<notin> S \<Longrightarrow> nodes s' p = nodes s p"
  by (simp add: agree_def)

lemma call_simps [simp]: "nodes (call f s p q) = nodes s" "root_node (call f s p q) = root_node s" "leftmost (call f s p q) = leftmost s"
  by (simp_all add: call_def)

lemma reparent_black:
  assumes "rep (nodes s) par t" and "par = 0 \<or> good par" and "distinct (inorder t)"
  obtains s' where "unless_null (root t) s (rb_set_parent_color s (root t) q (colw c)) = Inr s'"
    "rep (nodes s') q (paint c t)" "agree (addrs t) s s'" "root_node s' = root_node s"
proof (cases "t = Leaf")
  case True
  then show thesis using that [of s] reparent_ok(1) [OF assms(1,2)] by (simp add: agree_def)
next
  case False
  show thesis
    by (rule that, rule reparent_ok(1) [OF assms(1,2)])
      (use False rep_repaint [OF assms(1,3) False] root_addrs [OF False] in \<open>auto simp: agree_def\<close>)
qed

lemma reparent_keep:
  assumes "rep (nodes s) par t" and "par = 0 \<or> good par" and "distinct (inorder t)"
  obtains s' where "unless_null (root t) s (rb_set_parent s (root t) q) = Inr s'"
    "rep (nodes s') q t" "agree (addrs t) s s'" "root_node s' = root_node s"
proof (cases "t = Leaf")
  case True
  then show thesis using that [of s] reparent_ok(2) [OF assms(1,2)] by (simp add: agree_def)
next
  case False
  show thesis
    by (rule that, rule reparent_ok(2) [OF assms(1,2)])
      (use False rep_repaint [OF assms(1,3) False, of q "col t"] root_addrs [OF False] in \<open>auto simp: agree_def paint_same\<close>)
qed

lemma change_child_ok:
  assumes "repc (nodes s) old fs" and "old \<noteq> 0" and "old \<notin> fset fs" and "dfs fs"
  obtains s' where "rb_change_child s old new (top_of fs) = Inr s'" "repc (nodes s') new fs" "agree (fset fs) s s'"
    "root_node s' = (if fs = [] then new else root_node s)"
proof (cases fs)
  case Nil
  then show thesis using that [of "s\<lparr>root_node := new\<rparr>"] by (simp add: rb_change_child_def agree_def)
next
  case (Cons f gs)
  obtain d c a u where f: "f = Frame d c a u" by (cases f)
  have h: "good a" "nodes s a = Some (nd d (pc_of (top_of gs) c) old (root u))" "rep (nodes s) a u" "repc (nodes s) a gs"
    using assms(1) by (simp_all add: Cons f)
  have "root u \<noteq> old" using assms(2,3) root_addrs [of u] by (cases "u = Leaf") (auto simp: Cons f)
  then have "rb_change_child s old new (top_of fs) = set_child s d a new"
    using h by (cases d) (auto simp: Cons f rb_change_child_def good_def node_at_Inr)
  then show thesis
    using h assms(4) by (intro that [of "s\<lparr>nodes := (nodes s)(a \<mapsto> nd d (pc_of (top_of gs) c) new (root u))\<rparr>"])
      (auto simp: Cons f set_child_def upd_Inr agree_def)
qed

lemma rotate_ok:
  assumes "repc (nodes s) old fs" and "nodes s old = Some n" "rb_parent_color n = pc_of (top_of fs) c" and "nodes s new = Some m"
    and "old \<noteq> new" "old \<noteq> 0" "old \<notin> fset fs" "new \<notin> fset fs" "dfs fs"
  obtains s' where "rb_rotate_set_parents s old new (colw c') = Inr s'" "repc (nodes s') new fs"
    "nodes s' new = Some (m\<lparr>rb_parent_color := pc_of (top_of fs) c\<rparr>)" "nodes s' old = Some (n\<lparr>rb_parent_color := pc_of new c'\<rparr>)"
    "agree (fset fs \<union> {old, new}) s s'" "root_node s' = (if fs = [] then new else root_node s)"
proof -
  let ?s = "s\<lparr>nodes := (nodes s)(new \<mapsto> m\<lparr>rb_parent_color := pc_of (top_of fs) c\<rparr>, old \<mapsto> n\<lparr>rb_parent_color := pc_of new c'\<rparr>)\<rparr>"
  have "repc (nodes ?s) old fs" using assms by simp
  from change_child_ok [OF this assms(6,7,9), of new] obtain s' where s':
    "rb_change_child ?s old new (top_of fs) = Inr s'" "repc (nodes s') new fs" "agree (fset fs) ?s s'"
    "root_node s' = (if fs = [] then new else root_node ?s)" by blast
  have "rb_parent n = top_of fs"
    using pc_simps(1) [OF repc_top [OF assms(1)]] assms(3) by (simp add: rb_parent_def pc_parent_def)
  then have "rb_rotate_set_parents s old new (colw c') = Inr s'"
    using assms s'(1) by (simp add: rb_rotate_set_parents_def node_at_Inr step_defs upd_Inr pc_of_def)
  moreover have "agree (fset fs \<union> {old, new}) s s'" using s'(3) by (auto simp: agree_def)
  ultimately show thesis
    using that s'(2,4) agreeD [OF s'(3)] assms(5,7,8) by simp
qed

section \<open>Insertion\<close>

lemma insert_case3_ok:
  assumes h: "repc (nodes s) g fs" "nodes s g = Some (nd e (pc_of (top_of fs) cg) y (root v))"
      "nodes s a = Some (nd e pa (root t) z)" "rep (nodes s) a t" "rep (nodes s) x u" "x = 0 \<or> good x" "rep (nodes s) g v"
    and g: "good g" "good a" and d: "distinct (inorder (plug fs (mk e t cg a (mk e u Red g v))))"
  obtains s' where "insert_case3 rot s e g a (root u) = Inr s'"
    "rep (nodes s') 0 (plug fs (mk e t cg a (mk e (paint Black u) Red g v)))"
    "agree (fset fs \<union> {a, g} \<union> addrs u) s s'" "root_node s' = (if fs = [] then a else root_node s)"
proof -
  have D: "dfs fs" "a \<noteq> g" "g \<notin> fset fs" "a \<notin> fset fs" "a \<notin> addrs t" "g \<notin> addrs t" "a \<notin> addrs u" "g \<notin> addrs u"
    "a \<notin> addrs v" "g \<notin> addrs v" "addrs u \<inter> fset fs = {}" "addrs u \<inter> addrs t = {}" "addrs u \<inter> addrs v = {}"
    "addrs v \<inter> fset fs = {}" "addrs t \<inter> fset fs = {}" "distinct (inorder u)"
    using d by (auto simp: distinct_plug distinct_mk)
  let ?s2 = "s\<lparr>nodes := (nodes s)(g \<mapsto> nd e (pc_of (top_of fs) cg) (root u) (root v), a \<mapsto> nd e pa (root t) g)\<rparr>"
  have s2: "rbind (set_child s e g (root u)) (\<lambda>s1. set_child s1 (opp e) a g) = Inr ?s2"
    using h D(2) by (simp add: set_child_def upd_Inr)
  have "rep (nodes ?s2) x u" using h(5) D by simp
  from reparent_black [OF this h(6) D(16), of g Black] obtain s3 where s3:
    "unless_null (root u) ?s2 (rb_set_parent_color ?s2 (root u) g RB_BLACK) = Inr s3" "rep (nodes s3) g (paint Black u)"
    "agree (addrs u) ?s2 s3" "root_node s3 = root_node s" by auto
  note A3 = agreeD [OF s3(3)]
  have r3: "repc (nodes s3) g fs" using agree_repc [OF s3(3), of fs g] h(1) D by (simp add: inf_commute)
  have n3: "nodes s3 g = Some (nd e (pc_of (top_of fs) cg) (root u) (root v))" "nodes s3 a = Some (nd e pa (root t) g)"
    using A3 [of g] A3 [of a] D by simp_all
  obtain s4 where s4: "rb_rotate_set_parents s3 g a RB_RED = Inr s4" "repc (nodes s4) a fs"
    "nodes s4 a = Some (nd e (pc_of (top_of fs) cg) (root t) g)" "nodes s4 g = Some (nd e (pc_of a Red) (root u) (root v))"
    "agree (fset fs \<union> {g, a}) s3 s4" "root_node s4 = (if fs = [] then a else root_node s3)"
    by (rule rotate_ok [OF r3 n3(1) _ n3(2), of cg Red]) (use D g in \<open>auto simp: good_def\<close>)
  have "insert_case3 rot s e g a (root u) = Inr (call rot s4 g a)"
    using s2 s3(1) s4(1) unfolding insert_case3_def by (auto simp: rbind_Inr_iff)
  moreover have "rep (nodes s4) g (paint Black u)" using agree_rep [OF s4(5), of "paint Black u" g] s3(2) D by auto
  moreover have "rep (nodes s4) g v"
    using agree_rep [OF s4(5), of v g] agree_rep [OF s3(3), of v g] h(7) D by (auto simp: inf_commute)
  moreover have "rep (nodes s4) a t"
    using agree_rep [OF s4(5), of t a] agree_rep [OF s3(3), of t a] h(4) D by (auto simp: inf_commute)
  ultimately show thesis
    using s4(2-4,6) s3(4) g by (intro that [of "call rot s4 g a"])
      (auto simp: rep_plug rep_mk agree_def, use s4(5) s3(3) in \<open>auto simp: agree_def\<close>)
qed

lemma insert_case2_ok:
  assumes h: "nodes s a = Some (nd e (pc_of g Red) (root u) n)" "nodes s n = Some (nd e (pc_of a Red) (root x) (root y))"
      "rep (nodes s) n x" "rep (nodes s) n y" "rep (nodes s) a u" and g: "good n" "good a"
    and d: "distinct (inorder (mk e (mk e u Red a x) Red n y))"
  obtains s' where "insert_case2 rot s e n a = Inr (n, root y, s')" "nodes s' n = Some (nd e (pc_of a Red) a (root y))"
    "rep (nodes s') n (mk e u Red a (paint Black x))" "rep (nodes s') n y" "agree ({a, n} \<union> addrs x) s s'" "root_node s' = root_node s"
proof -
  have D: "a \<noteq> n" "a \<notin> addrs u" "a \<notin> addrs x" "a \<notin> addrs y" "n \<notin> addrs u" "n \<notin> addrs x" "n \<notin> addrs y"
    "addrs x \<inter> addrs u = {}" "addrs x \<inter> addrs y = {}" "distinct (inorder x)"
    using d by (auto simp: distinct_mk)
  let ?s2 = "s\<lparr>nodes := (nodes s)(a \<mapsto> nd e (pc_of g Red) (root u) (root x), n \<mapsto> nd e (pc_of a Red) a (root y))\<rparr>"
  have s2: "rbind (set_child s (opp e) a (root x)) (\<lambda>s1. set_child s1 e n a) = Inr ?s2"
    using h D(1) by (simp add: set_child_def upd_Inr)
  have "rep (nodes ?s2) n x" using h(3) D by simp
  from reparent_black [OF this _ D(10), of a Black] g obtain s3 where s3:
    "unless_null (root x) ?s2 (rb_set_parent_color ?s2 (root x) a RB_BLACK) = Inr s3" "rep (nodes s3) a (paint Black x)"
    "agree (addrs x) ?s2 s3" "root_node s3 = root_node s" by auto
  note A3 = agreeD [OF s3(3)]
  have n3: "nodes s3 a = Some (nd e (pc_of g Red) (root u) (root x))" "nodes s3 n = Some (nd e (pc_of a Red) a (root y))"
    using A3 [of a] A3 [of n] D by simp_all
  let ?s4 = "call rot (s3\<lparr>nodes := (nodes s3)(a \<mapsto> nd e (pc_of n Red) (root u) (root x))\<rparr>) a n"
  have "rb_set_parent_color s3 a n RB_RED = Inr (s3\<lparr>nodes := (nodes s3)(a \<mapsto> nd e (pc_of n Red) (root u) (root x))\<rparr>)"
    using n3 by (simp add: step_defs upd_Inr pc_of_def)
  then have "insert_case2 rot s e n a = Inr (n, root y, ?s4)"
    using s2 s3(1) h n3 D(1) unfolding insert_case2_def
    by (auto simp: rbind_Inr_iff node_at_Inr Let_def)
  moreover have "rep (nodes ?s4) a u" "rep (nodes ?s4) n y" "rep (nodes ?s4) a (paint Black x)"
    using agree_rep [OF s3(3), of u a] agree_rep [OF s3(3), of y n] h(4,5) s3(2) D by (auto simp: inf_commute)
  ultimately show thesis
    using n3 D g s3(4) by (intro that [of ?s4]) (auto simp: rep_mk agree_def, use s3(3) in \<open>auto simp: agree_def\<close>)
qed

lemma is_red_at_ok: "rep (nodes s) par t \<Longrightarrow> par = 0 \<or> good par \<Longrightarrow> is_red_at s (root t) = Inr (col t = Red)"
  by (cases t) (auto simp: is_red_at_def good_def node_at_Inr rb_is_red_def pc_simps(4))

lemma root_plug_cong: "root t = root t' \<Longrightarrow> col t = col t' \<Longrightarrow> root (plug fs t) = root (plug fs t') \<and> col (plug fs t) = col (plug fs t')"
proof (induction fs arbitrary: t t')
  case (Cons f fs)
  obtain d c a u where f: "f = Frame d c a u" by (cases f)
  show ?case using Cons.IH [of "mk d t c a u" "mk d t' c a u"] by (simp add: f)
qed simp

lemma root_plug: "fs \<noteq> [] \<Longrightarrow> root (plug fs t) = root (plug fs t')" "fs \<noteq> [] \<Longrightarrow> col (plug fs t) = col (plug fs t')"
proof -
  have "root (plug fs t) = root (plug fs t') \<and> col (plug fs t) = col (plug fs t')" if ne: "fs \<noteq> []"
  proof -
    obtain d c a u gs where f: "fs = Frame d c a u # gs" using ne by (cases fs rule: top_of.cases) auto
    show ?thesis unfolding f plug.simps by (rule root_plug_cong) simp_all
  qed
  then show "fs \<noteq> [] \<Longrightarrow> root (plug fs t) = root (plug fs t')" "fs \<noteq> [] \<Longrightarrow> col (plug fs t) = col (plug fs t')" by blast+
qed

text \<open>The uncle is red: its colour and the parent's flip with the grandparent's.\<close>

lemma insert_case1_ok:
  assumes h: "repc (nodes s) (root t) (Frame d Red a u # Frame e cg g v # fs)" "rep (nodes s) a t" "col v = Red"
    and ds: "distinct (inorder (plug (Frame d Red a u # Frame e cg g v # fs) t))"
  obtains s1 s2 s3 where "rb_set_parent_color s (root v) g RB_BLACK = Inr s1" "rb_set_parent_color s1 a g RB_BLACK = Inr s2"
    "node_at s2 g = Inr (nd e (pc_of (top_of fs) cg) a (root v))" "rb_set_parent_color s2 g (top_of fs) RB_RED = Inr s3"
    "repc (nodes s3) g fs" "rep (nodes s3) (top_of fs) (mk e (mk d t Black a u) Red g (paint Black v))"
    "agree ({a, g} \<union> addrs v) s s3" "root_node s3 = root_node s"
proof -
  have D: "a \<noteq> g" "a \<notin> addrs t" "a \<notin> addrs u" "a \<notin> addrs v" "a \<notin> fset fs" "g \<notin> addrs t" "g \<notin> addrs u" "g \<notin> addrs v" "g \<notin> fset fs"
    "addrs v \<inter> addrs t = {}" "addrs v \<inter> addrs u = {}" "addrs v \<inter> fset fs = {}" "distinct (inorder v)"
    using ds unfolding distinct_plug by auto
  have n: "good a" "good g" "nodes s a = Some (nd d (pc_of g Red) (root t) (root u))" "nodes s g = Some (nd e (pc_of (top_of fs) cg) a (root v))"
    "rep (nodes s) a u" "rep (nodes s) g v" "repc (nodes s) g fs" using h(1) by simp_all
  have v: "v \<noteq> Leaf" using h(3) by auto
  then have vz: "root v \<noteq> 0" using root_zero [OF n(6)] by simp
  obtain s1 where s1: "rb_set_parent_color s (root v) g RB_BLACK = Inr s1" "rep (nodes s1) g (paint Black v)"
    "agree (addrs v) s s1" "root_node s1 = root_node s"
    using reparent_black [OF n(6) _ D(13), of g Black] n(2) vz by (auto simp: unless_null_def)
  note A = agreeD [OF s1(3)]
  let ?s2 = "s1\<lparr>nodes := (nodes s1)(a \<mapsto> nd d (pc_of g Black) (root t) (root u))\<rparr>"
  let ?s3 = "s1\<lparr>nodes := (nodes s1)(a \<mapsto> nd d (pc_of g Black) (root t) (root u), g \<mapsto> nd e (pc_of (top_of fs) Red) a (root v))\<rparr>"
  have n1: "nodes s1 a = Some (nd d (pc_of g Red) (root t) (root u))" "nodes s1 g = Some (nd e (pc_of (top_of fs) cg) a (root v))"
    using A [of a] A [of g] n D by simp_all
  have "rb_set_parent_color s1 a g RB_BLACK = Inr ?s2" using n1 by (simp add: step_defs upd_Inr pc_of_def)
  moreover have "node_at ?s2 g = Inr (nd e (pc_of (top_of fs) cg) a (root v))" using n1 D by (simp add: node_at_Inr)
  moreover have "rb_set_parent_color ?s2 g (top_of fs) RB_RED = Inr ?s3" using n1 D by (simp add: step_defs upd_Inr pc_of_def)
  moreover have "repc (nodes ?s3) g fs" "rep (nodes ?s3) a t" "rep (nodes ?s3) a u" "rep (nodes ?s3) g (paint Black v)"
    using agree_repc [OF s1(3), of fs g] agree_rep [OF s1(3), of t a] agree_rep [OF s1(3), of u a] n(5,7) h(2) s1(2) D
    by (simp_all add: inf_commute)
  ultimately show thesis
    using s1(1,4) n(1,2) D by (intro that [of s1 ?s2 ?s3]) (auto simp: rep_mk agree_def, use s1(3) in \<open>auto simp: agree_def\<close>)
qed

text \<open>Both rotations: the result is the tree that \<open>ins_fix\<close> plugs in.\<close>

lemma insert_rotate_ok:
  assumes h: "repc (nodes s) (root t) (Frame d Red a u # Frame e cg g v # fs)" "rep (nodes s) a t" "col t = Red"
    and ds: "distinct (inorder (plug (Frame d Red a u # Frame e cg g v # fs) t))"
  defines "new \<equiv> (if d = e then mk e t cg a (mk e (paint Black u) Red g v)
    else mk e (mk e u Red a (paint Black (near e t))) cg (root t) (mk e (paint Black (far e t)) Red g v))"
  obtains s' where "rbind (insert_case2 rot s e (root t) a) (\<lambda>(parent, tmp, s1). insert_case3 rot s1 e g parent tmp) = Inr s'"
    "rep (nodes s') 0 (plug fs new)" "agree (fset fs \<union> {a, g} \<union> addrs u \<union> addrs t) s s'"
    "root_node s' = (if fs = [] then root new else root_node s)"
proof -
  have n: "good a" "good g" "nodes s a = Some (nd d (pc_of g Red) (root t) (root u))" "nodes s g = Some (nd e (pc_of (top_of fs) cg) a (root v))"
    "rep (nodes s) a u" "rep (nodes s) g v" "repc (nodes s) g fs" using h(1) by simp_all
  obtain x ct m y where t: "t = mk e x Red m y" using h(3) by (rule_tac t = t and d = e in tree_cases_mk) auto
  have gm: "good m" "nodes s m = Some (nd e (pc_of a Red) (root x) (root y))" "rep (nodes s) m x" "rep (nodes s) m y"
    using h(2) by (simp_all add: t rep_mk)
  show thesis
  proof (cases "d = e")
    case True
    have "root u \<noteq> m" using ds root_addrs [of u] gm(1) by (cases "u = Leaf") (auto simp: t distinct_plug distinct_mk good_def)
    then have c2: "insert_case2 rot s e (root t) a = Inr (a, root u, s)"
      using n(3) True by (simp add: insert_case2_def node_at_Inr t)
    have "distinct (inorder (plug fs (mk e t cg a (mk e u Red g v))))"
      using ds unfolding distinct_plug distinct_mk by auto
    from insert_case3_ok [OF n(7,4) n(3) [unfolded True] h(2) n(5) _ n(6) n(2,1) this, of rot] n(1)
    obtain s' where "insert_case3 rot s e g a (root u) = Inr s'"
      "rep (nodes s') 0 (plug fs (mk e t cg a (mk e (paint Black u) Red g v)))" "agree (fset fs \<union> {a, g} \<union> addrs u) s s'"
      "root_node s' = (if fs = [] then a else root_node s)" by blast
    then show thesis using True c2 by (intro that [of s']) (auto simp: new_def agree_def)
  next
    case False
    then have d: "d = opp e" by (cases d; cases e) auto
    have "distinct (inorder (mk e (mk e u Red a x) Red m y))"
      using ds unfolding distinct_plug distinct_mk t by (auto simp: distinct_mk)
    from insert_case2_ok [OF n(3) [unfolded d nd_opp, unfolded t, simplified] gm(2,3,4) n(5) gm(1) n(1) this, of rot]
    obtain s1 where s1: "insert_case2 rot s e m a = Inr (m, root y, s1)" "nodes s1 m = Some (nd e (pc_of a Red) a (root y))"
      "rep (nodes s1) m (mk e u Red a (paint Black x))" "rep (nodes s1) m y" "agree ({a, m} \<union> addrs x) s s1" "root_node s1 = root_node s"
      by blast
    let ?p = "mk e u Red a (paint Black x)"
    have Dg: "g \<notin> {a, m} \<union> addrs x" "fset fs \<inter> ({a, m} \<union> addrs x) = {}" "addrs v \<inter> ({a, m} \<union> addrs x) = {}"
      using ds unfolding distinct_plug t by auto
    have g1: "repc (nodes s1) g fs" "nodes s1 g = Some (nd e (pc_of (top_of fs) cg) a (root v))" "rep (nodes s1) g v"
      using agree_repc [OF s1(5) Dg(2)] agreeD [OF s1(5) Dg(1)] agree_rep [OF s1(5) Dg(3)] n by simp_all
    have m1: "nodes s1 m = Some (nd e (pc_of a Red) (root ?p) (root y))" using s1(2) by simp
    have "distinct (inorder (plug fs (mk e ?p cg m (mk e y Red g v))))"
      using ds unfolding distinct_plug distinct_mk t by (auto simp: distinct_mk)
    from insert_case3_ok [OF g1(1,2) m1 s1(3,4) _ g1(3) n(2) gm(1) this, of rot] gm(1)
    obtain s' where "insert_case3 rot s1 e g m (root y) = Inr s'"
      "rep (nodes s') 0 (plug fs (mk e ?p cg m (mk e (paint Black y) Red g v)))" "agree (fset fs \<union> {m, g} \<union> addrs y) s1 s'"
      "root_node s' = (if fs = [] then m else root_node s1)" by blast
    then show thesis using False s1(1,6) agree_trans [OF s1(5), of _ s' "fset fs \<union> {a, g} \<union> addrs u \<union> addrs t"]
      by (intro that [of s']) (auto simp: new_def t)
  qed
qed

lemma insert_loop_ok:
  "repc (nodes s) (root t) fs \<Longrightarrow> rep (nodes s) (top_of fs) t \<Longrightarrow> distinct (inorder (plug fs t)) \<Longrightarrow>
   root_node s = root (plug fs t) \<Longrightarrow> col t = Red \<Longrightarrow> (fs \<noteq> [] \<Longrightarrow> col (plug fs t) = Black) \<Longrightarrow> length fs < k \<Longrightarrow>
   \<exists>s'. rb_insert_loop k rot s (root t) (top_of fs) = Inr s' \<and> rep (nodes s') 0 (ins_fix fs t) \<and>
     root_node s' = root (ins_fix fs t) \<and> agree (addrs (plug fs t)) s s'"
proof (induction fs t arbitrary: s k rule: ins_fix.induct)
  case (1 t)
  obtain k' where k: "k = Suc k'" using 1(7) by (cases k) auto
  have t: "t \<noteq> Leaf" using 1(5) by auto
  have rz: "root t \<noteq> 0" using root_zero [OF 1(2)] t by simp
  obtain s' where "rb_set_parent_color s (root t) 0 RB_BLACK = Inr s'" "rep (nodes s') 0 (paint Black t)" "agree (addrs t) s s'"
    "root_node s' = root_node s"
    using reparent_black [OF 1(2), of 0 Black] 1(3) rz by (auto simp: unless_null_def)
  then show ?case using 1(4) by (simp add: k)
next
  case (2 f t)
  obtain d c a u where f: "f = Frame d c a u" by (cases f)
  obtain k' where k: "k = Suc k'" using 2(7) by (cases k) auto
  have c: "c = Black" using 2(6) by (simp add: f)
  have "rb_insert_loop k rot s (root t) (top_of [f]) = Inr s"
    using 2(1) c by (simp add: k f good_def node_at_Inr rb_is_black_def pc_simps(3))
  moreover have "rep (nodes s) 0 (plug [f] t)" using 2(1,2) by (simp add: rep_plug)
  ultimately show ?case using 2(4) by (auto simp: agree_def)
next
  case (3 d c a u e cg g v fs t)
  let ?fs = "Frame d c a u # Frame e cg g v # fs"
  obtain k' where k: "k = Suc k'" "length fs < k'" using 3(8) by (cases k) auto
  have n: "good a" "good g" "nodes s a = Some (nd d (pc_of g c) (root t) (root u))" "nodes s g = Some (nd e (pc_of (top_of fs) cg) a (root v))"
    "rep (nodes s) a u" "rep (nodes s) g v" "repc (nodes s) g fs" using 3(2) by simp_all
  have t: "rep (nodes s) a t" using 3(3) by simp
  have az: "a \<noteq> 0" "rb_is_black (nd d (pc_of g c) (root t) (root u)) \<longleftrightarrow> c = Black"
    using n(1,2) by (simp_all add: good_def rb_is_black_def pc_simps(3))
  show ?case
  proof (cases "c = Black")
    case True
    then have "rb_insert_loop k rot s (root t) (top_of ?fs) = Inr s" using n az by (simp add: k node_at_Inr)
    moreover have "rep (nodes s) 0 (plug ?fs t)" using 3(2,3) rep_plug [of _ ?fs t] by simp
    ultimately show ?thesis using True 3(5) by (auto simp: agree_def)
  next
    case False
    then have c: "c = Red" by simp
    have "a \<noteq> root v" using 3(4) root_addrs [of v] az(1) by (cases "v = Leaf") (auto simp: distinct_plug distinct_mk)
    then have side: "(if a \<noteq> rb_right (nd e (pc_of (top_of fs) cg) a (root v)) then SLeft else SRight) = e" by auto
    have gp: "rb_red_parent (nd d (pc_of g c) (root t) (root u)) = g" using n(2) by (simp add: rb_red_parent_def c pc_simps(5))
    have red: "is_red_at s (root v) = Inr (col v = Red)" using is_red_at_ok [OF n(6)] n(2) by simp
    have pt: "rb_parent (nd e (pc_of (top_of fs) cg) a (root v)) = top_of fs"
      using pc_simps(1) [OF repc_top [OF n(7)]] by (simp add: rb_parent_def pc_parent_def)
    have run: "rb_insert_loop k rot s (root t) (top_of ?fs) =
      (if col v = Red then
         rbind (rb_set_parent_color s (root v) g RB_BLACK) (\<lambda>s1. rbind (rb_set_parent_color s1 a g RB_BLACK) (\<lambda>s2.
           rbind (node_at s2 g) (\<lambda>g2. rbind (rb_set_parent_color s2 g (rb_parent g2) RB_RED) (\<lambda>s3.
             rb_insert_loop k' rot s3 g (rb_parent g2)))))
       else rbind (insert_case2 rot s e (root t) a) (\<lambda>(parent, tmp, s1). insert_case3 rot s1 e g parent tmp))"
      using n(3,4) az c gp side red unfolding k(1) by (simp add: node_at_Inr Let_def)
    show ?thesis
    proof (cases "col v = Red")
      case True
      let ?t = "mk e (mk d t Black a u) Red g (paint Black v)"
      obtain s1 s2 s3 where S: "rb_set_parent_color s (root v) g RB_BLACK = Inr s1" "rb_set_parent_color s1 a g RB_BLACK = Inr s2"
        "node_at s2 g = Inr (nd e (pc_of (top_of fs) cg) a (root v))" "rb_set_parent_color s2 g (top_of fs) RB_RED = Inr s3"
        "repc (nodes s3) g fs" "rep (nodes s3) (top_of fs) ?t"
        "agree ({a, g} \<union> addrs v) s s3" "root_node s3 = root_node s"
        by (rule insert_case1_ok [OF 3(2) [unfolded c] t True 3(4) [unfolded c]])
      have rs: "root_node s3 = root (plug fs ?t)"
        using S(8) 3(5) root_plug(1) [of fs "mk e (mk d t c a u) cg g v" ?t] by (cases "fs = []") auto
      have "\<exists>s'. rb_insert_loop k' rot s3 (root ?t) (top_of fs) = Inr s' \<and> rep (nodes s') 0 (ins_fix fs ?t) \<and>
          root_node s' = root (ins_fix fs ?t) \<and> agree (addrs (plug fs ?t)) s3 s'"
        by (rule 3(1) [OF _ True]) (use S c k rs 3(4,7) root_plug(2) [of fs "mk e (mk d t c a u) cg g v" ?t] in \<open>auto simp: distinct_plug distinct_mk\<close>)
      then obtain s' where s': "rb_insert_loop k' rot s3 g (top_of fs) = Inr s'" "rep (nodes s') 0 (ins_fix fs ?t)"
        "root_node s' = root (ins_fix fs ?t)" "agree (addrs (plug fs ?t)) s3 s'" by auto
      have "agree (addrs (plug ?fs t)) s s'"
        by (rule agree_trans [OF S(7) s'(4)]) (auto simp: addrs_plug)
      then show ?thesis using run True S s' c pt by simp
    next
      case v: False
      let ?new = "if d = e then mk e t cg a (mk e (paint Black u) Red g v)
        else mk e (mk e u Red a (paint Black (near e t))) cg (root t) (mk e (paint Black (far e t)) Red g v)"
      obtain s' where S: "rbind (insert_case2 rot s e (root t) a) (\<lambda>(parent, tmp, s1). insert_case3 rot s1 e g parent tmp) = Inr s'"
        "rep (nodes s') 0 (plug fs ?new)" "agree (fset fs \<union> {a, g} \<union> addrs u \<union> addrs t) s s'"
        "root_node s' = (if fs = [] then root ?new else root_node s)"
        by (rule insert_rotate_ok [OF 3(2) [unfolded c] t 3(6) 3(4) [unfolded c], of rot])
      have nw: "ins_fix ?fs t = plug fs ?new" using c v by simp
      have "root_node s' = root (plug fs ?new)"
        using S(4) 3(5) root_plug(1) [of fs ?new "mk e (mk d t c a u) cg g v"] by (cases "fs = []") auto
      moreover have "agree (addrs (plug ?fs t)) s s'"
        by (rule agree_trans [OF S(3), of "{}" s']) (auto simp: addrs_plug agree_def)
      ultimately show ?thesis using run v S(1,2) unfolding nw by auto
    qed
  qed
qed

end
