(* ===== verification/Rbtree_Insert.thy ===== *)
theory Rbtree_Insert
  imports Rbtree_Heap
begin

text \<open>
  What a client sees of a tree: a sequence of nodes.  The walks of \<^verbatim>\<open>lib/ulib/rbtree.c\<close> follow that
  sequence, linking and inserting a node puts it next to the parent it was linked to, and replacing a
  node keeps its place.
\<close>

section \<open>The sequence of a tree\<close>

definition rb_tree :: "'a rb_state \<Rightarrow> rbt \<Rightarrow> bool" where
  "rb_tree s t \<longleftrightarrow> rep (nodes s) 0 t \<and> root_node s = root t \<and> distinct (inorder t)"

text \<open>The heap holds a red-black tree whose nodes are \<open>xs\<close>, in this order.\<close>

definition holds :: "'a rb_state \<Rightarrow> ptr list \<Rightarrow> bool" where
  "holds s xs \<longleftrightarrow> (\<exists>t. rb_tree s t \<and> is_rbt t \<and> inorder t = xs)"

lemma holdsI [intro]: "rb_tree s t \<Longrightarrow> is_rbt t \<Longrightarrow> inorder t = xs \<Longrightarrow> holds s xs"
  by (auto simp: holds_def)

lemma path_to: "p \<in> addrs t \<Longrightarrow> \<exists>fs l c r. t = plug fs (Node l c p r)"
proof (induction t)
  case (Node l c a r)
  consider "p = a" | "p \<in> addrs l" | "p \<in> addrs r" using Node.prems by auto
  then show ?case
  proof cases
    case 1
    then have "Node l c a r = plug [] (Node l c p r)" by simp
    then show ?thesis by blast
  next
    case 2
    then obtain fs l' c' r' where "l = plug fs (Node l' c' p r')" using Node.IH(1) by blast
    then have "Node l c a r = plug (fs @ [Frame SLeft c a r]) (Node l' c' p r')" by (simp add: plug_append)
    then show ?thesis by blast
  next
    case 3
    then obtain fs l' c' r' where "r = plug fs (Node l' c' p r')" using Node.IH(2) by blast
    then have "Node l c a r = plug (fs @ [Frame SRight c a l]) (Node l' c' p r')" by (simp add: plug_append)
    then show ?thesis by blast
  qed
qed simp

lemma inorder_at:
  assumes "inorder t = xs @ p # ys" and d: "distinct (inorder t)"
  obtains fs l c r where "t = plug fs (Node l c p r)" "xs = pre fs @ inorder l" "ys = inorder r @ post fs"
proof -
  obtain fs l c r where t: "t = plug fs (Node l c p r)" using path_to [of p t] assms(1) by auto
  have e: "xs @ p # ys = (pre fs @ inorder l) @ p # inorder r @ post fs" using assms(1) by (simp add: t inorder_plug)
  have "p \<notin> set xs" "p \<notin> set ys" using d unfolding assms(1) by auto
  then have "xs = pre fs @ inorder l \<and> ys = inorder r @ post fs" by (intro append_Cons_eq_iff [THEN iffD1, OF _ _ e])
  then show thesis using that t by blast
qed

lemma holds_at:
  assumes "holds s (xs @ p # ys)"
  obtains fs l c r where "rb_tree s (plug fs (Node l c p r))" "is_rbt (plug fs (Node l c p r))"
    "xs = pre fs @ inorder l" "ys = inorder r @ post fs"
proof -
  obtain t where t: "rb_tree s t" "is_rbt t" "inorder t = xs @ p # ys" using assms by (auto simp: holds_def)
  have "distinct (inorder t)" using t(1) by (simp add: rb_tree_def)
  from inorder_at [OF t(3) this] that t(1,2) show thesis by metis
qed

section \<open>Insertion\<close>

text \<open>Linking a new node: a red node in the empty place, and everything else as before.\<close>

lemma rb_link_node_ok:
  assumes t: "rb_tree s (plug fs Leaf)" and n: "good n" "n \<notin> addrs (plug fs Leaf)" "nodes s n \<noteq> None"
    and d: "\<And>e c a u gs. fs = Frame e c a u # gs \<Longrightarrow> d = e"
  obtains s' where "rb_link_node s n (top_of fs) d = Inr s'" "rb_tree s' (plug fs (Node Leaf Red n Leaf))"
    "agree (insert n (fset fs)) s s'" "nodes s' n = Some (nd SLeft (top_of fs) 0 0)"
proof -
  let ?m = "\<lparr>rb_parent_color = top_of fs, rb_right = 0, rb_left = 0\<rparr>"
  have m: "?m = nd SLeft (top_of fs) 0 0" by (simp add: nd_def)
  let ?s1 = "s\<lparr>nodes := (nodes s)(n \<mapsto> ?m)\<rparr>"
  have r: "repc (nodes s) 0 fs" "dfs fs" "n \<notin> fset fs" using t n by (auto simp: rb_tree_def rep_plug distinct_plug addrs_plug)
  have s1: "upd s n (\<lambda>x. ?m) = Inr ?s1" using n(3) by (auto simp: upd_def)
  have pc: "pc_of (top_of fs) Red = top_of fs" by (rule pc_simps(5) [OF repc_top [OF r(1)]])
  show thesis
  proof (cases fs)
    case Nil
    then show thesis using s1 n pc
      by (intro that [of "?s1\<lparr>root_node := n\<rparr>"]) (auto simp: rb_link_node_def rb_tree_def agree_def m)
  next
    case (Cons f gs)
    obtain c a u where f: "f = Frame d c a u" using d Cons by (cases f) auto
    have h: "good a" "nodes s a = Some (nd d (pc_of (top_of gs) c) 0 (root u))" "rep (nodes s) a u" "repc (nodes s) a gs"
      using r(1) by (simp_all add: Cons f)
    let ?s2 = "s\<lparr>nodes := (nodes s)(n \<mapsto> ?m, a \<mapsto> nd d (pc_of (top_of gs) c) n (root u))\<rparr>"
    have an: "a \<noteq> n" "a \<noteq> 0" using r(3) h(1) by (auto simp: Cons f good_def)
    have "rb_link_node s n (top_of fs) d = Inr ?s2"
      using s1 h(2) an by (simp add: rb_link_node_def Cons f set_child_def upd_Inr)
    moreover have "repc (nodes ?s2) n fs" using h r an by (simp add: Cons f)
    moreover have nn: "nodes ?s2 n = Some (nd SLeft (top_of fs) 0 0)" using an m by (simp add: Cons f)
    moreover have "root (plug fs (Node Leaf Red n Leaf)) = root (plug fs Leaf)" using root_plug(1) [of fs] Cons by blast
    ultimately have "rb_tree ?s2 (plug fs (Node Leaf Red n Leaf))"
      using t n(1) r pc by (simp add: rb_tree_def rep_plug distinct_plug)
    moreover have "agree (insert n (fset fs)) s ?s2" by (auto simp: agree_def Cons f)
    ultimately show thesis using \<open>rb_link_node s n (top_of fs) d = Inr ?s2\<close> nn by (intro that [of ?s2]) assumption+
  qed
qed

lemma rb_insert_ok:
  assumes t: "rb_tree s (plug fs (Node Leaf Red n Leaf))" and p: "is_rbt (plug fs Leaf)" and k: "length fs < k"
  obtains s' where "rb_insert k rot s n newleft = Inr s'" "rb_tree s' (ins_fix fs (Node Leaf Red n Leaf))"
    "is_rbt (ins_fix fs (Node Leaf Red n Leaf))" "leftmost s' = (if newleft then n else leftmost s)"
    "\<And>q. q \<notin> insert n (fset fs) \<Longrightarrow> nodes s' q = nodes s q"
proof -
  let ?t = "Node Leaf Red n Leaf"
  let ?s = "if newleft then s\<lparr>leftmost := n\<rparr> else s"
  have h: "repc (nodes s) n fs" "rep (nodes s) (top_of fs) ?t" "distinct (inorder (plug fs ?t))" "root_node s = root (plug fs ?t)"
    using t by (simp_all add: rb_tree_def rep_plug)
  have c: "fs \<noteq> [] \<Longrightarrow> col (plug fs ?t) = Black" using p root_plug(2) [of fs ?t Leaf] by (simp add: is_rbt_def)
  have pc: "pc_of (top_of fs) Red = top_of fs" by (rule pc_simps(5) [OF repc_top [OF h(1)]])
  have e: "nodes ?s = nodes s" "root_node ?s = root_node s" by simp_all
  have "\<exists>s'. rb_insert_loop k rot ?s (root ?t) (top_of fs) = Inr s' \<and> rep (nodes s') 0 (ins_fix fs ?t) \<and>
     root_node s' = root (ins_fix fs ?t) \<and> agree (addrs (plug fs ?t)) ?s s'"
    by (rule insert_loop_ok) (use h k in \<open>simp_all only: e root.simps col.simps\<close>, rule c)
  then obtain s' where s': "rb_insert_loop k rot ?s n (top_of fs) = Inr s'" "rep (nodes s') 0 (ins_fix fs ?t)"
    "root_node s' = root (ins_fix fs ?t)" "agree (addrs (plug fs ?t)) ?s s'" unfolding root.simps by blast
  have "rb_insert k rot s n newleft = Inr s'"
    using s'(1) h(2) pc by (simp add: rb_insert_def node_at_Inr rb_red_parent_def)
  moreover have "is_rbt (ins_fix fs ?t)" by (rule ins_fix_ok [OF p]) (simp_all add: wft_def)
  ultimately show thesis using that s' h(3)
    by (auto simp: rb_tree_def ins_fix_inorder agree_def addrs_plug)
qed

lemma rb_link_insert_ok:
  assumes t: "rb_tree s (plug fs Leaf)" "is_rbt (plug fs Leaf)" and n: "good n" "n \<notin> addrs (plug fs Leaf)" "nodes s n \<noteq> None"
    and d: "\<And>e c a u gs. fs = Frame e c a u # gs \<Longrightarrow> d = e" and k: "hgt (plug fs Leaf) < k"
  obtains s' where "rbind (rb_link_node s n (top_of fs) d) (\<lambda>s1. rb_insert k rot s1 n newleft) = Inr s'"
    "holds s' (pre fs @ n # post fs)" "leftmost s' = (if newleft then n else leftmost s)"
proof -
  obtain s1 where s1: "rb_link_node s n (top_of fs) d = Inr s1" "rb_tree s1 (plug fs (Node Leaf Red n Leaf))"
    "agree (insert n (fset fs)) s s1" by (rule rb_link_node_ok [OF t(1) n d])
  have "length fs < k" using k hgt_plug [of fs Leaf] by simp
  from rb_insert_ok [OF s1(2) t(2) this, of rot newleft] obtain s' where s': "rb_insert k rot s1 n newleft = Inr s'"
    "rb_tree s' (ins_fix fs (Node Leaf Red n Leaf))" "is_rbt (ins_fix fs (Node Leaf Red n Leaf))"
    "leftmost s' = (if newleft then n else leftmost s1)" by blast
  have "holds s' (pre fs @ n # post fs)"
    by (rule holdsI [OF s'(2,3)]) (simp add: ins_fix_inorder inorder_plug)
  then show thesis using that s1 s' by (simp add: agree_def)
qed

end
