(* ===== verification/Rbtree_Walk.thy ===== *)
theory Rbtree_Walk
  imports Rbtree_Insert
begin

text \<open>
  The walks of \<^verbatim>\<open>lib/ulib/rbtree.c\<close>: from the first node to the last, from the last to the first, and in
  postorder.  Each of them starts at the head of a sequence and steps from every element to the next;
  the locale \<open>ordered_walk\<close> says so, and that a loop over such a walk visits the sequence.
\<close>

section \<open>Loops over a walk\<close>

definition first_of :: "ptr list \<Rightarrow> ptr" where
  "first_of xs = (case xs of [] \<Rightarrow> 0 | x # _ \<Rightarrow> x)"

lemma first_of_simps [simp]: "first_of [] = 0" "first_of (x # xs) = x" "first_of (xs @ ys) = (if xs = [] then first_of ys else first_of xs)"
  by (simp_all add: first_of_def split: list.splits)

lemma first_of_hd: "xs \<noteq> [] \<Longrightarrow> first_of xs = hd xs"
  by (cases xs) simp_all

text \<open>The nodes that the loop \<^verbatim>\<open>for (n = first; n; n = next(n))\<close> visits.\<close>

primrec walk_from :: "nat \<Rightarrow> (ptr \<Rightarrow> ptr res) \<Rightarrow> ptr \<Rightarrow> ptr list res" where
  "walk_from 0 nxt n = Inl Fuel"
| "walk_from (Suc k) nxt n = (if n = 0 then Inr [] else rbind (nxt n) (\<lambda>q. rbind (walk_from k nxt q) (\<lambda>xs. Inr (n # xs))))"

locale ordered_walk =
  fixes view :: "nat \<Rightarrow> 's \<Rightarrow> ptr list \<Rightarrow> bool" and first :: "nat \<Rightarrow> 's \<Rightarrow> ptr res" and nxt :: "nat \<Rightarrow> 's \<Rightarrow> ptr \<Rightarrow> ptr res"
  assumes first_ok: "view k s xs \<Longrightarrow> first k s = Inr (first_of xs)"
    and next_ok: "view k s (xs @ n # ys) \<Longrightarrow> nxt k s n = Inr (first_of ys)"
    and nonzero: "view k s xs \<Longrightarrow> 0 \<notin> set xs"
begin

lemma walk_rest: "view k s (xs @ ys) \<Longrightarrow> length ys < m \<Longrightarrow> walk_from m (nxt k s) (first_of ys) = Inr ys"
proof (induction m arbitrary: xs ys)
  case (Suc m)
  show ?case
  proof (cases ys)
    case (Cons n zs)
    have "n \<noteq> 0" using nonzero [OF Suc.prems(1)] by (auto simp: Cons)
    moreover have "nxt k s n = Inr (first_of zs)" by (rule next_ok [of k s xs]) (use Suc.prems Cons in auto)
    moreover have "walk_from m (nxt k s) (first_of zs) = Inr zs" by (rule Suc.IH [of "xs @ [n]"]) (use Suc.prems Cons in auto)
    ultimately show ?thesis by (simp add: Cons)
  qed simp
qed simp

lemma walk_all: "view k s xs \<Longrightarrow> length xs < m \<Longrightarrow> rbind (first k s) (walk_from m (nxt k s)) = Inr xs"
  using first_ok [of k s xs] walk_rest [of k s "[]" xs m] by simp

end

section \<open>In order\<close>

definition last_of :: "ptr list \<Rightarrow> ptr" where
  "last_of xs = first_of (rev xs)"

lemma descend_ok:
  "rep (nodes s) par t \<Longrightarrow> t \<noteq> Leaf \<Longrightarrow> hgt t \<le> k \<Longrightarrow>
   descend k s d (root t) = Inr (if d = SLeft then first_of (inorder t) else last_of (inorder t))"
proof (induction t arbitrary: par k)
  case (Node l c a r)
  obtain k' where k: "k = Suc k'" using Node.prems(3) by (cases k) auto
  let ?t = "case d of SLeft \<Rightarrow> l | SRight \<Rightarrow> r"
  have h: "nodes s a = Some (nd SLeft (pc_of par c) (root l) (root r))" "rep (nodes s) a l" "rep (nodes s) a r" using Node.prems(1) by simp_all
  have len: "hgt l \<le> k'" "hgt r \<le> k'" using Node.prems(3) k by simp_all
  have z: "root l = 0 \<longleftrightarrow> l = Leaf" "root r = 0 \<longleftrightarrow> r = Leaf" using root_zero h(2,3) by blast+
  have ne: "t \<noteq> Leaf \<Longrightarrow> inorder t \<noteq> []" for t by (cases t) auto
  show ?case
  proof (cases d)
    case SLeft
    then show ?thesis using h(1) z Node.IH(1) [OF h(2) _ len(1)] ne by (auto simp: k node_at_Inr child_def)
  next
    case SRight
    then show ?thesis using h(1) z Node.IH(2) [OF h(3) _ len(2)] ne by (auto simp: k node_at_Inr child_def last_of_def)
  qed
qed simp

lemma frame_child:
  assumes "repc (nodes s) n (Frame e c a u # fs)" and "n \<notin> fset (Frame e c a u # fs)" and "n \<noteq> 0"
  shows "n = child d (nd e (pc_of (top_of fs) c) n (root u)) \<longleftrightarrow> d = e"
proof -
  have "root u \<noteq> n" using assms(2,3) root_addrs [of u] by (cases "u = Leaf") auto
  then show ?thesis by (cases d; cases e) (auto simp: child_def nd_def)
qed

lemma rb_parent_nd [simp]: "par = 0 \<or> good par \<Longrightarrow> rb_parent (nd d (pc_of par c) x y) = par"
  using pc_simps(1) [of par c] by (simp add: rb_parent_def pc_parent_def)

lemma ascend_ok:
  "repc (nodes s) n fs \<Longrightarrow> nodes s n = Some x \<Longrightarrow> rb_parent x = top_of fs \<Longrightarrow> n \<noteq> 0 \<Longrightarrow> n \<notin> fset fs \<Longrightarrow> dfs fs \<Longrightarrow> length fs < k \<Longrightarrow>
   ascend k s d n = Inr (if d = SRight then first_of (post fs) else last_of (pre fs))"
proof (induction fs arbitrary: n x k)
  case Nil
  then obtain k' where "k = Suc k'" by (cases k) auto
  then show ?case using Nil by (simp add: node_at_Inr last_of_def)
next
  case (Cons f fs)
  obtain e c a u where f: "f = Frame e c a u" by (cases f)
  obtain k' where k: "k = Suc k'" "length fs < k'" using Cons.prems(7) by (cases k) auto
  have h: "good a" "nodes s a = Some (nd e (pc_of (top_of fs) c) n (root u))" "repc (nodes s) a fs" using Cons.prems(1) by (simp_all add: f)
  have "ascend k s d n = (if d = e then ascend k' s d a else Inr a)"
    using Cons.prems(2,3) h frame_child [OF Cons.prems(1,5,4) [unfolded f], of d] by (auto simp: k f node_at_Inr good_def)
  moreover have "ascend k' s d a = Inr (if d = SRight then first_of (post fs) else last_of (pre fs))"
    by (rule Cons.IH [OF h(3,2)]) (use Cons.prems h k repc_top [OF h(3)] in \<open>auto simp: f good_def\<close>)
  ultimately show ?case by (cases d; cases e) (auto simp: f last_of_def)
qed

lemma not_empty_node: "good a \<Longrightarrow> par = 0 \<or> good par \<Longrightarrow> par \<noteq> a \<Longrightarrow> \<not> RB_EMPTY_NODE a (nd d (pc_of par c) x y)"
proof
  assume "good a" "par = 0 \<or> good par" "par \<noteq> a" "RB_EMPTY_NODE a (nd d (pc_of par c) x y)"
  then have "pc_of par c = pc_of a Red" using pc_simps(5) [of a] by (simp add: RB_EMPTY_NODE_def)
  then have "pc_parent (pc_of par c) = pc_parent (pc_of a Red)" by simp
  then show False using pc_simps(1) \<open>good a\<close> \<open>par = 0 \<or> good par\<close> \<open>par \<noteq> a\<close> by metis
qed

lemma top_fset: "fs \<noteq> [] \<Longrightarrow> top_of fs \<in> fset fs"
  by (cases fs rule: top_of.cases) auto

lemma rb_step_ok:
  assumes t: "rb_tree s (plug fs (Node l c n r))" and k: "hgt (plug fs (Node l c n r)) < k"
  shows "rb_step k s d n = Inr (if d = SRight then first_of (inorder r @ post fs) else last_of (pre fs @ inorder l))"
proof -
  have h: "good n" "nodes s n = Some (nd SLeft (pc_of (top_of fs) c) (root l) (root r))" "rep (nodes s) n l" "rep (nodes s) n r"
    "repc (nodes s) n fs" and ds: "n \<notin> fset fs" "dfs fs"
    using t by (auto simp: rb_tree_def rep_plug distinct_plug)
  have len: "hgt l \<le> k" "hgt r \<le> k" "length fs < k"
    using k hgt_plug [of fs "Node l c n r"] by simp_all
  note rt = repc_top [OF h(5)]
  have "top_of fs \<noteq> n" using ds(1) h(1) top_fset [of fs] by (cases "fs = []") (auto simp: good_def)
  then have e: "\<not> RB_EMPTY_NODE n (nd SLeft (pc_of (top_of fs) c) (root l) (root r))" by (rule not_empty_node [OF h(1) rt])
  have z: "root l = 0 \<longleftrightarrow> l = Leaf" "root r = 0 \<longleftrightarrow> r = Leaf" using root_zero h(3,4) by blast+
  have ne: "t \<noteq> Leaf \<Longrightarrow> inorder t \<noteq> []" for t by (cases t) auto
  have up: "ascend k s d n = Inr (if d = SRight then first_of (post fs) else last_of (pre fs))" for d
    by (rule ascend_ok [OF h(5,2)]) (use h ds len rt in \<open>auto simp: good_def\<close>)
  show ?thesis
    using e h(2) z up descend_ok [OF h(4) _ len(2), of SLeft] descend_ok [OF h(3) _ len(1), of SRight] ne
    by (cases d) (auto simp: rb_step_def node_at_Inr child_def last_of_def)
qed

text \<open>The nodes in order, and in the opposite order, of a tree of height less than \<open>k\<close>.\<close>

definition forth :: "nat \<Rightarrow> 'a rb_state \<Rightarrow> ptr list \<Rightarrow> bool" where
  "forth k s xs \<longleftrightarrow> (\<exists>t. rb_tree s t \<and> hgt t < k \<and> inorder t = xs)"

definition back_order :: "nat \<Rightarrow> 'a rb_state \<Rightarrow> ptr list \<Rightarrow> bool" where
  "back_order k s xs \<longleftrightarrow> (\<exists>t. rb_tree s t \<and> hgt t < k \<and> inorder t = rev xs)"

lemma rb_ends_ok:
  assumes "rb_tree s t" and "hgt t \<le> k"
  shows "rb_first k s = Inr (first_of (inorder t))" "rb_last k s = Inr (last_of (inorder t))"
proof -
  have h: "rep (nodes s) 0 t" "root_node s = root t" using assms(1) by (simp_all add: rb_tree_def)
  show "rb_first k s = Inr (first_of (inorder t))" "rb_last k s = Inr (last_of (inorder t))"
    using h root_zero [OF h(1)] descend_ok [OF h(1) _ assms(2)]
    by (cases "t = Leaf"; simp add: rb_first_def rb_last_def last_of_def)+
qed

lemma tree_nonzero: "rb_tree s t \<Longrightarrow> 0 \<notin> addrs t"
  using rep_good [of "nodes s" 0 t 0] by (auto simp: rb_tree_def good_def)

lemma rb_next_prev_ok:
  assumes "rb_tree s t" and "inorder t = xs @ n # ys" and "hgt t < k"
  shows "rb_next k s n = Inr (first_of ys)" "rb_prev k s n = Inr (last_of xs)"
proof -
  have "distinct (inorder t)" using assms(1) by (simp add: rb_tree_def)
  from inorder_at [OF assms(2) this] obtain fs l c r where e: "t = plug fs (Node l c n r)" "xs = pre fs @ inorder l"
    "ys = inorder r @ post fs" by blast
  show "rb_next k s n = Inr (first_of ys)" "rb_prev k s n = Inr (last_of xs)"
    using rb_step_ok [OF assms(1) [unfolded e(1)] assms(3) [unfolded e(1)]] unfolding rb_next_def rb_prev_def e(2,3) by simp_all
qed

interpretation rb_forward: ordered_walk forth rb_first rb_next
proof
  fix s :: "'a rb_state" and xs k
  show "0 \<notin> set xs" if "forth k s xs" using that by (auto simp: forth_def dest: tree_nonzero)
  show "rb_first k s = Inr (first_of xs)" if "forth k s xs" using that rb_ends_ok(1) by (fastforce simp: forth_def)
next
  fix s :: "'a rb_state" and xs n ys k
  show "rb_next k s n = Inr (first_of ys)" if "forth k s (xs @ n # ys)" using that rb_next_prev_ok(1) by (fastforce simp: forth_def)
qed

interpretation rb_backward: ordered_walk back_order rb_last rb_prev
proof
  fix s :: "'a rb_state" and xs k
  show "0 \<notin> set xs" if "back_order k s xs" using that tree_nonzero by (fastforce simp: back_order_def)
  show "rb_last k s = Inr (first_of xs)" if v: "back_order k s xs"
  proof -
    obtain t where t: "rb_tree s t" "hgt t < k" "inorder t = rev xs" using v by (auto simp: back_order_def)
    then show ?thesis using rb_ends_ok(2) [OF t(1), of k] by (simp add: last_of_def)
  qed
next
  fix s :: "'a rb_state" and xs n ys k
  assume "back_order k s (xs @ n # ys)"
  then obtain t where t: "rb_tree s t" "inorder t = rev ys @ n # rev xs" "hgt t < k" by (auto simp: back_order_def)
  from rb_next_prev_ok(2) [OF t] show "rb_prev k s n = Inr (first_of ys)" by (simp add: last_of_def)
qed

section \<open>Postorder\<close>

fun postorder :: "rbt \<Rightarrow> ptr list" where
  "postorder Leaf = []"
| "postorder (Node l c a r) = postorder l @ postorder r @ [a]"

lemma set_postorder [simp]: "set (postorder t) = addrs t"
  by (induction t) auto

lemma length_postorder: "length (postorder t) = length (inorder t)"
  by (induction t) auto

lemma distinct_postorder: "distinct (inorder t) \<Longrightarrow> distinct (postorder t)"
  by (induction t) auto

fun post_pre :: "frame list \<Rightarrow> ptr list" where
  "post_pre [] = []"
| "post_pre (Frame d c a u # fs) = post_pre fs @ (if d = SRight then postorder u else [])"

fun post_post :: "frame list \<Rightarrow> ptr list" where
  "post_post [] = []"
| "post_post (Frame d c a u # fs) = (if d = SLeft then postorder u else []) @ a # post_post fs"

lemma postorder_plug: "postorder (plug fs t) = post_pre fs @ postorder t @ post_post fs"
proof (induction fs arbitrary: t)
  case (Cons f fs)
  obtain d c a u where f: "f = Frame d c a u" by (cases f)
  show ?case using Cons.IH by (cases d) (simp_all add: f)
qed simp

lemma postorder_ne: "postorder t \<noteq> [] \<longleftrightarrow> t \<noteq> Leaf"
  by (cases t) auto

lemma left_deepest_ok:
  "rep (nodes s) par t \<Longrightarrow> t \<noteq> Leaf \<Longrightarrow> hgt t \<le> k \<Longrightarrow> rb_left_deepest_node k s (root t) = Inr (first_of (postorder t))"
proof (induction t arbitrary: par k)
  case (Node l c a r)
  obtain k' where k: "k = Suc k'" using Node.prems(3) by (cases k) auto
  have h: "nodes s a = Some (nd SLeft (pc_of par c) (root l) (root r))" "rep (nodes s) a l" "rep (nodes s) a r" using Node.prems(1) by simp_all
  have len: "hgt l \<le> k'" "hgt r \<le> k'" using Node.prems(3) k by simp_all
  have z: "root l = 0 \<longleftrightarrow> l = Leaf" "root r = 0 \<longleftrightarrow> r = Leaf" using root_zero h(2,3) by blast+
  show ?case using h(1) z Node.IH(1) [OF h(2) _ len(1)] Node.IH(2) [OF h(3) _ len(2)] postorder_ne [of l] postorder_ne [of r]
    by (auto simp: k node_at_Inr)
qed simp

lemma next_postorder_ok:
  assumes t: "rb_tree s (plug fs (Node l c n r))" and k: "hgt (plug fs (Node l c n r)) \<le> k"
  shows "rb_next_postorder k s n = Inr (first_of (post_post fs))"
proof -
  have h: "good n" "nodes s n = Some (nd SLeft (pc_of (top_of fs) c) (root l) (root r))" "repc (nodes s) n fs" and ds: "n \<notin> fset fs"
    using t by (auto simp: rb_tree_def rep_plug distinct_plug)
  have nz: "n \<noteq> 0" using h(1) by (simp add: good_def)
  note rt = repc_top [OF h(3)]
  show ?thesis
  proof (cases fs)
    case Nil
    then show ?thesis using h(2) nz by (simp add: rb_next_postorder_def node_at_Inr)
  next
    case (Cons f gs)
    obtain e c' a u where f: "f = Frame e c' a u" by (cases f)
    have g: "good a" "nodes s a = Some (nd e (pc_of (top_of gs) c') n (root u))" "rep (nodes s) a u" using h(3) by (simp_all add: Cons f)
    have L: "n = rb_left (nd e (pc_of (top_of gs) c') n (root u)) \<longleftrightarrow> e = SLeft"
      using frame_child [OF h(3) [unfolded Cons f] ds [unfolded Cons f] nz, of SLeft] by (auto simp: child_def)
    have "hgt u \<le> k" using k hgt_plug [of gs "mk e (Node l c n r) c' a u"] by (simp add: hgt_mk Cons f)
    note D = left_deepest_ok [OF g(3) _ this]
    show ?thesis using h(2) g(1,2) nz rt L D root_zero [OF g(3)] postorder_ne [of u]
      by (cases e) (auto simp: rb_next_postorder_def node_at_Inr Cons f good_def)
  qed
qed

definition children_first :: "nat \<Rightarrow> 'a rb_state \<Rightarrow> ptr list \<Rightarrow> bool" where
  "children_first k s xs \<longleftrightarrow> (\<exists>t. rb_tree s t \<and> hgt t < k \<and> postorder t = xs)"

lemma postorder_at:
  assumes "postorder t = xs @ p # ys" and d: "distinct (inorder t)"
  obtains fs l c r where "t = plug fs (Node l c p r)" "ys = post_post fs"
proof -
  have "p \<in> addrs t" using assms(1) set_postorder [of t] by (metis in_set_conv_decomp)
  then obtain fs l c r where t: "t = plug fs (Node l c p r)" using path_to by blast
  have e: "xs @ p # ys = (post_pre fs @ postorder l @ postorder r) @ p # post_post fs" using assms(1) by (simp add: t postorder_plug)
  have "p \<notin> set xs" "p \<notin> set ys" using distinct_postorder [OF d] unfolding assms(1) by auto
  then have "xs = post_pre fs @ postorder l @ postorder r \<and> ys = post_post fs" by (intro append_Cons_eq_iff [THEN iffD1, OF _ _ e])
  then show thesis using that t by blast
qed

interpretation rb_postorder: ordered_walk children_first rb_first_postorder rb_next_postorder
proof
  fix s :: "'a rb_state" and xs k
  show "0 \<notin> set xs" if "children_first k s xs" using that by (auto simp: children_first_def dest: tree_nonzero)
  show "rb_first_postorder k s = Inr (first_of xs)" if v: "children_first k s xs"
  proof -
    obtain t where t: "rb_tree s t" "hgt t < k" "postorder t = xs" using v by (auto simp: children_first_def)
    then have h: "rep (nodes s) 0 t" "root_node s = root t" "hgt t \<le> k" by (simp_all add: rb_tree_def)
    show ?thesis using left_deepest_ok [OF h(1) _ h(3)] root_zero [OF h(1)] h(2) t(3)
      by (cases "t = Leaf") (auto simp: rb_first_postorder_def)
  qed
next
  fix s :: "'a rb_state" and xs n ys k
  assume "children_first k s (xs @ n # ys)"
  then obtain t where t: "rb_tree s t" "postorder t = xs @ n # ys" "hgt t \<le> k" by (auto simp: children_first_def)
  have d: "distinct (inorder t)" using t(1) by (simp add: rb_tree_def)
  from postorder_at [OF t(2) d] obtain fs l c r where e: "t = plug fs (Node l c n r)" "ys = post_post fs" by blast
  from next_postorder_ok [OF t(1) [unfolded e(1)] t(3) [unfolded e(1)]] show "rb_next_postorder k s n = Inr (first_of ys)"
    unfolding e(2) .
qed

section \<open>Replacing a node\<close>

lemma rb_replace_node_ok:
  assumes t: "rb_tree s (plug fs (Node l c v r))" and n: "good n" "n \<notin> addrs (plug fs (Node l c v r))" "nodes s n \<noteq> None"
  obtains s' where "rb_replace_node s v n = Inr s'" "rb_tree s' (plug fs (Node l c n r))" "leftmost s' = leftmost s"
proof -
  let ?m = "nd SLeft (pc_of (top_of fs) c) (root l) (root r)"
  let ?s1 = "s\<lparr>nodes := (nodes s)(n \<mapsto> ?m)\<rparr>"
  have h: "good v" "nodes s v = Some ?m" "rep (nodes s) v l" "rep (nodes s) v r" "repc (nodes s) v fs"
    and ds: "v \<notin> fset fs" "dfs fs" "distinct (inorder l)" "distinct (inorder r)" "addrs l \<inter> addrs r = {}"
      "addrs l \<inter> fset fs = {}" "addrs r \<inter> fset fs = {}"
    and nn: "n \<notin> addrs l" "n \<notin> addrs r" "n \<notin> fset fs"
    using t n(2) by (auto simp: rb_tree_def rep_plug distinct_plug addrs_plug)
  have s1: "upd s n (\<lambda>_. ?m) = Inr ?s1" using n(3) by (auto simp: upd_def)
  have "rep (nodes ?s1) v l" using h(3) nn by simp
  from reparent_keep [OF this _ ds(3), of n] h(1) obtain s2 where s2:
    "unless_null (root l) ?s1 (rb_set_parent ?s1 (root l) n) = Inr s2" "rep (nodes s2) n l" "agree (addrs l) ?s1 s2" "root_node s2 = root_node s"
    by auto
  have "rep (nodes s2) v r" using agree_rep [OF s2(3), of r v] h(4) nn ds by (simp add: inf_commute)
  from reparent_keep [OF this _ ds(4), of n] h(1) obtain s3 where s3:
    "unless_null (root r) s2 (rb_set_parent s2 (root r) n) = Inr s3" "rep (nodes s3) n r" "agree (addrs r) s2 s3" "root_node s3 = root_node s2"
    by auto
  have c3: "repc (nodes s3) v fs"
    using agree_repc [OF s3(3), of fs v] agree_repc [OF s2(3), of fs v] h(5) nn ds by (simp add: inf_commute)
  obtain s4 where s4: "rb_change_child s3 v n (top_of fs) = Inr s4" "repc (nodes s4) n fs" "agree (fset fs) s3 s4"
    "root_node s4 = (if fs = [] then n else root_node s3)"
    by (rule change_child_ok [OF c3 _ ds(1,2)]) (use h(1) in \<open>auto simp: good_def\<close>)
  have "rb_replace_node s v n = Inr s4"
    using h(2) s1 s2(1) s3(1) s4(1) repc_top [OF h(5)] by (simp add: rb_replace_node_def node_at_Inr)
  moreover have "nodes s4 n = Some ?m" using agreeD [OF s4(3) nn(3)] agreeD [OF s3(3) nn(2)] agreeD [OF s2(3) nn(1)] by simp
  moreover have "rep (nodes s4) n l" "rep (nodes s4) n r"
    using agree_rep [OF s4(3), of l n] agree_rep [OF s3(3), of l n] agree_rep [OF s4(3), of r n] s2(2) s3(2) ds by simp_all
  moreover have "root_node s4 = root (plug fs (Node l c n r))"
    using s4(4) s3(4) s2(4) t root_plug(1) [of fs "Node l c n r" "Node l c v r"] by (auto simp: rb_tree_def)
  ultimately show thesis
    using s4(2,3) s3(3) s2(3) n ds nn by (intro that [of s4]) (auto simp: rb_tree_def rep_plug distinct_plug agree_def)
qed

end
