(* ===== verification/Rbtree_Erase.thy ===== *)
theory Rbtree_Erase
  imports Rbtree_Walk
begin

text \<open>
  Removal: the rebalancing of \<^verbatim>\<open>lib/ulib/rbtree.c\<close> refines \<open>del_fix\<close>, and the removal of
  \<^verbatim>\<open>include/linux/rbree_augmented.h\<close> refines \<open>erase_at\<close>.
\<close>

section \<open>Rotations\<close>

lemma erase_case4_ok:
  assumes h: "repc (nodes s) p fs" "nodes s p = Some (nd d (pc_of (top_of fs) cp) (root t) z)"
      "nodes s b = Some (nd d pb (root x) (root y))" "rep (nodes s) p t" "rep (nodes s) b x" "rep (nodes s) q y" "q = 0 \<or> good q" "y \<noteq> Leaf"
    and g: "good p" "good b" and ds: "distinct (inorder (plug fs (mk d (mk d t Black p x) cp b y)))"
  obtains s' where "erase_case4 rot s d p b (root y) = Inr s'"
    "rep (nodes s') 0 (plug fs (mk d (mk d t Black p x) cp b (paint Black y)))"
    "agree (fset fs \<union> {p, b} \<union> addrs x \<union> addrs y) s s'" "root_node s' = (if fs = [] then b else root_node s)"
proof -
  have D: "dfs fs" "p \<noteq> b" "p \<notin> fset fs" "b \<notin> fset fs" "p \<notin> addrs t" "b \<notin> addrs t" "p \<notin> addrs x" "b \<notin> addrs x" "p \<notin> addrs y" "b \<notin> addrs y"
    "addrs x \<inter> fset fs = {}" "addrs x \<inter> addrs t = {}" "addrs x \<inter> addrs y = {}" "addrs y \<inter> fset fs = {}" "addrs y \<inter> addrs t = {}"
    "addrs t \<inter> fset fs = {}" "distinct (inorder x)" "distinct (inorder y)"
    using ds by (auto simp: distinct_plug distinct_mk)
  let ?s2 = "s\<lparr>nodes := (nodes s)(p \<mapsto> nd d (pc_of (top_of fs) cp) (root t) (root x), b \<mapsto> nd d pb p (root y))\<rparr>"
  have s2: "rbind (set_child s (opp d) p (root x)) (\<lambda>s1. set_child s1 d b p) = Inr ?s2"
    using h D(2) by (simp add: set_child_def upd_Inr)
  have yz: "root y \<noteq> 0" using root_zero [OF h(6)] h(8) by simp
  have "rep (nodes ?s2) q y" using h(6) D by simp
  from reparent_black [OF this h(7) D(18), of b Black] yz obtain s3 where s3:
    "rb_set_parent_color ?s2 (root y) b RB_BLACK = Inr s3" "rep (nodes s3) b (paint Black y)" "agree (addrs y) ?s2 s3" "root_node s3 = root_node s"
    by (auto simp: unless_null_def)
  have "rep (nodes s3) b x" using agree_rep [OF s3(3), of x b] h(5) D by simp
  from reparent_keep [OF this _ D(17), of p] g obtain s4 where s4:
    "unless_null (root x) s3 (rb_set_parent s3 (root x) p) = Inr s4" "rep (nodes s4) p x" "agree (addrs x) s3 s4" "root_node s4 = root_node s3"
    by auto
  have n4: "nodes s4 p = Some (nd d (pc_of (top_of fs) cp) (root t) (root x))" "nodes s4 b = Some (nd d pb p (root y))"
    using agreeD [OF s4(3), of p] agreeD [OF s4(3), of b] agreeD [OF s3(3), of p] agreeD [OF s3(3), of b] D by simp_all
  have r4: "repc (nodes s4) p fs"
    using agree_repc [OF s4(3), of fs p] agree_repc [OF s3(3), of fs p] h(1) D by (simp add: inf_commute)
  obtain s5 where s5: "rb_rotate_set_parents s4 p b RB_BLACK = Inr s5" "repc (nodes s5) b fs"
    "nodes s5 b = Some (nd d (pc_of (top_of fs) cp) p (root y))" "nodes s5 p = Some (nd d (pc_of b Black) (root t) (root x))"
    "agree (fset fs \<union> {p, b}) s4 s5" "root_node s5 = (if fs = [] then b else root_node s4)"
    by (rule rotate_ok [OF r4 n4(1) _ n4(2), of cp Black]) (use D g in \<open>auto simp: good_def\<close>)
  have "erase_case4 rot s d p b (root y) = Inr (call rot s5 p b)"
    using s2 s3(1) s4(1) s5(1) h(3) unfolding erase_case4_def by (auto simp: rbind_Inr_iff node_at_Inr Let_def)
  moreover have "rep (nodes s5) b (paint Black y)"
    using agree_rep [OF s5(5), of "paint Black y" b] agree_rep [OF s4(3), of "paint Black y" b] s3(2) D by (simp add: inf_commute)
  moreover have "rep (nodes s5) p x" using agree_rep [OF s5(5), of x p] s4(2) D by simp
  moreover have "rep (nodes s5) p t"
    using agree_rep [OF s5(5), of t p] agree_rep [OF s4(3), of t p] agree_rep [OF s3(3), of t p] h(4) D by (simp add: inf_commute)
  ultimately show thesis
    using s5(2-4,6) s4(4) s3(4) g by (intro that [of "call rot s5 p b"])
      (auto simp: rep_plug rep_mk agree_def, use s5(5) s4(3) s3(3) in \<open>auto simp: agree_def\<close>)
qed

lemma erase_case3_ok:
  assumes h: "nodes s p = Some (nd d pp (root t) b)" "nodes s b = Some (nd d (pc_of p Black) m (root y))"
      "nodes s m = Some (nd d pm (root x1) (root x2))" "rep (nodes s) m x1" "rep (nodes s) m x2" "rep (nodes s) b y"
    and g: "good p" "good b" "good m" and ds: "distinct (inorder (mk d t Red p (mk d (mk d x1 Red m x2) Black b y)))"
  obtains s' where "erase_case3 rot s d p b m = Inr s'" "nodes s' p = Some (nd d pp (root t) m)" "nodes s' m = Some (nd d pm (root x1) b)"
    "rep (nodes s') p (mk d (paint Black x2) Black b y)" "rep (nodes s') m x1" "agree ({p, b, m} \<union> addrs x2) s s'" "root_node s' = root_node s"
proof -
  have D: "p \<noteq> b" "p \<noteq> m" "b \<noteq> m" "p \<notin> addrs x1" "p \<notin> addrs x2" "p \<notin> addrs y" "b \<notin> addrs x1" "b \<notin> addrs x2" "b \<notin> addrs y"
    "m \<notin> addrs x1" "m \<notin> addrs x2" "m \<notin> addrs y" "addrs x2 \<inter> addrs x1 = {}" "addrs x2 \<inter> addrs y = {}" "distinct (inorder x2)"
    using ds by (auto simp: distinct_mk)
  let ?s3 = "s\<lparr>nodes := (nodes s)(b \<mapsto> nd d (pc_of p Black) (root x2) (root y), m \<mapsto> nd d pm (root x1) b, p \<mapsto> nd d pp (root t) m)\<rparr>"
  have s3: "rbind (set_child s d b (root x2)) (\<lambda>s1. rbind (set_child s1 (opp d) m b) (\<lambda>s2. set_child s2 (opp d) p m)) = Inr ?s3"
    using h D by (simp add: set_child_def upd_Inr)
  have "rep (nodes ?s3) m x2" using h(5) D by simp
  from reparent_black [OF this _ D(15), of b Black] g obtain s4 where s4:
    "unless_null (root x2) ?s3 (rb_set_parent_color ?s3 (root x2) b RB_BLACK) = Inr s4" "rep (nodes s4) b (paint Black x2)"
    "agree (addrs x2) ?s3 s4" "root_node s4 = root_node s" by auto
  note A = agreeD [OF s4(3)]
  have n: "nodes s4 p = Some (nd d pp (root t) m)" "nodes s4 m = Some (nd d pm (root x1) b)" "nodes s4 b = Some (nd d (pc_of p Black) (root x2) (root y))"
    using A [of p] A [of m] A [of b] D by simp_all
  have "erase_case3 rot s d p b m = Inr (call rot s4 b m)"
    using s3 s4(1) h(3) unfolding erase_case3_def by (auto simp: rbind_Inr_iff node_at_Inr Let_def)
  moreover have "rep (nodes s4) m x1" "rep (nodes s4) b y"
    using agree_rep [OF s4(3), of x1 m] agree_rep [OF s4(3), of y b] h D by (simp_all add: inf_commute)
  ultimately show thesis
    using n s4(2,4) g by (intro that [of "call rot s4 b m"])
      (auto simp: rep_mk agree_def, use s4(3) in \<open>auto simp: agree_def\<close>)
qed

lemma erase_case1_ok:
  assumes h: "repc (nodes s) (root t) (Frame d cp p (mk d x Red b y) # fs)" "rep (nodes s) p t" "x \<noteq> Leaf"
    and ds: "distinct (inorder (plug (Frame d cp p (mk d x Red b y) # fs) t))"
  obtains s' where "erase_case1 rot s d p b = Inr (root x, s')"
    "repc (nodes s') (root t) (Frame d Red p (paint Black x) # Frame d cp b y # fs)" "rep (nodes s') p t"
    "agree (fset fs \<union> {p, b} \<union> addrs x) s s'" "root_node s' = (if fs = [] then b else root_node s)"
proof -
  have n: "good p" "good b" "nodes s p = Some (nd d (pc_of (top_of fs) cp) (root t) b)" "nodes s b = Some (nd d (pc_of p Red) (root x) (root y))"
    "rep (nodes s) b x" "rep (nodes s) b y" "repc (nodes s) p fs" using h(1) by (simp_all add: rep_mk)
  have D: "dfs fs" "p \<noteq> b" "p \<notin> fset fs" "b \<notin> fset fs" "p \<notin> addrs t" "b \<notin> addrs t" "p \<notin> addrs x" "b \<notin> addrs x" "p \<notin> addrs y" "b \<notin> addrs y"
    "addrs x \<inter> fset fs = {}" "addrs x \<inter> addrs t = {}" "addrs x \<inter> addrs y = {}" "addrs y \<inter> fset fs = {}"
    "addrs t \<inter> fset fs = {}" "distinct (inorder x)"
    using ds by (auto simp: distinct_plug distinct_mk)
  let ?s2 = "s\<lparr>nodes := (nodes s)(p \<mapsto> nd d (pc_of (top_of fs) cp) (root t) (root x), b \<mapsto> nd d (pc_of p Red) p (root y))\<rparr>"
  have s2: "rbind (set_child s (opp d) p (root x)) (\<lambda>s1. set_child s1 d b p) = Inr ?s2"
    using n D(2) by (simp add: set_child_def upd_Inr)
  have xz: "root x \<noteq> 0" using root_zero [OF n(5)] h(3) by simp
  have "rep (nodes ?s2) b x" using n(5) D by simp
  from reparent_black [OF this _ D(16), of p Black] xz n(2) obtain s3 where s3:
    "rb_set_parent_color ?s2 (root x) p RB_BLACK = Inr s3" "rep (nodes s3) p (paint Black x)" "agree (addrs x) ?s2 s3" "root_node s3 = root_node s"
    by (auto simp: unless_null_def)
  have n3: "nodes s3 p = Some (nd d (pc_of (top_of fs) cp) (root t) (root x))" "nodes s3 b = Some (nd d (pc_of p Red) p (root y))"
    using agreeD [OF s3(3), of p] agreeD [OF s3(3), of b] D by simp_all
  have r3: "repc (nodes s3) p fs" using agree_repc [OF s3(3), of fs p] n(7) D by (simp add: inf_commute)
  obtain s4 where s4: "rb_rotate_set_parents s3 p b RB_RED = Inr s4" "repc (nodes s4) b fs"
    "nodes s4 b = Some (nd d (pc_of (top_of fs) cp) p (root y))" "nodes s4 p = Some (nd d (pc_of b Red) (root t) (root x))"
    "agree (fset fs \<union> {p, b}) s3 s4" "root_node s4 = (if fs = [] then b else root_node s3)"
    by (rule rotate_ok [OF r3 n3(1) _ n3(2), of cp Red]) (use D n in \<open>auto simp: good_def\<close>)
  have "rb_is_red (nd d (pc_of p Red) (root x) (root y))" using n(1) by (simp add: rb_is_red_def pc_simps(4))
  then have "erase_case1 rot s d p b = Inr (root x, call rot s4 p b)"
    using s2 s3(1) s4(1) n(4) unfolding erase_case1_def by (auto simp: rbind_Inr_iff node_at_Inr Let_def)
  moreover have "rep (nodes s4) p (paint Black x)" using agree_rep [OF s4(5), of "paint Black x" p] s3(2) D by simp
  moreover have "rep (nodes s4) p t" "rep (nodes s4) b y"
    using agree_rep [OF s4(5), of t p] agree_rep [OF s3(3), of t p] agree_rep [OF s4(5), of y b] agree_rep [OF s3(3), of y b] h(2) n(6) D
    by (simp_all add: inf_commute)
  ultimately show thesis
    using s4(2-4,6) s3(4) n(1,2) by (intro that [of "call rot s4 p b"])
      (auto simp: agree_def, use s4(5) s3(3) in \<open>auto simp: agree_def\<close>)
qed

section \<open>The loop\<close>

text \<open>One round with a black sibling; \<open>up\<close> is what follows when the parent's subtree is still short.\<close>

definition erase_round ::
  "('a rb_state \<Rightarrow> ptr \<Rightarrow> ptr \<Rightarrow> 'a rb_state res) \<Rightarrow> (rb_heap \<Rightarrow> ptr \<Rightarrow> ptr \<Rightarrow> 'a \<Rightarrow> 'a) \<Rightarrow> 'a rb_state \<Rightarrow> side \<Rightarrow> ptr \<Rightarrow> ptr \<Rightarrow> 'a rb_state res" where
  "erase_round up rot s d parent sibling =
     rbind (node_at s sibling) (\<lambda>sn. let tmp1 = child (opp d) sn in
       rbind (is_red_at s tmp1) (\<lambda>red1.
         if red1 then erase_case4 rot s d parent sibling tmp1
         else let tmp2 = child d sn in
           rbind (is_red_at s tmp2) (\<lambda>red2.
             if red2 then rbind (erase_case3 rot s d parent sibling tmp2) (\<lambda>s1. erase_case4 rot s1 d parent tmp2 sibling)
             else
               rbind (rb_set_parent_color s sibling parent RB_RED) (\<lambda>s1.
                 rbind (node_at s1 parent) (\<lambda>p.
                   if rb_is_red p then rb_set_black s1 parent
                   else if rb_parent p \<noteq> 0 then up s1 parent (rb_parent p)
                   else Inr s1)))))"

lemma rb_erase_color_round:
  "rb_erase_color (Suc k) rot s node parent =
     rbind (node_at s parent) (\<lambda>p. let d = (if node \<noteq> rb_right p then SLeft else SRight) in
       rbind (erase_case1 rot s d parent (child (opp d) p)) (\<lambda>(sibling, s). erase_round (rb_erase_color k rot) rot s d parent sibling))"
  by (simp add: erase_round_def)

lemma erase_round_ok:
  assumes h: "repc (nodes s) (root t) (Frame d cp p S # fs)" "rep (nodes s) p t" "S \<noteq> Leaf" "col S = Black"
    and ds: "distinct (inorder (plug (Frame d cp p S # fs) t))" and rn: "root_node s = root (plug (Frame d cp p S # fs) t)"
  obtains s' where "erase_round up rot s d p (root S) =
       (if fst (bal_del d cp t p S) \<and> top_of fs \<noteq> 0 then up s' p (top_of fs) else Inr s')"
    "rep (nodes s') 0 (plug fs (snd (bal_del d cp t p S)))" "agree (addrs (plug (Frame d cp p S # fs) t)) s s'"
    "root_node s' = root (plug fs (snd (bal_del d cp t p S)))"
proof -
  have rn': "root (plug fs u) = (if fs = [] then root u else root_node s)" for u
    using rn root_plug(1) [of fs u "mk d t cp p S"] by auto
  obtain x b y where S: "S = mk d x Black b y" using h(3,4) by (rule_tac t = S and d = d in tree_cases_mk) auto
  have n: "good p" "good b" "nodes s p = Some (nd d (pc_of (top_of fs) cp) (root t) b)" "nodes s b = Some (nd d (pc_of p Black) (root x) (root y))"
    "rep (nodes s) b x" "rep (nodes s) b y" "repc (nodes s) p fs" using h(1) by (simp_all add: S rep_mk)
  have red: "is_red_at s (root x) = Inr (col x = Red)" "is_red_at s (root y) = Inr (col y = Red)"
    using is_red_at_ok n by blast+
  have D: "distinct (inorder (plug fs (mk d t cp p (mk d x Black b y))))" using ds by (simp add: S)
  show thesis
  proof (cases "col y = Red")
    case True
    have "distinct (inorder (plug fs (mk d (mk d t Black p x) cp b y)))" using D by (auto simp: distinct_plug distinct_mk)
    moreover have "y \<noteq> Leaf" using True by auto
    ultimately obtain s' where "erase_case4 rot s d p b (root y) = Inr s'"
      "rep (nodes s') 0 (plug fs (mk d (mk d t Black p x) cp b (paint Black y)))"
      "agree (fset fs \<union> {p, b} \<union> addrs x \<union> addrs y) s s'" "root_node s' = (if fs = [] then b else root_node s)"
      using erase_case4_ok [OF n(7,3,4) h(2) n(5,6) _ _ n(1,2), of rot] n(2) by blast
    then show thesis using True n(4) red
      by (intro that [of s']) (auto simp: erase_round_def S bal_del_def node_at_Inr agree_def addrs_plug rn')
  next
    case y: False
    show thesis
    proof (cases "col x = Red")
      case True
      then obtain x1 m x2 where x: "x = mk d x1 Red m x2" by (rule_tac t = x and d = d in tree_cases_mk) auto
      have m: "good m" "nodes s m = Some (nd d (pc_of b Red) (root x1) (root x2))" "rep (nodes s) m x1" "rep (nodes s) m x2"
        using n(5) by (simp_all add: x rep_mk)
      have "distinct (inorder (mk d t Red p (mk d (mk d x1 Red m x2) Black b y)))" using D by (simp add: distinct_plug distinct_mk x)
      from erase_case3_ok [OF n(3) n(4) [unfolded x, simplified] m(2-4) n(6) n(1,2) m(1) this, of rot] obtain s1 where s1:
        "erase_case3 rot s d p b m = Inr s1" "nodes s1 p = Some (nd d (pc_of (top_of fs) cp) (root t) m)"
        "nodes s1 m = Some (nd d (pc_of b Red) (root x1) b)" "rep (nodes s1) p (mk d (paint Black x2) Black b y)" "rep (nodes s1) m x1"
        "agree ({p, b, m} \<union> addrs x2) s s1" "root_node s1 = root_node s" by blast
      let ?y = "mk d (paint Black x2) Black b y"
      have k1: "repc (nodes s1) p fs" "rep (nodes s1) p t"
        using agree_repc [OF s1(6), of fs p] agree_rep [OF s1(6), of t p] n(7) h(2) D by (auto simp: distinct_plug distinct_mk x)
      have D2: "distinct (inorder (plug fs (mk d (mk d t Black p x1) cp m ?y)))" using D by (auto simp: distinct_plug distinct_mk x)
      have m1: "nodes s1 m = Some (nd d (pc_of b Red) (root x1) (root ?y))" using s1(3) by simp
      obtain s' where s': "erase_case4 rot s1 d p m (root ?y) = Inr s'"
        "rep (nodes s') 0 (plug fs (mk d (mk d t Black p x1) cp m (paint Black ?y)))"
        "agree (fset fs \<union> {p, m} \<union> addrs x1 \<union> addrs ?y) s1 s'" "root_node s' = (if fs = [] then m else root_node s1)"
        by (rule erase_case4_ok [OF k1(1) s1(2) m1 k1(2) s1(5,4) _ _ n(1) m(1) D2, of rot]) (use n(1) in auto)
      have "agree (addrs (plug (Frame d cp p S # fs) t)) s s'"
        by (rule agree_trans [OF s1(6) s'(3)]) (auto simp: addrs_plug S x)
      then show thesis using y True n(4) red s1(1,7) s'
        by (intro that [of s']) (auto simp: erase_round_def S x bal_del_def node_at_Inr rn')
    next
      case x: False
      have Df: "p \<noteq> b" "p \<notin> addrs t" "p \<notin> addrs x" "p \<notin> addrs y" "p \<notin> fset fs" "b \<notin> addrs t" "b \<notin> addrs x" "b \<notin> addrs y" "b \<notin> fset fs"
        using D by (auto simp: distinct_plug distinct_mk)
      let ?s1 = "s\<lparr>nodes := (nodes s)(b \<mapsto> nd d (pc_of p Red) (root x) (root y))\<rparr>"
      let ?s2 = "s\<lparr>nodes := (nodes s)(b \<mapsto> nd d (pc_of p Red) (root x) (root y), p \<mapsto> nd d (pc_of (top_of fs) Black) (root t) b)\<rparr>"
      have s1: "rb_set_parent_color s b p RB_RED = Inr ?s1" using n(4) by (simp add: step_defs upd_Inr pc_of_def)
      have s2: "rb_set_black ?s1 p = Inr ?s2" using n(3) Df(1) pc_simps(6) [OF repc_top [OF n(7)]] by (simp add: step_defs upd_Inr)
      have pn: "node_at ?s1 p = Inr (nd d (pc_of (top_of fs) cp) (root t) b)" using n(3) Df(1) by (simp add: node_at_Inr)
      have pr: "rb_is_red (nd d (pc_of (top_of fs) cp) (root t) b) \<longleftrightarrow> cp = Red"
        using pc_simps(4) [OF repc_top [OF n(7)]] by (simp add: rb_is_red_def)
      have B: "bal_del d cp t p S = (cp = Black, mk d t Black p (mk d x Red b y))" using x y by (simp add: bal_del_def S)
      have R: "rep (nodes ?s2) 0 (plug fs (snd (bal_del d cp t p S)))"
        unfolding B using n Df h(2) by (simp add: rep_plug rep_mk)
      show thesis
      proof (cases cp)
        case Red
        have "root_node ?s2 = root (plug fs (snd (bal_del d cp t p S)))" using rn by (auto simp: B rn')
        then show thesis using Red R n(4) x y red s1 s2 pn pr
          by (intro that [of ?s2]) (auto simp: erase_round_def S bal_del_def node_at_Inr agree_def addrs_plug)
      next
        case Black
        then have "?s2 = ?s1" using n(3) Df(1) by (auto simp: fun_upd_twist fun_upd_idem)
        moreover have "root_node ?s1 = root (plug fs (snd (bal_del d cp t p S)))" using rn by (auto simp: B rn')
        ultimately show thesis using R n(4) x y red s1 pn pr Black repc_top [OF n(7)]
          by (intro that [of ?s1]) (auto simp: erase_round_def S bal_del_def node_at_Inr agree_def addrs_plug)
      qed
    qed
  qed
qed

text \<open>The whole loop, from a hole that is one black node short.\<close>

lemma root_plug_if: "root_node s = root (plug fs u) \<Longrightarrow> root (plug fs v) = (if fs = [] then root v else root_node s)"
  using root_plug(1) [of fs v u] by auto

lemma bal_del_fst_Red: "\<not> fst (bal_del d Red t p S)"
  by (simp add: bal_del_def)

lemma bal_del_root: "fst (bal_del d c t p S) \<Longrightarrow> root (snd (bal_del d c t p S)) = p"
  by (auto simp: bal_del_def split: if_splits)

lemma addrs_bal_del: "S \<noteq> Leaf \<Longrightarrow> addrs (snd (bal_del d c t p S)) = addrs (mk d t c p S)"
  using bal_del_inorder [of S d c t p] by simp

lemma erase_color_ok:
  "repc (nodes s) (root t) fs \<Longrightarrow> rep (nodes s) (top_of fs) t \<Longrightarrow> distinct (inorder (plug fs t)) \<Longrightarrow> root_node s = root (plug fs t) \<Longrightarrow>
   fs \<noteq> [] \<Longrightarrow> wft (plug fs t0) \<Longrightarrow> 0 < bh t0 \<Longrightarrow> length fs \<le> k \<Longrightarrow>
   \<exists>s'. rb_erase_color k rot s (root t) (top_of fs) = Inr s' \<and> rep (nodes s') 0 (del_fix fs t) \<and> root_node s' = root (del_fix fs t) \<and>
     agree (addrs (plug fs t)) s s'"
proof (induction fs t arbitrary: s k t0 rule: del_fix.induct)
  case (2 d c p S fs t)
  let ?fs = "Frame d c p S # fs"
  obtain k' where k: "k = Suc k'" "length fs \<le> k'" using 2(9) by (cases k) auto
  have w: "wft (plug fs (mk d t0 c p S))" using 2(7) by simp
  have wS: "wft (mk d t0 c p S)" by (rule plug_wft_sub [OF w])
  have S0: "S \<noteq> Leaf" using wS 2(8) by (auto simp: wft_mk)
  have n: "good p" "nodes s p = Some (nd d (pc_of (top_of fs) c) (root t) (root S))" "rep (nodes s) p S" "repc (nodes s) p fs" "rep (nodes s) p t"
    using 2(2,3) by simp_all
  have Sz: "root S \<noteq> 0" using root_zero [OF n(3)] S0 by simp
  have "root t \<noteq> root S"
  proof (cases "t = Leaf")
    case False
    have "addrs t \<inter> addrs S = {}" using 2(4) by (auto simp: distinct_plug distinct_mk)
    then show ?thesis using root_addrs [OF False] root_addrs [OF S0] by auto
  qed (use Sz in simp)
  then have side: "(if root t \<noteq> rb_right (nd d (pc_of (top_of fs) c) (root t) (root S)) then SLeft else SRight) = d"
    by (cases d) auto
  have run: "rb_erase_color k rot s (root t) (top_of ?fs) =
      rbind (erase_case1 rot s d p (root S)) (\<lambda>(sibling, s). erase_round (rb_erase_color k' rot) rot s d p sibling)"
    unfolding k(1) rb_erase_color_round by (simp add: node_at_Inr [OF n(2)] side Let_def del: nd_simps(7)) 
  show ?case
  proof (cases "col S = Red")
    case True
    then obtain x b y where S: "S = mk d x Red b y" by (rule_tac t = S and d = d in tree_cases_mk) auto
    have x: "x \<noteq> Leaf" "col x = Black" using wS 2(8) by (auto simp: S wft_mk bh_mk)
    obtain s1 where s1: "erase_case1 rot s d p b = Inr (root x, s1)"
      "repc (nodes s1) (root t) (Frame d Red p (paint Black x) # Frame d c b y # fs)" "rep (nodes s1) p t"
      "agree (fset fs \<union> {p, b} \<union> addrs x) s s1" "root_node s1 = (if fs = [] then b else root_node s)"
      by (rule erase_case1_ok [OF 2(2) [unfolded S] n(5) x(1) 2(4) [unfolded S], of rot])
    let ?gs = "Frame d c b y # fs" and ?x = "paint Black x"
    have D: "distinct (inorder (plug (Frame d Red p ?x # ?gs) t))" using 2(4) by (auto simp: S distinct_plug distinct_mk)
    have rn: "root_node s1 = root (plug (Frame d Red p ?x # ?gs) t)"
      using s1(5) root_plug_if [of s fs "mk d t c p S" "mk d (mk d t Red p ?x) c b y"] 2(5) by simp
    obtain s' where s': "erase_round (rb_erase_color k' rot) rot s1 d p (root ?x) =
       (if fst (bal_del d Red t p ?x) \<and> top_of ?gs \<noteq> 0 then rb_erase_color k' rot s' p (top_of ?gs) else Inr s')"
      "rep (nodes s') 0 (plug ?gs (snd (bal_del d Red t p ?x)))" "agree (addrs (plug (Frame d Red p ?x # ?gs) t)) s1 s'"
      "root_node s' = root (plug ?gs (snd (bal_del d Red t p ?x)))"
      by (rule erase_round_ok [OF s1(2,3) _ _ D rn]) (use x in auto)
    have "agree (addrs (plug ?fs t)) s s'" by (rule agree_trans [OF s1(4) s'(3)]) (auto simp: addrs_plug S)
    moreover have "del_fix ?fs t = plug ?gs (snd (bal_del d Red t p ?x))" by (simp add: S)
    ultimately show ?thesis using run s1(1) s' by (simp add: S bal_del_fst_Red)
  next
    case False
    then have cS: "col S = Black" by simp
    let ?r = "bal_del d c t p S"
    obtain s' where s': "erase_round (rb_erase_color k' rot) rot s d p (root S) =
       (if fst ?r \<and> top_of fs \<noteq> 0 then rb_erase_color k' rot s' p (top_of fs) else Inr s')"
      "rep (nodes s') 0 (plug fs (snd ?r))" "agree (addrs (plug ?fs t)) s s'" "root_node s' = root (plug fs (snd ?r))"
      by (rule erase_round_ok [OF 2(2) n(5) S0 cS 2(4,5)])
    have c1: "erase_case1 rot s d p (root S) = Inr (root S, s)"
    proof -
      obtain l a r where S: "S = Node l Black a r" using S0 cS by (cases S) auto
      have "nodes s a = Some (nd SLeft (pc_of p Black) (root l) (root r))" using n(3) by (simp add: S)
      then show ?thesis using n(1) by (simp add: S erase_case1_def node_at_Inr rb_is_red_def pc_simps(4))
    qed
    have tz: "top_of fs = 0 \<longleftrightarrow> fs = []" using n(4) by (cases fs rule: top_of.cases) (auto simp: good_def)
    show ?thesis
    proof (cases "fst ?r \<and> fs \<noteq> []")
      case True
      have R: "repc (nodes s') (root (snd ?r)) fs" "rep (nodes s') (top_of fs) (snd ?r)" using s'(2) by (simp_all add: rep_plug)
      have A: "addrs (plug fs (snd ?r)) = addrs (plug ?fs t)" using addrs_bal_del [OF S0] by (simp add: addrs_plug)
      have "distinct (inorder (plug fs (snd ?r)))" using 2(4) S0 by (simp add: inorder_plug bal_del_inorder)
      from 2(1) [OF False _ R this s'(4) _ w _ k(2)] True have
        "\<exists>s2. rb_erase_color k' rot s' (root (snd ?r)) (top_of fs) = Inr s2 \<and> rep (nodes s2) 0 (del_fix fs (snd ?r)) \<and>
          root_node s2 = root (del_fix fs (snd ?r)) \<and> agree (addrs (plug fs (snd ?r))) s' s2"
        using wS 2(8) by (auto simp: bh_mk wft_mk)
      then obtain s2 where s2: "rb_erase_color k' rot s' p (top_of fs) = Inr s2" "rep (nodes s2) 0 (del_fix fs (snd ?r))"
        "root_node s2 = root (del_fix fs (snd ?r))" "agree (addrs (plug ?fs t)) s' s2"
        unfolding A using bal_del_root [of d c t p S] True by auto
      have "agree (addrs (plug ?fs t)) s s2" by (rule agree_trans [OF s'(3) s2(4)]) auto
      then show ?thesis using run c1 s'(1) s2 tz True False by simp
    next
      case r: False
      have "del_fix ?fs t = plug fs (snd ?r)" using r False by (cases "fs = []") auto
      then show ?thesis using run c1 s' tz r by auto
    qed
  qed
qed simp

end
