(* ===== verification/Rbtree_Remove.thy ===== *)
theory Rbtree_Remove
  imports Rbtree_Erase
begin

text \<open>
  Taking a node out of the tree: \<^verbatim>\<open>__rb_erase_augmented\<close> of \<^verbatim>\<open>include/linux/rbree_augmented.h\<close> and the
  entry points that rebalance afterwards.
\<close>

section \<open>Paths inside a subtree\<close>

text \<open>The path \<open>gs\<close> ends below \<open>par\<close> rather than at the root of the tree.\<close>

fun top_in :: "ptr \<Rightarrow> frame list \<Rightarrow> ptr" where
  "top_in par [] = par"
| "top_in par (Frame d c a u # fs) = a"

fun repp :: "rb_heap \<Rightarrow> ptr \<Rightarrow> ptr \<Rightarrow> frame list \<Rightarrow> bool" where
  "repp h par p [] = True"
| "repp h par p (Frame d c a u # fs) \<longleftrightarrow>
     good a \<and> h a = Some (nd d (pc_of (top_in par fs) c) p (root u)) \<and> rep h a u \<and> repp h par a fs"

lemma rep_plug_in: "rep h par (plug fs t) \<longleftrightarrow> repp h par (root t) fs \<and> rep h (top_in par fs) t"
proof (induction fs arbitrary: t)
  case (Cons f fs)
  obtain d c a u where f: "f = Frame d c a u" by (cases f)
  show ?case using Cons.IH by (auto simp: f rep_mk)
qed simp

lemma repp_cong: "\<forall>a\<in>fset fs. h' a = h a \<Longrightarrow> repp h' par p fs = repp h par p fs"
proof (induction fs arbitrary: p)
  case (Cons f fs)
  then show ?case using rep_cong [of _ h' h] by (cases f) auto
qed simp

lemma agree_repp: "agree S s s' \<Longrightarrow> fset fs \<inter> S = {} \<Longrightarrow> repp (nodes s') par p fs = repp (nodes s) par p fs"
  by (rule repp_cong) (auto simp: agree_def)

lemma repp_upd [simp]: "a \<notin> fset fs \<Longrightarrow> repp (h(a := x)) par p fs = repp h par p fs"
  by (rule repp_cong) auto

lemma top_in_good: "repp h par p fs \<Longrightarrow> par = 0 \<or> good par \<Longrightarrow> top_in par fs = 0 \<or> good (top_in par fs)"
  by (cases fs rule: top_of.cases) auto

lemma top_in_append: "top_of (gs @ Frame d c a u # fs) = top_in a gs"
  by (cases gs rule: top_of.cases) auto

lemma top_in_ne: "gs \<noteq> [] \<Longrightarrow> top_in par gs = top_of gs"
  by (cases gs rule: top_of.cases) auto

text \<open>Hanging the end of a path under another node.\<close>

lemma repp_end:
  assumes "repp h par p gs" and "gs \<noteq> []" and "par = 0 \<or> good par"
  shows "\<exists>n. h (root (plug gs t)) = Some n \<and> rb_parent_color n = pc_of par (col (plug gs t))"
  using assms
proof (induction gs arbitrary: p t)
  case (Cons f gs)
  obtain d c a u where f: "f = Frame d c a u" by (cases f)
  show ?case
  proof (cases "gs = []")
    case True
    then show ?thesis using Cons.prems by (simp add: f)
  next
    case False
    then show ?thesis using Cons.IH [of a "mk d t c a u"] Cons.prems by (simp add: f)
  qed
qed simp

lemma end_in_path: "gs \<noteq> [] \<Longrightarrow> root (plug gs t) \<in> fset gs"
proof (induction gs arbitrary: t)
  case (Cons f gs)
  obtain d c a u where f: "f = Frame d c a u" by (cases f)
  show ?case using Cons.IH [of "mk d t c a u"] by (cases "gs = []") (simp_all add: f)
qed simp

lemma repp_reparent:
  assumes "repp h par p gs" and "gs \<noteq> []" and "dfs gs"
  shows "repp (h(root (plug gs t) \<mapsto> the (h (root (plug gs t)))\<lparr>rb_parent_color := pc_of q (col (plug gs t))\<rparr>)) q p gs"
  using assms
proof (induction gs arbitrary: p t)
  case (Cons f gs)
  obtain d c a u where f: "f = Frame d c a u" by (cases f)
  have D: "a \<notin> addrs u" "a \<notin> fset gs" "addrs u \<inter> fset gs = {}" "dfs gs" using Cons.prems(3) by (simp_all add: f)
  show ?case
  proof (cases "gs = []")
    case True
    have "rep (h(a := n)) a u = rep h a u" for n by (rule rep_upd [OF D(1)])
    then show ?thesis using True Cons.prems by (simp add: f fun_upd_def)
  next
    case False
    let ?e = "root (plug gs (mk d t c a u))"
    have "?e \<in> fset gs" by (rule end_in_path [OF False])
    then have e: "?e \<noteq> a" "?e \<notin> addrs u" using D by auto
    have "rep (h(?e := n)) a u = rep h a u" for n by (rule rep_upd [OF e(2)])
    then show ?thesis using Cons.IH [of a "mk d t c a u"] Cons.prems D False e by (simp add: f top_in_ne fun_upd_def)
  qed
qed simp

section \<open>The successor\<close>

lemma successor_loop_ok:
  "rep (nodes s) q t \<Longrightarrow> t \<noteq> Leaf \<Longrightarrow> fs \<noteq> [] \<Longrightarrow> left_path fs t = (gs, m) \<Longrightarrow> hgt t \<le> k \<Longrightarrow>
   successor_loop k s (top_of fs) (root t) = Inr (top_of gs, root m)"
proof (induction fs t arbitrary: q k rule: left_path.induct)
  case (2 fs l c a r)
  obtain k' where k: "k = Suc k'" using 2(6) by (cases k) auto
  have h: "nodes s a = Some (nd SLeft (pc_of q c) (root l) (root r))" "rep (nodes s) a l" using 2(2) by simp_all
  show ?case
  proof (cases "l = Leaf")
    case True
    then show ?thesis using 2(5) h(1) by (auto simp: k node_at_Inr)
  next
    case False
    have "successor_loop k' s (top_of (Frame SLeft c a r # fs)) (root l) = Inr (top_of gs, root m)"
      by (rule 2(1) [OF False h(2) False]) (use 2(5,6) False k in auto)
    then show ?thesis using h root_zero [OF h(2)] False by (simp add: k node_at_Inr)
  qed
qed simp

text \<open>Every step of the path to the first node goes to the left.\<close>

lemma left_path_sides: "left_path fs t = (gs, m) \<Longrightarrow> (\<forall>f\<in>set fs. \<exists>c a u. f = Frame SLeft c a u) \<Longrightarrow> \<forall>f\<in>set gs. \<exists>c a u. f = Frame SLeft c a u"
  by (induction fs t rule: left_path.induct) (auto split: if_splits)

lemma left_path_ne: "left_path fs t = (gs, m) \<Longrightarrow> length fs \<le> length gs"
  by (induction fs t rule: left_path.induct) (auto split: if_splits)

lemma root_plug_paint: "root (plug gs (paint c t)) = root (plug gs t)"
  using root_plug(1) [of gs "paint c t" t] by (cases "gs = []") auto

lemma take_successor_ok:
  assumes r: "rep (nodes s) n r" "distinct (inorder r)" "left_path [] r = (gs, Node Leaf cm a y)" and n: "good n"
    and k: "hgt r \<le> k"
  obtains s' q where "take_successor k cb s n (root r) = Inr (top_in a gs, a, root y, s')"
    "nodes s' a = Some (nd SLeft (pc_of q cm) 0 (root (plug gs y)))" "q = 0 \<or> good q" "repp (nodes s') a (root y) gs" "rep (nodes s') a y"
    "agree (addrs r) s s'" "root_node s' = root_node s" "good a"
proof -
  let ?m = "Node Leaf cm a y" and ?q = "top_in n gs"
  have rp: "r = plug gs ?m" using left_path_plug [OF r(3)] by simp
  have h: "repp (nodes s) n a gs" "good a" "nodes s a = Some (nd SLeft (pc_of ?q cm) 0 (root y))" "rep (nodes s) a y"
    using r(1) by (simp_all add: rp rep_plug_in)
  have D: "dfs gs" "a \<notin> addrs y" "a \<notin> fset gs" "addrs y \<inter> fset gs = {}" using r(2) by (auto simp: rp distinct_plug)
  have q: "?q = 0 \<or> good ?q" using top_in_good [OF h(1)] n by blast
  show thesis
  proof (cases gs rule: top_of.cases)
    case 1
    then show thesis using h q
      by (intro that [of "call (acopy cb) s n a" ?q]) (auto simp: rp take_successor_def node_at_Inr agree_def)
  next
    case (2 e cg g u gs')
    have e: "e = SLeft" using left_path_sides [OF r(3)] by (simp add: 2)
    obtain l' c' b r' where rr: "r = Node l' c' b r'" using r(3) by (cases r) auto
    have l': "l' \<noteq> Leaf" using r(3) by (auto simp: rr 2)
    have b: "nodes s b = Some (nd SLeft (pc_of n c') (root l') (root r'))" "rep (nodes s) b l'" using r(1) by (simp_all add: rr)
    have "successor_loop k s (top_of [Frame SLeft c' b r']) (root l') = Inr (top_of gs, root ?m)"
      by (rule successor_loop_ok [OF b(2) l']) (use r(3) k l' in \<open>auto simp: rr\<close>)
    then have sl: "successor_loop k s b (root l') = Inr (g, a)" by (simp add: 2)
    have hg: "nodes s g = Some (nd SLeft (pc_of (top_in n gs') cg) a (root u))" "good g" "g \<noteq> a" using h(1) D(3) by (auto simp: 2 e)
    let ?s2 = "s\<lparr>nodes := (nodes s)(g \<mapsto> nd SLeft (pc_of (top_in n gs') cg) (root y) (root u), a \<mapsto> nd SLeft (pc_of ?q cm) 0 b)\<rparr>"
    have s2: "rbind (set_child s SLeft g (root y)) (\<lambda>s1. set_child s1 SRight a b) = Inr ?s2"
      using hg h(3) nd_simps(5) [of SLeft] by (simp add: set_child_def upd_Inr)
    have P2: "repp (nodes ?s2) n (root y) gs" using h(1) D(1,3) by (auto simp: 2 e)
    have ne: "gs \<noteq> []" by (simp add: 2)
    have be: "b = root (plug gs ?m)" unfolding rp [symmetric] rr by simp
    obtain nb where nb: "nodes ?s2 b = Some nb" "rb_parent_color nb = pc_of n (col (plug gs ?m))"
      using repp_end [OF P2 ne, of ?m] n unfolding be by blast
    let ?s3 = "?s2\<lparr>nodes := (nodes ?s2)(b \<mapsto> nb\<lparr>rb_parent_color := pc_of a (col (plug gs ?m))\<rparr>)\<rparr>"
    have "pc_color (pc_of n (col (plug gs ?m))) OR a = pc_of a (col (plug gs ?m))"
      using pc_simps(2) [of n] n by (simp add: pc_of_def or.commute)
    then have s3: "rb_set_parent ?s2 b a = Inr ?s3" using nb by (simp add: rb_set_parent_def upd_Inr)
    have "repp ((nodes ?s2)(b \<mapsto> the (nodes ?s2 b)\<lparr>rb_parent_color := pc_of a (col (plug gs ?m))\<rparr>)) a (root y) gs"
      using repp_reparent [OF P2 ne D(1), of ?m a] unfolding be .
    then have P3: "repp (nodes ?s3) a (root y) gs" unfolding nb(1) by simp
    have ba: "b \<in> fset gs" unfolding be by (rule end_in_path [OF ne])
    let ?s' = "call (propagate cb) (call (acopy cb) ?s3 n a) g a"
    have "take_successor k cb s n (root r) = Inr (top_in a gs, a, root y, ?s')"
      using b l' root_zero [OF b(2)] sl s2 s3 h(3)
      by (simp add: rr 2 take_successor_def node_at_Inr Let_def rbind_Inr_iff) blast
    moreover have "nodes ?s' a = Some (nd SLeft (pc_of ?q cm) 0 (root (plug gs y)))"
      using ba D(3) root_plug(1) [OF ne, of y ?m] be by auto
    moreover have "b \<notin> addrs y" "g \<notin> addrs y" using ba D(4) by (auto simp: 2)
    then have "rep (nodes ?s') a y" using h(4) D(2) by simp
    moreover have "agree (addrs r) s ?s'" using ba by (auto simp: agree_def rp addrs_plug 2)
    ultimately show thesis using that [of ?s' ?q] P3 q h(2) by simp
  qed
qed

section \<open>Unlinking a node\<close>

lemma set_pc_Inr: "nodes s p = Some m \<Longrightarrow> set_pc s p pc = Inr (s\<lparr>nodes := (nodes s)(p \<mapsto> m\<lparr>rb_parent_color := pc\<rparr>)\<rparr>)"
  by (simp add: set_pc_def upd_Inr)

lemma erase_two_ok:
  assumes t: "rb_tree s (plug fs (Node l c n r))" and l: "l \<noteq> Leaf" and r: "left_path [] r = (gs, Node Leaf cm a y)" "r \<noteq> Leaf"
    and k: "hgt r \<le> k"
  obtains s' where "erase_node k cb s n = Inr (if y = Leaf \<and> cm = Black then top_in a gs else 0, a, s')"
    "rb_tree s' (plug fs (Node l c a (plug gs (paint Black y))))" "leftmost s' = leftmost s"
proof -
  have rp: "r = plug gs (Node Leaf cm a y)" using left_path_plug [OF r(1)] by simp
  let ?n = "nd SLeft (pc_of (top_of fs) c) (root l) (root r)"
  have h: "good n" "nodes s n = Some ?n" "rep (nodes s) n l" "rep (nodes s) n r" "repc (nodes s) n fs"
    using t by (simp_all add: rb_tree_def rep_plug)
  have D: "dfs fs" "n \<notin> fset fs" "n \<notin> addrs l" "n \<notin> addrs r" "addrs l \<inter> addrs r = {}" "addrs l \<inter> fset fs = {}" "addrs r \<inter> fset fs = {}"
    "distinct (inorder l)" "distinct (inorder r)" using t by (auto simp: rb_tree_def distinct_plug)
  have sub: "a \<in> addrs r" "addrs y \<subseteq> addrs r" "fset gs \<subseteq> addrs r" "addrs y \<inter> fset gs = {}" "a \<notin> addrs y" "a \<notin> fset gs" "dfs gs" "distinct (inorder y)"
    using D(9) by (auto simp: rp addrs_plug distinct_plug)
  have an: "a \<noteq> n" "a \<notin> addrs l" "a \<notin> fset fs" using sub D by auto
  have dj: "addrs l \<inter> fset gs = {}" "addrs l \<inter> addrs y = {}" "fset fs \<inter> fset gs = {}" "fset fs \<inter> addrs y = {}" using sub D by auto
  obtain s1 q where s1: "take_successor k cb s n (root r) = Inr (top_in a gs, a, root y, s1)"
    "nodes s1 a = Some (nd SLeft (pc_of q cm) 0 (root (plug gs y)))" "q = 0 \<or> good q" "repp (nodes s1) a (root y) gs" "rep (nodes s1) a y"
    "agree (addrs r) s s1" "root_node s1 = root_node s" "good a" by (rule take_successor_ok [OF h(4) D(9) r(1) h(1) k])
  have n1: "nodes s1 n = Some ?n" using agreeD [OF s1(6) D(4)] h(2) by simp
  have l1: "rep (nodes s1) n l" "repc (nodes s1) n fs"
    using agree_rep [OF s1(6) D(5), of n] agree_repc [OF s1(6), of fs n] h(3,5) D(7) by (simp_all add: inf_commute)
  let ?s2 = "s1\<lparr>nodes := (nodes s1)(a \<mapsto> nd SLeft (pc_of q cm) (root l) (root (plug gs y)))\<rparr>"
  have s2: "set_child s1 SLeft a (root l) = Inr ?s2" using s1(2) by (simp add: set_child_def upd_Inr)
  have "rep (nodes ?s2) n l" using l1 an by simp
  from reparent_keep [OF this _ D(8), of a] root_zero [OF h(3)] l h(1) obtain s3 where s3:
    "rb_set_parent ?s2 (root l) a = Inr s3" "rep (nodes s3) a l" "agree (addrs l) ?s2 s3" "root_node s3 = root_node s1"
    by (auto simp: unless_null_def)
  have A3: "nodes s3 p = nodes ?s2 p" if "p \<notin> addrs l" for p by (rule agreeD [OF s3(3) that])
  have n3: "nodes s3 n = Some ?n" "nodes s3 a = Some (nd SLeft (pc_of q cm) (root l) (root (plug gs y)))"
    using A3 [of n] A3 [of a] n1 an D by simp_all
  have k3: "repc (nodes s3) n fs" "repp (nodes s3) a (root y) gs" "rep (nodes s3) a y"
    using agree_repc [OF s3(3), of fs n] agree_repp [OF s3(3), of gs a "root y"] agree_rep [OF s3(3), of y a] l1 s1(4,5) an D sub dj
    by (simp_all add: inf_commute)
  obtain s4 where s4: "rb_change_child s3 n a (top_of fs) = Inr s4" "repc (nodes s4) a fs" "agree (fset fs) s3 s4"
    "root_node s4 = (if fs = [] then a else root_node s3)"
    by (rule change_child_ok [OF k3(1) _ D(2,1), of a]) (use h(1) in \<open>auto simp: good_def\<close>)
  have n4: "nodes s4 a = Some (nd SLeft (pc_of q cm) (root l) (root (plug gs y)))" using agreeD [OF s4(3) an(3)] n3 by simp
  have k4: "rep (nodes s4) a l" "repp (nodes s4) a (root y) gs" "rep (nodes s4) a y"
    using agree_rep [OF s4(3), of l a] agree_repp [OF s4(3), of gs a "root y"] agree_rep [OF s4(3), of y a] s3(2) k3 D dj by (simp_all add: inf_commute)
  let ?s5 = "s4\<lparr>nodes := (nodes s4)(a \<mapsto> nd SLeft (pc_of (top_of fs) c) (root l) (root (plug gs y)))\<rparr>"
  have s5: "set_pc s4 a (pc_of (top_of fs) c) = Inr ?s5" using n4 by (simp add: set_pc_Inr)
  have k5: "repc (nodes ?s5) a fs" "rep (nodes ?s5) a l" "repp (nodes ?s5) a (root y) gs" "rep (nodes ?s5) a y"
    using k4 s4(2) an sub by simp_all
  from reparent_black [OF k5(4) _ sub(8), of "top_in a gs" Black] s1(8) obtain s6 where s6:
    "unless_null (root y) ?s5 (rb_set_parent_color ?s5 (root y) (top_in a gs) RB_BLACK) = Inr s6"
    "rep (nodes s6) (top_in a gs) (paint Black y)" "agree (addrs y) ?s5 s6" "root_node s6 = root_node s4" by auto
  have k6: "repc (nodes s6) a fs" "rep (nodes s6) a l" "repp (nodes s6) a (root y) gs"
    "nodes s6 a = Some (nd SLeft (pc_of (top_of fs) c) (root l) (root (plug gs y)))"
    using agree_repc [OF s6(3), of fs a] agree_rep [OF s6(3), of l a] agree_repp [OF s6(3), of gs a "root y"] agreeD [OF s6(3) sub(5)] k5 sub dj
    by (simp_all add: inf_commute)
  have black: "rb_is_black (nd SLeft (pc_of q cm) (root l) (root (plug gs y))) \<longleftrightarrow> cm = Black"
    using pc_simps(3) [OF s1(3)] by (simp add: rb_is_black_def)
  have pc: "pc_parent (pc_of (top_of fs) c) = top_of fs" by (rule pc_simps(1) [OF repc_top [OF h(5)]])
  have z: "root l \<noteq> 0" "root r \<noteq> 0" "root y = 0 \<longleftrightarrow> y = Leaf" using root_zero h(3,4) s1(5) l r(2) by blast+
  have "erase_node k cb s n = Inr (if y = Leaf \<and> cm = Black then top_in a gs else 0, a, s6)"
  proof -
    have "erase_node k cb s n =
        (if root y \<noteq> 0 then rbind (rb_set_parent_color ?s5 (root y) (top_in a gs) RB_BLACK) (\<lambda>s6. Inr (0, a, s6))
         else Inr (if cm = Black then top_in a gs else 0, a, ?s5))"
      by (simp add: erase_node_def node_at_Inr [OF h(2)] z(1,2) s1(1) node_at_Inr [OF n1] s2 s3(1) node_at_Inr [OF n3(1)]
        pc s4(1) s5 node_at_Inr [OF n4] black Let_def)
    then show ?thesis using s6(1) z(3) by (cases "y = Leaf") (simp_all add: unless_null_def)
  qed
  moreover have "rep (nodes s6) 0 (plug fs (Node l c a (plug gs (paint Black y))))"
    unfolding rep_plug using k6 s6(2) s1(8) by (simp add: rep_plug_in root_plug_paint)
  moreover have "root_node s6 = root (plug fs (Node l c a (plug gs (paint Black y))))"
    using s6(4) s4(4) s3(4) s1(7) t root_plug_if [of s fs "Node l c n r"] by (simp add: rb_tree_def)
  moreover have "distinct (inorder (plug fs (Node l c a (plug gs (paint Black y)))))"
    using D sub an unfolding distinct_plug by (auto simp: distinct_plug addrs_plug)
  ultimately show thesis
    using that [of s6] s6(3) s4(3) s3(3) s1(6) by (simp add: rb_tree_def agree_def)
qed

lemma erase_one_ok:
  assumes t: "rb_tree s (plug fs (mk d u c n Leaf))" and c: "u \<noteq> Leaf \<Longrightarrow> c = Black"
  obtains s' where "erase_node k cb s n = Inr (if u = Leaf \<and> c = Black then top_of fs else 0, top_of fs, s')"
    "rb_tree s' (plug fs (paint Black u))" "leftmost s' = leftmost s"
proof -
  let ?n = "nd d (pc_of (top_of fs) c) (root u) 0"
  have h: "good n" "nodes s n = Some ?n" "rep (nodes s) n u" "repc (nodes s) n fs" "n \<noteq> 0"
    using t by (simp_all add: rb_tree_def rep_plug rep_mk good_def)
  have D: "dfs fs" "n \<notin> fset fs" "n \<notin> addrs u" "addrs u \<inter> fset fs = {}" "distinct (inorder u)"
    using t by (auto simp: rb_tree_def distinct_plug distinct_mk)
  have z: "root u = 0 \<longleftrightarrow> u = Leaf" by (rule root_zero [OF h(3)])
  have pc: "pc_parent (pc_of (top_of fs) c) = top_of fs" "pc_is_black (pc_of (top_of fs) c) \<longleftrightarrow> c = Black"
    using pc_simps(1,3) [OF repc_top [OF h(4)]] by simp_all
  have rn: "root (plug fs v) = (if fs = [] then root v else root_node s)" for v
    by (rule root_plug_if) (use t in \<open>simp add: rb_tree_def\<close>)
  show thesis
  proof (cases "u = Leaf")
    case True
    obtain s1 where s1: "rb_change_child s n 0 (top_of fs) = Inr s1" "repc (nodes s1) 0 fs" "agree (fset fs) s s1"
      "root_node s1 = (if fs = [] then 0 else root_node s)" by (rule change_child_ok [OF h(4,5) D(2,1)])
    then show thesis using True h(2) pc D
      by (intro that [of s1]) (auto simp: erase_node_def node_at_Inr Let_def rb_tree_def rep_plug distinct_plug rn agree_def)
  next
    case False
    have hu: "nodes s (root u) = Some (the (nodes s (root u)))" "root u \<in> addrs u" using h(3) False by (cases u; auto)+
    have cB: "c = Black" by (rule c [OF False])
    have uf: "root u \<notin> fset fs" using hu(2) D(4) by auto
    let ?pc = "pc_of (top_of fs) Black"
    show thesis
    proof (cases d)
      case SRight
      obtain s1 where s1: "rb_change_child s n (root u) (top_of fs) = Inr s1" "repc (nodes s1) (root u) fs" "agree (fset fs) s s1"
        "root_node s1 = (if fs = [] then root u else root_node s)" by (rule change_child_ok [OF h(4,5) D(2,1)])
      have u1: "rep (nodes s1) n u" "nodes s1 (root u) = Some (the (nodes s1 (root u)))"
        using agree_rep [OF s1(3) D(4), of n] agreeD [OF s1(3) uf] h(3) hu(1) by simp_all
      let ?s2 = "s1\<lparr>nodes := (nodes s1)(root u \<mapsto> the (nodes s1 (root u))\<lparr>rb_parent_color := ?pc\<rparr>)\<rparr>"
      have "set_pc s1 (root u) ?pc = Inr ?s2" by (rule set_pc_Inr [OF u1(2)])
      then have "erase_node k cb s n = Inr (0, top_of fs, ?s2)"
        using SRight cB False z h(2) pc s1(1) by (simp add: erase_node_def node_at_Inr Let_def)
      then show thesis using False s1 rep_repaint [OF u1(1) D(5) False, of "top_of fs" Black] D uf
        by (intro that [of ?s2]) (auto simp: rb_tree_def rep_plug distinct_plug rn agree_def)
    next
      case SLeft
      let ?s1 = "s\<lparr>nodes := (nodes s)(root u \<mapsto> the (nodes s (root u))\<lparr>rb_parent_color := ?pc\<rparr>)\<rparr>"
      have r1: "repc (nodes ?s1) n fs" using h(4) uf by simp
      obtain s2 where s2: "rb_change_child ?s1 n (root u) (top_of fs) = Inr s2" "repc (nodes s2) (root u) fs" "agree (fset fs) ?s1 s2"
        "root_node s2 = (if fs = [] then root u else root_node ?s1)" by (rule change_child_ok [OF r1 h(5) D(2,1)])
      have "rep (nodes ?s1) (top_of fs) (paint Black u)" by (simp add: rep_repaint [OF h(3) D(5) False])
      then have u2: "rep (nodes s2) (top_of fs) (paint Black u)" using agree_rep [OF s2(3), of "paint Black u" "top_of fs"] D(4) by simp
      have "set_pc s (root u) ?pc = Inr ?s1" by (rule set_pc_Inr [OF hu(1)])
      then have "erase_node k cb s n = Inr (0, top_of fs, s2)"
        using SLeft cB False z h(2) pc s2(1) by (simp add: erase_node_def node_at_Inr Let_def)
      then show thesis using False s2 u2 D
        by (intro that [of s2]) (auto simp: rb_tree_def rep_plug distinct_plug rn agree_def)
    qed
  qed
qed

section \<open>Unlinking and rebalancing\<close>

lemma rb_tree_call [simp]: "rb_tree (call f s p q) t = rb_tree s t"
  by (simp add: rb_tree_def)

lemma rb_tree_leftmost [simp]: "rb_tree (s\<lparr>leftmost := q\<rparr>) t = rb_tree s t"
  by (simp add: rb_tree_def)

lemma rebalance_ok:
  assumes t: "rb_tree s (plug gs (paint Black u))" and p: "is_rbt (plug gs (mk d u c a Leaf))" and k: "length gs \<le> k"
  defines "reb \<equiv> if u = Leaf \<and> c = Black then top_of gs else 0"
  obtains s' where "(if reb \<noteq> 0 then rb_erase_color k rot s 0 reb else Inr s) = Inr s'" "rb_tree s' (cut gs c u)" "leftmost s' = leftmost s"
proof (cases "u = Leaf \<and> c = Black \<and> gs \<noteq> []")
  case True
  have h: "repc (nodes s) (root Leaf) gs" "distinct (inorder (plug gs Leaf))" "root_node s = root (plug gs Leaf)"
    using t True by (simp_all add: rb_tree_def rep_plug)
  have "\<exists>s'. rb_erase_color k rot s (root Leaf) (top_of gs) = Inr s' \<and> rep (nodes s') 0 (del_fix gs Leaf) \<and>
      root_node s' = root (del_fix gs Leaf) \<and> agree (addrs (plug gs Leaf)) s s'"
    by (rule erase_color_ok [OF h(1) _ h(2,3), of "mk d u c a Leaf"]) (use True p k in \<open>auto simp: is_rbt_def bh_mk\<close>)
  then obtain s' where s': "rb_erase_color k rot s 0 (top_of gs) = Inr s'" "rep (nodes s') 0 (del_fix gs Leaf)"
    "root_node s' = root (del_fix gs Leaf)" "agree (addrs (plug gs Leaf)) s s'" by auto
  have "top_of gs \<noteq> 0" using True h(1) by (cases gs rule: top_of.cases) (auto simp: good_def)
  moreover have e: "cut gs c u = del_fix gs Leaf" using True by (simp add: cut_def)
  moreover have "inorder (del_fix gs Leaf) = inorder (plug gs Leaf)" using cut_ok(2) [OF p] e True by simp
  ultimately show thesis using s' h(2) True by (intro that [of s']) (auto simp: reb_def rb_tree_def agree_def)
next
  case False
  then have "reb = 0" "cut gs c u = plug gs (paint Black u)" by (auto simp: reb_def cut_def)
  then show thesis using that [of s] t by simp
qed

text \<open>The state that unlinking leaves is the one that \<open>cut\<close> describes.\<close>

lemma erase_node_ok:
  assumes t: "rb_tree s (plug fs (Node l c n r))" "is_rbt (plug fs (Node l c n r))" and k: "hgt r \<le> k"
  obtains gs d u c' a tmp s' where "erase_node k cb s n = Inr (if u = Leaf \<and> c' = Black then top_of gs else 0, tmp, s')"
    "rb_tree s' (plug gs (paint Black u))" "leftmost s' = leftmost s" "erase_at fs l c n r = cut gs c' u"
    "is_rbt (plug gs (mk d u c' a Leaf))" "length gs \<le> hgt (plug fs (Node l c n r))"
proof -
  consider d u where "Node l c n r = mk d u c n Leaf" "erase_at fs l c n r = cut fs c u" | "l \<noteq> Leaf" "r \<noteq> Leaf"
  proof (cases "l = Leaf")
    case True
    then show thesis using that(1) [of SRight r] by (simp add: erase_at_def)
  next
    case False
    then show thesis using that(1) [of SLeft l] that(2) by (cases "r = Leaf") (simp_all add: erase_at_def)
  qed
  then show thesis
  proof cases
    case 1
    have "wft (mk d u c n Leaf)" using is_rbt_sub [OF t(2)] unfolding 1(1) .
    then have "u \<noteq> Leaf \<Longrightarrow> c = Black" by (rule lone_child(1))
    from erase_one_ok [OF t(1) [unfolded 1(1)] this, of k cb] show thesis using that [of u c fs "top_of fs"] t(2) 1 hgt_plug [of fs "Node l c n r"] by (metis add_leD1)
  next
    case 2
    obtain gs m where g: "left_path [] r = (gs, m)" by (cases "left_path [] r")
    obtain cm a y where m: "m = Node Leaf cm a y" using left_path_min [OF g 2(2)] by blast
    have rp: "r = plug gs m" using left_path_plug [OF g] by simp
    let ?full = "gs @ Frame SRight c a l # fs"
    have "fits (Node l c n r) (Node l c a r)" using is_rbt_sub [OF t(2)] by (auto simp: fits_def wft_def)
    from is_rbt_plug_fits [OF t(2) this] have P: "is_rbt (plug ?full (mk SRight y cm a Leaf))"
      by (simp add: plug_append rp m)
    obtain s' where s': "erase_node k cb s n = Inr (if y = Leaf \<and> cm = Black then top_in a gs else 0, a, s')"
      "rb_tree s' (plug fs (Node l c a (plug gs (paint Black y))))" "leftmost s' = leftmost s"
      by (rule erase_two_ok [OF t(1) 2(1) g [unfolded m] 2(2) k])
    have "erase_at fs l c n r = cut ?full cm y" using 2 g m by (simp add: erase_at_def)
    moreover have "length ?full \<le> hgt (plug fs (Node l c n r))"
      using hgt_plug [of fs "Node l c n r"] hgt_plug [of gs m] by (simp add: rp m)
    ultimately show thesis using that [of y cm ?full a s' SRight a] s' P by (simp add: plug_append top_in_append)
  qed
qed

theorem rb_erase_with_ok:
  assumes t: "rb_tree s (plug fs (Node l c n r))" "is_rbt (plug fs (Node l c n r))" and k: "hgt (plug fs (Node l c n r)) < k"
  obtains s' where "rb_erase_with k cb s n cached = Inr s'" "rb_tree s' (erase_at fs l c n r)"
    "leftmost s' = (if cached \<and> n = leftmost s then first_of (inorder r @ post fs) else leftmost s)"
proof -
  let ?s1 = "if cached \<and> n = leftmost s then s\<lparr>leftmost := first_of (inorder r @ post fs)\<rparr> else s"
  have nx: "rb_next k s n = Inr (first_of (inorder r @ post fs))"
    using rb_step_ok [OF t(1) k, of SRight] by (simp add: rb_next_def)
  have len: "hgt r \<le> k" using k hgt_plug [of fs "Node l c n r"] by simp
  have t1: "rb_tree ?s1 (plug fs (Node l c n r))" using t(1) by auto
  obtain gs d u c' a tmp s2 where e: "erase_node k cb ?s1 n = Inr (if u = Leaf \<and> c' = Black then top_of gs else 0, tmp, s2)"
    "rb_tree s2 (plug gs (paint Black u))" "leftmost s2 = leftmost ?s1" "erase_at fs l c n r = cut gs c' u"
    "is_rbt (plug gs (mk d u c' a Leaf))" "length gs \<le> hgt (plug fs (Node l c n r))" by (rule erase_node_ok [OF t1 t(2) len])
  have "length gs \<le> k" using e(6) k by simp
  from rebalance_ok [OF _ e(5) this, of "call (propagate cb) s2 tmp 0" "arotate cb"] e(2) obtain s' where s':
    "(if (if u = Leaf \<and> c' = Black then top_of gs else 0) \<noteq> 0
      then rb_erase_color k (arotate cb) (call (propagate cb) s2 tmp 0) 0 (if u = Leaf \<and> c' = Black then top_of gs else 0)
      else Inr (call (propagate cb) s2 tmp 0)) = Inr s'" "rb_tree s' (cut gs c' u)" "leftmost s' = leftmost s2"
    by (metis (no_types, lifting) call_simps(3) rb_tree_call)
  have "rb_erase_augmented_core k cb s n cached = Inr (if u = Leaf \<and> c' = Black then top_of gs else 0, call (propagate cb) s2 tmp 0)"
    using e(1) nx by (auto simp: rb_erase_augmented_core_def)
  then have "rb_erase_with k cb s n cached = Inr s'" using s'(1) by (simp add: rb_erase_with_def)
  then show thesis using that [of s'] s'(2,3) e(3,4) by simp
qed

end
