(* ===== verification/Rbtree_Client.thy ===== *)
theory Rbtree_Client
  imports Rbtree_Remove
begin

text \<open>
  What a client of the trees relies on: the height from the length of the sequence, removal in terms of the
  sequence, and that no routine makes a node appear or disappear.
\<close>

section \<open>The sequence\<close>

lemma holds_hgt: "rb_tree s t \<Longrightarrow> is_rbt t \<Longrightarrow> (length (inorder t) + 1) ^ 2 < 2 ^ k \<Longrightarrow> hgt t < k"
proof -
  assume a: "is_rbt t" "(length (inorder t) + 1) ^ 2 < 2 ^ k"
  have "(2 :: nat) ^ hgt t < 2 ^ k" using hgt_log [OF a(1)] a(2) by linarith
  then show ?thesis by simp
qed

text \<open>A missing child is an empty place of the tree, next to its parent in the sequence.\<close>

lemma free_slot:
  assumes h: "holds s (xs @ p # ys)" and m: "nodes s p = Some m" "child d m = 0"
  obtains fs where "rb_tree s (plug fs Leaf)" "is_rbt (plug fs Leaf)" "top_of fs = p" "\<And>e c a u gs. fs = Frame e c a u # gs \<Longrightarrow> d = e"
    "pre fs = (if d = SLeft then xs else xs @ [p])" "post fs = (if d = SLeft then p # ys else ys)"
proof -
  obtain fs l c r where t: "rb_tree s (plug fs (Node l c p r))" "is_rbt (plug fs (Node l c p r))"
    and e: "xs = pre fs @ inorder l" "ys = inorder r @ post fs" by (rule holds_at [OF h])
  have n: "m = nd SLeft (pc_of (top_of fs) c) (root l) (root r)" "rep (nodes s) p l" "rep (nodes s) p r"
    using t(1) m(1) by (simp_all add: rb_tree_def rep_plug)
  show thesis
  proof (cases d)
    case SLeft
    then have "l = Leaf" using m(2) n root_zero [OF n(2)] by (simp add: child_def)
    then show thesis using that [of "Frame SLeft c p r # fs"] t e SLeft by simp
  next
    case SRight
    then have "r = Leaf" using m(2) n root_zero [OF n(3)] by (simp add: child_def)
    then show thesis using that [of "Frame SRight c p l # fs"] t e SRight by simp
  qed
qed

lemma holds_erase:
  assumes "holds s (xs @ n # ys)" and "(length (xs @ n # ys) + 1) ^ 2 < 2 ^ k"
  obtains s' where "rb_erase_with k cb s n cached = Inr s'" "holds s' (xs @ ys)"
    "leftmost s' = (if cached \<and> n = leftmost s then first_of ys else leftmost s)"
proof -
  obtain fs l c r where t: "rb_tree s (plug fs (Node l c n r))" "is_rbt (plug fs (Node l c n r))"
    and e: "xs = pre fs @ inorder l" "ys = inorder r @ post fs" by (rule holds_at [OF assms(1)])
  have "inorder (plug fs (Node l c n r)) = xs @ n # ys" by (simp add: inorder_plug e)
  then have k: "hgt (plug fs (Node l c n r)) < k" using holds_hgt [OF t] assms(2) by simp
  obtain s' where s': "rb_erase_with k cb s n cached = Inr s'" "rb_tree s' (erase_at fs l c n r)"
    "leftmost s' = (if cached \<and> n = leftmost s then first_of (inorder r @ post fs) else leftmost s)"
    by (rule rb_erase_with_ok [OF t k])
  have "holds s' (xs @ ys)" by (rule holdsI [OF s'(2) erase_at_ok(1) [OF t(2)]]) (simp add: erase_at_ok(2) [OF t(2)] e)
  then show thesis using that s' e by blast
qed

lemma holds_prev:
  assumes "holds s (xs @ n # ys)" and "(length (xs @ n # ys) + 1) ^ 2 < 2 ^ k"
  shows "rb_prev k s n = Inr (last_of xs)"
proof -
  obtain t where t: "rb_tree s t" "is_rbt t" "inorder t = xs @ n # ys" using assms(1) by (auto simp: holds_def)
  have "hgt t < k" by (rule holds_hgt [OF t(1,2)]) (simp only: t(3) assms(2))
  then show ?thesis by (rule rb_next_prev_ok(2) [OF t(1,3)])
qed

lemma holds_distinct: "holds s xs \<Longrightarrow> distinct xs \<and> 0 \<notin> set xs"
  using tree_nonzero by (auto simp: holds_def rb_tree_def)

lemma holds_node:
  assumes "holds s xs" and "n \<in> set xs"
  obtains m where "nodes s n = Some m" "\<not> RB_EMPTY_NODE n m" "good n"
proof -
  obtain us vs where "xs = us @ n # vs" using assms(2) by (auto simp: in_set_conv_decomp)
  with assms(1) have "holds s (us @ n # vs)" by simp
  then obtain fs l c r where t: "rb_tree s (plug fs (Node l c n r))" by (rule holds_at)
  have h: "good n" "nodes s n = Some (nd SLeft (pc_of (top_of fs) c) (root l) (root r))" "repc (nodes s) n fs" and ds: "n \<notin> fset fs"
    using t by (auto simp: rb_tree_def rep_plug distinct_plug)
  have "top_of fs \<noteq> n" using ds h(1) top_fset [of fs] by (cases "fs = []") (auto simp: good_def)
  then show thesis using that h not_empty_node [OF h(1) repc_top [OF h(3)]] by blast
qed

section \<open>The nodes that exist\<close>

definition live :: "'a rb_state \<Rightarrow> ptr \<Rightarrow> bool" where
  "live s p \<longleftrightarrow> nodes s p \<noteq> None"

lemma live_simps [simp]: "live (call f s p q) = live s" "live (s\<lparr>root_node := r\<rparr>) = live s" "live (s\<lparr>leftmost := r\<rparr>) = live s"
  by (simp_all add: live_def fun_eq_iff)

lemma upd_dom: "upd s p f = Inr s' \<Longrightarrow> live s' = live s"
  by (auto simp: upd_def live_def fun_eq_iff split: option.splits if_splits)

lemmas write_defs = set_child_def rb_set_parent_color_def set_pc_def rb_set_parent_def rb_set_black_def

lemma write_dom:
  "set_child s d p q = Inr s' \<Longrightarrow> live s' = live s"
  "rb_set_parent_color s p q c = Inr s' \<Longrightarrow> live s' = live s"
  "set_pc s p pc = Inr s' \<Longrightarrow> live s' = live s"
  "rb_set_parent s p q = Inr s' \<Longrightarrow> live s' = live s"
  "rb_set_black s p = Inr s' \<Longrightarrow> live s' = live s"
  by (auto simp: write_defs dest: upd_dom)

lemma change_child_dom: "rb_change_child s a b p = Inr s' \<Longrightarrow> live s' = live s"
  by (auto simp: rb_change_child_def rbind_Inr_iff split: if_splits dest!: write_dom(1))

lemma rotate_dom: "rb_rotate_set_parents s a b c = Inr s' \<Longrightarrow> live s' = live s"
  by (auto simp: rb_rotate_set_parents_def rbind_Inr_iff dest!: change_child_dom write_dom)

lemma unless_null_Inr: "unless_null p s x = Inr s' \<longleftrightarrow> (if p \<noteq> 0 then x = Inr s' else s' = s)"
  by (auto simp: unless_null_def)

lemma erase_case1_dom: "erase_case1 rot s d p b = Inr (q, s') \<Longrightarrow> live s' = live s"
  by (auto simp: erase_case1_def rbind_Inr_iff Let_def split: if_splits dest!: rotate_dom write_dom)

lemma erase_case3_dom: "erase_case3 rot s d p b t = Inr s' \<Longrightarrow> live s' = live s"
  by (auto simp: erase_case3_def rbind_Inr_iff Let_def unless_null_Inr split: if_splits dest!: write_dom)

lemma erase_case4_dom: "erase_case4 rot s d p b t = Inr s' \<Longrightarrow> live s' = live s"
  by (auto simp: erase_case4_def rbind_Inr_iff Let_def unless_null_Inr split: if_splits dest!: rotate_dom write_dom)

lemma erase_round_dom:
  assumes up: "\<And>s1 a b. up s1 a b = Inr s' \<Longrightarrow> live s' = live s1" and e: "erase_round up rot s d p b = Inr s'"
  shows "live s' = live s"
proof -
  obtain sn r1 where n: "node_at s b = Inr sn" "is_red_at s (child (opp d) sn) = Inr r1"
    and e1: "(if r1 then erase_case4 rot s d p b (child (opp d) sn)
         else rbind (is_red_at s (child d sn)) (\<lambda>red2.
             if red2 then rbind (erase_case3 rot s d p b (child d sn)) (\<lambda>s1. erase_case4 rot s1 d p (child d sn) b)
             else rbind (rb_set_parent_color s b p RB_RED) (\<lambda>s1. rbind (node_at s1 p) (\<lambda>q.
                   if rb_is_red q then rb_set_black s1 p else if rb_parent q \<noteq> 0 then up s1 p (rb_parent q) else Inr s1)))) = Inr s'"
    using e unfolding erase_round_def Let_def by (elim rbind_InrE)
  show ?thesis
  proof (cases r1)
    case True
    then show ?thesis using e1 by (simp add: erase_case4_dom)
  next
    case False
    then obtain r2 where e2: "(if r2 then rbind (erase_case3 rot s d p b (child d sn)) (\<lambda>s1. erase_case4 rot s1 d p (child d sn) b)
             else rbind (rb_set_parent_color s b p RB_RED) (\<lambda>s1. rbind (node_at s1 p) (\<lambda>q.
                   if rb_is_red q then rb_set_black s1 p else if rb_parent q \<noteq> 0 then up s1 p (rb_parent q) else Inr s1))) = Inr s'"
      using e1 by (auto elim: rbind_InrE simp del: if_split)
    show ?thesis
    proof (cases r2)
      case True
      then obtain s1 where "erase_case3 rot s d p b (child d sn) = Inr s1" "erase_case4 rot s1 d p (child d sn) b = Inr s'"
        using e2 by (auto elim: rbind_InrE)
      then show ?thesis using erase_case3_dom erase_case4_dom by metis
    next
      case False
      then obtain s1 q where "rb_set_parent_color s b p RB_RED = Inr s1"
        and q: "(if rb_is_red q then rb_set_black s1 p else if rb_parent q \<noteq> 0 then up s1 p (rb_parent q) else Inr s1) = Inr s'"
        using e2 by (auto elim!: rbind_InrE simp del: if_split)
      then have "live s1 = live s" using write_dom(2) by metis
      moreover have "live s' = live s1" using q up by (auto split: if_split_asm dest: write_dom(5))
      ultimately show ?thesis by simp
    qed
  qed
qed

lemma erase_color_dom: "rb_erase_color k rot s n p = Inr s' \<Longrightarrow> live s' = live s"
proof (induction k arbitrary: s n p)
  case (Suc k)
  then obtain m r d where "erase_case1 rot s d p m = Inr r" and r: "(case r of (b, s1) \<Rightarrow> erase_round (rb_erase_color k rot) rot s1 d p b) = Inr s'"
    unfolding rb_erase_color_round Let_def by (elim rbind_InrE)
  then obtain b s1 where "erase_case1 rot s d p m = Inr (b, s1)" "erase_round (rb_erase_color k rot) rot s1 d p b = Inr s'" by (cases r) auto
  moreover from this(2) have "live s' = live s1" by (rule erase_round_dom [rotated]) (rule Suc.IH)
  ultimately show ?case using erase_case1_dom by metis
qed simp

lemma take_successor_dom: "take_successor k cb s n r = Inr (a, b, c, s') \<Longrightarrow> live s' = live s"
proof -
  assume e: "take_successor k cb s n r = Inr (a, b, c, s')"
  then obtain m where m: "node_at s r = Inr m" unfolding take_successor_def by (rule rbind_InrE)
  show ?thesis
  proof (cases "rb_left m = 0")
    case True
    then show ?thesis using e m by (auto simp: take_successor_def)
  next
    case False
    then have "rbind (successor_loop k s r (rb_left m)) (\<lambda>(parent, successor). rbind (node_at s successor) (\<lambda>sn.
             rbind (set_child s SLeft parent (rb_right sn)) (\<lambda>s1. rbind (set_child s1 SRight successor r) (\<lambda>s2.
                 rbind (rb_set_parent s2 r successor) (\<lambda>s3. Inr (parent, successor, rb_right sn,
                        call (propagate cb) (call (acopy cb) s3 n successor) parent successor)))))) = Inr (a, b, c, s')"
      using e m by (simp add: take_successor_def Let_def)
    then obtain q where "(case q of (parent, successor) \<Rightarrow> rbind (node_at s successor) (\<lambda>sn.
             rbind (set_child s SLeft parent (rb_right sn)) (\<lambda>s1. rbind (set_child s1 SRight successor r) (\<lambda>s2.
                 rbind (rb_set_parent s2 r successor) (\<lambda>s3. Inr (parent, successor, rb_right sn,
                        call (propagate cb) (call (acopy cb) s3 n successor) parent successor)))))) = Inr (a, b, c, s')"
      by (rule rbind_InrE)
    then show ?thesis by (cases q) (auto elim!: rbind_InrE dest!: write_dom(1,4))
  qed
qed

lemma erase_node_dom: "erase_node k cb s n = Inr (a, b, s') \<Longrightarrow> live s' = live s"
proof -
  assume e: "erase_node k cb s n = Inr (a, b, s')"
  then obtain m where m: "node_at s n = Inr m" by (auto simp: erase_node_def rbind_Inr_iff)
  consider "rb_left m = 0" | "rb_left m \<noteq> 0" "rb_right m = 0" | "rb_left m \<noteq> 0" "rb_right m \<noteq> 0" by blast
  then show ?thesis
  proof cases
    case 1
    then show ?thesis using e m
      by (auto simp: erase_node_def rbind_Inr_iff Let_def split: if_split_asm dest!: write_dom(3) change_child_dom)
  next
    case 2
    then show ?thesis using e m by (auto simp: erase_node_def rbind_Inr_iff Let_def dest!: write_dom(3) change_child_dom)
  next
    case 3
    then have "rbind (take_successor k cb s n (rb_right m)) (\<lambda>(parent, successor, child2, s1).
           rbind (node_at s1 n) (\<lambda>n1. rbind (set_child s1 SLeft successor (rb_left n1)) (\<lambda>s2.
               rbind (rb_set_parent s2 (rb_left n1) successor) (\<lambda>s3. rbind (node_at s3 n) (\<lambda>n3.
                   rbind (rb_change_child s3 n successor (pc_parent (rb_parent_color n3))) (\<lambda>s4.
                     if child2 \<noteq> 0 then
                       rbind (set_pc s4 successor (rb_parent_color n3)) (\<lambda>s5.
                         rbind (rb_set_parent_color s5 child2 parent RB_BLACK) (\<lambda>s6. Inr (0, successor, s6)))
                     else
                       rbind (node_at s4 successor) (\<lambda>sn. rbind (set_pc s4 successor (rb_parent_color n3)) (\<lambda>s5.
                           Inr (if rb_is_black sn then parent else 0, successor, s5))))))))) = Inr (a, b, s')"
      using e m by (simp add: erase_node_def Let_def)
    then obtain parent successor child2 s1 where s0: "take_successor k cb s n (rb_right m) = Inr (parent, successor, child2, s1)"
      and "rbind (node_at s1 n) (\<lambda>n1. rbind (set_child s1 SLeft successor (rb_left n1)) (\<lambda>s2.
               rbind (rb_set_parent s2 (rb_left n1) successor) (\<lambda>s3. rbind (node_at s3 n) (\<lambda>n3.
                   rbind (rb_change_child s3 n successor (pc_parent (rb_parent_color n3))) (\<lambda>s4.
                     if child2 \<noteq> 0 then
                       rbind (set_pc s4 successor (rb_parent_color n3)) (\<lambda>s5.
                         rbind (rb_set_parent_color s5 child2 parent RB_BLACK) (\<lambda>s6. Inr (0, successor, s6)))
                     else
                       rbind (node_at s4 successor) (\<lambda>sn. rbind (set_pc s4 successor (rb_parent_color n3)) (\<lambda>s5.
                           Inr (if rb_is_black sn then parent else 0, successor, s5)))))))) = Inr (a, b, s')"
      by (rule rbind_InrE) (simp only: split_paired_all prod.case)
    then obtain n1 n3 :: rb_node and s2 s3 s4 where s:
      "set_child s1 SLeft successor (rb_left n1) = Inr s2"
      "rb_set_parent s2 (rb_left n1) successor = Inr s3" "rb_change_child s3 n successor (pc_parent (rb_parent_color n3)) = Inr s4"
      and s5: "(if child2 \<noteq> 0 then rbind (set_pc s4 successor (rb_parent_color n3)) (\<lambda>s5.
            rbind (rb_set_parent_color s5 child2 parent RB_BLACK) (\<lambda>s6. Inr (0, successor, s6)))
        else rbind (node_at s4 successor) (\<lambda>sn. rbind (set_pc s4 successor (rb_parent_color n3)) (\<lambda>s5.
            Inr (if rb_is_black sn then parent else 0, successor, s5)))) = Inr (a, b, s')"
      by (elim rbind_InrE) blast
    have "live s' = live s4"
      using s5 by (auto simp: rbind_Inr_iff split: if_split_asm dest!: write_dom(2,3))
    then show ?thesis using take_successor_dom [OF s0] s by (simp add: write_dom change_child_dom)
  qed
qed

lemma rb_erase_dom: "rb_erase_with k cb s n cached = Inr s' \<Longrightarrow> live s' = live s"
  by (auto simp: rb_erase_with_def rb_erase_augmented_core_def rbind_Inr_iff split: if_splits dest!: erase_color_dom erase_node_dom)

end
