(* ===== verification/Rbtree_Properties.thy ===== *)
theory Rbtree_Properties
  imports Rbtree_Client
begin

text \<open>
  What the red-black trees of \<^verbatim>\<open>lib/ulib/rbtree.c\<close> promise.  A client sees a sequence of nodes;
  \<open>holds s xs\<close> says that the heap holds a valid red-black tree with the nodes \<open>xs\<close> in this order.  The fuel
  of every loop is a bound on the number of its rounds: all theorems need only \<open>(n + 1)\<^sup>2 < 2 ^ k\<close> for a
  tree of \<open>n\<close> nodes, so no loop takes more than about twice the logarithm of \<open>n\<close> rounds.
\<close>

section \<open>An example\<close>

text \<open>Three nodes, and a fourth one that is not in the tree.\<close>

definition demo_tree :: rbt where
  "demo_tree = Node (Node Leaf Red 8 Leaf) Black 16 (Node Leaf Red 24 Leaf)"

definition demo_heap :: rb_heap where
  "demo_heap = [8 \<mapsto> nd SLeft (pc_of 16 Red) 0 0, 16 \<mapsto> nd SLeft (pc_of 0 Black) 8 24, 24 \<mapsto> nd SLeft (pc_of 16 Red) 0 0,
     32 \<mapsto> nd SLeft 0 0 0]"

definition demo_state :: "unit rb_state" where
  "demo_state = \<lparr>nodes = demo_heap, root_node = 16, leftmost = 8, aug = ()\<rparr>"

lemma demo_rb_tree: "rb_tree demo_state demo_tree"
  by (simp add: rb_tree_def demo_state_def demo_tree_def demo_heap_def good_def)

lemma demo_is_rbt: "is_rbt demo_tree"
  by (simp add: is_rbt_def wft_def demo_tree_def)

lemma demo_holds: "holds demo_state [8, 16, 24]"
  by (rule holdsI [OF demo_rb_tree demo_is_rbt]) (simp add: demo_tree_def)

section \<open>Properties\<close>

text \<open>
  C33: inserting a node.  When \<open>p\<close> is a node of a valid tree with no child on side \<open>d\<close>, then
  \<^verbatim>\<open>rb_link_node\<close> there followed by the insertion of the new node \<open>n\<close> never faults, ends within the
  logarithmic bound, and leaves a valid red-black tree in which \<open>n\<close> stands directly before (left) or
  after (right) \<open>p\<close> and everything else is in its place.  The cached first node becomes \<open>n\<close> exactly
  when the caller says so, for every augmentation callback.
\<close>

theorem rb_insert_places:
  assumes "holds s (xs @ p # ys)" and "nodes s p = Some m" and "child d m = 0"
    and "good n" and "n \<notin> set (xs @ p # ys)" and "nodes s n \<noteq> None" and "(length (xs @ p # ys) + 1) ^ 2 < 2 ^ k"
  shows "\<exists>s'. rbind (rb_link_node s n p d) (\<lambda>s1. rb_insert_augmented_cached k cb s1 n newleft) = Inr s' \<and>
     holds s' (if d = SLeft then xs @ n # p # ys else xs @ p # n # ys) \<and> leftmost s' = (if newleft then n else leftmost s)"
proof -
  obtain fs where fs: "rb_tree s (plug fs Leaf)" "is_rbt (plug fs Leaf)" "top_of fs = p" "\<And>e c a u gs. fs = Frame e c a u # gs \<Longrightarrow> d = e"
    "pre fs = (if d = SLeft then xs else xs @ [p])" "post fs = (if d = SLeft then p # ys else ys)"
    by (rule free_slot [OF assms(1-3)]) blast
  have io: "inorder (plug fs Leaf) = xs @ p # ys" using fs(5,6) by (simp add: inorder_plug)
  have k: "hgt (plug fs Leaf) < k" by (rule holds_hgt [OF fs(1,2)]) (simp only: io assms(7))
  have n: "n \<notin> addrs (plug fs Leaf)" unfolding io by (rule assms(5))
  obtain s' where "rbind (rb_link_node s n (top_of fs) d) (\<lambda>s1. rb_insert k (arotate cb) s1 n newleft) = Inr s'"
    "holds s' (pre fs @ n # post fs)" "leftmost s' = (if newleft then n else leftmost s)"
    by (rule rb_link_insert_ok [OF fs(1,2) assms(4) n assms(6) fs(4) k])
  then show ?thesis using fs(3,5,6) by (cases d) (auto simp: rb_insert_augmented_cached_def)
qed

theorem rb_insert_places_witness:
  "\<exists>s'. rbind (rb_link_node demo_state 32 24 SRight) (\<lambda>s1. rb_insert_augmented_cached 5 dummy_callbacks s1 32 False) = Inr s' \<and>
     holds s' [8, 16, 24, 32] \<and> leftmost s' = 8"
  using rb_insert_places [of demo_state "[8, 16]" 24 "[]" "nd SLeft (pc_of 16 Red) 0 0" SRight 32 5 dummy_callbacks False] demo_holds
  by (simp add: demo_state_def demo_heap_def good_def child_def power2_eq_square)

text \<open>
  C34: removing a node.  For every node \<open>n\<close> of a valid tree, \<^verbatim>\<open>rb_erase\<close> in all its variants (with and
  without the cached first node, with any augmentation callbacks) never faults, ends within the
  logarithmic bound and leaves a valid red-black tree with the same nodes in the same order, without
  \<open>n\<close>.  When the cached first node is removed, its successor is cached, or \<^verbatim>\<open>NULL\<close> when there is none.
\<close>

theorem rb_erase_removes:
  assumes "holds s (xs @ n # ys)" and "(length (xs @ n # ys) + 1) ^ 2 < 2 ^ k"
  shows "\<exists>s'. rb_erase_with k cb s n cached = Inr s' \<and> holds s' (xs @ ys) \<and>
     leftmost s' = (if cached \<and> n = leftmost s then first_of ys else leftmost s)"
  using holds_erase [OF assms, of cb cached] by blast

theorem rb_erase_removes_witness:
  "\<exists>s'. rb_erase_with 5 dummy_callbacks demo_state 16 True = Inr s' \<and> holds s' [8, 24] \<and> leftmost s' = 8"
  using rb_erase_removes [of demo_state "[8]" 16 "[24]" 5 dummy_callbacks True] demo_holds
  by (simp add: demo_state_def power2_eq_square)

text \<open>
  C35: walking.  On a tree of height less than \<open>k\<close>, the loop from \<^verbatim>\<open>rb_first\<close> with \<^verbatim>\<open>rb_next\<close> visits the nodes
  in order, the loop from \<^verbatim>\<open>rb_last\<close> with \<^verbatim>\<open>rb_prev\<close> visits them in the opposite order, and the loop from
  \<^verbatim>\<open>rb_first_postorder\<close> with \<^verbatim>\<open>rb_next_postorder\<close> visits every node after its children; each of them
  visits every node exactly once and then ends.
\<close>

theorem rb_walks:
  assumes "rb_tree s t" and "hgt t < k" and "length (inorder t) < j"
  shows "rbind (rb_first k s) (walk_from j (rb_next k s)) = Inr (inorder t) \<and>
     rbind (rb_last k s) (walk_from j (rb_prev k s)) = Inr (rev (inorder t)) \<and>
     rbind (rb_first_postorder k s) (walk_from j (rb_next_postorder k s)) = Inr (postorder t)"
proof (intro conjI)
  show "rbind (rb_first k s) (walk_from j (rb_next k s)) = Inr (inorder t)"
    by (rule rb_forward.walk_all) (use assms in \<open>auto simp: forth_def\<close>)
  show "rbind (rb_last k s) (walk_from j (rb_prev k s)) = Inr (rev (inorder t))"
    by (rule rb_backward.walk_all) (use assms in \<open>auto simp: back_order_def\<close>)
  show "rbind (rb_first_postorder k s) (walk_from j (rb_next_postorder k s)) = Inr (postorder t)"
    by (rule rb_postorder.walk_all) (use assms in \<open>auto simp: children_first_def length_postorder\<close>)
qed

theorem rb_walks_witness:
  "rbind (rb_first 3 demo_state) (walk_from 4 (rb_next 3 demo_state)) = Inr [8, 16, 24] \<and>
   rbind (rb_last 3 demo_state) (walk_from 4 (rb_prev 3 demo_state)) = Inr [24, 16, 8] \<and>
   rbind (rb_first_postorder 3 demo_state) (walk_from 4 (rb_next_postorder 3 demo_state)) = Inr [8, 24, 16]"
  using rb_walks [OF demo_rb_tree, of 3 4] by (simp add: demo_tree_def)

text \<open>
  C36: replacing a node.  \<^verbatim>\<open>rb_replace_node_cached\<close> puts a node that is not in the tree in the place of one
  that is: the tree stays valid, the sequence differs in this place only, and the cached first node
  follows when it was the replaced one.
\<close>

theorem rb_replace_keeps_place:
  assumes "holds s (xs @ v # ys)" and "good n" and "n \<notin> set (xs @ v # ys)" and "nodes s n \<noteq> None"
  shows "\<exists>s'. rb_replace_node_cached s v n = Inr s' \<and> holds s' (xs @ n # ys) \<and>
     leftmost s' = (if leftmost s = v then n else leftmost s)"
proof -
  obtain fs l c r where t: "rb_tree s (plug fs (Node l c v r))" "is_rbt (plug fs (Node l c v r))"
    and e: "xs = pre fs @ inorder l" "ys = inorder r @ post fs" by (rule holds_at [OF assms(1)])
  have "n \<notin> addrs (plug fs (Node l c v r))" using assms(3) by (auto simp: inorder_plug e)
  from rb_replace_node_ok [OF t(1) assms(2) this assms(4)] obtain s' where s': "rb_replace_node s v n = Inr s'"
    "rb_tree s' (plug fs (Node l c n r))" "leftmost s' = leftmost s" by blast
  have "fits (Node l c v r) (Node l c n r)" using is_rbt_sub [OF t(2)] by (auto simp: fits_def wft_def)
  then have "is_rbt (plug fs (Node l c n r))" by (rule is_rbt_plug_fits [OF t(2)])
  then have "rb_tree s2 (plug fs (Node l c n r)) \<Longrightarrow> holds s2 (xs @ n # ys)" for s2 :: "'a rb_state"
    by (rule holdsI [rotated]) (simp_all add: inorder_plug e)
  then show ?thesis using s' by (simp add: rb_replace_node_cached_def)
qed

theorem rb_replace_keeps_place_witness:
  "\<exists>s'. rb_replace_node_cached demo_state 8 32 = Inr s' \<and> holds s' [32, 16, 24] \<and> leftmost s' = 32"
  using rb_replace_keeps_place [of demo_state "[]" 8 "[16, 24]" 32] demo_holds
  by (simp add: demo_state_def demo_heap_def good_def)

end
