(* ===== verification/Vmap.thy ===== *)
theory Vmap
  imports Rbtree_Client Bitops
begin

text \<open>
  The allocator of kernel virtual address space, \<^verbatim>\<open>mm/vmalloc.c\<close>.  An area (\<^verbatim>\<open>struct vmap_area\<close>) is a node of
  a red-black tree and an element of a list, both sorted by address; the model names an area by the
  address of its tree node, from which \<^verbatim>\<open>rb_entry\<close> computes the address of the area.  The list is a
  sequence of areas and the lazily released areas are another one, newest first.

  Memory for an area comes from \<^verbatim>\<open>kmalloc\<close>, which is an argument of the model: the address it returned, or
  0.  Locks, cache and TLB maintenance change no state of the model, and \<^verbatim>\<open>vunmap_page_range\<close> is empty in
  the code.  Nothing in the kernel puts blocks on the queues that \<^verbatim>\<open>purge_fragmented_blocks\<close> walks.
\<close>

section \<open>Data\<close>

record vmap_area =
  va_start :: nat
  va_end :: nat
  va_flags :: "64 word"
  va_vm :: ptr

record vm_struct =
  vm_addr :: nat
  vm_size :: nat
  vm_flags :: "64 word"

record vmap_state =
  vmap_area_root :: "unit rb_state"
  areas :: "ptr \<Rightarrow> vmap_area option"
  vm_structs :: "ptr \<Rightarrow> vm_struct option"
  vmap_area_list :: "ptr list"
  vmap_purge_list :: "ptr list"
  free_vmap_cache :: ptr
  cached_hole_size :: nat
  cached_vstart :: nat
  cached_align :: nat
  vmap_area_pcpu_hole :: nat
  vmap_lazy_nr :: "32 word"

text \<open>What depends on the configuration of the kernel.\<close>

record vmap_env =
  VMALLOC_START :: nat
  VMALLOC_END :: nat
  nr_possible_cpu_ids :: "32 word"
  IOREMAP_MAX_ORDER :: nat

definition VM_LAZY_FREE :: "64 word" where "VM_LAZY_FREE = 2"
definition VM_VM_AREA :: "64 word" where "VM_VM_AREA = 4"
definition VM_IOREMAP :: "64 word" where "VM_IOREMAP = 1"
definition VM_NO_GUARD :: "64 word" where "VM_NO_GUARD = 0x40"

definition align64 :: "nat \<Rightarrow> nat \<Rightarrow> nat" where
  "align64 x a = add64 x (sub64 a 1) AND not64 (sub64 a 1)"

definition is_aligned64 :: "nat \<Rightarrow> nat \<Rightarrow> bool" where
  "is_aligned64 x a = (x AND sub64 a 1 = 0)"

definition is_power_of_2 :: "nat \<Rightarrow> bool" where
  "is_power_of_2 n = (n \<noteq> 0 \<and> n AND sub64 n 1 = 0)"

definition area_at :: "vmap_state \<Rightarrow> ptr \<Rightarrow> vmap_area res" where
  "area_at s p = (case areas s p of None \<Rightarrow> Inl Oob | Some a \<Rightarrow> Inr a)"

definition set_area :: "vmap_state \<Rightarrow> ptr \<Rightarrow> vmap_area \<Rightarrow> vmap_state" where
  "set_area s p a = s\<lparr>areas := (areas s)(p \<mapsto> a)\<rparr>"

section \<open>Looking up an area\<close>

primrec find_area_loop :: "nat \<Rightarrow> vmap_state \<Rightarrow> nat \<Rightarrow> ptr \<Rightarrow> ptr res" where
  "find_area_loop 0 s addr n = Inl Fuel"
| "find_area_loop (Suc k) s addr n =
     (if n = 0 then Inr 0
      else rbind (area_at s n) (\<lambda>va. rbind (node_at (vmap_area_root s) n) (\<lambda>x.
        if addr < va_start va then find_area_loop k s addr (rb_left x)
        else if addr \<ge> va_end va then find_area_loop k s addr (rb_right x)
        else Inr n)))"

definition find_vmap_area :: "nat \<Rightarrow> vmap_state \<Rightarrow> nat \<Rightarrow> ptr res" where
  "find_vmap_area k s addr = find_area_loop k s addr (root_node (vmap_area_root s))"

section \<open>Inserting an area\<close>

text \<open>The empty place for the area: its parent and the side of it.\<close>

primrec insert_area_loop :: "nat \<Rightarrow> vmap_state \<Rightarrow> vmap_area \<Rightarrow> ptr \<Rightarrow> ptr \<Rightarrow> side \<Rightarrow> (ptr \<times> side) res" where
  "insert_area_loop 0 s va p parent d = Inl Fuel"
| "insert_area_loop (Suc k) s va p parent d =
     (if p = 0 then Inr (parent, d)
      else rbind (area_at s p) (\<lambda>tmp_va. rbind (node_at (vmap_area_root s) p) (\<lambda>x.
        if va_start va < va_end tmp_va then insert_area_loop k s va (rb_left x) p SLeft
        else if va_end va > va_start tmp_va then insert_area_loop k s va (rb_right x) p SRight
        else Inl Bug)))"

text \<open>\<^verbatim>\<open>list_add_rcu\<close> after an element of the list, and \<^verbatim>\<open>list_del_rcu\<close>.\<close>

primrec list_add_rcu :: "ptr \<Rightarrow> ptr \<Rightarrow> ptr list \<Rightarrow> ptr list res" where
  "list_add_rcu n prev [] = Inl Oob"
| "list_add_rcu n prev (x # xs) = (if x = prev then Inr (x # n # xs) else rbind (list_add_rcu n prev xs) (\<lambda>ys. Inr (x # ys)))"

definition list_del_rcu :: "ptr \<Rightarrow> ptr list \<Rightarrow> ptr list res" where
  "list_del_rcu n xs = (if n \<in> set xs then Inr (remove1 n xs) else Inl Oob)"

definition insert_vmap_area :: "nat \<Rightarrow> vmap_state \<Rightarrow> ptr \<Rightarrow> vmap_state res" where
  "insert_vmap_area k s n =
     rbind (area_at s n) (\<lambda>va.
       rbind (insert_area_loop k s va (root_node (vmap_area_root s)) 0 SLeft) (\<lambda>(parent, d).
         rbind (rb_link_node (vmap_area_root s) n parent d) (\<lambda>t1.
           rbind (rb_insert_color k t1 n) (\<lambda>t2.
             rbind (rb_prev k t2 n) (\<lambda>prev.
               rbind (if prev \<noteq> 0 then list_add_rcu n prev (vmap_area_list s) else Inr (n # vmap_area_list s)) (\<lambda>xs.
                 Inr (s\<lparr>vmap_area_root := t2, vmap_area_list := xs\<rparr>)))))))"

section \<open>Releasing an area\<close>

definition rb_clear_node :: "'a rb_state \<Rightarrow> ptr \<Rightarrow> 'a rb_state res" where
  "rb_clear_node s n = set_pc s n n"

text \<open>\<^verbatim>\<open>kfree\<close> of an area: its memory is gone.\<close>

definition kfree_area :: "vmap_state \<Rightarrow> ptr \<Rightarrow> vmap_state" where
  "kfree_area s n = s\<lparr>areas := (areas s)(n := None), vmap_area_root := (vmap_area_root s)\<lparr>nodes := (nodes (vmap_area_root s))(n := None)\<rparr>\<rparr>"

definition forget_cached :: "nat \<Rightarrow> vmap_state \<Rightarrow> ptr \<Rightarrow> vmap_area \<Rightarrow> vmap_state res" where
  "forget_cached k s n va =
     (if free_vmap_cache s \<noteq> 0 then
        if va_end va < cached_vstart s then Inr (s\<lparr>free_vmap_cache := 0\<rparr>)
        else rbind (area_at s (free_vmap_cache s)) (\<lambda>cache.
          if va_start va \<le> va_start cache then
            rbind (rb_prev k (vmap_area_root s) n) (\<lambda>q. Inr (s\<lparr>free_vmap_cache := q\<rparr>))
          else Inr s)
      else Inr s)"

definition free_vmap_area :: "vmap_env \<Rightarrow> nat \<Rightarrow> vmap_state \<Rightarrow> ptr \<Rightarrow> vmap_state res" where
  "free_vmap_area env k s n =
     rbind (node_at (vmap_area_root s) n) (\<lambda>x.
       if RB_EMPTY_NODE n x then Inl Bug
       else rbind (area_at s n) (\<lambda>va.
         rbind (forget_cached k s n va) (\<lambda>s1.
           rbind (rb_erase k (vmap_area_root s1) n) (\<lambda>t1.
             rbind (rb_clear_node t1 n) (\<lambda>t2.
               rbind (list_del_rcu n (vmap_area_list s1)) (\<lambda>xs.
                 let hole = (if va_end va > VMALLOC_START env \<and> va_end va \<le> VMALLOC_END env
                             then max (vmap_area_pcpu_hole s1) (va_end va) else vmap_area_pcpu_hole s1) in
                 Inr (kfree_area (s1\<lparr>vmap_area_root := t2, vmap_area_list := xs, vmap_area_pcpu_hole := hole\<rparr>) n)))))))"

definition area_pages :: "vmap_area \<Rightarrow> 32 word" where
  "area_pages va = of_nat (sub64 (va_end va) (va_start va) div PAGE_SIZE)"

primrec purge_loop :: "vmap_env \<Rightarrow> nat \<Rightarrow> vmap_state \<Rightarrow> ptr list \<Rightarrow> vmap_state res" where
  "purge_loop env k s [] = Inr s"
| "purge_loop env k s (n # ns) =
     rbind (area_at s n) (\<lambda>va.
       rbind (free_vmap_area env k s n) (\<lambda>s1.
         purge_loop env k (s1\<lparr>vmap_lazy_nr := vmap_lazy_nr s1 - area_pages va\<rparr>) ns))"

text \<open>\<^verbatim>\<open>__purge_vmap_area_lazy\<close>, and \<^verbatim>\<open>purge_vmap_area_lazy\<close>, which only takes a lock around it.\<close>

definition purge_vmap_area_lazy :: "vmap_env \<Rightarrow> nat \<Rightarrow> vmap_state \<Rightarrow> (bool \<times> vmap_state) res" where
  "purge_vmap_area_lazy env k s =
     (let valist = vmap_purge_list s; s1 = s\<lparr>vmap_purge_list := []\<rparr> in
      if valist = [] then Inr (False, s1)
      else rbind (purge_loop env k s1 valist) (\<lambda>s2. Inr (True, s2)))"

definition lazy_max_pages :: "vmap_env \<Rightarrow> 64 word" where
  "lazy_max_pages env = of_nat (fls (nr_possible_cpu_ids env)) * (32 * 1024 * 1024 div of_nat PAGE_SIZE)"

definition free_vmap_area_noflush :: "vmap_env \<Rightarrow> nat \<Rightarrow> vmap_state \<Rightarrow> ptr \<Rightarrow> vmap_state res" where
  "free_vmap_area_noflush env k s n =
     rbind (area_at s n) (\<lambda>va.
       let nr_lazy = vmap_lazy_nr s + area_pages va;
           s1 = s\<lparr>vmap_lazy_nr := nr_lazy, vmap_purge_list := n # vmap_purge_list s\<rparr> in
       if scast nr_lazy > lazy_max_pages env then rbind (purge_vmap_area_lazy env k s1) (\<lambda>(_, s2). Inr s2) else Inr s1)"

text \<open>The area's descriptor, or 0; the area goes to the lazily released ones.\<close>

definition remove_vm_area :: "vmap_env \<Rightarrow> nat \<Rightarrow> vmap_state \<Rightarrow> nat \<Rightarrow> (ptr \<times> vmap_state) res" where
  "remove_vm_area env k s addr =
     rbind (find_vmap_area k s addr) (\<lambda>n.
       if n = 0 then Inr (0, s)
       else rbind (area_at s n) (\<lambda>va.
         if va_flags va AND VM_VM_AREA \<noteq> 0 then
           let va1 = va\<lparr>va_vm := 0, va_flags := (va_flags va AND NOT VM_VM_AREA) OR VM_LAZY_FREE\<rparr> in
           rbind (free_vmap_area_noflush env k (set_area s n va1) n) (\<lambda>s1. Inr (va_vm va, s1))
         else Inr (0, s)))"

section \<open>Allocating an area\<close>

text \<open>The lowest area that ends at \<open>addr\<close> or above.\<close>

primrec first_area_loop :: "nat \<Rightarrow> vmap_state \<Rightarrow> nat \<Rightarrow> ptr \<Rightarrow> ptr \<Rightarrow> ptr res" where
  "first_area_loop 0 s addr n first = Inl Fuel"
| "first_area_loop (Suc k) s addr n first =
     (if n = 0 then Inr first
      else rbind (area_at s n) (\<lambda>tmp. rbind (node_at (vmap_area_root s) n) (\<lambda>x.
        if va_end tmp \<ge> addr then
          if va_start tmp \<le> addr then Inr n else first_area_loop k s addr (rb_left x) n
        else first_area_loop k s addr (rb_right x) first)))"

text \<open>Where the search for a hole stands: an address with no areas left to look at, an address and the
  areas from the first one that may be in the way, or nowhere.\<close>

datatype hole_search = Found nat | Walk nat "ptr list" | Overflow

definition drop_cache :: "vmap_state \<Rightarrow> vmap_state" where
  "drop_cache s = s\<lparr>cached_hole_size := 0, free_vmap_cache := 0\<rparr>"

definition search_from_tree :: "nat \<Rightarrow> vmap_state \<Rightarrow> nat \<Rightarrow> nat \<Rightarrow> nat \<Rightarrow> (hole_search \<times> vmap_state) res" where
  "search_from_tree k s sz align vstart =
     (let addr = align64 vstart align in
      if add64 addr sz < addr then Inr (Overflow, s)
      else rbind (first_area_loop k s addr (root_node (vmap_area_root s)) 0) (\<lambda>first.
        if first = 0 then Inr (Found addr, s)
        else Inr (Walk addr (dropWhile (\<lambda>x. x \<noteq> first) (vmap_area_list s)), s)))"

definition search_start :: "nat \<Rightarrow> vmap_state \<Rightarrow> nat \<Rightarrow> nat \<Rightarrow> nat \<Rightarrow> (hole_search \<times> vmap_state) res" where
  "search_start k s sz align vstart =
     (let s1 = (if free_vmap_cache s = 0 \<or> sz < cached_hole_size s \<or> vstart < cached_vstart s \<or> align < cached_align s
                then drop_cache s else s);
          s2 = s1\<lparr>cached_vstart := vstart, cached_align := align\<rparr> in
      if free_vmap_cache s2 \<noteq> 0 then
        rbind (area_at s2 (free_vmap_cache s2)) (\<lambda>first.
          let addr = align64 (va_end first) align in
          if addr < vstart then search_from_tree k ((drop_cache s2)\<lparr>cached_vstart := vstart, cached_align := align\<rparr>) sz align vstart
          else if add64 addr sz < addr then Inr (Overflow, s2)
          else Inr (Walk addr (dropWhile (\<lambda>x. x \<noteq> free_vmap_cache s2) (vmap_area_list s2)), s2))
      else search_from_tree k s2 sz align vstart)"

text \<open>The walk over the areas; the list of an area that is in no list is empty, an access outside the model.\<close>

primrec walk_holes :: "vmap_state \<Rightarrow> nat \<Rightarrow> nat \<Rightarrow> nat \<Rightarrow> nat \<Rightarrow> ptr list \<Rightarrow> (hole_search \<times> vmap_state) res" where
  "walk_holes s sz align vend addr [] = Inl Oob"
| "walk_holes s sz align vend addr (first # rest) =
     rbind (area_at s first) (\<lambda>f.
       if add64 addr sz > va_start f \<and> add64 addr sz \<le> vend then
         let s1 = (if add64 addr (cached_hole_size s) < va_start f
                   then s\<lparr>cached_hole_size := sub64 (va_start f) addr\<rparr> else s);
             addr1 = align64 (va_end f) align in
         if add64 addr1 sz < addr1 then Inr (Overflow, s1)
         else if rest = [] then Inr (Found addr1, s1)
         else walk_holes s1 sz align vend addr1 rest
       else Inr (Found addr, s))"

definition find_hole :: "nat \<Rightarrow> vmap_state \<Rightarrow> nat \<Rightarrow> nat \<Rightarrow> nat \<Rightarrow> nat \<Rightarrow> (nat option \<times> vmap_state) res" where
  "find_hole k s sz align vstart vend =
     rbind (search_start k s sz align vstart) (\<lambda>(w, s1).
       rbind (case w of Walk addr xs \<Rightarrow> walk_holes s1 sz align vend addr xs | _ \<Rightarrow> Inr (w, s1)) (\<lambda>(w, s2).
         case w of Found addr \<Rightarrow> if add64 addr sz > vend then Inr (None, s2) else Inr (Some addr, s2)
         | _ \<Rightarrow> Inr (None, s2)))"

definition take_hole :: "nat \<Rightarrow> vmap_state \<Rightarrow> ptr \<Rightarrow> nat \<Rightarrow> nat \<Rightarrow> nat \<Rightarrow> nat \<Rightarrow> nat \<Rightarrow> vmap_state res" where
  "take_hole k s n addr sz align vstart vend =
     rbind (area_at s n) (\<lambda>va.
       let va1 = va\<lparr>va_start := addr, va_end := add64 addr sz, va_flags := 0\<rparr> in
       rbind (insert_vmap_area k (set_area s n va1) n) (\<lambda>s1.
         if \<not> is_aligned64 addr align \<or> addr < vstart \<or> add64 addr sz > vend then Inl Bug
         else Inr (s1\<lparr>free_vmap_cache := n\<rparr>)))"

definition alloc_vmap_area ::
  "vmap_env \<Rightarrow> nat \<Rightarrow> vmap_state \<Rightarrow> ptr \<Rightarrow> nat \<Rightarrow> nat \<Rightarrow> nat \<Rightarrow> nat \<Rightarrow> (int \<times> vmap_state) res" where
  "alloc_vmap_area env k s n sz align vstart vend =
     (if sz = 0 \<or> sz mod PAGE_SIZE \<noteq> 0 \<or> \<not> is_power_of_2 align then Inl Bug
      else if n = 0 then Inr (- ENOMEM, s)
      else rbind (find_hole k s sz align vstart vend) (\<lambda>(hole, s1).
        case hole of Some addr \<Rightarrow> rbind (take_hole k s1 n addr sz align vstart vend) (\<lambda>s2. Inr (0, s2))
        | None \<Rightarrow>
            rbind (purge_vmap_area_lazy env k s1) (\<lambda>(_, s2).
              rbind (find_hole k s2 sz align vstart vend) (\<lambda>(hole, s3).
                case hole of Some addr \<Rightarrow> rbind (take_hole k s3 n addr sz align vstart vend) (\<lambda>s4. Inr (0, s4))
                | None \<Rightarrow> Inr (- EBUSY, kfree_area s3 n)))))"

section \<open>Areas with a descriptor\<close>

definition setup_vmalloc_vm :: "vmap_state \<Rightarrow> ptr \<Rightarrow> ptr \<Rightarrow> 64 word \<Rightarrow> vmap_state res" where
  "setup_vmalloc_vm s vm n flags =
     rbind (area_at s n) (\<lambda>va.
       Inr ((set_area s n (va\<lparr>va_vm := vm, va_flags := va_flags va OR VM_VM_AREA\<rparr>))
         \<lparr>vm_structs := (vm_structs s)(vm \<mapsto> \<lparr>vm_addr = va_start va, vm_size = sub64 (va_end va) (va_start va), vm_flags = flags\<rparr>)\<rparr>))"

definition get_count_order_long :: "nat \<Rightarrow> int" where
  "get_count_order_long l =
     (if l = 0 then - 1 else if l AND sub64 l 1 \<noteq> 0 then int (fls64 (of_nat l)) else int (fls64 (of_nat l)) - 1)"

text \<open>\<^verbatim>\<open>__get_vm_area_node\<close>; \<open>area\<close> and \<open>n\<close> are what the two calls of \<^verbatim>\<open>kmalloc\<close> return.\<close>

definition get_vm_area_node ::
  "vmap_env \<Rightarrow> nat \<Rightarrow> vmap_state \<Rightarrow> ptr \<Rightarrow> ptr \<Rightarrow> nat \<Rightarrow> nat \<Rightarrow> 64 word \<Rightarrow> nat \<Rightarrow> nat \<Rightarrow> (ptr \<times> vmap_state) res" where
  "get_vm_area_node env k s area n sz align flags start stop =
     (let sz1 = align64 sz PAGE_SIZE in
      if sz1 = 0 then Inr (0, s)
      else let align1 = (if flags AND VM_IOREMAP \<noteq> 0
               then 2 ^ nat (min (max (get_count_order_long sz1) (int PAGE_SHIFT)) (int (IOREMAP_MAX_ORDER env))) else align) in
        if area = 0 then Inr (0, s)
        else let sz2 = (if flags AND VM_NO_GUARD = 0 then add64 sz1 PAGE_SIZE else sz1) in
          rbind (alloc_vmap_area env k s n sz2 align1 start stop) (\<lambda>(err, s1).
            if err \<noteq> 0 then Inr (0, s1)
            else rbind (setup_vmalloc_vm s1 area n flags) (\<lambda>s2. Inr (area, s2))))"

definition free_vm_area :: "vmap_env \<Rightarrow> nat \<Rightarrow> vmap_state \<Rightarrow> ptr \<Rightarrow> vmap_state res" where
  "free_vm_area env k s area =
     (case vm_structs s area of None \<Rightarrow> Inl Oob
      | Some vm \<Rightarrow> rbind (remove_vm_area env k s (vm_addr vm)) (\<lambda>(ret, s1).
          if ret \<noteq> area then Inl Bug else Inr (s1\<lparr>vm_structs := (vm_structs s1)(area := None)\<rparr>)))"

text \<open>\<^verbatim>\<open>get_vm_area\<close> and its variants with a range or a caller, whose alignment is 1.\<close>

definition get_vm_area_range ::
  "vmap_env \<Rightarrow> nat \<Rightarrow> vmap_state \<Rightarrow> ptr \<Rightarrow> ptr \<Rightarrow> nat \<Rightarrow> 64 word \<Rightarrow> nat \<Rightarrow> nat \<Rightarrow> (ptr \<times> vmap_state) res" where
  "get_vm_area_range env k s area n sz flags start stop = get_vm_area_node env k s area n sz 1 flags start stop"

definition get_vm_area :: "vmap_env \<Rightarrow> nat \<Rightarrow> vmap_state \<Rightarrow> ptr \<Rightarrow> ptr \<Rightarrow> nat \<Rightarrow> 64 word \<Rightarrow> (ptr \<times> vmap_state) res" where
  "get_vm_area env k s area n sz flags = get_vm_area_node env k s area n sz 1 flags (VMALLOC_START env) (VMALLOC_END env)"

definition get_vm_area_size :: "vm_struct \<Rightarrow> nat" where
  "get_vm_area_size vm = (if vm_flags vm AND VM_NO_GUARD = 0 then sub64 (vm_size vm) PAGE_SIZE else vm_size vm)"

definition set_iounmap_nonlazy :: "vmap_env \<Rightarrow> vmap_state \<Rightarrow> vmap_state" where
  "set_iounmap_nonlazy env s = s\<lparr>vmap_lazy_nr := ucast (lazy_max_pages env + 1)\<rparr>"

section \<open>Mapping pages\<close>

text \<open>
  \<^verbatim>\<open>vmap\<close> reserves the addresses; the function that would enter the pages into the page tables,
  \<^verbatim>\<open>vmap_page_range_noflush\<close>, has no body in the code and returns 0, which \<^verbatim>\<open>map_vm_area\<close> passes on.
\<close>

definition vmap_page_range_noflush :: int where "vmap_page_range_noflush = 0"

definition map_vm_area :: int where
  "map_vm_area = (let err = vmap_page_range_noflush in if err > 0 then 0 else err)"

text \<open>\<^verbatim>\<open>__vunmap\<close> without the release of the pages; the area is looked up and its descriptor read at once.\<close>

definition do_vunmap :: "vmap_env \<Rightarrow> nat \<Rightarrow> vmap_state \<Rightarrow> nat \<Rightarrow> vmap_state res" where
  "do_vunmap env k s addr =
     (if addr = 0 \<or> \<not> is_aligned64 addr PAGE_SIZE then Inr s
      else rbind (find_vmap_area k s addr) (\<lambda>n.
        if n = 0 then Inl Oob
        else rbind (area_at s n) (\<lambda>va.
          if va_vm va = 0 then Inr s
          else rbind (remove_vm_area env k s addr) (\<lambda>(_, s1). Inr (s1\<lparr>vm_structs := (vm_structs s1)(va_vm va := None)\<rparr>)))))"

definition vunmap :: "vmap_env \<Rightarrow> nat \<Rightarrow> vmap_state \<Rightarrow> nat \<Rightarrow> vmap_state res" where
  "vunmap env k s addr = (if addr \<noteq> 0 then do_vunmap env k s addr else Inr s)"

definition vmap :: "vmap_env \<Rightarrow> nat \<Rightarrow> nat \<Rightarrow> vmap_state \<Rightarrow> ptr \<Rightarrow> ptr \<Rightarrow> 32 word \<Rightarrow> 64 word \<Rightarrow> (nat \<times> vmap_state) res" where
  "vmap env totalram k s area n count flags =
     (if unat count > totalram then Inr (0, s)
      else rbind (get_vm_area env k s area n (unat count * PAGE_SIZE) flags) (\<lambda>(a, s1).
        if a = 0 then Inr (0, s1)
        else case vm_structs s1 a of None \<Rightarrow> Inl Oob
        | Some vm \<Rightarrow> if map_vm_area \<noteq> 0 then rbind (vunmap env k s1 (vm_addr vm)) (\<lambda>s2. Inr (0, s2)) else Inr (vm_addr vm, s1)))"

section \<open>Before the allocator is up\<close>

text \<open>Descriptors registered during boot: \<^verbatim>\<open>vmlist\<close>, sorted by address, as pairs of an address and a descriptor.\<close>

type_synonym early_list = "(ptr \<times> vm_struct) list"

primrec add_early_loop :: "ptr \<times> vm_struct \<Rightarrow> early_list \<Rightarrow> early_list res" where
  "add_early_loop vm [] = Inr [vm]"
| "add_early_loop vm (tmp # rest) =
     (if vm_addr (snd tmp) \<ge> vm_addr (snd vm) then
        if vm_addr (snd tmp) < add64 (vm_addr (snd vm)) (vm_size (snd vm)) then Inl Bug else Inr (vm # tmp # rest)
      else if add64 (vm_addr (snd tmp)) (vm_size (snd tmp)) > vm_addr (snd vm) then Inl Bug
      else rbind (add_early_loop vm rest) (\<lambda>xs. Inr (tmp # xs)))"

definition vm_area_add_early :: "bool \<Rightarrow> ptr \<times> vm_struct \<Rightarrow> early_list \<Rightarrow> early_list res" where
  "vm_area_add_early vmap_initialized vm vmlist = (if vmap_initialized then Inl Bug else add_early_loop vm vmlist)"

text \<open>The offset of the next free address goes along.\<close>

definition vm_area_register_early ::
  "vmap_env \<Rightarrow> bool \<Rightarrow> nat \<Rightarrow> ptr \<times> vm_struct \<Rightarrow> nat \<Rightarrow> early_list \<Rightarrow> (nat \<times> early_list) res" where
  "vm_area_register_early env vmap_initialized vm_init_off vm align vmlist =
     (let addr = align64 (add64 (VMALLOC_START env) vm_init_off) align;
          off = sub64 (align64 (add64 addr (vm_size (snd vm))) PAGE_SIZE) (VMALLOC_START env) in
      rbind (vm_area_add_early vmap_initialized (fst vm, (snd vm)\<lparr>vm_addr := addr\<rparr>) vmlist) (\<lambda>xs. Inr (off, xs)))"

text \<open>\<^verbatim>\<open>vmalloc_init\<close>; \<open>ns\<close> are the addresses that \<^verbatim>\<open>kzalloc\<close> returns, which the code does not compare with 0.\<close>

definition kzalloc_area :: "vmap_state \<Rightarrow> ptr \<Rightarrow> vmap_area \<Rightarrow> rb_node \<Rightarrow> vmap_state" where
  "kzalloc_area s n a m = s\<lparr>areas := (areas s)(n \<mapsto> a), vmap_area_root := (vmap_area_root s)\<lparr>nodes := (nodes (vmap_area_root s))(n \<mapsto> m)\<rparr>\<rparr>"

definition zero_node :: rb_node where
  "zero_node = \<lparr>rb_parent_color = 0, rb_right = 0, rb_left = 0\<rparr>"

primrec import_early :: "nat \<Rightarrow> vmap_state \<Rightarrow> ptr list \<Rightarrow> early_list \<Rightarrow> vmap_state res" where
  "import_early k s ns [] = Inr s"
| "import_early k s ns (tmp # rest) =
     (case ns of [] \<Rightarrow> Inl Oob
      | n # ns1 \<Rightarrow>
          if n = 0 then Inl Oob
          else let va = \<lparr>va_start = vm_addr (snd tmp), va_end = add64 (vm_addr (snd tmp)) (vm_size (snd tmp)), va_flags = VM_VM_AREA, va_vm = fst tmp\<rparr> in
            rbind (insert_vmap_area k (kzalloc_area s n va zero_node) n) (\<lambda>s1. import_early k s1 ns1 rest))"

definition vmalloc_init :: "vmap_env \<Rightarrow> nat \<Rightarrow> vmap_state \<Rightarrow> ptr list \<Rightarrow> early_list \<Rightarrow> vmap_state res" where
  "vmalloc_init env k s ns vmlist = rbind (import_early k s ns vmlist) (\<lambda>s1. Inr (s1\<lparr>vmap_area_pcpu_hole := VMALLOC_END env\<rparr>))"

end
