(* ===== verification/Vmap_Spec.thy ===== *)
theory Vmap_Spec
  imports Vmap
begin

text \<open>
  The invariant of the allocator of kernel virtual addresses: tree and list hold the same areas, in the
  order of their addresses, and no two areas overlap.  The loops that descend the tree find what a search
  of the list would find.
\<close>

section \<open>Alignment\<close>

lemma align64_pow2:
  assumes "i < 64" and "x + 2 ^ i \<le> 2 ^ 64"
  shows "align64 x (2 ^ i) = (x + 2 ^ i - 1) div 2 ^ i * 2 ^ i"
proof -
  have m: "sub64 (2 ^ i) 1 = 2 ^ i - 1" using sub64_pow2_1 [OF assms(1)] by (simp add: mask_eq_exp_minus_1)
  have "add64 x (2 ^ i - 1) = x + 2 ^ i - 1"
    using assms(2) by (subst add64_exact) (simp_all add: U64_MAX_def)
  then have "align64 x (2 ^ i) = round_down64 (x + 2 ^ i - 1) (2 ^ i)"
    by (simp only: align64_def round_down64_def m)
  also have "\<dots> = (x + 2 ^ i - 1) div 2 ^ i * 2 ^ i"
    using assms by (intro round_down64_pow2) (simp_all add: U64_MAX_def)
  finally show ?thesis .
qed

lemma align64_bounds:
  assumes "i < 64" and "x + 2 ^ i \<le> 2 ^ 64"
  shows "x \<le> align64 x (2 ^ i)" "2 ^ i dvd align64 x (2 ^ i)" "align64 x (2 ^ i) < 2 ^ 64"
proof -
  let ?a = "2 ^ i :: nat"
  have a: "0 < ?a" by simp
  have e: "(x + ?a - 1) div ?a * ?a + (x + ?a - 1) mod ?a = x + ?a - 1" by (rule div_mult_mod_eq)
  have "(x + ?a - 1) mod ?a \<le> ?a - 1" using a by (metis Suc_pred' less_Suc_eq_le mod_less_divisor)
  then show "x \<le> align64 x (2 ^ i)" unfolding align64_pow2 [OF assms] using e a by linarith
  show "2 ^ i dvd align64 x (2 ^ i)" unfolding align64_pow2 [OF assms] by simp
  have "(x + ?a - 1) div ?a * ?a \<le> x + ?a - 1" using e by linarith
  then show "align64 x (2 ^ i) < 2 ^ 64" unfolding align64_pow2 [OF assms] using assms(2) a by linarith
qed

lemma align64_mono:
  assumes "i < 64" and "y + 2 ^ i \<le> 2 ^ 64" and "x \<le> y"
  shows "align64 x (2 ^ i) \<le> align64 y (2 ^ i)"
proof -
  have "(x + 2 ^ i - 1) div 2 ^ i \<le> (y + 2 ^ i - 1) div 2 ^ i" using assms(3) by (intro div_le_mono) simp
  then show ?thesis using assms by (simp add: align64_pow2)
qed

lemma is_aligned64_iff: "i < 64 \<Longrightarrow> is_aligned64 x (2 ^ i) \<longleftrightarrow> 2 ^ i dvd x"
  by (simp add: is_aligned64_def sub64_pow2_1 flip: take_bit_eq_mask take_bit_eq_0_iff del: One_nat_def)

lemma is_power_of_2_pow2: "i < 64 \<Longrightarrow> is_power_of_2 (2 ^ i)"
  by (simp add: is_power_of_2_def sub64_pow2_1 flip: take_bit_eq_mask del: One_nat_def)

section \<open>The invariant\<close>

abbreviation va :: "vmap_state \<Rightarrow> ptr \<Rightarrow> vmap_area" where
  "va s x \<equiv> the (areas s x)"

definition before :: "vmap_state \<Rightarrow> ptr \<Rightarrow> ptr \<Rightarrow> bool" where
  "before s x y \<longleftrightarrow> va_end (va s x) \<le> va_start (va s y)"

definition area_ok :: "vmap_state \<Rightarrow> ptr \<Rightarrow> bool" where
  "area_ok s x \<longleftrightarrow> areas s x \<noteq> None \<and> va_start (va s x) < va_end (va s x) \<and> va_end (va s x) < 2 ^ 64"

text \<open>The areas \<open>xs\<close>, in the order of their addresses.\<close>

definition sorted_areas :: "vmap_state \<Rightarrow> ptr list \<Rightarrow> bool" where
  "sorted_areas s xs \<longleftrightarrow> sorted_wrt (before s) xs \<and> (\<forall>x\<in>set xs. area_ok s x)"

definition vmap_ok :: "vmap_state \<Rightarrow> bool" where
  "vmap_ok s \<longleftrightarrow>
     holds (vmap_area_root s) (vmap_area_list s) \<and> sorted_areas s (vmap_area_list s) \<and>
     (free_vmap_cache s = 0 \<or> free_vmap_cache s \<in> set (vmap_area_list s)) \<and>
     distinct (vmap_purge_list s) \<and> set (vmap_purge_list s) \<subseteq> set (vmap_area_list s)"

lemma area_at_Inr: "area_ok s x \<Longrightarrow> area_at s x = Inr (va s x)"
  by (auto simp: area_ok_def area_at_def split: option.splits)

lemma sorted_areas_append:
  "sorted_areas s (xs @ ys) \<longleftrightarrow> sorted_areas s xs \<and> sorted_areas s ys \<and> (\<forall>x\<in>set xs. \<forall>y\<in>set ys. before s x y)"
  by (auto simp: sorted_areas_def sorted_wrt_append)

lemma sorted_areas_Cons: "sorted_areas s (x # xs) \<longleftrightarrow> area_ok s x \<and> sorted_areas s xs \<and> (\<forall>y\<in>set xs. before s x y)"
  by (auto simp: sorted_areas_def)

lemma sorted_areas_cong: "(\<And>x. x \<in> set xs \<Longrightarrow> areas s' x = areas s x) \<Longrightarrow> sorted_areas s' xs = sorted_areas s xs"
  unfolding sorted_areas_def before_def area_ok_def
  by (intro conj_cong ball_cong refl) (auto intro: sorted_wrt_mono_rel [rotated])

lemma sorted_areas_ok: "sorted_areas s xs \<Longrightarrow> x \<in> set xs \<Longrightarrow> area_ok s x"
  by (simp add: sorted_areas_def)

section \<open>Searching the tree\<close>

abbreviation covers :: "vmap_state \<Rightarrow> nat \<Rightarrow> ptr \<Rightarrow> bool" where
  "covers s addr x \<equiv> va_start (va s x) \<le> addr \<and> addr < va_end (va s x)"

lemma find_area_loop_ok:
  "rep (nodes (vmap_area_root s)) par t \<Longrightarrow> sorted_areas s (inorder t) \<Longrightarrow> hgt t < k \<Longrightarrow>
   find_area_loop k s addr (root t) = Inr (first_of (filter (covers s addr) (inorder t)))"
proof (induction t arbitrary: par k)
  case Leaf
  then show ?case by (cases k) simp_all
next
  case (Node l c a r)
  obtain k' where k: "k = Suc k'" "hgt l < k'" "hgt r < k'" using Node.prems(3) by (cases k) auto
  have h: "good a" "nodes (vmap_area_root s) a = Some (nd SLeft (pc_of par c) (root l) (root r))"
    "rep (nodes (vmap_area_root s)) a l" "rep (nodes (vmap_area_root s)) a r" using Node.prems(1) by simp_all
  have w: "area_ok s a" "sorted_areas s (inorder l)" "sorted_areas s (inorder r)" "\<forall>x\<in>addrs l. before s x a" "\<forall>y\<in>addrs r. before s a y"
    using Node.prems(2) by (auto simp: sorted_areas_append sorted_areas_Cons)
  have lt: "x \<in> addrs r \<Longrightarrow> covers s addr x \<Longrightarrow> va_end (va s a) \<le> addr" for x using w(5) by (force simp: before_def)
  have gt: "x \<in> addrs l \<Longrightarrow> covers s addr x \<Longrightarrow> addr < va_start (va s a)" for x using w(4) by (force simp: before_def)
  have ne: "va_start (va s a) < va_end (va s a)" using w(1) by (simp add: area_ok_def)
  have step: "find_area_loop k s addr (root (Node l c a r)) =
      (if addr < va_start (va s a) then find_area_loop k' s addr (root l)
       else if va_end (va s a) \<le> addr then find_area_loop k' s addr (root r) else Inr a)"
    using h(1,2) by (simp add: k area_at_Inr [OF w(1)] node_at_Inr good_def)
  consider "addr < va_start (va s a)" | "va_end (va s a) \<le> addr" | "covers s addr a" by linarith
  then show ?case
  proof cases
    case 1
    then have "filter (covers s addr) (inorder r) = []" using lt ne by (force simp: filter_empty_conv)
    then show ?thesis using step 1 Node.IH(1) [OF h(3) w(2) k(2)] by auto
  next
    case 2
    then have "filter (covers s addr) (inorder l) = []" using gt ne by (force simp: filter_empty_conv)
    then show ?thesis using step 2 ne Node.IH(2) [OF h(4) w(3) k(3)] by auto
  next
    case 3
    then have "filter (covers s addr) (inorder l) = []" using gt by (force simp: filter_empty_conv)
    then show ?thesis using step 3 by auto
  qed
qed

lemma first_area_loop_ok:
  "rep (nodes (vmap_area_root s)) par t \<Longrightarrow> sorted_areas s (inorder t) \<Longrightarrow> hgt t < k \<Longrightarrow>
   \<exists>us vs. inorder t = us @ vs \<and> (\<forall>x\<in>set us. va_end (va s x) \<le> addr) \<and> (vs \<noteq> [] \<longrightarrow> addr \<le> va_end (va s (hd vs))) \<and>
     first_area_loop k s addr (root t) f = Inr (if vs = [] then f else hd vs)"
proof (induction t arbitrary: par k f)
  case Leaf
  then show ?case by (cases k) simp_all
next
  case (Node l c a r)
  obtain k' where k: "k = Suc k'" "hgt l < k'" "hgt r < k'" using Node.prems(3) by (cases k) auto
  have h: "good a" "nodes (vmap_area_root s) a = Some (nd SLeft (pc_of par c) (root l) (root r))"
    "rep (nodes (vmap_area_root s)) a l" "rep (nodes (vmap_area_root s)) a r" using Node.prems(1) by simp_all
  have w: "area_ok s a" "sorted_areas s (inorder l)" "sorted_areas s (inorder r)" "\<forall>x\<in>addrs l. before s x a"
    using Node.prems(2) by (auto simp: sorted_areas_append sorted_areas_Cons)
  have ne: "va_start (va s a) < va_end (va s a)" using w(1) by (simp add: area_ok_def)
  have step: "first_area_loop k s addr (root (Node l c a r)) f =
      (if addr \<le> va_end (va s a) then if va_start (va s a) \<le> addr then Inr a else first_area_loop k' s addr (root l) a
       else first_area_loop k' s addr (root r) f)"
    using h(1,2) by (simp add: k area_at_Inr [OF w(1)] node_at_Inr good_def)
  consider "addr \<le> va_end (va s a)" "va_start (va s a) \<le> addr" | "addr < va_start (va s a)" | "va_end (va s a) < addr"
    by linarith
  then show ?case
  proof cases
    case 1
    then have "\<forall>x\<in>addrs l. va_end (va s x) \<le> addr" using w(4) by (force simp: before_def)
    then show ?thesis using step 1 by (intro exI [of _ "inorder l"] exI [of _ "a # inorder r"]) simp
  next
    case 2
    obtain us vs where v: "inorder l = us @ vs" "\<forall>x\<in>set us. va_end (va s x) \<le> addr" "vs \<noteq> [] \<longrightarrow> addr \<le> va_end (va s (hd vs))"
      "first_area_loop k' s addr (root l) a = Inr (if vs = [] then a else hd vs)" using Node.IH(1) [OF h(3) w(2) k(2)] by blast
    then show ?thesis using step 2 ne by (intro exI [of _ us] exI [of _ "vs @ a # inorder r"]) (auto simp: hd_append)
  next
    case 3
    obtain us vs where v: "inorder r = us @ vs" "\<forall>x\<in>set us. va_end (va s x) \<le> addr" "vs \<noteq> [] \<longrightarrow> addr \<le> va_end (va s (hd vs))"
      "first_area_loop k' s addr (root r) f = Inr (if vs = [] then f else hd vs)" using Node.IH(2) [OF h(4) w(3) k(3)] by blast
    have "\<forall>x\<in>addrs l. va_end (va s x) \<le> addr" using w(4) 3 ne by (force simp: before_def)
    then show ?thesis using step 3 v by (intro exI [of _ "inorder l @ a # us"] exI [of _ vs]) auto
  qed
qed

text \<open>The place for an area that overlaps no other: everything below it comes before, everything above after.\<close>

lemma insert_area_loop_ok:
  assumes "rep (nodes (vmap_area_root s)) (top_of fs) t" and "sorted_areas s (inorder t)" and "hgt t < k"
    and "va_start w < va_end w" and "\<And>x. x \<in> addrs t \<Longrightarrow> va_end w \<le> va_start (va s x) \<or> va_end (va s x) \<le> va_start w"
    and "\<And>e c a u gs. fs = Frame e c a u # gs \<Longrightarrow> d = e"
  shows "\<exists>gs e. insert_area_loop k s w (root t) (top_of fs) d = Inr (top_of gs, e) \<and> plug gs Leaf = plug fs t \<and>
     (\<forall>e' c a u hs. gs = Frame e' c a u # hs \<longrightarrow> e = e') \<and>
     pre gs = pre fs @ filter (\<lambda>x. va_end (va s x) \<le> va_start w) (inorder t) \<and>
     post gs = filter (\<lambda>x. va_end w \<le> va_start (va s x)) (inorder t) @ post fs"
  using assms
proof (induction t arbitrary: fs k d)
  case Leaf
  then show ?case by (cases k) (auto intro!: exI [of _ fs])
next
  case (Node l c a r)
  obtain k' where k: "k = Suc k'" "hgt l < k'" "hgt r < k'" using Node.prems(3) by (cases k) auto
  have h: "good a" "nodes (vmap_area_root s) a = Some (nd SLeft (pc_of (top_of fs) c) (root l) (root r))"
    "rep (nodes (vmap_area_root s)) a l" "rep (nodes (vmap_area_root s)) a r" using Node.prems(1) by simp_all
  have w: "area_ok s a" "sorted_areas s (inorder l)" "sorted_areas s (inorder r)" "\<forall>x\<in>addrs l. before s x a" "\<forall>y\<in>addrs r. before s a y"
    using Node.prems(2) by (auto simp: sorted_areas_append sorted_areas_Cons)
  have ne: "va_start (va s a) < va_end (va s a)" using w(1) by (simp add: area_ok_def)
  have dis: "va_end w \<le> va_start (va s a) \<or> va_end (va s a) \<le> va_start w" using Node.prems(5) by simp
  show ?case
  proof (cases "va_start w < va_end (va s a)")
    case True
    then have wa: "va_end w \<le> va_start (va s a)" using dis by linarith
    have after: "x \<in> addrs r \<Longrightarrow> va_end w \<le> va_start (va s x) \<and> \<not> va_end (va s x) \<le> va_start w" for x
      using w(5) wa ne Node.prems(4) sorted_areas_ok [OF w(3)] by (force simp: before_def area_ok_def)
    have "insert_area_loop k s w (root (Node l c a r)) (top_of fs) d = insert_area_loop k' s w (root l) (top_of (Frame SLeft c a r # fs)) SLeft"
      using True h(1,2) by (simp add: k area_at_Inr [OF w(1)] node_at_Inr good_def)
    moreover have "\<exists>gs e. insert_area_loop k' s w (root l) (top_of (Frame SLeft c a r # fs)) SLeft = Inr (top_of gs, e) \<and>
        plug gs Leaf = plug (Frame SLeft c a r # fs) l \<and> (\<forall>e' c a u hs. gs = Frame e' c a u # hs \<longrightarrow> e = e') \<and>
        pre gs = pre (Frame SLeft c a r # fs) @ filter (\<lambda>x. va_end (va s x) \<le> va_start w) (inorder l) \<and>
        post gs = filter (\<lambda>x. va_end w \<le> va_start (va s x)) (inorder l) @ post (Frame SLeft c a r # fs)"
      by (rule Node.IH(1)) (use h w k Node.prems in auto)
    moreover have "filter (\<lambda>x. va_end (va s x) \<le> va_start w) (inorder r) = []" "filter (\<lambda>x. va_end w \<le> va_start (va s x)) (inorder r) = inorder r"
      using after by (auto simp: filter_empty_conv filter_id_conv)
    ultimately show ?thesis using True wa by auto
  next
    case False
    then have wa: "va_end (va s a) \<le> va_start w" by linarith
    have prior: "x \<in> addrs l \<Longrightarrow> va_end (va s x) \<le> va_start w \<and> \<not> va_end w \<le> va_start (va s x)" for x
      using w(4) wa ne Node.prems(4) sorted_areas_ok [OF w(2)] by (force simp: before_def area_ok_def)
    have "insert_area_loop k s w (root (Node l c a r)) (top_of fs) d = insert_area_loop k' s w (root r) (top_of (Frame SRight c a l # fs)) SRight"
      using False wa ne Node.prems(4) h(1,2) by (simp add: k area_at_Inr [OF w(1)] node_at_Inr good_def)
    moreover have "\<exists>gs e. insert_area_loop k' s w (root r) (top_of (Frame SRight c a l # fs)) SRight = Inr (top_of gs, e) \<and>
        plug gs Leaf = plug (Frame SRight c a l # fs) r \<and> (\<forall>e' c a u hs. gs = Frame e' c a u # hs \<longrightarrow> e = e') \<and>
        pre gs = pre (Frame SRight c a l # fs) @ filter (\<lambda>x. va_end (va s x) \<le> va_start w) (inorder r) \<and>
        post gs = filter (\<lambda>x. va_end w \<le> va_start (va s x)) (inorder r) @ post (Frame SRight c a l # fs)"
      by (rule Node.IH(2)) (use h w k Node.prems in auto)
    moreover have "filter (\<lambda>x. va_end w \<le> va_start (va s x)) (inorder l) = []" "filter (\<lambda>x. va_end (va s x) \<le> va_start w) (inorder l) = inorder l"
      using prior by (auto simp: filter_empty_conv filter_id_conv)
    ultimately show ?thesis using False wa ne Node.prems(4) by auto
  qed
qed

end
