(* ===== verification/Vmap_Ops.thy ===== *)
theory Vmap_Ops
  imports Vmap_Spec
begin

text \<open>
  Every operation of the allocator of kernel virtual addresses keeps the invariant: inserting an area that
  overlaps no other, releasing an area, purging the lazily released ones.
\<close>

section \<open>Inserting an area\<close>

lemma list_add_rcu_at: "p \<notin> set us \<Longrightarrow> list_add_rcu n p (us @ p # vs) = Inr (us @ p # n # vs)"
  by (induction us) auto

text \<open>The sequence of areas with a new one at its place.\<close>

lemma insert_vmap_area_ok:
  assumes h: "holds (vmap_area_root s) (vmap_area_list s)" "sorted_areas s (vmap_area_list s)"
    and n: "good n" "n \<notin> set (vmap_area_list s)" "nodes (vmap_area_root s) n \<noteq> None" "area_ok s n"
    and d: "\<And>x. x \<in> set (vmap_area_list s) \<Longrightarrow> before s n x \<or> before s x n"
    and k: "(length (vmap_area_list s) + 2) ^ 2 < 2 ^ k"
  obtains t us vs where "insert_vmap_area k s n = Inr (s\<lparr>vmap_area_root := t, vmap_area_list := us @ n # vs\<rparr>)"
    "holds t (us @ n # vs)" "vmap_area_list s = us @ vs" "sorted_areas s (us @ n # vs)"
proof -
  obtain t where t: "rb_tree (vmap_area_root s) t" "is_rbt t" "inorder t = vmap_area_list s" using h(1) by (auto simp: holds_def)
  let ?w = "va s n"
  have k1: "(length (vmap_area_list s) + 1) ^ 2 < 2 ^ k"
    by (rule le_less_trans [OF _ k]) (intro power_mono, simp_all)
  have hk: "hgt t < k" by (rule holds_hgt [OF t(1,2)]) (simp only: t(3) k1)
  have ne: "va_start ?w < va_end ?w" using n(4) by (simp add: area_ok_def)
  have "\<exists>gs e. insert_area_loop k s ?w (root t) (top_of []) SLeft = Inr (top_of gs, e) \<and> plug gs Leaf = plug [] t \<and>
     (\<forall>e' c a u hs. gs = Frame e' c a u # hs \<longrightarrow> e = e') \<and>
     pre gs = pre [] @ filter (\<lambda>x. va_end (va s x) \<le> va_start ?w) (inorder t) \<and>
     post gs = filter (\<lambda>x. va_end ?w \<le> va_start (va s x)) (inorder t) @ post []"
    by (rule insert_area_loop_ok) (use t h(2) hk ne d in \<open>auto simp: rb_tree_def before_def\<close>)
  then obtain gs e where g: "insert_area_loop k s ?w (root_node (vmap_area_root s)) 0 SLeft = Inr (top_of gs, e)" "plug gs Leaf = t"
    "\<And>e' c a u hs. gs = Frame e' c a u # hs \<Longrightarrow> e = e'"
    "pre gs = filter (\<lambda>x. before s x n) (vmap_area_list s)" "post gs = filter (\<lambda>x. before s n x) (vmap_area_list s)"
    using t by (auto simp: rb_tree_def before_def)
  have xs: "vmap_area_list s = pre gs @ post gs" using t(3) inorder_plug [of gs Leaf] g(2) by simp
  have tg: "rb_tree (vmap_area_root s) (plug gs Leaf)" "is_rbt (plug gs Leaf)" "n \<notin> addrs (plug gs Leaf)" "hgt (plug gs Leaf) < k"
    unfolding g(2) t(3) using t(1,2) n(2) hk by auto
  obtain t2 where t2: "rbind (rb_link_node (vmap_area_root s) n (top_of gs) e) (\<lambda>s1. rb_insert k (arotate dummy_callbacks) s1 n False) = Inr t2"
    "holds t2 (pre gs @ n # post gs)" by (rule rb_link_insert_ok [OF tg(1,2) n(1) tg(3) n(3) g(3) tg(4)])
  obtain t1 where t1: "rb_link_node (vmap_area_root s) n (top_of gs) e = Inr t1" "rb_insert_color k t1 n = Inr t2"
    using t2(1) by (auto simp: rbind_Inr_iff rb_insert_color_def)
  have pv: "rb_prev k t2 n = Inr (last_of (pre gs))" by (rule holds_prev [OF t2(2)]) (use k xs in simp)
  have nz: "0 \<notin> set (pre gs)" "distinct (pre gs)" using holds_distinct [OF t2(2)] by auto
  have add: "(if last_of (pre gs) \<noteq> 0 then list_add_rcu n (last_of (pre gs)) (vmap_area_list s) else Inr (n # vmap_area_list s)) = Inr (pre gs @ n # post gs)"
  proof (cases "pre gs" rule: rev_cases)
    case Nil
    then show ?thesis using xs by (simp add: last_of_def)
  next
    case (snoc us p)
    then have "list_add_rcu n p (us @ p # post gs) = Inr (us @ p # n # post gs)" using nz by (intro list_add_rcu_at) simp
    then show ?thesis using xs snoc nz by (simp add: last_of_def)
  qed
  have "insert_vmap_area k s n = Inr (s\<lparr>vmap_area_root := t2, vmap_area_list := pre gs @ n # post gs\<rparr>)"
    using g(1) t1 pv add by (simp add: insert_vmap_area_def area_at_Inr [OF n(4)])
  moreover have "sorted_areas s (pre gs @ n # post gs)"
    using h(2) n(4) unfolding xs by (auto simp: sorted_areas_append sorted_areas_Cons g(4,5))
  ultimately show thesis using that t2(2) xs by blast
qed

section \<open>Releasing an area\<close>

lemma remove_middle: "distinct (us @ n # vs) \<Longrightarrow> remove1 n (us @ n # vs) = us @ vs"
  by (simp add: remove1_append)

lemma live_nodes: "live s = live s' \<Longrightarrow> nodes s p = None \<longleftrightarrow> nodes s' p = None"
  by (metis live_def)

lemma holds_outside: "holds s xs \<Longrightarrow> n \<notin> set xs \<Longrightarrow> holds (s\<lparr>nodes := (nodes s)(n := m)\<rparr>) xs"
proof -
  assume "holds s xs" and n: "n \<notin> set xs"
  then obtain t where t: "rb_tree s t" "is_rbt t" "inorder t = xs" by (auto simp: holds_def)
  have "rb_tree (s\<lparr>nodes := (nodes s)(n := m)\<rparr>) t" using t n by (simp add: rb_tree_def)
  then show ?thesis using t(2,3) by (rule holdsI)
qed

text \<open>What an operation leaves alone: the areas that stay, and which areas have memory.\<close>

definition frees :: "vmap_state \<Rightarrow> ptr set \<Rightarrow> vmap_state \<Rightarrow> bool" where
  "frees s S s' \<longleftrightarrow>
     (\<forall>x. areas s' x = (if x \<in> S then None else areas s x)) \<and>
     (\<forall>x. nodes (vmap_area_root s') x = None \<longleftrightarrow> x \<in> S \<or> nodes (vmap_area_root s) x = None) \<and>
     vm_structs s' = vm_structs s"

lemma frees_refl: "frees s {} s"
  by (simp add: frees_def)

lemma frees_trans: "frees s S s' \<Longrightarrow> frees s' T s'' \<Longrightarrow> frees s (S \<union> T) s''"
  by (auto simp: frees_def)

lemma free_vmap_area_ok:
  assumes ok: "vmap_ok s" and n: "n \<in> set (vmap_area_list s)" "n \<notin> set (vmap_purge_list s)"
    and k: "(length (vmap_area_list s) + 1) ^ 2 < 2 ^ k"
  obtains s' where "free_vmap_area env k s n = Inr s'" "vmap_ok s'" "vmap_area_list s' = remove1 n (vmap_area_list s)"
    "frees s {n} s'" "vmap_purge_list s' = vmap_purge_list s" "vmap_lazy_nr s' = vmap_lazy_nr s"
proof -
  note V = ok [unfolded vmap_ok_def]
  obtain us vs where xs: "vmap_area_list s = us @ n # vs" using n(1) by (auto simp: in_set_conv_decomp)
  have H: "holds (vmap_area_root s) (us @ n # vs)" and S: "sorted_areas s (us @ n # vs)" using V xs by auto
  have D: "distinct (us @ n # vs)" "0 \<notin> set (us @ n # vs)" using holds_distinct [OF H] by auto
  obtain m where m: "nodes (vmap_area_root s) n = Some m" "\<not> RB_EMPTY_NODE n m" by (rule holds_node [OF H, of n]) simp
  have a: "area_ok s n" using S by (auto intro: sorted_areas_ok)
  have pv: "rb_prev k (vmap_area_root s) n = Inr (last_of us)" by (rule holds_prev [OF H]) (use k xs in simp)
  have lo: "last_of us = 0 \<or> last_of us \<in> set us" by (cases us rule: rev_cases) (auto simp: last_of_def)
  obtain c where c: "forget_cached k s n (va s n) = Inr (s\<lparr>free_vmap_cache := c\<rparr>)" "c = 0 \<or> c \<in> set (us @ vs)"
  proof -
    consider "free_vmap_cache s = 0" | "free_vmap_cache s \<in> set (us @ n # vs)" "free_vmap_cache s \<noteq> 0" using V xs by auto
    then show thesis
    proof cases
      case 1
      then show thesis using that [of 0] by (simp add: forget_cached_def)
    next
      case 2
      have ca: "area_ok s (free_vmap_cache s)" using S 2(1) by (rule sorted_areas_ok)
      have lower: "free_vmap_cache s \<in> set (us @ vs)" if "va_start (va s (free_vmap_cache s)) < va_start (va s n)" using that 2(1) by auto
      have run: "forget_cached k s n (va s n) =
          Inr (s\<lparr>free_vmap_cache := (if va_end (va s n) < cached_vstart s then 0
            else if va_start (va s n) \<le> va_start (va s (free_vmap_cache s)) then last_of us else free_vmap_cache s)\<rparr>)"
        using 2(2) pv by (simp add: forget_cached_def area_at_Inr [OF ca])
      show thesis by (rule that [OF run]) (use lo lower in auto)
    qed
  qed
  obtain t1 where t1: "rb_erase k (vmap_area_root s) n = Inr t1" "holds t1 (us @ vs)" "live t1 = live (vmap_area_root s)"
  proof -
    obtain t1 where "rb_erase_with k dummy_callbacks (vmap_area_root s) n False = Inr t1" "holds t1 (us @ vs)"
      by (rule holds_erase [OF H, of k dummy_callbacks False]) (use k xs in simp)
    then show thesis using that rb_erase_dom unfolding rb_erase_def by blast
  qed
  have "nodes t1 n \<noteq> None" using live_nodes [OF t1(3), of n] m by simp
  then obtain m1 where m1: "nodes t1 n = Some m1" by blast
  let ?t2 = "t1\<lparr>nodes := (nodes t1)(n \<mapsto> m1\<lparr>rb_parent_color := n\<rparr>)\<rparr>"
  have t2: "rb_clear_node t1 n = Inr ?t2" using m1 by (simp add: rb_clear_node_def set_pc_Inr)
  let ?hole = "if va_end (va s n) > VMALLOC_START env \<and> va_end (va s n) \<le> VMALLOC_END env
     then max (vmap_area_pcpu_hole s) (va_end (va s n)) else vmap_area_pcpu_hole s"
  let ?s' = "kfree_area (s\<lparr>free_vmap_cache := c, vmap_area_root := ?t2, vmap_area_list := us @ vs, vmap_area_pcpu_hole := ?hole\<rparr>) n"
  have run: "free_vmap_area env k s n = Inr ?s'"
    using m a c(1) t1(1) t2 xs remove_middle [OF D(1)]
    by (simp add: free_vmap_area_def node_at_Inr area_at_Inr list_del_rcu_def)
  have nu: "n \<notin> set (us @ vs)" using D by auto
  have "holds (vmap_area_root ?s') (us @ vs)"
    using holds_outside [OF t1(2) nu, of None] by (simp add: kfree_area_def)
  moreover have "sorted_areas ?s' (us @ vs)"
  proof -
    have "sorted_areas s (us @ vs)" using S by (auto simp: sorted_areas_append sorted_areas_Cons)
    moreover have "areas ?s' x = areas s x" if "x \<in> set (us @ vs)" for x using that nu by (auto simp: kfree_area_def)
    ultimately show ?thesis using sorted_areas_cong [of "us @ vs" ?s' s] by blast
  qed
  moreover have "frees s {n} ?s'" using live_nodes [OF t1(3)] by (simp add: frees_def kfree_area_def)
  ultimately show thesis
    using V c(2) n(2) xs remove_middle [OF D(1)] run by (intro that [OF run]) (auto simp: vmap_ok_def kfree_area_def)
qed

section \<open>Purging\<close>

lemma purge_loop_ok:
  "vmap_ok s \<Longrightarrow> vmap_purge_list s = [] \<Longrightarrow> distinct ns \<Longrightarrow> set ns \<subseteq> set (vmap_area_list s) \<Longrightarrow> (length (vmap_area_list s) + 1) ^ 2 < 2 ^ k \<Longrightarrow>
   \<exists>s'. purge_loop env k s ns = Inr s' \<and> vmap_ok s' \<and> vmap_purge_list s' = [] \<and>
     vmap_area_list s' = filter (\<lambda>x. x \<notin> set ns) (vmap_area_list s) \<and> frees s (set ns) s'"
proof (induction ns arbitrary: s)
  case Nil
  then show ?case by (simp add: frees_refl)
next
  case (Cons n ns)
  have n: "n \<in> set (vmap_area_list s)" "n \<notin> set (vmap_purge_list s)" using Cons.prems by auto
  have a: "area_ok s n" using Cons.prems(1) n(1) by (auto simp: vmap_ok_def intro: sorted_areas_ok)
  have ds: "distinct (vmap_area_list s)" using Cons.prems(1) holds_distinct by (auto simp: vmap_ok_def)
  obtain s1 where s1: "free_vmap_area env k s n = Inr s1" "vmap_ok s1" "vmap_area_list s1 = remove1 n (vmap_area_list s)"
    "frees s {n} s1" "vmap_purge_list s1 = vmap_purge_list s" by (rule free_vmap_area_ok [OF Cons.prems(1) n Cons.prems(5)])
  let ?s1 = "s1\<lparr>vmap_lazy_nr := vmap_lazy_nr s1 - area_pages (va s n)\<rparr>"
  have ok1: "vmap_ok ?s1"
    using s1(2) sorted_areas_cong [of "vmap_area_list s1" ?s1 s1] by (simp add: vmap_ok_def)
  have "length (vmap_area_list s1) \<le> length (vmap_area_list s)" using s1(3) by (simp add: length_remove1)
  then have k: "(length (vmap_area_list ?s1) + 1) ^ 2 < 2 ^ k"
    by (intro le_less_trans [OF _ Cons.prems(5)] power_mono) simp_all
  have "\<exists>s'. purge_loop env k ?s1 ns = Inr s' \<and> vmap_ok s' \<and> vmap_purge_list s' = [] \<and>
     vmap_area_list s' = filter (\<lambda>x. x \<notin> set ns) (vmap_area_list ?s1) \<and> frees ?s1 (set ns) s'"
    by (rule Cons.IH [OF ok1 _ _ _ k]) (use Cons.prems s1(3,5) ds in \<open>auto simp: set_remove1_eq\<close>)
  then obtain s' where s': "purge_loop env k ?s1 ns = Inr s'" "vmap_ok s'" "vmap_purge_list s' = []"
     "vmap_area_list s' = filter (\<lambda>x. x \<notin> set ns) (vmap_area_list s1)" "frees ?s1 (set ns) s'" by auto
  have "frees s ({n} \<union> set ns) s'" by (rule frees_trans [OF _ s'(5)]) (use s1(4) in \<open>simp add: frees_def\<close>)
  moreover have "vmap_area_list s' = filter (\<lambda>x. x \<notin> set (n # ns)) (vmap_area_list s)"
    using s'(4) s1(3) ds by (auto simp: distinct_remove1_removeAll removeAll_filter_not_eq intro: filter_cong)
  ultimately show ?case using s1(1) s' a by (simp add: area_at_Inr)
qed

lemma purge_ok:
  assumes ok: "vmap_ok s" and k: "(length (vmap_area_list s) + 1) ^ 2 < 2 ^ k"
  obtains b s' where "purge_vmap_area_lazy env k s = Inr (b, s')" "vmap_ok s'" "vmap_purge_list s' = []"
    "vmap_area_list s' = filter (\<lambda>x. x \<notin> set (vmap_purge_list s)) (vmap_area_list s)" "frees s (set (vmap_purge_list s)) s'"
proof -
  let ?s1 = "s\<lparr>vmap_purge_list := []\<rparr>"
  have ok1: "vmap_ok ?s1" using ok sorted_areas_cong [of "vmap_area_list s" ?s1 s] by (simp add: vmap_ok_def)
  have "\<exists>s'. purge_loop env k ?s1 (vmap_purge_list s) = Inr s' \<and> vmap_ok s' \<and> vmap_purge_list s' = [] \<and>
     vmap_area_list s' = filter (\<lambda>x. x \<notin> set (vmap_purge_list s)) (vmap_area_list ?s1) \<and> frees ?s1 (set (vmap_purge_list s)) s'"
    by (rule purge_loop_ok [OF ok1]) (use ok k in \<open>auto simp: vmap_ok_def\<close>)
  then obtain s' where s': "purge_loop env k ?s1 (vmap_purge_list s) = Inr s'" "vmap_ok s'" "vmap_purge_list s' = []"
     "vmap_area_list s' = filter (\<lambda>x. x \<notin> set (vmap_purge_list s)) (vmap_area_list s)" "frees s (set (vmap_purge_list s)) s'"
    by (auto simp: frees_def)
  show thesis
  proof (cases "vmap_purge_list s = []")
    case True
    then show thesis using that [of False ?s1] ok1 by (simp add: purge_vmap_area_lazy_def frees_def)
  next
    case False
    then show thesis using that [of True s'] s' by (simp add: purge_vmap_area_lazy_def)
  qed
qed

end
