(* ===== verification/Vmap_Alloc.thy ===== *)
theory Vmap_Alloc
  imports Vmap_Ops
begin

text \<open>
  The search for a hole among the areas finds the lowest address that fits, above the cached area or above
  the start of the range; taking the hole keeps the invariant.
\<close>

section \<open>First fit\<close>

lemma align64_least:
  assumes "i < 64" and "x + 2 ^ i \<le> 2 ^ 64" and "2 ^ i dvd b" and "x \<le> b"
  shows "align64 x (2 ^ i) \<le> b"
proof -
  let ?a = "2 ^ i :: nat"
  obtain q where q: "b = ?a * q" using assms(3) by (rule dvdE)
  have "x + ?a - 1 < Suc q * ?a" 
  proof -
    have "0 < ?a" "Suc q * ?a = ?a + b" using q by (simp_all add: mult.commute)
    then show ?thesis using assms(4) by linarith
  qed
  then have "(x + ?a - 1) div ?a < Suc q" by (rule less_mult_imp_div_less)
  then show ?thesis unfolding align64_pow2 [OF assms(1,2)] q by (simp add: mult.commute)
qed

lemma add64_wraps: "a < 2 ^ 64 \<Longrightarrow> b < 2 ^ 64 \<Longrightarrow> add64 a b < a \<longleftrightarrow> 2 ^ 64 \<le> a + b"
  by (cases "a + b < 2 ^ 64") (auto simp: add64_def mod_if)

definition clear_of :: "vmap_state \<Rightarrow> ptr \<Rightarrow> nat \<Rightarrow> nat \<Rightarrow> bool" where
  "clear_of s x b sz \<longleftrightarrow> va_end (va s x) \<le> b \<or> b + sz \<le> va_start (va s x)"

text \<open>A range at \<open>b\<close> that is aligned, ends within the bound and overlaps no area of \<open>xs\<close>.\<close>

definition hole_at :: "vmap_state \<Rightarrow> ptr list \<Rightarrow> nat \<Rightarrow> nat \<Rightarrow> nat \<Rightarrow> nat \<Rightarrow> bool" where
  "hole_at s xs sz align vend b \<longleftrightarrow> align dvd b \<and> b + sz \<le> vend \<and> (\<forall>x\<in>set xs. clear_of s x b sz)"

text \<open>The outcome of a search from \<open>lo\<close> upwards.\<close>

definition first_fit :: "vmap_state \<Rightarrow> ptr list \<Rightarrow> nat \<Rightarrow> nat \<Rightarrow> nat \<Rightarrow> nat \<Rightarrow> hole_search \<Rightarrow> bool" where
  "first_fit s xs sz align vend lo w \<longleftrightarrow>
     (case w of
        Found a \<Rightarrow> lo \<le> a \<and> align dvd a \<and> a + sz < 2 ^ 64 \<and> (a + sz \<le> vend \<longrightarrow> hole_at s xs sz align vend a) \<and>
          (\<forall>b. lo \<le> b \<and> b < a \<longrightarrow> \<not> hole_at s xs sz align vend b)
      | Walk a ys \<Rightarrow> False
      | Overflow \<Rightarrow> \<forall>b. lo \<le> b \<longrightarrow> \<not> hole_at s xs sz align vend b)"

lemma first_fit_skip:
  assumes "first_fit s xs sz align vend lo' w" and "lo \<le> lo'"
    and "\<And>b. lo \<le> b \<Longrightarrow> b < lo' \<Longrightarrow> \<not> hole_at s (ys @ xs) sz align vend b"
    and "\<And>b y. lo' \<le> b \<Longrightarrow> y \<in> set ys \<Longrightarrow> clear_of s y b sz"
  shows "first_fit s (ys @ xs) sz align vend lo w"
proof -
  have less: "hole_at s (ys @ xs) sz align vend b \<Longrightarrow> hole_at s xs sz align vend b" for b by (simp add: hole_at_def)
  have more: "lo' \<le> b \<Longrightarrow> hole_at s xs sz align vend b \<Longrightarrow> hole_at s (ys @ xs) sz align vend b" for b
    using assms(4) by (auto simp: hole_at_def)
  show ?thesis
  proof (cases w)
    case (Found a)
    have "\<not> hole_at s (ys @ xs) sz align vend b" if "lo \<le> b" "b < a" for b
      using assms(1) assms(3) [of b] less [of b] that Found by (cases "b < lo'") (auto simp: first_fit_def)
    then show ?thesis using assms(1,2) more [of a] Found by (simp add: first_fit_def)
  next
    case Overflow
    then show ?thesis using assms(1,3) less by (auto simp: first_fit_def) (meson not_le)
  next
    case (Walk a zs)
    then show ?thesis using assms(1) by (simp add: first_fit_def)
  qed
qed

lemma walk_holes_ok:
  assumes "i < 64" and "sz < 2 ^ 64" and "vend < 2 ^ 64"
  shows "sorted_areas s xs \<Longrightarrow> xs \<noteq> [] \<Longrightarrow> (\<And>x. x \<in> set xs \<Longrightarrow> va_end (va s x) + 2 ^ i \<le> 2 ^ 64) \<Longrightarrow>
    2 ^ i dvd addr \<Longrightarrow> addr + sz < 2 ^ 64 \<Longrightarrow> addr \<le> align64 (va_end (va s (hd xs))) (2 ^ i) \<Longrightarrow>
    \<exists>h w. walk_holes s sz (2 ^ i) vend addr xs = Inr (w, s\<lparr>cached_hole_size := h\<rparr>) \<and> first_fit s xs sz (2 ^ i) vend addr w"
proof (induction xs arbitrary: s addr)
  case Nil
  then show ?case by simp
next
  case (Cons f rest)
  let ?al = "2 ^ i :: nat" let ?e = "va_end (va s f)" let ?addr1 = "align64 ?e ?al"
  have f: "area_ok s f" "sorted_areas s rest" "\<forall>y\<in>set rest. before s f y" using Cons.prems(1) by (auto simp: sorted_areas_Cons)
  have fe: "?e + ?al \<le> 2 ^ 64" using Cons.prems(3) by simp
  note A = align64_bounds [OF assms(1) fe]
  have sum: "add64 addr sz = addr + sz" using Cons.prems(5) by (intro add64_exact) (simp add: U64_MAX_def)
  show ?case
  proof (cases "addr + sz > va_start (va s f) \<and> addr + sz \<le> vend")
    case False
    have "hole_at s (f # rest) sz ?al vend addr" if "addr + sz \<le> vend"
    proof -
      have "addr + sz \<le> va_start (va s f)" using False that by linarith
      moreover have "va_start (va s f) \<le> va_start (va s y)" if "y \<in> set rest" for y
        using f(1,3) that by (force simp: before_def area_ok_def)
      ultimately show ?thesis using that Cons.prems(4) by (force simp: hole_at_def clear_of_def)
    qed
    then have "first_fit s (f # rest) sz ?al vend addr (Found addr)" using Cons.prems(4,5) by (auto simp: first_fit_def)
    moreover have "walk_holes s sz ?al vend addr (f # rest) = Inr (Found addr, s\<lparr>cached_hole_size := cached_hole_size s\<rparr>)"
      unfolding walk_holes.simps area_at_Inr [OF f(1)] rbind_simps sum if_not_P [OF False] by simp
    ultimately show ?thesis by blast
  next
    case True
    define s1 where "s1 = (if add64 addr (cached_hole_size s) < va_start (va s f) then s\<lparr>cached_hole_size := sub64 (va_start (va s f)) addr\<rparr> else s)"
    have s1: "\<exists>h. s1 = s\<lparr>cached_hole_size := h\<rparr>" unfolding s1_def by (cases s) auto
    then have same: "areas s1 = areas s" by auto
    have below: "\<not> hole_at s ([f] @ zs) sz ?al vend b" if "addr \<le> b" "b < ?addr1" for b zs
    proof
      assume F: "hole_at s ([f] @ zs) sz ?al vend b"
      then have "b < ?e" using align64_least [OF assms(1) fe, of b] that by (force simp: hole_at_def)
      moreover have "va_start (va s f) < b + sz" using True that by linarith
      ultimately show False using F by (auto simp: hole_at_def clear_of_def)
    qed
    have clear: "clear_of s y b sz" if "?addr1 \<le> b" "y \<in> set [f]" for b y using A(1) that by (auto simp: clear_of_def)
    note skip = first_fit_skip [where ys = "[f]", OF _ Cons.prems(6) [simplified] below clear]
    have step: "walk_holes s sz ?al vend addr (f # rest) =
        (if add64 ?addr1 sz < ?addr1 then Inr (Overflow, s1) else if rest = [] then Inr (Found ?addr1, s1)
         else walk_holes s1 sz ?al vend ?addr1 rest)"
      using True by (simp add: area_at_Inr [OF f(1)] sum s1_def Let_def)
    show ?thesis
    proof (cases "2 ^ 64 \<le> ?addr1 + sz")
      case wrap: True
      have "first_fit s rest sz ?al vend ?addr1 Overflow" using wrap assms(3) by (auto simp: first_fit_def hole_at_def)
      then have "first_fit s (f # rest) sz ?al vend addr Overflow" using skip by simp
      then show ?thesis using step s1 wrap add64_wraps [OF A(3) assms(2)] by auto
    next
      case False
      then have no: "\<not> add64 ?addr1 sz < ?addr1" "?addr1 + sz < 2 ^ 64" using add64_wraps [OF A(3) assms(2)] by auto
      show ?thesis
      proof (cases "rest = []")
        case True
        have "first_fit s [] sz ?al vend ?addr1 (Found ?addr1)" using no A(2) by (auto simp: first_fit_def hole_at_def)
        then show ?thesis using step s1 no True skip by auto
      next
        case ne: False
        have hd: "hd rest \<in> set rest" using ne by simp
        have "?e \<le> va_end (va s (hd rest))" using f(3) hd sorted_areas_ok [OF f(2) hd] by (force simp: before_def area_ok_def)
        then have mono: "?addr1 \<le> align64 (va_end (va s (hd rest))) ?al" using Cons.prems(3) hd by (intro align64_mono assms(1)) simp_all
        have "\<exists>h w. walk_holes s1 sz ?al vend ?addr1 rest = Inr (w, s1\<lparr>cached_hole_size := h\<rparr>) \<and> first_fit s1 rest sz ?al vend ?addr1 w"
          using f(2) ne Cons.prems(3) A(2) no mono by (intro Cons.IH) (simp_all add: same sorted_areas_cong [of rest s1 s])
        then obtain h w where "walk_holes s1 sz ?al vend ?addr1 rest = Inr (w, s1\<lparr>cached_hole_size := h\<rparr>)" "first_fit s1 rest sz ?al vend ?addr1 w" by blast
        moreover from this(2) have "first_fit s (f # rest) sz ?al vend addr w"
          using skip [of rest w] by (simp add: first_fit_def hole_at_def clear_of_def same cong: hole_search.case_cong)
        ultimately show ?thesis using step s1 no ne by auto
      qed
    qed
  qed
qed

section \<open>Where the search starts\<close>

text \<open>A request within the 64-bit address space, and areas whose ends can be aligned in it.\<close>

definition request_ok :: "vmap_state \<Rightarrow> nat \<Rightarrow> nat \<Rightarrow> nat \<Rightarrow> nat \<Rightarrow> bool" where
  "request_ok s sz i vstart vend \<longleftrightarrow>
     i < 64 \<and> 0 < sz \<and> sz < 2 ^ 64 \<and> sz mod PAGE_SIZE = 0 \<and> vend < 2 ^ 64 \<and> vstart + 2 ^ i \<le> 2 ^ 64 \<and>
     (\<forall>x\<in>set (vmap_area_list s). va_end (va s x) + 2 ^ i \<le> 2 ^ 64)"

definition search_ok :: "vmap_state \<Rightarrow> nat \<Rightarrow> nat \<Rightarrow> nat \<Rightarrow> nat \<Rightarrow> hole_search \<Rightarrow> bool" where
  "search_ok s sz align vend lo w \<longleftrightarrow>
     (case w of
        Walk addr ys \<Rightarrow> \<exists>us. vmap_area_list s = us @ ys \<and> ys \<noteq> [] \<and> align dvd addr \<and> lo \<le> addr \<and> addr + sz < 2 ^ 64 \<and>
          addr \<le> align64 (va_end (va s (hd ys))) align \<and> (\<forall>x\<in>set us. va_end (va s x) \<le> addr) \<and>
          (\<forall>b. lo \<le> b \<and> align dvd b \<longrightarrow> addr \<le> b)
      | _ \<Rightarrow> first_fit s (vmap_area_list s) sz align vend lo w)"

text \<open>The search changes nothing but its cache.\<close>

definition cache_only :: "vmap_state \<Rightarrow> vmap_state \<Rightarrow> bool" where
  "cache_only s s' \<longleftrightarrow> (\<exists>h c v a. s' = s\<lparr>cached_hole_size := h, free_vmap_cache := c, cached_vstart := v, cached_align := a\<rparr> \<and>
     (c = 0 \<or> c = free_vmap_cache s))"

lemma cache_only_simps:
  assumes "cache_only s s'"
  shows "areas s' = areas s" "vmap_area_list s' = vmap_area_list s" "vmap_area_root s' = vmap_area_root s"
    "vmap_purge_list s' = vmap_purge_list s" "vm_structs s' = vm_structs s" "vmap_lazy_nr s' = vmap_lazy_nr s"
    "free_vmap_cache s' = 0 \<or> free_vmap_cache s' = free_vmap_cache s"
  using assms by (auto simp: cache_only_def)

lemma sorted_areas_same: "areas s' = areas s \<Longrightarrow> sorted_areas s' xs = sorted_areas s xs"
  by (rule sorted_areas_cong) simp

lemma cache_only_ok: "cache_only s s' \<Longrightarrow> vmap_ok s \<Longrightarrow> vmap_ok s'"
  using cache_only_simps [of s s'] sorted_areas_same [of s' s] by (auto simp: vmap_ok_def)

lemma dropWhile_at: "x \<notin> set us \<Longrightarrow> dropWhile (\<lambda>y. y \<noteq> x) (us @ x # vs) = x # vs"
  by (induction us) auto

lemma dropWhile_hd: "distinct (us @ vs) \<Longrightarrow> vs \<noteq> [] \<Longrightarrow> dropWhile (\<lambda>y. y \<noteq> hd vs) (us @ vs) = vs"
  using dropWhile_at [of "hd vs" us "tl vs"] by (cases vs) auto

lemma search_overflow:
  "2 ^ 64 \<le> addr + sz \<Longrightarrow> vend < 2 ^ 64 \<Longrightarrow> (\<And>b. lo \<le> b \<Longrightarrow> align dvd b \<Longrightarrow> addr \<le> b) \<Longrightarrow> search_ok s sz align vend lo Overflow"
  by (force simp: search_ok_def first_fit_def hole_at_def)

lemma search_from_tree_ok:
  assumes h: "holds (vmap_area_root s) (vmap_area_list s)" "sorted_areas s (vmap_area_list s)"
    and r: "request_ok s sz i vstart vend" and k: "(length (vmap_area_list s) + 1) ^ 2 < 2 ^ k"
  shows "\<exists>w. search_from_tree k s sz (2 ^ i) vstart = Inr (w, s) \<and> search_ok s sz (2 ^ i) vend vstart w"
proof -
  obtain t where t: "rb_tree (vmap_area_root s) t" "is_rbt t" "inorder t = vmap_area_list s" using h(1) by (auto simp: holds_def)
  have hk: "hgt t < k" by (rule holds_hgt [OF t(1,2)]) (simp only: t(3) k)
  let ?addr = "align64 vstart (2 ^ i)"
  have i: "i < 64" "vstart + 2 ^ i \<le> 2 ^ 64" and z: "sz < 2 ^ 64" "vend < 2 ^ 64" using r by (auto simp: request_ok_def)
  note A = align64_bounds [OF i]
  have least: "vstart \<le> b \<Longrightarrow> 2 ^ i dvd b \<Longrightarrow> ?addr \<le> b" for b by (rule align64_least [OF i])
  show ?thesis
  proof (cases "2 ^ 64 \<le> ?addr + sz")
    case True
    then have "add64 ?addr sz < ?addr" using add64_wraps [OF A(3) z(1)] by simp
    moreover have "search_ok s sz (2 ^ i) vend vstart Overflow" using True z(2) least by (rule search_overflow)
    ultimately show ?thesis by (simp add: search_from_tree_def)
  next
    case False
    then have no: "\<not> add64 ?addr sz < ?addr" "?addr + sz < 2 ^ 64" using add64_wraps [OF A(3) z(1)] by simp_all
    obtain us vs where v: "vmap_area_list s = us @ vs" "\<forall>x\<in>set us. va_end (va s x) \<le> ?addr" "vs \<noteq> [] \<longrightarrow> ?addr \<le> va_end (va s (hd vs))"
      "first_area_loop k s ?addr (root_node (vmap_area_root s)) 0 = Inr (if vs = [] then 0 else hd vs)"
      using first_area_loop_ok [of s 0 t k ?addr 0] t h(2) hk by (auto simp: rb_tree_def)
    have d: "distinct (us @ vs)" "0 \<notin> set (us @ vs)" using holds_distinct [OF h(1)] v(1) by simp_all
    show ?thesis
    proof (cases "vs = []")
      case True
      have "\<not> hole_at s us sz (2 ^ i) vend b" if "vstart \<le> b" "b < ?addr" for b using least [of b] that by (auto simp: hole_at_def)
      then have "search_ok s sz (2 ^ i) vend vstart (Found ?addr)"
        using v(1,2) True A no by (auto simp: search_ok_def first_fit_def hole_at_def clear_of_def)
      then show ?thesis using no v(4) True by (simp add: search_from_tree_def)
    next
      case ne: False
      then have hd: "hd vs \<in> set vs" by simp
      have "va_end (va s (hd vs)) \<le> align64 (va_end (va s (hd vs))) (2 ^ i)"
        using r v(1) hd by (intro align64_bounds(1)) (auto simp: request_ok_def)
      then have "search_ok s sz (2 ^ i) vend vstart (Walk ?addr vs)"
        using v ne A no least by (auto simp: search_ok_def)
      moreover have "hd vs \<noteq> 0" using d(2) hd by auto
      ultimately show ?thesis using no v(1,4) ne dropWhile_hd [OF d(1) ne] by (simp add: search_from_tree_def)
    qed
  qed
qed

lemma search_start_ok:
  assumes ok: "vmap_ok s" and r: "request_ok s sz i vstart vend" and k: "(length (vmap_area_list s) + 1) ^ 2 < 2 ^ k"
  shows "\<exists>w s1 lo. search_start k s sz (2 ^ i) vstart = Inr (w, s1) \<and> cache_only s s1 \<and> vstart \<le> lo \<and>
    (free_vmap_cache s = 0 \<longrightarrow> lo = vstart) \<and> search_ok s1 sz (2 ^ i) vend lo w"
proof -
  let ?drop = "free_vmap_cache s = 0 \<or> sz < cached_hole_size s \<or> vstart < cached_vstart s \<or> 2 ^ i < cached_align s"
  define s2 where "s2 = (if ?drop then drop_cache s else s)\<lparr>cached_vstart := vstart, cached_align := 2 ^ i\<rparr>"
  let ?t2 = "(drop_cache s2)\<lparr>cached_vstart := vstart, cached_align := 2 ^ i\<rparr>"
  have c2: "cache_only s s2" "cache_only s ?t2" by (cases s, auto simp: s2_def cache_only_def drop_cache_def)+
  have tree: "\<exists>w. search_from_tree k u sz (2 ^ i) vstart = Inr (w, u) \<and> search_ok u sz (2 ^ i) vend vstart w" if c: "cache_only s u" for u
    using search_from_tree_ok [of u sz i vstart vend k] cache_only_ok [OF c ok] cache_only_simps [OF c] r k
    by (simp add: vmap_ok_def request_ok_def)
  show ?thesis
  proof (cases "free_vmap_cache s2 = 0")
    case True
    then have "search_start k s sz (2 ^ i) vstart = search_from_tree k s2 sz (2 ^ i) vstart"
      by (simp add: search_start_def s2_def Let_def)
    then show ?thesis using tree [OF c2(1)] c2(1) by auto
  next
    case False
    let ?c = "free_vmap_cache s2" let ?addr = "align64 (va_end (va s2 ?c)) (2 ^ i)"
    note ok2 = cache_only_ok [OF c2(1) ok, unfolded vmap_ok_def]
    have c: "?c \<in> set (vmap_area_list s2)" "free_vmap_cache s \<noteq> 0" using ok2 False cache_only_simps(7) [OF c2(1)] by auto
    obtain us vs where xs: "vmap_area_list s2 = us @ ?c # vs" using c(1) by (auto simp: in_set_conv_decomp)
    have d: "?c \<notin> set us" using ok2 holds_distinct xs by fastforce
    have ca: "area_ok s2 ?c" using ok2 c(1) sorted_areas_ok by blast
    have i: "i < 64" "va_end (va s2 ?c) + 2 ^ i \<le> 2 ^ 64" and z: "sz < 2 ^ 64" "vend < 2 ^ 64"
      using r c(1) cache_only_simps [OF c2(1)] by (auto simp: request_ok_def)
    note A = align64_bounds [OF i]
    have run: "search_start k s sz (2 ^ i) vstart =
       (if ?addr < vstart then search_from_tree k ?t2 sz (2 ^ i) vstart
        else if add64 ?addr sz < ?addr then Inr (Overflow, s2) else Inr (Walk ?addr (?c # vs), s2))"
      using False area_at_Inr [OF ca] dropWhile_at [OF d] xs
      by (simp only: search_start_def s2_def [symmetric] Let_def simp_thms if_True rbind_simps)
    show ?thesis
    proof (cases "?addr < vstart")
      case True
      have "search_start k s sz (2 ^ i) vstart = search_from_tree k ?t2 sz (2 ^ i) vstart" unfolding run if_P [OF True] ..
      then show ?thesis using tree [OF c2(2)] c2(2) by auto
    next
      case lo: False
      have "sorted_areas s2 (us @ ?c # vs)" using ok2 xs by auto
      then have us: "\<forall>x\<in>set us. va_end (va s2 x) \<le> ?addr" using A(1) ca by (fastforce simp: sorted_areas_append before_def area_ok_def)
      have w: "search_ok s2 sz (2 ^ i) vend ?addr (if add64 ?addr sz < ?addr then Overflow else Walk ?addr (?c # vs))"
      proof (cases "2 ^ 64 \<le> ?addr + sz")
        case True
        then have "add64 ?addr sz < ?addr" using add64_wraps [OF A(3) z(1)] by simp
        then show ?thesis using search_overflow [OF True z(2), of ?addr] by simp
      next
        case no: False
        then have "\<not> add64 ?addr sz < ?addr" using add64_wraps [OF A(3) z(1)] by simp
        then show ?thesis using no A us xs by (simp add: search_ok_def)
      qed
      have "search_start k s sz (2 ^ i) vstart = Inr (if add64 ?addr sz < ?addr then Overflow else Walk ?addr (?c # vs), s2)"
        unfolding run if_not_P [OF lo] by simp
      then show ?thesis using w lo c c2(1) by (intro exI [of _ s2] exI [of _ ?addr] exI) auto
    qed
  qed
qed

section \<open>Finding and taking a hole\<close>

lemma cache_only_trans: "cache_only s s' \<Longrightarrow> cache_only s' s'' \<Longrightarrow> cache_only s s''"
  unfolding cache_only_def by force

lemma hole_at_cache: "cache_only s s' \<Longrightarrow> hole_at s' xs sz align vend b = hole_at s xs sz align vend b"
  by (simp add: hole_at_def clear_of_def cache_only_simps)

text \<open>The hole found is the lowest one from \<open>lo\<close> on, and there is none when the search fails.\<close>

definition lowest_hole :: "vmap_state \<Rightarrow> nat \<Rightarrow> nat \<Rightarrow> nat \<Rightarrow> nat \<Rightarrow> nat option \<Rightarrow> bool" where
  "lowest_hole s sz align vend lo r \<longleftrightarrow>
     (case r of
        Some a \<Rightarrow> lo \<le> a \<and> hole_at s (vmap_area_list s) sz align vend a \<and> (\<forall>b. lo \<le> b \<and> b < a \<longrightarrow> \<not> hole_at s (vmap_area_list s) sz align vend b)
      | None \<Rightarrow> \<forall>b. lo \<le> b \<longrightarrow> \<not> hole_at s (vmap_area_list s) sz align vend b)"

lemma walk_search_ok:
  assumes w: "search_ok s sz (2 ^ i) vend lo w" and s: "sorted_areas s (vmap_area_list s)" and r: "request_ok s sz i vstart vend"
  shows "\<exists>w' s'. (case w of Walk addr xs \<Rightarrow> walk_holes s sz (2 ^ i) vend addr xs | _ \<Rightarrow> Inr (w, s)) = Inr (w', s') \<and>
    cache_only s s' \<and> first_fit s (vmap_area_list s) sz (2 ^ i) vend lo w'"
proof (cases w)
  case (Walk addr ys)
  then obtain us where u: "vmap_area_list s = us @ ys" "ys \<noteq> []" "2 ^ i dvd addr" "lo \<le> addr" "addr + sz < 2 ^ 64"
      "addr \<le> align64 (va_end (va s (hd ys))) (2 ^ i)" "\<forall>x\<in>set us. va_end (va s x) \<le> addr" "\<forall>b. lo \<le> b \<and> 2 ^ i dvd b \<longrightarrow> addr \<le> b"
    using w by (auto simp: search_ok_def)
  have "\<exists>h w. walk_holes s sz (2 ^ i) vend addr ys = Inr (w, s\<lparr>cached_hole_size := h\<rparr>) \<and> first_fit s ys sz (2 ^ i) vend addr w"
    by (rule walk_holes_ok) (use r s u in \<open>auto simp: request_ok_def sorted_areas_append\<close>)
  then obtain h w' where w': "walk_holes s sz (2 ^ i) vend addr ys = Inr (w', s\<lparr>cached_hole_size := h\<rparr>)" "first_fit s ys sz (2 ^ i) vend addr w'" by blast
  have "first_fit s (us @ ys) sz (2 ^ i) vend lo w'"
    by (rule first_fit_skip [OF w'(2) u(4)]) (use u(7,8) in \<open>fastforce simp: hole_at_def clear_of_def\<close>)+
  moreover have "cache_only s (s\<lparr>cached_hole_size := h\<rparr>)" by (cases s) (auto simp: cache_only_def)
  ultimately show ?thesis using w'(1) Walk u(1) by auto
qed (use w in \<open>cases s; auto simp: search_ok_def cache_only_def\<close>)+

lemma find_hole_ok:
  assumes ok: "vmap_ok s" and r: "request_ok s sz i vstart vend" and k: "(length (vmap_area_list s) + 1) ^ 2 < 2 ^ k"
  shows "\<exists>hole s1 lo. find_hole k s sz (2 ^ i) vstart vend = Inr (hole, s1) \<and> cache_only s s1 \<and> vstart \<le> lo \<and>
    (free_vmap_cache s = 0 \<longrightarrow> lo = vstart) \<and> lowest_hole s sz (2 ^ i) vend lo hole"
proof -
  obtain w s1 lo where w: "search_start k s sz (2 ^ i) vstart = Inr (w, s1)" "cache_only s s1" "vstart \<le> lo"
    "free_vmap_cache s = 0 \<longrightarrow> lo = vstart" "search_ok s1 sz (2 ^ i) vend lo w" using search_start_ok [OF assms] by blast
  note C = cache_only_simps [OF w(2)]
  have "sorted_areas s1 (vmap_area_list s1)" "request_ok s1 sz i vstart vend"
    using cache_only_ok [OF w(2) ok] r C by (simp_all add: vmap_ok_def request_ok_def)
  from walk_search_ok [OF w(5) this] obtain w' s' where w': "(case w of Walk addr xs \<Rightarrow> walk_holes s1 sz (2 ^ i) vend addr xs | _ \<Rightarrow> Inr (w, s1)) = Inr (w', s')"
    "cache_only s1 s'" "first_fit s1 (vmap_area_list s1) sz (2 ^ i) vend lo w'" by blast
  have c: "cache_only s s'" using cache_only_trans [OF w(2) w'(2)] .
  have run: "find_hole k s sz (2 ^ i) vstart vend =
      (case w' of Found addr \<Rightarrow> if add64 addr sz > vend then Inr (None, s') else Inr (Some addr, s') | _ \<Rightarrow> Inr (None, s'))"
    using w(1) w'(1) by (simp add: find_hole_def)
  have ff: "first_fit s (vmap_area_list s) sz (2 ^ i) vend lo w'" using w'(3) by (simp add: first_fit_def hole_at_cache [OF w(2)] C(2) split: hole_search.splits)
  show ?thesis
  proof (cases w')
    case (Found a)
    then have sum: "add64 a sz = a + sz" using ff by (intro add64_exact) (simp add: first_fit_def U64_MAX_def)
    have none: "lowest_hole s sz (2 ^ i) vend lo None" if "vend < a + sz"
    proof -
      have "\<not> hole_at s (vmap_area_list s) sz (2 ^ i) vend b" if "lo \<le> b" for b
        using ff Found that \<open>vend < a + sz\<close> by (cases "b < a") (auto simp: first_fit_def hole_at_def)
      then show ?thesis by (simp add: lowest_hole_def)
    qed
    have some: "lowest_hole s sz (2 ^ i) vend lo (Some a)" if "a + sz \<le> vend" using ff Found that by (simp add: first_fit_def lowest_hole_def)
    show ?thesis using run Found sum none some c w(3,4) by (cases "vend < a + sz") (auto simp: not_less)
  next
    case Overflow
    then have "lowest_hole s sz (2 ^ i) vend lo None" using ff by (simp add: first_fit_def lowest_hole_def)
    then show ?thesis using run Overflow c w(3,4) by auto
  next
    case (Walk a xs)
    then show ?thesis using ff by (simp add: first_fit_def)
  qed
qed

text \<open>An area object that belongs to no area yet.\<close>

definition fresh_area :: "vmap_state \<Rightarrow> ptr \<Rightarrow> bool" where
  "fresh_area s n \<longleftrightarrow> good n \<and> n \<notin> set (vmap_area_list s) \<and> nodes (vmap_area_root s) n \<noteq> None \<and> areas s n \<noteq> None"

text \<open>The new area at \<open>a\<close>, every other area as before.\<close>

definition area_taken :: "vmap_state \<Rightarrow> ptr \<Rightarrow> nat \<Rightarrow> nat \<Rightarrow> vmap_state \<Rightarrow> bool" where
  "area_taken s n a sz s' \<longleftrightarrow>
     (\<exists>us vs. vmap_area_list s = us @ vs \<and> vmap_area_list s' = us @ n # vs) \<and>
     areas s' = (areas s)(n \<mapsto> (va s n)\<lparr>va_start := a, va_end := a + sz, va_flags := 0\<rparr>) \<and>
     vmap_purge_list s' = vmap_purge_list s \<and> vm_structs s' = vm_structs s \<and> free_vmap_cache s' = n"

lemma take_hole_ok:
  assumes ok: "vmap_ok s" and n: "fresh_area s n" and r: "request_ok s sz i vstart vend"
    and a: "hole_at s (vmap_area_list s) sz (2 ^ i) vend a" "vstart \<le> a"
    and k: "(length (vmap_area_list s) + 2) ^ 2 < 2 ^ k"
  shows "\<exists>s'. take_hole k s n a sz (2 ^ i) vstart vend = Inr s' \<and> vmap_ok s' \<and> area_taken s n a sz s'"
proof -
  note V = ok [unfolded vmap_ok_def] note N = n [unfolded fresh_area_def]
  note R = r [unfolded request_ok_def] note A = a(1) [unfolded hole_at_def]
  have sum: "add64 a sz = a + sz" using R A by (intro add64_exact) (simp add: U64_MAX_def)
  let ?v = "(va s n)\<lparr>va_start := a, va_end := a + sz, va_flags := 0\<rparr>" let ?s = "set_area s n ?v"
  have S: "vmap_area_list ?s = vmap_area_list s" "vmap_area_root ?s = vmap_area_root s" "\<And>x. x \<noteq> n \<Longrightarrow> areas ?s x = areas s x" "areas ?s n = Some ?v"
    by (simp_all add: set_area_def)
  have others: "\<And>x. x \<in> set (vmap_area_list s) \<Longrightarrow> areas ?s x = areas s x" using N S(3) by metis
  obtain t us vs where t: "insert_vmap_area k ?s n = Inr (?s\<lparr>vmap_area_root := t, vmap_area_list := us @ n # vs\<rparr>)"
    "holds t (us @ n # vs)" "vmap_area_list ?s = us @ vs" "sorted_areas ?s (us @ n # vs)"
  proof (rule insert_vmap_area_ok [of ?s n k])
    show "holds (vmap_area_root ?s) (vmap_area_list ?s)" using V S by simp
    show "sorted_areas ?s (vmap_area_list ?s)" using V sorted_areas_cong [OF others] S(1) by simp
    show "area_ok ?s n" using R A S(4) by (simp add: area_ok_def)
    show "before ?s n x \<or> before ?s x n" if "x \<in> set (vmap_area_list ?s)" for x
      using A that others [of x] S(1,4) by (auto simp: before_def clear_of_def)
  qed (use N S k in auto)
  let ?s' = "?s\<lparr>vmap_area_root := t, vmap_area_list := us @ n # vs, free_vmap_cache := n\<rparr>"
  have al: "is_aligned64 a (2 ^ i)" using R A is_aligned64_iff by blast
  have at: "area_at s n = Inr (va s n)" using N by (auto simp: area_at_def)
  have run: "take_hole k s n a sz (2 ^ i) vstart vend = Inr ?s'"
    using t(1) al a(2) A by (simp add: take_hole_def at sum)
  have "sorted_areas ?s' (us @ n # vs)" using t(4) sorted_areas_same [of ?s' ?s] by simp
  then have "vmap_ok ?s'" using V t(2,3) S(1) by (auto simp: vmap_ok_def set_area_def)
  moreover have "area_taken s n a sz ?s'" using t(3) S(1) by (auto simp: area_taken_def set_area_def)
  ultimately show ?thesis using run by blast
qed

section \<open>Allocation\<close>

text \<open>What an allocation leaves: the areas \<open>xs\<close> of \<open>s\<close> untouched and the new one among them.\<close>

definition allocated :: "vmap_state \<Rightarrow> ptr list \<Rightarrow> ptr \<Rightarrow> nat \<Rightarrow> nat \<Rightarrow> vmap_state \<Rightarrow> bool" where
  "allocated s xs n a sz s' \<longleftrightarrow>
     (\<exists>us vs. xs = us @ vs \<and> vmap_area_list s' = us @ n # vs) \<and> (\<forall>x\<in>set xs. areas s' x = areas s x) \<and>
     areas s' n \<noteq> None \<and> va_start (va s' n) = a \<and> va_end (va s' n) = a + sz \<and> va_flags (va s' n) = 0 \<and>
     vm_structs s' = vm_structs s"

lemma area_taken_allocated:
  assumes "area_taken s1 n a sz s'" and "n \<notin> set (vmap_area_list s1)" and "vm_structs s1 = vm_structs s"
    and "\<And>x. x \<in> set (vmap_area_list s1) \<Longrightarrow> areas s1 x = areas s x"
  shows "allocated s (vmap_area_list s1) n a sz s'"
proof -
  have "areas s' x = areas s x" if "x \<in> set (vmap_area_list s1)" for x
    using assms(1,2) assms(4) [OF that] that by (auto simp: area_taken_def)
  then show ?thesis using assms(1,3) by (auto simp: area_taken_def allocated_def)
qed

lemma hole_at_same:
  "(\<And>x. x \<in> set xs \<Longrightarrow> areas s' x = areas s x) \<Longrightarrow> hole_at s' xs sz align vend b = hole_at s xs sz align vend b"
  by (simp add: hole_at_def clear_of_def)

lemma fresh_cache: "cache_only s s' \<Longrightarrow> fresh_area s' n = fresh_area s n"
  by (simp add: fresh_area_def cache_only_simps)

lemma request_cache: "cache_only s s' \<Longrightarrow> request_ok s' sz i vstart vend = request_ok s sz i vstart vend"
  by (simp add: request_ok_def cache_only_simps)

lemma alloc_vmap_area_head:
  assumes "request_ok s sz i vstart vend" and "fresh_area s n"
  shows "alloc_vmap_area env k s n sz (2 ^ i) vstart vend =
     rbind (find_hole k s sz (2 ^ i) vstart vend) (\<lambda>(hole, s1).
        case hole of Some addr \<Rightarrow> rbind (take_hole k s1 n addr sz (2 ^ i) vstart vend) (\<lambda>s2. Inr (0, s2))
        | None \<Rightarrow>
            rbind (purge_vmap_area_lazy env k s1) (\<lambda>(_, s2).
              rbind (find_hole k s2 sz (2 ^ i) vstart vend) (\<lambda>(hole, s3).
                case hole of Some addr \<Rightarrow> rbind (take_hole k s3 n addr sz (2 ^ i) vstart vend) (\<lambda>s4. Inr (0, s4))
                | None \<Rightarrow> Inr (- EBUSY, kfree_area s3 n))))"
  using assms by (simp add: alloc_vmap_area_def request_ok_def fresh_area_def is_power_of_2_pow2 good_def)

text \<open>A search and what follows when it finds a hole.\<close>

lemma find_and_take:
  assumes ok: "vmap_ok s" and n: "fresh_area s n" and r: "request_ok s sz i vstart vend"
    and k: "(length (vmap_area_list s) + 2) ^ 2 < 2 ^ k"
  obtains (Taken) a s1 s' lo where "find_hole k s sz (2 ^ i) vstart vend = Inr (Some a, s1)"
      "take_hole k s1 n a sz (2 ^ i) vstart vend = Inr s'" "vmap_ok s'" "allocated s (vmap_area_list s) n a sz s'" "vmap_purge_list s' = vmap_purge_list s"
      "vstart \<le> lo" "free_vmap_cache s = 0 \<longrightarrow> lo = vstart" "lowest_hole s sz (2 ^ i) vend lo (Some a)"
    | (Full) s1 lo where "find_hole k s sz (2 ^ i) vstart vend = Inr (None, s1)" "cache_only s s1"
      "free_vmap_cache s = 0 \<longrightarrow> lo = vstart" "lowest_hole s sz (2 ^ i) vend lo None"
proof -
  have k1: "(length (vmap_area_list s) + 1) ^ 2 < 2 ^ k" by (rule le_less_trans [OF _ k]) (intro power_mono, simp_all)
  obtain hole s1 lo where h: "find_hole k s sz (2 ^ i) vstart vend = Inr (hole, s1)" "cache_only s s1" "vstart \<le> lo"
    "free_vmap_cache s = 0 \<longrightarrow> lo = vstart" "lowest_hole s sz (2 ^ i) vend lo hole" using find_hole_ok [OF ok r k1] by blast
  note C = cache_only_simps [OF h(2)]
  show thesis
  proof (cases hole)
    case None
    then show thesis using Full h by blast
  next
    case (Some a)
    have a: "hole_at s1 (vmap_area_list s1) sz (2 ^ i) vend a" "vstart \<le> a"
      using h(3,5) Some C(2) by (auto simp: lowest_hole_def hole_at_cache [OF h(2)])
    have "\<exists>s'. take_hole k s1 n a sz (2 ^ i) vstart vend = Inr s' \<and> vmap_ok s' \<and> area_taken s1 n a sz s'"
      using cache_only_ok [OF h(2) ok] n r a k C(2) by (intro take_hole_ok) (simp_all add: fresh_cache [OF h(2)] request_cache [OF h(2)])
    then obtain s' where s': "take_hole k s1 n a sz (2 ^ i) vstart vend = Inr s'" "vmap_ok s'" "area_taken s1 n a sz s'" by blast
    have "allocated s (vmap_area_list s1) n a sz s'"
      by (rule area_taken_allocated [OF s'(3)]) (use n C in \<open>simp_all add: fresh_area_def\<close>)
    moreover have "vmap_purge_list s' = vmap_purge_list s" using s'(3) C by (simp add: area_taken_def)
    ultimately show thesis using Taken h s' Some C(2) by simp
  qed
qed

lemma kfree_fresh_ok: "vmap_ok s \<Longrightarrow> n \<notin> set (vmap_area_list s) \<Longrightarrow> vmap_ok (kfree_area s n)"
  using sorted_areas_cong [of "vmap_area_list s" "kfree_area s n" s] holds_outside [of "vmap_area_root s" "vmap_area_list s" n None]
  by (fastforce simp: vmap_ok_def kfree_area_def)

lemma alloc_vmap_area_ok:
  assumes ok: "vmap_ok s" and n: "fresh_area s n" and r: "request_ok s sz i vstart vend"
    and k: "(length (vmap_area_list s) + 2) ^ 2 < 2 ^ k"
  obtains (Direct) a s' where "alloc_vmap_area env k s n sz (2 ^ i) vstart vend = Inr (0, s')" "vmap_ok s'"
      "allocated s (vmap_area_list s) n a sz s'" "vmap_purge_list s' = vmap_purge_list s"
      "vstart \<le> a" "hole_at s (vmap_area_list s) sz (2 ^ i) vend a"
      "free_vmap_cache s = 0 \<longrightarrow> (\<forall>b. vstart \<le> b \<and> b < a \<longrightarrow> \<not> hole_at s (vmap_area_list s) sz (2 ^ i) vend b)"
    | (Retry) a s' xs where "alloc_vmap_area env k s n sz (2 ^ i) vstart vend = Inr (0, s')" "vmap_ok s'"
      "xs = filter (\<lambda>x. x \<notin> set (vmap_purge_list s)) (vmap_area_list s)" "allocated s xs n a sz s'" "vmap_purge_list s' = []"
      "vstart \<le> a" "hole_at s xs sz (2 ^ i) vend a"
      "free_vmap_cache s = 0 \<longrightarrow> (\<forall>b. vstart \<le> b \<longrightarrow> \<not> hole_at s (vmap_area_list s) sz (2 ^ i) vend b)"
    | (Busy) s' where "alloc_vmap_area env k s n sz (2 ^ i) vstart vend = Inr (- EBUSY, s')" "vmap_ok s'"
      "vmap_area_list s' = filter (\<lambda>x. x \<notin> set (vmap_purge_list s)) (vmap_area_list s)" "vmap_purge_list s' = []" "areas s' n = None"
      "\<forall>x\<in>set (vmap_area_list s'). areas s' x = areas s x" "vm_structs s' = vm_structs s"
      "free_vmap_cache s = 0 \<longrightarrow> (\<forall>b. vstart \<le> b \<longrightarrow> \<not> hole_at s (vmap_area_list s) sz (2 ^ i) vend b)"
  using ok n r k
proof (cases rule: find_and_take)
  case (Taken a s1 s' lo)
  show ?thesis by (rule Direct [of s' a]) (use Taken in \<open>auto simp: alloc_vmap_area_head [OF r n] lowest_hole_def\<close>)
next
  case (Full s1 lo)
  note C = cache_only_simps [OF Full(2)]
  let ?xs = "filter (\<lambda>x. x \<notin> set (vmap_purge_list s)) (vmap_area_list s)"
  have ok1: "vmap_ok s1" by (rule cache_only_ok [OF Full(2) ok])
  have k1: "(length (vmap_area_list s1) + 1) ^ 2 < 2 ^ k" unfolding C(2) by (rule le_less_trans [OF _ k]) (intro power_mono, simp_all)
  obtain d s2 where p: "purge_vmap_area_lazy env k s1 = Inr (d, s2)" "vmap_ok s2" "vmap_purge_list s2 = []"
    "vmap_area_list s2 = ?xs" "frees s1 (set (vmap_purge_list s)) s2" using purge_ok [OF ok1 k1, of env] C by metis
  have same: "areas s2 x = areas s x" if "x \<in> set ?xs" for x using p(5) that C by (simp add: frees_def)
  have np: "n \<notin> set (vmap_purge_list s)" using ok n by (auto simp: vmap_ok_def fresh_area_def)
  have n2: "fresh_area s2 n" using n p(4,5) np C by (auto simp: fresh_area_def frees_def)
  have r2: "request_ok s2 sz i vstart vend" using r p(4) same by (auto simp: request_ok_def)
  have k2: "(length (vmap_area_list s2) + 2) ^ 2 < 2 ^ k"
    unfolding p(4) by (rule le_less_trans [OF _ k]) (intro power_mono, simp_all)
  have vms: "vm_structs s2 = vm_structs s" using p(5) C by (simp add: frees_def)
  have none: "free_vmap_cache s = 0 \<longrightarrow> (\<forall>b. vstart \<le> b \<longrightarrow> \<not> hole_at s (vmap_area_list s) sz (2 ^ i) vend b)"
    using Full(3,4) by (auto simp: lowest_hole_def)
  from p(2) n2 r2 k2 show ?thesis
  proof (cases rule: find_and_take)
    case (Taken a s3 s' lo2)
    have "allocated s ?xs n a sz s'" using Taken(4) p(4) same vms by (simp add: allocated_def)
    moreover have "hole_at s ?xs sz (2 ^ i) vend a" using Taken(8) p(4) hole_at_same [of ?xs s2 s] same by (simp add: lowest_hole_def)
    moreover have "vstart \<le> a" using Taken(6,8) by (auto simp: lowest_hole_def)
    ultimately show ?thesis using Taken Full(1) p none by (intro Retry [of s' ?xs a]) (simp_all add: alloc_vmap_area_head [OF r n])
  next
    case (Full s3 lo2)
    note D = cache_only_simps [OF Full(2)]
    have nn: "n \<notin> set (vmap_area_list s3)" using n2 D by (simp add: fresh_area_def)
    have "alloc_vmap_area env k s n sz (2 ^ i) vstart vend = Inr (- EBUSY, kfree_area s3 n)"
      using \<open>find_hole k s sz (2 ^ i) vstart vend = Inr (None, s1)\<close> p(1) Full(1) by (simp add: alloc_vmap_area_head [OF r n])
    moreover have "vmap_ok (kfree_area s3 n)" by (rule kfree_fresh_ok [OF cache_only_ok [OF Full(2) p(2)] nn])
    ultimately show ?thesis using nn p(3,4) same D vms none by (intro Busy [of "kfree_area s3 n"]) (auto simp: kfree_area_def)
  qed
qed

end
