(* ===== verification/Vmap_Areas.thy ===== *)
theory Vmap_Areas
  imports Vmap_Alloc
begin

text \<open>
  Areas with a descriptor: the invariant that ties areas to descriptors, looking an area up, releasing one
  and reserving one.
\<close>

section \<open>The invariant\<close>

definition has_vm :: "vmap_state \<Rightarrow> ptr \<Rightarrow> bool" where
  "has_vm s x \<longleftrightarrow> va_flags (va s x) AND VM_VM_AREA \<noteq> 0"

definition described :: "vmap_state \<Rightarrow> ptr \<Rightarrow> bool" where
  "described s x \<longleftrightarrow> va_vm (va s x) \<noteq> 0 \<and>
     (\<exists>v. vm_structs s (va_vm (va s x)) = Some v \<and> vm_addr v = va_start (va s x) \<and> vm_size v = va_end (va s x) - va_start (va s x))"

text \<open>Areas that wait to be purged have no descriptor; all others with one own it.\<close>

definition vmap_inv :: "vmap_state \<Rightarrow> bool" where
  "vmap_inv s \<longleftrightarrow>
     vmap_ok s \<and> (\<forall>x\<in>set (vmap_purge_list s). \<not> has_vm s x) \<and>
     (\<forall>x\<in>set (vmap_area_list s). has_vm s x \<longrightarrow> described s x) \<and>
     (\<forall>x\<in>set (vmap_area_list s). \<forall>y\<in>set (vmap_area_list s). has_vm s x \<longrightarrow> has_vm s y \<longrightarrow> va_vm (va s x) = va_vm (va s y) \<longrightarrow> x = y)"

lemma vmap_inv_ok: "vmap_inv s \<Longrightarrow> vmap_ok s"
  by (simp add: vmap_inv_def)

text \<open>The descriptors stay in order when areas disappear and the remaining ones lose a descriptor or keep theirs.\<close>

lemma vmap_inv_mono:
  assumes "vmap_inv s" and "vmap_ok s'"
    and keep: "\<And>x. x \<in> set (vmap_area_list s') \<Longrightarrow> has_vm s' x \<Longrightarrow>
      x \<in> set (vmap_area_list s) \<and> areas s' x = areas s x \<and> vm_structs s' (va_vm (va s x)) = vm_structs s (va_vm (va s x))"
    and "\<And>x. x \<in> set (vmap_purge_list s') \<Longrightarrow> \<not> has_vm s' x"
  shows "vmap_inv s'"
proof -
  have h: "has_vm s x" if "x \<in> set (vmap_area_list s')" "has_vm s' x" for x using keep [OF that] that by (simp add: has_vm_def)
  have "described s' x" if x: "x \<in> set (vmap_area_list s')" "has_vm s' x" for x
  proof -
    have "described s x" using assms(1) keep [OF x] h [OF x] by (simp add: vmap_inv_def)
    then show ?thesis using keep [OF x] by (simp add: described_def)
  qed
  moreover have "x = y" if "x \<in> set (vmap_area_list s')" "y \<in> set (vmap_area_list s')" "has_vm s' x" "has_vm s' y"
      "va_vm (va s' x) = va_vm (va s' y)" for x y
  proof -
    have "va_vm (va s x) = va_vm (va s y)" using that keep [of x] keep [of y] by simp
    moreover have "x \<in> set (vmap_area_list s)" "y \<in> set (vmap_area_list s)" "has_vm s x" "has_vm s y" using h that keep by auto
    ultimately show ?thesis using assms(1) by (simp add: vmap_inv_def)
  qed
  ultimately show ?thesis using assms(2,4) by (auto simp: vmap_inv_def)
qed

section \<open>Looking up an area\<close>

lemma sorted_areas_covers:
  "sorted_areas s xs \<Longrightarrow> distinct xs \<Longrightarrow> x \<in> set xs \<Longrightarrow> covers s addr x \<Longrightarrow> filter (covers s addr) xs = [x]"
proof (induction xs)
  case (Cons a xs)
  have a: "area_ok s a" "sorted_areas s xs" "\<forall>y\<in>set xs. before s a y" using Cons.prems(1) by (auto simp: sorted_areas_Cons)
  show ?case
  proof (cases "x = a")
    case True
    then have "filter (covers s addr) xs = []" using Cons.prems(4) a(3) by (force simp: filter_empty_conv before_def)
    then show ?thesis using True Cons.prems(4) by simp
  next
    case False
    then have "x \<in> set xs" using Cons.prems(3) by simp
    moreover have "\<not> covers s addr a" using calculation a(3) Cons.prems(4) by (force simp: before_def)
    ultimately show ?thesis using Cons.IH [OF a(2)] Cons.prems(2,4) by simp
  qed
qed simp

lemma find_vmap_area_ok:
  assumes ok: "vmap_ok s" and k: "(length (vmap_area_list s) + 1) ^ 2 < 2 ^ k"
  obtains (Hit) n where "find_vmap_area k s addr = Inr n" "n \<noteq> 0" "n \<in> set (vmap_area_list s)" "covers s addr n"
    | (Miss) "find_vmap_area k s addr = Inr 0" "\<forall>x\<in>set (vmap_area_list s). \<not> covers s addr x"
proof -
  note V = ok [unfolded vmap_ok_def]
  obtain t where t: "rb_tree (vmap_area_root s) t" "is_rbt t" "inorder t = vmap_area_list s" using V by (auto simp: holds_def)
  have hk: "hgt t < k" by (rule holds_hgt [OF t(1,2)]) (simp only: t(3) k)
  have d: "distinct (vmap_area_list s)" "0 \<notin> set (vmap_area_list s)" using holds_distinct V by auto
  have run: "find_vmap_area k s addr = Inr (first_of (filter (covers s addr) (vmap_area_list s)))"
    using find_area_loop_ok [of s 0 t k addr] t V hk by (simp add: find_vmap_area_def rb_tree_def)
  show thesis
  proof (cases "\<exists>x\<in>set (vmap_area_list s). covers s addr x")
    case True
    then obtain x where x: "x \<in> set (vmap_area_list s)" "covers s addr x" by blast
    have "filter (covers s addr) (vmap_area_list s) = [x]" using V d(1) x by (intro sorted_areas_covers) simp_all
    then show thesis using run x d(2) by (intro Hit [of x]) auto
  next
    case False
    then have "filter (covers s addr) (vmap_area_list s) = []" by (simp add: filter_empty_conv)
    then show thesis using run False by (intro Miss) simp_all
  qed
qed

lemma covers_unique:
  assumes "vmap_ok s" and "x \<in> set (vmap_area_list s)" "covers s addr x" "y \<in> set (vmap_area_list s)" "covers s addr y"
  shows "x = y"
proof -
  have "sorted_areas s (vmap_area_list s)" "distinct (vmap_area_list s)" using assms(1) holds_distinct by (auto simp: vmap_ok_def)
  then have "filter (covers s addr) (vmap_area_list s) = [x]" "filter (covers s addr) (vmap_area_list s) = [y]"
    using assms sorted_areas_covers by blast+
  then show ?thesis by simp
qed

section \<open>Releasing an area\<close>

lemma flags_cleared: "((f AND NOT VM_VM_AREA) OR VM_LAZY_FREE) AND VM_VM_AREA = 0"
  by (rule bit_eqI) (auto simp: bit_simps VM_VM_AREA_def VM_LAZY_FREE_def)

text \<open>An area put on the list of lazily released areas, or everything on that list released.\<close>

definition retired :: "vmap_state \<Rightarrow> ptr \<Rightarrow> vmap_state \<Rightarrow> bool" where
  "retired s n s' \<longleftrightarrow>
     (\<exists>P. (P = {} \<and> vmap_purge_list s' = n # vmap_purge_list s \<or> P = insert n (set (vmap_purge_list s)) \<and> vmap_purge_list s' = []) \<and>
       vmap_area_list s' = filter (\<lambda>x. x \<notin> P) (vmap_area_list s) \<and> frees s P s')"

lemma free_vmap_area_noflush_ok:
  assumes ok: "vmap_ok s" and n: "n \<in> set (vmap_area_list s)" "n \<notin> set (vmap_purge_list s)"
    and k: "(length (vmap_area_list s) + 1) ^ 2 < 2 ^ k"
  shows "\<exists>s'. free_vmap_area_noflush env k s n = Inr s' \<and> vmap_ok s' \<and> retired s n s'"
proof -
  have a: "area_ok s n" using ok n(1) sorted_areas_ok by (auto simp: vmap_ok_def)
  let ?nr = "vmap_lazy_nr s + area_pages (va s n)"
  let ?s1 = "s\<lparr>vmap_lazy_nr := ?nr, vmap_purge_list := n # vmap_purge_list s\<rparr>"
  have ok1: "vmap_ok ?s1" using ok n sorted_areas_same [of ?s1 s] by (auto simp: vmap_ok_def)
  have k1: "(length (vmap_area_list ?s1) + 1) ^ 2 < 2 ^ k" using k by simp
  obtain b s2 where p: "purge_vmap_area_lazy env k ?s1 = Inr (b, s2)" "vmap_ok s2" "vmap_purge_list s2 = []"
    "vmap_area_list s2 = filter (\<lambda>x. x \<notin> set (vmap_purge_list ?s1)) (vmap_area_list ?s1)" "frees ?s1 (set (vmap_purge_list ?s1)) s2"
    by (rule purge_ok [OF ok1 k1])
  have "frees s (insert n (set (vmap_purge_list s))) s2" using p(5) by (simp add: frees_def)
  then have r2: "retired s n s2" using p(3,4) by (auto simp: retired_def)
  have r1: "retired s n ?s1" by (auto simp: retired_def frees_def)
  show ?thesis using p(1,2) r1 r2 ok1 area_at_Inr [OF a]
    by (cases "scast ?nr > lazy_max_pages env") (simp_all add: free_vmap_area_noflush_def Let_def)
qed

text \<open>The state after the release of the area \<open>n\<close> by its descriptor.\<close>

definition unmapped :: "vmap_state \<Rightarrow> ptr \<Rightarrow> vmap_state \<Rightarrow> bool" where
  "unmapped s n s' \<longleftrightarrow>
     retired (set_area s n ((va s n)\<lparr>va_vm := 0, va_flags := (va_flags (va s n) AND NOT VM_VM_AREA) OR VM_LAZY_FREE\<rparr>)) n s'"

lemma unmapped_inv:
  assumes i: "vmap_inv s" and n: "n \<in> set (vmap_area_list s)" and ok: "vmap_ok s'" and u: "unmapped s n s'"
  shows "vmap_inv s'" "vm_structs s' = vm_structs s" "set (vmap_area_list s') \<subseteq> set (vmap_area_list s)"
    "n \<in> set (vmap_area_list s') \<Longrightarrow> \<not> has_vm s' n" "n \<in> set (vmap_area_list s') \<Longrightarrow> va_vm (va s' n) = 0"
    "\<And>x. x \<in> set (vmap_area_list s') \<Longrightarrow> x \<noteq> n \<Longrightarrow> areas s' x = areas s x"
    "\<And>x. x \<in> set (vmap_area_list s) \<Longrightarrow> has_vm s x \<Longrightarrow> x \<noteq> n \<Longrightarrow> x \<in> set (vmap_area_list s')"
proof -
  let ?u = "set_area s n ((va s n)\<lparr>va_vm := 0, va_flags := (va_flags (va s n) AND NOT VM_VM_AREA) OR VM_LAZY_FREE\<rparr>)"
  obtain P where P: "P = {} \<and> vmap_purge_list s' = n # vmap_purge_list s \<or> P = insert n (set (vmap_purge_list s)) \<and> vmap_purge_list s' = []"
    "vmap_area_list s' = filter (\<lambda>x. x \<notin> P) (vmap_area_list s)" "frees ?u P s'"
    using u by (auto simp: unmapped_def retired_def set_area_def)
  show v: "vm_structs s' = vm_structs s" using P(3) by (simp add: frees_def set_area_def)
  show l: "set (vmap_area_list s') \<subseteq> set (vmap_area_list s)" using P(2) by auto
  show other: "areas s' x = areas s x" if "x \<in> set (vmap_area_list s')" "x \<noteq> n" for x
    using P(2,3) that by (simp add: frees_def set_area_def)
  show nn: "\<not> has_vm s' n" if "n \<in> set (vmap_area_list s')"
    using P(2,3) that by (simp add: frees_def set_area_def has_vm_def flags_cleared)
  show "va_vm (va s' n) = 0" if "n \<in> set (vmap_area_list s')"
    using P(2,3) that by (simp add: frees_def set_area_def)
  show "x \<in> set (vmap_area_list s')" if "x \<in> set (vmap_area_list s)" "has_vm s x" "x \<noteq> n" for x
    using P(1,2) i that by (auto simp: vmap_inv_def)
  have "\<not> has_vm s' x" if "x \<in> set (vmap_purge_list s')" for x
  proof (cases "x = n")
    case True
    then show ?thesis using nn that ok by (auto simp: vmap_ok_def)
  next
    case False
    then have "x \<in> set (vmap_purge_list s)" "x \<in> set (vmap_area_list s')" using P(1) that ok by (auto simp: vmap_ok_def)
    then show ?thesis using i other [of x] False by (auto simp: vmap_inv_def has_vm_def)
  qed
  then show "vmap_inv s'" using nn other v l by (intro vmap_inv_mono [OF i ok]) (metis subsetD)+
qed

lemma remove_vm_area_ok:
  assumes i: "vmap_inv s" and k: "(length (vmap_area_list s) + 1) ^ 2 < 2 ^ k"
  obtains (Removed) n s' where "remove_vm_area env k s addr = Inr (va_vm (va s n), s')" "n \<in> set (vmap_area_list s)"
      "covers s addr n" "has_vm s n" "vmap_ok s'" "unmapped s n s'"
    | (Nothing) "remove_vm_area env k s addr = Inr (0, s)" "\<forall>x\<in>set (vmap_area_list s). covers s addr x \<longrightarrow> \<not> has_vm s x"
  using vmap_inv_ok [OF i] k
proof (cases rule: find_vmap_area_ok [where addr = addr])
  case (Hit n)
  have a: "area_ok s n" using vmap_inv_ok [OF i] Hit sorted_areas_ok by (auto simp: vmap_ok_def)
  show thesis
  proof (cases "has_vm s n")
    case True
    let ?v = "(va s n)\<lparr>va_vm := 0, va_flags := (va_flags (va s n) AND NOT VM_VM_AREA) OR VM_LAZY_FREE\<rparr>" let ?u = "set_area s n ?v"
    have "sorted_areas ?u (vmap_area_list s)"
      using vmap_inv_ok [OF i] Hit(3) unfolding vmap_ok_def sorted_areas_def before_def area_ok_def set_area_def
      by (auto intro: sorted_wrt_mono_rel [rotated])
    then have ok: "vmap_ok ?u" using vmap_inv_ok [OF i] by (simp add: vmap_ok_def set_area_def)
    have np: "n \<notin> set (vmap_purge_list ?u)" using i True by (auto simp: vmap_inv_def set_area_def)
    have "\<exists>s'. free_vmap_area_noflush env k ?u n = Inr s' \<and> vmap_ok s' \<and> retired ?u n s'"
      by (rule free_vmap_area_noflush_ok [OF ok _ np]) (use Hit k in \<open>simp_all add: set_area_def\<close>)
    then obtain s' where s': "free_vmap_area_noflush env k ?u n = Inr s'" "vmap_ok s'" "retired ?u n s'" by blast
    have "remove_vm_area env k s addr = Inr (va_vm (va s n), s')"
      using Hit True s'(1) by (simp add: remove_vm_area_def area_at_Inr [OF a] has_vm_def)
    then show thesis using Removed Hit True s' by (simp add: unmapped_def)
  next
    case False
    then have "remove_vm_area env k s addr = Inr (0, s)" using Hit by (simp add: remove_vm_area_def area_at_Inr [OF a] has_vm_def)
    moreover have "\<not> has_vm s x" if "x \<in> set (vmap_area_list s)" "covers s addr x" for x
      using covers_unique [OF vmap_inv_ok [OF i] that Hit(3,4)] False by simp
    ultimately show thesis using Nothing by blast
  qed
next
  case Miss
  then show thesis by (intro Nothing) (auto simp: remove_vm_area_def)
qed

lemma kfree_descriptor:
  assumes i: "vmap_inv s" and n: "n \<in> set (vmap_area_list s)" "has_vm s n" and s1: "vmap_ok s1" "unmapped s n s1"
  shows "vmap_inv (s1\<lparr>vm_structs := (vm_structs s1)(va_vm (va s n) := None)\<rparr>)" (is "vmap_inv ?s'")
proof -
  note U = unmapped_inv [OF i n(1) s1]
  have ok: "vmap_ok ?s'" using s1(1) sorted_areas_same [of ?s' s1] by (simp add: vmap_ok_def)
  have hv: "has_vm ?s' x = has_vm s1 x" for x by (simp add: has_vm_def)
  have "va_vm (va s1 x) \<noteq> va_vm (va s n)" if "x \<in> set (vmap_area_list s1)" "has_vm s1 x" for x
  proof -
    have x: "x \<noteq> n" "x \<in> set (vmap_area_list s)" "areas s1 x = areas s x" using U(3,4,6) that by auto
    then have "has_vm s x" using that(2) by (simp add: has_vm_def)
    then show ?thesis using i n x by (auto simp: vmap_inv_def)
  qed
  moreover have "\<not> has_vm s1 x" if "x \<in> set (vmap_purge_list s1)" for x using U(1) that by (simp add: vmap_inv_def)
  ultimately show ?thesis by (intro vmap_inv_mono [OF U(1) ok]) (simp_all add: hv)
qed

lemma free_vm_area_ok:
  assumes i: "vmap_inv s" and n: "n \<in> set (vmap_area_list s)" "has_vm s n" and k: "(length (vmap_area_list s) + 1) ^ 2 < 2 ^ k"
  shows "\<exists>s1. free_vm_area env k s (va_vm (va s n)) = Inr (s1\<lparr>vm_structs := (vm_structs s1)(va_vm (va s n) := None)\<rparr>) \<and>
    vmap_ok s1 \<and> unmapped s n s1"
proof -
  obtain v where v: "vm_structs s (va_vm (va s n)) = Some v" "vm_addr v = va_start (va s n)" using i n by (auto simp: vmap_inv_def described_def)
  have c: "covers s (vm_addr v) n" using vmap_inv_ok [OF i] n(1) sorted_areas_ok v(2) by (force simp: vmap_ok_def area_ok_def)
  from i k show ?thesis
  proof (cases rule: remove_vm_area_ok [where addr = "vm_addr v" and env = env])
    case (Removed m s')
    have "m = n" by (rule covers_unique [OF vmap_inv_ok [OF i] Removed(2,3) n(1) c])
    then show ?thesis using Removed v(1) by (auto simp: free_vm_area_def)
  next
    case Nothing
    then show ?thesis using c n by blast
  qed
qed

lemma vunmap_ok:
  assumes i: "vmap_inv s" and n: "n \<in> set (vmap_area_list s)" "has_vm s n" "covers s addr n"
    and a: "addr \<noteq> 0" "is_aligned64 addr PAGE_SIZE" and k: "(length (vmap_area_list s) + 1) ^ 2 < 2 ^ k"
  shows "\<exists>s1. vunmap env k s addr = Inr (s1\<lparr>vm_structs := (vm_structs s1)(va_vm (va s n) := None)\<rparr>) \<and> vmap_ok s1 \<and> unmapped s n s1"
proof -
  have f: "find_vmap_area k s addr = Inr n"
    using vmap_inv_ok [OF i] k
  proof (cases rule: find_vmap_area_ok [where addr = addr])
    case (Hit m)
    then show ?thesis using covers_unique [OF vmap_inv_ok [OF i] Hit(3,4) n(1,3)] by simp
  qed (use n in blast)
  have nz: "n \<noteq> 0" "area_ok s n" "va_vm (va s n) \<noteq> 0"
    using i n holds_distinct sorted_areas_ok by (auto simp: vmap_inv_def vmap_ok_def described_def)
  from i k show ?thesis
  proof (cases rule: remove_vm_area_ok [where addr = addr and env = env])
    case (Removed m s')
    have "m = n" by (rule covers_unique [OF vmap_inv_ok [OF i] Removed(2,3) n(1,3)])
    then show ?thesis using Removed f nz a by (auto simp: vunmap_def do_vunmap_def area_at_Inr)
  qed (use n in blast)
qed

lemma vunmap_faults:
  assumes "vmap_ok s" and "(length (vmap_area_list s) + 1) ^ 2 < 2 ^ k" and "addr \<noteq> 0" "is_aligned64 addr PAGE_SIZE"
    and none: "\<forall>x\<in>set (vmap_area_list s). \<not> covers s addr x"
  shows "vunmap env k s addr = Inl Oob"
  using assms(1,2)
proof (cases rule: find_vmap_area_ok [where addr = addr])
  case Miss
  then show ?thesis using assms by (simp add: vunmap_def do_vunmap_def)
qed (use none in blast)

section \<open>Reserving an area\<close>

text \<open>The addresses a request takes: whole pages and, unless it asks for none, a guard page; and their alignment.\<close>

definition vm_span :: "nat \<Rightarrow> 64 word \<Rightarrow> nat" where
  "vm_span sz flags = ((sz + PAGE_SIZE - 1) div PAGE_SIZE + (if flags AND VM_NO_GUARD = 0 then 1 else 0)) * PAGE_SIZE"

definition vm_order :: "vmap_env \<Rightarrow> nat \<Rightarrow> nat \<Rightarrow> 64 word \<Rightarrow> nat" where
  "vm_order env sz i flags =
     (if flags AND VM_IOREMAP \<noteq> 0
      then nat (min (max (get_count_order_long ((sz + PAGE_SIZE - 1) div PAGE_SIZE * PAGE_SIZE)) (int PAGE_SHIFT)) (int (IOREMAP_MAX_ORDER env)))
      else i)"

text \<open>The areas with a descriptor are as they were, apart from a new one.\<close>

definition keeps_vms :: "vmap_state \<Rightarrow> vmap_state \<Rightarrow> bool" where
  "keeps_vms s s' \<longleftrightarrow> (\<forall>x\<in>set (vmap_area_list s). has_vm s x \<longrightarrow> x \<in> set (vmap_area_list s') \<and> areas s' x = areas s x)"

definition only_adds :: "vmap_state \<Rightarrow> vmap_state \<Rightarrow> bool" where
  "only_adds s s' \<longleftrightarrow> (\<forall>x\<in>set (vmap_area_list s'). x \<in> set (vmap_area_list s) \<and> areas s' x = areas s x \<or> has_vm s' x)"

lemma alloc_keeps_inv:
  assumes i: "vmap_inv s" and n: "n \<notin> set (vmap_area_list s)" and ok: "vmap_ok s'"
    and xs: "xs = vmap_area_list s \<and> vmap_purge_list s' = vmap_purge_list s \<or>
      xs = filter (\<lambda>x. x \<notin> set (vmap_purge_list s)) (vmap_area_list s) \<and> vmap_purge_list s' = []"
    and l: "set (vmap_area_list s') \<subseteq> insert n (set xs)" "set xs \<subseteq> set (vmap_area_list s')"
    and same: "\<forall>x\<in>set xs. areas s' x = areas s x" and v: "vm_structs s' = vm_structs s" and nv: "n \<in> set (vmap_area_list s') \<Longrightarrow> \<not> has_vm s' n"
  shows "vmap_inv s'" "keeps_vms s s'" "n \<notin> set (vmap_purge_list s')"
proof -
  have sub: "set xs \<subseteq> set (vmap_area_list s)" using xs by auto
  have pl: "set (vmap_purge_list s') \<subseteq> set (vmap_area_list s)" using xs i by (auto simp: vmap_inv_def vmap_ok_def)
  then show "n \<notin> set (vmap_purge_list s')" using n by auto
  have "x \<in> set xs" if "x \<in> set (vmap_area_list s)" "has_vm s x" for x using xs i that by (auto simp: vmap_inv_def)
  then show "keeps_vms s s'" using l(2) same by (auto simp: keeps_vms_def)
  have "\<not> has_vm s' x" if x: "x \<in> set (vmap_purge_list s')" for x
  proof -
    have "x \<in> set (vmap_purge_list s)" "xs = vmap_area_list s" using xs x by auto
    moreover have "areas s' x = areas s x" using calculation same pl x by auto
    ultimately show ?thesis using i by (simp add: vmap_inv_def has_vm_def)
  qed
  moreover have "x \<in> set xs" if "x \<in> set (vmap_area_list s')" "has_vm s' x" for x using l nv that by auto
  ultimately show "vmap_inv s'" using same v sub by (intro vmap_inv_mono [OF i ok]) auto
qed

lemma vm_flag_set: "(f OR VM_VM_AREA) AND VM_VM_AREA \<noteq> 0"
proof
  assume "(f OR VM_VM_AREA) AND VM_VM_AREA = 0"
  then have "bit ((f OR VM_VM_AREA) AND VM_VM_AREA) 2 = bit (0 :: 64 word) 2" by simp
  then show False by (simp add: bit_simps VM_VM_AREA_def)
qed

lemma setup_vmalloc_vm_ok:
  assumes i: "vmap_inv s" and n: "n \<in> set (vmap_area_list s)" "n \<notin> set (vmap_purge_list s)"
    and vm: "vm \<noteq> 0" "vm_structs s vm = None"
  shows "\<exists>s'. setup_vmalloc_vm s vm n flags = Inr s' \<and> vmap_inv s' \<and> vmap_area_list s' = vmap_area_list s \<and>
    vm_structs s' = (vm_structs s)(vm \<mapsto> \<lparr>vm_addr = va_start (va s n), vm_size = va_end (va s n) - va_start (va s n), vm_flags = flags\<rparr>) \<and>
    areas s' = (areas s)(n \<mapsto> (va s n)\<lparr>va_vm := vm, va_flags := va_flags (va s n) OR VM_VM_AREA\<rparr>)"
proof -
  note V = vmap_inv_ok [OF i, unfolded vmap_ok_def]
  have a: "area_ok s n" using V n(1) sorted_areas_ok by blast
  let ?w = "(va s n)\<lparr>va_vm := vm, va_flags := va_flags (va s n) OR VM_VM_AREA\<rparr>"
  let ?d = "\<lparr>vm_addr = va_start (va s n), vm_size = va_end (va s n) - va_start (va s n), vm_flags = flags\<rparr>"
  let ?s' = "(set_area s n ?w)\<lparr>vm_structs := (vm_structs s)(vm \<mapsto> ?d)\<rparr>"
  have sz: "sub64 (va_end (va s n)) (va_start (va s n)) = va_end (va s n) - va_start (va s n)"
    using a by (intro sub64_exact) (auto simp: area_ok_def U64_MAX_def)
  have run: "setup_vmalloc_vm s vm n flags = Inr ?s'" by (simp add: setup_vmalloc_vm_def area_at_Inr [OF a] sz)
  have "sorted_areas ?s' (vmap_area_list s)"
    using V n(1) unfolding sorted_areas_def before_def area_ok_def set_area_def by (auto intro: sorted_wrt_mono_rel [rotated])
  then have ok: "vmap_ok ?s'" using V by (simp add: vmap_ok_def set_area_def)
  have hv: "x \<noteq> n \<Longrightarrow> has_vm ?s' x = has_vm s x" for x by (simp add: has_vm_def set_area_def)
  have fresh: "va_vm (va s x) \<noteq> vm" if "x \<in> set (vmap_area_list s)" "has_vm s x" for x
    using i that vm(2) by (auto simp: vmap_inv_def described_def)
  have "\<forall>x\<in>set (vmap_purge_list s). \<not> has_vm ?s' x" using i n(2) hv unfolding vmap_inv_def by metis
  moreover have "described ?s' x" if "x \<in> set (vmap_area_list s)" "has_vm ?s' x" for x
  proof (cases "x = n")
    case True
    then show ?thesis using vm(1) by (simp add: described_def set_area_def)
  next
    case False
    then have "described s x" "va_vm (va s x) \<noteq> vm" using i that hv fresh by (auto simp: vmap_inv_def)
    then show ?thesis using False by (simp add: described_def set_area_def)
  qed
  moreover have "x = y" if "x \<in> set (vmap_area_list s)" "y \<in> set (vmap_area_list s)" "has_vm ?s' x" "has_vm ?s' y"
      "va_vm (va ?s' x) = va_vm (va ?s' y)" for x y
    using i that hv fresh by (cases "x = n"; cases "y = n") (auto simp: vmap_inv_def set_area_def)
  ultimately have "vmap_inv ?s'" using ok by (auto simp: vmap_inv_def set_area_def)
  then show ?thesis using run by (simp add: set_area_def)
qed

lemma PAGE_pow: "PAGE_SIZE = 2 ^ 12"
  by (simp add: PAGE_SIZE_def PAGE_SHIFT_def)

lemma page_align64:
  assumes "sz + PAGE_SIZE \<le> 2 ^ 64"
  shows "align64 sz PAGE_SIZE = (sz + PAGE_SIZE - 1) div PAGE_SIZE * PAGE_SIZE"
  using align64_pow2 [of 12 sz] assms by (simp only: PAGE_pow)

lemma vm_span_exact:
  assumes "0 < sz" "sz + 2 * PAGE_SIZE \<le> 2 ^ 64"
  shows "align64 sz PAGE_SIZE \<noteq> 0"
    "(if flags AND VM_NO_GUARD = 0 then add64 (align64 sz PAGE_SIZE) PAGE_SIZE else align64 sz PAGE_SIZE) = vm_span sz flags"
proof -
  have b: "sz + 2 ^ 12 \<le> 2 ^ 64" using assms(2) by (simp add: PAGE_pow)
  have e: "align64 sz PAGE_SIZE = (sz + PAGE_SIZE - 1) div PAGE_SIZE * PAGE_SIZE" by (rule page_align64) (use b in \<open>simp add: PAGE_pow\<close>)
  have "sz \<le> align64 sz PAGE_SIZE" using align64_bounds(1) [of 12 sz] b by (simp only: PAGE_pow)
  then show "align64 sz PAGE_SIZE \<noteq> 0" using assms(1) by linarith
  have "align64 sz PAGE_SIZE \<le> sz + PAGE_SIZE - 1" unfolding e by simp
  then have "add64 (align64 sz PAGE_SIZE) PAGE_SIZE = align64 sz PAGE_SIZE + PAGE_SIZE"
    using assms by (intro add64_exact) (simp add: PAGE_pow U64_MAX_def)
  then show "(if flags AND VM_NO_GUARD = 0 then add64 (align64 sz PAGE_SIZE) PAGE_SIZE else align64 sz PAGE_SIZE) = vm_span sz flags"
    by (simp add: vm_span_def e add_mult_distrib)
qed

lemma get_vm_area_node_run:
  assumes "0 < sz" "sz + 2 * PAGE_SIZE \<le> 2 ^ 64" "area \<noteq> 0"
  shows "get_vm_area_node env k s area n sz (2 ^ i) flags start stop =
    rbind (alloc_vmap_area env k s n (vm_span sz flags) (2 ^ vm_order env sz i flags) start stop) (\<lambda>(err, s1).
      if err \<noteq> 0 then Inr (0, s1) else rbind (setup_vmalloc_vm s1 area n flags) (\<lambda>s2. Inr (area, s2)))"
proof -
  have "sz + PAGE_SIZE \<le> 2 ^ 64" using assms(2) by simp
  note e = page_align64 [OF this]
  have al: "(if flags AND VM_IOREMAP \<noteq> 0
      then 2 ^ nat (min (max (get_count_order_long (align64 sz PAGE_SIZE)) (int PAGE_SHIFT)) (int (IOREMAP_MAX_ORDER env))) else 2 ^ i) =
      (2 ^ vm_order env sz i flags :: nat)" by (simp add: vm_order_def e)
  show ?thesis unfolding get_vm_area_node_def Let_def al vm_span_exact(2) [OF assms(1,2)]
    using vm_span_exact(1) [OF assms(1,2)] assms(3) by simp
qed

text \<open>What the caller gets: a described area for the request; everything reserved before is kept.\<close>

definition reserved_area :: "vmap_state \<Rightarrow> ptr \<Rightarrow> nat \<Rightarrow> nat \<Rightarrow> nat \<Rightarrow> 64 word \<Rightarrow> nat \<Rightarrow> nat \<Rightarrow> bool" where
  "reserved_area s area sz align span flags start stop \<longleftrightarrow>
     (\<exists>x v. x \<in> set (vmap_area_list s) \<and> has_vm s x \<and> va_vm (va s x) = area \<and> vm_structs s area = Some v \<and> vm_flags v = flags \<and>
        vm_addr v = va_start (va s x) \<and> vm_size v = span \<and> sz \<le> get_vm_area_size v \<and>
        va_end (va s x) = va_start (va s x) + span \<and> start \<le> va_start (va s x) \<and> va_end (va s x) \<le> stop \<and> align dvd va_start (va s x))"

lemma usable_size:
  assumes "vm_size v = vm_span sz flags" "vm_flags v = flags" "vm_span sz flags < 2 ^ 64"
  shows "sz \<le> get_vm_area_size v"
proof -
  let ?q = "(sz + PAGE_SIZE - 1) div PAGE_SIZE"
  have "(sz + PAGE_SIZE - 1) mod PAGE_SIZE \<le> PAGE_SIZE - 1" by (simp add: PAGE_pow)
  then have q: "sz \<le> ?q * PAGE_SIZE" using div_mult_mod_eq [of "sz + PAGE_SIZE - 1" PAGE_SIZE] by (simp add: PAGE_pow)
  show ?thesis
  proof (cases "flags AND VM_NO_GUARD = 0")
    case True
    then have "vm_span sz flags = ?q * PAGE_SIZE + PAGE_SIZE" by (simp add: vm_span_def add_mult_distrib)
    moreover from this have "sub64 (vm_span sz flags) PAGE_SIZE = ?q * PAGE_SIZE"
      using assms(3) by (subst sub64_exact) (simp_all add: U64_MAX_def)
    ultimately show ?thesis using q assms True by (simp add: get_vm_area_size_def)
  next
    case False
    then show ?thesis using q assms by (simp add: get_vm_area_size_def vm_span_def)
  qed
qed

lemma get_vm_area_node_ok:
  assumes i: "vmap_inv s" and n: "fresh_area s n" and area: "area \<noteq> 0" "vm_structs s area = None"
    and sz: "0 < sz" "sz + 2 * PAGE_SIZE \<le> 2 ^ 64"
    and r: "request_ok s (vm_span sz flags) (vm_order env sz i flags) start stop"
    and k: "(length (vmap_area_list s) + 2) ^ 2 < 2 ^ k"
  obtains (Got) s' where "get_vm_area_node env k s area n sz (2 ^ i) flags start stop = Inr (area, s')" "vmap_inv s'" "keeps_vms s s'" "only_adds s s'"
      "reserved_area s' area sz (2 ^ vm_order env sz i flags) (vm_span sz flags) flags start stop"
    | (None) s' where "get_vm_area_node env k s area n sz (2 ^ i) flags start stop = Inr (0, s')" "vmap_inv s'" "keeps_vms s s'" "only_adds s s'"
proof -
  note run = get_vm_area_node_run [OF sz area(1), of env k s n i flags start stop]
  have nl: "n \<notin> set (vmap_area_list s)" using n by (simp add: fresh_area_def)
  have span: "vm_span sz flags < 2 ^ 64" using r by (simp add: request_ok_def)
  have got: thesis if al: "alloc_vmap_area env k s n (vm_span sz flags) (2 ^ vm_order env sz i flags) start stop = Inr (0, s1)"
    and ok: "vmap_ok s1" and taken: "allocated s xs n a (vm_span sz flags) s1"
    and xs: "xs = vmap_area_list s \<and> vmap_purge_list s1 = vmap_purge_list s \<or>
      xs = filter (\<lambda>x. x \<notin> set (vmap_purge_list s)) (vmap_area_list s) \<and> vmap_purge_list s1 = []"
    and a: "start \<le> a" "hole_at s xs (vm_span sz flags) (2 ^ vm_order env sz i flags) stop a" for s1 xs a
  proof -
    note T = taken [unfolded allocated_def]
    have nv: "\<not> has_vm s1 n" using T by (simp add: has_vm_def)
    have l: "set (vmap_area_list s1) = insert n (set xs)" using T by auto
    note I = alloc_keeps_inv [OF i nl ok xs, simplified l] 
    have inv1: "vmap_inv s1" "keeps_vms s s1" "n \<notin> set (vmap_purge_list s1)" using I T nv by auto
    obtain s' where s': "setup_vmalloc_vm s1 area n flags = Inr s'" "vmap_inv s'" "vmap_area_list s' = vmap_area_list s1"
      "vm_structs s' = (vm_structs s1)(area \<mapsto> \<lparr>vm_addr = a, vm_size = vm_span sz flags, vm_flags = flags\<rparr>)"
      "areas s' = (areas s1)(n \<mapsto> (va s1 n)\<lparr>va_vm := area, va_flags := va_flags (va s1 n) OR VM_VM_AREA\<rparr>)"
      using setup_vmalloc_vm_ok [OF inv1(1) _ inv1(3) area(1), of flags] l T area(2) by auto
    have "keeps_vms s s'" using inv1(2) s'(3,5) nl by (auto simp: keeps_vms_def)
    moreover have "reserved_area s' area sz (2 ^ vm_order env sz i flags) (vm_span sz flags) flags start stop"
      unfolding reserved_area_def
      by (intro exI [of _ n] exI [of _ "\<lparr>vm_addr = a, vm_size = vm_span sz flags, vm_flags = flags\<rparr>"])
         (use s' l T a span in \<open>simp add: has_vm_def vm_flag_set [of 0, simplified] hole_at_def usable_size\<close>)
    moreover have "only_adds s s'"
      unfolding only_adds_def
    proof
      fix x
      assume "x \<in> set (vmap_area_list s')"
      then consider "x = n" | "x \<noteq> n" "x \<in> set xs" using s'(3) l by auto
      then show "x \<in> set (vmap_area_list s) \<and> areas s' x = areas s x \<or> has_vm s' x"
      proof cases
        case 1
        then show ?thesis using s'(5) by (simp add: has_vm_def VM_VM_AREA_def)
      next
        case 2
        then show ?thesis using s'(5) T xs by auto
      qed
    qed
    ultimately show thesis using al s' run by (intro Got [of s']) simp_all
  qed
  from vmap_inv_ok [OF i] n r k show thesis
  proof (cases rule: alloc_vmap_area_ok [where env = env])
    case (Direct a s')
    then show thesis using got [of s' "vmap_area_list s" a] by blast
  next
    case (Retry a s' xs)
    then show thesis using got [of s' xs a] by blast
  next
    case (Busy s')
    have nn: "n \<notin> set (vmap_area_list s')" using nl Busy(3) by simp
    note I = alloc_keeps_inv [OF i nl Busy(2), of "vmap_area_list s'"]
    have "vmap_inv s'" "keeps_vms s s'" "only_adds s s'" using I Busy nn by (auto simp: only_adds_def)
    then show thesis using None [of s'] Busy(1) run by (simp add: EBUSY_def)
  qed
qed

end
