(* ===== verification/Vmap_Boot.thy ===== *)
theory Vmap_Boot
  imports Vmap_Areas
begin

text \<open>
  The allocator from boot on: the descriptors registered early are sorted and disjoint, the initialisation
  turns them into areas, and every state that calls of the interface reach from there keeps the invariant.
\<close>

section \<open>Descriptors registered early\<close>

abbreviation vm_end :: "ptr \<times> vm_struct \<Rightarrow> nat" where
  "vm_end t \<equiv> vm_addr (snd t) + vm_size (snd t)"

definition early_vm :: "ptr \<times> vm_struct \<Rightarrow> bool" where
  "early_vm t \<longleftrightarrow> fst t \<noteq> 0 \<and> 0 < vm_size (snd t) \<and> vm_end t < 2 ^ 64"

definition early_ok :: "early_list \<Rightarrow> bool" where
  "early_ok xs \<longleftrightarrow> sorted_wrt (\<lambda>t u. vm_end t \<le> vm_addr (snd u)) xs \<and> (\<forall>t\<in>set xs. early_vm t) \<and> distinct (map fst xs)"

lemma early_ok_Cons:
  "early_ok (t # xs) \<longleftrightarrow> early_vm t \<and> (\<forall>u\<in>set xs. vm_end t \<le> vm_addr (snd u)) \<and> fst t \<notin> fst ` set xs \<and> early_ok xs"
  by (auto simp: early_ok_def)

text \<open>Registering a descriptor fails exactly when it overlaps another one.\<close>

lemma add_early_ok:
  "early_ok xs \<Longrightarrow> early_vm vm \<Longrightarrow> fst vm \<notin> fst ` set xs \<Longrightarrow>
   (if \<exists>t\<in>set xs. vm_addr (snd t) < vm_end vm \<and> vm_addr (snd vm) < vm_end t then add_early_loop vm xs = Inl Bug
    else \<exists>ys. add_early_loop vm xs = Inr ys \<and> early_ok ys \<and> set ys = insert vm (set xs))"
proof (induction xs)
  case Nil
  then show ?case by (simp add: early_ok_def)
next
  case (Cons t ts)
  have t: "early_vm t" "\<forall>u\<in>set ts. vm_end t \<le> vm_addr (snd u)" "fst t \<notin> fst ` set ts" "early_ok ts"
    using Cons.prems(1) by (simp_all add: early_ok_Cons)
  have ex: "add64 (vm_addr (snd u)) (vm_size (snd u)) = vm_end u" if "early_vm u" for u
    using that by (intro add64_exact) (simp add: early_vm_def U64_MAX_def)
  have pos: "0 < vm_size (snd vm)" "0 < vm_size (snd t)" using Cons.prems(2) t(1) by (auto simp: early_vm_def)
  consider "vm_addr (snd t) < vm_end vm" "vm_addr (snd vm) < vm_end t" | "vm_end vm \<le> vm_addr (snd t)" | "vm_end t \<le> vm_addr (snd vm)" by linarith
  then show ?case
  proof cases
    case 1
    then show ?thesis using ex [OF Cons.prems(2)] ex [OF t(1)] by auto
  next
    case 2
    have "vm_end vm \<le> vm_addr (snd u)" if "u \<in> set (t # ts)" for u using t(2) 2 that by auto
    then have "\<not> (\<exists>u\<in>set (t # ts). vm_addr (snd u) < vm_end vm \<and> vm_addr (snd vm) < vm_end u)" "early_ok (vm # t # ts)"
      using Cons.prems by (auto simp: early_ok_Cons [of vm] not_less)
    moreover have "add_early_loop vm (t # ts) = Inr (vm # t # ts)" using 2 pos ex [OF Cons.prems(2)] by simp
    ultimately show ?thesis by auto
  next
    case 3
    have run: "add_early_loop vm (t # ts) = rbind (add_early_loop vm ts) (\<lambda>xs. Inr (t # xs))"
      using 3 pos ex [OF t(1)] by simp
    have IH: "if \<exists>u\<in>set ts. vm_addr (snd u) < vm_end vm \<and> vm_addr (snd vm) < vm_end u then add_early_loop vm ts = Inl Bug
      else \<exists>ys. add_early_loop vm ts = Inr ys \<and> early_ok ys \<and> set ys = insert vm (set ts)" (is "if ?overlap then _ else _")
      using Cons.IH [OF t(4)] Cons.prems by simp
    have no: "\<not> (vm_addr (snd t) < vm_end vm \<and> vm_addr (snd vm) < vm_end t)" using 3 by simp
    show ?thesis
    proof (cases ?overlap)
      case True
      then show ?thesis using IH run by simp
    next
      case False
      then obtain ys where ys: "add_early_loop vm ts = Inr ys" "early_ok ys" "set ys = insert vm (set ts)" using IH unfolding if_not_P [OF False] by blast
      have "early_ok (t # ys)" using ys t 3 Cons.prems(3) by (auto simp: early_ok_Cons)
      then show ?thesis using run ys no False by auto
    qed
  qed
qed

section \<open>Initialisation\<close>

lemma kzalloc_simps:
  "vmap_area_list (kzalloc_area s n a m) = vmap_area_list s" "vmap_purge_list (kzalloc_area s n a m) = vmap_purge_list s"
  "free_vmap_cache (kzalloc_area s n a m) = free_vmap_cache s" "vm_structs (kzalloc_area s n a m) = vm_structs s"
  "areas (kzalloc_area s n a m) = (areas s)(n \<mapsto> a)" "nodes (vmap_area_root (kzalloc_area s n a m)) n = Some m"
  by (simp_all add: kzalloc_area_def)

lemma kzalloc_ok:
  assumes "vmap_ok s" "n \<notin> set (vmap_area_list s)"
  shows "vmap_ok (kzalloc_area s n a m)"
proof -
  have "sorted_areas (kzalloc_area s n a m) (vmap_area_list s) = sorted_areas s (vmap_area_list s)"
    by (rule sorted_areas_cong) (use assms(2) in \<open>auto simp: kzalloc_simps\<close>)
  moreover have "holds (vmap_area_root (kzalloc_area s n a m)) (vmap_area_list s)"
    using assms holds_outside [of "vmap_area_root s" "vmap_area_list s" n "Some m"] by (simp add: vmap_ok_def kzalloc_area_def)
  ultimately show ?thesis using assms by (simp add: vmap_ok_def kzalloc_simps)
qed

lemma kzalloc_inv:
  assumes i: "vmap_inv s" and n: "n \<notin> set (vmap_area_list s)"
  shows "vmap_inv (kzalloc_area s n a m)"
proof (rule vmap_inv_mono [OF i kzalloc_ok [OF vmap_inv_ok [OF i] n]])
  show "\<not> has_vm (kzalloc_area s n a m) x" if "x \<in> set (vmap_purge_list (kzalloc_area s n a m))" for x
    using i n that by (auto simp: vmap_inv_def vmap_ok_def has_vm_def kzalloc_simps)
qed (use n in \<open>auto simp: kzalloc_simps\<close>)

text \<open>Between calls, an area without a descriptor does not refer to one.\<close>

definition settled :: "vmap_state \<Rightarrow> bool" where
  "settled s \<longleftrightarrow> vmap_inv s \<and> (\<forall>x\<in>set (vmap_area_list s). has_vm s x \<or> va_vm (va s x) = 0)"

lemma settled_inv: "settled s \<Longrightarrow> vmap_inv s"
  by (simp add: settled_def)

text \<open>The areas made so far come before the descriptors still to be imported.\<close>

definition importing :: "vmap_state \<Rightarrow> early_list \<Rightarrow> bool" where
  "importing s xs \<longleftrightarrow>
     vmap_inv s \<and> (\<forall>x\<in>set (vmap_area_list s). has_vm s x) \<and> vmap_purge_list s = [] \<and> early_ok xs \<and> (\<forall>t\<in>set xs. vm_structs s (fst t) = Some (snd t)) \<and>
     (\<forall>x\<in>set (vmap_area_list s). \<forall>t\<in>set xs. va_end (va s x) \<le> vm_addr (snd t) \<and> va_vm (va s x) \<noteq> fst t)"

lemma import_step:
  assumes I: "importing s (t # xs)" and n: "good n" "n \<notin> set (vmap_area_list s)" and k: "(length (vmap_area_list s) + 2) ^ 2 < 2 ^ k"
  shows "\<exists>s'. insert_vmap_area k (kzalloc_area s n \<lparr>va_start = vm_addr (snd t), va_end = add64 (vm_addr (snd t)) (vm_size (snd t)), va_flags = VM_VM_AREA, va_vm = fst t\<rparr> zero_node) n = Inr s' \<and>
    importing s' xs \<and> set (vmap_area_list s') = insert n (set (vmap_area_list s)) \<and> length (vmap_area_list s') = Suc (length (vmap_area_list s)) \<and>
    (\<forall>x\<in>set (vmap_area_list s). areas s' x = areas s x) \<and> va_vm (va s' n) = fst t \<and> has_vm s' n"
proof -
  let ?a = "\<lparr>va_start = vm_addr (snd t), va_end = add64 (vm_addr (snd t)) (vm_size (snd t)), va_flags = VM_VM_AREA, va_vm = fst t\<rparr>"
  let ?s = "kzalloc_area s n ?a zero_node"
  note J = I [unfolded importing_def]
  have t: "early_vm t" "\<forall>u\<in>set xs. vm_end t \<le> vm_addr (snd u)" "fst t \<notin> fst ` set xs" "early_ok xs" using J by (simp_all add: early_ok_Cons)
  have e: "add64 (vm_addr (snd t)) (vm_size (snd t)) = vm_end t" using t(1) by (intro add64_exact) (simp add: early_vm_def U64_MAX_def)
  have inv: "vmap_inv ?s" by (rule kzalloc_inv) (use J n in auto)
  note ok = vmap_inv_ok [OF inv, unfolded vmap_ok_def]
  obtain r us vs where r: "insert_vmap_area k ?s n = Inr (?s\<lparr>vmap_area_root := r, vmap_area_list := us @ n # vs\<rparr>)"
    "holds r (us @ n # vs)" "vmap_area_list ?s = us @ vs" "sorted_areas ?s (us @ n # vs)"
  proof (rule insert_vmap_area_ok [of ?s n k])
    show "area_ok ?s n" using t(1) by (simp add: area_ok_def kzalloc_simps e early_vm_def)
    show "before ?s n x \<or> before ?s x n" if "x \<in> set (vmap_area_list ?s)" for x
      using J n(2) that by (auto simp: before_def kzalloc_simps)
  qed (use ok n k in \<open>auto simp: kzalloc_simps\<close>)
  define s' where "s' = ?s\<lparr>vmap_area_root := r, vmap_area_list := us @ n # vs\<rparr>"
  have S: "vmap_area_root s' = r" "vmap_area_list s' = us @ n # vs" "areas s' = (areas s)(n \<mapsto> ?a)" "vmap_purge_list s' = vmap_purge_list s"
    "free_vmap_cache s' = free_vmap_cache s" "vm_structs s' = vm_structs s" "areas s' = areas ?s" by (simp_all add: s'_def kzalloc_simps)
  have l: "vmap_area_list s = us @ vs" "set (vmap_area_list s') = insert n (set (vmap_area_list s))" using r(3) S(2) by (auto simp: kzalloc_simps)
  have old: "x \<noteq> n" "areas s' x = areas s x" if "x \<in> set (vmap_area_list s)" for x using n(2) that S(3) by auto
  have new: "areas s' n = Some ?a" "has_vm s' n" "described s' n"
    using J t(1) by (simp_all add: S(3,6) has_vm_def described_def VM_VM_AREA_def early_vm_def e)
  have hv: "has_vm s' x = has_vm s x" "described s' x = described s x" if "x \<in> set (vmap_area_list s)" for x
    using old [OF that] by (simp_all add: has_vm_def described_def S(6))
  have "vmap_ok s'" using ok r(2,3,4) J sorted_areas_same [of s' ?s] S l(1) by (auto simp: vmap_ok_def kzalloc_simps)
  moreover have "x = y" if A: "x \<in> set (vmap_area_list s')" "y \<in> set (vmap_area_list s')" "has_vm s' x" "has_vm s' y" "va_vm (va s' x) = va_vm (va s' y)" for x y
  proof -
    have ne: "va_vm (va s' z) \<noteq> fst t" if "z \<in> set (vmap_area_list s)" for z using J old(2) [OF that] that by simp
    consider "x = n" "y = n" | "x \<in> set (vmap_area_list s)" "y \<in> set (vmap_area_list s)"
      | "x = n" "y \<in> set (vmap_area_list s)" | "y = n" "x \<in> set (vmap_area_list s)" using A(1,2) unfolding l(2) by blast
    then show ?thesis
    proof cases
      case 2
      then have "has_vm s x" "has_vm s y" "va_vm (va s x) = va_vm (va s y)" using A hv old(2) by simp_all
      then show ?thesis using 2 J by (simp add: vmap_inv_def)
    qed (use A(5) new(1) ne in auto)
  qed
  moreover have "described s' x" if "x \<in> set (vmap_area_list s')" "has_vm s' x" for x
  proof (cases "x = n")
    case False
    then have x: "x \<in> set (vmap_area_list s)" using that(1) l(2) by simp
    then have "described s x" using J that(2) hv(1) [OF x] by (simp add: vmap_inv_def)
    then show ?thesis using hv(2) [OF x] by simp
  qed (use new(3) in simp)
  moreover have "vmap_purge_list s' = []" using J S(4) by simp
  ultimately have "vmap_inv s'" unfolding vmap_inv_def by simp
  moreover have "\<forall>x\<in>set (vmap_area_list s'). \<forall>u\<in>set xs. va_end (va s' x) \<le> vm_addr (snd u) \<and> va_vm (va s' x) \<noteq> fst u"
    using l(2) J old(2) new(1) t(2,3) e by auto
  moreover have "\<forall>x\<in>set (vmap_area_list s'). has_vm s' x" using l(2) J hv(1) new(2) by simp
  ultimately have "importing s' xs" using J t(4) by (simp add: importing_def S(4,6))
  then show ?thesis using r(1) l old(2) new S(2) unfolding s'_def [symmetric] by (intro exI [of _ s']) simp
qed

lemma import_early_ok:
  "importing s xs \<Longrightarrow> length xs \<le> length ns \<Longrightarrow> distinct ns \<Longrightarrow> (\<forall>n\<in>set ns. good n) \<Longrightarrow> set ns \<inter> set (vmap_area_list s) = {} \<Longrightarrow>
   (length (vmap_area_list s) + length xs + 2) ^ 2 < 2 ^ k \<Longrightarrow>
   \<exists>s'. import_early k s ns xs = Inr s' \<and> settled s' \<and>
     (\<lambda>x. va_vm (va s' x)) ` set (vmap_area_list s') = (\<lambda>x. va_vm (va s x)) ` set (vmap_area_list s) \<union> fst ` set xs"
proof (induction xs arbitrary: s ns)
  case Nil
  then show ?case by (auto simp: importing_def settled_def)
next
  case (Cons t xs)
  obtain n ns' where ns: "ns = n # ns'" using Cons.prems(2) by (cases ns) auto
  have k: "(length (vmap_area_list s) + 2) ^ 2 < 2 ^ k" by (rule le_less_trans [OF _ Cons.prems(6)]) (intro power_mono, simp_all)
  obtain s1 where s1: "insert_vmap_area k (kzalloc_area s n \<lparr>va_start = vm_addr (snd t), va_end = add64 (vm_addr (snd t)) (vm_size (snd t)), va_flags = VM_VM_AREA, va_vm = fst t\<rparr> zero_node) n = Inr s1"
    "importing s1 xs" "set (vmap_area_list s1) = insert n (set (vmap_area_list s))" "length (vmap_area_list s1) = Suc (length (vmap_area_list s))"
    "\<forall>x\<in>set (vmap_area_list s). areas s1 x = areas s x" "va_vm (va s1 n) = fst t"
    using import_step [OF Cons.prems(1), of n k] Cons.prems(4,5) ns k by auto
  have "(length (vmap_area_list s1) + length xs + 2) ^ 2 < 2 ^ k" using Cons.prems(6) s1(4) by simp
  then obtain s' where s': "import_early k s1 ns' xs = Inr s'" "settled s'"
     "(\<lambda>x. va_vm (va s' x)) ` set (vmap_area_list s') = (\<lambda>x. va_vm (va s1 x)) ` set (vmap_area_list s1) \<union> fst ` set xs"
    using Cons.IH [OF s1(2), of ns'] Cons.prems(2-5) ns s1(3) by auto
  have "(\<lambda>x. va_vm (va s1 x)) ` set (vmap_area_list s1) = insert (fst t) ((\<lambda>x. va_vm (va s x)) ` set (vmap_area_list s))"
    using s1(3,5,6) by simp
  then show ?case using s' s1(1) ns Cons.prems(4) by (auto simp: good_def)
qed

text \<open>The state the kernel starts with: no areas, the early descriptors in place.\<close>

definition vmap_start :: "early_list \<Rightarrow> vmap_state" where
  "vmap_start xs =
     \<lparr>vmap_area_root = \<lparr>nodes = (\<lambda>p. None), root_node = 0, leftmost = 0, aug = ()\<rparr>, areas = (\<lambda>p. None), vm_structs = map_of xs,
      vmap_area_list = [], vmap_purge_list = [], free_vmap_cache = 0, cached_hole_size = 0, cached_vstart = 0, cached_align = 0,
      vmap_area_pcpu_hole = 0, vmap_lazy_nr = 0\<rparr>"

lemma importing_start: "early_ok xs \<Longrightarrow> importing (vmap_start xs) xs"
proof -
  assume xs: "early_ok xs"
  have "holds (vmap_area_root (vmap_start xs)) []"
    by (rule holdsI [of _ Leaf]) (simp_all add: rb_tree_def vmap_start_def is_rbt_def)
  then have "vmap_inv (vmap_start xs)" by (simp add: vmap_inv_def vmap_ok_def sorted_areas_def) (simp add: vmap_start_def)
  moreover have "\<forall>t\<in>set xs. map_of xs (fst t) = Some (snd t)" using xs by (auto simp: early_ok_def intro: map_of_is_SomeI)
  ultimately show ?thesis using xs by (simp add: importing_def) (simp add: vmap_start_def)
qed

definition boot_ok :: "early_list \<Rightarrow> ptr list \<Rightarrow> nat \<Rightarrow> bool" where
  "boot_ok xs ns k \<longleftrightarrow> early_ok xs \<and> length xs \<le> length ns \<and> distinct ns \<and> (\<forall>n\<in>set ns. good n) \<and> (length xs + 2) ^ 2 < 2 ^ k"

lemma vmap_inv_same:
  assumes "vmap_inv s" and "areas s' = areas s" "vmap_area_root s' = vmap_area_root s" "vmap_area_list s' = vmap_area_list s"
    "vmap_purge_list s' = vmap_purge_list s" "free_vmap_cache s' = free_vmap_cache s" "\<And>p. p \<noteq> 0 \<Longrightarrow> vm_structs s' p = vm_structs s p"
  shows "vmap_inv s'"
proof -
  have ok: "vmap_ok s'" using vmap_inv_ok [OF assms(1)] assms(2-6) sorted_areas_same [of s' s] by (simp add: vmap_ok_def)
  have hv: "has_vm s' x = has_vm s x" "described s' x = described s x" for x using assms(2,7) by (auto simp: has_vm_def described_def)
  show ?thesis using assms(1,2,4,5) ok by (simp add: vmap_inv_def hv)
qed

lemma vmalloc_init_ok:
  assumes "boot_ok xs ns k"
  shows "\<exists>s. vmalloc_init env k (vmap_start xs) ns xs = Inr s \<and> settled s \<and> (\<lambda>x. va_vm (va s x)) ` set (vmap_area_list s) = fst ` set xs"
proof -
  have "\<exists>s'. import_early k (vmap_start xs) ns xs = Inr s' \<and> settled s' \<and>
     (\<lambda>x. va_vm (va s' x)) ` set (vmap_area_list s') = (\<lambda>x. va_vm (va (vmap_start xs) x)) ` set (vmap_area_list (vmap_start xs)) \<union> fst ` set xs"
    by (rule import_early_ok [OF importing_start]) (use assms in \<open>auto simp: boot_ok_def vmap_start_def\<close>)
  then obtain s' where s': "import_early k (vmap_start xs) ns xs = Inr s'" "settled s'" "(\<lambda>x. va_vm (va s' x)) ` set (vmap_area_list s') = fst ` set xs"
    by (auto simp: vmap_start_def)
  have "vmap_inv (s'\<lparr>vmap_area_pcpu_hole := VMALLOC_END env\<rparr>)" by (rule vmap_inv_same [OF settled_inv [OF s'(2)]]) simp_all
  then show ?thesis using s' by (simp add: vmalloc_init_def settled_def has_vm_def)
qed

section \<open>Calls of the interface\<close>

text \<open>
  A request of a caller: \<^verbatim>\<open>kzalloc\<close> and \<^verbatim>\<open>kmalloc\<close> return unused memory with any contents, and the addresses asked
  for do not touch the end of the address space.
\<close>

definition request_step :: "vmap_env \<Rightarrow> nat \<Rightarrow> vmap_state \<Rightarrow> ptr \<Rightarrow> ptr \<Rightarrow> nat \<Rightarrow> nat \<Rightarrow> 64 word \<Rightarrow> nat \<Rightarrow> nat \<Rightarrow> bool" where
  "request_step env k s area n sz i flags start stop \<longleftrightarrow>
     good n \<and> n \<notin> set (vmap_area_list s) \<and> area \<noteq> 0 \<and> vm_structs s area = None \<and> 0 < sz \<and> sz + 2 * PAGE_SIZE \<le> 2 ^ 64 \<and>
     request_ok s (vm_span sz flags) (vm_order env sz i flags) start stop \<and> (length (vmap_area_list s) + 2) ^ 2 < 2 ^ k"

inductive vmap_step :: "vmap_env \<Rightarrow> vmap_state \<Rightarrow> vmap_state \<Rightarrow> bool" for env :: vmap_env where
  get: "request_step env k s area n sz i flags start stop \<Longrightarrow>
    get_vm_area_node env k (kzalloc_area s n a m) area n sz (2 ^ i) flags start stop = Inr (p, s') \<Longrightarrow> vmap_step env s s'"
| remove: "(length (vmap_area_list s) + 1) ^ 2 < 2 ^ k \<Longrightarrow> remove_vm_area env k s addr = Inr (p, s') \<Longrightarrow> vmap_step env s s'"
| free: "(length (vmap_area_list s) + 1) ^ 2 < 2 ^ k \<Longrightarrow> free_vm_area env k s area = Inr s' \<Longrightarrow> vmap_step env s s'"
| unmap: "(length (vmap_area_list s) + 1) ^ 2 < 2 ^ k \<Longrightarrow> vunmap env k s addr = Inr s' \<Longrightarrow> vmap_step env s s'"
| purge: "(length (vmap_area_list s) + 1) ^ 2 < 2 ^ k \<Longrightarrow> purge_vmap_area_lazy env k s = Inr (b, s') \<Longrightarrow> vmap_step env s s'"
| nonlazy: "vmap_step env s (set_iounmap_nonlazy env s)"

inductive vmap_reach :: "vmap_env \<Rightarrow> vmap_state \<Rightarrow> bool" for env :: vmap_env where
  boot: "boot_ok xs ns k \<Longrightarrow> vmalloc_init env k (vmap_start xs) ns xs = Inr s \<Longrightarrow> vmap_reach env s"
| step: "vmap_reach env s \<Longrightarrow> vmap_step env s s' \<Longrightarrow> vmap_reach env s'"

lemma kzalloc_fresh: "good n \<Longrightarrow> n \<notin> set (vmap_area_list s) \<Longrightarrow> fresh_area (kzalloc_area s n a m) n"
  by (simp add: fresh_area_def kzalloc_simps)

lemma kzalloc_request:
  "n \<notin> set (vmap_area_list s) \<Longrightarrow> request_ok (kzalloc_area s n a m) sz i start stop = request_ok s sz i start stop"
  by (auto simp: request_ok_def kzalloc_simps)

lemma get_step_ok:
  assumes i: "vmap_inv s" and r: "request_step env k s area n sz i flags start stop"
  obtains (Got) s' where "get_vm_area_node env k (kzalloc_area s n a m) area n sz (2 ^ i) flags start stop = Inr (area, s')" "vmap_inv s'" "keeps_vms s s'" "only_adds s s'"
      "reserved_area s' area sz (2 ^ vm_order env sz i flags) (vm_span sz flags) flags start stop"
    | (None) s' where "get_vm_area_node env k (kzalloc_area s n a m) area n sz (2 ^ i) flags start stop = Inr (0, s')" "vmap_inv s'" "keeps_vms s s'" "only_adds s s'"
proof -
  let ?s = "kzalloc_area s n a m"
  note R = r [unfolded request_step_def]
  have "vmap_inv ?s" "fresh_area ?s n" "area \<noteq> 0" "vm_structs ?s area = None" "0 < sz" "sz + 2 * PAGE_SIZE \<le> 2 ^ 64"
    "request_ok ?s (vm_span sz flags) (vm_order env sz i flags) start stop" "(length (vmap_area_list ?s) + 2) ^ 2 < 2 ^ k"
    using R kzalloc_inv [OF i] kzalloc_fresh kzalloc_request by (simp_all add: kzalloc_simps)
  moreover have "keeps_vms s s'" if "keeps_vms ?s s'" for s'
    unfolding keeps_vms_def
  proof (intro ballI impI)
    fix x
    assume x: "x \<in> set (vmap_area_list s)" "has_vm s x"
    then have "x \<noteq> n" using R by auto
    then show "x \<in> set (vmap_area_list s') \<and> areas s' x = areas s x" using that x by (simp add: keeps_vms_def has_vm_def kzalloc_simps)
  qed
  moreover have "only_adds s s'" if "only_adds ?s s'" for s' using that R by (auto simp: only_adds_def kzalloc_simps)
  ultimately show thesis using that by (rule_tac get_vm_area_node_ok [of ?s n area sz flags env i start stop k]) blast+
qed

lemma settled_mono:
  assumes "settled s" and "vmap_inv s'"
    and "\<And>x. x \<in> set (vmap_area_list s') \<Longrightarrow> x \<in> set (vmap_area_list s) \<and> areas s' x = areas s x \<or> has_vm s' x \<or> va_vm (va s' x) = 0"
  shows "settled s'"
  unfolding settled_def
proof (intro conjI ballI assms(2))
  fix x
  assume "x \<in> set (vmap_area_list s')"
  from assms(3) [OF this] show "has_vm s' x \<or> va_vm (va s' x) = 0" using assms(1) by (auto simp: settled_def has_vm_def)
qed

lemma unmapped_settled:
  assumes s: "settled s" and n: "n \<in> set (vmap_area_list s)" and s1: "vmap_ok s1" "unmapped s n s1"
  shows "settled s1"
proof (rule settled_mono [OF s unmapped_inv(1) [OF settled_inv [OF s] n s1]])
  fix x
  assume "x \<in> set (vmap_area_list s1)"
  then show "x \<in> set (vmap_area_list s) \<and> areas s1 x = areas s x \<or> has_vm s1 x \<or> va_vm (va s1 x) = 0"
    using unmapped_inv(3,5,6) [OF settled_inv [OF s] n s1] by (cases "x = n") auto
qed

lemma kfree_settled:
  assumes s: "settled s" and n: "n \<in> set (vmap_area_list s)" "has_vm s n" and s1: "vmap_ok s1" "unmapped s n s1"
  shows "settled (s1\<lparr>vm_structs := (vm_structs s1)(va_vm (va s n) := None)\<rparr>)"
  by (rule settled_mono [OF unmapped_settled [OF s n(1) s1] kfree_descriptor [OF settled_inv [OF s] n s1]]) simp

lemma free_any_ok:
  assumes i: "settled s" and k: "(length (vmap_area_list s) + 1) ^ 2 < 2 ^ k" and f: "free_vm_area env k s area = Inr s'"
  shows "settled s'"
proof -
  obtain v where v: "vm_structs s area = Some v" using f by (auto simp: free_vm_area_def split: option.splits)
  from settled_inv [OF i] k show ?thesis
  proof (cases rule: remove_vm_area_ok [where addr = "vm_addr v" and env = env])
    case (Removed n s1)
    then have "s' = s1\<lparr>vm_structs := (vm_structs s1)(va_vm (va s n) := None)\<rparr>" using f v by (auto simp: free_vm_area_def split: if_splits)
    then show ?thesis using kfree_settled [OF i Removed(2,4,5,6)] by simp
  next
    case Nothing
    then have s': "s' = s\<lparr>vm_structs := (vm_structs s)(0 := None)\<rparr>" using f v by (auto simp: free_vm_area_def split: if_splits)
    then have "vmap_inv s'" by (intro vmap_inv_same [OF settled_inv [OF i]]) simp_all
    then show ?thesis by (rule settled_mono [OF i]) (simp add: s')
  qed
qed

lemma vunmap_any_ok:
  assumes i: "settled s" and k: "(length (vmap_area_list s) + 1) ^ 2 < 2 ^ k" and f: "vunmap env k s addr = Inr s'"
  shows "settled s'"
proof (cases "addr = 0 \<or> \<not> is_aligned64 addr PAGE_SIZE")
  case True
  then show ?thesis using f i by (auto simp: vunmap_def do_vunmap_def split: if_splits)
next
  case False
  note inv = settled_inv [OF i]
  from vmap_inv_ok [OF inv] k show ?thesis
  proof (cases rule: find_vmap_area_ok [where addr = addr])
    case (Hit n)
    have a: "area_at s n = Inr (va s n)" using vmap_inv_ok [OF inv] Hit(3) sorted_areas_ok area_at_Inr by (auto simp: vmap_ok_def)
    show ?thesis
    proof (cases "has_vm s n")
      case True
      then obtain s1 where "vunmap env k s addr = Inr (s1\<lparr>vm_structs := (vm_structs s1)(va_vm (va s n) := None)\<rparr>)" "vmap_ok s1" "unmapped s n s1"
        using vunmap_ok [OF inv Hit(3) _ Hit(4)] False k by blast
      then show ?thesis using kfree_settled [OF i Hit(3) True] f by auto
    next
      case no: False
      then have "va_vm (va s n) = 0" using i Hit(3) by (auto simp: settled_def)
      then show ?thesis using f False Hit a i by (simp add: vunmap_def do_vunmap_def)
    qed
  qed (use f False in \<open>simp add: vunmap_def do_vunmap_def\<close>)
qed

lemma purge_settled:
  assumes i: "settled s" and k: "(length (vmap_area_list s) + 1) ^ 2 < 2 ^ k" and p: "purge_vmap_area_lazy env k s = Inr (b, s')"
  shows "settled s'"
proof -
  have s': "vmap_ok s'" "vmap_purge_list s' = []" "vmap_area_list s' = filter (\<lambda>x. x \<notin> set (vmap_purge_list s)) (vmap_area_list s)"
    "frees s (set (vmap_purge_list s)) s'"
    by (rule purge_ok [OF vmap_inv_ok [OF settled_inv [OF i]] k, of env]; use p in simp)+
  have same: "x \<in> set (vmap_area_list s) \<and> areas s' x = areas s x" if "x \<in> set (vmap_area_list s')" for x
    using s'(3,4) that by (auto simp: frees_def)
  have "vm_structs s' = vm_structs s" using s'(4) by (simp add: frees_def)
  then have "vmap_inv s'" using same s'(2) by (intro vmap_inv_mono [OF settled_inv [OF i] s'(1)]) simp_all
  then show ?thesis using settled_mono [OF i] same by blast
qed

lemma vmap_step_settled:
  assumes "vmap_step env s s'" and i: "settled s"
  shows "settled s'"
  using assms(1)
proof cases
  case (get k area n sz i' flags start stop a m p)
  have "vmap_inv s' \<and> only_adds s s'" by (rule get_step_ok [OF settled_inv [OF i] get(1), of a m]) (use get(2) in auto)
  then show ?thesis using settled_mono [OF i] by (auto simp: only_adds_def)
next
  case (remove k addr p)
  from settled_inv [OF i] remove(1) show ?thesis
    by (cases rule: remove_vm_area_ok [where addr = addr and env = env]) (use remove(2) i unmapped_settled in auto)
next
  case (nonlazy)
  have "vmap_inv s'" by (rule vmap_inv_same [OF settled_inv [OF i]]) (simp_all add: nonlazy set_iounmap_nonlazy_def)
  then show ?thesis by (rule settled_mono [OF i]) (simp add: nonlazy set_iounmap_nonlazy_def)
qed (use i free_any_ok vunmap_any_ok purge_settled in blast)+

lemma vmap_reach_settled: "vmap_reach env s \<Longrightarrow> settled s"
proof (induction rule: vmap_reach.induct)
  case (boot xs ns k s)
  then show ?case using vmalloc_init_ok [OF boot(1), of env] by auto
next
  case (step s s')
  then show ?case using vmap_step_settled by blast
qed

end
