(* ===== verification/Vmap_Properties.thy ===== *)
theory Vmap_Properties
  imports Vmap_Boot
begin

text \<open>
  What the allocator of kernel virtual addresses promises: the states it can be in, where an allocation is
  placed, what reserving and freeing an area do, and where releasing an address goes wrong.
\<close>

definition demo_env :: vmap_env where
  "demo_env = \<lparr>VMALLOC_START = 0x10000, VMALLOC_END = 0x100000, nr_possible_cpu_ids = 4, IOREMAP_MAX_ORDER = 30\<rparr>"

definition demo_early :: early_list where
  "demo_early = [(512, \<lparr>vm_addr = 0x10000, vm_size = 0x3000, vm_flags = 2\<rparr>), (1024, \<lparr>vm_addr = 0x20000, vm_size = 0x1000, vm_flags = 2\<rparr>)]"

lemma demo_boot: "boot_ok demo_early [64, 128] 5"
  by (simp add: boot_ok_def early_ok_def early_vm_def demo_early_def good_def power2_eq_square)

lemma settled_disjoint:
  assumes "settled s" and x: "x \<in> set (vmap_area_list s)" and y: "y \<in> set (vmap_area_list s)" and ne: "x \<noteq> y"
  shows "before s x y \<or> before s y x"
proof -
  have "sorted_wrt (before s) (vmap_area_list s)" using assms(1) by (simp add: settled_def vmap_inv_def vmap_ok_def sorted_areas_def)
  moreover obtain i j where "i < length (vmap_area_list s)" "j < length (vmap_area_list s)" "vmap_area_list s ! i = x" "vmap_area_list s ! j = y"
    using x y by (metis in_set_conv_nth)
  ultimately show ?thesis using ne by (metis linorder_neqE_nat sorted_wrt_iff_nth_less)
qed

text \<open>
  C37: From boot on, over any calls of the interface - reserving an area, removing, freeing or unmapping one,
  purging - tree and list hold the same areas in the order of their addresses, no two areas overlap, every
  area with a descriptor agrees with it and none waits to be purged twice; and no call that removes an
  area or purges can fault.
\<close>

theorem vmap_reach_invariant:
  assumes "vmap_reach env s"
  shows "settled s \<and>
    (\<forall>x\<in>set (vmap_area_list s). \<forall>y\<in>set (vmap_area_list s). x \<noteq> y \<longrightarrow> va_end (va s x) \<le> va_start (va s y) \<or> va_end (va s y) \<le> va_start (va s x)) \<and>
    (\<forall>k. (length (vmap_area_list s) + 1) ^ 2 < 2 ^ k \<longrightarrow>
      (\<forall>addr. \<exists>p s'. remove_vm_area env k s addr = Inr (p, s')) \<and> (\<exists>b s'. purge_vmap_area_lazy env k s = Inr (b, s') \<and> vmap_purge_list s' = []))"
proof -
  have S: "settled s" by (rule vmap_reach_settled [OF assms])
  have "\<exists>p s'. remove_vm_area env k s addr = Inr (p, s')" if "(length (vmap_area_list s) + 1) ^ 2 < 2 ^ k" for k addr
    by (rule remove_vm_area_ok [OF settled_inv [OF S] that]) blast+
  moreover have "\<exists>b s'. purge_vmap_area_lazy env k s = Inr (b, s') \<and> vmap_purge_list s' = []" if "(length (vmap_area_list s) + 1) ^ 2 < 2 ^ k" for k
    by (rule purge_ok [OF vmap_inv_ok [OF settled_inv [OF S]] that]) blast
  ultimately show ?thesis using S settled_disjoint [OF S] unfolding before_def by blast
qed

theorem vmap_reach_invariant_witness:
  "\<exists>s. vmalloc_init demo_env 5 (vmap_start demo_early) [64, 128] demo_early = Inr s \<and> settled s \<and>
     (\<lambda>x. va_vm (va s x)) ` set (vmap_area_list s) = {512, 1024}"
proof -
  obtain s where s: "vmalloc_init demo_env 5 (vmap_start demo_early) [64, 128] demo_early = Inr s"
    "(\<lambda>x. va_vm (va s x)) ` set (vmap_area_list s) = fst ` set demo_early" using vmalloc_init_ok [OF demo_boot] by blast
  have "vmap_reach demo_env s" using demo_boot s(1) by (rule vmap_reach.boot)
  then have "settled s" using vmap_reach_invariant by blast
  then show ?thesis using s by (auto simp: demo_early_def)
qed

text \<open>
  C38: An allocation never faults.  It returns an area of the size asked for at an aligned address within the
  range that overlaps no other area, or -EBUSY after the lazily released areas have been purged; apart from
  purged ones every area is kept.  Without a cached area the search is first fit: when a hole exists
  the allocation succeeds, at or below the hole.
\<close>

theorem alloc_vmap_area_first_fit:
  assumes "vmap_ok s" and "fresh_area s n" and "request_ok s sz i vstart vend" and "(length (vmap_area_list s) + 2) ^ 2 < 2 ^ k"
  shows "\<exists>err s' xs. alloc_vmap_area env k s n sz (2 ^ i) vstart vend = Inr (err, s') \<and> vmap_ok s' \<and>
    (xs = vmap_area_list s \<or> xs = filter (\<lambda>x. x \<notin> set (vmap_purge_list s)) (vmap_area_list s)) \<and>
    (err = 0 \<and> (\<exists>a. allocated s xs n a sz s' \<and> vstart \<le> a \<and> hole_at s xs sz (2 ^ i) vend a) \<or>
     err = - EBUSY \<and> vmap_area_list s' = xs \<and> vmap_purge_list s' = [] \<and> areas s' n = None \<and> (\<forall>x\<in>set xs. areas s' x = areas s x)) \<and>
    (\<forall>b. free_vmap_cache s = 0 \<and> vstart \<le> b \<and> hole_at s (vmap_area_list s) sz (2 ^ i) vend b \<longrightarrow> err = 0 \<and> va_start (va s' n) \<le> b)"
  using assms
proof (cases rule: alloc_vmap_area_ok [where env = env])
  case (Direct a s')
  then have "free_vmap_cache s = 0 \<and> vstart \<le> b \<and> hole_at s (vmap_area_list s) sz (2 ^ i) vend b \<longrightarrow> va_start (va s' n) \<le> b" for b
    by (auto simp: allocated_def not_less)
  then show ?thesis using Direct by (intro exI [of _ 0] exI [of _ s'] exI [of _ "vmap_area_list s"]) blast
next
  case (Retry a s' xs)
  then show ?thesis by (intro exI [of _ 0] exI [of _ s'] exI [of _ xs]) blast
next
  case (Busy s')
  then show ?thesis by (intro exI [of _ "- EBUSY"] exI [of _ s'] exI [of _ "vmap_area_list s'"]) blast
qed

definition demo_area :: vmap_area where
  "demo_area = \<lparr>va_start = 0, va_end = 0, va_flags = 0, va_vm = 0\<rparr>"

lemma demo_empty: "vmap_ok (kzalloc_area (vmap_start []) 64 demo_area zero_node)"
proof -
  have "vmap_ok (vmap_start [])" using importing_start [of "[]"] by (simp add: early_ok_def importing_def vmap_inv_def)
  then show ?thesis by (rule kzalloc_ok) (simp add: vmap_start_def)
qed

theorem alloc_vmap_area_first_fit_witness:
  "\<exists>s'. alloc_vmap_area demo_env 3 (kzalloc_area (vmap_start []) 64 demo_area zero_node) 64 0x2000 (2 ^ 14) 0x10000 0x100000 = Inr (0, s') \<and>
     vmap_ok s' \<and> va_start (va s' 64) = 0x10000 \<and> va_end (va s' 64) = 0x12000"
proof -
  let ?s = "kzalloc_area (vmap_start []) 64 demo_area zero_node"
  have l: "vmap_area_list ?s = []" "free_vmap_cache ?s = 0" by (simp_all add: vmap_start_def kzalloc_area_def)
  have f: "fresh_area ?s 64" by (rule kzalloc_fresh) (simp_all add: good_def vmap_start_def)
  have r: "request_ok ?s 0x2000 14 0x10000 0x100000" by (simp add: request_ok_def l PAGE_SIZE_def PAGE_SHIFT_def)
  have k: "(length (vmap_area_list ?s) + 2) ^ 2 < 2 ^ 3" by (simp add: l power2_eq_square)
  obtain err s' xs where t: "alloc_vmap_area demo_env 3 ?s 64 0x2000 (2 ^ 14) 0x10000 0x100000 = Inr (err, s')" "vmap_ok s'"
    "err = 0 \<and> (\<exists>a. allocated ?s xs 64 a 0x2000 s' \<and> 0x10000 \<le> a \<and> hole_at ?s xs 0x2000 (2 ^ 14) 0x100000 a) \<or> err = - EBUSY \<and> True"
    "\<forall>b. free_vmap_cache ?s = 0 \<and> 0x10000 \<le> b \<and> hole_at ?s (vmap_area_list ?s) 0x2000 (2 ^ 14) 0x100000 b \<longrightarrow> err = 0 \<and> va_start (va s' 64) \<le> b"
    using alloc_vmap_area_first_fit [OF demo_empty f r k, of demo_env] by blast
  have "hole_at ?s (vmap_area_list ?s) 0x2000 (2 ^ 14) 0x100000 0x10000" by (simp add: hole_at_def l)
  then have e: "err = 0" "va_start (va s' 64) \<le> 0x10000" using t(4) l(2) by blast+
  then obtain a where "allocated ?s xs 64 a 0x2000 s'" "0x10000 \<le> a" using t(3) by (auto simp: EBUSY_def)
  then show ?thesis using t(1,2) e by (intro exI [of _ s']) (auto simp: allocated_def)
qed

text \<open>
  C39: Reserving addresses in any reachable state either fails, or returns a descriptor whose area lies in the range,
  is aligned as asked, and has room for the size and a guard page.  Either way the areas reserved before are kept.
  Freeing the descriptor then succeeds, leaves no area that refers to it, and changes no other area with a descriptor.
\<close>

theorem get_free_vm_area:
  assumes "vmap_reach env s" and "request_step env k s area n sz i flags start stop"
  shows "\<exists>p s'. get_vm_area_node env k (kzalloc_area s n a m) area n sz (2 ^ i) flags start stop = Inr (p, s') \<and> vmap_reach env s' \<and> keeps_vms s s' \<and>
    (p = 0 \<or> p = area \<and> reserved_area s' area sz (2 ^ vm_order env sz i flags) (vm_span sz flags) flags start stop \<and>
       (\<forall>k'. (length (vmap_area_list s') + 1) ^ 2 < 2 ^ k' \<longrightarrow>
         (\<exists>s''. free_vm_area env k' s' area = Inr s'' \<and> vmap_reach env s'' \<and> keeps_vms s s'' \<and> vm_structs s'' area = None \<and>
            (\<forall>x\<in>set (vmap_area_list s''). has_vm s'' x \<longrightarrow> x \<in> set (vmap_area_list s') \<and> areas s'' x = areas s' x \<and> va_vm (va s'' x) \<noteq> area))))"
  using settled_inv [OF vmap_reach_settled [OF assms(1)]] assms(2)
proof (cases rule: get_step_ok [where a = a and m = m])
  case (Got s')
  have reach: "vmap_reach env s'" using assms(1) vmap_step.get [OF assms(2) Got(1)] by (rule vmap_reach.step)
  obtain x where x: "x \<in> set (vmap_area_list s')" "has_vm s' x" "va_vm (va s' x) = area" using Got(5) by (auto simp: reserved_area_def)
  have "area \<noteq> 0" "vm_structs s area = None" using assms(2) by (auto simp: request_step_def)
  have free: "\<exists>s''. free_vm_area env k' s' area = Inr s'' \<and> vmap_reach env s'' \<and> keeps_vms s s'' \<and> vm_structs s'' area = None \<and>
      (\<forall>y\<in>set (vmap_area_list s''). has_vm s'' y \<longrightarrow> y \<in> set (vmap_area_list s') \<and> areas s'' y = areas s' y \<and> va_vm (va s'' y) \<noteq> area)"
    if k': "(length (vmap_area_list s') + 1) ^ 2 < 2 ^ k'" for k'
  proof -
    obtain s1 where s1: "free_vm_area env k' s' area = Inr (s1\<lparr>vm_structs := (vm_structs s1)(area := None)\<rparr>)" "vmap_ok s1" "unmapped s' x s1"
      using free_vm_area_ok [OF Got(2) x(1,2) k', of env] x(3) by blast
    note U = unmapped_inv [OF Got(2) x(1) s1(2,3)]
    let ?s'' = "s1\<lparr>vm_structs := (vm_structs s1)(area := None)\<rparr>"
    have xs: "x \<noteq> y" if "y \<in> set (vmap_area_list s)" "has_vm s y" for y
    proof
      assume "x = y"
      then have "va_vm (va s y) = area" using Got(3) that x(3) by (auto simp: keeps_vms_def)
      moreover have "described s y" using settled_inv [OF vmap_reach_settled [OF assms(1)]] that by (simp add: vmap_inv_def)
      ultimately show False using \<open>vm_structs s area = None\<close> by (auto simp: described_def)
    qed
    have "vmap_reach env ?s''" by (rule vmap_reach.step [OF reach vmap_step.free [OF k' s1(1)]])
    moreover have "keeps_vms s ?s''" unfolding keeps_vms_def
    proof (intro ballI impI)
      fix y
      assume y: "y \<in> set (vmap_area_list s)" "has_vm s y"
      then have y': "y \<in> set (vmap_area_list s')" "areas s' y = areas s y" using Got(3) by (auto simp: keeps_vms_def)
      then have "has_vm s' y" "y \<noteq> x" using y xs by (auto simp: has_vm_def)
      then show "y \<in> set (vmap_area_list ?s'') \<and> areas ?s'' y = areas s y" using U(6) U(7) y' by simp
    qed
    moreover have "\<forall>y\<in>set (vmap_area_list ?s''). has_vm ?s'' y \<longrightarrow> y \<in> set (vmap_area_list s') \<and> areas ?s'' y = areas s' y \<and> va_vm (va ?s'' y) \<noteq> area"
    proof (intro ballI impI)
      fix y
      assume y: "y \<in> set (vmap_area_list ?s'')" "has_vm ?s'' y"
      have y1: "y \<in> set (vmap_area_list s1)" "has_vm s1 y" using y by (simp_all add: has_vm_def)
      then have "y \<noteq> x" "y \<in> set (vmap_area_list s')" "areas s1 y = areas s' y" using U(3,4,6) by auto
      moreover have "va_vm (va s1 y) \<noteq> area" using Got(2) x y1(2) calculation by (auto simp: vmap_inv_def has_vm_def)
      ultimately show "y \<in> set (vmap_area_list s') \<and> areas ?s'' y = areas s' y \<and> va_vm (va ?s'' y) \<noteq> area" by simp
    qed
    moreover have "vm_structs ?s'' area = None" by simp
    ultimately show ?thesis using s1(1) by blast
  qed
  show ?thesis using Got(1,3,5) reach free by blast
next
  case (None s')
  have "vmap_reach env s'" using assms(1) vmap_step.get [OF assms(2) None(1)] by (rule vmap_reach.step)
  then show ?thesis using None(1,3) by blast
qed

theorem get_free_vm_area_witness:
  "\<exists>s p s'. vmalloc_init demo_env 5 (vmap_start []) [] [] = Inr s \<and>
     get_vm_area_node demo_env 3 (kzalloc_area s 64 demo_area zero_node) 512 64 100 (2 ^ 0) 2 0x10000 0x100000 = Inr (p, s') \<and>
     vmap_reach demo_env s' \<and> keeps_vms s s'"
proof -
  have b: "boot_ok [] [] 5" by (simp add: boot_ok_def early_ok_def power2_eq_square)
  let ?s = "(vmap_start [])\<lparr>vmap_area_pcpu_hole := VMALLOC_END demo_env\<rparr>"
  have s: "vmalloc_init demo_env 5 (vmap_start []) [] [] = Inr ?s" by (simp add: vmalloc_init_def)
  have reach: "vmap_reach demo_env ?s" using b s by (rule vmap_reach.boot)
  have flags: "(2 :: 64 word) AND VM_NO_GUARD = 0" "(2 :: 64 word) AND VM_IOREMAP = 0" by (simp_all add: VM_NO_GUARD_def VM_IOREMAP_def)
  have "request_step demo_env 3 ?s 512 64 100 0 2 0x10000 0x100000"
    by (simp add: request_step_def request_ok_def vm_span_def vm_order_def flags good_def vmap_start_def PAGE_SIZE_def PAGE_SHIFT_def power2_eq_square)
  then show ?thesis using get_free_vm_area [OF reach, of 3 512 64 100 0 2 "0x10000" "0x100000" demo_area zero_node] s by blast
qed

text \<open>
  C40: Releasing a page-aligned address that no area covers does not end with the warning the code prepares for this
  case: the descriptor is read through a null pointer before it is tested.
\<close>

theorem vunmap_unmapped_faults:
  assumes "vmap_reach env s" and "(length (vmap_area_list s) + 1) ^ 2 < 2 ^ k" and "addr \<noteq> 0" and "addr mod PAGE_SIZE = 0"
    and "\<forall>x\<in>set (vmap_area_list s). addr < va_start (va s x) \<or> va_end (va s x) \<le> addr"
  shows "vunmap env k s addr = Inl Oob"
proof -
  have "is_aligned64 addr (2 ^ 12)" using assms(4) is_aligned64_iff [of 12 addr] by (simp add: PAGE_pow mod_eq_0_iff_dvd)
  then show ?thesis
    using assms vmap_inv_ok [OF settled_inv [OF vmap_reach_settled [OF assms(1)]]] by (intro vunmap_faults) (auto simp: PAGE_pow)
qed

theorem vunmap_unmapped_faults_witness:
  "\<exists>s. vmalloc_init demo_env 5 (vmap_start []) [] [] = Inr s \<and> vunmap demo_env 2 s 0x40000 = Inl Oob"
proof -
  have b: "boot_ok [] [] 5" by (simp add: boot_ok_def early_ok_def power2_eq_square)
  let ?s = "(vmap_start [])\<lparr>vmap_area_pcpu_hole := VMALLOC_END demo_env\<rparr>"
  have s: "vmalloc_init demo_env 5 (vmap_start []) [] [] = Inr ?s" by (simp add: vmalloc_init_def)
  have "vmap_reach demo_env ?s" using b s by (rule vmap_reach.boot)
  then have "vunmap demo_env 2 ?s 0x40000 = Inl Oob"
    by (rule vunmap_unmapped_faults) (simp_all add: vmap_start_def PAGE_SIZE_def PAGE_SHIFT_def)
  then show ?thesis using s by blast
qed

end
