(* ===== verification/Spec2Isabelle.thy ===== *)
theory Spec2Isabelle
  imports Memblock_Reach Bitmap_Properties Strings_Properties Page_Properties Kstrtox_Properties Rbtree_Properties Vmap_Properties
begin

text \<open>
  A verification development of a small arm64 kernel: the boot memory allocator, the page allocator,
  the allocator of kernel virtual addresses, the red-black trees, the bit maps and bit searches, the string library and the conversion of text to
  numbers.

  \<^bold>\<open>The program.\<close>  At boot, \<^verbatim>\<open>drivers/of/fdt.c\<close> reads the memory map from the device tree and registers it
  with the boot allocator, \<^verbatim>\<open>mm/memblock.c\<close>, which keeps two sorted arrays of address regions (memory and
  reservations) and hands out blocks from the difference.  \<^verbatim>\<open>mm/page_alloc.c\<close> then sets up one descriptor
  per page frame and one zone record per zone, the boot allocator releases what is free to it, and from
  there on pages come from the free lists of a buddy allocator with a per-CPU list in front.  \<^verbatim>\<open>mm/vmalloc.c\<close> hands out
  ranges of kernel virtual addresses, which it keeps in a red-black tree.  The data
  structures below are libraries of these and of the rest of the kernel: bit arrays
  (\<^verbatim>\<open>lib/ulib/bitmap.c\<close>, \<^verbatim>\<open>lib/ulib/find_bit.c\<close>), strings (\<^verbatim>\<open>lib/ulib/string.c\<close>), numbers in text
  (\<^verbatim>\<open>lib/ulib/kstrtox.c\<close>) and ordered trees (\<^verbatim>\<open>lib/ulib/rbtree.c\<close>).

  \<^bold>\<open>Conventions.\<close>  \<open>Kernel_Prelude\<close> holds what the theories share.  A call returns \<open>Inr\<close> of its result or
  \<open>Inl\<close> of a fault: \<open>Bug\<close> for a \<^verbatim>\<open>BUG_ON\<close> or a panic, \<open>Oob\<close> for an access outside the memory of the model,
  \<open>Undef\<close> for a use of a value that nothing has written, \<open>Spin\<close> for a loop whose condition its body can
  never change, \<open>Fuel\<close> when the bound given to a loop was too small.  Theorems that say that a call
  returns \<open>Inr\<close> therefore say that it ends and does none of these.  Integers are words where the code
  works on bits or may wrap and natural numbers with the reduction written out (\<open>add64\<close>, \<open>sub64\<close>) where it
  adds addresses; error codes are negative integers, as in the code.

  \<^bold>\<open>Boot allocator\<close> (\<^verbatim>\<open>mm/memblock.c\<close>, \<^verbatim>\<open>include/linux/memblock.h\<close>).  \<open>Memblock_Regions\<close> models one region
  array (a record \<open>memblock_type\<close>) and the operations on it, \<open>Memblock\<close> both arrays (a record \<open>memblock\<close>)
  and the interface: adding, removing, reserving, releasing, flags, the iterators over free ranges, the
  search for a free area, allocation and the growth of the arrays.  \<open>Memblock_Lists\<close>, \<open>Memblock_Cuts\<close>,
  \<open>Memblock_Find\<close> and \<open>Memblock_Growth\<close> relate the arrays to the map from addresses to flags they stand
  for; a locale describes what a way to enlarge an array must keep, and doubling is an instance.
  \<open>Memblock_Spec\<close> states the results: every operation refines the operation on address maps, the search
  returns aligned unreserved memory, the queries answer from the address maps, and
  what the iterator over page frames and the movable flag really do.  \<open>Memblock_Total\<close> shows that an
  allocation returns, reserving what it hands out, also when the array of reservations has to grow;
  \<open>Memblock_Fuel\<close> that the bound on the recursion of \<^verbatim>\<open>memblock_double_array\<close> does not matter to a call that
  returns, and that all return until resizing is allowed; \<open>Memblock_Reach\<close> lists the calls of the interface
  (\<open>mb_call\<close>) with the bounds on their arguments (\<open>call_ok\<close>) and shows that every state they reach is sorted,
  disjoint, within capacity and has the right totals.  \<^verbatim>\<open>memblock_trim_memory\<close> is not among these calls: it
  breaks \<open>total_size\<close>, as a lemma there shows, and nothing calls it.

  \<^bold>\<open>Bits\<close> (\<^verbatim>\<open>lib/ulib/find_bit.c\<close>, \<^verbatim>\<open>lib/ulib/bitmap.c\<close>, \<^verbatim>\<open>lib/ulib/hweight.c\<close>, the headers under
  \<^verbatim>\<open>include/asm-generic/bitops\<close>).  \<open>Bitops\<close> and \<open>Hweight\<close> model the single-word operations and prove the
  word-wise searches and the branch-free population counts equal to bit-by-bit definitions.  \<open>Bitmap\<close>,
  \<open>Bitmap_Arr32\<close> and \<open>Bitmap_Regions\<close> model the bit array operations; \<open>Bitmap_Spec\<close>, \<open>Bitmap_Shifts\<close>,
  \<open>Bitmap_Maps\<close> and \<open>Bitmap_Area\<close> say what each does to every bit; \<open>Bitmap_Properties\<close> states the results.

  \<^bold>\<open>Strings\<close> (\<^verbatim>\<open>lib/ulib/string.c\<close>, \<^verbatim>\<open>lib/ulib/ctype.c\<close>, \<^verbatim>\<open>asm/word-at-a-time.h\<close>).  Memory is a list of bytes
  and a pointer an index.  \<open>Ctype\<close> models the character table, \<open>Strings\<close> every routine; \<open>Strings_Spec\<close>,
  \<open>Strings_Copy\<close> and \<open>Strings_Word\<close> relate them to operations on lists, with the word-at-a-time copy and
  search proved equal to the byte-wise ones; \<open>Strings_Properties\<close> states the results.

  \<^bold>\<open>Numbers\<close> (\<^verbatim>\<open>lib/ulib/kstrtox.c\<close>).  \<open>Kstrtox\<close> models the parsers and proves the digit loop, with its test
  against overflow, correct; \<open>Kstrtox_Properties\<close> gives a grammar of numbers and proves that the routines
  accept exactly this grammar, with the narrowing to each type as instances of one locale.

  \<^bold>\<open>Pages\<close> (\<^verbatim>\<open>mm/page_alloc.c\<close>, \<^verbatim>\<open>include/linux/mm_types.h\<close>, \<^verbatim>\<open>page-flags.h\<close>, \<^verbatim>\<open>page_ref.h\<close>, \<^verbatim>\<open>page.h\<close>,
  \<^verbatim>\<open>mmzone.h\<close>, \<^verbatim>\<open>gfp.h\<close>).  \<open>Page\<close> models the descriptor (a record \<open>page\<close>, with the unions of the code as
  fields that overwrite each other), its flags and reference counts; \<open>Page_Alloc\<close> the zone record, the buddy
  lists and the checks; \<open>Page_Frontend\<close> the per-CPU lists, the entry points \<^verbatim>\<open>__alloc_pages\<close> and
  \<^verbatim>\<open>__free_pages\<close> and the set-up of zones.  \<open>Buddy_Map\<close> is the abstract buddy system (a partial map from
  block starts to orders), \<open>Buddy_Zone\<close> the simulation of one zone by it, \<open>Page_Inv\<close>, \<open>Page_Node\<close>,
  \<open>Page_Take\<close>, \<open>Page_Init\<close> and \<open>Page_Boot\<close> the invariant of the node and that every operation keeps it.
  \<open>Page_Contract\<close> states the contract of a page allocator as a locale (what an allocation takes and what
  a release gives back), proves that any sequence of allocations and releases balances, and
  \<open>Page_Properties\<close> interprets it on the code's model and states the results.

  \<^bold>\<open>Red-black trees\<close> (\<^verbatim>\<open>lib/ulib/rbtree.c\<close>, \<^verbatim>\<open>include/linux/rbtree.h\<close>, \<^verbatim>\<open>rbree_augmented.h\<close>).  \<open>Rbtree\<close> models the
  nodes as a heap from addresses to records with the parent and the colour in one word, as in the code,
  and every routine on it.  \<open>Rbtree_Abs\<close> defines the rebalancing on trees with a hole and proves that it keeps
  order and balance; \<open>Rbtree_Heap\<close>, \<open>Rbtree_Insert\<close>, \<open>Rbtree_Walk\<close>, \<open>Rbtree_Erase\<close> and \<open>Rbtree_Remove\<close> prove
  that the routines on the heap refine it; \<open>Rbtree_Properties\<close> states the results for a client that sees a
  sequence of nodes.  A locale describes a walk over such a sequence; the three walks of the code are
  instances.

  \<^bold>\<open>Kernel virtual addresses\<close> (\<^verbatim>\<open>mm/vmalloc.c\<close>, \<^verbatim>\<open>include/linux/vmalloc.h\<close>).  \<open>Vmap\<close> models the areas (a record
  \<open>vmap_state\<close> with the tree of the red-black library, the sorted list, the list of lazily released areas and the
  cache of the search) and every operation on them from the registration of descriptors during boot to
  \<^verbatim>\<open>vmap\<close> and \<^verbatim>\<open>vunmap\<close>; memory for areas and descriptors, which the slab allocator provides, is an argument.
  \<open>Rbtree_Client\<close> says what a client of the trees may rely on.  \<open>Vmap_Spec\<close> has the invariant and the loops that
  descend the tree, \<open>Vmap_Ops\<close> insertion, release and purging, \<open>Vmap_Alloc\<close> the search for a hole, which is first
  fit above the cached area, \<open>Vmap_Areas\<close> areas with descriptors, \<open>Vmap_Boot\<close> the initialisation and
  the relation of reachable states; \<open>Vmap_Properties\<close> states the results.

  \<^bold>\<open>Bounds and fuel.\<close>  Recursion that follows the code's loops takes its termination from the data wherever
  that is possible.  The loops of the free area search, of \<^verbatim>\<open>rmqueue\<close> and of the trees take a bound; the
  theorems show which bound is enough (the number of regions, the weight of a zone's free lists, twice the
  logarithm of the number of nodes), so the result does not depend on it.  The mutual recursion through
  \<^verbatim>\<open>memblock_double_array\<close> takes a bound on its depth: two is enough for every allocation, one for every call while
  the arrays may not be resized, and a larger one never changes a result.  That a call that adds or removes an
  arbitrary range returns while its array grows is not claimed: the number of missing regions is counted before
  the array moves, and the move itself may free the old array inside the range.  \<^verbatim>\<open>bitmap_find_free_region\<close>, whose
  32-bit positions may wrap, is a partial function; it is shown to return where they do not.

  \<^bold>\<open>Idealisations.\<close>  The indices of \<^verbatim>\<open>memblock_search\<close> and of \<^verbatim>\<open>memblock_add_range\<close>, 32-bit in the code, are natural
  numbers; they agree below \<open>2 ^ 31\<close> regions.  \<^verbatim>\<open>bitmap_fold\<close> of size 0, which divides by zero in C, leaves the bits in
  place.  \<^verbatim>\<open>alloc_percpu\<close> in the set-up of the per-CPU lists always succeeds.  \<^verbatim>\<open>mutex_trylock\<close> in
  \<^verbatim>\<open>try_purge_vmap_area_lazy\<close> always takes the lock, as on one CPU, and \<^verbatim>\<open>kfree_rcu\<close> frees at once.

  \<^bold>\<open>Not modelled.\<close>  Printing and diagnostics (\<^verbatim>\<open>printk\<close>, dumps), locks (the model runs one CPU, and a lock that
  is taken and released around a routine changes nothing there), caches, barriers and the conversion between
  kernel virtual addresses and pages; the assembly, the page tables and the drivers; the debugging options of
  the page allocator; the two parsers of bit lists in \<^verbatim>\<open>bitmap.c\<close>.  The sizing of zones walks memory with an
  iterator that never ends (a theorem of \<open>Memblock_Spec\<close>), so the zone sizes are parameters of the
  set-up.  Of \<^verbatim>\<open>vmalloc.c\<close>, the allocation of pages behind an area and the areas of the per-CPU allocator are left
  out.  The other parts of the kernel (slab, per-CPU memory, radix trees) are not modelled.
\<close>

end
